(* ===== verification/Prelude.thy ===== *)
theory Prelude
  imports Complex_Main "HOL-Library.Word" "HOL-Library.Stream" "HOL-Library.Multiset"
begin

text \<open>
  Shared vocabulary of the development: machine integer widths, the C++ exceptions the
  server throws, the outcome of a call (a value, a thrown exception, or a crash: a call of
  \<open>abort()\<close>, a failed \<open>VERIFY\<close> or undefined behaviour such as an out-of-range store or a null
  dereference), configuration trees, and generic lemmas on lists and sums.

  Conventions used by every theory:
  \<^item> \<open>size_t\<close>, \<open>ui16\<close>, \<open>ui32\<close>, \<open>ui64\<close> counters that can wrap in the code are words; lengths
    and indices bounded by the memory of the process are \<open>nat\<close>;
  \<^item> \<open>double\<close> is \<open>real\<close>: sums, products and quotients are exact. Every divisor of the modelled
    code is shown non-zero where a property depends on the quotient;
  \<^item> a field the constructor leaves uninitialised is an argument of the model's constructor;
  \<^item> the clock and the random generator are arguments: the instant a call reads, the stream of
    numbers \<open>RandomNumber\<close> will return.
\<close>

section \<open>Machine integers and outcomes\<close>

type_synonym ui16 = "16 word"
type_synonym ui32 = "32 word"
type_synonym ui64 = "64 word"
type_synonym bytes = string

text \<open>
  The exception classes of the server: \<open>THttpError\<close> and \<open>THttpParseError\<close> (a subclass of it)
  in web/httpd/kernel/errors.h and http.h, \<open>TSystemError\<close> with its errno, \<open>TConfigParseError\<close>,
  \<open>TStreamError\<close>, a plain \<open>yexception\<close>, and the error a Lua type check raises.
\<close>

datatype exn =
    HttpError ui16
  | HttpParseError ui16
  | SystemError int
  | ConfigParseError
  | StreamError
  | Yexception
  | LuaError

text \<open>\<open>catch (const THttpError& err)\<close> also catches the subclass.\<close>

fun http_code :: "exn \<Rightarrow> ui16 option" where
  "http_code (HttpError c) = Some c"
| "http_code (HttpParseError c) = Some c"
| "http_code _ = None"

datatype 'a outcome = Ret 'a | Throw exn | Crash

primrec obind :: "'a outcome \<Rightarrow> ('a \<Rightarrow> 'b outcome) \<Rightarrow> 'b outcome" where
  "obind (Ret x) f = f x"
| "obind (Throw e) f = Throw e"
| "obind Crash f = Crash"

primrec map_outcome_val :: "('a \<Rightarrow> 'b) \<Rightarrow> 'a outcome \<Rightarrow> 'b outcome" where
  "map_outcome_val f (Ret x) = Ret (f x)"
| "map_outcome_val f (Throw e) = Throw e"
| "map_outcome_val f Crash = Crash"

lemma obind_Ret_iff: "obind m f = Ret y \<longleftrightarrow> (\<exists>x. m = Ret x \<and> f x = Ret y)"
  by (cases m) auto

lemma obind_Throw_iff:
  "obind m f = Throw e \<longleftrightarrow> m = Throw e \<or> (\<exists>x. m = Ret x \<and> f x = Throw e)"
  by (cases m) auto

lemma obind_Crash_iff:
  "obind m f = Crash \<longleftrightarrow> m = Crash \<or> (\<exists>x. m = Ret x \<and> f x = Crash)"
  by (cases m) auto

lemmas obind_iffs = obind_Ret_iff obind_Throw_iff obind_Crash_iff

lemma obind_cong [fundef_cong]:
  assumes "m = m'" and "\<And>x. m' = Ret x \<Longrightarrow> f x = f' x"
  shows "obind m f = obind m' f'"
  using assms by (cases m') auto

text \<open>A loop over a list whose body may throw: it stops at the first failure.\<close>

fun ofold :: "('a \<Rightarrow> 's \<Rightarrow> 's outcome) \<Rightarrow> 'a list \<Rightarrow> 's \<Rightarrow> 's outcome" where
  "ofold f [] s = Ret s"
| "ofold f (x # xs) s = obind (f x s) (ofold f xs)"

lemma ofold_append: "ofold f (xs @ ys) s = obind (ofold f xs s) (ofold f ys)"
  by (induction xs arbitrary: s) (auto simp: obind_Ret_iff intro: obind_cong split: outcome.splits,
      metis obind.simps outcome.exhaust)

lemma ofold_invariant:
  assumes "ofold f xs s = Ret t" and "P s"
    and step: "\<And>x s t. x \<in> set xs \<Longrightarrow> P s \<Longrightarrow> f x s = Ret t \<Longrightarrow> P t"
  shows "P t"
  using assms
proof (induction xs arbitrary: s)
  case Nil
  then show ?case by simp
next
  case (Cons x xs)
  then obtain u where u: "f x s = Ret u" "ofold f xs u = Ret t"
    by (auto simp: obind_Ret_iff)
  from Cons.prems u(1) have "P u" by auto
  with u(2) show ?case
    using Cons.IH Cons.prems(3) by (meson list.set_intros(2))
qed

section \<open>Configuration trees\<close>

text \<open>
  A configuration is a Lua table: a list of keys and values in the order \<open>lua_next\<close> visits
  them. \<open>CfgStr\<close> is a Lua string or number, which \<open>luaL_checklstring\<close> converts.
\<close>

datatype cfg_value = CfgStr string | CfgBool bool | CfgTable "(string \<times> cfg_value) list"

type_synonym cfg = "(string \<times> cfg_value) list"

fun AsString :: "cfg_value \<Rightarrow> string outcome" where
  "AsString (CfgStr s) = Ret s"
| "AsString _ = Throw LuaError"

fun AsBool :: "cfg_value \<Rightarrow> bool outcome" where
  "AsBool (CfgBool b) = Ret b"
| "AsBool _ = Throw LuaError"

fun AsSubConfig :: "cfg_value \<Rightarrow> cfg outcome" where
  "AsSubConfig (CfgTable t) = Ret t"
| "AsSubConfig _ = Throw ConfigParseError"

text \<open>\<open>IConfig::ForEach\<close> hands every key and value to the functor.\<close>

definition ForEach :: "(string \<Rightarrow> cfg_value \<Rightarrow> 's \<Rightarrow> 's outcome) \<Rightarrow> cfg \<Rightarrow> 's \<Rightarrow> 's outcome" where
  "ForEach consume c = ofold (\<lambda>(k, v). consume k v) c"

text \<open>
  \<open>ON_KEY(k, v)\<close> parses the value into a field; \<open>parse\<close> is \<open>FromString<T>\<close>, which throws on
  malformed text. The \<open>else\<close> branch is the rest of the \<open>DoConsume\<close> body.
\<close>

definition ON_KEY ::
  "string \<Rightarrow> (string \<Rightarrow> 'v outcome) \<Rightarrow> ('v \<Rightarrow> 's \<Rightarrow> 's) \<Rightarrow> string \<Rightarrow> cfg_value \<Rightarrow> 's
   \<Rightarrow> 's outcome \<Rightarrow> 's outcome" where
  "ON_KEY k parse set_field key v s rest =
     (if key = k
      then obind (AsString v) (\<lambda>str. obind (parse str) (\<lambda>x. Ret (set_field x s)))
      else rest)"

section \<open>Lists and sums\<close>

lemma sum_list_map_pos:
  fixes f :: "'a \<Rightarrow> real"
  assumes "xs \<noteq> []" and "\<And>x. x \<in> set xs \<Longrightarrow> 0 < f x"
  shows "0 < sum_list (map f xs)"
  using assms
proof (induction xs)
  case (Cons x xs)
  show ?case
  proof (cases "xs = []")
    case True
    with Cons.prems show ?thesis by simp
  next
    case False
    with Cons have "0 < sum_list (map f xs)" by simp
    moreover have "0 < f x" using Cons.prems by simp
    ultimately show ?thesis by simp
  qed
qed simp

lemma sum_list_map_nonneg:
  fixes f :: "'a \<Rightarrow> real"
  assumes "\<And>x. x \<in> set xs \<Longrightarrow> 0 \<le> f x"
  shows "0 \<le> sum_list (map f xs)"
  using assms by (intro sum_list_nonneg) auto

lemma sum_list_map_divide:
  fixes f :: "'a \<Rightarrow> real"
  shows "sum_list (map (\<lambda>x. f x / c) xs) = sum_list (map f xs) / c"
  by (induction xs) (auto simp: add_divide_distrib)

lemma sum_list_map_mult_const:
  fixes f :: "'a \<Rightarrow> real"
  shows "sum_list (map (\<lambda>x. f x * c) xs) = sum_list (map f xs) * c"
  by (induction xs) (auto simp: distrib_right)

lemma sum_list_update_add:
  fixes xs :: "real list"
  assumes "i < length xs"
  shows "sum_list (xs[i := xs ! i + d]) = sum_list xs + d"
  using assms by (induction xs arbitrary: i) (auto split: nat.split)

lemma map_update_field:
  assumes "i < length xs"
  shows "map f (xs[i := g (xs ! i)]) = (map f xs)[i := f (g (xs ! i))]"
  using assms by (simp add: map_update)

lemma foldl_add_sum_list:
  fixes a :: real
  shows "foldl (\<lambda>s x. s + f x) a xs = a + sum_list (map f xs)"
  by (induction xs arbitrary: a) auto

end
