(* ===== verification/Trackers.thy ===== *)
theory Trackers
  imports Prelude
begin

text \<open>
  The statistics the balancing algorithms keep: \<open>TMiddleValueTracker\<close> and \<open>TDeviationTracker\<close>
  (web/httpd/modules/balancer/deviation.h), \<open>TAvgTracker\<close>, \<open>TTimeLimitedAvgTracker\<close> and
  \<open>TMedianTracker\<close> (average.h). Each ring buffer is related to the window of the values added
  last, oldest first.
\<close>

section \<open>Exponential moving averages (deviation.h)\<close>

record mvt =
  mvt_S :: real
  mvt_Coeff :: real

definition mvt_new :: "real \<Rightarrow> real \<Rightarrow> mvt" where
  "mvt_new initial coeff = \<lparr>mvt_S = initial, mvt_Coeff = coeff\<rparr>"

definition mvt_Add :: "'a mvt_scheme \<Rightarrow> real \<Rightarrow> 'a mvt_scheme" where
  "mvt_Add t val = t\<lparr>mvt_S := mvt_Coeff t * mvt_S t + (1 - mvt_Coeff t) * val\<rparr>"

definition mvt_M :: "'a mvt_scheme \<Rightarrow> real" where
  "mvt_M t = mvt_S t"

definition mvt_C :: "'a mvt_scheme \<Rightarrow> real" where
  "mvt_C t = mvt_Coeff t"

text \<open>\<open>TDeviationTracker\<close> derives from \<open>TMiddleValueTracker\<close>, as the record extends it.\<close>

record dev = mvt +
  dev_D :: mvt

definition dev_new :: "real \<Rightarrow> real \<Rightarrow> dev" where
  "dev_new initial coeff = \<lparr>mvt_S = initial, mvt_Coeff = coeff, dev_D = mvt_new 0 coeff\<rparr>"

definition dev_Add :: "dev \<Rightarrow> real \<Rightarrow> dev" where
  "dev_Add t val =
     (let t1 = mvt_Add t val
      in t1\<lparr>dev_D := mvt_Add (dev_D t1) ((mvt_M t1 - val)\<^sup>2)\<rparr>)"

definition dev_Dev :: "dev \<Rightarrow> real" where
  "dev_Dev t = sqrt (mvt_M (dev_D t))"

definition dev_GenMax :: "dev \<Rightarrow> real" where
  "dev_GenMax t = mvt_M t + 3 * dev_Dev t"

lemmas mvt_defs = mvt_new_def mvt_Add_def mvt_M_def mvt_C_def

lemma mvt_Add_simps [simp]:
  "mvt_S (mvt_Add t v) = mvt_Coeff t * mvt_S t + (1 - mvt_Coeff t) * v"
  "mvt_Coeff (mvt_Add t v) = mvt_Coeff t"
  by (simp_all add: mvt_Add_def)

lemma mvt_more_Add [simp]: "mvt.more (mvt_Add t v) = mvt.more t"
  by (simp add: mvt_Add_def)

lemma dev_D_mvt_Add [simp]: "dev_D (mvt_Add t v) = dev_D t"
  by (cases t) (simp add: mvt_Add_def)

lemma convex_between:
  fixes c lo hi x y :: real
  assumes "0 \<le> c" and "c \<le> 1" and "lo \<le> x" and "x \<le> hi" and "lo \<le> y" and "y \<le> hi"
  shows "lo \<le> c * x + (1 - c) * y" and "c * x + (1 - c) * y \<le> hi"
proof -
  have "c * lo + (1 - c) * lo \<le> c * x + (1 - c) * y"
    using assms by (intro add_mono mult_left_mono) auto
  then show "lo \<le> c * x + (1 - c) * y" by (simp add: algebra_simps)
  have "c * x + (1 - c) * y \<le> c * hi + (1 - c) * hi"
    using assms by (intro add_mono mult_left_mono) auto
  then show "c * x + (1 - c) * y \<le> hi" by (simp add: algebra_simps)
qed

lemma mvt_Add_between:
  assumes "0 \<le> mvt_Coeff t" and "mvt_Coeff t \<le> 1"
    and "lo \<le> mvt_S t" and "mvt_S t \<le> hi" and "lo \<le> v" and "v \<le> hi"
  shows "lo \<le> mvt_S (mvt_Add t v)" and "mvt_S (mvt_Add t v) \<le> hi"
  using convex_between [OF assms] by simp_all

lemma mvt_Add_fold_Coeff [simp]: "mvt_Coeff (foldl mvt_Add t vs) = mvt_Coeff t"
  by (induction vs arbitrary: t) simp_all

text \<open>The deviation never becomes negative under the square root.\<close>

lemma dev_D_nonneg_Add:
  assumes "0 \<le> mvt_Coeff (dev_D t)" and "mvt_Coeff (dev_D t) \<le> 1" and "0 \<le> mvt_S (dev_D t)"
  shows "0 \<le> mvt_S (dev_D (dev_Add t v))"
  using assms by (auto simp: dev_Add_def Let_def mvt_M_def intro!: add_nonneg_nonneg mult_nonneg_nonneg)

section \<open>\<open>TAvgTracker\<close> (average.h)\<close>

record avg =
  avg_V :: "real list"
  avg_Sum :: real
  avg_C :: nat

definition avg_new :: "nat \<Rightarrow> real \<Rightarrow> avg" where
  "avg_new N v = \<lparr>avg_V = replicate N v, avg_Sum = v * real N, avg_C = 0\<rparr>"

definition avg_Get :: "nat \<Rightarrow> avg \<Rightarrow> real" where
  "avg_Get N t = avg_Sum t / real N"

definition avg_Add :: "nat \<Rightarrow> avg \<Rightarrow> real \<Rightarrow> avg" where
  "avg_Add N t v =
     \<lparr>avg_V = (avg_V t)[avg_C t := v],
      avg_Sum = avg_Sum t - avg_V t ! avg_C t + v,
      avg_C = (avg_C t + 1) mod N\<rparr>"

text \<open>The ring read from its oldest entry.\<close>

definition ring :: "nat \<Rightarrow> 'a list \<Rightarrow> 'a list" where
  "ring c xs = drop c xs @ take c xs"

lemma length_ring [simp]: "length (ring c xs) = length xs"
  by (simp add: ring_def)

lemma ring_0 [simp]: "ring 0 xs = xs"
  by (simp add: ring_def)

lemma ring_length [simp]: "ring (length xs) xs = xs"
  by (simp add: ring_def)

lemma ring_nth_0: "c < length xs \<Longrightarrow> ring c xs ! 0 = xs ! c"
  by (simp add: ring_def nth_append)

lemma ring_nth: "c < length xs \<Longrightarrow> k < length xs \<Longrightarrow> ring c xs ! k = xs ! ((c + k) mod length xs)"
  by (auto simp: ring_def nth_append mod_if less_diff_conv add.commute)

lemma mset_ring: "mset (ring c xs) = mset xs"
  by (metis append_take_drop_id mset_append ring_def add.commute)

lemma sum_list_ring: "sum_list (ring c xs) = sum_list (xs :: real list)"
  by (metis append_take_drop_id ring_def sum_list_append add.commute)

lemma ring_push:
  assumes "c < length xs"
  shows "ring (Suc c) (xs[c := v]) = tl (ring c xs) @ [v]"
proof -
  have "drop c xs = xs ! c # drop (Suc c) xs"
    using assms by (simp add: Cons_nth_drop_Suc)
  moreover have "take (Suc c) (xs[c := v]) = take c xs @ [v]"
    using assms by (simp add: take_Suc_conv_app_nth)
  ultimately show ?thesis
    by (simp add: ring_def)
qed

lemma ring_push_mod:
  assumes "c < length xs"
  shows "ring (Suc c mod length xs) (xs[c := v]) = tl (ring c xs) @ [v]"
proof (cases "Suc c = length xs")
  case True
  then have "ring (Suc c) (xs[c := v]) = xs[c := v]"
    by (simp add: ring_def)
  with True ring_push [OF assms, of v] show ?thesis by simp
next
  case False
  with assms have "Suc c < length xs" by simp
  with ring_push [OF assms, of v] show ?thesis by simp
qed

lemma ring_rotate:
  "c < length xs \<Longrightarrow> ring (Suc c mod length xs) xs = tl (ring c xs) @ [xs ! c]"
  using ring_push_mod [of c xs "xs ! c"] by simp

definition avg_inv :: "nat \<Rightarrow> avg \<Rightarrow> bool" where
  "avg_inv N t \<longleftrightarrow> 0 < N \<and> length (avg_V t) = N \<and> avg_C t < N \<and> avg_Sum t = sum_list (avg_V t)"

lemma avg_inv_new: "0 < N \<Longrightarrow> avg_inv N (avg_new N v)"
  by (simp add: avg_inv_def avg_new_def sum_list_replicate mult.commute)

lemma sum_list_update_swap:
  fixes xs :: "real list"
  assumes "i < length xs"
  shows "sum_list (xs[i := v]) = sum_list xs - xs ! i + v"
  using sum_list_update_add [OF assms, of "v - xs ! i"] by simp

lemma avg_inv_Add: "avg_inv N t \<Longrightarrow> avg_inv N (avg_Add N t v)"
  by (auto simp: avg_inv_def avg_Add_def sum_list_update_swap)

lemma avg_ring_Add:
  "avg_inv N t \<Longrightarrow>
   ring (avg_C (avg_Add N t v)) (avg_V (avg_Add N t v)) = tl (ring (avg_C t) (avg_V t)) @ [v]"
  using ring_push_mod [of "avg_C t" "avg_V t" v] by (auto simp: avg_inv_def avg_Add_def)

text \<open>The \<open>n\<close> elements at the end of a list.\<close>

definition lastn :: "nat \<Rightarrow> 'a list \<Rightarrow> 'a list" where
  "lastn n xs = drop (length xs - n) xs"

lemma lastn_snoc_full:
  assumes "n \<le> length xs" and "0 < n"
  shows "lastn n (xs @ [v]) = tl (lastn n xs) @ [v]"
  using assms by (simp add: lastn_def Suc_diff_le drop_Suc tl_drop)

lemma length_lastn [simp]: "length (lastn n xs) = min n (length xs)"
  by (simp add: lastn_def)

lemma set_lastn: "set (lastn n xs) \<subseteq> set xs"
  by (simp add: lastn_def set_drop_subset)

lemma avg_fold:
  assumes "0 < N"
  shows "avg_inv N (foldl (avg_Add N) (avg_new N v0) vs)
    \<and> ring (avg_C (foldl (avg_Add N) (avg_new N v0) vs)) (avg_V (foldl (avg_Add N) (avg_new N v0) vs))
      = lastn N (replicate N v0 @ vs)"
proof (induction vs rule: rev_induct)
  case Nil
  show ?case using avg_inv_new [OF assms] by (simp add: avg_new_def lastn_def)
next
  case (snoc v vs)
  then show ?case
    using assms lastn_snoc_full [of N "replicate N v0 @ vs" v]
    by (simp add: avg_inv_Add avg_ring_Add)
qed

section \<open>\<open>TTimeLimitedAvgTracker\<close> (average.h)\<close>

record tla =
  tla_V :: "real list"
  tla_T :: "ui64 list"
  tla_Cur :: nat
  tla_Total :: nat
  tla_Sum :: real
  tla_Ttl :: ui64

text \<open>
  The constructor sets \<open>Cur_\<close>, \<open>Total_\<close> and \<open>Ttl_\<close>; the array \<open>V_\<close> and the running sum \<open>Sum_\<close>
  are left uninitialised, so their first values are arguments.
\<close>

definition tla_new :: "nat \<Rightarrow> real list \<Rightarrow> real \<Rightarrow> ui64 \<Rightarrow> tla" where
  "tla_new N V0 Sum0 ttl =
     \<lparr>tla_V = V0, tla_T = replicate N 0, tla_Cur = 0, tla_Total = 0, tla_Sum = Sum0, tla_Ttl = ttl\<rparr>"

definition tla_Add :: "nat \<Rightarrow> ui64 \<Rightarrow> real \<Rightarrow> tla \<Rightarrow> tla" where
  "tla_Add N now v t =
     (if tla_Total t = N then
        t\<lparr>tla_Sum := tla_Sum t + v - tla_V t ! tla_Cur t,
          tla_V := (tla_V t)[tla_Cur t := v],
          tla_T := (tla_T t)[tla_Cur t := now],
          tla_Cur := (tla_Cur t + 1) mod N\<rparr>
      else
        let l = (tla_Cur t + tla_Total t) mod N in
        t\<lparr>tla_V := (tla_V t)[l := v],
          tla_T := (tla_T t)[l := now],
          tla_Sum := tla_Sum t + v,
          tla_Total := tla_Total t + 1\<rparr>)"

text \<open>The body of the loop of \<open>Check\<close>.\<close>

definition tla_pop :: "nat \<Rightarrow> tla \<Rightarrow> tla" where
  "tla_pop N t =
     t\<lparr>tla_Sum := tla_Sum t - tla_V t ! tla_Cur t,
       tla_Total := tla_Total t - 1,
       tla_Cur := (tla_Cur t + 1) mod N\<rparr>"

function tla_Check :: "nat \<Rightarrow> ui64 \<Rightarrow> tla \<Rightarrow> tla" where
  "tla_Check N now t =
     (if tla_Total t \<noteq> 0 \<and> now - tla_T t ! tla_Cur t > tla_Ttl t
      then tla_Check N now (tla_pop N t)
      else t)"
  by pat_completeness auto
termination
  by (relation "measure (\<lambda>(N, now, t). tla_Total t)") (auto simp: tla_pop_def)

declare tla_Check.simps [simp del]

definition tla_Get :: "nat \<Rightarrow> ui64 \<Rightarrow> tla \<Rightarrow> (real \<times> nat) \<times> tla" where
  "tla_Get N now t =
     (let t1 = tla_Check N now t in ((tla_Sum t1, tla_Total t1), t1))"

text \<open>The live entries, oldest first, with the instants they were added at.\<close>

definition tla_live :: "nat \<Rightarrow> tla \<Rightarrow> (ui64 \<times> real) list" where
  "tla_live N t = take (tla_Total t) (ring (tla_Cur t) (zip (tla_T t) (tla_V t)))"

definition tla_expired :: "ui64 \<Rightarrow> ui64 \<Rightarrow> ui64 \<times> real \<Rightarrow> bool" where
  "tla_expired now ttl e \<longleftrightarrow> now - fst e > ttl"

definition tla_inv :: "nat \<Rightarrow> tla \<Rightarrow> bool" where
  "tla_inv N t \<longleftrightarrow> 0 < N \<and> length (tla_V t) = N \<and> length (tla_T t) = N
     \<and> tla_Cur t < N \<and> tla_Total t \<le> N"

lemma tla_inv_new: "0 < N \<Longrightarrow> length V0 = N \<Longrightarrow> tla_inv N (tla_new N V0 Sum0 ttl)"
  by (simp add: tla_inv_def tla_new_def)

lemma tla_live_new [simp]: "tla_live N (tla_new N V0 Sum0 ttl) = []"
  by (simp add: tla_live_def tla_new_def)

lemma tla_inv_Add: "tla_inv N t \<Longrightarrow> tla_inv N (tla_Add N now v t)"
  by (auto simp: tla_inv_def tla_Add_def Let_def)

lemma length_tla_live [simp]: "tla_inv N t \<Longrightarrow> length (tla_live N t) = tla_Total t"
  by (simp add: tla_inv_def tla_live_def)

lemma mod_add_small: "c < L \<Longrightarrow> k < L \<Longrightarrow> (c + k) mod L = (if c + k < L then c + k else c + k - L)"
  for c k L :: nat
  by (auto simp: mod_if)

lemma mod_add_inj: "c < L \<Longrightarrow> k < L \<Longrightarrow> n < L \<Longrightarrow> (c + k) mod L = (c + n) mod L \<longleftrightarrow> k = n"
  for c k n L :: nat
  by (simp add: mod_add_small) arith

lemma take_ring_update:
  assumes "c < length xs" and "n < length xs"
  shows "take (Suc n) (ring c (xs[(c + n) mod length xs := x])) = take n (ring c xs) @ [x]"
proof -
  let ?l = "(c + n) mod length xs"
  have l: "?l < length xs" using assms by (intro mod_less_divisor) (cases xs, auto)
  have eq: "ring c (xs[?l := x]) = (ring c xs)[n := x]"
  proof (rule nth_equalityI)
    fix k assume "k < length (ring c (xs[?l := x]))"
    then have k: "k < length xs" by simp
    have inj: "(c + k) mod length xs = ?l \<longleftrightarrow> k = n"
      using assms k by (simp add: mod_add_inj)
    have "ring c (xs[?l := x]) ! k = xs[?l := x] ! ((c + k) mod length xs)"
      using ring_nth [of c "xs[?l := x]" k] assms k by simp
    then show "ring c (xs[?l := x]) ! k = (ring c xs)[n := x] ! k"
      using assms k l inj ring_nth [of c xs k] by (cases "k = n") simp_all
  qed simp
  show ?thesis
    using assms by (simp add: eq take_Suc_conv_app_nth)
qed

lemma zip_update_both:
  "i < length xs \<Longrightarrow> length xs = length ys \<Longrightarrow>
   zip (xs[i := x]) (ys[i := y]) = (zip xs ys)[i := (x, y)]"
  by (simp add: update_zip)

lemma tla_live_Add:
  assumes "tla_inv N t"
  shows "tla_live N (tla_Add N now v t) =
    (if tla_Total t = N then tl (tla_live N t) else tla_live N t) @ [(now, v)]"
proof -
  let ?z = "zip (tla_T t) (tla_V t)"
  have inv: "length ?z = N" "tla_Cur t < N" "0 < N" "tla_Total t \<le> N"
    "length (tla_T t) = length (tla_V t)"
    using assms by (auto simp: tla_inv_def)
  show ?thesis
  proof (cases "tla_Total t = N")
    case True
    have "ring (Suc (tla_Cur t) mod N) (?z[tla_Cur t := (now, v)]) = tl (ring (tla_Cur t) ?z) @ [(now, v)]"
      using ring_push_mod [of "tla_Cur t" ?z "(now, v)"] inv by simp
    with True inv show ?thesis
      by (simp add: tla_live_def tla_Add_def zip_update_both)
  next
    case False
    with inv have "tla_Total t < length ?z" by simp
    with take_ring_update [of "tla_Cur t" ?z "tla_Total t" "(now, v)"] False inv show ?thesis
      by (simp add: tla_live_def tla_Add_def Let_def zip_update_both)
  qed
qed

lemma tla_live_Cons:
  assumes "tla_inv N t" and "tla_Total t \<noteq> 0"
  shows "tla_live N t = (tla_T t ! tla_Cur t, tla_V t ! tla_Cur t) # tl (tla_live N t)"
proof -
  let ?z = "zip (tla_T t) (tla_V t)"
  have inv: "length ?z = N" "tla_Cur t < N" "length (tla_T t) = length (tla_V t)"
    using assms by (auto simp: tla_inv_def)
  have "tla_live N t ! 0 = (tla_T t ! tla_Cur t, tla_V t ! tla_Cur t)"
    using inv assms(2) by (simp add: tla_live_def ring_nth_0)
  moreover have "tla_live N t \<noteq> []"
    using assms length_tla_live [OF assms(1)] by (metis list.size(3))
  ultimately show ?thesis
    by (cases "tla_live N t") auto
qed

lemma tla_pop_spec:
  assumes "tla_inv N t" and "tla_Total t \<noteq> 0"
  shows "tla_inv N (tla_pop N t)" and "tla_live N (tla_pop N t) = tl (tla_live N t)"
    and "tla_Ttl (tla_pop N t) = tla_Ttl t" and "tla_Sum (tla_pop N t) = tla_Sum t - tla_V t ! tla_Cur t"
proof -
  let ?z = "zip (tla_T t) (tla_V t)"
  have inv: "length ?z = N" "tla_Cur t < N" "0 < N" "tla_Total t \<le> N"
    using assms by (auto simp: tla_inv_def)
  show "tla_inv N (tla_pop N t)" using assms by (auto simp: tla_inv_def tla_pop_def)
  show "tla_Ttl (tla_pop N t) = tla_Ttl t" and "tla_Sum (tla_pop N t) = tla_Sum t - tla_V t ! tla_Cur t"
    by (simp_all add: tla_pop_def)
  obtain m where m: "tla_Total t = Suc m"
    using assms(2) not0_implies_Suc by blast
  have "ring (Suc (tla_Cur t) mod N) ?z = tl (ring (tla_Cur t) ?z) @ [?z ! tla_Cur t]"
    using ring_rotate [of "tla_Cur t" ?z] inv by (simp del: length_zip nth_zip)
  moreover have "m \<le> length (tl (ring (tla_Cur t) ?z))"
    using inv m by simp
  ultimately show "tla_live N (tla_pop N t) = tl (tla_live N t)"
    by (simp add: tla_live_def tla_pop_def m take_tl)
qed

text \<open>\<open>Check\<close> drops the expired entries from the front and keeps sum and count in step.\<close>

lemma tla_Check_spec:
  assumes "tla_inv N t"
  shows "tla_inv N (tla_Check N now t)
    \<and> tla_live N (tla_Check N now t) = dropWhile (tla_expired now (tla_Ttl t)) (tla_live N t)
    \<and> tla_Sum (tla_Check N now t) - sum_list (map snd (tla_live N (tla_Check N now t)))
        = tla_Sum t - sum_list (map snd (tla_live N t))
    \<and> tla_Ttl (tla_Check N now t) = tla_Ttl t"
  using assms
proof (induction N now t rule: tla_Check.induct)
  case (1 N now t)
  show ?case
  proof (cases "tla_Total t \<noteq> 0 \<and> now - tla_T t ! tla_Cur t > tla_Ttl t")
    case True
    then have nz: "tla_Total t \<noteq> 0" by simp
    note pop = tla_pop_spec [OF "1.prems" nz]
    have eq: "tla_Check N now t = tla_Check N now (tla_pop N t)"
      using True by (subst tla_Check.simps) simp
    have head: "tla_live N t = (tla_T t ! tla_Cur t, tla_V t ! tla_Cur t) # tla_live N (tla_pop N t)"
      using tla_live_Cons [OF "1.prems" nz] pop(2) by simp
    from "1.IH" [OF True pop(1)] show ?thesis
      unfolding eq pop(3,4) using True by (auto simp: head tla_expired_def)
  next
    case False
    then have eq: "tla_Check N now t = t"
      by (subst tla_Check.simps) auto
    have "dropWhile (tla_expired now (tla_Ttl t)) (tla_live N t) = tla_live N t"
    proof (cases "tla_Total t = 0")
      case True
      then show ?thesis using length_tla_live [OF "1.prems"] by (simp add: True)
    next
      case nz: False
      with False show ?thesis by (subst (1 2) tla_live_Cons [OF "1.prems" nz]) (simp add: tla_expired_def)
    qed
    with "1.prems" show ?thesis by (simp add: eq)
  qed
qed

section \<open>\<open>TMedianTracker\<close> (average.h)\<close>

record med =
  med_V :: "real list"
  med_C :: nat
  med_N :: nat

definition med_new :: "real list \<Rightarrow> med" where
  "med_new V0 = \<lparr>med_V = V0, med_C = 0, med_N = 0\<rparr>"

text \<open>
  The average of the sorted values around position \<open>n * filled / 100\<close>. The result is converted to
  \<open>size_t\<close> and back to \<open>double\<close>, that is, rounded towards zero (the values are answer times, never
  negative). \<open>QuickSort\<close> is \<open>std::sort\<close>.
\<close>

definition percentile :: "nat \<Rightarrow> real list \<Rightarrow> real" where
  "percentile n xs =
     (let filled = length xs in
      if filled = 0 then 0
      else
        let VC = sort xs;
            pos = n * filled div 100;
            f = pos - 2;
            l = min (pos + 3) filled
        in real (nat \<lfloor>sum_list (map ((!) VC) [f..<l]) / real (l - f)\<rfloor>))"

definition med_Get :: "nat \<Rightarrow> nat \<Rightarrow> med \<Rightarrow> real" where
  "med_Get N n t = percentile n (take (min (med_N t) N) (med_V t))"

definition med_Add :: "nat \<Rightarrow> real \<Rightarrow> med \<Rightarrow> med" where
  "med_Add N v t =
     t\<lparr>med_V := (med_V t)[med_C t := v],
       med_C := (med_C t + 1) mod N,
       med_N := med_N t + 1\<rparr>"

lemma percentile_mset:
  assumes "mset xs = mset ys"
  shows "percentile n xs = percentile n ys"
proof -
  have "length xs = length ys" using assms by (rule mset_eq_length)
  moreover have "sort xs = sort ys"
    using assms by (metis sorted_list_of_multiset_mset)
  ultimately show ?thesis by (simp only: percentile_def)
qed

definition med_inv :: "nat \<Rightarrow> real list \<Rightarrow> med \<Rightarrow> bool" where
  "med_inv N vs t \<longleftrightarrow> 0 < N \<and> length (med_V t) = N \<and> med_N t = length vs
     \<and> med_C t = length vs mod N
     \<and> mset (take (min (length vs) N) (med_V t)) = mset (lastn N vs)
     \<and> (length vs < N \<longrightarrow> take (length vs) (med_V t) = vs)
     \<and> (N \<le> length vs \<longrightarrow> ring (med_C t) (med_V t) = lastn N vs)"

lemma med_inv_new: "0 < N \<Longrightarrow> length V0 = N \<Longrightarrow> med_inv N [] (med_new V0)"
  by (simp add: med_inv_def med_new_def lastn_def)

lemma med_inv_Add:
  assumes inv: "med_inv N vs t"
  shows "med_inv N (vs @ [v]) (med_Add N v t)"
proof -
  let ?V = "med_V t" and ?c = "med_C t" and ?n = "length vs"
  have N: "0 < N" "length ?V = N" "?c = ?n mod N" "?c < N" and n: "med_N t = ?n"
    using inv by (auto simp: med_inv_def)
  have V': "med_V (med_Add N v t) = ?V[?c := v]" and C': "med_C (med_Add N v t) = Suc ?c mod N"
    and N': "med_N (med_Add N v t) = Suc ?n"
    by (simp_all add: med_Add_def n)
  show ?thesis
  proof (cases "?n < N")
    case True
    then have c: "?c = ?n" using N by simp
    have pre: "take ?n ?V = vs" using inv True by (auto simp: med_inv_def)
    have take': "take (Suc ?n) (?V[?c := v]) = vs @ [v]"
      using True N c pre by (simp add: take_Suc_conv_app_nth)
    have last: "lastn N (vs @ [v]) = vs @ [v]"
      using True by (simp add: lastn_def)
    have ringV: "ring (Suc ?n mod N) (?V[?c := v]) = vs @ [v]" if "N \<le> Suc ?n"
    proof -
      from that True have "Suc ?n = N" by simp
      with take' N c show ?thesis by simp
    qed
    show ?thesis
      using True N take' last c ringV inv
      by (simp add: med_inv_def V' C' N' min_absorb1 Suc_leI)
  next
    case False
    then have ring: "ring ?c ?V = lastn N vs"
      using inv by (auto simp: med_inv_def)
    have ring': "ring (Suc ?c mod N) (?V[?c := v]) = lastn N (vs @ [v])"
      using ring_push_mod [of ?c ?V v] N ring lastn_snoc_full [of N vs v] False by simp
    have "mset (?V[?c := v]) = mset (lastn N (vs @ [v]))"
      using mset_ring [of "Suc ?c mod N" "?V[?c := v]"] ring' by simp
    then show ?thesis
      using False N ring' by (simp add: med_inv_def V' C' N' min_absorb2 mod_Suc_eq)
  qed
qed

lemma med_inv_fold:
  assumes "0 < N" and "length V0 = N"
  shows "med_inv N vs (foldl (\<lambda>t v. med_Add N v t) (med_new V0) vs)"
  by (induction vs rule: rev_induct) (simp_all add: med_inv_new assms med_inv_Add)

lemma med_Get_window: "med_inv N vs t \<Longrightarrow> med_Get N n t = percentile n (lastn N vs)"
  unfolding med_Get_def by (rule percentile_mset) (simp add: med_inv_def)

text \<open>The averaged positions lie inside the sorted array.\<close>

lemma percentile_range:
  assumes "n \<le> 99" and "0 < filled"
  shows "n * filled div 100 - 2 < min (n * filled div 100 + 3) (filled :: nat)"
proof -
  have "n * filled < filled * 100"
    using assms mult_le_mono1 [of n 99 filled] by simp
  then have "n * filled div 100 < filled"
    by (simp add: div_less_iff_less_mult)
  with assms show ?thesis by auto
qed

lemma mean_between:
  fixes xs :: "real list"
  assumes "xs \<noteq> []" and "\<And>x. x \<in> set xs \<Longrightarrow> lo \<le> x" and "\<And>x. x \<in> set xs \<Longrightarrow> x \<le> hi"
  shows "lo \<le> sum_list xs / real (length xs)" and "sum_list xs / real (length xs) \<le> hi"
proof -
  have "real (length xs) * lo \<le> sum_list xs"
    using assms(2) by (induction xs) (auto simp: algebra_simps intro: add_mono)
  then show "lo \<le> sum_list xs / real (length xs)"
    using assms(1) by (simp add: pos_le_divide_eq mult.commute)
  have "sum_list xs \<le> real (length xs) * hi"
    using assms(3) by (induction xs) (auto simp: algebra_simps intro: add_mono)
  then show "sum_list xs / real (length xs) \<le> hi"
    using assms(1) by (simp add: pos_divide_le_eq mult.commute)
qed

lemma percentile_between:
  assumes "n \<le> 99" and "xs \<noteq> []" and lo: "\<And>x. x \<in> set xs \<Longrightarrow> lo \<le> x"
    and hi: "\<And>x. x \<in> set xs \<Longrightarrow> x \<le> hi" and "0 \<le> lo"
  shows "real (nat \<lfloor>lo\<rfloor>) \<le> percentile n xs" and "percentile n xs \<le> hi"
proof -
  let ?f = "n * length xs div 100 - 2" and ?l = "min (n * length xs div 100 + 3) (length xs)"
  let ?ys = "map ((!) (sort xs)) [?f..<?l]"
  have fl: "?f < ?l" using percentile_range [of n "length xs"] assms by simp
  have sub: "y \<in> set xs" if "y \<in> set ?ys" for y
  proof -
    from that obtain i where "i < length (sort xs)" and "y = sort xs ! i"
      by auto
    then have "y \<in> set (sort xs)" by (simp only: nth_mem)
    then show ?thesis by simp
  qed
  define m where "m = sum_list ?ys / real (?l - ?f)"
  have len: "length ?ys = ?l - ?f" by simp
  with fl have ne: "?ys \<noteq> []" by (metis list.size(3) not_less zero_less_diff less_irrefl)
  have mean: "lo \<le> m" "m \<le> hi"
    using mean_between [of ?ys lo hi, OF ne lo [OF sub] hi [OF sub]] by (simp_all only: m_def len)
  have eq: "percentile n xs = real (nat \<lfloor>m\<rfloor>)"
    using assms(2) by (simp only: percentile_def Let_def m_def length_0_conv if_False)
  have "nat \<lfloor>lo\<rfloor> \<le> nat \<lfloor>m\<rfloor>" using mean(1) by (intro nat_mono floor_mono)
  then show "real (nat \<lfloor>lo\<rfloor>) \<le> percentile n xs" by (simp only: eq of_nat_le_iff)
  have "0 \<le> m" using mean(1) assms(5) by linarith
  then have "real (nat \<lfloor>m\<rfloor>) \<le> m" by simp
  then show "percentile n xs \<le> hi" unfolding eq using mean(2) by linarith
qed

section \<open>What the trackers report\<close>

text \<open>The calls a client makes on a time-limited tracker, each at the instant it reads the clock.\<close>

datatype tla_op = OpAdd ui64 real | OpGet ui64

fun tla_step :: "nat \<Rightarrow> tla \<Rightarrow> tla_op \<Rightarrow> tla" where
  "tla_step N t (OpAdd now v) = tla_Add N now v t"
| "tla_step N t (OpGet now) = snd (tla_Get N now t)"

text \<open>The specification: a queue of at most \<open>N\<close> timed values.\<close>

fun timed_queue_step :: "nat \<Rightarrow> ui64 \<Rightarrow> (ui64 \<times> real) list \<Rightarrow> tla_op \<Rightarrow> (ui64 \<times> real) list" where
  "timed_queue_step N ttl q (OpAdd now v) = lastn N (q @ [(now, v)])"
| "timed_queue_step N ttl q (OpGet now) = dropWhile (tla_expired now ttl) q"

lemma lastn_snoc_bounded:
  assumes "length q \<le> N" and "0 < N"
  shows "lastn N (q @ [x]) = (if length q = N then tl q else q) @ [x]"
  using assms lastn_snoc_full [of N q x] by (auto simp: lastn_def drop_Suc)

definition tla_refines :: "nat \<Rightarrow> real \<Rightarrow> ui64 \<Rightarrow> (ui64 \<times> real) list \<Rightarrow> tla \<Rightarrow> bool" where
  "tla_refines N Sum0 ttl q t \<longleftrightarrow> tla_inv N t \<and> tla_live N t = q \<and> tla_Ttl t = ttl
     \<and> tla_Sum t = Sum0 + sum_list (map snd q)"

lemma tla_refines_Add:
  assumes "tla_refines N Sum0 ttl q t"
  shows "tla_refines N Sum0 ttl (timed_queue_step N ttl q (OpAdd now v)) (tla_Add N now v t)"
proof -
  have inv: "tla_inv N t" and q: "q = tla_live N t" and sum: "tla_Sum t = Sum0 + sum_list (map snd q)"
    and ttl: "tla_Ttl t = ttl"
    using assms by (auto simp: tla_refines_def)
  then have len: "length q = tla_Total t" and N: "0 < N" "tla_Total t \<le> N"
    by (auto simp: tla_inv_def)
  have live: "tla_live N (tla_Add N now v t) = lastn N (q @ [(now, v)])"
    using tla_live_Add [OF inv, of now v] lastn_snoc_bounded [of q N "(now, v)"] N len q by simp
  have "tla_Sum (tla_Add N now v t) = Sum0 + sum_list (map snd (lastn N (q @ [(now, v)])))"
  proof (cases "tla_Total t = N")
    case True
    then have "q = (tla_T t ! tla_Cur t, tla_V t ! tla_Cur t) # tl q"
      using tla_live_Cons [OF inv] N q by simp
    then obtain q' where q': "q = (tla_T t ! tla_Cur t, tla_V t ! tla_Cur t) # q'" ..
    then show ?thesis
      using True N len sum lastn_snoc_bounded [of q N "(now, v)"] by (simp add: tla_Add_def)
  next
    case False
    then show ?thesis
      using N len sum lastn_snoc_bounded [of q N "(now, v)"] by (simp add: tla_Add_def Let_def)
  qed
  moreover have "tla_Ttl (tla_Add N now v t) = ttl"
    using ttl by (simp add: tla_Add_def Let_def)
  ultimately show ?thesis
    using live tla_inv_Add [OF inv] by (simp add: tla_refines_def)
qed

lemma tla_refines_Check:
  assumes "tla_refines N Sum0 ttl q t"
  shows "tla_refines N Sum0 ttl (dropWhile (tla_expired now ttl) q) (tla_Check N now t)"
  using assms tla_Check_spec [of N t now] by (auto simp: tla_refines_def)

lemma tla_refines_run:
  assumes "0 < N" and "length V0 = N"
  shows "tla_refines N Sum0 ttl (foldl (timed_queue_step N ttl) [] ops)
           (foldl (tla_step N) (tla_new N V0 Sum0 ttl) ops)"
proof (induction ops rule: rev_induct)
  case Nil
  show ?case using assms by (simp add: tla_refines_def tla_inv_new) (simp add: tla_new_def)
next
  case (snoc op ops)
  then show ?case
    by (cases op) (auto simp: tla_refines_Add [simplified] tla_Get_def Let_def intro: tla_refines_Check)
qed

text \<open>
  A time-limited tracker refines a queue of the last \<open>N\<close> timed values: after any run of
  \<open>Add\<close> and \<open>Get\<close> calls, \<open>Get\<close> reports the number of values left once the expired ones are
  dropped from the front, and their sum offset by the value \<open>Sum_\<close> happened to have before the
  first call (the constructor does not initialise it).
\<close>

theorem time_limited_tracker_refines_queue:
  assumes "0 < N" and "length V0 = N"
  shows "fst (tla_Get N now (foldl (tla_step N) (tla_new N V0 Sum0 ttl) ops))
    = (let q = dropWhile (tla_expired now ttl) (foldl (timed_queue_step N ttl) [] ops)
       in (Sum0 + sum_list (map snd q), length q))"
proof -
  let ?t = "foldl (tla_step N) (tla_new N V0 Sum0 ttl) ops"
  have "tla_refines N Sum0 ttl (dropWhile (tla_expired now ttl) (foldl (timed_queue_step N ttl) [] ops))
          (tla_Check N now ?t)"
    by (intro tla_refines_Check tla_refines_run assms)
  then show ?thesis
    using length_tla_live [of N "tla_Check N now ?t"]
    by (auto simp: tla_refines_def tla_Get_def Let_def)
qed

theorem time_limited_tracker_refines_queue_witness:
  "fst (tla_Get 2 9 (foldl (tla_step 2) (tla_new 2 [0, 0] 0 5) [OpAdd 1 4, OpAdd 5 6, OpAdd 7 8])) = (14, 2)"
  using time_limited_tracker_refines_queue [of 2 "[0, 0]" 9 0 5 "[OpAdd 1 4, OpAdd 5 6, OpAdd 7 8]"]
  by (simp add: tla_expired_def lastn_def Let_def)

text \<open>
  The average tracker reports the mean of the last \<open>N\<close> values it was given, the initial
  value standing in for the ones not yet given.
\<close>

theorem average_tracker_mean:
  assumes "0 < N"
  shows "avg_Get N (foldl (avg_Add N) (avg_new N v0) vs)
    = sum_list (lastn N (replicate N v0 @ vs)) / real N"
proof -
  let ?t = "foldl (avg_Add N) (avg_new N v0) vs"
  have "avg_Sum ?t = sum_list (lastn N (replicate N v0 @ vs))"
    using avg_fold [OF assms, of v0 vs] sum_list_ring [of "avg_C ?t" "avg_V ?t"]
    by (simp add: avg_inv_def)
  then show ?thesis by (simp add: avg_Get_def)
qed

theorem average_tracker_mean_witness:
  "avg_Get 2 (foldl (avg_Add 2) (avg_new 2 1) [5, 7, 9]) = 8"
  using average_tracker_mean [of 2 1 "[5, 7, 9]"] by (simp add: lastn_def)

text \<open>
  \<open>TMedianTracker::Get(n)\<close> is the rank average at the \<open>n\<close>-th percentile of the last \<open>N\<close>
  values, whatever the uninitialised array held, and lies between the smallest (rounded down,
  because the result is cast to \<open>size_t\<close>) and the largest of them.
\<close>

theorem median_tracker_window:
  assumes "0 < N" and "length V0 = N" and "n \<le> 99" and "vs \<noteq> []" and "0 \<le> lo"
    and "list_all (\<lambda>v. lo \<le> v \<and> v \<le> hi) (lastn N vs)"
  shows "med_Get N n (foldl (\<lambda>t v. med_Add N v t) (med_new V0) vs) = percentile n (lastn N vs)
    \<and> real (nat \<lfloor>lo\<rfloor>) \<le> percentile n (lastn N vs) \<and> percentile n (lastn N vs) \<le> hi"
proof -
  have "0 < length (lastn N vs)" using assms(1,4) by simp
  then have "lastn N vs \<noteq> []" by (metis less_irrefl list.size(3))
  then show ?thesis
    using assms(6) percentile_between [of n "lastn N vs" lo hi] assms(3,5)
      med_Get_window [OF med_inv_fold [OF assms(1,2), of vs]]
    by (auto simp: list_all_iff)
qed

theorem median_tracker_window_witness:
  "med_Get 3 50 (foldl (\<lambda>t v. med_Add 3 v t) (med_new [0, 0, 0]) [9, 1, 2, 3]) \<le> 3"
  using median_tracker_window [of 3 "[0, 0, 0]" 50 "[9, 1, 2, 3]" 1 3]
  by (simp add: lastn_def)

end
