(* ===== verification/Backends.thy ===== *)
theory Backends
  imports Trackers "HOL-Library.Monad_Syntax"
begin

text \<open>
  Modules, their factory, backend descriptors and the interface \<open>IBackEnds\<close> of a balancing
  algorithm (web/httpd/kernel/iface.h, factory.h, module.h; web/httpd/modules/balancer/backend.h,
  backend.cpp, iterator.h). A module is a value of the type variable \<open>'m\<close>. A backend is named by its
  position in the list of its algorithm, a null \<open>IBackEnd*\<close> is \<open>None\<close>.

  The algorithms are records of functions, the virtual table of \<open>IBackEnds\<close>; the locale
  \<open>backends\<close> states what the balancer relies on, \<open>backends_progress\<close> what the connection iterator
  needs to return.
\<close>

section \<open>Module handles and factories\<close>

record 'm handle =
  h_Name :: string
  h_Construct :: "cfg \<Rightarrow> 'm outcome"

datatype 'm factory = Factory "'m factory option" "string \<rightharpoonup> 'm handle"

definition factory_new :: "'m factory option \<Rightarrow> 'm factory" where
  "factory_new slave = Factory slave Map.empty"

fun AddHandle :: "'m handle \<Rightarrow> 'm factory \<Rightarrow> 'm factory" where
  "AddHandle hndl (Factory S Handles) = Factory S (Handles(h_Name hndl \<mapsto> hndl))"

fun SelectHandle :: "'m factory \<Rightarrow> string \<Rightarrow> 'm handle option" where
  "SelectHandle (Factory S Handles) name =
     (case Handles name of
        Some h \<Rightarrow> Some h
      | None \<Rightarrow> (case S of Some f \<Rightarrow> SelectHandle f name | None \<Rightarrow> None))"

text \<open>\<open>Load\<close>: \<open>None\<close> is the null pointer.\<close>

definition Load :: "'m factory \<Rightarrow> string \<Rightarrow> cfg \<Rightarrow> 'm option outcome" where
  "Load loader name params =
     (case SelectHandle loader name of
        None \<Rightarrow> Ret None
      | Some handle \<Rightarrow> map_outcome_val Some (h_Construct handle params))"

definition MustLoad :: "'m factory \<Rightarrow> string \<Rightarrow> cfg \<Rightarrow> 'm outcome" where
  "MustLoad loader name params =
     obind (Load loader name params) (\<lambda>module. case module of None \<Rightarrow> Throw Yexception | Some m \<Rightarrow> Ret m)"

section \<open>\<open>TBackEndDescriptor\<close>\<close>

record 'm descriptor =
  d_Weight :: real
  d_Module :: "'m option"

definition descriptor_DoConsume ::
  "(string \<Rightarrow> real outcome) \<Rightarrow> 'm factory \<Rightarrow> string \<Rightarrow> cfg_value \<Rightarrow> 'm descriptor \<Rightarrow> 'm descriptor outcome" where
  "descriptor_DoConsume fromString loader key v d =
     ON_KEY ''weight'' fromString (\<lambda>x d. d\<lparr>d_Weight := x\<rparr>) key v d
       (obind (AsSubConfig v) (\<lambda>sub. obind (MustLoad loader key sub) (\<lambda>m. Ret (d\<lparr>d_Module := Some m\<rparr>))))"

definition descriptor_new ::
  "(string \<Rightarrow> real outcome) \<Rightarrow> 'm factory \<Rightarrow> cfg \<Rightarrow> 'm descriptor outcome" where
  "descriptor_new fromString loader c =
     obind (ForEach (descriptor_DoConsume fromString loader) c \<lparr>d_Weight = 1, d_Module = None\<rparr>)
       (\<lambda>d. if d_Module d = None then Throw ConfigParseError else Ret d)"

text \<open>
  The \<open>DoConsume\<close> all algorithms share: every value of the configuration is a backend, added by
  \<open>Add(Copy(value->AsSubConfig()))\<close>.
\<close>

definition Add_backend ::
  "(string \<Rightarrow> real outcome) \<Rightarrow> 'm factory \<Rightarrow> ('m descriptor \<Rightarrow> 's \<Rightarrow> 's) \<Rightarrow> string \<Rightarrow> cfg_value \<Rightarrow> 's \<Rightarrow> 's outcome" where
  "Add_backend fromString loader add key v s =
     obind (AsSubConfig v) (\<lambda>sub. obind (descriptor_new fromString loader sub) (\<lambda>d. Ret (add d s)))"

lemma descriptor_new_module: "descriptor_new fromString loader c = Ret d \<Longrightarrow> d_Module d \<noteq> None"
  by (auto simp: descriptor_new_def obind_Ret_iff split: if_splits)

text \<open>
  A loop over the configuration that only adds backends preserves what every addition of a
  descriptor with a module preserves.
\<close>

lemma ForEach_Add_backend:
  assumes "ForEach (Add_backend fromString loader add) c s = Ret t" and "P s"
    and step: "\<And>d s. d_Module d \<noteq> None \<Longrightarrow> P s \<Longrightarrow> P (add d s)"
  shows "P t"
  by (rule ofold_invariant [where P = P, OF assms(1) [unfolded ForEach_def] assms(2)])
    (auto simp: Add_backend_def obind_Ret_iff dest!: descriptor_new_module intro!: step)

text \<open>Every entry of the configuration adds one backend.\<close>

lemma ForEach_Add_backend_size:
  assumes "ForEach (Add_backend fromString loader add) c s = Ret t" and step: "\<And>d s. sz (add d s) = Suc (sz s)"
  shows "sz t = sz s + length c"
  using assms(1) unfolding ForEach_def
proof (induction c arbitrary: s)
  case (Cons kv c)
  obtain k v where kv: "kv = (k, v)" by fastforce
  from Cons.prems obtain u where u: "Add_backend fromString loader add k v s = Ret u"
      "ofold (\<lambda>(k, v) s. Add_backend fromString loader add k v s) c u = Ret t"
    by (auto simp: kv obind_Ret_iff)
  then have "sz u = Suc (sz s)" by (auto simp: Add_backend_def obind_Ret_iff step)
  with Cons.IH [OF u(2)] show ?case by simp
qed simp

section \<open>\<open>IBackEnds\<close>\<close>

record ('s, 'm) ibackends =
  be_DoNext :: "ui64 \<Rightarrow> ui64 \<Rightarrow> 's \<Rightarrow> nat option outcome \<times> 's"
  be_Size :: "'s \<Rightarrow> nat"
  be_Module :: "nat \<Rightarrow> 's \<Rightarrow> 'm"
  be_OnComplete :: "ui64 \<Rightarrow> nat \<Rightarrow> 's \<Rightarrow> 's"
  be_OnFail :: "ui64 \<Rightarrow> nat \<Rightarrow> 's \<Rightarrow> 's"

text \<open>\<open>Next(descr, attempt)\<close> builds the \<open>TAttempt\<close> and calls \<open>DoNext\<close>.\<close>

definition be_Next :: "('s, 'm) ibackends \<Rightarrow> ui64 \<Rightarrow> ui64 \<Rightarrow> 's \<Rightarrow> nat option outcome \<times> 's" where
  "be_Next ops hash attempt s = be_DoNext ops hash attempt s"

section \<open>\<open>TConnIterator\<close>\<close>

text \<open>\<open>Attempts_[0 .. Cur_)\<close> and \<open>Attempt_\<close>; the array has 16 entries.\<close>

record conn_iter =
  it_Attempts :: "nat option list"
  it_Attempt :: ui64

definition conn_iter_new :: conn_iter where
  "conn_iter_new = \<lparr>it_Attempts = [], it_Attempt = 0\<rparr>"

definition AlreadyHave :: "nat option \<Rightarrow> nat option list \<Rightarrow> bool" where
  "AlreadyHave b attempts = list_ex (\<lambda>x. x = b) attempts"

text \<open>
  The search loop of \<open>Next\<close>; not returning is \<open>None\<close>. \<open>Next\<close> is declared \<open>throw ()\<close>, so an
  exception of \<open>DoNext\<close> terminates the process.
\<close>

partial_function (option) ci_search ::
  "('s, 'm) ibackends \<Rightarrow> ui64 \<Rightarrow> nat option list \<Rightarrow> ui64 \<Rightarrow> 's \<Rightarrow> (nat option outcome \<times> ui64 \<times> 's) option" where
  "ci_search ops hash attempts a s =
     (case be_Next ops hash a s of
        (Ret b, s') \<Rightarrow>
          if AlreadyHave b attempts \<and> length attempts < be_Size ops s'
          then ci_search ops hash attempts (a + 1) s'
          else Some (Ret b, a + 1, s')
      | (_, s') \<Rightarrow> Some (Crash, a + 1, s'))"

definition ci_Next ::
  "('s, 'm) ibackends \<Rightarrow> ui64 \<Rightarrow> conn_iter \<Rightarrow> 's \<Rightarrow> (nat option outcome \<times> conn_iter \<times> 's) option" where
  "ci_Next ops hash it s =
     (case ci_search ops hash (it_Attempts it) (it_Attempt it) s of
        None \<Rightarrow> None
      | Some (Ret b, a, s') \<Rightarrow>
          Some (if length (it_Attempts it) < 16
                then (Ret b, \<lparr>it_Attempts = it_Attempts it @ [b], it_Attempt = a\<rparr>, s')
                else (Crash, it\<lparr>it_Attempt := a\<rparr>, s'))
      | Some (_, a, s') \<Rightarrow> Some (Crash, it\<lparr>it_Attempt := a\<rparr>, s'))"

section \<open>Contracts\<close>

locale backends =
  fixes ops :: "('s, 'm) ibackends" and inv :: "'s \<Rightarrow> bool"
  assumes next_ok: "inv s \<Longrightarrow> \<exists>i s'. be_DoNext ops h a s = (Ret (Some i), s') \<and> i < be_Size ops s
      \<and> inv s' \<and> be_Size ops s' = be_Size ops s"
    and complete_ok: "inv s \<Longrightarrow> i < be_Size ops s \<Longrightarrow>
      inv (be_OnComplete ops t i s) \<and> be_Size ops (be_OnComplete ops t i s) = be_Size ops s"
    and fail_ok: "inv s \<Longrightarrow> i < be_Size ops s \<Longrightarrow>
      inv (be_OnFail ops t i s) \<and> be_Size ops (be_OnFail ops t i s) = be_Size ops s"
begin

lemma nextE:
  assumes "inv s"
  obtains i s' where "be_Next ops h a s = (Ret (Some i), s')" and "i < be_Size ops s" and "inv s'"
    and "be_Size ops s' = be_Size ops s"
  using next_ok [OF assms, of h a] by (auto simp: be_Next_def)

text \<open>What the search returns, if it returns.\<close>

definition found :: "nat option list \<Rightarrow> 's \<Rightarrow> nat option outcome \<times> ui64 \<times> 's \<Rightarrow> bool" where
  "found bs s = (\<lambda>(r, a', s'). \<exists>i. r = Ret (Some i) \<and> i < be_Size ops s \<and> inv s'
     \<and> be_Size ops s' = be_Size ops s \<and> (length bs < be_Size ops s \<longrightarrow> Some i \<notin> set bs))"

lemma search_found:
  assumes "inv s" and ret: "ci_search ops h bs a s = Some r"
  shows "found bs s r"
proof -
  have "ops = ops \<longrightarrow> inv s \<longrightarrow> found bs s r"
  proof (rule ci_search.raw_induct
      [where P = "\<lambda>ops' h bs a s r. ops' = ops \<longrightarrow> inv s \<longrightarrow> found bs s r", OF _ ret], intro impI)
    fix f ops' h bs a s r
    assume IH: "\<And>ops' h bs a s r. f ops' h bs a s = Some r \<Longrightarrow> ops' = ops \<longrightarrow> inv s \<longrightarrow> found bs s r"
      and step: "(case be_Next ops' h a s of
        (Ret b, s') \<Rightarrow>
          if AlreadyHave b bs \<and> length bs < be_Size ops' s' then f ops' h bs (a + 1) s'
          else Some (Ret b, a + 1, s')
      | (_, s') \<Rightarrow> Some (Crash, a + 1, s')) = Some r"
      and ops: "ops' = ops" and s: "inv s"
    obtain i s' where n: "be_Next ops h a s = (Ret (Some i), s')" "i < be_Size ops s" "inv s'"
        "be_Size ops s' = be_Size ops s"
      by (rule nextE [OF s])
    show "found bs s r"
    proof (cases "AlreadyHave (Some i) bs \<and> length bs < be_Size ops s")
      case True
      with step n ops have "f ops h bs (a + 1) s' = Some r" by simp
      with IH n(3) have "found bs s' r" by blast
      with n(4) show ?thesis by (simp add: found_def)
    next
      case False
      with step n ops show ?thesis by (auto simp: found_def AlreadyHave_def list_ex_iff)
    qed
  qed
  with assms(1) show ?thesis by simp
qed

text \<open>
  The iterator's record of attempts: backends that exist, without repetition while there are
  backends left to try.
\<close>

definition iter_inv :: "conn_iter \<Rightarrow> 's \<Rightarrow> bool" where
  "iter_inv it s \<longleftrightarrow> set (it_Attempts it) \<subseteq> Some ` {..<be_Size ops s}
     \<and> (length (it_Attempts it) \<le> be_Size ops s \<longrightarrow> distinct (it_Attempts it))"

lemma iter_inv_new: "iter_inv conn_iter_new s"
  by (simp add: iter_inv_def conn_iter_new_def)

lemma iter_inv_size: "be_Size ops s' = be_Size ops s \<Longrightarrow> iter_inv it s' = iter_inv it s"
  by (simp add: iter_inv_def)

lemma ci_Next_result:
  assumes "inv s" and "iter_inv it s" and "length (it_Attempts it) < 16"
    and "ci_Next ops h it s = Some (r, it', s')"
  shows "\<exists>i. r = Ret (Some i) \<and> i < be_Size ops s \<and> inv s' \<and> be_Size ops s' = be_Size ops s
    \<and> iter_inv it' s' \<and> it_Attempts it' = it_Attempts it @ [Some i]"
proof -
  let ?bs = "it_Attempts it"
  obtain q a t where q: "ci_search ops h ?bs (it_Attempt it) s = Some (q, a, t)"
    using assms(4) by (auto simp: ci_Next_def split: option.splits)
  then obtain i where i: "q = Ret (Some i)" "i < be_Size ops s" "inv t" "be_Size ops t = be_Size ops s"
      "length ?bs < be_Size ops s \<longrightarrow> Some i \<notin> set ?bs"
    using search_found [OF assms(1) q] by (auto simp: found_def)
  have eq: "r = Ret (Some i)" "it' = \<lparr>it_Attempts = ?bs @ [Some i], it_Attempt = a\<rparr>" "s' = t"
    using assms(3,4) q i(1) by (simp_all add: ci_Next_def)
  moreover have "iter_inv it' s'"
    using assms(2) i by (auto simp: iter_inv_def eq)
  ultimately show ?thesis using i by simp
qed

end

text \<open>The state after \<open>n\<close> calls of \<open>DoNext\<close> and the backend the next one returns.\<close>

fun be_after :: "('s, 'm) ibackends \<Rightarrow> ui64 \<Rightarrow> ui64 \<Rightarrow> nat \<Rightarrow> 's \<Rightarrow> 's" where
  "be_after ops h a 0 s = s"
| "be_after ops h a (Suc n) s = be_after ops h (a + 1) n (snd (be_DoNext ops h a s))"

definition be_pick :: "('s, 'm) ibackends \<Rightarrow> ui64 \<Rightarrow> ui64 \<Rightarrow> nat \<Rightarrow> 's \<Rightarrow> nat option outcome" where
  "be_pick ops h a n s = fst (be_DoNext ops h (a + of_nat n) (be_after ops h a n s))"

lemma be_pick_Suc: "be_pick ops h a (Suc n) s = be_pick ops h (a + 1) n (snd (be_DoNext ops h a s))"
  by (simp add: be_pick_def algebra_simps)

lemma be_after_last:
  "be_after ops h a (Suc n) s = snd (be_DoNext ops h (a + of_nat n) (be_after ops h a n s))"
proof (induction n arbitrary: a s)
  case (Suc n)
  show ?case
    using Suc [of "a + 1" "snd (be_DoNext ops h a s)"] by (simp add: algebra_simps)
qed simp

text \<open>
  A history of calls: requests for a backend and reports of finished requests. The run collects
  the backends handed out, newest first.
\<close>

datatype be_event = AskNext ui64 ui64 | Completed ui64 nat | Failed ui64 nat

fun be_event_step :: "('s, 'm) ibackends \<Rightarrow> be_event \<Rightarrow> nat option outcome list \<times> 's \<Rightarrow> nat option outcome list \<times> 's" where
  "be_event_step ops (AskNext h a) (ps, s) = (case be_DoNext ops h a s of (r, s') \<Rightarrow> (r # ps, s'))"
| "be_event_step ops (Completed t i) (ps, s) = (ps, be_OnComplete ops t i s)"
| "be_event_step ops (Failed t i) (ps, s) = (ps, be_OnFail ops t i s)"

fun ev_ok :: "nat \<Rightarrow> be_event \<Rightarrow> bool" where
  "ev_ok n (AskNext h a) = True"
| "ev_ok n (Completed t i) = (i < n)"
| "ev_ok n (Failed t i) = (i < n)"

definition be_run :: "('s, 'm) ibackends \<Rightarrow> be_event list \<Rightarrow> 's \<Rightarrow> nat option outcome list \<times> 's" where
  "be_run ops evs s = fold (be_event_step ops) evs ([], s)"

locale backends_progress = backends +
  assumes progress: "inv s \<Longrightarrow> j < be_Size ops s \<Longrightarrow> \<exists>n. be_pick ops h a n s = Ret (Some j)"
begin

lemma search_returns_within:
  assumes "inv s" and "be_pick ops h a n s = Ret (Some j)" and "Some j \<notin> set bs"
  shows "\<exists>r. ci_search ops h bs a s = Some r"
  using assms
proof (induction n arbitrary: a s)
  case 0
  then have "fst (be_Next ops h a s) = Ret (Some j)"
    by (simp add: be_pick_def be_Next_def)
  then obtain s' where "be_Next ops h a s = (Ret (Some j), s')"
    by (metis prod.collapse)
  with 0(3) show ?case
    by (subst ci_search.simps) (auto simp: AlreadyHave_def list_ex_iff)
next
  case (Suc n)
  obtain i s' where n: "be_Next ops h a s = (Ret (Some i), s')" "inv s'"
    by (rule nextE [OF Suc.prems(1)])
  have "be_pick ops h (a + 1) n s' = Ret (Some j)"
    using Suc.prems(2) n(1) by (simp add: be_pick_Suc be_Next_def)
  from Suc.IH [OF n(2) this Suc.prems(3)] n(1) show ?case
    by (subst ci_search.simps) auto
qed

lemma search_returns:
  assumes "inv s"
  shows "\<exists>r. ci_search ops h bs a s = Some r"
proof (cases "\<exists>j < be_Size ops s. Some j \<notin> set bs")
  case True
  then obtain j where "j < be_Size ops s" "Some j \<notin> set bs" by blast
  with progress [OF assms, of j h a] search_returns_within [OF assms] show ?thesis by blast
next
  case False
  then have "Some ` {..<be_Size ops s} \<subseteq> set bs" by auto
  then have "card (Some ` {..<be_Size ops s}) \<le> card (set bs)" by (intro card_mono) auto
  moreover have "card (Some ` {..<be_Size ops s}) = be_Size ops s" by (simp add: card_image)
  ultimately have "be_Size ops s \<le> length bs" using card_length [of bs] by linarith
  moreover obtain i s' where "be_Next ops h a s = (Ret (Some i), s')" "be_Size ops s' = be_Size ops s"
    by (rule nextE [OF assms])
  ultimately show ?thesis by (subst ci_search.simps) simp
qed

lemma ci_Next_total:
  assumes "inv s" and "iter_inv it s" and "length (it_Attempts it) < 16"
  shows "\<exists>i it' s'. ci_Next ops h it s = Some (Ret (Some i), it', s') \<and> i < be_Size ops s \<and> inv s'
    \<and> be_Size ops s' = be_Size ops s \<and> iter_inv it' s' \<and> it_Attempts it' = it_Attempts it @ [Some i]"
proof -
  obtain r where "ci_search ops h (it_Attempts it) (it_Attempt it) s = Some r"
    using search_returns [OF assms(1)] by blast
  then have "\<exists>x. ci_Next ops h it s = Some x"
    by (auto simp: ci_Next_def split: outcome.splits prod.splits)
  then obtain r it' s' where eq: "ci_Next ops h it s = Some (r, it', s')"
    by (metis prod_cases3)
  from ci_Next_result [OF assms eq] eq show ?thesis by blast
qed

end

end
