(* ===== verification/Arbiter.thy ===== *)
theory Arbiter
  imports Trackers
begin

text \<open>
  The arbiters that decide whether a failed request may be sent to another backend
  (web/httpd/modules/balancer/arbiter.h and arbiter.cpp): \<open>TFakeArbiter\<close>, \<open>TAdditiveArbiter\<close>
  and \<open>TWatermarkArbiter\<close>, their construction from the configuration and the dispatch of
  \<open>IReAskArbiter\<close>.
\<close>

section \<open>\<open>TAdditiveArbiter\<close>\<close>

text \<open>
  \<open>AlarmValue_\<close> is \<open>1.0 / SuccSummand_\<close>: with a zero summand the quotient is infinite, written
  \<open>None\<close>.
\<close>

record additive =
  add_FailRate :: real
  add_SuccSummand :: real
  add_FailSummand :: real
  add_AlarmValue :: "real option"

definition add_RegisterSucc :: "additive \<Rightarrow> additive" where
  "add_RegisterSucc a = a\<lparr>add_FailRate := max 0 (add_FailRate a - add_SuccSummand a)\<rparr>"

definition add_RegisterFail :: "additive \<Rightarrow> additive" where
  "add_RegisterFail a = a\<lparr>add_FailRate := add_FailRate a + add_FailSummand a\<rparr>"

definition add_Authorize :: "additive \<Rightarrow> bool" where
  "add_Authorize a =
     (case add_AlarmValue a of None \<Rightarrow> True | Some v \<Rightarrow> add_FailRate a < v)"

definition add_DoConsume ::
  "(string \<Rightarrow> real outcome) \<Rightarrow> string \<Rightarrow> cfg_value \<Rightarrow> additive \<Rightarrow> additive outcome" where
  "add_DoConsume fromString key v a =
     ON_KEY ''succinc'' fromString (\<lambda>x a. a\<lparr>add_SuccSummand := x\<rparr>) key v a
    (ON_KEY ''failinc'' fromString (\<lambda>x a. a\<lparr>add_FailSummand := x\<rparr>) key v a
    (Throw ConfigParseError))"

definition add_new :: "(string \<Rightarrow> real outcome) \<Rightarrow> cfg \<Rightarrow> additive outcome" where
  "add_new fromString c =
     obind (ForEach (add_DoConsume fromString) c
         \<lparr>add_FailRate = 0, add_SuccSummand = 5 / 100, add_FailSummand = 1, add_AlarmValue = Some 0\<rparr>)
       (\<lambda>a. Ret (a\<lparr>add_AlarmValue :=
          (if add_SuccSummand a = 0 then None else Some (1 / add_SuccSummand a))\<rparr>))"

section \<open>\<open>TWatermarkArbiter\<close>\<close>

record watermark =
  wm_Lo :: real
  wm_Hi :: real
  wm_FailRate :: mvt
  wm_Enabled :: bool

definition wm_RegisterSucc :: "watermark \<Rightarrow> watermark" where
  "wm_RegisterSucc w =
     (let w1 = w\<lparr>wm_FailRate := mvt_Add (wm_FailRate w) 0\<rparr>
      in if \<not> wm_Enabled w1 \<and> mvt_M (wm_FailRate w1) < wm_Lo w1
         then w1\<lparr>wm_Enabled := True\<rparr> else w1)"

definition wm_RegisterFail :: "watermark \<Rightarrow> watermark" where
  "wm_RegisterFail w =
     (let w1 = w\<lparr>wm_FailRate := mvt_Add (wm_FailRate w) 1\<rparr>
      in if wm_Enabled w1 \<and> mvt_M (wm_FailRate w1) > wm_Hi w1
         then w1\<lparr>wm_Enabled := False\<rparr> else w1)"

definition wm_Authorize :: "watermark \<Rightarrow> bool" where
  "wm_Authorize w = wm_Enabled w"

definition wm_DoConsume ::
  "(string \<Rightarrow> real outcome) \<Rightarrow> string \<Rightarrow> cfg_value \<Rightarrow> watermark \<Rightarrow> watermark outcome" where
  "wm_DoConsume fromString key v w =
     ON_KEY ''lo'' fromString (\<lambda>x w. w\<lparr>wm_Lo := x\<rparr>) key v w
    (ON_KEY ''hi'' fromString (\<lambda>x w. w\<lparr>wm_Hi := x\<rparr>) key v w
    (Throw ConfigParseError))"

definition wm_new :: "(string \<Rightarrow> real outcome) \<Rightarrow> cfg \<Rightarrow> watermark outcome" where
  "wm_new fromString c =
     obind (ForEach (wm_DoConsume fromString) c
         \<lparr>wm_Lo = 25 / 1000, wm_Hi = 5 / 100, wm_FailRate = mvt_new 0 (99 / 100), wm_Enabled = True\<rparr>)
       (\<lambda>w. if wm_Lo w > wm_Hi w then Throw ConfigParseError else Ret w)"

section \<open>\<open>IReAskArbiter\<close>\<close>

datatype arbiter =
    FakeArbiter
  | AdditiveArbiter additive
  | WatermarkArbiter watermark

fun RegisterSucc :: "arbiter \<Rightarrow> arbiter" where
  "RegisterSucc FakeArbiter = FakeArbiter"
| "RegisterSucc (AdditiveArbiter a) = AdditiveArbiter (add_RegisterSucc a)"
| "RegisterSucc (WatermarkArbiter w) = WatermarkArbiter (wm_RegisterSucc w)"

fun RegisterFail :: "arbiter \<Rightarrow> arbiter" where
  "RegisterFail FakeArbiter = FakeArbiter"
| "RegisterFail (AdditiveArbiter a) = AdditiveArbiter (add_RegisterFail a)"
| "RegisterFail (WatermarkArbiter w) = WatermarkArbiter (wm_RegisterFail w)"

fun Authorize :: "arbiter \<Rightarrow> bool" where
  "Authorize FakeArbiter = True"
| "Authorize (AdditiveArbiter a) = add_Authorize a"
| "Authorize (WatermarkArbiter w) = wm_Authorize w"

text \<open>\<open>None\<close> is the null pointer returned for a name that is no arbiter.\<close>

definition ConstructArbiter ::
  "(string \<Rightarrow> real outcome) \<Rightarrow> string \<Rightarrow> cfg \<Rightarrow> arbiter option outcome" where
  "ConstructArbiter fromString name c =
     (if name = ''additive'' then map_outcome_val (Some \<circ> AdditiveArbiter) (add_new fromString c)
      else if name = ''watermark'' then map_outcome_val (Some \<circ> WatermarkArbiter) (wm_new fromString c)
      else if name = ''fake'' then Ret (Some FakeArbiter)
      else Ret None)"

text \<open>The balancer reports each finished request: \<open>True\<close> a success, \<open>False\<close> a failure.\<close>

definition register :: "arbiter \<Rightarrow> bool \<Rightarrow> arbiter" where
  "register a ok = (if ok then RegisterSucc a else RegisterFail a)"

section \<open>The additive failure rate is a reflected walk\<close>

lemma add_Register_frame [simp]:
  "add_SuccSummand (add_RegisterSucc a) = add_SuccSummand a"
  "add_FailSummand (add_RegisterSucc a) = add_FailSummand a"
  "add_AlarmValue (add_RegisterSucc a) = add_AlarmValue a"
  "add_SuccSummand (add_RegisterFail a) = add_SuccSummand a"
  "add_FailSummand (add_RegisterFail a) = add_FailSummand a"
  "add_AlarmValue (add_RegisterFail a) = add_AlarmValue a"
  by (simp_all add: add_RegisterSucc_def add_RegisterFail_def)

definition add_register :: "additive \<Rightarrow> bool \<Rightarrow> additive" where
  "add_register a ok = (if ok then add_RegisterSucc a else add_RegisterFail a)"

lemma register_Additive: "foldl register (AdditiveArbiter a) es = AdditiveArbiter (foldl add_register a es)"
  by (induction es arbitrary: a) (simp_all add: register_def add_register_def)

text \<open>The signed contribution of a run of events, and the largest one over its suffixes.\<close>

definition walk :: "real \<Rightarrow> real \<Rightarrow> bool list \<Rightarrow> real" where
  "walk s f es = (\<Sum>e\<leftarrow>es. if e then - s else f)"

fun max_suffix_walk :: "real \<Rightarrow> real \<Rightarrow> bool list \<Rightarrow> real" where
  "max_suffix_walk s f [] = 0"
| "max_suffix_walk s f (e # es) = max (walk s f (e # es)) (max_suffix_walk s f es)"

lemma walk_append: "walk s f (xs @ ys) = walk s f xs + walk s f ys"
  by (simp add: walk_def)

lemma max_suffix_walk_snoc:
  assumes "0 \<le> s" and "0 \<le> f"
  shows "max_suffix_walk s f (es @ [e])
    = (if e then max 0 (max_suffix_walk s f es - s) else max_suffix_walk s f es + f)"
proof (induction es)
  case Nil
  show ?case using assms by (simp add: walk_def)
next
  case (Cons x es)
  have "walk s f (x # es @ [e]) = walk s f (x # es) + (if e then - s else f)"
    using walk_append [of s f "x # es" "[e]"] by (simp add: walk_def)
  with Cons.IH show ?case by auto
qed

lemma add_register_frame [simp]:
  "add_SuccSummand (foldl add_register a es) = add_SuccSummand a"
  "add_FailSummand (foldl add_register a es) = add_FailSummand a"
  "add_AlarmValue (foldl add_register a es) = add_AlarmValue a"
  by (induction es arbitrary: a) (simp_all add: add_register_def)

lemma add_register_rate:
  "add_FailRate (add_register a e)
   = (if e then max 0 (add_FailRate a - add_SuccSummand a) else add_FailRate a + add_FailSummand a)"
  by (simp add: add_register_def add_RegisterSucc_def add_RegisterFail_def)

lemma add_rate_walk:
  assumes "add_FailRate a = 0" and "0 \<le> add_SuccSummand a" and "0 \<le> add_FailSummand a"
  shows "add_FailRate (foldl add_register a es)
    = max_suffix_walk (add_SuccSummand a) (add_FailSummand a) es"
proof (induction es rule: rev_induct)
  case Nil
  show ?case using assms(1) by simp
next
  case (snoc e es)
  then show ?case
    using max_suffix_walk_snoc [OF assms(2,3), of es e] by (simp add: add_register_rate)
qed

section \<open>Watermarks\<close>

definition wm_register :: "watermark \<Rightarrow> bool \<Rightarrow> watermark" where
  "wm_register w ok = (if ok then wm_RegisterSucc w else wm_RegisterFail w)"

lemma register_Watermark: "foldl register (WatermarkArbiter w) es = WatermarkArbiter (foldl wm_register w es)"
  by (induction es arbitrary: w) (simp_all add: register_def wm_register_def)

definition wm_rate :: "watermark \<Rightarrow> real" where
  "wm_rate w = mvt_S (wm_FailRate w)"

definition wm_inv :: "watermark \<Rightarrow> bool" where
  "wm_inv w \<longleftrightarrow> mvt_Coeff (wm_FailRate w) = 99 / 100 \<and> 0 \<le> wm_rate w \<and> wm_rate w \<le> 1 \<and> wm_Lo w \<le> wm_Hi w"

lemma wm_register_frame [simp]:
  "wm_Lo (wm_register w e) = wm_Lo w"
  "wm_Hi (wm_register w e) = wm_Hi w"
  by (simp_all add: wm_register_def wm_RegisterSucc_def wm_RegisterFail_def Let_def)

lemma wm_register_rate:
  assumes c: "mvt_Coeff (wm_FailRate w) = 99 / 100"
  shows "wm_rate (wm_register w e) = 99 / 100 * wm_rate w + (if e then 0 else 1 / 100)"
proof -
  have "wm_FailRate (wm_register w e) = mvt_Add (wm_FailRate w) (if e then 0 else 1)"
    by (simp add: wm_register_def wm_RegisterSucc_def wm_RegisterFail_def Let_def)
  then show ?thesis by (simp only: wm_rate_def mvt_Add_def) (simp add: c)
qed

lemma wm_register_Coeff [simp]:
  "mvt_Coeff (wm_FailRate (wm_register w e)) = mvt_Coeff (wm_FailRate w)"
  by (simp add: wm_register_def wm_RegisterSucc_def wm_RegisterFail_def Let_def)

lemma wm_inv_register: "wm_inv w \<Longrightarrow> wm_inv (wm_register w e)"
  by (auto simp: wm_inv_def wm_register_rate)

lemma wm_inv_run: "wm_inv w \<Longrightarrow> wm_inv (foldl wm_register w es)"
  by (induction es arbitrary: w) (simp_all add: wm_inv_register)

lemma wm_frame_run [simp]:
  "wm_Lo (foldl wm_register w es) = wm_Lo w" "wm_Hi (foldl wm_register w es) = wm_Hi w"
  by (induction es arbitrary: w) simp_all

text \<open>One report switches the arbiter only across the watermark of its direction.\<close>

lemma wm_register_Enabled:
  "wm_Enabled (wm_register w e) =
     (if e then wm_Enabled w \<or> wm_rate (wm_register w e) < wm_Lo w
      else wm_Enabled w \<and> wm_rate (wm_register w e) \<le> wm_Hi w)"
  by (auto simp: wm_register_def wm_RegisterSucc_def wm_RegisterFail_def wm_rate_def mvt_M_def Let_def)

lemma wm_succ_rate:
  assumes "wm_inv w"
  shows "wm_rate (foldl wm_register w (replicate n True)) = (99 / 100) ^ n * wm_rate w"
  using assms
proof (induction n arbitrary: w)
  case (Suc n)
  then show ?case
    by (simp add: wm_inv_register wm_register_rate wm_inv_def)
qed simp

lemma wm_succ_keeps:
  "wm_Enabled w \<Longrightarrow> wm_Enabled (foldl wm_register w (replicate n True))"
  by (induction n arbitrary: w) (simp_all add: wm_register_Enabled)

lemma wm_new_inv:
  assumes "wm_new fromString c = Ret w"
  shows "wm_inv w" and "wm_rate w = 0" and "wm_Enabled w"
proof -
  let ?w0 = "\<lparr>wm_Lo = 25 / 1000, wm_Hi = 5 / 100, wm_FailRate = mvt_new 0 (99 / 100), wm_Enabled = True\<rparr>"
  from assms have fold: "ofold (\<lambda>(k, v). wm_DoConsume fromString k v) c ?w0 = Ret w"
    and le: "wm_Lo w \<le> wm_Hi w"
    by (auto simp: wm_new_def ForEach_def obind_Ret_iff split: if_splits)
  have "wm_FailRate w = mvt_new 0 (99 / 100) \<and> wm_Enabled w"
    by (rule ofold_invariant [OF fold])
      (auto simp: wm_DoConsume_def ON_KEY_def obind_Ret_iff split: if_splits)
  with le show "wm_inv w" and "wm_rate w = 0" and "wm_Enabled w"
    by (auto simp: wm_inv_def wm_rate_def mvt_new_def)
qed

section \<open>Re-ask policies\<close>

text \<open>
  The additive arbiter: after any sequence of reports its failure rate is the largest
  balance (failures weighted by \<open>failinc\<close> minus successes weighted by \<open>succinc\<close>) over the
  suffixes of the sequence, so a re-ask is authorised exactly while that balance is below the
  alarm value \<open>1 / succinc\<close>.
\<close>

theorem additive_arbiter_policy:
  assumes "add_FailRate a = 0" and "0 < add_SuccSummand a" and "0 \<le> add_FailSummand a"
    and "add_AlarmValue a = Some (1 / add_SuccSummand a)"
  shows "Authorize (foldl register (AdditiveArbiter a) es)
    \<longleftrightarrow> max_suffix_walk (add_SuccSummand a) (add_FailSummand a) es < 1 / add_SuccSummand a"
  using add_rate_walk [of a es] assms by (simp add: register_Additive add_Authorize_def)

theorem additive_arbiter_policy_witness:
  "\<not> Authorize (foldl register (AdditiveArbiter
       \<lparr>add_FailRate = 0, add_SuccSummand = 1 / 2, add_FailSummand = 1, add_AlarmValue = Some 2\<rparr>)
       [True, False, False, True, False])"
  using additive_arbiter_policy
      [of "\<lparr>add_FailRate = 0, add_SuccSummand = 1 / 2, add_FailSummand = 1, add_AlarmValue = Some 2\<rparr>"
          "[True, False, False, True, False]"]
  by (simp add: walk_def)

text \<open>
  Hysteresis of the watermark arbiter built from any accepted configuration: after any
  reports, a failure switches it off exactly when the failure rate has risen above \<open>hi\<close>, a
  success switches it on exactly when the rate has fallen below \<open>lo\<close>, and the rate stays between
  0 and 1.
\<close>

theorem watermark_hysteresis:
  assumes "wm_new fromString c = Ret w0"
  shows "let w = foldl wm_register w0 es; w' = wm_register w e in
      0 \<le> wm_rate w' \<and> wm_rate w' \<le> 1
    \<and> foldl register (WatermarkArbiter w0) (es @ [e]) = WatermarkArbiter w'
    \<and> Authorize (WatermarkArbiter w') =
        (if e then Authorize (WatermarkArbiter w) \<or> wm_rate w' < wm_Lo w0
         else Authorize (WatermarkArbiter w) \<and> wm_rate w' \<le> wm_Hi w0)"
proof -
  let ?w = "foldl wm_register w0 es"
  have "wm_inv (wm_register ?w e)"
    by (intro wm_inv_register wm_inv_run wm_new_inv(1) [OF assms])
  then show ?thesis
    using register_Watermark [of w0 "es @ [e]"] wm_register_Enabled [of ?w e]
    by (simp add: wm_inv_def wm_Authorize_def Let_def)
qed

theorem watermark_hysteresis_witness:
  "let w = foldl wm_register \<lparr>wm_Lo = 25 / 1000, wm_Hi = 5 / 100, wm_FailRate = mvt_new 0 (99 / 100),
                              wm_Enabled = True\<rparr> [False]
   in Authorize (WatermarkArbiter (wm_register w False))
      = (Authorize (WatermarkArbiter w) \<and> wm_rate (wm_register w False) \<le> 5 / 100)"
  using watermark_hysteresis [of "\<lambda>_. Throw Yexception" "[]"
      "\<lparr>wm_Lo = 25 / 1000, wm_Hi = 5 / 100, wm_FailRate = mvt_new 0 (99 / 100), wm_Enabled = True\<rparr>"
      "[False]" False]
  by (simp add: wm_new_def ForEach_def Let_def)

text \<open>
  The watermark arbiter recovers: with a positive low watermark there is a number of
  consecutive successes after which it authorises re-asks, from any reachable state.
\<close>

theorem watermark_recovers:
  assumes "wm_new fromString c = Ret w0" and "0 < wm_Lo w0"
  shows "\<exists>n. Authorize (foldl register (WatermarkArbiter w0) (es @ replicate n True))"
proof -
  let ?w = "foldl wm_register w0 es"
  have inv: "wm_inv ?w" by (intro wm_inv_run wm_new_inv(1) [OF assms(1)])
  obtain n where n: "(99 / 100 :: real) ^ n < wm_Lo w0"
    using real_arch_pow_inv [OF assms(2), of "99 / 100"] by auto
  let ?v = "foldl wm_register ?w (replicate n True)"
  have snoc: "foldl wm_register ?w (replicate (Suc n) True) = wm_register ?v True"
    using replicate_append_same [of n True] by (metis foldl_Cons foldl_Nil foldl_append replicate_Suc)
  have "wm_rate (foldl wm_register ?w (replicate (Suc n) True)) < wm_Lo w0"
  proof -
    have "(99 / 100) ^ Suc n * wm_rate ?w \<le> (99 / 100) ^ Suc n * 1"
      using inv by (intro mult_left_mono) (auto simp: wm_inv_def)
    also have "\<dots> \<le> (99 / 100 :: real) ^ n" by simp
    also note n
    finally show ?thesis by (simp only: wm_succ_rate [OF inv])
  qed
  then have "wm_rate (wm_register ?v True) < wm_Lo w0" by (simp only: snoc)
  then have "wm_Enabled (wm_register ?v True)" by (simp add: wm_register_Enabled)
  then have "wm_Enabled (foldl wm_register ?w (replicate (Suc n) True))" by (simp only: snoc)
  then have "Authorize (foldl register (WatermarkArbiter w0) (es @ replicate (Suc n) True))"
    by (simp only: register_Watermark Authorize.simps wm_Authorize_def foldl_append)
  then show ?thesis ..
qed

theorem watermark_recovers_witness:
  "\<exists>n. Authorize (foldl register (WatermarkArbiter \<lparr>wm_Lo = 25 / 1000, wm_Hi = 5 / 100,
       wm_FailRate = mvt_new 0 (99 / 100), wm_Enabled = True\<rparr>) (replicate 9 False @ replicate n True))"
  using watermark_recovers [of "\<lambda>_. Throw Yexception" "[]"
      "\<lparr>wm_Lo = 25 / 1000, wm_Hi = 5 / 100, wm_FailRate = mvt_new 0 (99 / 100), wm_Enabled = True\<rparr>"
      "replicate 9 False"]
  by (simp add: wm_new_def ForEach_def)

end
