(* ===== verification/Chunks.thy ===== *)
theory Chunks
  imports Prelude
begin

text \<open>
  Chunk lists (web/httpd/kernel/chunks.h, split.h, cast.h, and the helpers of iobase.h). A
  \<open>TChunk\<close> is a view of a byte buffer, here the bytes themselves; a \<open>TChunkList\<close> is the intrusive
  list of its chunks in order, so that \<open>PushBack\<close>, \<open>PopFront\<close> and \<open>Append\<close> are the list operations
  (theory Intrlist relates them to the pointer manipulation). A reference argument that the code
  changes is returned; lists that alias in a call (\<open>Cut(len, from)\<close>) are the same argument of the
  model.
\<close>

type_synonym chunk = bytes
type_synonym chunks = "chunk list"

abbreviation bytes_of :: "chunks \<Rightarrow> bytes" where
  "bytes_of \<equiv> concat"

text \<open>Byte streams are compared as a whole, never chunk by chunk.\<close>

declare concat_eq_Nil_conv [simp del] Nil_eq_concat_conv [simp del]

section \<open>\<open>TChunk\<close>\<close>

text \<open>\<open>TBlob::SubBlob(b, e)\<close> throws when the range is not inside the blob.\<close>

definition SubBlob :: "nat \<Rightarrow> nat \<Rightarrow> bytes \<Rightarrow> bytes outcome" where
  "SubBlob b e blob = (if b > length blob \<or> e > length blob \<or> b > e then Throw Yexception
                       else Ret (take (e - b) (drop b blob)))"

definition SubChunk :: "nat \<Rightarrow> nat \<Rightarrow> chunk \<Rightarrow> chunk outcome" where
  "SubChunk b e c = SubBlob b e c"

text \<open>\<open>Shrink\<close> is declared \<open>throw ()\<close>: an exception of \<open>SubBlob\<close> terminates the process.\<close>

definition Shrink :: "nat \<Rightarrow> chunk \<Rightarrow> chunk outcome" where
  "Shrink len c = (case SubBlob 0 len c of Ret c' \<Rightarrow> Ret c' | _ \<Rightarrow> Crash)"

text \<open>\<open>AddPartTo\<close> with the pointers given as offsets from \<open>Data()\<close>.\<close>

definition AddPartTo :: "nat \<Rightarrow> nat \<Rightarrow> chunk \<Rightarrow> chunks \<Rightarrow> chunks outcome" where
  "AddPartTo b e c lst =
     (if b < e then obind (SubChunk b e c) (\<lambda>p. Ret (lst @ [p])) else Ret lst)"

section \<open>\<open>TChunkList\<close>\<close>

definition FullLength :: "chunks \<Rightarrow> nat" where
  "FullLength lst = foldl (\<lambda>ret c. ret + length c) 0 lst"

definition Push :: "chunk \<Rightarrow> chunks \<Rightarrow> chunks" where
  "Push c lst = lst @ [c]"

text \<open>The bytes \<open>CopyData\<close> writes to a buffer of \<open>len\<close> bytes; it returns their number.\<close>

fun CopyData :: "nat \<Rightarrow> chunks \<Rightarrow> bytes" where
  "CopyData len [] = []"
| "CopyData len (c # lst) =
     (if len = 0 then [] else
        let rd = take len c in rd @ CopyData (len - length rd) lst)"

text \<open>
  The loop of \<open>operator==\<close>, with \<open>r\<close> the bytes from the cursor \<open>b\<close> on. Its test
  \<open>FullLength() == +r\<close> makes every read of the right side stay inside it.
\<close>

fun chunks_eq_loop :: "chunks \<Rightarrow> bytes \<Rightarrow> bool" where
  "chunks_eq_loop [] r = True"
| "chunks_eq_loop (c # l) r =
     (if c \<noteq> take (length c) r then False else chunks_eq_loop l (drop (length c) r))"

definition chunks_eq :: "chunks \<Rightarrow> bytes \<Rightarrow> bool" where
  "chunks_eq l r = (if FullLength l = length r then chunks_eq_loop l r else False)"

text \<open>\<open>MoveTo(f, t)\<close>: the pair is \<open>f\<close> and \<open>t\<close> after the call.\<close>

definition MoveTo :: "chunks \<Rightarrow> chunks \<Rightarrow> chunks \<times> chunks" where
  "MoveTo f t = ([], t @ f)"

fun CopyToImpl :: "chunks \<Rightarrow> chunks \<Rightarrow> chunks" where
  "CopyToImpl [] t = t"
| "CopyToImpl (c # f) t = CopyToImpl f (t @ [c])"

definition CopyTo :: "chunks \<Rightarrow> chunks \<Rightarrow> chunks" where
  "CopyTo f t = snd (MoveTo (CopyToImpl f []) t)"

fun HaveEmptyChunks :: "chunks \<Rightarrow> bool" where
  "HaveEmptyChunks [] = False"
| "HaveEmptyChunks (c # lst) = (if length c = 0 then True else HaveEmptyChunks lst)"

section \<open>Splitting (split.h)\<close>

text \<open>
  \<open>SplitUnsafe(len, from, before, after)\<close> empties \<open>from\<close>; the model returns \<open>before\<close> and
  \<open>after\<close>. The function is declared \<open>throw ()\<close>, and its two sub-chunks are inside the chunk.
\<close>

fun SplitUnsafe :: "nat \<Rightarrow> chunks \<Rightarrow> chunks \<Rightarrow> chunks \<Rightarrow> (chunks \<times> chunks) outcome" where
  "SplitUnsafe len [] before after = Ret (before, after)"
| "SplitUnsafe len (cur # from) before after =
     (if length cur \<le> len then SplitUnsafe (len - length cur) from (Push cur before) after
      else (case (SubChunk 0 len cur, SubChunk len (length cur) cur) of
              (Ret a, Ret b) \<Rightarrow> Ret (Push a before, snd (MoveTo from (Push b after)))
            | _ \<Rightarrow> Crash))"

definition Split :: "nat \<Rightarrow> chunks \<Rightarrow> (chunks \<times> chunks) outcome" where
  "Split len from = SplitUnsafe len from [] []"

definition Cut :: "nat \<Rightarrow> chunks \<Rightarrow> chunks outcome" where
  "Cut len from = map_outcome_val fst (Split len from)"

section \<open>Decimal numbers (cast.h)\<close>

text \<open>\<open>char\<close> is signed; the digit is computed in \<open>int\<close> and cast to the unsigned type \<open>T\<close>.\<close>

definition schar :: "char \<Rightarrow> int" where
  "schar c = (if of_char c \<ge> (128 :: nat) then of_char c - 256 else of_char c)"

fun FromString_chunk :: "bytes \<Rightarrow> 'a::len word \<Rightarrow> 'a word" where
  "FromString_chunk [] ret = ret"
| "FromString_chunk (b # e) ret = FromString_chunk e (ret * 10 + word_of_int (schar b - 48))"

definition FromString :: "chunks \<Rightarrow> 'a::len word" where
  "FromString lst = foldl (\<lambda>ret c. FromString_chunk c ret) 0 lst"

section \<open>Lemmas\<close>

lemma FullLength_bytes: "FullLength lst = length (bytes_of lst)"
proof -
  have "foldl (\<lambda>ret c. ret + length c) n lst = n + length (bytes_of lst)" for n :: nat
    by (induction lst arbitrary: n) auto
  then show ?thesis by (simp add: FullLength_def)
qed

lemma CopyData_take: "CopyData len lst = take len (bytes_of lst)"
  by (induction len lst rule: CopyData.induct) (auto simp: Let_def min_def)

lemma chunks_eq_loop_iff:
  "length r = length (bytes_of l) \<Longrightarrow> chunks_eq_loop l r \<longleftrightarrow> bytes_of l = r"
proof (induction l arbitrary: r)
  case (Cons c l)
  have len: "length (drop (length c) r) = length (bytes_of l)" using Cons.prems by simp
  show ?case
    using Cons.IH [OF len] append_take_drop_id [of "length c" r]
    by (auto simp: append_eq_conv_conj)
qed auto

lemma chunks_eq_iff: "chunks_eq l r \<longleftrightarrow> bytes_of l = r"
  by (auto simp: chunks_eq_def FullLength_bytes chunks_eq_loop_iff)

lemma CopyToImpl_append: "CopyToImpl f t = t @ f"
  by (induction f arbitrary: t) auto

lemma CopyTo_append [simp]: "CopyTo f t = t @ f"
  by (simp add: CopyTo_def MoveTo_def CopyToImpl_append)

lemma HaveEmptyChunks_iff [simp]: "HaveEmptyChunks lst \<longleftrightarrow> [] \<in> set lst"
  by (induction lst) auto

lemma SubBlob_split [simp]:
  "len \<le> length c \<Longrightarrow> SubBlob 0 len c = Ret (take len c)"
  "len \<le> length c \<Longrightarrow> SubBlob len (length c) c = Ret (drop len c)"
  by (simp_all add: SubBlob_def)

lemma SplitUnsafe_spec:
  "\<exists>b a. SplitUnsafe len from before after = Ret (before @ b, after @ a)
     \<and> bytes_of b = take len (bytes_of from) \<and> bytes_of a = drop len (bytes_of from)
     \<and> ([] \<notin> set from \<longrightarrow> [] \<notin> set a) \<and> (b = [] \<longleftrightarrow> from = [])"
proof (induction len "from" before after rule: SplitUnsafe.induct)
  case (1 len before after)
  show ?case by simp
next
  case (2 len cur "from" before after)
  show ?case
  proof (cases "length cur \<le> len")
    case True
    with "2.IH" obtain b a where
      eq: "SplitUnsafe (len - length cur) from (Push cur before) after = Ret (Push cur before @ b, after @ a)"
      and ba: "bytes_of b = take (len - length cur) (bytes_of from)"
        "bytes_of a = drop (len - length cur) (bytes_of from)" "[] \<notin> set from \<longrightarrow> [] \<notin> set a"
      by blast
    show ?thesis
      by (rule exI [of _ "cur # b"], rule exI [of _ a]) (use True eq ba in \<open>auto simp: Push_def\<close>)
  next
    case False
    then show ?thesis
      by (intro exI [of _ "[take len cur]"] exI [of _ "drop len cur # from"])
        (auto simp: SubChunk_def Push_def MoveTo_def)
  qed
qed

lemma Split_spec:
  obtains b a where "Split len from = Ret (b, a)"
    and "bytes_of b = take len (bytes_of from)" and "bytes_of a = drop len (bytes_of from)"
    and "[] \<notin> set from \<Longrightarrow> [] \<notin> set a" and "b = [] \<longleftrightarrow> from = []"
  using SplitUnsafe_spec [of len "from" "[]" "[]"] by (auto simp: Split_def)

lemma Cut_spec:
  obtains b where "Cut len from = Ret b" and "bytes_of b = take len (bytes_of from)"
    and "b = [] \<longleftrightarrow> from = []"
  by (rule Split_spec [of len "from"]) (auto simp: Cut_def)

lemma FromString_chunk_append:
  "FromString_chunk (xs @ ys) ret = FromString_chunk ys (FromString_chunk xs ret)"
  by (induction xs ret rule: FromString_chunk.induct) auto

lemma FromString_bytes: "FromString lst = FromString_chunk (bytes_of lst) 0"
proof -
  have "foldl (\<lambda>ret c. FromString_chunk c ret) r lst = FromString_chunk (bytes_of lst) r" for r :: "'a word"
    by (induction lst arbitrary: r) (auto simp: FromString_chunk_append)
  then show ?thesis by (simp add: FromString_def)
qed

text \<open>Decimal notation, the specification of what a header such as \<open>Content-Length\<close> carries.\<close>

fun decimal :: "nat \<Rightarrow> string" where
  "decimal n = (if n < 10 then [char_of (48 + n)] else decimal (n div 10) @ [char_of (48 + n mod 10)])"

declare decimal.simps [simp del]

lemma schar_digit: "n < 10 \<Longrightarrow> schar (char_of (48 + n)) = 48 + int n"
  by (simp add: schar_def of_char_of of_nat_of_char [symmetric, where ?'a = int])

lemma FromString_chunk_decimal: "FromString_chunk (decimal n) (0 :: 'a::len word) = of_nat n"
proof (induction n rule: decimal.induct)
  case (1 n)
  show ?case
  proof (cases "n < 10")
    case True
    then show ?thesis by (subst decimal.simps) (simp add: schar_digit)
  next
    case False
    have "(of_nat n :: 'a word) = of_nat (n div 10) * 10 + of_nat (n mod 10)"
      by (metis div_mult_mod_eq of_nat_add of_nat_mult of_nat_numeral)
    with 1 False show ?thesis
      by (subst decimal.simps) (simp add: FromString_chunk_append schar_digit)
  qed
qed

section \<open>Properties\<close>

text \<open>
  \<open>Split\<close> cuts the byte stream of a chunk list at position \<open>len\<close>: the first part holds the
  first \<open>len\<close> bytes, the second the rest, whatever the chunk boundaries, and it always returns
  (none of its sub-chunk calls is out of range). \<open>CopyData\<close> copies a prefix of the same stream.
\<close>

theorem split_cuts_stream:
  "\<exists>b a. Split len from = Ret (b, a) \<and> bytes_of b = take len (bytes_of from)
     \<and> bytes_of a = drop len (bytes_of from) \<and> FullLength b = min len (FullLength from)
     \<and> CopyData len from = bytes_of b"
  by (rule Split_spec [of len "from"]) (auto simp: FullLength_bytes CopyData_take)

text \<open>
  Parsing a decimal number out of a chunk list does not depend on where the chunks are cut,
  and gives the number modulo the width of the result type.
\<close>

theorem FromString_decimal:
  assumes "bytes_of lst = decimal n"
  shows "FromString lst = (of_nat n :: 'a::len word)"
  using assms FromString_chunk_decimal by (simp add: FromString_bytes)

theorem FromString_decimal_witness: "FromString [''10'', [], ''24''] = (1024 :: ui64)"
proof -
  have "bytes_of [''10'', [], ''24''] = decimal 1024"
    by code_simp
  then show ?thesis using FromString_decimal [of "[''10'', [], ''24'']" 1024] by simp
qed

end
