(* ===== verification/Inputs.thy ===== *)
theory Inputs
  imports Chunks
begin

text \<open>
  The input and output streams of the kernel (web/httpd/kernel/iobase.h, iobase.cpp, null.h,
  precharge.h, concat.h, limitio.h, rewind.h, countio.h). An \<open>IIoInput\<close> is a function from its
  state to the list \<open>Recv\<close> leaves in its argument, or the exception it throws, and the state after
  the call: an exception does not undo what was consumed. \<open>Recv\<close> clears its argument before it
  calls \<open>DoRecv\<close>, so the received list is the whole answer. An empty list means the end of the
  stream.

  The locale \<open>io_input\<close> is the contract the readers rely on: a finite byte stream, of which every
  call returns a non-empty part until its end.
\<close>

type_synonym 's recv = "'s \<Rightarrow> chunks outcome \<times> 's"
type_synonym 'o send = "chunks \<Rightarrow> 'o \<Rightarrow> unit outcome \<times> 'o"

section \<open>Operations\<close>

subsection \<open>\<open>IIoInput::ReadAll\<close>\<close>

partial_function (option) ReadAll :: "'s recv \<Rightarrow> chunks \<Rightarrow> 's \<Rightarrow> (chunks outcome \<times> 's) option" where
  "ReadAll recv lst s =
     (case recv s of
        (Ret tmp, s') \<Rightarrow> if tmp = [] then Some (Ret lst, s') else ReadAll recv (snd (MoveTo tmp lst)) s'
      | (Throw e, s') \<Rightarrow> Some (Throw e, s')
      | (Crash, s') \<Rightarrow> Some (Crash, s'))"

subsection \<open>\<open>TNullStream\<close>\<close>

definition null_Recv :: "'s recv" where
  "null_Recv s = (Ret [], s)"

definition null_Send :: "'o send" where
  "null_Send lst out = (Ret (), out)"

subsection \<open>\<open>TPrechargedInput\<close> and \<open>TOwnedInput\<close>\<close>

text \<open>Both hand over the chunk list they refer to, or own, and leave it empty.\<close>

definition precharged_Recv :: "chunks recv" where
  "precharged_Recv Chunks = (let (c, lst) = MoveTo Chunks [] in (Ret lst, c))"

definition owned_new :: "chunks \<Rightarrow> chunks \<times> chunks" where
  "owned_new lst = MoveTo lst []"

definition owned_Recv :: "chunks recv" where
  "owned_Recv this = (let (c, lst) = MoveTo this [] in (Ret lst, c))"

subsection \<open>\<open>TConcatInput\<close>\<close>

text \<open>\<open>F_\<close> and \<open>S_\<close> point to the first input, the second, or \<open>TNullStream::Instance()\<close>.\<close>

datatype input_ptr = FirstInput | SecondInput | NullInput

record ('a, 'b) concat_input =
  ci_F :: input_ptr
  ci_S :: input_ptr
  ci_first :: 'a
  ci_second :: 'b

definition concat_new :: "'a \<Rightarrow> 'b \<Rightarrow> ('a, 'b) concat_input" where
  "concat_new f s = \<lparr>ci_F = FirstInput, ci_S = SecondInput, ci_first = f, ci_second = s\<rparr>"

definition concat_deref ::
  "'a recv \<Rightarrow> 'b recv \<Rightarrow> input_ptr \<Rightarrow> ('a, 'b) concat_input recv" where
  "concat_deref rf rs p st =
     (case p of
        FirstInput \<Rightarrow> (case rf (ci_first st) of (r, f) \<Rightarrow> (r, st\<lparr>ci_first := f\<rparr>))
      | SecondInput \<Rightarrow> (case rs (ci_second st) of (r, s) \<Rightarrow> (r, st\<lparr>ci_second := s\<rparr>))
      | NullInput \<Rightarrow> null_Recv st)"

definition concat_Recv :: "'a recv \<Rightarrow> 'b recv \<Rightarrow> ('a, 'b) concat_input recv" where
  "concat_Recv rf rs st =
     (case concat_deref rf rs (ci_F st) st of
        (Ret lst, st1) \<Rightarrow>
          (if lst = [] then
             let st2 = st1\<lparr>ci_F := ci_S st1, ci_S := NullInput\<rparr>
             in concat_deref rf rs (ci_F st2) st2
           else (Ret lst, st1))
      | (r, st1) \<Rightarrow> (r, st1))"

subsection \<open>\<open>TLengthLimitedInput\<close>\<close>

record 's limited =
  li_S :: 's
  li_L :: nat

definition limited_new :: "'s \<Rightarrow> nat \<Rightarrow> 's limited" where
  "limited_new s limit = \<lparr>li_S = s, li_L = limit\<rparr>"

text \<open>\<open>onErr\<close> is the static function of the policy \<open>TErr\<close>.\<close>

definition limited_Recv :: "unit outcome \<Rightarrow> 's recv \<Rightarrow> 's limited recv" where
  "limited_Recv onErr recv st =
     (if li_L st = 0 then (map_outcome_val (\<lambda>_. []) onErr, st)
      else (case recv (li_S st) of
         (Ret lst, s') \<Rightarrow>
           (case Cut (li_L st) lst of
              Ret l \<Rightarrow> (Ret l, st\<lparr>li_S := s', li_L := li_L st - FullLength l\<rparr>)
            | e \<Rightarrow> (Crash, st\<lparr>li_S := s'\<rparr>))
       | (r, s') \<Rightarrow> (r, st\<lparr>li_S := s'\<rparr>)))"

subsection \<open>\<open>TRewindAbleInput\<close>\<close>

record 's rewindable =
  rw_Old :: chunks
  rw_Tmp :: chunks
  rw_Slave :: 's

definition rewind_new :: "'s \<Rightarrow> 's rewindable" where
  "rewind_new slave = \<lparr>rw_Old = [], rw_Tmp = [], rw_Slave = slave\<rparr>"

definition Rewind :: "'s rewindable \<Rightarrow> 's rewindable" where
  "Rewind st = (let (t, old) = MoveTo (rw_Tmp st) (rw_Old st) in st\<lparr>rw_Tmp := t, rw_Old := old\<rparr>)"

text \<open>\<open>ExtractChunks(lst)\<close>: the list after the call and the input.\<close>

definition ExtractChunks :: "chunks \<Rightarrow> 's rewindable \<Rightarrow> chunks \<times> 's rewindable" where
  "ExtractChunks lst st =
     (let st1 = Rewind st; (old, lst') = MoveTo (rw_Old st1) lst in (lst', st1\<lparr>rw_Old := old\<rparr>))"

definition rewind_Recv :: "'s recv \<Rightarrow> 's rewindable recv" where
  "rewind_Recv recv st =
     (let (r, st1) =
        (if rw_Old st = []
         then (case recv (rw_Slave st) of (r, s') \<Rightarrow> (r, st\<lparr>rw_Slave := s'\<rparr>))
         else (let (old, tmp) = MoveTo (rw_Old st) [] in (Ret tmp, st\<lparr>rw_Old := old\<rparr>)))
      in (case r of
            Ret tmp \<Rightarrow> (let lst = CopyTo tmp []; (_, t) = MoveTo tmp (rw_Tmp st1)
                        in (Ret lst, st1\<lparr>rw_Tmp := t\<rparr>))
          | Throw e \<Rightarrow> (Throw e, st1)
          | Crash \<Rightarrow> (Crash, st1)))"

subsection \<open>\<open>TCountOutput\<close>\<close>

record 'o counted =
  co_Slave :: 'o
  co_Written :: ui64

definition count_new :: "'o \<Rightarrow> 'o counted" where
  "count_new slave = \<lparr>co_Slave = slave, co_Written = 0\<rparr>"

text \<open>\<open>NSrvKernel::Send\<close> measures the list before it is sent; a send that throws adds nothing.\<close>

definition count_Send :: "'o send \<Rightarrow> 'o counted send" where
  "count_Send send lst st =
     (let ret = FullLength lst in
      case send lst (co_Slave st) of
        (Ret u, o') \<Rightarrow> (Ret u, st\<lparr>co_Slave := o', co_Written := co_Written st + of_nat ret\<rparr>)
      | (r, o') \<Rightarrow> (r, st\<lparr>co_Slave := o'\<rparr>))"

section \<open>The contract of an input\<close>

locale io_input =
  fixes recv :: "'s recv" and inv :: "'s \<Rightarrow> bool" and content :: "'s \<Rightarrow> bytes"
  assumes recv_ok: "inv s \<Longrightarrow> \<exists>l s'. recv s = (Ret l, s') \<and> inv s'
    \<and> content s = bytes_of l @ content s' \<and> (bytes_of l = [] \<longrightarrow> l = [] \<and> content s = [])"
begin

lemma recvE:
  assumes "inv s"
  obtains l s' where "recv s = (Ret l, s')" and "inv s'" and "content s = bytes_of l @ content s'"
    and "bytes_of l = [] \<longleftrightarrow> l = []" and "l = [] \<Longrightarrow> content s = []"
  using recv_ok [OF assms] by fastforce

lemma ReadAll_content:
  assumes "inv s"
  shows "\<exists>l s'. ReadAll recv lst s = Some (Ret l, s') \<and> inv s' \<and> content s' = []
    \<and> bytes_of l = bytes_of lst @ content s"
  using assms
proof (induction "length (content s)" arbitrary: s lst rule: less_induct)
  case less
  obtain l s' where r: "recv s = (Ret l, s')" "inv s'" "content s = bytes_of l @ content s'"
    and eof: "bytes_of l = [] \<longleftrightarrow> l = []" "l = [] \<Longrightarrow> content s = []"
    using recvE [OF less.prems] by metis
  show ?case
  proof (cases "l = []")
    case True
    then show ?thesis
      using r eof by (subst ReadAll.simps) auto
  next
    case False
    then have "length (content s') < length (content s)"
      using r eof by simp
    from less.hyps [OF this r(2), of "lst @ l"] False r show ?thesis
      by (subst ReadAll.simps) (auto simp: MoveTo_def)
  qed
qed

end

text \<open>An input that moreover never delivers an empty chunk.\<close>

locale io_input_nonempty = io_input +
  assumes recv_nonempty: "inv s \<Longrightarrow> recv s = (Ret l, s') \<Longrightarrow> [] \<notin> set l"

section \<open>The inputs meet the contract\<close>

interpretation nul: io_input_nonempty "null_Recv :: 'a recv" "\<lambda>_. True" "\<lambda>_. []"
  by unfold_locales (auto simp: null_Recv_def)

definition owned_inv :: "chunks \<Rightarrow> bool" where
  "owned_inv l \<longleftrightarrow> [] \<notin> set l"

lemma bytes_of_Nil_iff: "[] \<notin> set l \<Longrightarrow> bytes_of l = [] \<longleftrightarrow> l = []"
  by (induction l) auto

interpretation own: io_input_nonempty owned_Recv owned_inv bytes_of
  by unfold_locales (auto simp: owned_Recv_def owned_inv_def MoveTo_def bytes_of_Nil_iff)

interpretation pre: io_input_nonempty precharged_Recv owned_inv bytes_of
  by unfold_locales (auto simp: precharged_Recv_def owned_inv_def MoveTo_def bytes_of_Nil_iff)

subsection \<open>Concatenation\<close>

text \<open>The two inputs in the order they are still to be read.\<close>

definition concat_inv :: "('a \<Rightarrow> bool) \<Rightarrow> ('b \<Rightarrow> bool) \<Rightarrow> ('a, 'b) concat_input \<Rightarrow> bool" where
  "concat_inv ia ib st \<longleftrightarrow> ia (ci_first st) \<and> ib (ci_second st)
     \<and> (ci_F st, ci_S st) \<in> {(FirstInput, SecondInput), (SecondInput, NullInput), (NullInput, NullInput)}"

definition concat_content ::
  "('a \<Rightarrow> bytes) \<Rightarrow> ('b \<Rightarrow> bytes) \<Rightarrow> ('a, 'b) concat_input \<Rightarrow> bytes" where
  "concat_content ca cb st =
     (case ci_F st of FirstInput \<Rightarrow> ca (ci_first st) @ cb (ci_second st)
      | SecondInput \<Rightarrow> cb (ci_second st) | NullInput \<Rightarrow> [])"

lemma concat_io_input:
  assumes "io_input ra ia ca" and "io_input rb ib cb"
  shows "io_input (concat_Recv ra rb) (concat_inv ia ib) (concat_content ca cb)"
proof
  fix st :: "('a, 'b) concat_input"
  assume inv: "concat_inv ia ib st"
  obtain la a' where a: "ra (ci_first st) = (Ret la, a')" "ia a'" "ca (ci_first st) = bytes_of la @ ca a'"
    "bytes_of la = [] \<longleftrightarrow> la = []" "la = [] \<Longrightarrow> ca (ci_first st) = []"
    using io_input.recvE [OF assms(1)] inv by (metis concat_inv_def)
  obtain lb b' where b: "rb (ci_second st) = (Ret lb, b')" "ib b'" "cb (ci_second st) = bytes_of lb @ cb b'"
    "bytes_of lb = [] \<longleftrightarrow> lb = []" "lb = [] \<Longrightarrow> cb (ci_second st) = []"
    using io_input.recvE [OF assms(2)] inv by (metis concat_inv_def)
  consider (first) "ci_F st = FirstInput" "ci_S st = SecondInput"
    | (second) "ci_F st = SecondInput" "ci_S st = NullInput"
    | (none) "ci_F st = NullInput" "ci_S st = NullInput"
    using inv by (auto simp: concat_inv_def)
  then show "\<exists>l s'. concat_Recv ra rb st = (Ret l, s') \<and> concat_inv ia ib s'
      \<and> concat_content ca cb st = bytes_of l @ concat_content ca cb s'
      \<and> (bytes_of l = [] \<longrightarrow> l = [] \<and> concat_content ca cb st = [])"
  proof cases
    case first
    with inv a b show ?thesis
      by (cases "la = []")
        (auto simp: concat_Recv_def concat_deref_def concat_inv_def concat_content_def Let_def)
  next
    case second
    with inv a b show ?thesis
      by (cases "lb = []")
        (auto simp: concat_Recv_def concat_deref_def concat_inv_def concat_content_def Let_def null_Recv_def)
  next
    case none
    with inv show ?thesis
      by (auto simp: concat_Recv_def concat_deref_def concat_inv_def concat_content_def Let_def null_Recv_def)
  qed
qed

interpretation cat: io_input "concat_Recv owned_Recv owned_Recv" "concat_inv owned_inv owned_inv"
  "concat_content bytes_of bytes_of"
  by (rule concat_io_input) (unfold_locales)

subsection \<open>Length limit\<close>

definition limited_inv :: "('s \<Rightarrow> bool) \<Rightarrow> 's limited \<Rightarrow> bool" where
  "limited_inv i st \<longleftrightarrow> i (li_S st)"

definition limited_content :: "('s \<Rightarrow> bytes) \<Rightarrow> 's limited \<Rightarrow> bytes" where
  "limited_content c st = take (li_L st) (c (li_S st))"

lemma limited_Recv_pos:
  assumes "io_input r i c" and "limited_inv i st" and "0 < li_L st"
  shows "\<exists>l s'. limited_Recv e r st = (Ret l, s') \<and> limited_inv i s'
      \<and> limited_content c st = bytes_of l @ limited_content c s'
      \<and> li_L s' = li_L st - length (bytes_of l)
      \<and> (bytes_of l = [] \<longrightarrow> l = [] \<and> limited_content c st = [])"
proof -
  obtain l s' where r: "r (li_S st) = (Ret l, s')" "i s'" "c (li_S st) = bytes_of l @ c s'"
    "bytes_of l = [] \<longleftrightarrow> l = []" "l = [] \<Longrightarrow> c (li_S st) = []"
    using io_input.recvE [OF assms(1), of "li_S st"] assms(2) by (metis limited_inv_def)
  obtain b where b: "Cut (li_L st) l = Ret b" "bytes_of b = take (li_L st) (bytes_of l)" "b = [] \<longleftrightarrow> l = []"
    by (rule Cut_spec)
  have le: "li_L st - min (length (bytes_of l)) (li_L st) = li_L st - length (bytes_of l)" by simp
  show ?thesis
    using r b assms(3)
    by (auto simp: limited_Recv_def limited_inv_def limited_content_def FullLength_bytes le)
qed

lemma limited_io_input:
  assumes "io_input r i c"
  shows "io_input (limited_Recv (Ret ()) r) (limited_inv i) (limited_content c)"
proof
  fix st :: "'a limited"
  assume inv: "limited_inv i st"
  show "\<exists>l s'. limited_Recv (Ret ()) r st = (Ret l, s') \<and> limited_inv i s'
      \<and> limited_content c st = bytes_of l @ limited_content c s'
      \<and> (bytes_of l = [] \<longrightarrow> l = [] \<and> limited_content c st = [])"
  proof (cases "li_L st = 0")
    case True
    then show ?thesis using inv by (auto simp: limited_Recv_def limited_content_def)
  next
    case False
    then show ?thesis using limited_Recv_pos [OF assms inv] by blast
  qed
qed

interpretation lim: io_input "limited_Recv (Ret ()) owned_Recv" "limited_inv owned_inv"
  "limited_content bytes_of"
  by (rule limited_io_input) unfold_locales

subsection \<open>Rewinding\<close>

text \<open>
  Either nothing has been handed out since the last rewind, or the old chunks have been used up:
  otherwise \<open>Rewind\<close> would put them in the wrong order.
\<close>

definition rewind_inv :: "('s \<Rightarrow> bool) \<Rightarrow> 's rewindable \<Rightarrow> bool" where
  "rewind_inv i st \<longleftrightarrow> i (rw_Slave st) \<and> (rw_Old st = [] \<or> rw_Tmp st = [])
     \<and> (bytes_of (rw_Old st) = [] \<longrightarrow> rw_Old st = []) \<and> (bytes_of (rw_Tmp st) = [] \<longrightarrow> rw_Tmp st = [])"

definition rewind_content :: "('s \<Rightarrow> bytes) \<Rightarrow> 's rewindable \<Rightarrow> bytes" where
  "rewind_content c st = bytes_of (rw_Old st) @ c (rw_Slave st)"

text \<open>The whole stream of the slave, from the point where the rewindable input was built.\<close>

definition rewind_total :: "('s \<Rightarrow> bytes) \<Rightarrow> 's rewindable \<Rightarrow> bytes" where
  "rewind_total c st = bytes_of (rw_Tmp st) @ rewind_content c st"

lemma rewind_Recv_spec:
  assumes "io_input r i c" and "rewind_inv i st"
  shows "\<exists>l s'. rewind_Recv r st = (Ret l, s') \<and> rewind_inv i s'
      \<and> rewind_content c st = bytes_of l @ rewind_content c s'
      \<and> rewind_total c s' = rewind_total c st
      \<and> (bytes_of l = [] \<longrightarrow> l = [] \<and> rewind_content c st = [])"
proof (cases "rw_Old st = []")
  case True
  obtain l s' where r: "r (rw_Slave st) = (Ret l, s')" "i s'" "c (rw_Slave st) = bytes_of l @ c s'"
    "bytes_of l = [] \<longleftrightarrow> l = []" "l = [] \<Longrightarrow> c (rw_Slave st) = []"
    using io_input.recvE [OF assms(1), of "rw_Slave st"] assms(2) by (metis rewind_inv_def)
  with True assms(2) show ?thesis
    by (auto simp: rewind_Recv_def rewind_inv_def rewind_content_def rewind_total_def Let_def MoveTo_def)
next
  case False
  with assms(2) show ?thesis
    by (auto simp: rewind_Recv_def rewind_inv_def rewind_content_def rewind_total_def Let_def MoveTo_def)
qed

lemma rewind_io_input:
  assumes "io_input r i c"
  shows "io_input (rewind_Recv r) (rewind_inv i) (rewind_content c)"
  by unfold_locales (use rewind_Recv_spec [OF assms] in blast)

interpretation rew: io_input "rewind_Recv owned_Recv" "rewind_inv owned_inv" "rewind_content bytes_of"
  by (rule rewind_io_input) unfold_locales

lemma rewind_new_spec:
  "i s \<Longrightarrow> rewind_inv i (rewind_new s)" "rewind_total c (rewind_new s) = c s"
  "rewind_content c (rewind_new s) = c s"
  by (simp_all add: rewind_inv_def rewind_new_def rewind_total_def rewind_content_def)

lemma Rewind_spec:
  assumes "rewind_inv i st"
  shows "rewind_inv i (Rewind st)" and "rewind_total c (Rewind st) = rewind_total c st"
    and "rewind_content c (Rewind st) = rewind_total c st"
  using assms by (auto simp: rewind_inv_def Rewind_def rewind_total_def rewind_content_def MoveTo_def)

end
