(* ===== verification/Streamiter.thy ===== *)
theory Streamiter
  imports Inputs
begin

text \<open>
  Readers on top of an input (web/httpd/kernel/iterator.h: \<open>TStreamIterator\<close> and
  \<open>TIoStreamIterator\<close>; web/httpd/kernel/stream.h: \<open>TIoInput\<close>, \<open>TIoOutput\<close>). Inside the contract
  of a non-empty input the iterator is a cursor on the byte stream: what each operation returns
  and what is left do not depend on the chunk boundaries.
\<close>

section \<open>\<open>TStreamIterator\<close>\<close>

record 's siter =
  si_L :: chunks
  si_S :: 's

definition siter_new :: "'s \<Rightarrow> 's siter" where
  "siter_new slave = \<lparr>si_L = [], si_S = slave\<rparr>"

text \<open>The second constructor takes the data over and reads from \<open>TNullStream\<close> afterwards.\<close>

definition siter_of_data :: "chunks \<Rightarrow> unit siter" where
  "siter_of_data data = \<lparr>si_L = data, si_S = ()\<rparr>"

definition si_Peek :: "'s recv \<Rightarrow> 's siter \<Rightarrow> bool outcome \<times> 's siter" where
  "si_Peek recv it =
     (if si_L it = [] then
        (case recv (si_S it) of
           (Ret l, s') \<Rightarrow> (Ret (l \<noteq> []), it\<lparr>si_L := l, si_S := s'\<rparr>)
         | (Throw e, s') \<Rightarrow> (Throw e, it\<lparr>si_S := s'\<rparr>)
         | (Crash, s') \<Rightarrow> (Crash, it\<lparr>si_S := s'\<rparr>))
      else (Ret True, it))"

text \<open>\<open>Next(len, lst)\<close> replaces \<open>lst\<close>; at the end of the stream it leaves it alone.\<close>

definition si_NextLen :: "'s recv \<Rightarrow> nat \<Rightarrow> chunks \<Rightarrow> 's siter \<Rightarrow> chunks outcome \<times> 's siter" where
  "si_NextLen recv len lst it =
     (case si_Peek recv it of
        (Ret p, it1) \<Rightarrow>
          (if p then (case Split len (si_L it1) of
                        Ret (b, a) \<Rightarrow> (Ret b, it1\<lparr>si_L := a\<rparr>)
                      | _ \<Rightarrow> (Crash, it1))
           else (Ret lst, it1))
      | (Throw e, it1) \<Rightarrow> (Throw e, it1)
      | (Crash, it1) \<Rightarrow> (Crash, it1))"

definition si_NextAll :: "'s recv \<Rightarrow> chunks \<Rightarrow> 's siter \<Rightarrow> chunks outcome \<times> 's siter" where
  "si_NextAll recv lst it =
     (case si_Peek recv it of
        (Ret p, it1) \<Rightarrow>
          (if p then (let (l, lst') = MoveTo (si_L it1) lst in (Ret lst', it1\<lparr>si_L := l\<rparr>))
           else (Ret lst, it1))
      | (Throw e, it1) \<Rightarrow> (Throw e, it1)
      | (Crash, it1) \<Rightarrow> (Crash, it1))"

definition si_ReadSome :: "'s recv \<Rightarrow> nat \<Rightarrow> 's siter \<Rightarrow> bytes outcome \<times> 's siter" where
  "si_ReadSome recv len it =
     (case si_NextLen recv len [] it of
        (Ret tmp, it1) \<Rightarrow> (Ret (CopyData len tmp), it1)
      | (Throw e, it1) \<Rightarrow> (Throw e, it1)
      | (Crash, it1) \<Rightarrow> (Crash, it1))"

text \<open>\<open>Read(buf, len)\<close>: the bytes stored in \<open>buf\<close>.\<close>

function si_Read :: "'s recv \<Rightarrow> nat \<Rightarrow> 's siter \<Rightarrow> bytes outcome \<times> 's siter" where
  "si_Read recv len it =
     (if len = 0 then (Ret [], it)
      else (case si_ReadSome recv len it of
              (Ret b, it1) \<Rightarrow>
                (if b = [] then (Throw StreamError, it1)
                 else (case si_Read recv (len - length b) it1 of
                         (Ret bs, it2) \<Rightarrow> (Ret (b @ bs), it2)
                       | (Throw e, it2) \<Rightarrow> (Throw e, it2)
                       | (Crash, it2) \<Rightarrow> (Crash, it2)))
            | (Throw e, it1) \<Rightarrow> (Throw e, it1)
            | (Crash, it1) \<Rightarrow> (Crash, it1)))"
  by pat_completeness auto
termination
  by (relation "measure (\<lambda>(_, len, _). len)") auto

text \<open>\<open>Read(lst, len)\<close> appends the chunks to \<open>lst\<close>.\<close>

function si_ReadList :: "'s recv \<Rightarrow> chunks \<Rightarrow> nat \<Rightarrow> 's siter \<Rightarrow> chunks outcome \<times> 's siter" where
  "si_ReadList recv lst len it =
     (if len = 0 then (Ret lst, it)
      else (case si_NextLen recv len [] it of
              (Ret tmp, it1) \<Rightarrow>
                (if FullLength tmp = 0 then (Throw StreamError, it1)
                 else si_ReadList recv (snd (MoveTo tmp lst)) (len - FullLength tmp) it1)
            | (Throw e, it1) \<Rightarrow> (Throw e, it1)
            | (Crash, it1) \<Rightarrow> (Crash, it1)))"
  by pat_completeness auto
termination
  by (relation "measure (\<lambda>(_, _, len, _). len)") auto

declare si_Read.simps [simp del] si_ReadList.simps [simp del]

text \<open>\<open>Next(ch)\<close> and \<open>Next()\<close>.\<close>

definition si_NextCh :: "'s recv \<Rightarrow> 's siter \<Rightarrow> char option outcome \<times> 's siter" where
  "si_NextCh recv it =
     (case si_ReadSome recv 1 it of
        (Ret b, it1) \<Rightarrow> (Ret (case b of [] \<Rightarrow> None | ch # _ \<Rightarrow> Some ch), it1)
      | (Throw e, it1) \<Rightarrow> (Throw e, it1)
      | (Crash, it1) \<Rightarrow> (Crash, it1))"

definition si_NextChar :: "'s recv \<Rightarrow> 's siter \<Rightarrow> char outcome \<times> 's siter" where
  "si_NextChar recv it =
     (case si_NextCh recv it of
        (Ret None, it1) \<Rightarrow> (Throw StreamError, it1)
      | (Ret (Some ch), it1) \<Rightarrow> (Ret ch, it1)
      | (Throw e, it1) \<Rightarrow> (Throw e, it1)
      | (Crash, it1) \<Rightarrow> (Crash, it1))"

text \<open>\<open>UnGet(data)\<close>: the iterator after the call; \<open>data\<close> is left empty.\<close>

definition si_UnGet :: "chunks \<Rightarrow> 's siter \<Rightarrow> 's siter" where
  "si_UnGet data it =
     (let (l, data1) = MoveTo (si_L it) data; (_, l1) = MoveTo data1 l in it\<lparr>si_L := l1\<rparr>)"

text \<open>\<open>TIoStreamIterator::DoRecv\<close>.\<close>

definition siter_Recv :: "'s recv \<Rightarrow> 's siter recv" where
  "siter_Recv recv it = si_NextAll recv [] it"

section \<open>\<open>TIoInput\<close> and \<open>TIoOutput\<close>\<close>

record 's io_stream =
  is_Filled :: chunks
  is_Cur :: "chunk option"
  is_Slave :: 's

definition io_stream_new :: "'s \<Rightarrow> 's io_stream" where
  "io_stream_new slave = \<lparr>is_Filled = [], is_Cur = None, is_Slave = slave\<rparr>"

definition io_Fill :: "'s recv \<Rightarrow> 's io_stream \<Rightarrow> bool outcome \<times> 's io_stream" where
  "io_Fill recv st =
     (case recv (is_Slave st) of
        (Ret l, s') \<Rightarrow> (Ret (FullLength l \<noteq> 0), st\<lparr>is_Filled := l, is_Slave := s'\<rparr>)
      | (Throw e, s') \<Rightarrow> (Throw e, st\<lparr>is_Slave := s'\<rparr>)
      | (Crash, s') \<Rightarrow> (Crash, st\<lparr>is_Slave := s'\<rparr>))"

text \<open>\<open>DoNext\<close>: \<open>None\<close> is the result \<open>false\<close>, otherwise the memory it points to.\<close>

definition io_DoNext :: "'s recv \<Rightarrow> 's io_stream \<Rightarrow> chunk option outcome \<times> 's io_stream" where
  "io_DoNext recv st =
     (case (if is_Filled st = [] then io_Fill recv st else (Ret True, st)) of
        (Ret False, st1) \<Rightarrow> (Ret None, st1)
      | (Ret True, st1) \<Rightarrow>
          (case is_Filled st1 of
             [] \<Rightarrow> (Crash, st1)
           | c # cs \<Rightarrow> (Ret (Some c), st1\<lparr>is_Filled := cs, is_Cur := Some c\<rparr>))
      | (Throw e, st1) \<Rightarrow> (Throw e, st1)
      | (Crash, st1) \<Rightarrow> (Crash, st1))"

definition io_DoWrite :: "'o send \<Rightarrow> bytes \<Rightarrow> 'o \<Rightarrow> unit outcome \<times> 'o" where
  "io_DoWrite send data ou = send (Push data []) ou"

section \<open>The iterator as a cursor\<close>

definition siter_inv :: "('s \<Rightarrow> bool) \<Rightarrow> 's siter \<Rightarrow> bool" where
  "siter_inv i it \<longleftrightarrow> i (si_S it) \<and> [] \<notin> set (si_L it)"

definition siter_content :: "('s \<Rightarrow> bytes) \<Rightarrow> 's siter \<Rightarrow> bytes" where
  "siter_content c it = bytes_of (si_L it) @ c (si_S it)"

context io_input_nonempty
begin

abbreviation sinv :: "'a siter \<Rightarrow> bool" where
  "sinv \<equiv> siter_inv inv"

abbreviation scontent :: "'a siter \<Rightarrow> bytes" where
  "scontent \<equiv> siter_content content"

lemma Peek_spec:
  assumes "sinv it"
  shows "\<exists>it'. si_Peek recv it = (Ret (scontent it \<noteq> []), it') \<and> sinv it' \<and> scontent it' = scontent it
    \<and> (si_L it' = [] \<longleftrightarrow> scontent it = [])"
proof (cases "si_L it = []")
  case True
  obtain l s' where r: "recv (si_S it) = (Ret l, s')" "inv s'" "content (si_S it) = bytes_of l @ content s'"
    "bytes_of l = [] \<longleftrightarrow> l = []" "l = [] \<Longrightarrow> content (si_S it) = []"
    using recvE [of "si_S it"] assms by (metis siter_inv_def)
  moreover have "[] \<notin> set l"
    using recv_nonempty r(1) assms by (metis siter_inv_def)
  ultimately show ?thesis
    using True by (auto simp: si_Peek_def siter_inv_def siter_content_def)
next
  case False
  with assms show ?thesis
    by (auto simp: si_Peek_def siter_inv_def siter_content_def bytes_of_Nil_iff)
qed

lemma NextLen_spec:
  assumes "sinv it"
  shows "\<exists>l it'. si_NextLen recv len [] it = (Ret l, it') \<and> sinv it' \<and> scontent it = bytes_of l @ scontent it'
    \<and> length (bytes_of l) \<le> len \<and> (0 < len \<longrightarrow> bytes_of l = [] \<longrightarrow> scontent it = [])"
proof -
  obtain it1 where p: "si_Peek recv it = (Ret (scontent it \<noteq> []), it1)" "sinv it1"
      "scontent it1 = scontent it" "si_L it1 = [] \<longleftrightarrow> scontent it = []"
    using Peek_spec [OF assms] by blast
  obtain b a where s: "Split len (si_L it1) = Ret (b, a)" "bytes_of b = take len (bytes_of (si_L it1))"
      "bytes_of a = drop len (bytes_of (si_L it1))" "[] \<notin> set (si_L it1) \<Longrightarrow> [] \<notin> set a"
    by (rule Split_spec [of len "si_L it1"]) blast
  show ?thesis
  proof (cases "scontent it = []")
    case True
    with p show ?thesis by (auto simp: si_NextLen_def)
  next
    case False
    have ne: "[] \<notin> set (si_L it1)" using p(2) by (simp add: siter_inv_def)
    have "bytes_of (si_L it1) \<noteq> []" using False p(4) ne by (simp add: bytes_of_Nil_iff)
    then have "0 < len \<longrightarrow> bytes_of b \<noteq> []" by (simp add: s(2))
    moreover have "scontent it = bytes_of b @ scontent (it1\<lparr>si_L := a\<rparr>)"
      using p(3) s(2,3) by (simp add: siter_content_def append_assoc [symmetric] del: append_assoc)
    moreover have "sinv (it1\<lparr>si_L := a\<rparr>)" using p(2) s(4) ne by (simp add: siter_inv_def)
    ultimately show ?thesis
      using p(1) False s(1,2) by (auto simp: si_NextLen_def)
  qed
qed

lemma ReadSome_spec:
  assumes "sinv it"
  shows "\<exists>b it'. si_ReadSome recv len it = (Ret b, it') \<and> sinv it' \<and> scontent it = b @ scontent it'
    \<and> length b \<le> len \<and> (0 < len \<longrightarrow> b = [] \<longrightarrow> scontent it = [])"
  using NextLen_spec [OF assms, of len] by (auto simp: si_ReadSome_def CopyData_take)

lemma Read_enough:
  assumes "sinv it" and "len \<le> length (scontent it)"
  shows "\<exists>it'. si_Read recv len it = (Ret (take len (scontent it)), it') \<and> sinv it'
    \<and> scontent it' = drop len (scontent it)"
  using assms
proof (induction len arbitrary: it rule: less_induct)
  case (less len)
  show ?case
  proof (cases "len = 0")
    case True
    with less.prems show ?thesis by (simp add: si_Read.simps)
  next
    case False
    obtain b it1 where r: "si_ReadSome recv len it = (Ret b, it1)" "sinv it1" "scontent it = b @ scontent it1"
        "length b \<le> len" "b = [] \<longrightarrow> scontent it = []"
      using ReadSome_spec [OF less.prems(1), of len] False by blast
    with less.prems False have b: "b \<noteq> []" by auto
    with r False less.prems(2) have "len - length b < len" "len - length b \<le> length (scontent it1)" by auto
    from less.IH [OF this(1) r(2) this(2)] obtain it2 where
      "si_Read recv (len - length b) it1 = (Ret (take (len - length b) (scontent it1)), it2)"
      "sinv it2" "scontent it2 = drop (len - length b) (scontent it1)" by blast
    then show ?thesis
      using r b False by (subst si_Read.simps) simp
  qed
qed

lemma Read_short:
  assumes "sinv it" and "length (scontent it) < len"
  shows "\<exists>it'. si_Read recv len it = (Throw StreamError, it')"
  using assms
proof (induction len arbitrary: it rule: less_induct)
  case (less len)
  obtain b it1 where r: "si_ReadSome recv len it = (Ret b, it1)" "sinv it1" "scontent it = b @ scontent it1"
    "length b \<le> len"
    using ReadSome_spec [OF less.prems(1), of len] by blast
  show ?case
  proof (cases "b = []")
    case True
    with r less.prems show ?thesis by (subst si_Read.simps) auto
  next
    case False
    with r less.prems have "len - length b < len" "length (scontent it1) < len - length b" by auto
    from less.IH [OF this(1) r(2) this(2)] show ?thesis
      using r False less.prems by (subst si_Read.simps) auto
  qed
qed

lemma ReadList_enough:
  assumes "sinv it" and "len \<le> length (scontent it)"
  shows "\<exists>l it'. si_ReadList recv lst len it = (Ret l, it') \<and> sinv it'
    \<and> bytes_of l = bytes_of lst @ take len (scontent it) \<and> scontent it' = drop len (scontent it)"
  using assms
proof (induction len arbitrary: it lst rule: less_induct)
  case (less len)
  show ?case
  proof (cases "len = 0")
    case True
    with less.prems show ?thesis by (simp add: si_ReadList.simps)
  next
    case False
    obtain l it1 where r: "si_NextLen recv len [] it = (Ret l, it1)" "sinv it1"
        "scontent it = bytes_of l @ scontent it1" "length (bytes_of l) \<le> len"
        "bytes_of l = [] \<longrightarrow> scontent it = []"
      using NextLen_spec [OF less.prems(1), of len] False by blast
    with less.prems False have b: "bytes_of l \<noteq> []" by auto
    with r False less.prems(2) have "len - length (bytes_of l) < len"
      "len - length (bytes_of l) \<le> length (scontent it1)" by auto
    from less.IH [OF this(1) r(2) this(2), of "lst @ l"] show ?thesis
      using r b False by (subst si_ReadList.simps) (auto simp: FullLength_bytes MoveTo_def)
  qed
qed

lemma NextCh_spec:
  assumes "sinv it"
  shows "\<exists>it'. si_NextCh recv it = (Ret (case scontent it of [] \<Rightarrow> None | ch # _ \<Rightarrow> Some ch), it')
    \<and> sinv it' \<and> scontent it' = tl (scontent it)"
proof -
  obtain b it1 where r: "si_ReadSome recv 1 it = (Ret b, it1)" "sinv it1" "scontent it = b @ scontent it1"
    "length b \<le> 1" "b = [] \<longrightarrow> scontent it = []"
    using ReadSome_spec [OF assms, of 1] by auto
  then show ?thesis
    by (cases b) (auto simp: si_NextCh_def)
qed

lemma siter_io_input: "io_input_nonempty (siter_Recv recv) sinv scontent"
proof
  fix it :: "'a siter"
  assume inv: "sinv it"
  then obtain it1 where p: "si_Peek recv it = (Ret (scontent it \<noteq> []), it1)" "sinv it1"
      "scontent it1 = scontent it" "si_L it1 = [] \<longleftrightarrow> scontent it = []"
    using Peek_spec by blast
  have ne: "[] \<notin> set (si_L it1)" using p(2) by (simp add: siter_inv_def)
  show "\<exists>l s'. siter_Recv recv it = (Ret l, s') \<and> sinv s' \<and> scontent it = bytes_of l @ scontent s'
      \<and> (bytes_of l = [] \<longrightarrow> l = [] \<and> scontent it = [])"
    using p ne by (cases "scontent it = []")
      (auto simp: siter_Recv_def si_NextAll_def MoveTo_def siter_inv_def siter_content_def bytes_of_Nil_iff)
  fix l it'
  assume "siter_Recv recv it = (Ret l, it')"
  with p ne show "[] \<notin> set l"
    by (auto simp: siter_Recv_def si_NextAll_def MoveTo_def split: if_splits)
qed

lemma UnGet_content:
  assumes "sinv it" and "[] \<notin> set data"
  shows "sinv (si_UnGet data it)" and "scontent (si_UnGet data it) = bytes_of data @ scontent it"
  using assms by (auto simp: si_UnGet_def siter_inv_def siter_content_def MoveTo_def)

end

text \<open>The iterator on the inputs of the model.\<close>

interpretation sit: io_input_nonempty "siter_Recv owned_Recv" "siter_inv owned_inv" "siter_content bytes_of"
  by (rule own.siter_io_input)

interpretation sid: io_input_nonempty "siter_Recv null_Recv" "siter_inv (\<lambda>_ :: unit. True)"
  "siter_content (\<lambda>_. [])"
  by (rule nul.siter_io_input)

section \<open>Properties of the streams\<close>

text \<open>
  \<open>TStreamIterator::Read(buf, len)\<close> on any input that meets the contract returns exactly the
  next \<open>len\<close> bytes of the stream and leaves the rest, however the stream is cut into chunks; if
  fewer bytes are left it throws \<open>TStreamError\<close>.
\<close>

theorem stream_iterator_read:
  assumes "io_input_nonempty r i c" and "siter_inv i it"
  shows "if len \<le> length (siter_content c it)
    then \<exists>it'. si_Read r len it = (Ret (take len (siter_content c it)), it')
           \<and> siter_content c it' = drop len (siter_content c it)
    else \<exists>it'. si_Read r len it = (Throw StreamError, it')"
  using io_input_nonempty.Read_enough [OF assms, of len] io_input_nonempty.Read_short [OF assms, of len]
  by auto

theorem stream_iterator_read_witness:
  "\<exists>it'. si_Read owned_Recv 3 \<lparr>si_L = [''a''], si_S = [''b'', ''cd'']\<rparr> = (Ret ''abc'', it')
     \<and> siter_content bytes_of it' = ''d''"
  using stream_iterator_read [OF own.io_input_nonempty_axioms, of "\<lparr>si_L = [''a''], si_S = [''b'', ''cd'']\<rparr>" 3]
  by (simp add: siter_inv_def owned_inv_def siter_content_def numeral_3_eq_3)

text \<open>Any number of \<open>Recv\<close> calls, their results dropped.\<close>

fun recv_times :: "'s recv \<Rightarrow> nat \<Rightarrow> 's \<Rightarrow> 's" where
  "recv_times recv 0 s = s"
| "recv_times recv (Suc n) s = recv_times recv n (snd (recv s))"

lemma rewind_recv_times:
  assumes "io_input r i c" and "rewind_inv i st"
  shows "rewind_inv i (recv_times (rewind_Recv r) n st)
    \<and> rewind_total c (recv_times (rewind_Recv r) n st) = rewind_total c st"
  using assms(2)
proof (induction n arbitrary: st)
  case (Suc n)
  obtain l st' where "rewind_Recv r st = (Ret l, st')" "rewind_inv i st'" "rewind_total c st' = rewind_total c st"
    using rewind_Recv_spec [OF assms(1) Suc.prems] by blast
  with Suc.IH show ?case by simp
qed simp

text \<open>
  C40. A rewound input replays the stream: however much was read before, and however many
  times the input was read and rewound, reading everything after \<open>Rewind\<close> yields all the bytes the
  slave had when the input was built.
\<close>

theorem rewind_replays_stream:
  assumes "io_input r i c" and "i s"
  shows "\<exists>l st'. ReadAll (rewind_Recv r) []
      (Rewind (recv_times (rewind_Recv r) m (Rewind (recv_times (rewind_Recv r) n (rewind_new s)))))
    = Some (Ret l, st') \<and> bytes_of l = c s"
proof -
  let ?a = "recv_times (rewind_Recv r) n (rewind_new s)"
  let ?b = "recv_times (rewind_Recv r) m (Rewind ?a)"
  have a: "rewind_inv i ?a" "rewind_total c ?a = c s"
    using rewind_recv_times [OF assms(1) rewind_new_spec(1) [of i s, OF assms(2)], of n]
    by (simp_all add: rewind_new_spec)
  have b: "rewind_inv i ?b" "rewind_total c ?b = c s"
    using rewind_recv_times [OF assms(1) Rewind_spec(1) [OF a(1)], of m] a Rewind_spec(2) [OF a(1), of c]
    by simp_all
  show ?thesis
    using io_input.ReadAll_content [OF rewind_io_input [OF assms(1)] Rewind_spec(1) [OF b(1)], of "[]"]
      Rewind_spec(3) [OF b(1), of c] b(2) by auto
qed

theorem rewind_replays_stream_witness:
  "\<exists>l st'. ReadAll (rewind_Recv owned_Recv) [] (Rewind (recv_times (rewind_Recv owned_Recv) 1
      (Rewind (recv_times (rewind_Recv owned_Recv) 2 (rewind_new [''GET'', '' /'']))))) = Some (Ret l, st')
    \<and> bytes_of l = ''GET /''"
  using rewind_replays_stream [OF own.io_input_axioms, of "[''GET'', '' /'']" 1 2]
  by (simp add: owned_inv_def)

text \<open>
  Reading a limited input on top of a concatenation of two inputs yields the first \<open>limit\<close>
  bytes of the first stream followed by the second, and always ends.
\<close>

theorem limited_concat_stream:
  assumes "io_input ra ia ca" and "ia a" and "io_input rb ib cb" and "ib b"
  shows "\<exists>l st'. ReadAll (limited_Recv (Ret ()) (concat_Recv ra rb)) [] (limited_new (concat_new a b) limit)
      = Some (Ret l, st') \<and> bytes_of l = take limit (ca a @ cb b)"
  using io_input.ReadAll_content [OF limited_io_input [OF concat_io_input [OF assms(1,3)]],
      of "limited_new (concat_new a b) limit" "[]"] assms
  by (auto simp: limited_inv_def limited_new_def concat_inv_def concat_new_def limited_content_def
      concat_content_def)

theorem limited_concat_stream_witness:
  "\<exists>l st'. ReadAll (limited_Recv (Ret ()) (concat_Recv owned_Recv owned_Recv)) []
      (limited_new (concat_new [''ab''] [''cd'', ''e'']) 4) = Some (Ret l, st') \<and> bytes_of l = ''abcd''"
  using limited_concat_stream [OF own.io_input_axioms _ own.io_input_axioms, of "[''ab'']" "[''cd'', ''e'']" 4]
  by (simp add: owned_inv_def)

end
