(* ===== verification/Balancer.thy ===== *)
theory Balancer
  imports Backends Arbiter Streamiter
begin

text \<open>
  The balancer module (web/httpd/modules/balancer/module.cpp): its configuration and \<open>DoRun\<close>, the
  loop that hands a request to one backend after the other until one answers.

  The module of a backend is code behind the interface \<open>IModule\<close>. A run of it is a \<open>prog\<close>: it
  receives from the input and sends to the output it is given, in any order and with any
  handling of their exceptions, and ends or throws. How it answers may depend on when it is
  asked, so \<open>Run\<close> takes the number of attempts that are left.
\<close>

section \<open>Runs of a module\<close>

datatype prog =
    Done
  | Fails exn
  | RecvP "chunks \<Rightarrow> prog" "exn \<Rightarrow> prog"
  | SendP chunks prog "exn \<Rightarrow> prog"

primrec run_prog :: "'i recv \<Rightarrow> 'o send \<Rightarrow> prog \<Rightarrow> 'i \<Rightarrow> 'o \<Rightarrow> unit outcome \<times> 'i \<times> 'o" where
  "run_prog recv send Done i ou = (Ret (), i, ou)"
| "run_prog recv send (Fails e) i ou = (Throw e, i, ou)"
| "run_prog recv send (RecvP k h) i ou =
     (case recv i of
        (Ret l, i') \<Rightarrow> run_prog recv send (k l) i' ou
      | (Throw e, i') \<Rightarrow> run_prog recv send (h e) i' ou
      | (Crash, i') \<Rightarrow> (Crash, i', ou))"
| "run_prog recv send (SendP l k h) i ou =
     (case send l ou of
        (Ret _, o') \<Rightarrow> run_prog recv send k i o'
      | (Throw e, o') \<Rightarrow> run_prog recv send (h e) i o'
      | (Crash, o') \<Rightarrow> (Crash, i, o'))"

section \<open>The module's state and configuration\<close>

record 's balancer =
  b_BackEnds :: 's
  b_Arbiter :: arbiter
  b_Attempts :: ui64
  b_Incomplete :: ui64

text \<open>While the configuration is read \<open>BackEnds_\<close> and \<open>Arbiter_\<close> may still be null.\<close>

record 's balancer_cfg =
  bc_BackEnds :: "'s option"
  bc_Arbiter :: "arbiter option"
  bc_Attempts :: ui64

text \<open>\<open>mkBackEnds\<close> is \<open>ConstructBackEnds\<close>, null for a name that is no algorithm.\<close>

definition balancer_DoConsume ::
  "(string \<Rightarrow> ui64 outcome) \<Rightarrow> (string \<Rightarrow> real outcome) \<Rightarrow> (string \<Rightarrow> cfg \<Rightarrow> 's option outcome)
   \<Rightarrow> string \<Rightarrow> cfg_value \<Rightarrow> 's balancer_cfg \<Rightarrow> 's balancer_cfg outcome" where
  "balancer_DoConsume fromSize fromReal mkBackEnds key v b =
     ON_KEY ''attempts'' fromSize (\<lambda>x b. b\<lparr>bc_Attempts := x\<rparr>) key v b
       (obind (AsSubConfig v) (\<lambda>sub.
        obind (mkBackEnds key sub) (\<lambda>be.
          case be of Some s \<Rightarrow> Ret (b\<lparr>bc_BackEnds := Some s\<rparr>)
          | None \<Rightarrow>
            obind (ConstructArbiter fromReal key sub) (\<lambda>arb.
              case arb of Some a \<Rightarrow> Ret (b\<lparr>bc_Arbiter := Some a\<rparr>)
              | None \<Rightarrow> Throw ConfigParseError))))"

definition balancer_new ::
  "(string \<Rightarrow> ui64 outcome) \<Rightarrow> (string \<Rightarrow> real outcome) \<Rightarrow> (string \<Rightarrow> cfg \<Rightarrow> 's option outcome)
   \<Rightarrow> ('s, 'm) ibackends \<Rightarrow> cfg \<Rightarrow> 's balancer outcome" where
  "balancer_new fromSize fromReal mkBackEnds ops c =
     obind (ForEach (balancer_DoConsume fromSize fromReal mkBackEnds) c
         \<lparr>bc_BackEnds = None, bc_Arbiter = None, bc_Attempts = 1\<rparr>)
       (\<lambda>b. case bc_BackEnds b of
              None \<Rightarrow> Throw ConfigParseError
            | Some s \<Rightarrow>
                if be_Size ops s = 0 then Throw ConfigParseError
                else Ret \<lparr>b_BackEnds = s,
                          b_Arbiter = (case bc_Arbiter b of Some a \<Rightarrow> a | None \<Rightarrow> FakeArbiter),
                          b_Attempts = bc_Attempts b, b_Incomplete = 0\<rparr>)"

section \<open>\<open>DoRun\<close>\<close>

definition EPIPE :: int where
  "EPIPE = 32"

text \<open>
  The exceptions that leave the \<open>catch (...)\<close> block at once. The handler rethrows inside an inner
  \<open>try\<close> that catches \<open>THttpError\<close> and \<open>TSystemError\<close> only: any other exception passes through it.
\<close>

definition passes_through :: "exn \<Rightarrow> bool" where
  "passes_through e =
     (case http_code e of
        Some code \<Rightarrow> unat code div 100 \<noteq> 5
      | None \<Rightarrow> (case e of SystemError st \<Rightarrow> st = EPIPE | _ \<Rightarrow> True))"

record ('s, 'i, 'o) bal_state =
  bs_iter :: conn_iter
  bs_clock :: "ui64 stream"
  bs_input :: "'i rewindable"
  bs_output :: "'o counted"
  bs_mod :: "'s balancer"

text \<open>
  The body of the loop: \<open>None\<close> asks for another turn, \<open>Some\<close> leaves \<open>DoRun\<close>. \<open>BackEnds_\<close> and \<open>Arbiter_\<close> are shared with
  the coroutines of other requests, which may use them while the module runs; here one request runs
  alone. What other requests do to an algorithm is in the histories \<open>be_run\<close>.
\<close>

definition bal_attempt ::
  "('s, 'm) ibackends \<Rightarrow> ('m \<Rightarrow> nat \<Rightarrow> prog) \<Rightarrow> 'i recv \<Rightarrow> 'o send \<Rightarrow> ui64 \<Rightarrow> nat
   \<Rightarrow> ('s, 'i, 'o) bal_state \<Rightarrow> (unit outcome option \<times> ('s, 'i, 'o) bal_state) option" where
  "bal_attempt ops Run recv send hash left st =
     (let inp = Rewind (bs_input st); b = bs_mod st in
      case ci_Next ops hash (bs_iter st) (b_BackEnds b) of
        None \<Rightarrow> None
      | Some (Ret (Some i), it, s1) \<Rightarrow>
          (let start = shd (bs_clock st); clk = stl (bs_clock st);
               (r, inp2, out2) = run_prog (rewind_Recv recv) (count_Send send)
                                   (Run (be_Module ops i s1) left) inp (bs_output st);
               answer = shd clk - start;
               st1 = st\<lparr>bs_iter := it, bs_clock := clk, bs_input := inp2, bs_output := out2,
                         bs_mod := b\<lparr>b_BackEnds := s1\<rparr>\<rparr>
           in Some (case r of
                Ret _ \<Rightarrow>
                  (Some (Ret ()),
                   st1\<lparr>bs_clock := stl clk,
                        bs_mod := b\<lparr>b_BackEnds := be_OnComplete ops answer i s1,
                                     b_Arbiter := RegisterSucc (b_Arbiter b)\<rparr>\<rparr>)
              | Crash \<Rightarrow> (Some Crash, st1)
              | Throw e \<Rightarrow>
                  (if passes_through e then (Some (Throw e), st1)
                   else
                     let arb = RegisterFail (b_Arbiter b);
                         b2 = b\<lparr>b_Arbiter := arb, b_BackEnds := be_OnFail ops answer i s1\<rparr>;
                         st2 = st1\<lparr>bs_clock := stl clk, bs_mod := b2\<rparr>
                     in if co_Written out2 \<noteq> 0
                        then (Some (Throw e), st2\<lparr>bs_mod := b2\<lparr>b_Incomplete := b_Incomplete b + 1\<rparr>\<rparr>)
                        else if \<not> Authorize arb then (Some (Throw e), st2)
                        else (None, st2))))
      | Some (_, it, s1) \<Rightarrow> Some (Some Crash, st\<lparr>bs_iter := it, bs_input := inp\<rparr>))"

fun bal_loop ::
  "('s, 'm) ibackends \<Rightarrow> ('m \<Rightarrow> nat \<Rightarrow> prog) \<Rightarrow> 'i recv \<Rightarrow> 'o send \<Rightarrow> ui64 \<Rightarrow> nat
   \<Rightarrow> ('s, 'i, 'o) bal_state \<Rightarrow> (unit outcome \<times> ('s, 'i, 'o) bal_state) option" where
  "bal_loop ops Run recv send hash 0 st = Some (Throw (HttpError 503), st)"
| "bal_loop ops Run recv send hash (Suc left) st =
     (case bal_attempt ops Run recv send hash left st of
        None \<Rightarrow> None
      | Some (Some r, st') \<Rightarrow> Some (r, st')
      | Some (None, st') \<Rightarrow> bal_loop ops Run recv send hash left st')"

definition bal_start :: "'i \<Rightarrow> 'o \<Rightarrow> ui64 stream \<Rightarrow> 's balancer \<Rightarrow> ('s, 'i, 'o) bal_state" where
  "bal_start i ou clk b = \<lparr>bs_iter = conn_iter_new, bs_clock = clk, bs_input = rewind_new i,
     bs_output = count_new ou, bs_mod = b\<rparr>"

definition DoRun ::
  "('s, 'm) ibackends \<Rightarrow> ('m \<Rightarrow> nat \<Rightarrow> prog) \<Rightarrow> 'i recv \<Rightarrow> 'o send \<Rightarrow> ui64 \<Rightarrow> 'i \<Rightarrow> 'o \<Rightarrow> ui64 stream
   \<Rightarrow> 's balancer \<Rightarrow> (unit outcome \<times> ('s, 'i, 'o) bal_state) option" where
  "DoRun ops Run recv send hash i ou clk b =
     bal_loop ops Run recv send hash (unat (b_Attempts b)) (bal_start i ou clk b)"

text \<open>The iterator only appends to its attempts.\<close>

lemma ci_Next_grows:
  "ci_Next ops hash it s = Some (r, it', s') \<Longrightarrow> \<exists>bs. it_Attempts it' = it_Attempts it @ bs"
  by (auto simp: ci_Next_def split: option.splits outcome.splits if_splits)

lemma bal_attempt_grows:
  assumes "bal_attempt ops Run recv send hash left st = Some (r, st')"
  shows "\<exists>bs. it_Attempts (bs_iter st') = it_Attempts (bs_iter st) @ bs"
proof -
  obtain q it s1 where nx: "ci_Next ops hash (bs_iter st) (b_BackEnds (bs_mod st)) = Some (q, it, s1)"
    using assms by (auto simp: bal_attempt_def Let_def split: option.splits)
  then have "bs_iter st' = it"
    using assms by (auto simp: bal_attempt_def Let_def split: outcome.splits option.splits prod.splits if_splits)
  then show ?thesis using ci_Next_grows [OF nx] by simp
qed

lemma bal_loop_grows:
  "bal_loop ops Run recv send hash n st = Some (r, st') \<Longrightarrow> \<exists>bs. it_Attempts (bs_iter st') = it_Attempts (bs_iter st) @ bs"
proof (induction n arbitrary: st)
  case (Suc n)
  obtain q st1 where q: "bal_attempt ops Run recv send hash n st = Some (q, st1)"
    using Suc.prems by (auto split: option.splits)
  with Suc show ?case using bal_attempt_grows [OF q] by (cases q) fastforce+
qed simp

section \<open>What the loop keeps\<close>

definition send_ok :: "'o send \<Rightarrow> bool" where
  "send_ok send \<longleftrightarrow> (\<forall>l ou. fst (send l ou) \<noteq> Crash)"

lemma run_prog_rewind:
  assumes "io_input r i c" and "rewind_inv i inp" and "send_ok send"
    and "run_prog (rewind_Recv r) (count_Send send) p inp ou = (res, inp', ou')"
  shows "rewind_inv i inp' \<and> rewind_total c inp' = rewind_total c inp \<and> res \<noteq> Crash"
  using assms(2,4)
proof (induction p arbitrary: inp ou)
  case (RecvP k h)
  obtain l inp1 where r: "rewind_Recv r inp = (Ret l, inp1)" "rewind_inv i inp1"
      "rewind_total c inp1 = rewind_total c inp"
    using rewind_Recv_spec [OF assms(1) RecvP.prems(1)] by blast
  from RecvP.IH(1) [OF rangeI r(2), of l] RecvP.prems(2) r show ?case by simp
next
  case (SendP l k h)
  obtain q ou1 where q: "count_Send send l ou = (q, ou1)" by fastforce
  have "q \<noteq> Crash"
    using q assms(3) by (auto simp: send_ok_def count_Send_def Let_def split: outcome.splits prod.splits)
      (metis fst_conv)
  with q SendP.prems SendP.IH(1) [OF SendP.prems(1)] SendP.IH(2) [OF rangeI SendP.prems(1)]
  show ?case by (cases q) simp_all
qed auto

section \<open>What has been sent\<close>

text \<open>The outputs that any number of sends lead to, whether they return or throw.\<close>

inductive sends :: "'o send \<Rightarrow> 'o counted \<Rightarrow> 'o counted \<Rightarrow> bool" for send where
  sends_none: "sends send ou ou"
| sends_more: "sends send ou ou' \<Longrightarrow> count_Send send l ou' = (q, ou'') \<Longrightarrow> sends send ou ou''"

lemma run_prog_sends:
  assumes "run_prog recv (count_Send send) p inp ou = (res, inp', ou')" and "sends send ou0 ou"
  shows "sends send ou0 ou'"
  using assms
proof (induction p arbitrary: inp ou)
  case (RecvP k h)
  obtain q inp1 where "recv inp = (q, inp1)" by fastforce
  with RecvP.prems RecvP.IH(1,2) [OF rangeI] show ?case by (cases q) auto
next
  case (SendP l k h)
  obtain q ou1 where q: "count_Send send l ou = (q, ou1)" by fastforce
  then have "sends send ou0 ou1" using SendP.prems(2) by (rule sends_more [rotated])
  with q SendP.prems(1) SendP.IH(1) SendP.IH(2) [OF rangeI] show ?case by (cases q) auto
qed auto

text \<open>
  An output whose failing sends have sent nothing: \<open>sent\<close> is what has left through it. The counter of
  \<open>TCountOutput\<close> does not see what a send wrote before it threw, so it tells what has been sent for
  such outputs only.
\<close>

definition atomic_send :: "'o send \<Rightarrow> ('o \<Rightarrow> bytes) \<Rightarrow> bool" where
  "atomic_send send sent \<longleftrightarrow> (\<forall>l ou.
     sent (snd (send l ou)) = sent ou @ (case fst (send l ou) of Ret _ \<Rightarrow> bytes_of l | _ \<Rightarrow> []))"

lemma sends_sent:
  assumes "sends send ou ou'" and "atomic_send send sent"
  shows "\<exists>ys. sent (co_Slave ou') = sent (co_Slave ou) @ ys \<and> co_Written ou' = co_Written ou + of_nat (length ys)"
  using assms(1)
proof induction
  case (sends_more ou ou' l q ou'')
  let ?w = "case fst (send l (co_Slave ou')) of Ret _ \<Rightarrow> bytes_of l | _ \<Rightarrow> []"
  have "sent (co_Slave ou'') = sent (co_Slave ou') @ ?w \<and> co_Written ou'' = co_Written ou' + of_nat (length ?w)"
    using sends_more.hyps(2) assms(2) [unfolded atomic_send_def, rule_format, of l "co_Slave ou'"]
    by (auto simp: count_Send_def FullLength_bytes split: prod.splits outcome.splits)
  moreover obtain ys where "sent (co_Slave ou') = sent (co_Slave ou) @ ys"
      "co_Written ou' = co_Written ou + of_nat (length ys)" using sends_more.IH by blast
  ultimately show ?case by (intro exI [of _ "ys @ ?w"]) (simp add: add.assoc)
qed simp

text \<open>While fewer than \<open>2 ^ 64\<close> bytes have left, a counter of 0 means that nothing has.\<close>

lemma sends_nothing:
  assumes "sends send (count_new ou) ou'" and "atomic_send send sent" and "co_Written ou' = 0"
    and "length (sent (co_Slave ou')) < 2 ^ 64"
  shows "sent (co_Slave ou') = sent ou"
proof -
  obtain ys where ys: "sent (co_Slave ou') = sent ou @ ys" "(of_nat (length ys) :: ui64) = 0"
    using sends_sent [OF assms(1,2)] assms(3) by (auto simp: count_new_def)
  have "length ys = 0"
    using arg_cong [OF ys(2), of unat] ys(1) assms(4) by (simp add: unat_of_nat take_bit_nat_eq_self)
  then show ?thesis using ys(1) by simp
qed

context backends
begin

text \<open>
  What holds between two turns of the loop, for a client stream \<open>whole\<close> and an output that was \<open>out0\<close>
  at the start.
\<close>

definition loop_inv :: "'o send \<Rightarrow> 'o counted \<Rightarrow> ('i \<Rightarrow> bool) \<Rightarrow> ('i \<Rightarrow> bytes) \<Rightarrow> bytes \<Rightarrow> ('s, 'i, 'o) bal_state \<Rightarrow> bool" where
  "loop_inv send out0 i c whole st \<longleftrightarrow> sends send out0 (bs_output st) \<and> inv (b_BackEnds (bs_mod st)) \<and> iter_inv (bs_iter st) (b_BackEnds (bs_mod st))
     \<and> rewind_inv i (bs_input st) \<and> rewind_total c (bs_input st) = whole \<and> co_Written (bs_output st) = 0"

text \<open>
  One turn: it asks a backend that exists, with the whole client stream ahead of it and nothing
  counted as sent before. It then leaves \<open>DoRun\<close> with the result of the backend, or asks for another turn
  after a failure that may be repeated.
\<close>

definition turn :: "('m \<Rightarrow> nat \<Rightarrow> prog) \<Rightarrow> 'i recv \<Rightarrow> 'o send \<Rightarrow> 'o counted \<Rightarrow> ('i \<Rightarrow> bool) \<Rightarrow> ('i \<Rightarrow> bytes) \<Rightarrow> bytes \<Rightarrow> nat
    \<Rightarrow> ('s, 'i, 'o) bal_state \<Rightarrow> unit outcome option \<Rightarrow> ('s, 'i, 'o) bal_state \<Rightarrow> bool" where
  "turn Run r send out0 i c whole left st res st' \<longleftrightarrow>
     (\<exists>n s1 inp ou q inp' ou'.
        n < be_Size ops (b_BackEnds (bs_mod st))
      \<and> it_Attempts (bs_iter st') = it_Attempts (bs_iter st) @ [Some n]
      \<and> iter_inv (bs_iter st') (b_BackEnds (bs_mod st'))
      \<and> be_Size ops (b_BackEnds (bs_mod st')) = be_Size ops (b_BackEnds (bs_mod st))
      \<and> rewind_inv i inp \<and> rewind_content c inp = whole \<and> sends send out0 ou \<and> co_Written ou = 0
      \<and> run_prog (rewind_Recv r) (count_Send send) (Run (be_Module ops n s1) left) inp ou = (q, inp', ou')
      \<and> bs_input st' = inp' \<and> bs_output st' = ou'
      \<and> (case q of
           Ret _ \<Rightarrow> res = Some (Ret ()) \<and> b_Arbiter (bs_mod st') = RegisterSucc (b_Arbiter (bs_mod st))
         | Crash \<Rightarrow> False
         | Throw e \<Rightarrow>
             if passes_through e then res = Some (Throw e) \<and> b_Arbiter (bs_mod st') = b_Arbiter (bs_mod st)
             else b_Arbiter (bs_mod st') = RegisterFail (b_Arbiter (bs_mod st))
               \<and> (if co_Written ou' = 0 \<and> Authorize (b_Arbiter (bs_mod st'))
                  then res = None \<and> loop_inv send out0 i c whole st' else res = Some (Throw e))))"

lemma bal_attempt_turn:
  assumes io: "io_input r i c" and send: "send_ok send" and inv: "loop_inv send out0 i c whole st"
    and len: "length (it_Attempts (bs_iter st)) < 16"
    and ret: "bal_attempt ops Run r send h left st = Some (res, st')"
  shows "turn Run r send out0 i c whole left st res st'"
proof -
  let ?s = "b_BackEnds (bs_mod st)" and ?inp = "Rewind (bs_input st)"
  have s: "inv ?s" "iter_inv (bs_iter st) ?s" "rewind_inv i (bs_input st)"
    "rewind_total c (bs_input st) = whole" "co_Written (bs_output st) = 0" "sends send out0 (bs_output st)"
    using inv by (auto simp: loop_inv_def)
  obtain q it s1 where nx: "ci_Next ops h (bs_iter st) ?s = Some (q, it, s1)"
    using ret by (auto simp: bal_attempt_def Let_def split: option.splits)
  obtain n where n: "q = Ret (Some n)" "n < be_Size ops ?s" "inv s1" "be_Size ops s1 = be_Size ops ?s"
      "iter_inv it s1" "it_Attempts it = it_Attempts (bs_iter st) @ [Some n]"
    using ci_Next_result [OF s(1,2) len nx] by blast
  have inp: "rewind_inv i ?inp" "rewind_content c ?inp = whole" "rewind_total c ?inp = whole"
    using Rewind_spec(1) [OF s(3)] Rewind_spec(2,3) [OF s(3), of c] s(4) by simp_all
  obtain x inp' ou' where run: "run_prog (rewind_Recv r) (count_Send send) (Run (be_Module ops n s1) left)
      ?inp (bs_output st) = (x, inp', ou')"
    by (metis prod_cases3)
  have after: "rewind_inv i inp'" "rewind_total c inp' = whole" "x \<noteq> Crash"
    using run_prog_rewind [OF io inp(1) send run] inp(3) by auto
  have fin: "(case x of
      Ret _ \<Rightarrow> res = Some (Ret ()) \<and> b_Arbiter (bs_mod st') = RegisterSucc (b_Arbiter (bs_mod st))
        \<and> b_BackEnds (bs_mod st') = be_OnComplete ops (shd (stl (bs_clock st)) - shd (bs_clock st)) n s1
    | Crash \<Rightarrow> False
    | Throw e \<Rightarrow>
        if passes_through e then res = Some (Throw e) \<and> b_Arbiter (bs_mod st') = b_Arbiter (bs_mod st)
          \<and> b_BackEnds (bs_mod st') = s1
        else b_Arbiter (bs_mod st') = RegisterFail (b_Arbiter (bs_mod st))
          \<and> b_BackEnds (bs_mod st') = be_OnFail ops (shd (stl (bs_clock st)) - shd (bs_clock st)) n s1
          \<and> res = (if co_Written ou' = 0 \<and> Authorize (b_Arbiter (bs_mod st')) then None else Some (Throw e)))
    \<and> bs_iter st' = it \<and> bs_input st' = inp' \<and> bs_output st' = ou'"
    using ret after(3) by (cases x) (auto simp: bal_attempt_def Let_def nx n(1) run split: if_splits)
  have kept: "inv (b_BackEnds (bs_mod st')) \<and> be_Size ops (b_BackEnds (bs_mod st')) = be_Size ops ?s"
    using fin complete_ok [OF n(3), of n] fail_ok [OF n(3), of n] n(2,3,4)
    by (cases x) (simp_all split: if_splits)
  then have it: "iter_inv (bs_iter st') (b_BackEnds (bs_mod st'))"
    using fin n(4,5) iter_inv_size by metis
  have again: "loop_inv send out0 i c whole st'" if "co_Written ou' = 0"
    using that fin kept it after run_prog_sends [OF run s(6)] by (simp add: loop_inv_def)
  show ?thesis
    unfolding turn_def
    by (intro exI [of _ n] exI [of _ s1] exI [of _ ?inp] exI [of _ "bs_output st"] exI [of _ x]
        exI [of _ inp'] exI [of _ ou'] conjI)
      (use fin kept it again n(2,6) inp s(5,6) run after(3) in \<open>simp_all split: outcome.splits if_splits\<close>)
qed

text \<open>
  The result of the loop, with \<open>bs\<close> the backends it asked: every turn after the first was
  authorised by the arbiter. Either all attempts failed, or the result is that of the last backend
  asked, which had the whole client stream ahead of it and an output that only the
  attempts before it have used, with nothing counted as sent.
\<close>

definition answered :: "('m \<Rightarrow> nat \<Rightarrow> prog) \<Rightarrow> 'i recv \<Rightarrow> 'o send \<Rightarrow> 'o counted \<Rightarrow> ('i \<Rightarrow> bytes) \<Rightarrow> bytes
    \<Rightarrow> nat option list \<Rightarrow> unit outcome \<Rightarrow> ('s, 'i, 'o) bal_state \<Rightarrow> bool" where
  "answered Run r send out0 c whole bs res st' \<longleftrightarrow>
     (\<exists>m left s1 inp ou. last bs = Some m \<and> rewind_content c inp = whole \<and> sends send out0 ou \<and> co_Written ou = 0
        \<and> run_prog (rewind_Recv r) (count_Send send) (Run (be_Module ops m s1) left) inp ou
            = (res, bs_input st', bs_output st'))"

lemma answered_Cons: "bs \<noteq> [] \<Longrightarrow> answered Run r send out0 c whole (b # bs) = answered Run r send out0 c whole bs"
  by (simp add: answered_def fun_eq_iff)

definition loop_result :: "('m \<Rightarrow> nat \<Rightarrow> prog) \<Rightarrow> 'i recv \<Rightarrow> 'o send \<Rightarrow> 'o counted \<Rightarrow> ('i \<Rightarrow> bytes) \<Rightarrow> bytes \<Rightarrow> arbiter
    \<Rightarrow> nat option list \<Rightarrow> nat \<Rightarrow> unit outcome \<Rightarrow> ('s, 'i, 'o) bal_state \<Rightarrow> bool" where
  "loop_result Run r send out0 c whole arb bs n res st' \<longleftrightarrow>
     length bs \<le> n \<and> (\<forall>j. 0 < j \<and> j < length bs \<longrightarrow> Authorize (foldl register arb (replicate j False)))
   \<and> (res = Throw (HttpError 503) \<and> length bs = n
        \<and> b_Arbiter (bs_mod st') = foldl register arb (replicate n False)
    \<or> bs \<noteq> [] \<and> answered Run r send out0 c whole bs res st'
      \<and> (case res of
           Ret _ \<Rightarrow> b_Arbiter (bs_mod st') = foldl register arb (replicate (length bs - 1) False @ [True])
         | Throw e \<Rightarrow>
             if passes_through e
             then b_Arbiter (bs_mod st') = foldl register arb (replicate (length bs - 1) False)
             else b_Arbiter (bs_mod st') = foldl register arb (replicate (length bs) False)
               \<and> (co_Written (bs_output st') \<noteq> 0 \<or> \<not> Authorize (b_Arbiter (bs_mod st')))
         | Crash \<Rightarrow> False))"

lemma loop_result_again:
  assumes "loop_result Run r send out0 c whole (RegisterFail arb) bs n res st'" and "Authorize (RegisterFail arb)"
  shows "loop_result Run r send out0 c whole arb (b # bs) (Suc n) res st'"
proof -
  have arb: "foldl register arb (False # xs) = foldl register (RegisterFail arb) xs" for xs
    by (simp add: register_def)
  have auth: "Authorize (foldl register arb (replicate j False))" if "0 < j" "j < length (b # bs)" for j
  proof (cases j)
    case (Suc k)
    then have "foldl register arb (replicate j False) = foldl register (RegisterFail arb) (replicate k False)"
      by (simp add: register_def)
    with Suc that assms show ?thesis
      by (cases "k = 0") (simp_all add: loop_result_def)
  qed (use that in simp)
  have len: "bs \<noteq> [] \<Longrightarrow> replicate (length bs) False = False # replicate (length bs - 1) False"
    by (cases bs) simp_all
  show ?thesis
    using assms(1) auth unfolding loop_result_def
    by (auto simp: len arb answered_Cons simp del: foldl_Cons split: outcome.splits if_splits)
qed

lemma turn_last:
  assumes "turn Run r send out0 i c whole left st (Some res) st'"
  shows "\<exists>b. it_Attempts (bs_iter st') = it_Attempts (bs_iter st) @ [b]
    \<and> iter_inv (bs_iter st') (b_BackEnds (bs_mod st'))
    \<and> loop_result Run r send out0 c whole (b_Arbiter (bs_mod st)) [b] (Suc left) res st'"
proof -
  from assms obtain n s1 inp ou q inp' ou' where t:
    "it_Attempts (bs_iter st') = it_Attempts (bs_iter st) @ [Some n]"
    "iter_inv (bs_iter st') (b_BackEnds (bs_mod st'))"
    "rewind_content c inp = whole" "sends send out0 ou \<and> co_Written ou = 0"
    "run_prog (rewind_Recv r) (count_Send send) (Run (be_Module ops n s1) left) inp ou = (q, inp', ou')"
    "bs_input st' = inp'" "bs_output st' = ou'"
    and fin: "case q of
           Ret _ \<Rightarrow> Some res = Some (Ret ()) \<and> b_Arbiter (bs_mod st') = RegisterSucc (b_Arbiter (bs_mod st))
         | Crash \<Rightarrow> False
         | Throw e \<Rightarrow>
             if passes_through e then Some res = Some (Throw e) \<and> b_Arbiter (bs_mod st') = b_Arbiter (bs_mod st)
             else b_Arbiter (bs_mod st') = RegisterFail (b_Arbiter (bs_mod st))
               \<and> (if co_Written ou' = 0 \<and> Authorize (b_Arbiter (bs_mod st'))
                  then Some res = None \<and> loop_inv send out0 i c whole st' else Some res = Some (Throw e))"
    unfolding turn_def by blast
  have q: "q = res" using fin by (cases q) (simp_all split: if_splits)
  have "loop_result Run r send out0 c whole (b_Arbiter (bs_mod st)) [Some n] (Suc left) res st'"
    unfolding loop_result_def using t(3-7) fin
    by (cases res) (auto simp: q register_def answered_def split: if_splits)
  with t(1,2) show ?thesis by blast
qed

lemma turn_again:
  assumes "turn Run r send out0 i c whole left st None st'"
  shows "\<exists>b. it_Attempts (bs_iter st') = it_Attempts (bs_iter st) @ [b] \<and> loop_inv send out0 i c whole st'
    \<and> b_Arbiter (bs_mod st') = RegisterFail (b_Arbiter (bs_mod st))
    \<and> Authorize (b_Arbiter (bs_mod st'))
    \<and> be_Size ops (b_BackEnds (bs_mod st')) = be_Size ops (b_BackEnds (bs_mod st))"
  using assms unfolding turn_def by (fastforce split: outcome.splits if_splits)

lemma bal_loop_result:
  assumes io: "io_input r i c" and send: "send_ok send"
    and "loop_inv send out0 i c whole st" and "length (it_Attempts (bs_iter st)) + n \<le> 16"
    and "bal_loop ops Run r send h n st = Some (res, st')"
  shows "\<exists>bs. it_Attempts (bs_iter st') = it_Attempts (bs_iter st) @ bs
    \<and> iter_inv (bs_iter st') (b_BackEnds (bs_mod st'))
    \<and> loop_result Run r send out0 c whole (b_Arbiter (bs_mod st)) bs n res st'"
  using assms(3-5)
proof (induction n arbitrary: st)
  case 0
  then show ?case by (auto simp: loop_result_def loop_inv_def)
next
  case (Suc n)
  obtain q st1 where q: "bal_attempt ops Run r send h n st = Some (q, st1)"
    using Suc.prems(3) by (auto split: option.splits)
  have t: "turn Run r send out0 i c whole n st q st1"
    using bal_attempt_turn [OF io send Suc.prems(1) _ q] Suc.prems(2) by simp
  show ?case
  proof (cases q)
    case None
    obtain b where b: "it_Attempts (bs_iter st1) = it_Attempts (bs_iter st) @ [b]" "loop_inv send out0 i c whole st1"
        "b_Arbiter (bs_mod st1) = RegisterFail (b_Arbiter (bs_mod st))" "Authorize (b_Arbiter (bs_mod st1))"
      using turn_again [OF t [unfolded None]] by blast
    obtain bs where bs: "it_Attempts (bs_iter st') = it_Attempts (bs_iter st1) @ bs"
        "iter_inv (bs_iter st') (b_BackEnds (bs_mod st'))"
        "loop_result Run r send out0 c whole (b_Arbiter (bs_mod st1)) bs n res st'"
      using Suc.IH [OF b(2)] Suc.prems(2,3) b(1) q None by auto
    have "loop_result Run r send out0 c whole (b_Arbiter (bs_mod st)) (b # bs) (Suc n) res st'"
      by (rule loop_result_again) (use bs(3) b(3,4) in simp_all)
    with bs b(1) show ?thesis by (intro exI [of _ "b # bs"]) simp
  next
    case (Some x)
    with Suc.prems(3) q have "x = res" "st1 = st'" by simp_all
    with turn_last [OF t [unfolded Some]] show ?thesis by blast
  qed
qed

lemma loop_inv_start:
  assumes "inv (b_BackEnds b)" and "i inp"
  shows "loop_inv send (count_new ou) i c (c inp) (bal_start inp ou clk b)"
  using assms
  by (simp add: loop_inv_def bal_start_def iter_inv_new count_new_def rewind_new_spec sends_none)

lemma DoRun_result:
  assumes "io_input r i c" and "i inp" and "send_ok send" and "inv (b_BackEnds b)"
    and "unat (b_Attempts b) \<le> 16"
    and "DoRun ops Run r send h inp ou clk b = Some (res, st)"
  shows "iter_inv (bs_iter st) (b_BackEnds (bs_mod st))
    \<and> loop_result Run r send (count_new ou) c (c inp) (b_Arbiter b) (it_Attempts (bs_iter st)) (unat (b_Attempts b)) res st"
  using bal_loop_result [OF assms(1,3) loop_inv_start [where send = send and i = i and inp = inp and c = c and ou = ou and clk = clk, OF assms(4,2)] _
      assms(6) [unfolded DoRun_def]] assms(5)
  by (simp add: bal_start_def conn_iter_new_def)

end

context backends_progress
begin

lemma bal_attempt_returns:
  assumes "loop_inv send out0 i c whole st" and "length (it_Attempts (bs_iter st)) < 16"
  shows "\<exists>q. bal_attempt ops Run r send h left st = Some q"
proof -
  have "inv (b_BackEnds (bs_mod st))" "iter_inv (bs_iter st) (b_BackEnds (bs_mod st))"
    using assms(1) by (simp_all add: loop_inv_def)
  from ci_Next_total [OF this assms(2), of h] show ?thesis
    by (auto simp: bal_attempt_def Let_def split: prod.splits)
qed

lemma bal_loop_returns:
  assumes io: "io_input r i c" and send: "send_ok send"
    and "loop_inv send out0 i c whole st" and "length (it_Attempts (bs_iter st)) + n \<le> 16"
  shows "\<exists>q. bal_loop ops Run r send h n st = Some q"
  using assms(3,4)
proof (induction n arbitrary: st)
  case (Suc n)
  obtain q st1 where q: "bal_attempt ops Run r send h n st = Some (q, st1)"
    using bal_attempt_returns [OF Suc.prems(1), of Run r h n] Suc.prems(2) by auto
  have t: "turn Run r send out0 i c whole n st q st1"
    using bal_attempt_turn [OF io send Suc.prems(1) _ q] Suc.prems(2) by simp
  show ?case
  proof (cases q)
    case None
    from turn_again [OF t [unfolded None]] show ?thesis
      using Suc.IH [of st1] Suc.prems(2) q None by auto
  next
    case (Some x)
    with q show ?thesis by simp
  qed
qed simp

lemma DoRun_returns:
  assumes "io_input r i c" and "i inp" and "send_ok send" and "inv (b_BackEnds b)"
    and "unat (b_Attempts b) \<le> 16"
  shows "\<exists>res st. DoRun ops Run r send h inp ou clk b = Some (res, st) \<and> res \<noteq> Crash"
proof -
  obtain res st where eq: "DoRun ops Run r send h inp ou clk b = Some (res, st)"
    using bal_loop_returns [OF assms(1,3) loop_inv_start [where send = send and i = i and inp = inp and c = c and ou = ou and clk = clk, OF assms(4,2)]] assms(5)
    by (fastforce simp: DoRun_def bal_start_def conn_iter_new_def)
  with DoRun_result [OF assms eq] show ?thesis
    by (auto simp: loop_result_def)
qed

end

end
