(* ===== verification/Selection.thy ===== *)
theory Selection
  imports Backends
begin

text \<open>
  The two selection loops the algorithms share. \<open>cumulative\<close> walks the list and stops where the
  running sum of the weights passes a threshold (fair.cpp, robust.cpp, pidgroup.cpp);
  \<open>choose_loop\<close> adds to every backend its weight and remembers the largest "emergency"
  (weighted.cpp, weighted2.cpp). The locale \<open>emergency\<close> states what the second needs of a backend.
\<close>

section \<open>Selection by cumulative weight\<close>

fun cumulative :: "(real \<Rightarrow> real \<Rightarrow> bool) \<Rightarrow> ('b \<Rightarrow> real) \<Rightarrow> real \<Rightarrow> real \<Rightarrow> nat \<Rightarrow> 'b list \<Rightarrow> nat option" where
  "cumulative passes w rnd cur i [] = None"
| "cumulative passes w rnd cur i (b # bs) =
     (let cur' = cur + w b in
      if passes cur' rnd then Some i else cumulative passes w rnd cur' (i + 1) bs)"

abbreviation wsum :: "('b \<Rightarrow> real) \<Rightarrow> 'b list \<Rightarrow> real" where
  "wsum w bs \<equiv> sum_list (map w bs)"

lemma cumulative_shift:
  "cumulative passes w rnd cur i bs = map_option (\<lambda>k. k + i) (cumulative passes w rnd cur 0 bs)"
proof (induction bs arbitrary: cur i)
  case (Cons b bs)
  show ?case
    using Cons.IH [of "cur + w b" "i + 1"] Cons.IH [of "cur + w b" 1]
    by (simp add: Let_def option.map_comp o_def)
qed simp

text \<open>The loop stops at the first index whose prefix sum passes.\<close>

lemma cumulative_Some:
  "cumulative passes w rnd cur 0 bs = Some k \<longleftrightarrow>
     k < length bs \<and> passes (cur + wsum w (take (Suc k) bs)) rnd
     \<and> (\<forall>j < k. \<not> passes (cur + wsum w (take (Suc j) bs)) rnd)"
proof (induction bs arbitrary: cur k)
  case (Cons b bs)
  have eq: "cumulative passes w rnd cur 0 (b # bs) =
      (if passes (cur + w b) rnd then Some 0 else map_option Suc (cumulative passes w rnd (cur + w b) 0 bs))"
    using cumulative_shift [of passes w rnd "cur + w b" 1 bs] by (simp add: Let_def)
  show ?case
  proof (cases k)
    case 0
    then show ?thesis by (simp add: eq del: cumulative.simps)
  next
    case (Suc m)
    then show ?thesis
      using Cons.IH [of "cur + w b" m] by (cases "passes (cur + w b) rnd") (simp_all add: eq All_less_Suc2 add.assoc del: cumulative.simps)
  qed
qed simp

lemma cumulative_None:
  "cumulative passes w rnd cur i bs = None \<longleftrightarrow>
     (\<forall>j < length bs. \<not> passes (cur + wsum w (take (Suc j) bs)) rnd)"
proof (induction bs arbitrary: cur i)
  case (Cons b bs)
  show ?case
    using Cons.IH [of "cur + w b" "i + 1"] by (simp add: Let_def All_less_Suc2 add.assoc)
qed simp

lemma cumulative_reaches:
  assumes "bs \<noteq> []" and "passes (wsum w bs) rnd"
  shows "\<exists>k < length bs. cumulative passes w rnd 0 0 bs = Some k"
proof (cases "cumulative passes w rnd 0 0 bs")
  case None
  then have "\<not> passes (0 + wsum w (take (Suc (length bs - 1)) bs)) rnd"
    using assms(1) by (simp only: cumulative_None) (meson diff_less length_greater_0_conv zero_less_one)
  with assms show ?thesis by simp
next
  case (Some k)
  then show ?thesis using cumulative_Some [of passes w rnd 0 bs k] by simp
qed

text \<open>With non-negative weights the index is the one whose interval of prefix sums holds \<open>rnd\<close>.\<close>

lemma wsum_take_mono:
  assumes "\<forall>b \<in> set bs. 0 \<le> w b" and "i \<le> j"
  shows "wsum w (take i bs) \<le> wsum w (take j bs)"
proof -
  have "take j bs = take i bs @ take (j - i) (drop i bs)"
    using assms(2) by (metis le_add_diff_inverse take_add)
  moreover have "0 \<le> wsum w (take (j - i) (drop i bs))"
    using assms(1) by (intro sum_list_map_nonneg) (meson in_set_dropD in_set_takeD)
  ultimately show ?thesis by simp
qed

lemma cumulative_interval:
  assumes "\<forall>b \<in> set bs. 0 \<le> w b" and "0 \<le> rnd"
  shows "cumulative (\<lambda>c r. c > r) w rnd 0 0 bs = Some k \<longleftrightarrow>
    k < length bs \<and> wsum w (take k bs) \<le> rnd \<and> rnd < wsum w (take (Suc k) bs)"
proof -
  have "(\<forall>j < k. wsum w (take (Suc j) bs) \<le> rnd) \<longleftrightarrow> wsum w (take k bs) \<le> rnd"
  proof (cases k)
    case (Suc m)
    show ?thesis
    proof
      assume "wsum w (take k bs) \<le> rnd"
      then show "\<forall>j < k. wsum w (take (Suc j) bs) \<le> rnd"
        using wsum_take_mono [OF assms(1)] by (meson Suc_leI order_trans)
    qed (simp add: Suc)
  qed (simp add: assms(2))
  then show ?thesis by (auto simp: cumulative_Some not_less)
qed

section \<open>Rounded arithmetic\<close>

text \<open>
  An operation on \<open>double\<close> is the exact operation followed by a rounding \<open>fl\<close> with a relative error of
  at most \<open>\<epsilon>\<close> (\<open>2 ^ - 53\<close> for IEEE doubles, as long as nothing overflows or underflows). The identity is
  the rounding of exact arithmetic, with \<open>\<epsilon> = 0\<close>.
\<close>

definition rounding :: "real \<Rightarrow> (real \<Rightarrow> real) \<Rightarrow> bool" where
  "rounding \<epsilon> fl \<longleftrightarrow> 0 \<le> \<epsilon> \<and> \<epsilon> < 1 \<and> (\<forall>x. \<bar>fl x - x\<bar> \<le> \<epsilon> * \<bar>x\<bar>)"

lemma rounding_exact: "rounding 0 (\<lambda>x. x)"
  by (simp add: rounding_def)

lemma rounding_bounds:
  assumes "rounding \<epsilon> fl" and "0 \<le> x"
  shows "(1 - \<epsilon>) * x \<le> fl x" and "fl x \<le> (1 + \<epsilon>) * x" and "0 \<le> fl x" and "0 < x \<Longrightarrow> 0 < fl x"
proof -
  have e: "\<bar>fl x - x\<bar> \<le> \<epsilon> * x" "0 \<le> \<epsilon>" "\<epsilon> < 1"
    using assms by (simp_all add: rounding_def) (metis abs_of_nonneg)
  then show "(1 - \<epsilon>) * x \<le> fl x" "fl x \<le> (1 + \<epsilon>) * x" by (simp_all add: algebra_simps abs_le_iff)
  moreover have "0 \<le> (1 - \<epsilon>) * x" "0 < x \<Longrightarrow> 0 < (1 - \<epsilon>) * x" using e assms(2) by simp_all
  ultimately show "0 \<le> fl x" and "0 < x \<Longrightarrow> 0 < fl x" by linarith+
qed

text \<open>A sum of \<open>n\<close> terms that are not negative, added from the left.\<close>

definition rsum :: "(real \<Rightarrow> real) \<Rightarrow> ('b \<Rightarrow> real) \<Rightarrow> real \<Rightarrow> 'b list \<Rightarrow> real" where
  "rsum fl w acc bs = foldl (\<lambda>acc b. fl (acc + w b)) acc bs"

lemma rsum_simps [simp]: "rsum fl w acc [] = acc" "rsum fl w acc (b # bs) = rsum fl w (fl (acc + w b)) bs"
  by (simp_all add: rsum_def)

lemma rsum_exact: "rsum (\<lambda>x. x) w acc bs = acc + wsum w bs"
  by (induction bs arbitrary: acc) (simp_all add: add.assoc)

lemma rsum_bounds:
  assumes fl: "rounding \<epsilon> fl" and "0 \<le> acc" and "\<forall>b \<in> set bs. 0 \<le> w b"
  shows "(1 - \<epsilon>) ^ length bs * (acc + wsum w bs) \<le> rsum fl w acc bs
    \<and> rsum fl w acc bs \<le> (1 + \<epsilon>) ^ length bs * (acc + wsum w bs)"
  using assms(2,3)
proof (induction bs arbitrary: acc)
  case (Cons b bs)
  let ?u = "1 - \<epsilon>" and ?v = "1 + \<epsilon>" and ?x = "acc + w b" and ?S = "wsum w bs" and ?n = "length bs"
  have e: "0 \<le> ?u" "?u \<le> 1" "1 \<le> ?v" using fl by (simp_all add: rounding_def)
  have x: "0 \<le> ?x" and S: "0 \<le> ?S" using Cons.prems by (auto intro: sum_list_map_nonneg)
  note r = rounding_bounds [OF fl x]
  have IH: "?u ^ ?n * (fl ?x + ?S) \<le> rsum fl w (fl ?x) bs" "rsum fl w (fl ?x) bs \<le> ?v ^ ?n * (fl ?x + ?S)"
    using Cons.IH [OF r(3)] Cons.prems(2) by simp_all
  have "?u * (?x + ?S) \<le> fl ?x + ?S" "fl ?x + ?S \<le> ?v * (?x + ?S)"
    using r(1,2) mult_right_mono [OF e(2) S] mult_right_mono [OF e(3) S] unfolding distrib_left by simp_all
  then have "?u ^ ?n * (?u * (?x + ?S)) \<le> ?u ^ ?n * (fl ?x + ?S)" "?v ^ ?n * (fl ?x + ?S) \<le> ?v ^ ?n * (?v * (?x + ?S))"
    using e by (simp_all add: mult_left_mono)
  with IH show ?case by (simp add: algebra_simps)
qed simp

lemma rsum_pos:
  assumes fl: "rounding \<epsilon> fl" and "bs \<noteq> []" and "\<forall>b \<in> set bs. 0 < w b"
  shows "0 < rsum fl w 0 bs"
proof -
  have "0 < wsum w bs" using assms(2,3) by (intro sum_list_map_pos) auto
  moreover have "0 < (1 - \<epsilon>) ^ length bs" using fl by (simp add: rounding_def)
  ultimately have "0 < (1 - \<epsilon>) ^ length bs * (0 + wsum w bs)" by simp
  then show ?thesis using rsum_bounds [OF fl order_refl, of bs w] assms(3) by (force intro: less_imp_le)
qed

text \<open>Errors of several operations together.\<close>

lemma rounding_power:
  assumes "rounding \<epsilon> fl"
  shows "1 - real n * \<epsilon> \<le> (1 - \<epsilon>) ^ n" and "(1 - \<epsilon>) ^ n * (1 + \<epsilon>) ^ n \<le> 1"
proof -
  have e: "0 \<le> \<epsilon>" "\<epsilon> < 1" using assms by (simp_all add: rounding_def)
  then show "1 - real n * \<epsilon> \<le> (1 - \<epsilon>) ^ n" using Bernoulli_inequality [of "- \<epsilon>" n] by simp
  have "(1 - \<epsilon>) * (1 + \<epsilon>) \<le> 1" "0 \<le> (1 - \<epsilon>) * (1 + \<epsilon>)" 
    using e mult_mono [of \<epsilon> 1 \<epsilon> 1] by (simp_all add: algebra_simps)
  then show "(1 - \<epsilon>) ^ n * (1 + \<epsilon>) ^ n \<le> 1" unfolding power_mult_distrib [symmetric] by (rule power_le_one [rotated])
qed

lemma rsum_ratio:
  assumes fl: "rounding \<epsilon> fl" and "bs \<noteq> []" and pos: "\<forall>b \<in> set bs. 0 < w b"
  shows "(1 - \<epsilon>) ^ length bs \<le> wsum w bs / rsum fl w 0 bs" and "(1 - \<epsilon>) ^ length bs * (wsum w bs / rsum fl w 0 bs) \<le> 1"
proof -
  let ?u = "1 - \<epsilon>" and ?v = "1 + \<epsilon>" and ?T = "rsum fl w 0 bs" and ?X = "wsum w bs" and ?n = "length bs"
  have e: "0 \<le> ?u" using fl by (simp add: rounding_def)
  have T: "0 < ?T" by (rule rsum_pos [OF fl assms(2) pos])
  have X: "0 \<le> ?X" using pos by (intro sum_list_map_nonneg) (auto intro: less_imp_le)
  have b: "?u ^ ?n * ?X \<le> ?T" "?T \<le> ?v ^ ?n * ?X"
    using rsum_bounds [OF fl order_refl, of bs w] pos by (auto simp: less_imp_le)
  have "?u ^ ?n * ?T \<le> ?u ^ ?n * (?v ^ ?n * ?X)" using b(2) e by (intro mult_left_mono) simp_all
  also have "\<dots> \<le> ?X" using mult_right_mono [OF rounding_power(2) [OF fl, of ?n] X] by (simp add: mult.assoc)
  finally show "?u ^ ?n \<le> ?X / ?T" using T by (simp add: pos_le_divide_eq)
  show "?u ^ ?n * (?X / ?T) \<le> 1" using b(1) T by (simp add: pos_divide_le_eq)
qed

text \<open>The loop of \<open>cumulative\<close> on rounded sums.\<close>

fun draw :: "(real \<Rightarrow> real) \<Rightarrow> (real \<Rightarrow> real \<Rightarrow> bool) \<Rightarrow> ('b \<Rightarrow> real) \<Rightarrow> real \<Rightarrow> real \<Rightarrow> nat \<Rightarrow> 'b list \<Rightarrow> nat option" where
  "draw fl passes w rnd cur i [] = None"
| "draw fl passes w rnd cur i (b # bs) =
     (let cur' = fl (cur + w b) in
      if passes cur' rnd then Some i else draw fl passes w rnd cur' (i + 1) bs)"

lemma draw_exact: "draw (\<lambda>x. x) passes w rnd cur i bs = cumulative passes w rnd cur i bs"
  by (induction bs arbitrary: cur i) (simp_all add: Let_def)

lemma draw_reaches:
  assumes "bs \<noteq> []" and "passes (rsum fl w cur bs) rnd"
  shows "\<exists>k. draw fl passes w rnd cur i bs = Some k \<and> i \<le> k \<and> k < i + length bs"
  using assms
proof (induction bs arbitrary: cur i)
  case (Cons b bs)
  show ?case
  proof (cases "passes (fl (cur + w b)) rnd")
    case False
    with Cons.prems have "bs \<noteq> []" by auto
    with Cons.IH [of "fl (cur + w b)" "i + 1"] Cons.prems(2) False show ?thesis by (auto simp: Let_def)
  qed (simp add: Let_def)
qed simp

lemma draw_misses:
  assumes fl: "rounding \<epsilon> fl" and "0 \<le> cur" and "\<forall>b \<in> set bs. 0 \<le> w b"
    and "(1 + \<epsilon>) ^ length bs * (cur + wsum w bs) < rnd"
  shows "draw fl (\<lambda>c r. c \<ge> r) w rnd cur i bs = None"
  using assms(2-4)
proof (induction bs arbitrary: cur i)
  case (Cons b bs)
  let ?v = "1 + \<epsilon>" and ?x = "cur + w b" and ?S = "wsum w bs" and ?n = "length bs"
  have e: "1 \<le> ?v" using fl by (simp add: rounding_def)
  have x: "0 \<le> ?x" and S: "0 \<le> ?S" using Cons.prems by (auto intro: sum_list_map_nonneg)
  note r = rounding_bounds [OF fl x]
  have "fl ?x + ?S \<le> ?v * (?x + ?S)" using r(2) mult_right_mono [OF e S] unfolding distrib_left by simp
  then have "?v ^ ?n * (fl ?x + ?S) \<le> ?v ^ ?n * (?v * (?x + ?S))" using e by (simp add: mult_left_mono)
  then have low: "?v ^ ?n * (fl ?x + ?S) < rnd" using Cons.prems(3) by (simp add: algebra_simps)
  have "fl ?x \<le> ?v ^ ?n * (fl ?x + ?S)"
    using mult_mono [OF one_le_power [OF e, of ?n], of "fl ?x" "fl ?x + ?S"] S r(3) e by simp
  with low Cons.IH [OF r(3) _ low] Cons.prems(2) show ?case by (simp add: Let_def)
qed simp

section \<open>Random numbers and weights\<close>

text \<open>\<open>RandomNumber<double>()\<close> is documented to return a number in \<open>[0, 1)\<close>.\<close>

definition unit_random :: "real stream \<Rightarrow> bool" where
  "unit_random rnd \<longleftrightarrow> (\<forall>x \<in> sset rnd. 0 \<le> x \<and> x < 1)"

lemma unit_random_hd: "unit_random rnd \<Longrightarrow> 0 \<le> shd rnd \<and> shd rnd < 1"
  by (cases rnd) (auto simp: unit_random_def)

lemma unit_random_stl: "unit_random rnd \<Longrightarrow> unit_random (stl rnd)"
  by (cases rnd) (auto simp: unit_random_def)

lemma med_Get_nonneg: "0 \<le> med_Get N n t"
  by (simp add: med_Get_def percentile_def Let_def)

lemma set_update_all:
  assumes "\<forall>b \<in> set bs. P b" and "P x"
  shows "\<forall>b \<in> set (bs[i := x]). P b"
  using assms set_update_subset_insert [of bs i x] by auto

section \<open>Selection by emergency\<close>

text \<open>
  One pass over the list: every backend's emergency grows by its weight, and the position of the
  first backend whose emergency exceeds the running maximum is remembered.
\<close>

fun choose_loop ::
  "('b \<Rightarrow> real) \<Rightarrow> ('b \<Rightarrow> real) \<Rightarrow> (real \<Rightarrow> 'b \<Rightarrow> 'b) \<Rightarrow> real \<Rightarrow> nat \<Rightarrow> nat \<Rightarrow> 'b list \<Rightarrow> 'b list \<times> nat" where
  "choose_loop getW getE addE mx ret i [] = ([], ret)"
| "choose_loop getW getE addE mx ret i (b # bs) =
     (let b' = addE (getW b) b; cur = getE b' in
      case (if cur > mx then choose_loop getW getE addE cur i (i + 1) bs
            else choose_loop getW getE addE mx ret (i + 1) bs) of
        (bs', k) \<Rightarrow> (b' # bs', k))"

locale emergency =
  fixes getW :: "'b \<Rightarrow> real" and getE :: "'b \<Rightarrow> real" and addE :: "real \<Rightarrow> 'b \<Rightarrow> 'b"
  assumes getE_addE [simp]: "getE (addE x b) = getE b + x"
    and getW_addE [simp]: "getW (addE x b) = getW b"
begin

abbreviation grown :: "'b list \<Rightarrow> 'b list" where
  "grown bs \<equiv> map (\<lambda>b. addE (getW b) b) bs"

lemma choose_loop_fst: "fst (choose_loop getW getE addE mx ret i bs) = grown bs"
  by (induction bs arbitrary: mx ret i) (simp_all add: Let_def case_prod_beta)

text \<open>The index chosen: the old one if nothing beats \<open>mx\<close>, else that of the largest emergency.\<close>

lemma choose_loop_snd:
  assumes "snd (choose_loop getW getE addE mx ret i bs) = k"
  shows "(k = ret \<and> (\<forall>b \<in> set (grown bs). getE b \<le> mx))
    \<or> (i \<le> k \<and> k < i + length bs \<and> getE (grown bs ! (k - i)) > mx
       \<and> (\<forall>b \<in> set (grown bs). getE b \<le> getE (grown bs ! (k - i))))"
  using assms
proof (induction bs arbitrary: mx ret i)
  case (Cons b bs)
  let ?cur = "getE b + getW b"
  show ?case
  proof (cases "?cur > mx")
    case True
    with Cons.prems have "snd (choose_loop getW getE addE ?cur i (i + 1) bs) = k"
      by (simp add: Let_def split: prod.splits)
    from Cons.IH [OF this] True show ?thesis
      by (auto simp: nth_Cons' intro: less_imp_le)
  next
    case False
    with Cons.prems have "snd (choose_loop getW getE addE mx ret (i + 1) bs) = k"
      by (simp add: Let_def split: prod.splits)
    from Cons.IH [OF this] False show ?thesis
      by (auto simp: nth_Cons')
  qed
qed simp

lemma choose_max:
  assumes "bs \<noteq> []" and "0 < getW (hd bs)"
    and "choose_loop getW getE addE (getE (hd bs)) 0 0 bs = (bs', k)"
  shows "bs' = grown bs" and "k < length bs" and "\<forall>b \<in> set (grown bs). getE b \<le> getE (grown bs ! k)"
proof -
  show "bs' = grown bs" using choose_loop_fst [of "getE (hd bs)" 0 0 bs] assms(3) by simp
  have k: "snd (choose_loop getW getE addE (getE (hd bs)) 0 0 bs) = k" using assms(3) by simp
  have "addE (getW (hd bs)) (hd bs) \<in> set (grown bs)" using assms(1) by (cases bs) auto
  then have "\<not> (\<forall>b \<in> set (grown bs). getE b \<le> getE (hd bs))" using assms(2) by fastforce
  then show "k < length bs" and "\<forall>b \<in> set (grown bs). getE b \<le> getE (grown bs ! k)"
    using choose_loop_snd [OF k] by auto
qed

lemma grown_sum: "wsum getE (grown bs) = wsum getE bs + wsum getW bs"
  by (induction bs) auto

lemma grown_getW: "map getW (grown bs) = map getW bs"
  by simp

lemma wsum_addE_at:
  assumes "k < length bs"
  shows "wsum getE (bs[k := addE x (bs ! k)]) = wsum getE bs + x"
    and "map getW (bs[k := addE x (bs ! k)]) = map getW bs"
  using assms sum_list_update_add [of k "map getE bs" x]
  by (simp_all add: map_update list_update_same_conv)

lemma choose_length:
  assumes "choose_loop getW getE addE mx ret i bs = (bs', k)"
  shows "length bs' = length bs" and "map getW bs' = map getW bs"
  using choose_loop_fst [of mx ret i bs] assms by simp_all

end

section \<open>Smooth weighted round robin\<close>

text \<open>
  One round on the vectors of emergencies \<open>E\<close> and weights \<open>W\<close>: everybody gains its weight, a
  largest one is chosen and pays the sum of the weights.
\<close>

definition wrr_round :: "real list \<Rightarrow> real list \<Rightarrow> nat \<Rightarrow> real list \<Rightarrow> bool" where
  "wrr_round W E k E' \<longleftrightarrow> length E = length W \<and> k < length W
     \<and> (\<forall>i < length W. E ! i + W ! i \<le> E ! k + W ! k)
     \<and> length E' = length W
     \<and> (\<forall>i < length W. E' ! i = E ! i + W ! i - (if i = k then sum_list W else 0))"

lemma wrr_round_sum:
  assumes "wrr_round W E k E'"
  shows "sum_list E' = sum_list E"
proof -
  have len: "length E = length W" "length E' = length W" "k < length W"
    and nth: "\<And>i. i < length W \<Longrightarrow> E' ! i = E ! i + W ! i - (if i = k then sum_list W else 0)"
    using assms by (auto simp: wrr_round_def)
  have "sum_list E' = (\<Sum>i<length W. E' ! i)"
    by (simp add: sum_list_sum_nth atLeast0LessThan len)
  also have "\<dots> = (\<Sum>i<length W. E ! i + W ! i - (if i = k then sum_list W else 0))"
    by (rule sum.cong) (simp_all add: nth)
  also have "\<dots> = (\<Sum>i<length W. E ! i) + (\<Sum>i<length W. W ! i) - sum_list W"
    using len(3) by (simp add: sum.distrib sum_subtractf sum.delta)
  also have "\<dots> = sum_list E" by (simp add: sum_list_sum_nth atLeast0LessThan len)
  finally show ?thesis .
qed

text \<open>A lower bound that survives every round: below it nobody is chosen.\<close>

definition wrr_low :: "real list \<Rightarrow> real list \<Rightarrow> real \<Rightarrow> bool" where
  "wrr_low W E B \<longleftrightarrow> (\<forall>i < length W. B \<le> E ! i)
     \<and> B * real (length W) \<le> sum_list E + sum_list W - sum_list W * real (length W)"

lemma sum_le_max:
  fixes f :: "nat \<Rightarrow> real"
  assumes "\<And>i. i < n \<Longrightarrow> f i \<le> m"
  shows "(\<Sum>i<n. f i) \<le> real n * m"
  using sum_bounded_above [of "{..<n}" f m] assms by simp

lemma wrr_low_round:
  assumes r: "wrr_round W E k E'" and low: "wrr_low W E B" and W: "\<forall>w \<in> set W. 0 < w"
  shows "wrr_low W E' B"
proof -
  let ?n = "length W" and ?S = "sum_list W"
  have len: "length E = ?n" "k < ?n" and max: "\<And>i. i < ?n \<Longrightarrow> E ! i + W ! i \<le> E ! k + W ! k"
    and nth: "\<And>i. i < ?n \<Longrightarrow> E' ! i = E ! i + W ! i - (if i = k then ?S else 0)"
    using r by (auto simp: wrr_round_def)
  have "sum_list E + ?S = (\<Sum>i<?n. E ! i + W ! i)"
    by (simp add: sum_list_sum_nth atLeast0LessThan len sum.distrib)
  also have "\<dots> \<le> real ?n * (E ! k + W ! k)" by (rule sum_le_max) (rule max)
  finally have "B * real ?n \<le> real ?n * (E ! k + W ! k - ?S)"
    using low by (simp add: wrr_low_def algebra_simps)
  moreover have n: "0 < real ?n" using len(2) by linarith
  ultimately have k: "B \<le> E ! k + W ! k - ?S" by (simp add: mult.commute [of _ "real ?n"])
  have "B \<le> E' ! i" if "i < ?n" for i
  proof (cases "i = k")
    case True
    then show ?thesis using k nth [OF that] by simp
  next
    case False
    have "0 < W ! i" using W that by simp
    moreover have "B \<le> E ! i" using low that by (simp add: wrr_low_def)
    ultimately show ?thesis using nth [OF that] False by simp
  qed
  then show ?thesis using low wrr_round_sum [OF r] by (simp add: wrr_low_def)
qed

lemma wrr_low_bounds:
  assumes "wrr_low W E B" and "length E = length W" and "j < length W"
  shows "E ! j \<le> sum_list E - (real (length W) - 1) * B"
proof -
  let ?n = "length W"
  have "(\<Sum>i<?n. E ! i) = E ! j + (\<Sum>i \<in> {..<?n} - {j}. E ! i)"
    using assms(3) by (simp add: sum.remove)
  moreover have "(\<Sum>i \<in> {..<?n} - {j}. B) \<le> (\<Sum>i \<in> {..<?n} - {j}. E ! i)"
    using assms(1) by (intro sum_mono) (auto simp: wrr_low_def)
  moreover have "(\<Sum>i \<in> {..<?n} - {j}. B) = (real ?n - 1) * B"
    using assms(3) by (simp add: of_nat_diff)
  moreover have "sum_list E = (\<Sum>i<?n. E ! i)" by (simp add: sum_list_sum_nth atLeast0LessThan assms(2))
  ultimately show ?thesis by linarith
qed

lemma wrr_low_exists:
  assumes "length E = length W" and "W \<noteq> []"
  shows "\<exists>B. wrr_low W E B"
proof -
  let ?n = "length W"
  define B where "B = min (Min (set E)) ((sum_list E + sum_list W - sum_list W * real ?n) / real ?n)"
  have "B \<le> E ! i" if "i < ?n" for i
  proof -
    have "Min (set E) \<le> E ! i" using that assms(1) by (intro Min_le) simp_all
    then show ?thesis by (simp add: B_def min.coboundedI1)
  qed
  moreover have "B * real ?n \<le> sum_list E + sum_list W - sum_list W * real ?n"
  proof -
    have "B \<le> (sum_list E + sum_list W - sum_list W * real ?n) / real ?n" by (simp add: B_def)
    then show ?thesis using assms(2) by (simp add: pos_le_divide_eq)
  qed
  ultimately show ?thesis by (auto simp: wrr_low_def)
qed

text \<open>A sequence of rounds that never chooses \<open>j\<close> is bounded.\<close>

lemma wrr_serves:
  assumes W: "\<forall>w \<in> set W. 0 < w" and j: "j < length W"
    and rounds: "\<And>n. wrr_round W (E n) (k n) (E (Suc n))"
  shows "\<exists>n. k n = j"
proof (rule ccontr)
  assume never: "\<not> (\<exists>n. k n = j)"
  have len: "length (E n) = length W" for n using rounds [of n] by (simp add: wrr_round_def)
  have "W \<noteq> []" using j by auto
  then obtain B where B0: "wrr_low W (E 0) B" using wrr_low_exists [OF len] by blast
  have low: "wrr_low W (E n) B" for n
  proof (induction n)
    case (Suc n)
    then show ?case by (rule wrr_low_round [OF rounds _ W])
  qed (rule B0)
  have total: "sum_list (E n) = sum_list (E 0)" for n
  proof (induction n)
    case (Suc n)
    then show ?case using wrr_round_sum [OF rounds [of n]] by (simp only:)
  qed (rule refl)
  have grow: "E n ! j = E 0 ! j + real n * W ! j" for n
  proof (induction n)
    case (Suc n)
    have "E (Suc n) ! j = E n ! j + W ! j - (if j = k n then sum_list W else 0)"
      using rounds [of n] j unfolding wrr_round_def by blast
    then have "E (Suc n) ! j = E n ! j + W ! j" using never by (metis diff_zero)
    moreover have "real (Suc n) * W ! j = real n * W ! j + W ! j" by (simp add: distrib_right)
    ultimately show ?case using Suc by linarith
  qed simp
  have wj: "0 < W ! j" using W j by simp
  obtain n :: nat where "(sum_list (E 0) - (real (length W) - 1) * B - E 0 ! j) / W ! j < real n"
    using reals_Archimedean2 by blast
  then have "sum_list (E 0) - (real (length W) - 1) * B - E 0 ! j < real n * W ! j"
    by (simp only: pos_divide_less_eq [OF wj])
  moreover have "E 0 ! j + real n * W ! j \<le> sum_list (E 0) - (real (length W) - 1) * B"
    using wrr_low_bounds [OF low len j, of n] by (simp only: total [of n] grow [of n])
  ultimately show False by linarith
qed

end
