(* ===== verification/Hashing.thy ===== *)
theory Hashing
  imports Selection
begin

text \<open>
  The algorithm "hashing" (also "subnet"; web/httpd/modules/balancer/hashing.cpp): the first
  attempt goes to the backend the hash of the request names, later ones to random backends.
\<close>

record 'm hash_backend =
  hb_BackEnd :: "'m descriptor"
  hb_Fail :: ui64
  hb_Succ :: ui64

text \<open>The numbers \<open>RandomNumber<TRequestHash>()\<close> will return are part of the state.\<close>

record 'm hashing =
  hs_BackEnds :: "'m hash_backend list"
  hs_random :: "ui64 stream"

definition hashing_backend_new :: "'m descriptor \<Rightarrow> 'm hash_backend" where
  "hashing_backend_new descr = \<lparr>hb_BackEnd = descr, hb_Fail = 0, hb_Succ = 0\<rparr>"

definition hashing_Add :: "'m descriptor \<Rightarrow> 'm hashing \<Rightarrow> 'm hashing" where
  "hashing_Add descr s = s\<lparr>hs_BackEnds := hs_BackEnds s @ [hashing_backend_new descr]\<rparr>"

definition CreateHashing ::
  "(string \<Rightarrow> real outcome) \<Rightarrow> 'm factory \<Rightarrow> ui64 stream \<Rightarrow> cfg \<Rightarrow> 'm hashing outcome" where
  "CreateHashing fromString loader rnd c =
     ForEach (Add_backend fromString loader hashing_Add) c \<lparr>hs_BackEnds = [], hs_random = rnd\<rparr>"

text \<open>An empty vector makes \<open>hash % BackEnds.size()\<close> a division by zero.\<close>

definition hashing_DoNext :: "ui64 \<Rightarrow> ui64 \<Rightarrow> 'm hashing \<Rightarrow> nat option outcome \<times> 'm hashing" where
  "hashing_DoNext conn_hash attempt s =
     (let (hash, s1) = (if attempt \<noteq> 0 then (shd (hs_random s), s\<lparr>hs_random := stl (hs_random s)\<rparr>)
                        else (conn_hash, s))
      in if hs_BackEnds s1 = [] then (Crash, s1)
         else (Ret (Some (unat hash mod length (hs_BackEnds s1))), s1))"

definition hashing_Size :: "'m hashing \<Rightarrow> nat" where
  "hashing_Size s = length (hs_BackEnds s)"

definition hashing_Module :: "nat \<Rightarrow> 'm hashing \<Rightarrow> 'm" where
  "hashing_Module i s = the (d_Module (hb_BackEnd (hs_BackEnds s ! i)))"

definition hashing_OnComplete :: "ui64 \<Rightarrow> nat \<Rightarrow> 'm hashing \<Rightarrow> 'm hashing" where
  "hashing_OnComplete answerTime i s =
     s\<lparr>hs_BackEnds := (hs_BackEnds s)[i := (hs_BackEnds s ! i)\<lparr>hb_Succ := hb_Succ (hs_BackEnds s ! i) + 1\<rparr>]\<rparr>"

definition hashing_OnFail :: "ui64 \<Rightarrow> nat \<Rightarrow> 'm hashing \<Rightarrow> 'm hashing" where
  "hashing_OnFail answerTime i s =
     s\<lparr>hs_BackEnds := (hs_BackEnds s)[i := (hs_BackEnds s ! i)\<lparr>hb_Fail := hb_Fail (hs_BackEnds s ! i) + 1\<rparr>]\<rparr>"

definition hashing_ops :: "('m hashing, 'm) ibackends" where
  "hashing_ops = \<lparr>be_DoNext = hashing_DoNext, be_Size = hashing_Size, be_Module = hashing_Module,
     be_OnComplete = hashing_OnComplete, be_OnFail = hashing_OnFail\<rparr>"

section \<open>Contract\<close>

definition hashing_inv :: "'m hashing \<Rightarrow> bool" where
  "hashing_inv s \<longleftrightarrow> hs_BackEnds s \<noteq> []"

lemmas hashing_defs = hashing_ops_def hashing_DoNext_def hashing_Size_def hashing_OnComplete_def
  hashing_OnFail_def hashing_inv_def Let_def

interpretation hash: backends "hashing_ops :: ('m hashing, 'm) ibackends" hashing_inv
  by unfold_locales (auto simp: hashing_defs)

text \<open>A random stream that keeps visiting every remainder gives the search what it needs.\<close>

definition covers :: "nat \<Rightarrow> ui64 stream \<Rightarrow> bool" where
  "covers n rnd \<longleftrightarrow> (\<forall>m. \<forall>j < n. \<exists>k. unat (snth rnd (m + k)) mod n = j)"

lemma covers_stl: "covers n rnd \<Longrightarrow> covers n (stl rnd)"
  unfolding covers_def by (metis add_Suc snth.simps(2))

definition hashing_random_inv :: "'m hashing \<Rightarrow> bool" where
  "hashing_random_inv s \<longleftrightarrow> hashing_inv s \<and> covers (hashing_Size s) (hs_random s)"

lemma hashing_picks:
  assumes "hashing_inv s" and "unat (snth (hs_random s) k) mod hashing_Size s = j"
  shows "\<exists>n. be_pick hashing_ops h a n s = Ret (Some j)"
  using assms
proof (induction k arbitrary: a s)
  case (0 a s)
  have nz: "\<exists>n. be_pick hashing_ops h a n s = Ret (Some j)" if "a \<noteq> 0" for a
    by (rule exI [of _ 0]) (use that 0 in \<open>simp add: be_pick_def hashing_defs\<close>)
  show ?case
  proof (cases "a = 0")
    case True
    have "snd (be_DoNext hashing_ops h 0 s) = s"
      using 0 by (simp add: hashing_defs)
    with True nz [of 1] show ?thesis by (metis add_0 be_pick_Suc zero_neq_one)
  qed (rule nz)
next
  case (Suc k a s)
  let ?t = "s\<lparr>hs_random := stl (hs_random s)\<rparr>"
  have t: "\<exists>n. be_pick hashing_ops h b n ?t = Ret (Some j)" for b
    using Suc.prems by (intro Suc.IH) (simp_all add: hashing_defs)
  have nz: "\<exists>n. be_pick hashing_ops h a n s = Ret (Some j)" if "a \<noteq> 0" for a
  proof -
    have "snd (be_DoNext hashing_ops h a s) = ?t"
      using that Suc.prems by (simp add: hashing_defs)
    with t [of "a + 1"] show ?thesis by (metis be_pick_Suc)
  qed
  show ?case
  proof (cases "a = 0")
    case True
    have "snd (be_DoNext hashing_ops h 0 s) = s"
      using Suc.prems by (simp add: hashing_defs)
    with True nz [of 1] show ?thesis by (metis add_0 be_pick_Suc zero_neq_one)
  qed (rule nz)
qed

interpretation hashr: backends_progress "hashing_ops :: ('m hashing, 'm) ibackends" hashing_random_inv
proof
  fix s :: "'m hashing" and h a i t j
  assume s: "hashing_random_inv s"
  show "\<exists>i s'. be_DoNext hashing_ops h a s = (Ret (Some i), s') \<and> i < be_Size hashing_ops s
      \<and> hashing_random_inv s' \<and> be_Size hashing_ops s' = be_Size hashing_ops s"
    using s by (auto simp: hashing_random_inv_def hashing_defs covers_stl)
  show "i < be_Size hashing_ops s \<Longrightarrow> hashing_random_inv (be_OnComplete hashing_ops t i s)
      \<and> be_Size hashing_ops (be_OnComplete hashing_ops t i s) = be_Size hashing_ops s"
    "i < be_Size hashing_ops s \<Longrightarrow> hashing_random_inv (be_OnFail hashing_ops t i s)
      \<and> be_Size hashing_ops (be_OnFail hashing_ops t i s) = be_Size hashing_ops s"
    using s by (simp_all add: hashing_random_inv_def hashing_defs)
  assume "j < be_Size hashing_ops s"
  then obtain k where "unat (snth (hs_random s) (0 + k)) mod hashing_Size s = j"
    using s unfolding hashing_random_inv_def covers_def by (metis hashing_ops_def ibackends.select_convs(2))
  then show "\<exists>n. be_pick hashing_ops h a n s = Ret (Some j)"
    using hashing_picks [of s k j h a] s by (simp add: hashing_random_inv_def)
qed

section \<open>Histories\<close>

text \<open>A history of requests and reports leaves the list of backends as long as it was.\<close>

lemma hashing_history:
  assumes "be_run hashing_ops evs s = (ps, s')" and "\<forall>e \<in> set evs. ev_ok (hashing_Size s) e"
  shows "hashing_Size s' = hashing_Size s"
proof -
  have "hashing_Size (snd (fold (be_event_step hashing_ops) evs ([], s))) = hashing_Size s"
  proof (rule fold_invariant [where P = "\<lambda>x. hashing_Size (snd x) = hashing_Size s"])
    fix e and x :: "nat option outcome list \<times> 'a hashing"
    assume "hashing_Size (snd x) = hashing_Size s"
    then show "hashing_Size (snd (be_event_step hashing_ops e x)) = hashing_Size s"
      by (cases e; cases x) (auto simp: hashing_defs split: prod.splits)
  qed (use assms(2) in auto)
  then show ?thesis using assms(1) by (simp add: be_run_def)
qed

lemma CreateHashing_Size:
  assumes "CreateHashing fromString loader rnd c = Ret s"
  shows "hashing_Size s = length c"
  using ForEach_Add_backend_size [where sz = hashing_Size, OF assms [unfolded CreateHashing_def]]
  by (simp add: hashing_Size_def hashing_Add_def)

text \<open>The hashes that start at a backend.\<close>

definition hash_share :: "nat \<Rightarrow> nat \<Rightarrow> nat" where
  "hash_share n j = card {h :: ui64. unat h mod n = j}"

lemma card_residues:
  assumes "j < n"
  shows "card {k. k < M \<and> k mod n = j} = (M + n - 1 - j) div n"
proof -
  have "q * n + j < M \<longleftrightarrow> q < (M + n - 1 - j) div n" for q
    using assms by (simp add: Suc_le_eq [symmetric] less_eq_div_iff_mult_less_eq) (auto simp: algebra_simps)
  moreover have "k mod n = j \<longleftrightarrow> (\<exists>q. k = q * n + j)" for k
    using assms by (metis div_mult_mod_eq mod_less mod_mult_self3)
  ultimately have "{k. k < M \<and> k mod n = j} = (\<lambda>q. q * n + j) ` {..<(M + n - 1 - j) div n}" by auto
  moreover have "inj_on (\<lambda>q. q * n + j) {..<(M + n - 1 - j) div n}" using assms by (auto simp: inj_on_def)
  ultimately show ?thesis by (simp add: card_image)
qed

lemma hash_share_even:
  assumes "j < n" and "n \<le> 2 ^ 64"
  shows "hash_share n j \<in> {2 ^ 64 div n, 2 ^ 64 div n + 1}"
proof -
  have "card {h :: ui64. unat h mod n = j} = card {k. k < 2 ^ 64 \<and> k mod n = j}"
  proof (rule bij_betw_same_card [where f = unat], rule bij_betw_byWitness [where f' = of_nat])
    show "unat ` {h :: ui64. unat h mod n = j} \<subseteq> {k. k < 2 ^ 64 \<and> k mod n = j}"
      using unsigned_less [where 'a = nat and 'b = 64] by auto
  qed (auto simp: unat_of_nat take_bit_nat_eq_self)
  then have share: "hash_share n j = (2 ^ 64 + n - 1 - j) div n"
    unfolding hash_share_def card_residues [OF assms(1)] .
  have "2 ^ 64 div n \<le> (2 ^ 64 + n - 1 - j) div n" using assms(1) by (intro div_le_mono) linarith
  moreover have "(2 ^ 64 + n - 1 - j) div n \<le> (2 ^ 64 + n) div n" by (intro div_le_mono) linarith
  moreover have "(2 ^ 64 + n) div n = 2 ^ 64 div n + 1" using assms(1) by (metis div_add_self2 not_less_zero)
  ultimately have "2 ^ 64 div n \<le> hash_share n j" "hash_share n j \<le> 2 ^ 64 div n + 1" unfolding share by linarith+
  then show ?thesis by (auto simp del: power_numeral)
qed

end
