(* ===== verification/Fair.thy ===== *)
theory Fair
  imports Selection
begin

text \<open>
  The algorithm "fair" (web/httpd/modules/balancer/fair.cpp): a backend is drawn with a
  probability proportional to a weight that falls with its answer time and its failures.
\<close>

record 'm fair_backend =
  fb_BackEnd :: "'m descriptor"
  fb_AnswerTime :: med
  fb_Failures :: mvt
  fb_Weight :: real
  fb_Succ :: ui64
  fb_Fail :: ui64

record 'm fair =
  fa_List :: "'m fair_backend list"
  fa_random :: "real stream"

definition fair_CalcWeight :: "'m fair_backend \<Rightarrow> real" where
  "fair_CalcWeight b =
     1000000 / (1 + d_Weight (fb_BackEnd b) * med_Get 100 90 (fb_AnswerTime b) * (1 + mvt_M (fb_Failures b)))"

definition fair_ReCalcWeight :: "'m fair_backend \<Rightarrow> 'm fair_backend" where
  "fair_ReCalcWeight b = b\<lparr>fb_Weight := fair_CalcWeight b\<rparr>"

text \<open>The array of the median tracker is uninitialised: \<open>V0\<close> is its content.\<close>

definition fair_backend_new :: "real list \<Rightarrow> 'm descriptor \<Rightarrow> 'm fair_backend" where
  "fair_backend_new V0 descr =
     fair_ReCalcWeight \<lparr>fb_BackEnd = descr, fb_AnswerTime = med_new V0, fb_Failures = mvt_new 1 (85 / 100),
       fb_Weight = 0, fb_Succ = 0, fb_Fail = 0\<rparr>"

definition fair_Add :: "real list \<Rightarrow> 'm descriptor \<Rightarrow> 'm fair \<Rightarrow> 'm fair" where
  "fair_Add V0 descr s = s\<lparr>fa_List := fa_List s @ [fair_backend_new V0 descr]\<rparr>"

definition CreateFair ::
  "(string \<Rightarrow> real outcome) \<Rightarrow> 'm factory \<Rightarrow> real list \<Rightarrow> real stream \<Rightarrow> cfg \<Rightarrow> 'm fair outcome" where
  "CreateFair fromString loader V0 rnd c =
     ForEach (Add_backend fromString loader (fair_Add V0)) c \<lparr>fa_List = [], fa_random = rnd\<rparr>"

text \<open>
  The draw, in exact arithmetic and with a random number below 1, as it is documented; the generator
  rounds its topmost values to 1.
\<close>

definition fair_DoNext :: "ui64 \<Rightarrow> ui64 \<Rightarrow> 'm fair \<Rightarrow> nat option outcome \<times> 'm fair" where
  "fair_DoNext h a s =
     (let total = foldl (\<lambda>acc b. acc + fb_Weight b) 0 (fa_List s);
          rnd = shd (fa_random s) * total;
          s1 = s\<lparr>fa_random := stl (fa_random s)\<rparr>
      in case cumulative (\<lambda>cur r. cur > r) fb_Weight rnd 0 0 (fa_List s) of
           Some i \<Rightarrow> (Ret (Some i), s1)
         | None \<Rightarrow> (Crash, s1))"

definition fair_Size :: "'m fair \<Rightarrow> nat" where
  "fair_Size s = length (fa_List s)"

definition fair_Module :: "nat \<Rightarrow> 'm fair \<Rightarrow> 'm" where
  "fair_Module i s = the (d_Module (fb_BackEnd (fa_List s ! i)))"

definition fair_complete :: "ui64 \<Rightarrow> 'm fair_backend \<Rightarrow> 'm fair_backend" where
  "fair_complete answerTime b =
     fair_ReCalcWeight (b\<lparr>fb_Succ := fb_Succ b + 1,
       fb_AnswerTime := med_Add 100 (real (unat answerTime)) (fb_AnswerTime b),
       fb_Failures := mvt_Add (fb_Failures b) 0\<rparr>)"

definition fair_failed :: "'m fair_backend \<Rightarrow> 'm fair_backend" where
  "fair_failed b =
     fair_ReCalcWeight (b\<lparr>fb_Fail := fb_Fail b + 1, fb_Failures := mvt_Add (fb_Failures b) 10\<rparr>)"

definition fair_OnComplete :: "ui64 \<Rightarrow> nat \<Rightarrow> 'm fair \<Rightarrow> 'm fair" where
  "fair_OnComplete answerTime i s = s\<lparr>fa_List := (fa_List s)[i := fair_complete answerTime (fa_List s ! i)]\<rparr>"

definition fair_OnFail :: "ui64 \<Rightarrow> nat \<Rightarrow> 'm fair \<Rightarrow> 'm fair" where
  "fair_OnFail answerTime i s = s\<lparr>fa_List := (fa_List s)[i := fair_failed (fa_List s ! i)]\<rparr>"

definition fair_ops :: "('m fair, 'm) ibackends" where
  "fair_ops = \<lparr>be_DoNext = fair_DoNext, be_Size = fair_Size, be_Module = fair_Module,
     be_OnComplete = fair_OnComplete, be_OnFail = fair_OnFail\<rparr>"

section \<open>Weights stay positive\<close>

definition fair_backend_inv :: "'m fair_backend \<Rightarrow> bool" where
  "fair_backend_inv b \<longleftrightarrow> 0 \<le> d_Weight (fb_BackEnd b) \<and> mvt_Coeff (fb_Failures b) = 85 / 100
     \<and> 0 \<le> mvt_S (fb_Failures b) \<and> fb_Weight b = fair_CalcWeight b"

definition fair_inv :: "'m fair \<Rightarrow> bool" where
  "fair_inv s \<longleftrightarrow> fa_List s \<noteq> [] \<and> (\<forall>b \<in> set (fa_List s). fair_backend_inv b) \<and> unit_random (fa_random s)"

lemma fair_CalcWeight_pos:
  assumes "0 \<le> d_Weight (fb_BackEnd b)" and "0 \<le> mvt_S (fb_Failures b)"
  shows "0 < fair_CalcWeight b"
proof -
  have "0 \<le> d_Weight (fb_BackEnd b) * med_Get 100 90 (fb_AnswerTime b) * (1 + mvt_M (fb_Failures b))"
    using assms med_Get_nonneg by (intro mult_nonneg_nonneg) (auto simp: mvt_M_def)
  then show ?thesis by (simp add: fair_CalcWeight_def add_pos_nonneg)
qed

lemma fair_weight_pos: "fair_backend_inv b \<Longrightarrow> 0 < fb_Weight b"
  using fair_CalcWeight_pos [of b] by (simp add: fair_backend_inv_def)

lemma fair_CalcWeight_cong:
  "fair_CalcWeight (b\<lparr>fb_Weight := w\<rparr>) = fair_CalcWeight b"
  by (simp add: fair_CalcWeight_def)

lemma fair_backend_inv_steps:
  assumes "fair_backend_inv b"
  shows "fair_backend_inv (fair_complete t b)" and "fair_backend_inv (fair_failed b)"
  using assms by (simp_all add: fair_backend_inv_def fair_complete_def fair_failed_def fair_ReCalcWeight_def
      fair_CalcWeight_cong)

lemma fair_backend_inv_new:
  "0 \<le> d_Weight d \<Longrightarrow> fair_backend_inv (fair_backend_new V0 d)"
  by (simp add: fair_backend_inv_def fair_backend_new_def fair_ReCalcWeight_def fair_CalcWeight_def mvt_new_def)

lemma fair_total: "foldl (\<lambda>acc b. acc + fb_Weight b) 0 bs = wsum fb_Weight bs"
  using foldl_add_sum_list [of fb_Weight 0 bs] by simp

lemma fair_next:
  assumes "fair_inv s"
  shows "\<exists>i < fair_Size s. fair_DoNext h a s = (Ret (Some i), s\<lparr>fa_random := stl (fa_random s)\<rparr>)"
proof -
  let ?S = "wsum fb_Weight (fa_List s)"
  have "0 < ?S"
    using assms fair_weight_pos by (intro sum_list_map_pos) (auto simp: fair_inv_def)
  then have "shd (fa_random s) * ?S < ?S"
    using unit_random_hd assms by (simp add: fair_inv_def)
  then obtain k where "k < length (fa_List s)"
      "cumulative (\<lambda>c r. c > r) fb_Weight (shd (fa_random s) * ?S) 0 0 (fa_List s) = Some k"
    using cumulative_reaches [of "fa_List s" "\<lambda>c r. c > r" fb_Weight "shd (fa_random s) * ?S"] assms
    by (auto simp: fair_inv_def)
  then show ?thesis by (auto simp: fair_DoNext_def fair_total fair_Size_def Let_def)
qed

lemma fair_inv_update:
  assumes "fair_inv s" and "i < fair_Size s" and "fair_backend_inv b"
  shows "fair_inv (s\<lparr>fa_List := (fa_List s)[i := b]\<rparr>)"
  using assms set_update_all [of "fa_List s" fair_backend_inv b i] by (simp add: fair_inv_def)

interpretation fairb: backends "fair_ops :: ('m fair, 'm) ibackends" fair_inv
proof
  fix s :: "'m fair" and h a i t
  assume s: "fair_inv s"
  show "\<exists>i s'. be_DoNext fair_ops h a s = (Ret (Some i), s') \<and> i < be_Size fair_ops s \<and> fair_inv s'
      \<and> be_Size fair_ops s' = be_Size fair_ops s"
    using fair_next [OF s, of h a] s
    by (auto simp: fair_ops_def fair_inv_def fair_Size_def unit_random_stl)
  assume i: "i < be_Size fair_ops s"
  then have "fair_backend_inv (fa_List s ! i)" using s by (simp add: fair_inv_def fair_ops_def fair_Size_def)
  then show "fair_inv (be_OnComplete fair_ops t i s) \<and> be_Size fair_ops (be_OnComplete fair_ops t i s) = be_Size fair_ops s"
    "fair_inv (be_OnFail fair_ops t i s) \<and> be_Size fair_ops (be_OnFail fair_ops t i s) = be_Size fair_ops s"
    using i s by (simp_all add: fair_ops_def fair_OnComplete_def fair_OnFail_def fair_inv_update
        fair_backend_inv_steps fair_Size_def)
qed

text \<open>
  C36. The draw of the fair algorithm is proportional to the weights: in every reachable state,
  backend \<open>i\<close> is returned exactly when the random number lies in an interval of \<open>[0, 1)\<close> as long
  as its share of the total weight. In particular the call does not reach \<open>abort()\<close>, in exact
  arithmetic and with random numbers below 1 as they are documented.
\<close>

theorem fair_draw_proportional:
  assumes "fair_inv s"
  shows "let S = wsum fb_Weight (fa_List s); x = shd (fa_random s) in
    (\<exists>j < fair_Size s. fst (fair_DoNext h a s) = Ret (Some j))
    \<and> (fst (fair_DoNext h a s) = Ret (Some i) \<longleftrightarrow>
       i < fair_Size s \<and> wsum fb_Weight (take i (fa_List s)) / S \<le> x
       \<and> x < wsum fb_Weight (take i (fa_List s)) / S + fb_Weight (fa_List s ! i) / S)"
proof -
  let ?S = "wsum fb_Weight (fa_List s)" and ?x = "shd (fa_random s)"
  have pos: "\<forall>b \<in> set (fa_List s). 0 < fb_Weight b" using assms fair_weight_pos by (auto simp: fair_inv_def)
  have S: "0 < ?S"
    using assms pos by (intro sum_list_map_pos) (auto simp: fair_inv_def)
  obtain j where j: "j < fair_Size s" "fst (fair_DoNext h a s) = Ret (Some j)"
    using fair_next [OF assms, of h a] by auto
  have "fst (fair_DoNext h a s) = Ret (Some i) \<longleftrightarrow>
      cumulative (\<lambda>c r. c > r) fb_Weight (?x * ?S) 0 0 (fa_List s) = Some i"
    by (simp add: fair_DoNext_def fair_total Let_def split: option.split)
  also have "\<dots> \<longleftrightarrow> i < length (fa_List s) \<and> wsum fb_Weight (take i (fa_List s)) \<le> ?x * ?S
      \<and> ?x * ?S < wsum fb_Weight (take (Suc i) (fa_List s))"
    using pos S unit_random_hd [of "fa_random s"] assms
    by (intro cumulative_interval) (auto simp: fair_inv_def intro: less_imp_le)
  also have "\<dots> \<longleftrightarrow> i < fair_Size s \<and> wsum fb_Weight (take i (fa_List s)) / ?S \<le> ?x
       \<and> ?x < wsum fb_Weight (take i (fa_List s)) / ?S + fb_Weight (fa_List s ! i) / ?S"
    using S by (auto simp: fair_Size_def take_Suc_conv_app_nth pos_divide_le_eq pos_less_divide_eq
        add_divide_distrib [symmetric])
  finally show ?thesis using j by (auto simp: Let_def)
qed

theorem fair_draw_proportional_witness:
  "fst (fair_DoNext 0 0 \<lparr>fa_List = [fair_backend_new (replicate 100 0) \<lparr>d_Weight = 1, d_Module = Some ()\<rparr>,
      fair_backend_new (replicate 100 0) \<lparr>d_Weight = 1, d_Module = Some ()\<rparr>], fa_random = sconst (3 / 4)\<rparr>)
   = Ret (Some 1)"
proof -
  let ?b = "fair_backend_new (replicate 100 0) \<lparr>d_Weight = 1, d_Module = Some ()\<rparr>"
  let ?s = "\<lparr>fa_List = [?b, ?b], fa_random = sconst (3 / 4)\<rparr>"
  have w: "fb_Weight ?b = 1000000"
    by (simp add: fair_backend_new_def fair_ReCalcWeight_def fair_CalcWeight_def med_new_def med_Get_def
        percentile_def)
  have "fair_inv ?s"
    by (simp add: fair_inv_def fair_backend_inv_new unit_random_def)
  from fair_draw_proportional [OF this, of 0 0 1] show ?thesis
    by (simp add: w fair_Size_def Let_def)
qed

end
