(* ===== verification/Robust.thy ===== *)
theory Robust
  imports Selection
begin

text \<open>
  The algorithm "robust" (web/httpd/modules/balancer/robust.cpp): a draw by weights that follow
  the answer times and the success rate of all backends together, pulled back towards the
  configured weights and normalised before every draw. The arithmetic of a draw is rounded by a
  parameter \<open>fl\<close>; the operations the balancer is composed with use exact arithmetic.
\<close>

record 'm robust_backend =
  rb_BackEnd :: "'m descriptor"
  rb_Weight :: real
  rb_InitialWeight :: real
  rb_Fail :: ui64
  rb_Succ :: ui64

record 'm robust =
  ro_List :: "'m robust_backend list"
  ro_Count :: nat
  ro_Tr :: med
  ro_Sr :: mvt
  ro_random :: "real stream"

text \<open>The constructor leaves \<open>Fail_\<close> and \<open>Succ_\<close> uninitialised.\<close>

definition robust_backend_new :: "ui64 \<Rightarrow> ui64 \<Rightarrow> 'm descriptor \<Rightarrow> 'm robust_backend" where
  "robust_backend_new fail0 succ0 descr =
     \<lparr>rb_BackEnd = descr, rb_Weight = d_Weight descr, rb_InitialWeight = d_Weight descr,
      rb_Fail = fail0, rb_Succ = succ0\<rparr>"

definition robust_Add :: "ui64 \<Rightarrow> ui64 \<Rightarrow> 'm descriptor \<Rightarrow> 'm robust \<Rightarrow> 'm robust" where
  "robust_Add fail0 succ0 descr s =
     s\<lparr>ro_List := ro_List s @ [robust_backend_new fail0 succ0 descr], ro_Count := ro_Count s + 1\<rparr>"

definition CreateRobust ::
  "(string \<Rightarrow> real outcome) \<Rightarrow> 'm factory \<Rightarrow> ui64 \<Rightarrow> ui64 \<Rightarrow> real list \<Rightarrow> real stream \<Rightarrow> cfg \<Rightarrow> 'm robust outcome" where
  "CreateRobust fromString loader fail0 succ0 V0 rnd c =
     ForEach (Add_backend fromString loader (robust_Add fail0 succ0)) c
       \<lparr>ro_List = [], ro_Count = 0, ro_Tr = med_new V0, ro_Sr = mvt_new 1 (95 / 100), ro_random = rnd\<rparr>"

definition robust_Normalize :: "(real \<Rightarrow> real) \<Rightarrow> real \<Rightarrow> 'm robust_backend \<Rightarrow> 'm robust_backend" where
  "robust_Normalize fl c b = b\<lparr>rb_Weight := fl (rb_Weight b * c)\<rparr>"

definition robust_Step :: "(real \<Rightarrow> real) \<Rightarrow> 'm robust_backend \<Rightarrow> 'm robust_backend" where
  "robust_Step fl b = (let al = fl (9999 / 10000) in
     b\<lparr>rb_Weight := fl (fl (al * rb_Weight b) + fl (fl (1 - al) * rb_InitialWeight b))\<rparr>)"

definition RequestCount :: "'m robust_backend \<Rightarrow> ui64" where
  "RequestCount b = rb_Fail b + rb_Succ b"

definition Smooth :: "'m robust_backend \<Rightarrow> real \<Rightarrow> real" where
  "Smooth b x = (let rc = RequestCount b in if rc > 1000 then x else real (unat rc) * x / 1000)"

text \<open>\<open>TMedTr<300>::M()\<close>.\<close>

definition medtr_M :: "med \<Rightarrow> real" where
  "medtr_M t = med_Get 300 90 t"

definition AdjustByError :: "real \<Rightarrow> nat \<Rightarrow> 'm robust \<Rightarrow> 'm robust" where
  "AdjustByError val i s =
     (let b = ro_List s ! i;
          prev = Smooth b (mvt_M (ro_Sr s));
          sr = mvt_Add (ro_Sr s) val;
          nxt = Smooth b (mvt_M sr);
          w = rb_Weight b;
          w' = (if val \<noteq> 0
                then w * ((1 / 100 + nxt) / (1 / 100 + prev)
                     * (1 + 1 / 100 * (rb_InitialWeight b - w) / (w + rb_InitialWeight b * (1 / 10000))))
                else w * ((1 / 100 + nxt) / (1 / 100 + prev)))
      in s\<lparr>ro_Sr := sr, ro_List := (ro_List s)[i := b\<lparr>rb_Weight := w'\<rparr>]\<rparr>)"

definition robust_OnComplete :: "ui64 \<Rightarrow> nat \<Rightarrow> 'm robust \<Rightarrow> 'm robust" where
  "robust_OnComplete answerTime i s =
     (let b = ro_List s ! i;
          prev = Smooth b (medtr_M (ro_Tr s));
          tr = med_Add 300 (real (unat answerTime)) (ro_Tr s);
          nxt = Smooth b (medtr_M tr);
          b1 = b\<lparr>rb_Succ := rb_Succ b + 1, rb_Weight := rb_Weight b * ((1 + prev) / (1 + nxt))\<rparr>
      in AdjustByError 1 i (s\<lparr>ro_Tr := tr, ro_List := (ro_List s)[i := b1]\<rparr>))"

definition robust_OnFail :: "ui64 \<Rightarrow> nat \<Rightarrow> 'm robust \<Rightarrow> 'm robust" where
  "robust_OnFail answerTime i s =
     (let b = ro_List s ! i
      in AdjustByError 0 i (s\<lparr>ro_List := (ro_List s)[i := b\<lparr>rb_Fail := rb_Fail b + 1\<rparr>]\<rparr>))"

definition robust_Size :: "'m robust \<Rightarrow> nat" where
  "robust_Size s = ro_Count s"

text \<open>\<open>abort()\<close> behind the loop is a crash.\<close>

definition robust_DoNext :: "(real \<Rightarrow> real) \<Rightarrow> ui64 \<Rightarrow> ui64 \<Rightarrow> 'm robust \<Rightarrow> nat option outcome \<times> 'm robust" where
  "robust_DoNext fl h a s =
     (let l1 = map (robust_Step fl) (ro_List s);
          total = foldl (\<lambda>acc b. fl (acc + rb_Weight b)) 0 l1;
          c = fl (real (robust_Size s) / total);
          l2 = map (robust_Normalize fl c) l1;
          rnd = fl (shd (ro_random s) * real (robust_Size s));
          s1 = s\<lparr>ro_List := l2, ro_random := stl (ro_random s)\<rparr>
      in case draw fl (\<lambda>cur r. cur > r) rb_Weight rnd 0 0 l2 of
           Some i \<Rightarrow> (Ret (Some i), s1)
         | None \<Rightarrow> (Crash, s1))"

definition robust_Module :: "nat \<Rightarrow> 'm robust \<Rightarrow> 'm" where
  "robust_Module i s = the (d_Module (rb_BackEnd (ro_List s ! i)))"

definition robust_ops :: "('m robust, 'm) ibackends" where
  "robust_ops = \<lparr>be_DoNext = robust_DoNext (\<lambda>x. x), be_Size = robust_Size, be_Module = robust_Module,
     be_OnComplete = robust_OnComplete, be_OnFail = robust_OnFail\<rparr>"

section \<open>Weights stay positive\<close>

definition robust_backend_inv :: "'m robust_backend \<Rightarrow> bool" where
  "robust_backend_inv b \<longleftrightarrow> 0 < rb_Weight b \<and> 0 < rb_InitialWeight b"

definition robust_inv :: "'m robust \<Rightarrow> bool" where
  "robust_inv s \<longleftrightarrow> ro_List s \<noteq> [] \<and> ro_Count s = length (ro_List s)
     \<and> (\<forall>b \<in> set (ro_List s). robust_backend_inv b)
     \<and> 0 \<le> mvt_S (ro_Sr s) \<and> mvt_Coeff (ro_Sr s) = 95 / 100 \<and> unit_random (ro_random s)"

lemma Smooth_nonneg: "0 \<le> x \<Longrightarrow> 0 \<le> Smooth b x"
  by (auto simp: Smooth_def Let_def simp del: of_nat_unat)

lemma pull_back_pos:
  fixes w i :: real
  assumes "0 < w" and "0 < i"
  shows "0 < 1 + 1 / 100 * (i - w) / (w + i * (1 / 10000))"
proof -
  have "0 < w + i * (1 / 10000)" using assms by simp
  then have "- 1 < 1 / 100 * (i - w) / (w + i * (1 / 10000))"
    using assms by (simp add: pos_less_divide_eq)
  then show ?thesis by linarith
qed

text \<open>The weights that a draw needs, whatever the random numbers.\<close>

definition robust_weights :: "'m robust \<Rightarrow> bool" where
  "robust_weights s \<longleftrightarrow> ro_List s \<noteq> [] \<and> ro_Count s = length (ro_List s) \<and> (\<forall>b \<in> set (ro_List s). robust_backend_inv b)"

lemma robust_Step_inv:
  assumes fl: "rounding \<epsilon> fl" and "\<epsilon> \<le> 1 / 10000" and b: "robust_backend_inv b"
  shows "robust_backend_inv (robust_Step fl b)"
proof -
  define al where "al = fl (9999 / 10000)"
  have "al \<le> (1 + \<epsilon>) * (9999 / 10000)" and al: "0 < al"
    unfolding al_def using rounding_bounds(2,4) [OF fl, of "9999 / 10000"] by simp_all
  moreover have "(1 + \<epsilon>) * (9999 / 10000) < 1" using assms(2) by simp
  ultimately have "0 < 1 - al" by linarith
  then have "0 < fl (1 - al)" using rounding_bounds(4) [OF fl] by (simp add: less_imp_le)
  then have "0 < fl (al * rb_Weight b)" "0 < fl (fl (1 - al) * rb_InitialWeight b)"
    using al b by (auto intro!: rounding_bounds(4) [OF fl] simp: robust_backend_inv_def less_imp_le)
  then have "0 < fl (fl (al * rb_Weight b) + fl (fl (1 - al) * rb_InitialWeight b))"
    by (intro rounding_bounds(4) [OF fl]) simp_all
  then show ?thesis using b by (simp add: robust_backend_inv_def robust_Step_def al_def Let_def)
qed

lemma robust_Normalize_inv:
  assumes "rounding \<epsilon> fl" and "robust_backend_inv b" and "0 < c"
  shows "robust_backend_inv (robust_Normalize fl c b)"
  using assms rounding_bounds(4) [OF assms(1), of "rb_Weight b * c"]
  by (simp add: robust_backend_inv_def robust_Normalize_def less_imp_le)

lemma robust_inv_update:
  assumes "robust_inv s" and "robust_backend_inv b"
  shows "robust_inv (s\<lparr>ro_List := (ro_List s)[i := b]\<rparr>)"
  using assms set_update_all [of "ro_List s" robust_backend_inv b i] by (simp add: robust_inv_def)

lemma AdjustByError_inv:
  assumes s: "robust_inv s" and i: "i < length (ro_List s)" and val: "0 \<le> val"
  shows "robust_inv (AdjustByError val i s)" and "ro_Count (AdjustByError val i s) = ro_Count s"
proof -
  let ?b = "ro_List s ! i" and ?sr = "mvt_Add (ro_Sr s) val"
  have b: "0 < rb_Weight ?b" "0 < rb_InitialWeight ?b"
    using s i by (auto simp: robust_inv_def robust_backend_inv_def)
  have sr: "0 \<le> mvt_S ?sr" "mvt_Coeff ?sr = 95 / 100" using s val by (simp_all add: robust_inv_def)
  have "0 \<le> Smooth ?b (mvt_M (ro_Sr s))" "0 \<le> Smooth ?b (mvt_M ?sr)"
    using s sr by (intro Smooth_nonneg, simp add: robust_inv_def mvt_M_def)+
  then have q: "0 < (1 / 100 + Smooth ?b (mvt_M ?sr)) / (1 / 100 + Smooth ?b (mvt_M (ro_Sr s)))"
    by (intro divide_pos_pos) linarith+
  have "robust_inv (s\<lparr>ro_Sr := ?sr\<rparr>)" using s sr by (simp add: robust_inv_def)
  moreover have "robust_backend_inv (?b\<lparr>rb_Weight := w\<rparr>)" if "0 < w" for w
    using that b by (simp add: robust_backend_inv_def)
  ultimately have upd: "0 < w \<Longrightarrow> robust_inv (s\<lparr>ro_Sr := ?sr, ro_List := (ro_List s)[i := ?b\<lparr>rb_Weight := w\<rparr>]\<rparr>)" for w
    using robust_inv_update [of "s\<lparr>ro_Sr := ?sr\<rparr>" "?b\<lparr>rb_Weight := w\<rparr>" i] by simp
  have pull: "0 < 1 + 1 / 100 * (rb_InitialWeight ?b - rb_Weight ?b) / (rb_Weight ?b + rb_InitialWeight ?b * (1 / 10000))"
    by (rule pull_back_pos [OF b])
  show "robust_inv (AdjustByError val i s)"
    unfolding AdjustByError_def Let_def
    by (rule upd) (use b q pull in \<open>simp only: mult_pos_pos split: if_split; blast\<close>)
  show "ro_Count (AdjustByError val i s) = ro_Count s" by (simp add: AdjustByError_def Let_def)
qed

text \<open>
  Every number that is rounded costs a factor between \<open>1 - \<epsilon>\<close> and \<open>1 + \<epsilon>\<close>: a weight is rounded in the
  sum of all, in the quotient and in the product with it.
\<close>

lemma robust_normalised:
  assumes fl: "rounding \<epsilon> fl" and ne: "xs \<noteq> []" and pos: "\<forall>b \<in> set xs. 0 < rb_Weight b"
  defines "n \<equiv> length xs" and "c \<equiv> fl (real (length xs) / rsum fl rb_Weight 0 xs)"
  shows "0 < c" and "(1 - \<epsilon>) ^ (n + 2) * real n \<le> wsum rb_Weight (map (robust_Normalize fl c) xs)"
    and "(1 - \<epsilon>) ^ n * wsum rb_Weight (map (robust_Normalize fl c) xs) \<le> (1 + \<epsilon>)\<^sup>2 * real n"
proof -
  let ?u = "1 - \<epsilon>" and ?v = "1 + \<epsilon>" and ?T = "rsum fl rb_Weight 0 xs" and ?X = "wsum rb_Weight xs"
  have e: "0 \<le> \<epsilon>" "\<epsilon> < 1" using fl by (simp_all add: rounding_def)
  have T: "0 < ?T" by (rule rsum_pos [OF fl ne pos])
  have n: "0 < real n" using ne by (simp add: n_def)
  have X: "0 \<le> ?X" using pos by (intro sum_list_map_nonneg) (auto intro: less_imp_le)
  have q: "0 < real n / ?T" using n T by simp
  note c = rounding_bounds [OF fl less_imp_le [OF q], folded n_def, folded c_def [folded n_def]]
  show c0: "0 < c" using c(4) q by (simp add: n_def c_def)
  have each: "?u * (rb_Weight x * c) \<le> rb_Weight (robust_Normalize fl c x)"
      "rb_Weight (robust_Normalize fl c x) \<le> ?v * (rb_Weight x * c)" if "x \<in> set xs" for x
    using rounding_bounds(1,2) [OF fl, of "rb_Weight x * c"] pos that c0 by (simp_all add: robust_Normalize_def less_imp_le)
  have Y: "?u * (?X * c) \<le> wsum rb_Weight (map (robust_Normalize fl c) xs)"
      "wsum rb_Weight (map (robust_Normalize fl c) xs) \<le> ?v * (?X * c)"
    using sum_list_mono [of xs "\<lambda>x. ?u * (rb_Weight x * c)"] sum_list_mono [of xs _ "\<lambda>x. ?v * (rb_Weight x * c)"] each
    by (simp_all add: comp_def sum_list_const_mult sum_list_mult_const)
  have "?u * (?u * (real n / ?T)) \<le> ?u * c" using c(1) e by (intro mult_left_mono) simp_all
  then have grow: "?X * (?u * (?u * (real n / ?T))) \<le> ?X * (?u * c)" using X by (rule mult_left_mono)
  have "?u ^ (n + 2) * real n = ?u ^ n * (?u\<^sup>2 * real n)" by (simp add: power_add power2_eq_square)
  also have "\<dots> \<le> ?X / ?T * (?u\<^sup>2 * real n)"
    using rsum_ratio(1) [OF fl ne pos, folded n_def] n by (intro mult_right_mono) simp_all
  also have "\<dots> = ?X * (?u * (?u * (real n / ?T)))" by (simp add: power2_eq_square)
  also have "\<dots> \<le> ?u * (?X * c)" using grow by (simp add: mult.left_commute)
  finally show "?u ^ (n + 2) * real n \<le> wsum rb_Weight (map (robust_Normalize fl c) xs)" using Y(1) by linarith
  have u0: "0 \<le> ?u ^ n" using e by simp
  have "?X * (?v * c) \<le> ?X * (?v * (?v * (real n / ?T)))" using c(2) e X by (intro mult_left_mono) simp_all
  then have "?u ^ n * wsum rb_Weight (map (robust_Normalize fl c) xs) \<le> ?u ^ n * (?X * (?v * (?v * (real n / ?T))))"
    using Y(2) by (intro mult_left_mono [OF _ u0]) (simp add: algebra_simps)
  also have "\<dots> = (?u ^ n * (?X / ?T)) * (?v\<^sup>2 * real n)" by (simp add: power2_eq_square)
  also have "\<dots> \<le> 1 * (?v\<^sup>2 * real n)" using rsum_ratio(2) [OF fl ne pos, folded n_def] n by (intro mult_right_mono) simp_all
  finally show "?u ^ n * wsum rb_Weight (map (robust_Normalize fl c) xs) \<le> ?v\<^sup>2 * real n" by simp
qed

lemma robust_DoNext_state:
  fixes h a :: ui64
  assumes fl: "rounding \<epsilon> fl" and "\<epsilon> \<le> 1 / 10000" and s: "robust_weights s"
  defines "s' \<equiv> snd (robust_DoNext fl h a s)" and "n \<equiv> robust_Size s"
  shows "robust_weights s'" and "robust_Size s' = n" and "ro_Sr s' = ro_Sr s" and "ro_random s' = stl (ro_random s)"
    and "(1 - \<epsilon>) ^ (n + 2) * real n \<le> wsum rb_Weight (ro_List s')"
    and "(1 - \<epsilon>) ^ n * wsum rb_Weight (ro_List s') \<le> (1 + \<epsilon>)\<^sup>2 * real n"
    and "fst (robust_DoNext fl h a s) = (case draw fl (\<lambda>cur r. cur > r) rb_Weight (fl (shd (ro_random s) * real n)) 0 0
           (ro_List s') of Some i \<Rightarrow> Ret (Some i) | None \<Rightarrow> Crash)"
proof -
  let ?l1 = "map (robust_Step fl) (ro_List s)"
  define c where "c = fl (real (length ?l1) / rsum fl rb_Weight 0 ?l1)"
  have l1: "\<forall>b \<in> set ?l1. robust_backend_inv b" using s robust_Step_inv [OF fl assms(2)] by (auto simp: robust_weights_def)
  then have pos: "\<forall>b \<in> set ?l1. 0 < rb_Weight b" "?l1 \<noteq> []" using s by (auto simp: robust_backend_inv_def robust_weights_def)
  have n: "n = length ?l1" and sz: "robust_Size s = length (ro_List s)"
    using s by (simp_all add: n_def robust_weights_def robust_Size_def)
  note c = robust_normalised [OF fl pos(2,1), folded c_def]
  have s': "s' = s\<lparr>ro_List := map (robust_Normalize fl c) ?l1, ro_random := stl (ro_random s)\<rparr>"
    by (simp add: s'_def robust_DoNext_def Let_def c_def sz rsum_def split: option.split)
  show "robust_weights s'"
    using l1 robust_Normalize_inv [OF fl _ c(1)] s by (auto simp: robust_weights_def s')
  show "robust_Size s' = n" "ro_Sr s' = ro_Sr s" "ro_random s' = stl (ro_random s)"
    by (simp_all add: s' robust_Size_def n_def)
  show "(1 - \<epsilon>) ^ (n + 2) * real n \<le> wsum rb_Weight (ro_List s')"
    "(1 - \<epsilon>) ^ n * wsum rb_Weight (ro_List s') \<le> (1 + \<epsilon>)\<^sup>2 * real n"
    using c(2,3) by (simp_all add: s' n)
  show "fst (robust_DoNext fl h a s) = (case draw fl (\<lambda>cur r. cur > r) rb_Weight (fl (shd (ro_random s) * real n)) 0 0
           (ro_List s') of Some i \<Rightarrow> Ret (Some i) | None \<Rightarrow> Crash)"
    by (simp add: s' robust_DoNext_def Let_def c_def sz n_def rsum_def split: option.split)
qed

lemma robust_draws:
  assumes fl: "rounding \<epsilon> fl" and "\<epsilon> \<le> 1 / 10000" and s: "robust_weights s"
    and r: "0 \<le> shd (ro_random s)" "shd (ro_random s) < 1 - (2 * real (robust_Size s) + 3) * \<epsilon>"
  shows "\<exists>k < robust_Size s. fst (robust_DoNext fl h a s) = Ret (Some k)"
proof -
  let ?n = "robust_Size s" and ?r = "shd (ro_random s)" and ?s' = "snd (robust_DoNext fl h a s)"
  let ?u = "1 - \<epsilon>" and ?v = "1 + \<epsilon>" and ?Y = "wsum rb_Weight (ro_List ?s')"
  note d = robust_DoNext_state [OF fl assms(2) s, of h a]
  have e: "0 \<le> ?u" "0 \<le> \<epsilon>" using fl by (simp_all add: rounding_def)
  have l: "ro_List ?s' \<noteq> []" "length (ro_List ?s') = ?n" "\<forall>b \<in> set (ro_List ?s'). 0 \<le> rb_Weight b"
    using d(1,2) by (auto simp: robust_weights_def robust_Size_def robust_backend_inv_def less_imp_le)
  have n: "0 < real ?n" unfolding l(2) [symmetric] using l(1) by simp
  have "?r < ?u ^ (2 * ?n + 3)" using r(2) rounding_power(1) [OF fl, of "2 * ?n + 3"] by (simp add: algebra_simps)
  then have "?r * real ?n < ?u ^ (2 * ?n + 3) * real ?n" using n by (rule mult_strict_right_mono)
  then have "?v * (?r * real ?n) < ?v * (?u ^ (2 * ?n + 3) * real ?n)" using e by (intro mult_strict_left_mono) simp_all
  moreover have "fl (?r * real ?n) \<le> ?v * (?r * real ?n)" using rounding_bounds(2) [OF fl] r(1) by simp
  moreover have "?v * (?u ^ (2 * ?n + 3) * real ?n) = (?u ^ 1 * ?v ^ 1) * (?u ^ (2 * ?n + 2) * real ?n)"
    by (simp add: power_add numeral_eq_Suc)
  moreover have "\<dots> \<le> 1 * (?u ^ (2 * ?n + 2) * real ?n)"
    using rounding_power(2) [OF fl, of 1] e by (intro mult_right_mono) simp_all
  ultimately have "fl (?r * real ?n) < ?u ^ (2 * ?n + 2) * real ?n" by linarith
  also have "\<dots> = ?u ^ ?n * (?u ^ (?n + 2) * real ?n)" by (simp add: power_add mult_2)
  also have "\<dots> \<le> ?u ^ ?n * ?Y" using d(5) e by (intro mult_left_mono) simp_all
  also have "\<dots> \<le> rsum fl rb_Weight 0 (ro_List ?s')" using rsum_bounds [OF fl order_refl l(3)] l(2) by simp
  finally show ?thesis
    using draw_reaches [OF l(1), of "\<lambda>c r. c > r" fl rb_Weight 0 _ 0] d(7) l(2) by fastforce
qed

lemma robust_next:
  assumes s: "robust_inv s"
  shows "\<exists>i s'. robust_DoNext (\<lambda>x. x) h a s = (Ret (Some i), s') \<and> i < robust_Size s \<and> robust_inv s'
    \<and> robust_Size s' = robust_Size s"
proof -
  have w: "robust_weights s" using s by (simp add: robust_inv_def robust_weights_def)
  note d = robust_DoNext_state [OF rounding_exact _ w, of h a]
  have "\<exists>k < robust_Size s. fst (robust_DoNext (\<lambda>x. x) h a s) = Ret (Some k)"
    using robust_draws [OF rounding_exact _ w] s unit_random_hd by (auto simp: robust_inv_def)
  moreover have "robust_inv (snd (robust_DoNext (\<lambda>x. x) h a s))"
    using d(1,3,4) s unit_random_stl by (simp add: robust_inv_def robust_weights_def)
  ultimately show ?thesis using d(2) by (metis order_refl prod.collapse zero_le_divide_1_iff zero_le_numeral)
qed

lemma robust_OnComplete_inv:
  assumes s: "robust_inv s" and i: "i < length (ro_List s)"
  shows "robust_inv (robust_OnComplete t i s)" and "ro_Count (robust_OnComplete t i s) = ro_Count s"
proof -
  let ?b = "ro_List s ! i" and ?tr = "med_Add 300 (real (unat t)) (ro_Tr s)"
  have nn: "0 \<le> Smooth ?b (medtr_M tr)" for tr by (intro Smooth_nonneg) (simp add: medtr_M_def med_Get_nonneg)
  have b: "0 < rb_Weight ?b" "0 < rb_InitialWeight ?b"
    using s i by (auto simp: robust_inv_def robust_backend_inv_def)
  have "0 < (1 + Smooth ?b (medtr_M (ro_Tr s))) / (1 + Smooth ?b (medtr_M ?tr))"
    using nn [of "ro_Tr s"] nn [of ?tr] by (intro divide_pos_pos) linarith+
  then have "0 < rb_Weight ?b * ((1 + Smooth ?b (medtr_M (ro_Tr s))) / (1 + Smooth ?b (medtr_M ?tr)))"
    using b(1) by (rule mult_pos_pos [rotated])
  then have upd: "robust_backend_inv (?b\<lparr>rb_Succ := rb_Succ ?b + 1,
      rb_Weight := rb_Weight ?b * ((1 + Smooth ?b (medtr_M (ro_Tr s))) / (1 + Smooth ?b (medtr_M ?tr)))\<rparr>)"
    using b(2) by (simp add: robust_backend_inv_def del: times_divide_eq_right)
  have "robust_inv (s\<lparr>ro_Tr := ?tr\<rparr>)" using s by (simp add: robust_inv_def)
  from robust_inv_update [OF this upd, of i]
  have "robust_inv (s\<lparr>ro_Tr := ?tr, ro_List := (ro_List s)[i := ?b\<lparr>rb_Succ := rb_Succ ?b + 1,
      rb_Weight := rb_Weight ?b * ((1 + Smooth ?b (medtr_M (ro_Tr s))) / (1 + Smooth ?b (medtr_M ?tr)))\<rparr>]\<rparr>)"
    by simp
  from AdjustByError_inv [OF this, of i 1] i
  show "robust_inv (robust_OnComplete t i s)" and "ro_Count (robust_OnComplete t i s) = ro_Count s"
    by (simp_all add: robust_OnComplete_def Let_def)
qed

lemma robust_OnFail_inv:
  assumes s: "robust_inv s" and i: "i < length (ro_List s)"
  shows "robust_inv (robust_OnFail t i s)" and "ro_Count (robust_OnFail t i s) = ro_Count s"
proof -
  let ?b = "ro_List s ! i"
  have "robust_backend_inv (?b\<lparr>rb_Fail := rb_Fail ?b + 1\<rparr>)"
    using s i by (auto simp: robust_inv_def robust_backend_inv_def)
  from AdjustByError_inv [OF robust_inv_update [OF s this, of i], of i 0] i
  show "robust_inv (robust_OnFail t i s)" and "ro_Count (robust_OnFail t i s) = ro_Count s"
    by (simp_all add: robust_OnFail_def Let_def)
qed

interpretation rob: backends "robust_ops :: ('m robust, 'm) ibackends" robust_inv
proof
  fix s :: "'m robust" and h a i t
  assume s: "robust_inv s"
  show "\<exists>i s'. be_DoNext robust_ops h a s = (Ret (Some i), s') \<and> i < be_Size robust_ops s \<and> robust_inv s'
      \<and> be_Size robust_ops s' = be_Size robust_ops s"
    using robust_next [OF s, of h a] by (auto simp: robust_ops_def)
  assume "i < be_Size robust_ops s"
  then have i: "i < length (ro_List s)" using s by (simp add: robust_ops_def robust_Size_def robust_inv_def)
  show "robust_inv (be_OnComplete robust_ops t i s) \<and> be_Size robust_ops (be_OnComplete robust_ops t i s) = be_Size robust_ops s"
    "robust_inv (be_OnFail robust_ops t i s) \<and> be_Size robust_ops (be_OnFail robust_ops t i s) = be_Size robust_ops s"
    using robust_OnComplete_inv [OF s i] robust_OnFail_inv [OF s i] by (simp_all add: robust_ops_def robust_Size_def)
qed

text \<open>
  C37. The draw of "robust" with its arithmetic rounded to a relative error \<open>\<epsilon>\<close> (\<open>2 ^ - 53\<close> for doubles that
  neither overflow nor underflow), in a state with positive weights: whatever the random number, it
  leaves all weights positive and their sum within a factor of about \<open>1 \<plusminus> (n + 2) \<epsilon>\<close> of the number \<open>n\<close>
  of backends. It returns a backend, instead of reaching \<open>abort()\<close>, for every random number below
  \<open>1 - (2 n + 3) \<epsilon>\<close>; for numbers nearer to 1 it may abort. Reports, in exact arithmetic, keep the
  weights positive. With \<open>\<epsilon> = 0\<close> the sum is exactly \<open>n\<close> and every number below 1 gives a backend.
\<close>

theorem robust_draw_bound:
  assumes "robust_inv s" and "i < robust_Size s" and "rounding \<epsilon> fl" and "\<epsilon> \<le> 1 / 10000"
  shows "let n = robust_Size s; (r, s') = robust_DoNext fl h a s; total = wsum rb_Weight (ro_List s') in
      (\<forall>b \<in> set (ro_List s'). 0 < rb_Weight b)
    \<and> (1 - \<epsilon>) ^ (n + 2) * real n \<le> total \<and> (1 - \<epsilon>) ^ n * total \<le> (1 + \<epsilon>)\<^sup>2 * real n
    \<and> (shd (ro_random s) < 1 - (2 * real n + 3) * \<epsilon> \<longrightarrow> (\<exists>k < n. r = Ret (Some k)))
    \<and> robust_inv (robust_OnComplete t i s) \<and> robust_inv (robust_OnFail t i s)"
proof -
  have w: "robust_weights s" and len: "i < length (ro_List s)" and r: "0 \<le> shd (ro_random s)"
    using assms(1,2) unit_random_hd by (auto simp: robust_inv_def robust_weights_def robust_Size_def)
  note d = robust_DoNext_state [OF assms(3,4) w, of h a]
  have "\<forall>b \<in> set (ro_List (snd (robust_DoNext fl h a s))). 0 < rb_Weight b"
    using d(1) by (simp add: robust_weights_def robust_backend_inv_def)
  with d(5,6) robust_draws [OF assms(3,4) w r, of h a] robust_OnComplete_inv(1) [OF assms(1) len]
    robust_OnFail_inv(1) [OF assms(1) len]
  show ?thesis by (simp add: Let_def case_prod_beta)
qed

text \<open>
  The end of the range: \<open>RandomNumber<double>()\<close> rounds its topmost values to 1, and then the draw aborts
  even in exact arithmetic. A rounding that always rounds down aborts for a number below 1.
\<close>

lemma robust_aborts_at_one:
  assumes "robust_weights s" and "shd (ro_random s) = 1"
  shows "fst (robust_DoNext (\<lambda>x. x) h a s) = Crash"
proof -
  let ?l = "ro_List (snd (robust_DoNext (\<lambda>x. x) h a s))" and ?n = "robust_Size s"
  note d = robust_DoNext_state [OF rounding_exact _ assms(1), of h a]
  have tot: "wsum rb_Weight ?l = real ?n" using d(5,6) by simp
  have pos: "\<forall>b \<in> set ?l. 0 \<le> rb_Weight b" using d(1) by (auto simp: robust_weights_def robust_backend_inv_def less_imp_le)
  have "wsum rb_Weight (take (Suc j) ?l) \<le> real ?n" for j
    using wsum_take_mono [OF pos, of "Suc j" "max (Suc j) (length ?l)"] tot by simp
  then have "cumulative (\<lambda>c r. c > r) rb_Weight (real ?n) 0 0 ?l = None" by (simp add: cumulative_None not_less)
  then show ?thesis using d(7) assms(2) by (simp add: draw_exact)
qed

lemma robust_aborts_below_one:
  assumes "0 < \<epsilon>" and "\<epsilon> \<le> 1 / 10000"
  shows "\<exists>fl. rounding \<epsilon> fl \<and> fst (robust_DoNext fl h a \<lparr>ro_List = [robust_backend_new 0 0 \<lparr>d_Weight = 1, d_Module = Some ()\<rparr>],
     ro_Count = 1, ro_Tr = tr, ro_Sr = sr, ro_random = sconst (1 - \<epsilon>)\<rparr>) = Crash"
proof -
  let ?fl = "\<lambda>x. (1 - \<epsilon>) * x"
  let ?b = "robust_Step ?fl (robust_backend_new 0 0 \<lparr>d_Weight = 1, d_Module = Some ()\<rparr>)"
  have fl: "rounding \<epsilon> ?fl" using assms by (simp add: rounding_def algebra_simps abs_mult)
  have "robust_backend_inv ?b"
    by (rule robust_Step_inv [OF fl assms(2)]) (simp add: robust_backend_inv_def robust_backend_new_def)
  then have w: "0 < rb_Weight ?b" by (simp add: robust_backend_inv_def)
  have u: "1 - \<epsilon> \<noteq> 0" using assms by simp
  have "?fl (rb_Weight ?b * ?fl (1 / ?fl (rb_Weight ?b))) = 1 - \<epsilon>" using w u by simp
  with fl show ?thesis by (intro exI [of _ ?fl]) (simp add: robust_DoNext_def robust_Size_def Let_def robust_Normalize_def)
qed

theorem robust_draw_bound_witness:
  "let s = \<lparr>ro_List = [robust_backend_new 0 0 \<lparr>d_Weight = 2, d_Module = Some ()\<rparr>],
     ro_Count = 1, ro_Tr = med_new (replicate 300 0), ro_Sr = mvt_new 1 (95 / 100), ro_random = sconst (1 / 2)\<rparr> in
   (\<exists>k < 1. fst (robust_DoNext (\<lambda>x. (1 - 1 / 2 ^ 53) * x) 0 0 s) = Ret (Some k)) \<and> robust_inv (robust_OnFail 7 0 s)"
proof -
  let ?s = "\<lparr>ro_List = [robust_backend_new 0 0 \<lparr>d_Weight = 2, d_Module = Some ()\<rparr>],
     ro_Count = 1, ro_Tr = med_new (replicate 300 0), ro_Sr = mvt_new 1 (95 / 100), ro_random = sconst (1 / 2)\<rparr>"
  have s: "robust_inv ?s" "0 < robust_Size ?s"
    by (simp_all add: robust_inv_def robust_backend_inv_def robust_backend_new_def mvt_new_def unit_random_def robust_Size_def)
  have fl: "rounding (1 / 2 ^ 53) (\<lambda>x. (1 - 1 / 2 ^ 53) * x)" by (simp add: rounding_def algebra_simps abs_mult)
  from robust_draw_bound [OF s fl, of 0 0 7] show ?thesis by (simp add: robust_Size_def Let_def case_prod_beta)
qed

end
