(* ===== verification/Pidgroup.thy ===== *)
theory Pidgroup
  imports Selection
begin

text \<open>
  The algorithm "pidgroup" (web/httpd/modules/balancer/pidgroup.cpp): a draw by weights that are
  recomputed for all backends, from their predicted answer times, each time one of them answers. The
  arithmetic of \<open>Normalize\<close> and of a draw is rounded by a parameter \<open>fl\<close>; the operations the balancer is
  composed with use exact arithmetic.
\<close>

record 'm pid_backend =
  pb_BackEnd :: "'m descriptor"
  pb_Weight :: real
  pb_BalanceWeight :: real
  pb_Data :: real
  pb_TimeRate :: mvt

record 'm pidgroup =
  pg_BackEnds :: "'m pid_backend list"
  pg_SearchTime :: mvt
  pg_random :: "real stream"

definition FailAnswerTime :: "real \<Rightarrow> real" where
  "FailAnswerTime answerTime = 1000000"

definition WarmCoeff :: real where
  "WarmCoeff = 9999 / 10000"

definition pid_backend_new :: "'m descriptor \<Rightarrow> 'm pid_backend" where
  "pid_backend_new descr =
     \<lparr>pb_BackEnd = descr, pb_Weight = d_Weight descr, pb_BalanceWeight = d_Weight descr, pb_Data = 1,
      pb_TimeRate = mvt_new 300000 (9 / 10)\<rparr>"

definition pid_Add :: "'m descriptor \<Rightarrow> 'm pidgroup \<Rightarrow> 'm pidgroup" where
  "pid_Add descr s = s\<lparr>pg_BackEnds := pg_BackEnds s @ [pid_backend_new descr]\<rparr>"

definition CreatePIDGroup ::
  "(string \<Rightarrow> real outcome) \<Rightarrow> 'm factory \<Rightarrow> real stream \<Rightarrow> cfg \<Rightarrow> 'm pidgroup outcome" where
  "CreatePIDGroup fromString loader rnd c =
     ForEach (Add_backend fromString loader pid_Add) c
       \<lparr>pg_BackEnds = [], pg_SearchTime = mvt_new 1000000 (99 / 100), pg_random = rnd\<rparr>"

definition pid_Warm :: "'m pid_backend \<Rightarrow> 'm pid_backend" where
  "pid_Warm b = b\<lparr>pb_Data := pb_Data b * WarmCoeff\<rparr>"

definition pid_score :: "(real \<Rightarrow> real) \<Rightarrow> 'm pid_backend \<Rightarrow> real" where
  "pid_score fl b = fl (pb_BalanceWeight b / fl (pb_Data b + fl (1 / 10000)))"

definition pid_Normalize :: "(real \<Rightarrow> real) \<Rightarrow> 'm pidgroup \<Rightarrow> 'm pidgroup" where
  "pid_Normalize fl s =
     (let total = foldl (\<lambda>acc b. fl (acc + pid_score fl b)) 0 (pg_BackEnds s)
      in s\<lparr>pg_BackEnds := map (\<lambda>b. pid_Warm (b\<lparr>pb_Weight := fl (pid_score fl b / total)\<rparr>)) (pg_BackEnds s)\<rparr>)"

definition UpdateSearchTime :: "real \<Rightarrow> 'm pidgroup \<Rightarrow> 'm pidgroup" where
  "UpdateSearchTime value s = s\<lparr>pg_SearchTime := mvt_Add (pg_SearchTime s) value\<rparr>"

text \<open>\<open>TBackEnd::Normalize(answerTime)\<close> of backend \<open>i\<close>.\<close>

definition pid_backend_Normalize :: "(real \<Rightarrow> real) \<Rightarrow> real \<Rightarrow> nat \<Rightarrow> 'm pidgroup \<Rightarrow> 'm pidgroup" where
  "pid_backend_Normalize fl answerTime i s =
     (let b = pg_BackEnds s ! i;
          oldTime = mvt_M (pb_TimeRate b);
          tr = mvt_Add (pb_TimeRate b) answerTime;
          newTime = mvt_M tr;
          data = ((if 3 / 2 * newTime > oldTime then 2 * newTime - oldTime else newTime) + 1)
                 / (mvt_M (pg_SearchTime s) + 1)
      in pid_Normalize fl (s\<lparr>pg_BackEnds := (pg_BackEnds s)[i := b\<lparr>pb_TimeRate := tr, pb_Data := data\<rparr>]\<rparr>))"

definition pid_OnComplete :: "(real \<Rightarrow> real) \<Rightarrow> ui64 \<Rightarrow> nat \<Rightarrow> 'm pidgroup \<Rightarrow> 'm pidgroup" where
  "pid_OnComplete fl duration i s =
     (let answerTime = real (unat duration) in pid_backend_Normalize fl answerTime i (UpdateSearchTime answerTime s))"

definition pid_OnFail :: "(real \<Rightarrow> real) \<Rightarrow> ui64 \<Rightarrow> nat \<Rightarrow> 'm pidgroup \<Rightarrow> 'm pidgroup" where
  "pid_OnFail fl duration i s =
     (let answerTime = real (unat duration)
      in pid_backend_Normalize fl (FailAnswerTime answerTime) i (UpdateSearchTime answerTime s))"

definition pid_Size :: "'m pidgroup \<Rightarrow> nat" where
  "pid_Size s = length (pg_BackEnds s)"

text \<open>When no prefix sum reaches the threshold, \<open>DoNext\<close> returns a null pointer.\<close>

definition pid_DoNext :: "(real \<Rightarrow> real) \<Rightarrow> ui64 \<Rightarrow> ui64 \<Rightarrow> 'm pidgroup \<Rightarrow> nat option outcome \<times> 'm pidgroup" where
  "pid_DoNext fl h a s =
     (let threshold = shd (pg_random s)
      in (Ret (draw fl (\<lambda>acc t. acc \<ge> t) pb_Weight threshold 0 0 (pg_BackEnds s)),
          s\<lparr>pg_random := stl (pg_random s)\<rparr>))"

definition pid_Module :: "nat \<Rightarrow> 'm pidgroup \<Rightarrow> 'm" where
  "pid_Module i s = the (d_Module (pb_BackEnd (pg_BackEnds s ! i)))"

definition pid_ops :: "('m pidgroup, 'm) ibackends" where
  "pid_ops = \<lparr>be_DoNext = pid_DoNext (\<lambda>x. x), be_Size = pid_Size, be_Module = pid_Module,
     be_OnComplete = pid_OnComplete (\<lambda>x. x), be_OnFail = pid_OnFail (\<lambda>x. x)\<rparr>"

section \<open>Weights are a distribution\<close>

definition pid_backend_inv :: "'m pid_backend \<Rightarrow> bool" where
  "pid_backend_inv b \<longleftrightarrow> 0 < pb_BalanceWeight b \<and> 0 < pb_Data b
     \<and> 0 \<le> mvt_S (pb_TimeRate b) \<and> mvt_Coeff (pb_TimeRate b) = 9 / 10"

definition pid_inv :: "'m pidgroup \<Rightarrow> bool" where
  "pid_inv s \<longleftrightarrow> pg_BackEnds s \<noteq> [] \<and> (\<forall>b \<in> set (pg_BackEnds s). pid_backend_inv b)
     \<and> 0 \<le> mvt_S (pg_SearchTime s) \<and> mvt_Coeff (pg_SearchTime s) = 99 / 100 \<and> unit_random (pg_random s)"

text \<open>The weights reach every threshold: their sum is at least one.\<close>

definition pid_ready :: "'m pidgroup \<Rightarrow> bool" where
  "pid_ready s \<longleftrightarrow> pid_inv s \<and> 1 \<le> wsum pb_Weight (pg_BackEnds s)"

lemma pid_score_pos:
  assumes fl: "rounding \<epsilon> fl" and b: "pid_backend_inv b"
  shows "0 < pid_score fl b"
proof -
  have "0 < fl (1 / 10000)" using rounding_bounds(4) [OF fl] by simp
  then have "0 < fl (pb_Data b + fl (1 / 10000))"
    using rounding_bounds(4) [OF fl, of "pb_Data b + fl (1 / 10000)"] b by (simp add: pid_backend_inv_def)
  then show ?thesis
    using rounding_bounds(4) [OF fl, of "pb_BalanceWeight b / fl (pb_Data b + fl (1 / 10000))"] b
    by (simp add: pid_score_def pid_backend_inv_def)
qed

text \<open>The weights after \<open>Normalize\<close>, with the errors of the sum and of one division.\<close>

definition pid_normal :: "real \<Rightarrow> 'm pidgroup \<Rightarrow> bool" where
  "pid_normal \<epsilon> s \<longleftrightarrow> (\<forall>b \<in> set (pg_BackEnds s). 0 < pb_Weight b)
     \<and> (1 - \<epsilon>) ^ (pid_Size s + 1) \<le> wsum pb_Weight (pg_BackEnds s)
     \<and> (1 - \<epsilon>) ^ pid_Size s * wsum pb_Weight (pg_BackEnds s) \<le> 1 + \<epsilon>"

lemma pid_normal_exact: "pid_normal 0 s \<Longrightarrow> wsum pb_Weight (pg_BackEnds s) = 1"
  by (simp add: pid_normal_def)

lemma pid_Normalize_ready:
  assumes fl: "rounding \<epsilon> fl" and s: "pid_inv s"
  shows "pid_inv (pid_Normalize fl s)" and "pid_normal \<epsilon> (pid_Normalize fl s)"
    and "pid_Size (pid_Normalize fl s) = pid_Size s"
proof -
  let ?l = "pg_BackEnds s" and ?X = "wsum (pid_score fl) (pg_BackEnds s)" and ?T = "rsum fl (pid_score fl) 0 (pg_BackEnds s)"
  let ?u = "1 - \<epsilon>" and ?v = "1 + \<epsilon>" and ?n = "pid_Size s" and ?Y = "wsum pb_Weight (pg_BackEnds (pid_Normalize fl s))"
  have e: "0 \<le> \<epsilon>" "\<epsilon> < 1" using fl by (simp_all add: rounding_def)
  have pos: "\<forall>b \<in> set ?l. 0 < pid_score fl b" using s pid_score_pos [OF fl] by (auto simp: pid_inv_def)
  have ne: "?l \<noteq> []" using s by (simp add: pid_inv_def)
  have T: "0 < ?T" by (rule rsum_pos [OF fl ne pos])
  note ratio = rsum_ratio [OF fl ne pos, folded pid_Size_def]
  show "pid_inv (pid_Normalize fl s)" and size: "pid_Size (pid_Normalize fl s) = pid_Size s"
    using s by (auto simp: pid_inv_def pid_Normalize_def Let_def pid_Warm_def WarmCoeff_def
        pid_backend_inv_def pid_Size_def)
  have m: "map pb_Weight (pg_BackEnds (pid_Normalize fl s)) = map (\<lambda>b. fl (pid_score fl b / ?T)) ?l"
    by (simp add: pid_Normalize_def rsum_def pid_Warm_def)
  have each: "?u * (pid_score fl b / ?T) \<le> fl (pid_score fl b / ?T) \<and> fl (pid_score fl b / ?T) \<le> ?v * (pid_score fl b / ?T)
      \<and> 0 < fl (pid_score fl b / ?T)" if "b \<in> set ?l" for b
    using rounding_bounds(1,2,4) [OF fl, of "pid_score fl b / ?T"] pos that T by (simp add: less_imp_le)
  have "?u * (?X / ?T) \<le> ?Y" "?Y \<le> ?v * (?X / ?T)"
    unfolding m using sum_list_mono [of ?l "\<lambda>b. ?u * (pid_score fl b / ?T)"] sum_list_mono [of ?l _ "\<lambda>b. ?v * (pid_score fl b / ?T)"] each
    by (simp_all add: sum_list_const_mult sum_list_map_divide)
  moreover have "?u * ?u ^ ?n \<le> ?u * (?X / ?T)" using ratio(1) e by (intro mult_left_mono) simp_all
  moreover have "?u ^ ?n * (?v * (?X / ?T)) \<le> ?v" using mult_left_mono [OF ratio(2), of ?v] e by (simp add: mult.left_commute)
  moreover have "?u ^ ?n * ?Y \<le> ?u ^ ?n * (?v * (?X / ?T))" using calculation(2) e by (intro mult_left_mono) simp_all
  moreover have "\<forall>w \<in> set (map pb_Weight (pg_BackEnds (pid_Normalize fl s))). 0 < w" unfolding m using each by auto
  ultimately show "pid_normal \<epsilon> (pid_Normalize fl s)" by (simp add: pid_normal_def size)
qed

lemma pid_predicted_pos:
  fixes new old st :: real
  assumes "0 \<le> new" and "0 \<le> st"
  shows "0 < ((if 3 / 2 * new > old then 2 * new - old else new) + 1) / (st + 1)"
  using assms by (auto intro!: divide_pos_pos)

lemma pid_backend_Normalize_ready:
  assumes fl: "rounding \<epsilon> fl" and s: "pid_inv s" and i: "i < pid_Size s" and t: "0 \<le> t"
  shows "pid_inv (pid_backend_Normalize fl t i s) \<and> pid_normal \<epsilon> (pid_backend_Normalize fl t i s)
    \<and> pid_Size (pid_backend_Normalize fl t i s) = pid_Size s"
proof -
  let ?b = "pg_BackEnds s ! i"
  let ?tr = "mvt_Add (pb_TimeRate ?b) t"
  define data where "data = ((if 3 / 2 * mvt_M ?tr > mvt_M (pb_TimeRate ?b) then 2 * mvt_M ?tr - mvt_M (pb_TimeRate ?b)
      else mvt_M ?tr) + 1) / (mvt_M (pg_SearchTime s) + 1)"
  let ?s1 = "s\<lparr>pg_BackEnds := (pg_BackEnds s)[i := ?b\<lparr>pb_TimeRate := ?tr, pb_Data := data\<rparr>]\<rparr>"
  have b: "pid_backend_inv ?b" using s i by (simp add: pid_inv_def pid_Size_def)
  then have tr: "0 \<le> mvt_S ?tr" using t by (simp add: pid_backend_inv_def)
  then have "0 < data"
    unfolding data_def using s by (intro pid_predicted_pos) (simp_all only: mvt_M_def pid_inv_def)
  then have "pid_backend_inv (?b\<lparr>pb_TimeRate := ?tr, pb_Data := data\<rparr>)"
    using b tr by (simp add: pid_backend_inv_def)
  then have "pid_inv ?s1"
    using s set_update_all [of "pg_BackEnds s" pid_backend_inv _ i] by (simp add: pid_inv_def)
  moreover have "pid_backend_Normalize fl t i s = pid_Normalize fl ?s1"
    by (simp only: pid_backend_Normalize_def Let_def data_def)
  moreover have "pid_Size ?s1 = pid_Size s" by (simp add: pid_Size_def)
  ultimately show ?thesis using pid_Normalize_ready [OF fl, of ?s1] by simp
qed

lemma UpdateSearchTime_inv:
  "pid_inv s \<Longrightarrow> 0 \<le> t \<Longrightarrow> pid_inv (UpdateSearchTime t s)" "pid_Size (UpdateSearchTime t s) = pid_Size s"
  by (simp_all add: pid_inv_def UpdateSearchTime_def pid_Size_def)

lemma pid_reports:
  assumes "rounding \<epsilon> fl" and "pid_inv s" and "i < pid_Size s"
  defines "r \<equiv> \<lambda>s'. pid_inv s' \<and> pid_normal \<epsilon> s' \<and> pid_Size s' = pid_Size s"
  shows "r (pid_OnComplete fl d i s)" and "r (pid_OnFail fl d i s)"
proof -
  have u: "pid_inv (UpdateSearchTime (real (unat d)) s)" "i < pid_Size (UpdateSearchTime (real (unat d)) s)"
    using UpdateSearchTime_inv(1) [of s "real (unat d)"] UpdateSearchTime_inv(2) [of "real (unat d)" s] assms(2,3) by (simp_all del: of_nat_unat)
  show "r (pid_OnComplete fl d i s)" "r (pid_OnFail fl d i s)"
    using pid_backend_Normalize_ready [OF assms(1) u, of "real (unat d)"] pid_backend_Normalize_ready [OF assms(1) u, of 1000000]
    by (simp_all add: r_def pid_OnComplete_def pid_OnFail_def FailAnswerTime_def UpdateSearchTime_inv(2) Let_def
        del: of_nat_unat)
qed

lemma pid_draws:
  assumes fl: "rounding \<epsilon> fl" and "pg_BackEnds s \<noteq> []" and "pid_normal \<epsilon> s"
    and "shd (pg_random s) \<le> 1 - (2 * real (pid_Size s) + 1) * \<epsilon>"
  shows "\<exists>i < pid_Size s. fst (pid_DoNext fl h a s) = Ret (Some i)"
proof -
  let ?u = "1 - \<epsilon>" and ?n = "pid_Size s"
  have e: "0 \<le> ?u" using fl by (simp add: rounding_def)
  have pos: "\<forall>b \<in> set (pg_BackEnds s). 0 \<le> pb_Weight b" using assms(3) by (auto simp: pid_normal_def less_imp_le)
  have "shd (pg_random s) \<le> ?u ^ (2 * ?n + 1)" using assms(4) rounding_power(1) [OF fl, of "2 * ?n + 1"] by (simp add: algebra_simps)
  also have "\<dots> = ?u ^ ?n * ?u ^ (?n + 1)" by (simp add: power_add mult_2)
  also have "\<dots> \<le> ?u ^ ?n * wsum pb_Weight (pg_BackEnds s)" using assms(3) e by (intro mult_left_mono) (simp_all add: pid_normal_def)
  also have "\<dots> \<le> rsum fl pb_Weight 0 (pg_BackEnds s)" using rsum_bounds [OF fl order_refl pos] by (simp add: pid_Size_def)
  finally show ?thesis
    using draw_reaches [OF assms(2), of "\<lambda>c t. c \<ge> t" fl pb_Weight 0 _ 0] by (fastforce simp: pid_DoNext_def pid_Size_def Let_def)
qed

lemma pid_next:
  assumes "pid_ready s"
  shows "\<exists>i < pid_Size s. pid_DoNext (\<lambda>x. x) h a s = (Ret (Some i), s\<lparr>pg_random := stl (pg_random s)\<rparr>)"
proof -
  have "wsum pb_Weight (pg_BackEnds s) \<ge> shd (pg_random s)"
    using assms unit_random_hd [of "pg_random s"] by (auto simp: pid_ready_def pid_inv_def)
  moreover have "pg_BackEnds s \<noteq> []" using assms by (simp add: pid_ready_def pid_inv_def)
  ultimately show ?thesis
    using cumulative_reaches [of "pg_BackEnds s" "\<lambda>c t. c \<ge> t" pb_Weight "shd (pg_random s)"]
    by (auto simp: pid_DoNext_def draw_exact pid_Size_def Let_def)
qed

interpretation pid: backends "pid_ops :: ('m pidgroup, 'm) ibackends" pid_ready
proof
  fix s :: "'m pidgroup" and h a i t
  assume s: "pid_ready s"
  show "\<exists>i s'. be_DoNext pid_ops h a s = (Ret (Some i), s') \<and> i < be_Size pid_ops s \<and> pid_ready s'
      \<and> be_Size pid_ops s' = be_Size pid_ops s"
    using pid_next [OF s, of h a] s
    by (auto simp: pid_ops_def pid_ready_def pid_inv_def pid_Size_def unit_random_stl)
  assume i: "i < be_Size pid_ops s"
  show "pid_ready (be_OnComplete pid_ops t i s) \<and> be_Size pid_ops (be_OnComplete pid_ops t i s) = be_Size pid_ops s"
    "pid_ready (be_OnFail pid_ops t i s) \<and> be_Size pid_ops (be_OnFail pid_ops t i s) = be_Size pid_ops s"
    using pid_reports [OF rounding_exact, of s i t] s i by (simp_all add: pid_ops_def pid_ready_def pid_normal_exact)
qed

text \<open>
  C38. The weights of "pidgroup", with the arithmetic of \<open>Normalize\<close> and of the draw rounded to a relative
  error \<open>\<epsilon>\<close> (\<open>2 ^ - 53\<close> for doubles that neither overflow nor underflow). Whenever one of its \<open>n\<close> backends
  answers or fails the weights become positive with a sum between \<open>(1 - \<epsilon>) ^ (n + 1)\<close> and
  \<open>(1 + \<epsilon>) / (1 - \<epsilon>) ^ n\<close>, which is one in exact arithmetic, and the next draw returns a backend for
  every random number up to \<open>1 - (2 n + 1) \<epsilon>\<close>. Before the first answer the configured weights are used as
  they are: a random number above their sum, up to rounding, makes \<open>DoNext\<close> return a null pointer, which
  the balancer dereferences.
\<close>

theorem pidgroup_weights_distribution:
  assumes "rounding \<epsilon> fl" and "pid_inv s" and "i < pid_Size s"
  shows "(\<forall>s' \<in> {pid_OnComplete fl d i s, pid_OnFail fl d i s}.
        (\<forall>b \<in> set (pg_BackEnds s'). 0 < pb_Weight b)
      \<and> (1 - \<epsilon>) ^ (pid_Size s + 1) \<le> wsum pb_Weight (pg_BackEnds s')
      \<and> (1 - \<epsilon>) ^ pid_Size s * wsum pb_Weight (pg_BackEnds s') \<le> 1 + \<epsilon>
      \<and> (shd (pg_random s') \<le> 1 - (2 * real (pid_Size s) + 1) * \<epsilon>
          \<longrightarrow> (\<exists>k < pid_Size s. fst (pid_DoNext fl h a s') = Ret (Some k))))
    \<and> ((\<forall>b \<in> set (pg_BackEnds s). 0 \<le> pb_Weight b)
        \<and> (1 + \<epsilon>) ^ pid_Size s * wsum pb_Weight (pg_BackEnds s) < shd (pg_random s)
        \<longrightarrow> fst (pid_DoNext fl h a s) = Ret None)"
proof -
  have "(\<forall>b \<in> set (pg_BackEnds s'). 0 < pb_Weight b)
      \<and> (1 - \<epsilon>) ^ (pid_Size s + 1) \<le> wsum pb_Weight (pg_BackEnds s')
      \<and> (1 - \<epsilon>) ^ pid_Size s * wsum pb_Weight (pg_BackEnds s') \<le> 1 + \<epsilon>
      \<and> (shd (pg_random s') \<le> 1 - (2 * real (pid_Size s) + 1) * \<epsilon>
          \<longrightarrow> (\<exists>k < pid_Size s. fst (pid_DoNext fl h a s') = Ret (Some k)))"
    if "pid_inv s' \<and> pid_normal \<epsilon> s' \<and> pid_Size s' = pid_Size s" for s'
    using that pid_draws [OF assms(1), of s' h a] unfolding pid_inv_def pid_normal_def by metis
  moreover have "fst (pid_DoNext fl h a s) = Ret None"
    if "\<forall>b \<in> set (pg_BackEnds s). 0 \<le> pb_Weight b"
      and "(1 + \<epsilon>) ^ pid_Size s * wsum pb_Weight (pg_BackEnds s) < shd (pg_random s)"
    using draw_misses [OF assms(1) order_refl that(1)] that(2) by (simp add: pid_DoNext_def Let_def pid_Size_def)
  ultimately show ?thesis using pid_reports [OF assms, of d] by blast
qed

text \<open>A rounding that always rounds down returns a null pointer for a number below 1.\<close>

lemma pid_null_below_one:
  assumes "0 < \<epsilon>" and "\<epsilon> < 1"
  shows "\<exists>fl r. rounding \<epsilon> fl \<and> r < 1 \<and> fst (pid_DoNext fl h a (pid_Normalize fl
     \<lparr>pg_BackEnds = [pid_backend_new \<lparr>d_Weight = 1, d_Module = Some ()\<rparr>], pg_SearchTime = t, pg_random = sconst r\<rparr>)) = Ret None"
proof -
  let ?fl = "\<lambda>x. (1 - \<epsilon>) * x" and ?b = "pid_backend_new \<lparr>d_Weight = 1, d_Module = Some ()\<rparr>"
  have fl: "rounding \<epsilon> ?fl" using assms by (simp add: rounding_def algebra_simps abs_mult)
  have "0 < pid_score ?fl ?b"
    by (rule pid_score_pos [OF fl]) (simp add: pid_backend_inv_def pid_backend_new_def mvt_new_def)
  then have "?fl (pid_score ?fl ?b / ?fl (pid_score ?fl ?b)) = 1" using assms by simp
  then have "fst (pid_DoNext ?fl h a (pid_Normalize ?fl
     \<lparr>pg_BackEnds = [?b], pg_SearchTime = t, pg_random = sconst (1 - \<epsilon> / 2)\<rparr>)) = Ret None"
    using assms by (simp add: pid_DoNext_def pid_Normalize_def pid_Warm_def Let_def)
  then show ?thesis using fl assms by (intro exI [of _ ?fl] exI [of _ "1 - \<epsilon> / 2"]) simp
qed

theorem pidgroup_weights_distribution_witness:
  "let s = \<lparr>pg_BackEnds = [pid_backend_new \<lparr>d_Weight = 1 / 10, d_Module = Some ()\<rparr>],
      pg_SearchTime = mvt_new 1000000 (99 / 100), pg_random = sconst (1 / 2)\<rparr> in
   fst (pid_DoNext (\<lambda>x. (1 - 1 / 2 ^ 53) * x) 0 0 s) = Ret None
   \<and> (\<forall>b \<in> set (pg_BackEnds (pid_OnFail (\<lambda>x. (1 - 1 / 2 ^ 53) * x) 5 0 s)). 0 < pb_Weight b)"
proof -
  let ?s = "\<lparr>pg_BackEnds = [pid_backend_new \<lparr>d_Weight = 1 / 10, d_Module = Some ()\<rparr>],
      pg_SearchTime = mvt_new 1000000 (99 / 100), pg_random = sconst (1 / 2)\<rparr>"
  have s: "pid_inv ?s" "0 < pid_Size ?s"
    by (simp_all add: pid_inv_def pid_backend_inv_def pid_backend_new_def mvt_new_def unit_random_def pid_Size_def)
  have fl: "rounding (1 / 2 ^ 53) (\<lambda>x. (1 - 1 / 2 ^ 53) * x)" by (simp add: rounding_def algebra_simps abs_mult)
  from pidgroup_weights_distribution [OF fl s, of 5 0 0] show ?thesis
    by (simp add: pid_Size_def pid_backend_new_def Let_def)
qed

end
