(* ===== verification/Weighted.thy ===== *)
theory Weighted
  imports Selection
begin

text \<open>
  The algorithm "weighted" (web/httpd/modules/balancer/weighted.cpp): weighted round robin by
  emergencies; a chosen backend is passed over with the probability of its failure rate.
\<close>

record 'm w_backend =
  wb_BackEnd :: "'m descriptor"
  wb_Weight :: real
  wb_Emergency :: real
  wb_FailRate :: mvt
  wb_Succ :: ui64
  wb_Fail :: ui64

record 'm weighted =
  wt_BackEnds :: "'m w_backend list"
  wt_SearchTime :: mvt
  wt_random :: "real stream"

definition w_backend_new :: "'m descriptor \<Rightarrow> 'm w_backend" where
  "w_backend_new descr =
     \<lparr>wb_BackEnd = descr, wb_Weight = 1, wb_Emergency = 0, wb_FailRate = mvt_new 0 (99 / 100),
      wb_Succ = 0, wb_Fail = 0\<rparr>"

definition weighted_Add :: "'m descriptor \<Rightarrow> 'm weighted \<Rightarrow> 'm weighted" where
  "weighted_Add descr s = s\<lparr>wt_BackEnds := wt_BackEnds s @ [w_backend_new descr]\<rparr>"

definition CreateWeighted ::
  "(string \<Rightarrow> real outcome) \<Rightarrow> 'm factory \<Rightarrow> real stream \<Rightarrow> cfg \<Rightarrow> 'm weighted outcome" where
  "CreateWeighted fromString loader rnd c =
     ForEach (Add_backend fromString loader weighted_Add) c
       \<lparr>wt_BackEnds = [], wt_SearchTime = mvt_new 1000000 (99 / 100), wt_random = rnd\<rparr>"

definition wb_AddEmergency :: "real \<Rightarrow> 'm w_backend \<Rightarrow> 'm w_backend" where
  "wb_AddEmergency value b = b\<lparr>wb_Emergency := wb_Emergency b + value\<rparr>"

definition GetFailRate :: "'m w_backend \<Rightarrow> real" where
  "GetFailRate b = min (mvt_M (wb_FailRate b)) (99 / 100)"

definition weighted_Normalize :: "'m weighted \<Rightarrow> 'm weighted" where
  "weighted_Normalize s =
     (let total = foldl (\<lambda>acc b. acc + wb_Weight b) 0 (wt_BackEnds s)
      in s\<lparr>wt_BackEnds := map (\<lambda>b. b\<lparr>wb_Weight := wb_Weight b / total\<rparr>) (wt_BackEnds s)\<rparr>)"

definition weighted_OnComplete :: "ui64 \<Rightarrow> nat \<Rightarrow> 'm weighted \<Rightarrow> 'm weighted" where
  "weighted_OnComplete answerTime i s =
     (let b = wt_BackEnds s ! i;
          oldTime = mvt_M (wt_SearchTime s);
          st = mvt_Add (wt_SearchTime s) (real (unat answerTime));
          b1 = b\<lparr>wb_Succ := wb_Succ b + 1, wb_Weight := wb_Weight b * ((oldTime + 1) / (mvt_M st + 1))\<rparr>;
          s1 = weighted_Normalize (s\<lparr>wt_SearchTime := st, wt_BackEnds := (wt_BackEnds s)[i := b1]\<rparr>);
          b2 = wt_BackEnds s1 ! i
      in s1\<lparr>wt_BackEnds := (wt_BackEnds s1)[i := b2\<lparr>wb_FailRate := mvt_Add (wb_FailRate b2) 0\<rparr>]\<rparr>)"

definition weighted_OnFail :: "ui64 \<Rightarrow> nat \<Rightarrow> 'm weighted \<Rightarrow> 'm weighted" where
  "weighted_OnFail answerTime i s =
     (let b = wt_BackEnds s ! i
      in s\<lparr>wt_BackEnds := (wt_BackEnds s)[i := b\<lparr>wb_Fail := wb_Fail b + 1,
             wb_FailRate := mvt_Add (wb_FailRate b) 1\<rparr>]\<rparr>)"

text \<open>\<open>Choose\<close> on an empty list would read the list head as a backend.\<close>

definition weighted_Choose :: "'m weighted \<Rightarrow> nat outcome \<times> 'm weighted" where
  "weighted_Choose s =
     (case wt_BackEnds s of
        [] \<Rightarrow> (Crash, s)
      | b # _ \<Rightarrow>
          (case choose_loop wb_Weight wb_Emergency wb_AddEmergency (wb_Emergency b) 0 0 (wt_BackEnds s) of
             (bs, k) \<Rightarrow> (Ret k, s\<lparr>wt_BackEnds := bs[k := wb_AddEmergency (- 1) (bs ! k)]\<rparr>)))"

text \<open>
  The loop \<open>while (!retval && --count)\<close>, entered with \<open>count\<close> one more than the number of
  rounds; \<open>None\<close> is a null \<open>retval\<close>.
\<close>

fun weighted_try :: "nat \<Rightarrow> 'm weighted \<Rightarrow> nat option outcome \<times> 'm weighted" where
  "weighted_try 0 s = (Ret None, s)"
| "weighted_try (Suc rounds) s =
     (case weighted_Choose s of
        (Ret k, s1) \<Rightarrow>
          (let x = shd (wt_random s1); s2 = s1\<lparr>wt_random := stl (wt_random s1)\<rparr>
           in if x < GetFailRate (wt_BackEnds s1 ! k) then weighted_try rounds s2 else (Ret (Some k), s2))
      | (_, s1) \<Rightarrow> (Crash, s1))"

definition weighted_Size :: "'m weighted \<Rightarrow> nat" where
  "weighted_Size s = length (wt_BackEnds s)"

text \<open>With no backend \<open>--count\<close> wraps and \<open>Choose\<close> fails.\<close>

definition weighted_DoNext :: "ui64 \<Rightarrow> ui64 \<Rightarrow> 'm weighted \<Rightarrow> nat option outcome \<times> 'm weighted" where
  "weighted_DoNext h a s =
     (if weighted_Size s = 0 then (Crash, s)
      else (case weighted_try (weighted_Size s - 1) s of
              (Ret None, s1) \<Rightarrow> (Ret (Some 0), s1)
            | r \<Rightarrow> r))"

definition weighted_Module :: "nat \<Rightarrow> 'm weighted \<Rightarrow> 'm" where
  "weighted_Module i s = the (d_Module (wb_BackEnd (wt_BackEnds s ! i)))"

definition weighted_ops :: "('m weighted, 'm) ibackends" where
  "weighted_ops = \<lparr>be_DoNext = weighted_DoNext, be_Size = weighted_Size, be_Module = weighted_Module,
     be_OnComplete = weighted_OnComplete, be_OnFail = weighted_OnFail\<rparr>"

section \<open>Invariant\<close>

definition w_backend_inv :: "'m w_backend \<Rightarrow> bool" where
  "w_backend_inv b \<longleftrightarrow> 0 < wb_Weight b"

definition weighted_inv :: "'m weighted \<Rightarrow> bool" where
  "weighted_inv s \<longleftrightarrow> wt_BackEnds s \<noteq> [] \<and> (\<forall>b \<in> set (wt_BackEnds s). w_backend_inv b)
     \<and> 0 \<le> mvt_S (wt_SearchTime s) \<and> mvt_Coeff (wt_SearchTime s) = 99 / 100"

interpretation wbe: emergency "wb_Weight :: 'm w_backend \<Rightarrow> real" wb_Emergency wb_AddEmergency
  by unfold_locales (simp_all add: wb_AddEmergency_def)

lemma weighted_inv_weights:
  "weighted_inv s \<longleftrightarrow> wt_BackEnds s \<noteq> [] \<and> (\<forall>w \<in> set (map wb_Weight (wt_BackEnds s)). 0 < w)
     \<and> 0 \<le> mvt_S (wt_SearchTime s) \<and> mvt_Coeff (wt_SearchTime s) = 99 / 100"
  by (simp add: weighted_inv_def w_backend_inv_def)

text \<open>\<open>Choose\<close> picks a largest emergency, keeps the weights, and adds their sum minus one to the total.\<close>

lemma weighted_Choose_spec:
  assumes "weighted_inv s"
  shows "\<exists>k s'. weighted_Choose s = (Ret k, s') \<and> k < weighted_Size s
    \<and> map wb_Weight (wt_BackEnds s') = map wb_Weight (wt_BackEnds s)
    \<and> wt_SearchTime s' = wt_SearchTime s
    \<and> wsum wb_Emergency (wt_BackEnds s') = wsum wb_Emergency (wt_BackEnds s) + wsum wb_Weight (wt_BackEnds s) - 1
    \<and> (\<forall>b \<in> set (wt_BackEnds s). wb_Emergency b + wb_Weight b
          \<le> wb_Emergency (wt_BackEnds s ! k) + wb_Weight (wt_BackEnds s ! k))
    \<and> wt_BackEnds s' = (wbe.grown (wt_BackEnds s))[k := wb_AddEmergency (- 1) (wbe.grown (wt_BackEnds s) ! k)]"
proof -
  obtain b bs where bs: "wt_BackEnds s = b # bs" and w: "0 < wb_Weight b"
    using assms by (cases "wt_BackEnds s") (auto simp: weighted_inv_def w_backend_inv_def)
  obtain l k where l: "choose_loop wb_Weight wb_Emergency wb_AddEmergency (wb_Emergency b) 0 0 (b # bs) = (l, k)"
    by fastforce
  have hd: "0 < wb_Weight (hd (b # bs))"
    "choose_loop wb_Weight wb_Emergency wb_AddEmergency (wb_Emergency (hd (b # bs))) 0 0 (b # bs) = (l, k)"
    using w l by (simp_all only: list.sel)
  have spec: "l = wbe.grown (b # bs)" "k < length (b # bs)"
    "\<forall>x \<in> set (wbe.grown (b # bs)). wb_Emergency x \<le> wb_Emergency (wbe.grown (b # bs) ! k)"
    using wbe.choose_max [OF list.distinct(2) hd] by (simp_all only: simp_thms)
  have kl: "k < length l" using spec by simp
  have max: "wb_Emergency x + wb_Weight x \<le> wb_Emergency ((b # bs) ! k) + wb_Weight ((b # bs) ! k)"
    if "x \<in> set (b # bs)" for x
  proof -
    have "wb_AddEmergency (wb_Weight x) x \<in> set (wbe.grown (b # bs))" using that by auto
    with spec(3) have "wb_Emergency (wb_AddEmergency (wb_Weight x) x) \<le> wb_Emergency (wbe.grown (b # bs) ! k)" by blast
    then show ?thesis using spec(2) by (simp only: nth_map wbe.getE_addE)
  qed
  let ?s' = "s\<lparr>wt_BackEnds := l[k := wb_AddEmergency (- 1) (l ! k)]\<rparr>"
  have "weighted_Choose s = (Ret k, ?s')" using l by (simp add: weighted_Choose_def bs)
  moreover have "map wb_Weight (wt_BackEnds ?s') = map wb_Weight (wt_BackEnds s)"
    using wbe.wsum_addE_at(2) [OF kl, of "- 1"] wbe.choose_length(2) [OF l] by (simp add: bs)
  moreover have "wsum wb_Emergency (wt_BackEnds ?s') = wsum wb_Emergency (wt_BackEnds s) + wsum wb_Weight (wt_BackEnds s) - 1"
    using wbe.wsum_addE_at(1) [OF kl, of "- 1"] wbe.grown_sum [of "b # bs"] spec(1)
    by (simp only: bs weighted.simps) simp
  ultimately show ?thesis
    using spec(1,2) max by (intro exI [of _ k] exI [of _ ?s']) (simp add: bs weighted_Size_def)
qed

lemma weighted_try_spec:
  assumes "weighted_inv s"
  shows "\<exists>r s'. weighted_try n s = (Ret r, s') \<and> weighted_inv s' \<and> weighted_Size s' = weighted_Size s
    \<and> (\<forall>k. r = Some k \<longrightarrow> k < weighted_Size s)"
  using assms
proof (induction n arbitrary: s)
  case (Suc n)
  obtain k s1 where c: "weighted_Choose s = (Ret k, s1)" "k < weighted_Size s"
      "map wb_Weight (wt_BackEnds s1) = map wb_Weight (wt_BackEnds s)" "wt_SearchTime s1 = wt_SearchTime s"
    using weighted_Choose_spec [OF Suc.prems] by blast
  let ?s2 = "s1\<lparr>wt_random := stl (wt_random s1)\<rparr>"
  have size: "weighted_Size ?s2 = weighted_Size s"
    using arg_cong [OF c(3), of length] by (simp add: weighted_Size_def)
  have "weighted_inv ?s2"
    using Suc.prems c(3,4) size by (auto simp: weighted_inv_weights weighted_Size_def)
  with Suc.IH [of ?s2] size c(1,2) show ?case by (auto simp: Let_def)
qed simp

lemma weighted_next:
  assumes "weighted_inv s"
  shows "\<exists>i s'. weighted_DoNext h a s = (Ret (Some i), s') \<and> i < weighted_Size s \<and> weighted_inv s'
    \<and> weighted_Size s' = weighted_Size s"
proof -
  have "0 < weighted_Size s" using assms by (simp add: weighted_inv_def weighted_Size_def)
  with weighted_try_spec [OF assms, of "weighted_Size s - 1"] show ?thesis
    by (auto simp: weighted_DoNext_def split: option.splits)
qed

lemma weighted_Normalize_spec:
  assumes "weighted_inv s"
  shows "weighted_inv (weighted_Normalize s)" and "wsum wb_Weight (wt_BackEnds (weighted_Normalize s)) = 1"
    and "length (wt_BackEnds (weighted_Normalize s)) = length (wt_BackEnds s)"
proof -
  let ?S = "wsum wb_Weight (wt_BackEnds s)"
  have S: "0 < ?S" using assms by (intro sum_list_map_pos) (auto simp: weighted_inv_def w_backend_inv_def)
  have total: "foldl (\<lambda>acc b. acc + wb_Weight b) 0 (wt_BackEnds s) = ?S"
    using foldl_add_sum_list [of wb_Weight 0 "wt_BackEnds s"] by simp
  have m: "map wb_Weight (wt_BackEnds (weighted_Normalize s)) = map (\<lambda>b. wb_Weight b / ?S) (wt_BackEnds s)"
    by (simp add: weighted_Normalize_def total)
  then show "wsum wb_Weight (wt_BackEnds (weighted_Normalize s)) = 1"
    using S sum_list_map_divide [of wb_Weight ?S "wt_BackEnds s"] by simp
  show "weighted_inv (weighted_Normalize s)"
    using assms S unfolding weighted_inv_weights m
    by (auto simp: weighted_Normalize_def total)
  show "length (wt_BackEnds (weighted_Normalize s)) = length (wt_BackEnds s)"
    by (simp add: weighted_Normalize_def Let_def)
qed

lemma weighted_OnComplete_spec:
  assumes s: "weighted_inv s" and i: "i < weighted_Size s"
  shows "weighted_inv (weighted_OnComplete t i s)" and "wsum wb_Weight (wt_BackEnds (weighted_OnComplete t i s)) = 1"
    and "weighted_Size (weighted_OnComplete t i s) = weighted_Size s"
proof -
  let ?b = "wt_BackEnds s ! i" and ?st = "mvt_Add (wt_SearchTime s) (real (unat t))"
  define q where "q = (mvt_M (wt_SearchTime s) + 1) / (mvt_M ?st + 1)"
  define s1 where "s1 = s\<lparr>wt_SearchTime := ?st,
      wt_BackEnds := (wt_BackEnds s)[i := ?b\<lparr>wb_Succ := wb_Succ ?b + 1, wb_Weight := wb_Weight ?b * q\<rparr>]\<rparr>"
  define s2 where "s2 = weighted_Normalize s1"
  have st: "0 \<le> mvt_S ?st" using s by (simp add: weighted_inv_def del: of_nat_unat)
  have q: "0 < q" unfolding q_def using s st by (intro divide_pos_pos) (unfold mvt_M_def weighted_inv_def, linarith+)
  have "0 < wb_Weight ?b" using s i by (simp add: weighted_inv_def w_backend_inv_def weighted_Size_def)
  with q have "w_backend_inv (?b\<lparr>wb_Succ := wb_Succ ?b + 1, wb_Weight := wb_Weight ?b * q\<rparr>)"
    by (simp add: w_backend_inv_def)
  then have inv1: "weighted_inv s1"
    using s st set_update_all [of "wt_BackEnds s" w_backend_inv _ i]
    by (simp add: weighted_inv_def s1_def del: mvt_Add_simps(1))
  note n = weighted_Normalize_spec [OF inv1, folded s2_def]
  have len: "length (wt_BackEnds s2) = length (wt_BackEnds s)" using n(3) by (simp add: s1_def)
  have eq: "weighted_OnComplete t i s = s2\<lparr>wt_BackEnds := (wt_BackEnds s2)[i :=
      (wt_BackEnds s2 ! i)\<lparr>wb_FailRate := mvt_Add (wb_FailRate (wt_BackEnds s2 ! i)) 0\<rparr>]\<rparr>"
    by (simp only: weighted_OnComplete_def Let_def s2_def s1_def q_def)
  have same: "map wb_Weight ((wt_BackEnds s2)[i := (wt_BackEnds s2 ! i)\<lparr>wb_FailRate := f\<rparr>]) = map wb_Weight (wt_BackEnds s2)" for f
    using i len by (simp add: map_update weighted_Size_def list_update_same_conv)
  show "weighted_inv (weighted_OnComplete t i s)" "wsum wb_Weight (wt_BackEnds (weighted_OnComplete t i s)) = 1"
    using n by (simp_all add: eq weighted_inv_weights same del: set_map)
  show "weighted_Size (weighted_OnComplete t i s) = weighted_Size s" by (simp add: eq weighted_Size_def len)
qed

lemma weighted_OnFail_spec:
  assumes s: "weighted_inv s" and i: "i < weighted_Size s"
  shows "weighted_inv (weighted_OnFail t i s)" and "weighted_Size (weighted_OnFail t i s) = weighted_Size s"
proof -
  have "w_backend_inv (wt_BackEnds s ! i)" using s i by (simp add: weighted_inv_def weighted_Size_def)
  then have "\<forall>b \<in> set ((wt_BackEnds s)[i := (wt_BackEnds s ! i)\<lparr>wb_Fail := f, wb_FailRate := m\<rparr>]). w_backend_inv b" for f m
    using s by (intro set_update_all) (auto simp: w_backend_inv_def weighted_inv_def)
  with s show "weighted_inv (weighted_OnFail t i s)"
    by (simp add: weighted_inv_def weighted_OnFail_def Let_def)
  show "weighted_Size (weighted_OnFail t i s) = weighted_Size s"
    by (simp add: weighted_OnFail_def Let_def weighted_Size_def)
qed

interpretation wei: backends "weighted_ops :: ('m weighted, 'm) ibackends" weighted_inv
  by unfold_locales
    (simp_all add: weighted_ops_def weighted_next weighted_OnComplete_spec weighted_OnFail_spec)

section \<open>Histories\<close>

text \<open>
  What the emergencies keep: the weights sum to at least one, so that a largest emergency with its
  weight added is positive when the total is not negative, and paying one leaves it above \<open>- 1\<close>.
  Once a request has completed the weights sum to one and a choice costs what it brings.
\<close>

definition weighted_bal :: "'m weighted \<Rightarrow> bool" where
  "weighted_bal s \<longleftrightarrow> weighted_inv s \<and> 1 \<le> wsum wb_Weight (wt_BackEnds s)
     \<and> 0 \<le> wsum wb_Emergency (wt_BackEnds s) \<and> (\<forall>b \<in> set (wt_BackEnds s). - 1 < wb_Emergency b)"

definition weighted_settled :: "'m weighted \<Rightarrow> bool" where
  "weighted_settled s \<longleftrightarrow> wsum wb_Weight (wt_BackEnds s) = 1"

lemma sum_list_le_max:
  fixes f :: "'a \<Rightarrow> real"
  assumes "\<forall>x \<in> set xs. f x \<le> m"
  shows "sum_list (map f xs) \<le> real (length xs) * m"
  using assms by (induction xs) (auto simp: algebra_simps)

lemma weighted_Choose_bal:
  assumes "weighted_bal s" and "weighted_Choose s = (Ret k, s1)"
  shows "weighted_bal s1" and "map wb_Weight (wt_BackEnds s1) = map wb_Weight (wt_BackEnds s)"
    and "weighted_settled s \<Longrightarrow> wsum wb_Emergency (wt_BackEnds s1) = wsum wb_Emergency (wt_BackEnds s)"
proof -
  let ?bs = "wt_BackEnds s"
  have inv: "weighted_inv s" and W: "1 \<le> wsum wb_Weight ?bs" and E: "0 \<le> wsum wb_Emergency ?bs"
    and low: "\<forall>b \<in> set ?bs. - 1 < wb_Emergency b" using assms(1) by (auto simp: weighted_bal_def)
  have c: "k < length ?bs" "map wb_Weight (wt_BackEnds s1) = map wb_Weight ?bs"
      "wt_SearchTime s1 = wt_SearchTime s"
      "wsum wb_Emergency (wt_BackEnds s1) = wsum wb_Emergency ?bs + wsum wb_Weight ?bs - 1"
      "\<forall>b \<in> set ?bs. wb_Emergency b + wb_Weight b \<le> wb_Emergency (?bs ! k) + wb_Weight (?bs ! k)"
      "wt_BackEnds s1 = (wbe.grown ?bs)[k := wb_AddEmergency (- 1) (wbe.grown ?bs ! k)]"
    using weighted_Choose_spec [OF inv] assms(2) by (auto simp: weighted_Size_def)
  have "wsum wb_Emergency ?bs + wsum wb_Weight ?bs = wsum (\<lambda>b. wb_Emergency b + wb_Weight b) ?bs"
    by (simp add: sum_list_addf)
  also have "\<dots> \<le> real (length ?bs) * (wb_Emergency (?bs ! k) + wb_Weight (?bs ! k))"
    by (rule sum_list_le_max [OF c(5)])
  finally have "0 < real (length ?bs) * (wb_Emergency (?bs ! k) + wb_Weight (?bs ! k))" using W E by linarith
  then have "0 < wb_Emergency (?bs ! k) + wb_Weight (?bs ! k)" by (auto simp: zero_less_mult_iff)
  then have k: "- 1 < wb_Emergency (wb_AddEmergency (- 1) (wbe.grown ?bs ! k))"
    using c(1) by (simp add: wb_AddEmergency_def)
  have "\<forall>b \<in> set (wbe.grown ?bs). - 1 < wb_Emergency b"
    using low inv by (force simp: wb_AddEmergency_def weighted_inv_def w_backend_inv_def)
  then have "\<forall>b \<in> set (wt_BackEnds s1). - 1 < wb_Emergency b" unfolding c(6) using k by (rule set_update_all)
  moreover have "weighted_inv s1" using inv c(1-3) by (auto simp: weighted_inv_weights)
  ultimately show "weighted_bal s1" using W E c(2,4) by (simp add: weighted_bal_def)
  show "map wb_Weight (wt_BackEnds s1) = map wb_Weight ?bs" by (rule c(2))
  show "weighted_settled s \<Longrightarrow> wsum wb_Emergency (wt_BackEnds s1) = wsum wb_Emergency ?bs"
    using c(4) by (simp add: weighted_settled_def)
qed

text \<open>What every operation keeps of the total, once it is settled.\<close>

definition weighted_keeps :: "'m weighted \<Rightarrow> 'm weighted \<Rightarrow> bool" where
  "weighted_keeps s s' \<longleftrightarrow> weighted_bal s' \<and> weighted_Size s' = weighted_Size s
     \<and> (weighted_settled s \<longrightarrow> weighted_settled s' \<and> wsum wb_Emergency (wt_BackEnds s') = wsum wb_Emergency (wt_BackEnds s))"

lemma weighted_keeps_trans: "weighted_keeps s t \<Longrightarrow> weighted_keeps t u \<Longrightarrow> weighted_keeps s u"
  by (auto simp: weighted_keeps_def)

lemma weighted_Choose_keeps:
  assumes "weighted_bal s" and "weighted_Choose s = (Ret k, s1)"
  shows "weighted_keeps s (s1\<lparr>wt_random := rnd\<rparr>)"
  using weighted_Choose_bal [OF assms] map_eq_imp_length_eq [OF weighted_Choose_bal(2) [OF assms]]
  by (simp add: weighted_keeps_def weighted_bal_def weighted_inv_def weighted_settled_def weighted_Size_def)

lemma weighted_try_keeps:
  "weighted_bal s \<Longrightarrow> weighted_try n s = (r, s') \<Longrightarrow> weighted_keeps s s'"
proof (induction n arbitrary: s)
  case (Suc n)
  obtain k s1 where c: "weighted_Choose s = (Ret k, s1)"
    using weighted_Choose_spec Suc.prems(1) unfolding weighted_bal_def by blast
  let ?s2 = "s1\<lparr>wt_random := stl (wt_random s1)\<rparr>"
  have k: "weighted_keeps s ?s2" by (rule weighted_Choose_keeps [OF Suc.prems(1) c])
  then have "weighted_bal ?s2" by (simp add: weighted_keeps_def)
  with Suc.IH [of ?s2] Suc.prems(2) c k show ?case by (auto simp: Let_def split: if_splits dest: weighted_keeps_trans)
qed (simp add: weighted_keeps_def)

lemma weighted_DoNext_keeps:
  assumes "weighted_bal s" and "weighted_DoNext h a s = (r, s')"
  shows "weighted_keeps s s'" and "r \<in> (Ret \<circ> Some) ` {..<weighted_Size s}"
proof -
  obtain q t where t: "weighted_try (weighted_Size s - 1) s = (q, t)" by fastforce
  have "weighted_Size s \<noteq> 0" using assms(1) by (simp add: weighted_bal_def weighted_inv_def weighted_Size_def)
  then have "s' = t" using assms(2) t by (simp add: weighted_DoNext_def split: outcome.splits option.splits)
  then show "weighted_keeps s s'" using weighted_try_keeps [OF assms(1) t] by simp
  show "r \<in> (Ret \<circ> Some) ` {..<weighted_Size s}"
    using weighted_next [of s h a] assms by (auto simp: weighted_bal_def)
qed

lemma weighted_reports_keep:
  assumes "weighted_bal s" and "i < weighted_Size s"
  shows "weighted_keeps s (weighted_OnComplete t i s) \<and> weighted_settled (weighted_OnComplete t i s)"
    and "weighted_keeps s (weighted_OnFail t i s)"
proof -
  have inv: "weighted_inv s" and i: "i < length (wt_BackEnds s)"
    using assms by (simp_all add: weighted_bal_def weighted_Size_def)
  have E: "map wb_Emergency (wt_BackEnds (weighted_OnComplete t i s)) = map wb_Emergency (wt_BackEnds s)"
      "map wb_Emergency (wt_BackEnds (weighted_OnFail t i s)) = map wb_Emergency (wt_BackEnds s)"
      "map wb_Weight (wt_BackEnds (weighted_OnFail t i s)) = map wb_Weight (wt_BackEnds s)"
    using i by (simp_all add: weighted_OnComplete_def weighted_OnFail_def weighted_Normalize_def Let_def map_update
        list_update_same_conv comp_def)
  have low: "\<forall>x \<in> set (map wb_Emergency (wt_BackEnds s)). - 1 < x" using assms(1) by (simp add: weighted_bal_def)
  have low1: "\<forall>b \<in> set (wt_BackEnds (weighted_OnComplete t i s)). - 1 < wb_Emergency b"
    using low [folded E(1)] by simp
  have low2: "\<forall>b \<in> set (wt_BackEnds (weighted_OnFail t i s)). - 1 < wb_Emergency b" using low [folded E(2)] by simp
  show "weighted_keeps s (weighted_OnComplete t i s) \<and> weighted_settled (weighted_OnComplete t i s)"
    using weighted_OnComplete_spec [OF inv assms(2), of t] assms(1) low1
    by (simp add: weighted_keeps_def weighted_bal_def weighted_settled_def E)
  show "weighted_keeps s (weighted_OnFail t i s)"
    using weighted_OnFail_spec [OF inv assms(2), of t] assms(1) low2
    by (simp add: weighted_keeps_def weighted_bal_def weighted_settled_def E)
qed

lemma weighted_events_keep:
  assumes "fold (be_event_step weighted_ops) evs (ps, s) = (ps', s')" and "weighted_bal s"
    and "\<forall>e \<in> set evs. ev_ok (weighted_Size s) e"
  shows "weighted_keeps s s'" and "set ps' \<subseteq> set ps \<union> (Ret \<circ> Some) ` {..<weighted_Size s}"
    and "\<exists>t i. Completed t i \<in> set evs \<Longrightarrow> weighted_settled s'"
proof -
  have "weighted_keeps s s' \<and> set ps' \<subseteq> set ps \<union> (Ret \<circ> Some) ` {..<weighted_Size s}
      \<and> ((\<exists>t i. Completed t i \<in> set evs) \<longrightarrow> weighted_settled s')"
    using assms
  proof (induction evs arbitrary: ps s)
    case (Cons e evs)
    obtain qs u where u: "be_event_step weighted_ops e (ps, s) = (qs, u)" by fastforce
    have step: "weighted_keeps s u \<and> set qs \<subseteq> set ps \<union> (Ret \<circ> Some) ` {..<weighted_Size s}
        \<and> ((\<exists>t i. e = Completed t i) \<longrightarrow> weighted_settled u)"
      using u Cons.prems(2,3) weighted_DoNext_keeps [OF Cons.prems(2)] weighted_reports_keep [OF Cons.prems(2)]
      by (cases e) (auto simp: weighted_ops_def split: prod.splits)
    then have "weighted_bal u" "weighted_Size u = weighted_Size s" by (simp_all add: weighted_keeps_def)
    with Cons.IH [of qs u] Cons.prems(1,3) u have "weighted_keeps u s'"
        "set ps' \<subseteq> set qs \<union> (Ret \<circ> Some) ` {..<weighted_Size s}"
        "(\<exists>t i. Completed t i \<in> set evs) \<longrightarrow> weighted_settled s'" by simp_all
    moreover have "weighted_settled u \<longrightarrow> weighted_settled s'" using calculation(1) by (simp add: weighted_keeps_def)
    moreover have "weighted_keeps s s'" using step calculation(1) weighted_keeps_trans by blast
    ultimately show ?case using step by auto
  qed (simp add: weighted_keeps_def)
  then show "weighted_keeps s s'" and "set ps' \<subseteq> set ps \<union> (Ret \<circ> Some) ` {..<weighted_Size s}"
    and "\<exists>t i. Completed t i \<in> set evs \<Longrightarrow> weighted_settled s'" by blast+
qed

lemma CreateWeighted_bal:
  assumes "CreateWeighted fromString loader rnd c = Ret s" and "c \<noteq> []"
  shows "weighted_bal s" and "weighted_Size s = length c"
proof -
  show sz: "weighted_Size s = length c"
    using ForEach_Add_backend_size [where sz = weighted_Size, OF assms(1) [unfolded CreateWeighted_def]]
    by (simp add: weighted_Size_def weighted_Add_def)
  have new: "(\<forall>b \<in> set (wt_BackEnds s). wb_Weight b = 1 \<and> wb_Emergency b = 0)
      \<and> wt_SearchTime s = mvt_new 1000000 (99 / 100)"
    by (rule ForEach_Add_backend [OF assms(1) [unfolded CreateWeighted_def]])
      (auto simp: weighted_Add_def w_backend_new_def)
  have "map wb_Weight (wt_BackEnds s) = map (\<lambda>_. 1) (wt_BackEnds s)" using new by simp
  then have "wsum wb_Weight (wt_BackEnds s) = real (length (wt_BackEnds s))"
    by (simp only:) (simp add: sum_list_triv del: map_replicate_const)
  moreover have "map wb_Emergency (wt_BackEnds s) = map (\<lambda>_. 0) (wt_BackEnds s)" using new by simp
  then have "wsum wb_Emergency (wt_BackEnds s) = 0" by (simp only:) (simp add: sum_list_triv del: map_replicate_const)
  ultimately have "wsum wb_Weight (wt_BackEnds s) = real (length (wt_BackEnds s))" "wsum wb_Emergency (wt_BackEnds s) = 0" .
  then show "weighted_bal s"
    using new sz assms(2) by (auto simp: weighted_bal_def weighted_inv_def w_backend_inv_def weighted_Size_def mvt_new_def Suc_le_eq)
qed

lemma weighted_upper:
  assumes "weighted_bal s" and "b \<in> set (wt_BackEnds s)"
  shows "wb_Emergency b \<le> wsum wb_Emergency (wt_BackEnds s) + real (weighted_Size s) - 1"
proof -
  obtain xs ys where s: "wt_BackEnds s = xs @ b # ys" using split_list [OF assms(2)] by blast
  have "- real (length zs) \<le> wsum wb_Emergency zs" if "\<forall>x \<in> set zs. - 1 < wb_Emergency x" for zs :: "'a w_backend list"
    using that by (induction zs) auto
  from this [of xs] this [of ys] show ?thesis using assms(1) by (simp add: weighted_bal_def weighted_Size_def s)
qed

text \<open>
  C34. The weights and emergencies of "weighted", in exact arithmetic, for every history of requests and
  reports since it was created: every request is answered with a backend, no emergency falls to
  \<open>- 1\<close>, and \<open>Choose\<close> takes a backend whose emergency with its weight added is largest. From the first
  completed request on the weights sum to one and the emergencies have a constant sum \<open>T\<close>, whatever
  follows, so every emergency stays between \<open>- 1\<close> and \<open>T + n - 1\<close> for \<open>n\<close> backends.
\<close>

theorem weighted_choose_balanced:
  assumes "CreateWeighted fromString loader rnd c = Ret s0" and "c \<noteq> []"
    and "\<forall>e \<in> set (evs @ evs'). ev_ok (length c) e"
    and "be_run weighted_ops evs s0 = (ps, s)" and "be_run weighted_ops evs' s = (ps', s')"
  shows "set ps \<subseteq> (Ret \<circ> Some) ` {..<length c}
    \<and> (\<forall>b \<in> set (wt_BackEnds s). - 1 < wb_Emergency b)
    \<and> (\<exists>k s2. weighted_Choose s = (Ret k, s2) \<and> k < length c
        \<and> (\<forall>b \<in> set (wt_BackEnds s). wb_Emergency b + wb_Weight b
             \<le> wb_Emergency (wt_BackEnds s ! k) + wb_Weight (wt_BackEnds s ! k)))
    \<and> ((\<exists>t i. Completed t i \<in> set evs) \<longrightarrow>
        (let T = wsum wb_Emergency (wt_BackEnds s) in
         wsum wb_Weight (wt_BackEnds s') = 1 \<and> wsum wb_Emergency (wt_BackEnds s') = T
         \<and> (\<forall>b \<in> set (wt_BackEnds s'). - 1 < wb_Emergency b \<and> wb_Emergency b \<le> T + real (length c) - 1)))"
proof -
  note new = CreateWeighted_bal [OF assms(1,2)]
  note one = weighted_events_keep [OF assms(4) [unfolded be_run_def] new(1)]
  have ev: "\<forall>e \<in> set evs. ev_ok (weighted_Size s0) e" using assms(3) new(2) by simp
  have bal: "weighted_bal s" "weighted_Size s = length c"
    using one(1) [OF ev] new(2) by (simp_all add: weighted_keeps_def)
  have ev': "\<forall>e \<in> set evs'. ev_ok (weighted_Size s) e" using assms(3) bal(2) by simp
  note two = weighted_events_keep(1) [OF assms(5) [unfolded be_run_def] bal(1) ev']
  have "wb_Emergency b \<le> wsum wb_Emergency (wt_BackEnds s') + real (length c) - 1" if "b \<in> set (wt_BackEnds s')" for b
    using weighted_upper [OF _ that] two bal(2) by (simp add: weighted_keeps_def)
  moreover have "\<forall>b \<in> set (wt_BackEnds s'). - 1 < wb_Emergency b" using two by (simp add: weighted_keeps_def weighted_bal_def)
  moreover have "wsum wb_Weight (wt_BackEnds s') = 1 \<and> wsum wb_Emergency (wt_BackEnds s') = wsum wb_Emergency (wt_BackEnds s)"
    if "\<exists>t i. Completed t i \<in> set evs"
    using two one(3) [OF ev that] by (simp add: weighted_keeps_def weighted_settled_def)
  moreover have "set ps \<subseteq> (Ret \<circ> Some) ` {..<length c}" using one(2) [OF ev] new(2) by simp
  moreover have "\<forall>b \<in> set (wt_BackEnds s). - 1 < wb_Emergency b" using bal(1) by (simp add: weighted_bal_def)
  moreover have "\<exists>k s2. weighted_Choose s = (Ret k, s2) \<and> k < length c
        \<and> (\<forall>b \<in> set (wt_BackEnds s). wb_Emergency b + wb_Weight b
             \<le> wb_Emergency (wt_BackEnds s ! k) + wb_Weight (wt_BackEnds s ! k))"
    using weighted_Choose_spec [of s] bal unfolding weighted_bal_def by auto
  ultimately show ?thesis unfolding Let_def by metis
qed

theorem weighted_choose_balanced_witness:
  "\<exists>s0 ps s ps' s'. CreateWeighted (\<lambda>_. Ret 2) (AddHandle \<lparr>h_Name = ''proxy'', h_Construct = (\<lambda>_. Ret ())\<rparr> (factory_new None))
      (sconst 0) [(''1'', CfgTable [(''proxy'', CfgTable [])]), (''2'', CfgTable [(''proxy'', CfgTable [])])] = Ret s0
    \<and> be_run weighted_ops [AskNext 0 0, Completed 7 1] s0 = (ps, s)
    \<and> be_run weighted_ops [AskNext 0 0, Failed 7 0] s = (ps', s')
    \<and> wsum wb_Weight (wt_BackEnds s') = 1 \<and> wsum wb_Emergency (wt_BackEnds s') = wsum wb_Emergency (wt_BackEnds s)"
proof -
  let ?c = "[(''1'', CfgTable [(''proxy'', CfgTable [])]), (''2'', CfgTable [(''proxy'', CfgTable [])])]"
  let ?l = "AddHandle \<lparr>h_Name = ''proxy'', h_Construct = (\<lambda>_. Ret ())\<rparr> (factory_new None)"
  obtain s0 where new: "CreateWeighted (\<lambda>_. Ret 2) ?l (sconst 0) ?c = Ret s0"
    by (simp add: CreateWeighted_def ForEach_def Add_backend_def descriptor_new_def descriptor_DoConsume_def
        ON_KEY_def MustLoad_def Load_def factory_new_def)
  obtain ps s where s: "be_run weighted_ops [AskNext 0 0, Completed 7 1] s0 = (ps, s)" by fastforce
  obtain ps' s' where s': "be_run weighted_ops [AskNext 0 0, Failed 7 0] s = (ps', s')" by fastforce
  from weighted_choose_balanced [OF new _ _ s s'] new s s' show ?thesis by (auto simp: Let_def)
qed

end
