(* ===== verification/Weighted2.thy ===== *)
theory Weighted2
  imports Selection
begin

text \<open>
  The algorithm "weighted2" (web/httpd/modules/balancer/weighted2.cpp): weighted round robin by
  emergencies, with weights corrected after each answer by the quality of the backend relative to
  the average and kept inside configured bounds. The clock is a stream of readings in the state.
  A quotient by zero, which the code would compute as an infinity or NaN, is zero in the model.
\<close>

datatype estimator = AnswerTimeQuality | SlowAnswerTimeQuality

fun est_OnComplete :: "estimator \<Rightarrow> ui64 \<Rightarrow> real" where
  "est_OnComplete AnswerTimeQuality answerTime =
     (if answerTime > 1000000 then 0 else 1 / (1 + real (unat answerTime) / 1000000))"
| "est_OnComplete SlowAnswerTimeQuality answerTime = (if answerTime > 800000 then 0 else 1)"

fun est_OnFail :: "estimator \<Rightarrow> ui64 \<Rightarrow> real" where
  "est_OnFail AnswerTimeQuality answerTime = 0"
| "est_OnFail SlowAnswerTimeQuality answerTime = 0"

record corr_params =
  cp_MinWeight :: real
  cp_MaxWeight :: real
  cp_PlusDiff :: real
  cp_MinusDiff :: real
  cp_HistoryTime :: ui64
  cp_FeedbackTime :: ui64

definition corr_params_new :: corr_params where
  "corr_params_new = \<lparr>cp_MinWeight = 5 / 100, cp_MaxWeight = 5, cp_PlusDiff = 5 / 100, cp_MinusDiff = 1 / 10,
     cp_HistoryTime = 20000000, cp_FeedbackTime = 100000000\<rparr>"

definition corr_params_DoConsume ::
  "(string \<Rightarrow> real outcome) \<Rightarrow> (string \<Rightarrow> ui64 outcome) \<Rightarrow> string \<Rightarrow> cfg_value \<Rightarrow> corr_params \<Rightarrow> corr_params outcome" where
  "corr_params_DoConsume fromReal fromDuration key v p =
     ON_KEY ''min_weight'' fromReal (\<lambda>x p. p\<lparr>cp_MinWeight := x\<rparr>) key v p
    (ON_KEY ''max_weight'' fromReal (\<lambda>x p. p\<lparr>cp_MaxWeight := x\<rparr>) key v p
    (ON_KEY ''plus_diff_per_sec'' fromReal (\<lambda>x p. p\<lparr>cp_PlusDiff := x\<rparr>) key v p
    (ON_KEY ''minus_diff_per_sec'' fromReal (\<lambda>x p. p\<lparr>cp_MinusDiff := x\<rparr>) key v p
    (ON_KEY ''history_time'' fromDuration (\<lambda>x p. p\<lparr>cp_HistoryTime := x\<rparr>) key v p
    (ON_KEY ''feedback_time'' fromDuration (\<lambda>x p. p\<lparr>cp_FeedbackTime := x\<rparr>) key v p
    (Throw ConfigParseError))))))"

record 'm w2_backend =
  w2_BackEnd :: "'m descriptor"
  w2_Weight :: real
  w2_Emergency :: real
  w2_QualityData :: tla
  w2_LastCheckedWeight :: real
  w2_LastCheckedTime :: ui64
  w2_Fail :: ui64
  w2_Succ :: ui64

record 'm weighted2 =
  w2_BackEnds :: "'m w2_backend list"
  w2_Params :: corr_params
  w2_Estimator :: "estimator option"
  w2_clock :: "ui64 stream"

text \<open>The initial memory of the fields no constructor sets.\<close>

record w2_garbage =
  g_V :: "real list"
  g_Sum :: real
  g_Fail :: ui64
  g_Succ :: ui64

definition w2_Add :: "w2_garbage \<Rightarrow> 'm descriptor \<Rightarrow> 'm weighted2 \<Rightarrow> 'm weighted2" where
  "w2_Add g descr s =
     s\<lparr>w2_BackEnds := w2_BackEnds s @
         [\<lparr>w2_BackEnd = descr, w2_Weight = 1, w2_Emergency = 0,
           w2_QualityData = tla_new 1000 (g_V g) (g_Sum g) (cp_HistoryTime (w2_Params s)),
           w2_LastCheckedWeight = 1, w2_LastCheckedTime = shd (w2_clock s),
           w2_Fail = g_Fail g, w2_Succ = g_Succ g\<rparr>],
       w2_clock := stl (w2_clock s)\<rparr>"

definition w2_DoConsume ::
  "(string \<Rightarrow> real outcome) \<Rightarrow> (string \<Rightarrow> ui64 outcome) \<Rightarrow> 'm factory \<Rightarrow> w2_garbage
   \<Rightarrow> string \<Rightarrow> cfg_value \<Rightarrow> 'm weighted2 \<Rightarrow> 'm weighted2 outcome" where
  "w2_DoConsume fromReal fromDuration loader g key v s =
     (if key = ''correction_params'' then
        obind (AsSubConfig v) (\<lambda>sub.
        obind (ForEach (corr_params_DoConsume fromReal fromDuration) sub (w2_Params s)) (\<lambda>p.
          Ret (s\<lparr>w2_Params := p\<rparr>)))
      else if key = ''quality'' then
        obind (AsString v) (\<lambda>q.
          if q = ''answer_time'' then Ret (s\<lparr>w2_Estimator := Some AnswerTimeQuality\<rparr>)
          else if q = ''slow_answer_time'' then Ret (s\<lparr>w2_Estimator := Some SlowAnswerTimeQuality\<rparr>)
          else Throw ConfigParseError)
      else Add_backend fromReal loader (w2_Add g) key v s)"

definition CreateWeighted2 ::
  "(string \<Rightarrow> real outcome) \<Rightarrow> (string \<Rightarrow> ui64 outcome) \<Rightarrow> 'm factory \<Rightarrow> w2_garbage \<Rightarrow> ui64 stream \<Rightarrow> cfg
   \<Rightarrow> 'm weighted2 outcome" where
  "CreateWeighted2 fromReal fromDuration loader g clk c =
     obind (ForEach (w2_DoConsume fromReal fromDuration loader g) c
         \<lparr>w2_BackEnds = [], w2_Params = corr_params_new, w2_Estimator = None, w2_clock = clk\<rparr>)
       (\<lambda>s. Ret (if w2_Estimator s = None then s\<lparr>w2_Estimator := Some AnswerTimeQuality\<rparr> else s))"

section \<open>Operations\<close>

definition w2_AddEmergency :: "real \<Rightarrow> 'm w2_backend \<Rightarrow> 'm w2_backend" where
  "w2_AddEmergency extra b = b\<lparr>w2_Emergency := w2_Emergency b + extra\<rparr>"

definition w2_upd :: "nat \<Rightarrow> ('m w2_backend \<Rightarrow> 'm w2_backend) \<Rightarrow> 'm weighted2 \<Rightarrow> 'm weighted2" where
  "w2_upd i f s = s\<lparr>w2_BackEnds := (w2_BackEnds s)[i := f (w2_BackEnds s ! i)]\<rparr>"

definition w2_Now :: "'m weighted2 \<Rightarrow> ui64 \<times> 'm weighted2" where
  "w2_Now s = (shd (w2_clock s), s\<lparr>w2_clock := stl (w2_clock s)\<rparr>)"

definition w2_GetQuality :: "nat \<Rightarrow> 'm weighted2 \<Rightarrow> (real \<times> nat) \<times> 'm weighted2" where
  "w2_GetQuality i s =
     (let (now, s1) = w2_Now s; (r, t) = tla_Get 1000 now (w2_QualityData (w2_BackEnds s1 ! i))
      in (r, w2_upd i (\<lambda>b. b\<lparr>w2_QualityData := t\<rparr>) s1))"

fun w2_quality_loop :: "nat list \<Rightarrow> real \<Rightarrow> nat \<Rightarrow> 'm weighted2 \<Rightarrow> real \<times> nat \<times> 'm weighted2" where
  "w2_quality_loop [] acc cnt s = (acc, cnt, s)"
| "w2_quality_loop (i # is) acc cnt s =
     (let ((q, n), s1) = w2_GetQuality i s in w2_quality_loop is (acc + q) (cnt + n) s1)"

definition w2_GetAvgQuality :: "'m weighted2 \<Rightarrow> real \<times> 'm weighted2" where
  "w2_GetAvgQuality s =
     (case w2_quality_loop [0..<length (w2_BackEnds s)] 0 0 s of
        (acc, cnt, s1) \<Rightarrow>
          (if cnt \<noteq> 0 then max (min (real cnt) acc) 0 / real cnt else 1, s1))"

text \<open>
  The weight \<open>Correct\<close> computes from what it has read, in exact arithmetic. A division by zero, which a history
  or a feedback time below one second or an empty history lead to, is 0 here; in the source it is an
  infinity, which the restrictions cut off, or for \<open>0 / 0\<close> not a number.
\<close>

definition w2_corrected ::
  "corr_params \<Rightarrow> real \<Rightarrow> nat \<Rightarrow> real \<Rightarrow> real \<Rightarrow> real \<Rightarrow> real" where
  "w2_corrected p quality cnt avgQuality curWeight lastWeight =
     (let qps = max (1 / 10) (real cnt / real (unat (cp_HistoryTime p div 1000000)));
          rel = quality / real cnt / max avgQuality (1 / 100000);
          w1 = (if rel > 1 then curWeight * ((rel - 1) * cp_PlusDiff p / qps + 1)
                else curWeight * ((rel - 1) * cp_MinusDiff p / qps + 1));
          w2 = (1 - w1) / real (unat (cp_FeedbackTime p div 1000000)) / qps + w1;
          w3 = min w2 (min (lastWeight * (1 + cp_PlusDiff p)) (cp_MaxWeight p))
      in max w3 (max (lastWeight * (1 - cp_MinusDiff p)) (cp_MinWeight p)))"

definition w2_Correct :: "real \<Rightarrow> real \<Rightarrow> nat \<Rightarrow> 'm weighted2 \<Rightarrow> real \<times> 'm weighted2" where
  "w2_Correct avgQuality curWeight i s =
     (let ((q, n), s1) = w2_GetQuality i s;
          newWeight = w2_corrected (w2_Params s1) q n avgQuality curWeight
                        (w2_LastCheckedWeight (w2_BackEnds s1 ! i));
          (now, s2) = w2_Now s1
      in if now - w2_LastCheckedTime (w2_BackEnds s2 ! i) > 1000000
         then (let (now2, s3) = w2_Now (w2_upd i (\<lambda>b. b\<lparr>w2_LastCheckedWeight := newWeight\<rparr>) s2)
               in (newWeight, w2_upd i (\<lambda>b. b\<lparr>w2_LastCheckedTime := now2\<rparr>) s3))
         else (newWeight, s2))"

text \<open>\<open>TBackEnd::Normalize(c)\<close> and \<open>TBackEnds::Normalize()\<close>.\<close>

definition w2_clamp :: "corr_params \<Rightarrow> real \<Rightarrow> 'm w2_backend \<Rightarrow> 'm w2_backend" where
  "w2_clamp p c b =
     (let w = w2_Weight b * c;
          w' = max (cp_MinWeight p * d_Weight (w2_BackEnd b)) w
      in b\<lparr>w2_Weight := min (cp_MaxWeight p * d_Weight (w2_BackEnd b)) w'\<rparr>)"

definition w2_Normalize :: "'m weighted2 \<Rightarrow> 'm weighted2" where
  "w2_Normalize s =
     (let total = foldl (\<lambda>acc b. acc + w2_Weight b) 0 (w2_BackEnds s);
          startSum = foldl (\<lambda>acc b. acc + d_Weight (w2_BackEnd b)) 0 (w2_BackEnds s)
      in s\<lparr>w2_BackEnds := map (w2_clamp (w2_Params s) (startSum / total)) (w2_BackEnds s)\<rparr>)"

definition w2_estimator :: "'m weighted2 \<Rightarrow> estimator" where
  "w2_estimator s = (case w2_Estimator s of Some e \<Rightarrow> e | None \<Rightarrow> AnswerTimeQuality)"

definition w2_AddQuality :: "real \<Rightarrow> nat \<Rightarrow> 'm weighted2 \<Rightarrow> 'm weighted2" where
  "w2_AddQuality quality i s =
     (let (now, s1) = w2_Now s
      in w2_upd i (\<lambda>b. b\<lparr>w2_QualityData := tla_Add 1000 now quality (w2_QualityData b)\<rparr>) s1)"

definition w2_OnComplete :: "ui64 \<Rightarrow> nat \<Rightarrow> 'm weighted2 \<Rightarrow> 'm weighted2" where
  "w2_OnComplete answerTime i s =
     (let s1 = w2_AddQuality (est_OnComplete (w2_estimator s) answerTime) i s;
          (avg, s2) = w2_GetAvgQuality s1;
          dw = d_Weight (w2_BackEnd (w2_BackEnds s2 ! i));
          (w, s3) = w2_Correct avg (w2_Weight (w2_BackEnds s2 ! i) / dw) i s2;
          s4 = w2_Normalize (w2_upd i (\<lambda>b. b\<lparr>w2_Weight := w * dw\<rparr>) s3)
      in w2_upd i (\<lambda>b. b\<lparr>w2_Succ := w2_Succ b + 1\<rparr>) s4)"

definition w2_OnFail :: "ui64 \<Rightarrow> nat \<Rightarrow> 'm weighted2 \<Rightarrow> 'm weighted2" where
  "w2_OnFail answerTime i s =
     (let s1 = w2_AddQuality (est_OnFail (w2_estimator s) answerTime) i s;
          (avg, s2) = w2_GetAvgQuality s1;
          (w, s3) = w2_Correct avg (w2_Weight (w2_BackEnds s2 ! i)) i s2;
          s4 = w2_Normalize (w2_upd i (\<lambda>b. b\<lparr>w2_Weight := w\<rparr>) s3)
      in w2_upd i (\<lambda>b. b\<lparr>w2_Fail := w2_Fail b + 1\<rparr>) s4)"

definition w2_DoNext :: "ui64 \<Rightarrow> ui64 \<Rightarrow> 'm weighted2 \<Rightarrow> nat option outcome \<times> 'm weighted2" where
  "w2_DoNext h a s =
     (case w2_BackEnds s of
        [] \<Rightarrow> (Crash, s)
      | b # _ \<Rightarrow>
          (case choose_loop w2_Weight w2_Emergency w2_AddEmergency (w2_Emergency b) 0 0 (w2_BackEnds s) of
             (bs, k) \<Rightarrow>
               (let total = foldl (\<lambda>acc b. acc + w2_Weight b) 0 (w2_BackEnds s)
                in (Ret (Some k), s\<lparr>w2_BackEnds := bs[k := w2_AddEmergency (- total) (bs ! k)]\<rparr>))))"

definition w2_Size :: "'m weighted2 \<Rightarrow> nat" where
  "w2_Size s = length (w2_BackEnds s)"

definition w2_Module :: "nat \<Rightarrow> 'm weighted2 \<Rightarrow> 'm" where
  "w2_Module i s = the (d_Module (w2_BackEnd (w2_BackEnds s ! i)))"

definition weighted2_ops :: "('m weighted2, 'm) ibackends" where
  "weighted2_ops = \<lparr>be_DoNext = w2_DoNext, be_Size = w2_Size, be_Module = w2_Module,
     be_OnComplete = w2_OnComplete, be_OnFail = w2_OnFail\<rparr>"

section \<open>Weights stay inside their bounds\<close>

text \<open>What the bookkeeping calls leave alone: the weights, the configuration and the parameters.\<close>

definition w2_core :: "'m weighted2 \<Rightarrow> (real \<times> 'm descriptor) list \<times> corr_params" where
  "w2_core s = (map (\<lambda>b. (w2_Weight b, w2_BackEnd b)) (w2_BackEnds s), w2_Params s)"

lemma w2_core_upd:
  assumes "i < w2_Size s" and "\<And>b. w2_Weight (f b) = w2_Weight b" and "\<And>b. w2_BackEnd (f b) = w2_BackEnd b"
  shows "w2_core (w2_upd i f s) = w2_core s"
  using assms by (simp add: w2_core_def w2_upd_def map_update w2_Size_def list_update_same_conv)

lemma w2_core_Size: "w2_core s = w2_core t \<Longrightarrow> w2_Size s = w2_Size t"
  by (simp add: w2_core_def w2_Size_def) (metis length_map)

lemma w2_core_Now [simp]: "w2_core (snd (w2_Now s)) = w2_core s" "w2_Size (snd (w2_Now s)) = w2_Size s"
  by (simp_all add: w2_core_def w2_Now_def w2_Size_def)

lemma w2_core_GetQuality: "i < w2_Size s \<Longrightarrow> w2_core (snd (w2_GetQuality i s)) = w2_core s"
  using w2_core_upd [of i "snd (w2_Now s)"] by (simp add: w2_GetQuality_def Let_def case_prod_beta)

lemma w2_core_quality_loop:
  "\<forall>i \<in> set is. i < w2_Size s \<Longrightarrow> w2_core (snd (snd (w2_quality_loop is acc cnt s))) = w2_core s"
proof (induction "is" arbitrary: acc cnt s)
  case (Cons i "is")
  let ?s1 = "snd (w2_GetQuality i s)"
  have c: "w2_core ?s1 = w2_core s" using Cons.prems by (intro w2_core_GetQuality) simp
  then have "\<forall>i \<in> set is. i < w2_Size ?s1" using Cons.prems w2_core_Size [OF c] by simp
  from Cons.IH [OF this] c show ?case by (simp add: Let_def case_prod_beta)
qed simp

lemma w2_core_GetAvgQuality: "w2_core (snd (w2_GetAvgQuality s)) = w2_core s"
  using w2_core_quality_loop [of "[0..<length (w2_BackEnds s)]" s 0 0]
  by (simp add: w2_GetAvgQuality_def case_prod_beta w2_Size_def)

lemma w2_core_AddQuality: "i < w2_Size s \<Longrightarrow> w2_core (w2_AddQuality q i s) = w2_core s"
  using w2_core_upd [of i "snd (w2_Now s)"] by (simp add: w2_AddQuality_def Let_def case_prod_beta)

lemma w2_corrected_min: "cp_MinWeight p \<le> w2_corrected p q n avg cur lw"
  unfolding w2_corrected_def Let_def by (rule max.coboundedI2, rule max.cobounded2)

lemma w2_core_Correct:
  assumes "i < w2_Size s"
  shows "w2_core (snd (w2_Correct avg cur i s)) = w2_core s" and "cp_MinWeight (w2_Params s) \<le> fst (w2_Correct avg cur i s)"
proof -
  let ?s1 = "snd (w2_GetQuality i s)"
  let ?s2 = "snd (w2_Now ?s1)"
  let ?c = "fst (w2_Correct avg cur i s)"
  have c1: "w2_core ?s1 = w2_core s" by (rule w2_core_GetQuality [OF assms])
  then have i: "i < w2_Size ?s2" using w2_core_Size [OF c1] assms by simp
  have upd: "w2_core (w2_upd i (\<lambda>b. b\<lparr>w2_LastCheckedTime := t\<rparr>) (snd (w2_Now
      (w2_upd i (\<lambda>b. b\<lparr>w2_LastCheckedWeight := w\<rparr>) ?s2)))) = w2_core s" for t w
  proof -
    have a: "w2_core (w2_upd i (\<lambda>b. b\<lparr>w2_LastCheckedWeight := w\<rparr>) ?s2) = w2_core s"
      using w2_core_upd [OF i] c1 by simp
    then have "i < w2_Size (snd (w2_Now (w2_upd i (\<lambda>b. b\<lparr>w2_LastCheckedWeight := w\<rparr>) ?s2)))"
      using w2_core_Size [OF a] assms by simp
    from w2_core_upd [OF this] a show ?thesis by simp
  qed
  show "w2_core (snd (w2_Correct avg cur i s)) = w2_core s"
    using upd c1 by (simp add: w2_Correct_def Let_def case_prod_beta)
  have "w2_Params ?s1 = w2_Params s" using c1 by (simp add: w2_core_def)
  moreover have "\<exists>q n lw. ?c = w2_corrected (w2_Params ?s1) q n avg cur lw"
    by (auto simp: w2_Correct_def Let_def case_prod_beta)
  ultimately show "cp_MinWeight (w2_Params s) \<le> ?c" using w2_corrected_min by metis
qed

definition w2_inv :: "'m weighted2 \<Rightarrow> bool" where
  "w2_inv s \<longleftrightarrow> w2_BackEnds s \<noteq> []
     \<and> (\<forall>b \<in> set (w2_BackEnds s). 0 < w2_Weight b \<and> 0 < d_Weight (w2_BackEnd b))
     \<and> 0 < cp_MinWeight (w2_Params s) \<and> cp_MinWeight (w2_Params s) \<le> cp_MaxWeight (w2_Params s)"

definition w2_bounded :: "'m weighted2 \<Rightarrow> bool" where
  "w2_bounded s \<longleftrightarrow> (\<forall>b \<in> set (w2_BackEnds s).
     cp_MinWeight (w2_Params s) * d_Weight (w2_BackEnd b) \<le> w2_Weight b
     \<and> w2_Weight b \<le> cp_MaxWeight (w2_Params s) * d_Weight (w2_BackEnd b))"

lemma w2_inv_core:
  "w2_inv s \<longleftrightarrow> fst (w2_core s) \<noteq> [] \<and> (\<forall>(w, d) \<in> set (fst (w2_core s)). 0 < w \<and> 0 < d_Weight d)
     \<and> 0 < cp_MinWeight (snd (w2_core s)) \<and> cp_MinWeight (snd (w2_core s)) \<le> cp_MaxWeight (snd (w2_core s))"
  by (auto simp: w2_inv_def w2_core_def)

lemma w2_bounded_core:
  "w2_bounded s \<longleftrightarrow> (\<forall>(w, d) \<in> set (fst (w2_core s)). cp_MinWeight (snd (w2_core s)) * d_Weight d \<le> w
     \<and> w \<le> cp_MaxWeight (snd (w2_core s)) * d_Weight d)"
  by (auto simp: w2_bounded_def w2_core_def)

lemma w2_clamp_bounds:
  assumes "0 < d_Weight (w2_BackEnd b)" and "cp_MinWeight p \<le> cp_MaxWeight p"
  shows "cp_MinWeight p * d_Weight (w2_BackEnd b) \<le> w2_Weight (w2_clamp p c b)"
    and "w2_Weight (w2_clamp p c b) \<le> cp_MaxWeight p * d_Weight (w2_BackEnd b)"
    and "w2_BackEnd (w2_clamp p c b) = w2_BackEnd b"
  using assms mult_right_mono [of "cp_MinWeight p" "cp_MaxWeight p" "d_Weight (w2_BackEnd b)"]
  by (simp_all add: w2_clamp_def Let_def)

lemma w2_Normalize_bounds:
  assumes "w2_inv s"
  shows "w2_inv (w2_Normalize s)" and "w2_bounded (w2_Normalize s)" and "w2_Size (w2_Normalize s) = w2_Size s"
proof -
  let ?p = "w2_Params s"
  obtain c where eq: "w2_Normalize s = s\<lparr>w2_BackEnds := map (w2_clamp ?p c) (w2_BackEnds s)\<rparr>"
    by (simp add: w2_Normalize_def Let_def)
  show bd: "w2_bounded (w2_Normalize s)"
    using assms by (auto simp: eq w2_bounded_def w2_inv_def w2_clamp_bounds)
  have "0 < w2_Weight (w2_clamp ?p c b)" if "b \<in> set (w2_BackEnds s)" for b
  proof -
    have b: "0 < d_Weight (w2_BackEnd b)" "0 < cp_MinWeight ?p" "cp_MinWeight ?p \<le> cp_MaxWeight ?p"
      using assms that by (auto simp: w2_inv_def)
    have "0 < cp_MinWeight ?p * d_Weight (w2_BackEnd b)" using b by simp
    also have "\<dots> \<le> w2_Weight (w2_clamp ?p c b)" by (rule w2_clamp_bounds(1) [OF b(1,3)])
    finally show ?thesis .
  qed
  then show "w2_inv (w2_Normalize s)"
    using assms by (auto simp: eq w2_inv_def w2_clamp_bounds)
  show "w2_Size (w2_Normalize s) = w2_Size s" by (simp add: eq w2_Size_def)
qed

text \<open>Both reports end with a positive new weight, \<open>Normalize\<close> and a counter.\<close>

lemma w2_report:
  assumes s: "w2_inv s" and i: "i < w2_Size s" and core: "w2_core s3 = w2_core s" and w: "0 < w"
    and f: "\<And>b. w2_Weight (f b) = w2_Weight b" "\<And>b. w2_BackEnd (f b) = w2_BackEnd b"
  defines "r \<equiv> w2_upd i f (w2_Normalize (w2_upd i (\<lambda>b. b\<lparr>w2_Weight := w\<rparr>) s3))"
  shows "w2_inv r" and "w2_bounded r" and "w2_Size r = w2_Size s"
proof -
  let ?s4 = "w2_upd i (\<lambda>b. b\<lparr>w2_Weight := w\<rparr>) s3"
  have s3: "w2_inv s3" "i < w2_Size s3" "w2_Size s3 = w2_Size s"
    using s i core w2_core_Size [OF core] by (simp_all add: w2_inv_core)
  have b: "0 < d_Weight (w2_BackEnd (w2_BackEnds s3 ! i))" using s3(1,2) by (simp add: w2_inv_def w2_Size_def)
  have "\<forall>b \<in> set (w2_BackEnds ?s4). 0 < w2_Weight b \<and> 0 < d_Weight (w2_BackEnd b)"
    unfolding w2_upd_def using s3(1) w b by (simp add: w2_inv_def) (rule set_update_all; simp)
  then have "w2_inv ?s4" using s3(1) by (simp add: w2_inv_def w2_upd_def)
  note n = w2_Normalize_bounds [OF this]
  have size: "w2_Size ?s4 = w2_Size s" using s3(3) by (simp add: w2_upd_def w2_Size_def)
  then have "i < w2_Size (w2_Normalize ?s4)" using n(3) i by simp
  then have c: "w2_core r = w2_core (w2_Normalize ?s4)" unfolding r_def by (intro w2_core_upd f)
  show "w2_inv r" "w2_bounded r" using n(1,2) c by (simp_all add: w2_inv_core w2_bounded_core)
  show "w2_Size r = w2_Size s" using w2_core_Size [OF c] n(3) size by simp
qed

lemma w2_reports:
  assumes s: "w2_inv s" and i: "i < w2_Size s"
  shows "w2_inv (w2_OnComplete t i s) \<and> w2_bounded (w2_OnComplete t i s) \<and> w2_Size (w2_OnComplete t i s) = w2_Size s"
    and "w2_inv (w2_OnFail t i s) \<and> w2_bounded (w2_OnFail t i s) \<and> w2_Size (w2_OnFail t i s) = w2_Size s"
proof -
  have *: "w2_core (snd (w2_Correct avg cur i (snd (w2_GetAvgQuality (w2_AddQuality q i s))))) = w2_core s \<and>
      0 < fst (w2_Correct avg cur i (snd (w2_GetAvgQuality (w2_AddQuality q i s)))) \<and>
      0 < d_Weight (w2_BackEnd (w2_BackEnds (snd (w2_GetAvgQuality (w2_AddQuality q i s))) ! i))" for avg cur q
  proof -
    let ?s2 = "snd (w2_GetAvgQuality (w2_AddQuality q i s))"
    have c: "w2_core ?s2 = w2_core s" by (simp only: w2_core_GetAvgQuality w2_core_AddQuality [OF i])
    then have i2: "i < w2_Size ?s2" and inv2: "w2_inv ?s2"
      using w2_core_Size [OF c] i s by (simp_all add: w2_inv_core)
    have "0 < fst (w2_Correct avg cur i ?s2)"
      using w2_core_Correct(2) [OF i2, of avg cur] inv2 by (simp add: w2_inv_def)
    then show ?thesis
      using w2_core_Correct(1) [OF i2] c inv2 i2 by (simp add: w2_inv_def w2_Size_def)
  qed
  show "w2_inv (w2_OnComplete t i s) \<and> w2_bounded (w2_OnComplete t i s) \<and> w2_Size (w2_OnComplete t i s) = w2_Size s"
    unfolding w2_OnComplete_def Let_def case_prod_beta
    by (intro conjI w2_report [OF s i]) (use * in \<open>simp_all add: mult_pos_pos\<close>)
  show "w2_inv (w2_OnFail t i s) \<and> w2_bounded (w2_OnFail t i s) \<and> w2_Size (w2_OnFail t i s) = w2_Size s"
    unfolding w2_OnFail_def Let_def case_prod_beta
    by (intro conjI w2_report [OF s i]) (use * in simp_all)
qed

section \<open>The draw serves every backend\<close>

interpretation w2e: emergency "w2_Weight :: 'm w2_backend \<Rightarrow> real" w2_Emergency w2_AddEmergency
  by unfold_locales (simp_all add: w2_AddEmergency_def)

abbreviation w2_weights :: "'m weighted2 \<Rightarrow> real list" where
  "w2_weights s \<equiv> map w2_Weight (w2_BackEnds s)"

abbreviation w2_emergencies :: "'m weighted2 \<Rightarrow> real list" where
  "w2_emergencies s \<equiv> map w2_Emergency (w2_BackEnds s)"

lemma w2_next:
  assumes "w2_inv s"
  shows "\<exists>k s'. w2_DoNext h a s = (Ret (Some k), s') \<and> w2_core s' = w2_core s
    \<and> wrr_round (w2_weights s) (w2_emergencies s) k (w2_emergencies s')"
proof -
  obtain b bs where bs: "w2_BackEnds s = b # bs" and w: "0 < w2_Weight b"
    using assms by (cases "w2_BackEnds s") (auto simp: w2_inv_def)
  let ?l = "w2_BackEnds s"
  obtain l k where l: "choose_loop w2_Weight w2_Emergency w2_AddEmergency (w2_Emergency b) 0 0 ?l = (l, k)"
    by fastforce
  have ne: "?l \<noteq> []" and hd: "0 < w2_Weight (hd ?l)"
    "choose_loop w2_Weight w2_Emergency w2_AddEmergency (w2_Emergency (hd ?l)) 0 0 ?l = (l, k)"
    using w l by (simp_all add: bs)
  note spec = w2e.choose_max [OF ne hd]
  let ?S = "wsum w2_Weight ?l"
  let ?s' = "s\<lparr>w2_BackEnds := l[k := w2_AddEmergency (- ?S) (l ! k)]\<rparr>"
  have total: "foldl (\<lambda>acc b. acc + w2_Weight b) 0 ?l = ?S"
    using foldl_add_sum_list [of w2_Weight 0 ?l] by simp
  have eq: "w2_DoNext h a s = (Ret (Some k), ?s')"
    using l total by (simp add: w2_DoNext_def bs)
  have k: "k < length ?l" "k < length l" using spec(1,2) by simp_all
  have nth: "l ! i = w2_AddEmergency (w2_Weight (?l ! i)) (?l ! i)" if "i < length ?l" for i
    using that by (simp add: spec(1))
  have core: "w2_core ?s' = w2_core s"
    unfolding w2_core_def using k
    by (auto simp: spec(1) w2_AddEmergency_def list_eq_iff_nth_eq nth_list_update)
  have max: "w2_Emergency (?l ! i) + w2_Weight (?l ! i) \<le> w2_Emergency (?l ! k) + w2_Weight (?l ! k)"
    if "i < length ?l" for i
  proof -
    have "w2_Emergency (w2e.grown ?l ! i) \<le> w2_Emergency (w2e.grown ?l ! k)"
      using spec(3) that nth_mem [of i "w2e.grown ?l"] by auto
    then show ?thesis using that k by simp
  qed
  have "w2_emergencies ?s' ! i = w2_emergencies s ! i + w2_weights s ! i - (if i = k then ?S else 0)"
    if "i < length ?l" for i
    using that nth [of i] spec(1) by (simp add: nth_list_update)
  then have "wrr_round (w2_weights s) (w2_emergencies s) k (w2_emergencies ?s')"
    using k max spec(1) by (simp add: wrr_round_def)
  with eq core show ?thesis by blast
qed

lemma w2_weights_core: "w2_weights s = map fst (fst (w2_core s))"
  by (simp add: w2_core_def)

lemma weighted2_DoNext [simp]: "be_DoNext weighted2_ops = w2_DoNext"
  by (simp add: weighted2_ops_def)

lemma w2_after:
  assumes "w2_inv s"
  shows "w2_inv (be_after weighted2_ops h a n s) \<and> w2_core (be_after weighted2_ops h a n s) = w2_core s"
proof (induction n)
  case (Suc n)
  let ?t = "be_after weighted2_ops h a n s"
  obtain k s' where "w2_DoNext h (a + of_nat n) ?t = (Ret (Some k), s')" "w2_core s' = w2_core ?t"
    using w2_next Suc.IH by blast
  moreover from this(2) have "w2_inv s' = w2_inv ?t" by (simp only: w2_inv_core)
  ultimately show ?case using Suc.IH by (simp add: be_after_last del: be_after.simps)
qed (use assms in simp)

lemma w2_progress:
  assumes s: "w2_inv s" and j: "j < w2_Size s"
  shows "\<exists>n. be_pick weighted2_ops h a n s = Ret (Some j)"
proof -
  let ?st = "\<lambda>n. be_after weighted2_ops h a n s"
  define k where "k n = (case be_pick weighted2_ops h a n s of Ret (Some i) \<Rightarrow> i | _ \<Rightarrow> 0)" for n
  have step: "be_pick weighted2_ops h a n s = Ret (Some (k n))
      \<and> wrr_round (w2_weights s) (w2_emergencies (?st n)) (k n) (w2_emergencies (?st (Suc n)))" for n
  proof -
    obtain i s' where i: "w2_DoNext h (a + of_nat n) (?st n) = (Ret (Some i), s')"
        "wrr_round (w2_weights (?st n)) (w2_emergencies (?st n)) i (w2_emergencies s')"
      using w2_next w2_after [OF s] by blast
    have "be_pick weighted2_ops h a n s = Ret (Some i)" "?st (Suc n) = s'"
      using i(1) by (simp_all add: be_pick_def be_after_last del: be_after.simps)
    moreover have "w2_weights (?st n) = w2_weights s" using w2_after [OF s] by (simp only: w2_weights_core)
    ultimately show ?thesis using i(2) by (simp add: k_def)
  qed
  have W: "\<forall>w \<in> set (w2_weights s). 0 < w" and j': "j < length (w2_weights s)"
    using s j by (auto simp: w2_inv_def w2_Size_def)
  obtain n where "k n = j"
    using wrr_serves [OF W j', of "\<lambda>n. w2_emergencies (?st n)" k] step by blast
  with step show ?thesis by blast
qed

interpretation wei2: backends_progress "weighted2_ops :: ('m weighted2, 'm) ibackends" w2_inv
proof
  fix s :: "'m weighted2" and h a i t j
  assume s: "w2_inv s"
  obtain k s' where k: "w2_DoNext h a s = (Ret (Some k), s')" "w2_core s' = w2_core s"
      "wrr_round (w2_weights s) (w2_emergencies s) k (w2_emergencies s')"
    using w2_next [OF s] by blast
  then have "k < w2_Size s" "w2_inv s'" "w2_Size s' = w2_Size s"
    using s w2_core_Size [OF k(2)] by (simp_all add: wrr_round_def w2_Size_def w2_inv_core)
  with k(1) show "\<exists>i s'. be_DoNext weighted2_ops h a s = (Ret (Some i), s') \<and> i < be_Size weighted2_ops s
      \<and> w2_inv s' \<and> be_Size weighted2_ops s' = be_Size weighted2_ops s"
    by (simp add: weighted2_ops_def)
  show "i < be_Size weighted2_ops s \<Longrightarrow> w2_inv (be_OnComplete weighted2_ops t i s)
      \<and> be_Size weighted2_ops (be_OnComplete weighted2_ops t i s) = be_Size weighted2_ops s"
    "i < be_Size weighted2_ops s \<Longrightarrow> w2_inv (be_OnFail weighted2_ops t i s)
      \<and> be_Size weighted2_ops (be_OnFail weighted2_ops t i s) = be_Size weighted2_ops s"
    using w2_reports [OF s, of i t] by (simp_all add: weighted2_ops_def)
  show "j < be_Size weighted2_ops s \<Longrightarrow> \<exists>n. be_pick weighted2_ops h a n s = Ret (Some j)"
    using w2_progress [OF s] by (simp add: weighted2_ops_def)
qed

text \<open>
  C29. Smooth weighted round robin starves nobody: from every state with positive weights each
  backend is returned by some later \<open>DoNext\<close>, the calls leave the weights alone, and the sum of
  the emergencies never changes.
\<close>

theorem weighted2_serves_everyone:
  assumes "w2_inv s" and "j < w2_Size s"
  shows "(\<exists>n. be_pick weighted2_ops h a n s = Ret (Some j))
    \<and> (\<exists>k s'. w2_DoNext h a s = (Ret (Some k), s') \<and> w2_weights s' = w2_weights s
         \<and> sum_list (w2_emergencies s') = sum_list (w2_emergencies s))"
proof
  show "\<exists>n. be_pick weighted2_ops h a n s = Ret (Some j)" by (rule w2_progress [OF assms])
  obtain k s' where k: "w2_DoNext h a s = (Ret (Some k), s')" "w2_core s' = w2_core s"
      "wrr_round (w2_weights s) (w2_emergencies s) k (w2_emergencies s')"
    using w2_next [OF assms(1)] by blast
  then show "\<exists>k s'. w2_DoNext h a s = (Ret (Some k), s') \<and> w2_weights s' = w2_weights s
         \<and> sum_list (w2_emergencies s') = sum_list (w2_emergencies s)"
    using wrr_round_sum by (metis w2_weights_core)
qed

text \<open>
  C31. After any completed or failed request every weight of "weighted2" lies between the
  configured minimum and maximum multiples of the backend's own weight, whatever the clock, the
  history of qualities and the uninitialised memory were.
\<close>

theorem weighted2_weights_bounded:
  assumes "w2_inv s" and "i < w2_Size s"
  shows "w2_bounded (w2_OnComplete t i s) \<and> w2_bounded (w2_OnFail t i s)
    \<and> w2_inv (w2_OnComplete t i s) \<and> w2_inv (w2_OnFail t i s)"
  using w2_reports [OF assms, of t] by simp

lemma w2_inv_example:
  "w2_inv (w2_Add g \<lparr>d_Weight = 2, d_Module = Some ()\<rparr> (w2_Add g \<lparr>d_Weight = 1, d_Module = Some ()\<rparr>
     \<lparr>w2_BackEnds = [], w2_Params = corr_params_new, w2_Estimator = None, w2_clock = sconst 0\<rparr>))"
  by (simp add: w2_inv_def w2_Add_def corr_params_new_def)

theorem weighted2_serves_everyone_witness:
  "\<exists>n. be_pick weighted2_ops 0 0 n (w2_Add \<lparr>g_V = [], g_Sum = 0, g_Fail = 0, g_Succ = 0\<rparr>
     \<lparr>d_Weight = 2, d_Module = Some ()\<rparr> (w2_Add \<lparr>g_V = [], g_Sum = 0, g_Fail = 0, g_Succ = 0\<rparr>
     \<lparr>d_Weight = 1, d_Module = Some ()\<rparr>
     \<lparr>w2_BackEnds = [], w2_Params = corr_params_new, w2_Estimator = None, w2_clock = sconst 0\<rparr>)) = Ret (Some 1)"
  using weighted2_serves_everyone [OF w2_inv_example, of 1 "\<lparr>g_V = [], g_Sum = 0, g_Fail = 0, g_Succ = 0\<rparr>" 0 0]
  by (simp add: w2_Size_def w2_Add_def)

theorem weighted2_weights_bounded_witness:
  "w2_bounded (w2_OnFail 5 1 (w2_Add \<lparr>g_V = [], g_Sum = 0, g_Fail = 0, g_Succ = 0\<rparr>
     \<lparr>d_Weight = 2, d_Module = Some ()\<rparr> (w2_Add \<lparr>g_V = [], g_Sum = 0, g_Fail = 0, g_Succ = 0\<rparr>
     \<lparr>d_Weight = 1, d_Module = Some ()\<rparr>
     \<lparr>w2_BackEnds = [], w2_Params = corr_params_new, w2_Estimator = None, w2_clock = sconst 0\<rparr>)))"
  using weighted2_weights_bounded [OF w2_inv_example, of 1 "\<lparr>g_V = [], g_Sum = 0, g_Fail = 0, g_Succ = 0\<rparr>" 5]
  by (simp add: w2_Size_def w2_Add_def)

end
