(* ===== verification/Avltree.thy ===== *)
theory Avltree
  imports Prelude
begin

text \<open>
  The intrusive AVL tree (util/generic/avltree.h). A \<open>TAvlTreeItem\<close> is an element; a subtree with
  its stored \<open>Height_\<close> fields is a value of \<open>'a avl\<close>; a pointer into the tree is a position: the
  subtree it points to and the path of \<open>Parent_\<close> pointers up to the root, innermost frame first.
  Following \<open>Parent_\<close> is taking the first frame. Every loop of the code that climbs is a recursion
  over the path.

  \<open>Compare\<close> is an argument: the balancing algorithms order backends by a weight that changes while
  a backend is outside the tree.
\<close>

section \<open>Trees and positions\<close>

datatype 'a avl = Tip | Nd "'a avl" 'a nat "'a avl"

text \<open>\<open>FrameL x h r\<close>: the hole is \<open>Left_\<close> of \<open>x\<close>; \<open>FrameR l x h\<close>: it is \<open>Right_\<close> of \<open>x\<close>.\<close>

datatype 'a frame = FrameL 'a nat "'a avl" | FrameR "'a avl" 'a nat

type_synonym 'a path = "'a frame list"

fun ht :: "'a avl \<Rightarrow> nat" where
  "ht Tip = 0"
| "ht (Nd l x h r) = h"

fun fill :: "'a frame \<Rightarrow> 'a avl \<Rightarrow> 'a avl" where
  "fill (FrameL x h r) t = Nd t x h r"
| "fill (FrameR l x h) t = Nd l x h t"

fun unzip :: "'a avl \<Rightarrow> 'a path \<Rightarrow> 'a avl" where
  "unzip t [] = t"
| "unzip t (f # fs) = unzip (fill f t) fs"

fun felem :: "'a frame \<Rightarrow> 'a" where
  "felem (FrameL x h r) = x"
| "felem (FrameR l x h) = x"

fun fheight :: "'a frame \<Rightarrow> nat" where
  "fheight (FrameL x h r) = h"
| "fheight (FrameR l x h) = h"

fun fsib :: "'a frame \<Rightarrow> 'a avl" where
  "fsib (FrameL x h r) = r"
| "fsib (FrameR l x h) = l"

fun set_height :: "nat \<Rightarrow> 'a frame \<Rightarrow> 'a frame" where
  "set_height h (FrameL x _ r) = FrameL x h r"
| "set_height h (FrameR l x _) = FrameR l x h"

section \<open>Heights and rotations\<close>

text \<open>\<open>RecalcHeights(el)\<close>: \<open>el\<close> is the first frame, whose child in the hole is \<open>t\<close>.\<close>

fun RecalcHeights :: "'a avl \<Rightarrow> 'a path \<Rightarrow> 'a path" where
  "RecalcHeights t [] = []"
| "RecalcHeights t (f # fs) =
     (let new_height = max (ht t) (ht (fsib f)) + 1 in
      if new_height = fheight f then f # fs
      else (let f' = set_height new_height f in f' # RecalcHeights (fill f' t) fs))"

definition unbalanced :: "nat \<Rightarrow> nat \<Rightarrow> bool" where
  "unbalanced lheight rheight \<longleftrightarrow> int lheight - int rheight < - 1 \<or> int lheight - int rheight > 1"

text \<open>
  \<open>FindFirstUnbalGP(el)\<close> at position \<open>t\<close>, \<open>path\<close>: the first ancestor whose grandparent is
  unbalanced.
\<close>

fun FindFirstUnbalGP :: "'a avl \<Rightarrow> 'a path \<Rightarrow> ('a avl \<times> 'a path) option" where
  "FindFirstUnbalGP t (p # gp # fs) =
     (if unbalanced (fheight p) (ht (fsib gp)) then Some (t, p # gp # fs)
      else FindFirstUnbalGP (fill p t) (gp # fs))"
| "FindFirstUnbalGP t _ = None"

text \<open>
  \<open>FindFirstUnbalEl(el)\<close>, where \<open>el\<close> is the first frame: the position of the first unbalanced
  element on the way up.
\<close>

fun FindFirstUnbalEl :: "'a avl \<Rightarrow> 'a path \<Rightarrow> ('a avl \<times> 'a path) option" where
  "FindFirstUnbalEl t [] = None"
| "FindFirstUnbalEl t (f # fs) =
     (if unbalanced (ht t) (ht (fsib f)) then Some (fill f t, fs)
      else FindFirstUnbalEl (fill f t) fs)"

definition node :: "'a avl \<Rightarrow> 'a \<Rightarrow> 'a avl \<Rightarrow> 'a avl" where
  "node l x r = Nd l x (max (ht l) (ht r) + 1) r"

text \<open>
  \<open>Rebalance(n)\<close>: the position of \<open>n\<close> has at least two frames. The result is the new subtree
  under \<open>ggp\<close> and the path from \<open>ggp\<close> on, with its heights recalculated.
\<close>

fun Rebalance :: "'a avl \<Rightarrow> 'a path \<Rightarrow> ('a avl \<times> 'a path) outcome" where
  "Rebalance n (FrameR t2 b _ # FrameR t1 a _ # ggp) =
     (case n of
        Nd t3 c _ t4 \<Rightarrow>
          (let s = node (node t1 a t2) b (node t3 c t4) in Ret (s, RecalcHeights s ggp))
      | Tip \<Rightarrow> Crash)"
| "Rebalance n (FrameL c _ t4 # FrameR t1 a _ # ggp) =
     (case n of
        Nd t2 b _ t3 \<Rightarrow>
          (let s = node (node t1 a t2) b (node t3 c t4) in Ret (s, RecalcHeights s ggp))
      | Tip \<Rightarrow> Crash)"
| "Rebalance n (FrameR t1 a _ # FrameL c _ t4 # ggp) =
     (case n of
        Nd t2 b _ t3 \<Rightarrow>
          (let s = node (node t1 a t2) b (node t3 c t4) in Ret (s, RecalcHeights s ggp))
      | Tip \<Rightarrow> Crash)"
| "Rebalance n (FrameL b _ t3 # FrameL c _ t4 # ggp) =
     (case n of
        Nd t1 a _ t2 \<Rightarrow>
          (let s = node (node t1 a t2) b (node t3 c t4) in Ret (s, RecalcHeights s ggp))
      | Tip \<Rightarrow> Crash)"
| "Rebalance n _ = Crash"

section \<open>The tree object\<close>

text \<open>
  \<open>Root_\<close>, \<open>Head_\<close>, \<open>Tail_\<close>, and the items whose \<open>Tree_\<close> field points to the tree.
\<close>

record 'a avltree =
  av_Root :: "'a avl"
  av_Head :: "'a option"
  av_Tail :: "'a option"
  av_owned :: "'a set"

definition avltree_new :: "'a avltree" where
  "avltree_new = \<lparr>av_Root = Tip, av_Head = None, av_Tail = None, av_owned = {}\<rparr>"

text \<open>
  The descent of \<open>Insert\<close>: the path of the free place, or the equal element that is found.
\<close>

fun descend :: "('a \<Rightarrow> 'a \<Rightarrow> bool) \<Rightarrow> 'a \<Rightarrow> 'a avl \<Rightarrow> 'a path \<Rightarrow> 'a + 'a path" where
  "descend lt el Tip path = Inr path"
| "descend lt el (Nd l x h r) path =
     (if lt el x then descend lt el l (FrameL x h r # path)
      else if lt x el then descend lt el r (FrameR l x h # path)
      else Inl x)"

text \<open>The updates of \<open>Head_\<close> and \<open>Tail_\<close> in \<open>AttachRebal\<close>.\<close>

definition attach_ends :: "'a \<Rightarrow> 'a path \<Rightarrow> 'a avltree \<Rightarrow> 'a avltree" where
  "attach_ends el path t =
     (case path of
        [] \<Rightarrow> t\<lparr>av_Head := Some el, av_Tail := Some el\<rparr>
      | FrameL x h r # _ \<Rightarrow> if av_Head t = Some x then t\<lparr>av_Head := Some el\<rparr> else t
      | FrameR l x h # _ \<Rightarrow> if av_Tail t = Some x then t\<lparr>av_Tail := Some el\<rparr> else t)"

definition AttachRebal :: "'a \<Rightarrow> 'a path \<Rightarrow> 'a avltree \<Rightarrow> 'a avltree outcome" where
  "AttachRebal el path t =
     (let n = Nd Tip el 1 Tip;
          t1 = attach_ends el path t;
          path1 = RecalcHeights n path
      in case FindFirstUnbalGP n path1 of
           None \<Rightarrow> Ret (t1\<lparr>av_Root := unzip n path1\<rparr>)
         | Some (ub, p) \<Rightarrow>
             obind (Rebalance ub p) (\<lambda>(s, ggp). Ret (t1\<lparr>av_Root := unzip s ggp\<rparr>)))"

text \<open>A pointer to an item of the tree: its position.\<close>

fun locate :: "'a \<Rightarrow> 'a avl \<Rightarrow> 'a path \<Rightarrow> ('a avl \<times> 'a path) option" where
  "locate el Tip path = None"
| "locate el (Nd l x h r) path =
     (if x = el then Some (Nd l x h r, path)
      else case locate el l (FrameL x h r # path) of
             Some p \<Rightarrow> Some p
           | None \<Rightarrow> locate el r (FrameR l x h # path))"

text \<open>
  The leftmost item of a non-empty subtree: the item, what fills its place, and the path of that
  place; and the mirror image.
\<close>

fun take_min :: "'a avl \<Rightarrow> 'a path \<Rightarrow> ('a \<times> 'a avl \<times> 'a path) option" where
  "take_min Tip path = None"
| "take_min (Nd l x h r) path =
     (case l of Tip \<Rightarrow> Some (x, r, path) | Nd _ _ _ _ \<Rightarrow> take_min l (FrameL x h r # path))"

fun take_max :: "'a avl \<Rightarrow> 'a path \<Rightarrow> ('a \<times> 'a avl \<times> 'a path) option" where
  "take_max Tip path = None"
| "take_max (Nd l x h r) path =
     (case r of Tip \<Rightarrow> Some (x, l, path) | Nd _ _ _ _ \<Rightarrow> take_max r (FrameR l x h # path))"

text \<open>
  The first half of \<open>EraseImpl\<close>: the item is unlinked, its place taken by the replacement. The
  result is the position below \<open>fixfrom\<close>, which is the first frame (a null \<open>fixfrom\<close> is an empty
  path), and the tree with \<open>Head_\<close> and \<open>Tail_\<close> updated. \<open>ReplaceEl\<close> gives the replacement the
  height and the children of the item.
\<close>

definition erase_unlink ::
  "'a \<Rightarrow> 'a avl \<times> 'a path \<Rightarrow> 'a avltree \<Rightarrow> (('a avl \<times> 'a path) \<times> 'a avltree) option" where
  "erase_unlink el pos t =
     (case pos of
        (Tip, _) \<Rightarrow> None
      | (Nd l x h r, path) \<Rightarrow>
          (if r \<noteq> Tip then
             (case take_min r [] of
                None \<Rightarrow> None
              | Some (y, filler, down) \<Rightarrow>
                  Some ((filler, down @ FrameR l y h # path),
                        if av_Head t = Some el then t\<lparr>av_Head := Some y\<rparr> else t))
           else if l \<noteq> Tip then
             (case take_max l [] of
                None \<Rightarrow> None
              | Some (y, filler, down) \<Rightarrow>
                  Some ((filler, down @ FrameL y h r # path),
                        if av_Tail t = Some el then t\<lparr>av_Tail := Some y\<rparr> else t))
           else
             (let parent = (case path of [] \<Rightarrow> None | f # _ \<Rightarrow> Some (felem f));
                  t1 = (if av_Head t = Some el then t\<lparr>av_Head := parent\<rparr> else t);
                  t2 = (if av_Tail t1 = Some el then t1\<lparr>av_Tail := parent\<rparr> else t1)
              in Some ((Tip, path), t2))))"

text \<open>
  The grandchild of an unbalanced element that \<open>EraseImpl\<close> hands to \<open>Rebalance\<close>.
\<close>

fun erase_grandchild :: "'a avl \<Rightarrow> 'a path \<Rightarrow> ('a avl \<times> 'a path) option" where
  "erase_grandchild (Nd l x h r) path =
     (if ht r > ht l then
        (case r of
           Tip \<Rightarrow> None
         | Nd rl y k rr \<Rightarrow>
             (if ht rr > ht rl then Some (rr, FrameR rl y k # FrameR l x h # path)
              else if ht rr < ht rl then Some (rl, FrameL y k rr # FrameR l x h # path)
              else Some (rr, FrameR rl y k # FrameR l x h # path)))
      else
        (case l of
           Tip \<Rightarrow> None
         | Nd ll y k lr \<Rightarrow>
             (if ht lr > ht ll then Some (lr, FrameR ll y k # FrameL x h r # path)
              else if ht lr < ht ll then Some (ll, FrameL y k lr # FrameL x h r # path)
              else Some (ll, FrameL y k lr # FrameL x h r # path))))"
| "erase_grandchild Tip path = None"

text \<open>
  The loop of \<open>EraseImpl\<close>. Each turn ends higher up; the bound on the number of turns is the
  length of the path, and running out of it is a crash of the model that never happens.
\<close>

fun erase_rebalance :: "nat \<Rightarrow> 'a avl \<Rightarrow> 'a path \<Rightarrow> 'a avl outcome" where
  "erase_rebalance fuel t path =
     (case FindFirstUnbalEl t path of
        None \<Rightarrow> Ret (unzip t path)
      | Some (ub, fs) \<Rightarrow>
          (case fuel of
             0 \<Rightarrow> Crash
           | Suc fuel' \<Rightarrow>
               (case erase_grandchild ub fs of
                  None \<Rightarrow> Crash
                | Some (n, p) \<Rightarrow> obind (Rebalance n p) (\<lambda>(s, ggp). erase_rebalance fuel' s ggp))))"

declare erase_rebalance.simps [simp del]

definition EraseImpl :: "'a \<Rightarrow> 'a avltree \<Rightarrow> 'a avltree outcome" where
  "EraseImpl el t =
     (let t0 = t\<lparr>av_owned := av_owned t - {el}\<rparr> in
      case locate el (av_Root t) [] of
        None \<Rightarrow> Crash
      | Some pos \<Rightarrow>
          (case erase_unlink el pos t0 of
             None \<Rightarrow> Crash
           | Some ((c, path), t1) \<Rightarrow>
               obind (erase_rebalance (length path) c (RecalcHeights c path))
                 (\<lambda>root. Ret (t1\<lparr>av_Root := root\<rparr>))))"

text \<open>\<open>Erase\<close>: \<open>None\<close> is the null result for an item of another tree.\<close>

definition Erase :: "'a \<Rightarrow> 'a avltree \<Rightarrow> ('a option \<times> 'a avltree) outcome" where
  "Erase el t =
     (if el \<in> av_owned t then obind (EraseImpl el t) (\<lambda>t'. Ret (Some el, t')) else Ret (None, t))"

definition Unlink :: "'a \<Rightarrow> 'a avltree \<Rightarrow> 'a avltree outcome" where
  "Unlink el t = (if el \<in> av_owned t then EraseImpl el t else Ret t)"

text \<open>\<open>Insert\<close>: the inserted item or null, and the item \<open>lastFound\<close> is set to.\<close>

definition Insert :: "('a \<Rightarrow> 'a \<Rightarrow> bool) \<Rightarrow> 'a \<Rightarrow> 'a avltree \<Rightarrow> ('a option \<times> 'a \<times> 'a avltree) outcome" where
  "Insert lt el t =
     obind (Unlink el t) (\<lambda>t1.
       let t2 = t1\<lparr>av_owned := insert el (av_owned t1)\<rparr> in
       case descend lt el (av_Root t2) [] of
         Inr path \<Rightarrow> obind (AttachRebal el path t2) (\<lambda>t3. Ret (Some el, el, t3))
       | Inl x \<Rightarrow> Ret (None, x, t2))"

fun avl_Find :: "('a \<Rightarrow> 'a \<Rightarrow> bool) \<Rightarrow> 'a \<Rightarrow> 'a avl \<Rightarrow> 'a option" where
  "avl_Find lt el Tip = None"
| "avl_Find lt el (Nd l x h r) =
     (if lt el x then avl_Find lt el l
      else if lt x el then avl_Find lt el r
      else Some x)"

fun avl_LowerBound :: "('a \<Rightarrow> 'a \<Rightarrow> bool) \<Rightarrow> 'a \<Rightarrow> 'a option \<Rightarrow> 'a avl \<Rightarrow> 'a option" where
  "avl_LowerBound lt el lowerBound Tip = lowerBound"
| "avl_LowerBound lt el lowerBound (Nd l x h r) =
     (if lt el x then avl_LowerBound lt el (Some x) l
      else if lt x el then avl_LowerBound lt el lowerBound r
      else Some x)"

definition First :: "'a avltree \<Rightarrow> 'a option" where
  "First t = av_Head t"

definition Last :: "'a avltree \<Rightarrow> 'a option" where
  "Last t = av_Tail t"

definition Empty :: "'a avltree \<Rightarrow> bool" where
  "Empty t \<longleftrightarrow> First t = None"

section \<open>Iterators\<close>

fun down_left :: "'a avl \<Rightarrow> 'a path \<Rightarrow> 'a avl \<times> 'a path" where
  "down_left (Nd (Nd ll y k lr) x h r) path = down_left (Nd ll y k lr) (FrameL x h r # path)"
| "down_left t path = (t, path)"

fun down_right :: "'a avl \<Rightarrow> 'a path \<Rightarrow> 'a avl \<times> 'a path" where
  "down_right (Nd l x h (Nd rl y k rr)) path = down_right (Nd rl y k rr) (FrameR l x h # path)"
| "down_right t path = (t, path)"

fun up_from_right :: "'a avl \<Rightarrow> 'a path \<Rightarrow> ('a avl \<times> 'a path) option" where
  "up_from_right t [] = None"
| "up_from_right t (FrameL x h r # path) = Some (Nd t x h r, path)"
| "up_from_right t (FrameR l x h # path) = up_from_right (Nd l x h t) path"

fun up_from_left :: "'a avl \<Rightarrow> 'a path \<Rightarrow> ('a avl \<times> 'a path) option" where
  "up_from_left t [] = None"
| "up_from_left t (FrameR l x h # path) = Some (Nd l x h t, path)"
| "up_from_left t (FrameL x h r # path) = up_from_left (Nd t x h r) path"

fun FindNext :: "'a avl \<times> 'a path \<Rightarrow> ('a avl \<times> 'a path) option" where
  "FindNext (Nd l x h r, path) =
     (if r \<noteq> Tip then Some (down_left r (FrameR l x h # path)) else up_from_right (Nd l x h r) path)"
| "FindNext (Tip, path) = None"

fun FindPrev :: "'a avl \<times> 'a path \<Rightarrow> ('a avl \<times> 'a path) option" where
  "FindPrev (Nd l x h r, path) =
     (if l \<noteq> Tip then Some (down_right l (FrameL x h r # path)) else up_from_left (Nd l x h r) path)"
| "FindPrev (Tip, path) = None"

end
