(* ===== verification/Avlproofs.thy ===== *)
theory Avlproofs
  imports Avltree
begin

text \<open>
  Correctness of the AVL tree: the in-order sequence, the stored heights and the balance are kept
  by the climbing loops of \<open>AttachRebal\<close> and \<open>EraseImpl\<close>, and the in-order sequence changes by
  exactly the element that is inserted or erased.
\<close>

section \<open>In-order sequence\<close>

fun inord :: "'a avl \<Rightarrow> 'a list" where
  "inord Tip = []"
| "inord (Nd l x h r) = inord l @ x # inord r"

fun before :: "'a path \<Rightarrow> 'a list" where
  "before [] = []"
| "before (FrameL x h r # fs) = before fs"
| "before (FrameR l x h # fs) = before fs @ inord l @ [x]"

fun after :: "'a path \<Rightarrow> 'a list" where
  "after [] = []"
| "after (FrameL x h r # fs) = x # inord r @ after fs"
| "after (FrameR l x h # fs) = after fs"

lemma inord_unzip: "inord (unzip t path) = before path @ inord t @ after path"
proof (induction path arbitrary: t)
  case (Cons f fs)
  then show ?case by (cases f) simp_all
qed simp

lemma before_append: "before (p @ q) = before q @ before p"
  by (induction p rule: before.induct) simp_all

lemma after_append: "after (p @ q) = after p @ after q"
  by (induction p rule: after.induct) simp_all

lemma unzip_append: "unzip t (p @ q) = unzip (unzip t p) q"
  by (induction p arbitrary: t) simp_all

section \<open>Heights and balance\<close>

fun hok :: "'a avl \<Rightarrow> bool" where
  "hok Tip = True"
| "hok (Nd l x h r) = (h = max (ht l) (ht r) + 1 \<and> hok l \<and> hok r)"

fun bal :: "'a avl \<Rightarrow> bool" where
  "bal Tip = True"
| "bal (Nd l x h r) = (\<not> unbalanced (ht l) (ht r) \<and> bal l \<and> bal r)"

fun hpath :: "nat \<Rightarrow> 'a path \<Rightarrow> bool" where
  "hpath h [] = True"
| "hpath h (f # fs) = (fheight f = max h (ht (fsib f)) + 1 \<and> hok (fsib f) \<and> hpath (fheight f) fs)"

text \<open>The elements of the path are balanced when the hole has height \<open>h\<close>.\<close>

fun bpath :: "nat \<Rightarrow> 'a path \<Rightarrow> bool" where
  "bpath h [] = True"
| "bpath h (f # fs) = (\<not> unbalanced h (ht (fsib f)) \<and> bal (fsib f) \<and> bpath (max h (ht (fsib f)) + 1) fs)"

lemma unbalanced_commute: "unbalanced a b = unbalanced b a"
  by (auto simp: unbalanced_def)

lemma ht_fill [simp]: "ht (fill f t) = fheight f"
  by (cases f) simp_all

lemma hok_fill: "hok (fill f t) \<longleftrightarrow> fheight f = max (ht t) (ht (fsib f)) + 1 \<and> hok t \<and> hok (fsib f)"
  by (cases f) (auto simp: max.commute)

lemma bal_fill: "bal (fill f t) \<longleftrightarrow> \<not> unbalanced (ht t) (ht (fsib f)) \<and> bal t \<and> bal (fsib f)"
  by (cases f) (auto simp: unbalanced_commute)

lemma hok_unzip: "hok (unzip t path) \<longleftrightarrow> hok t \<and> hpath (ht t) path"
  by (induction path arbitrary: t) (auto simp: hok_fill)

lemma bal_unzip: "hpath (ht t) path \<Longrightarrow> bal (unzip t path) \<longleftrightarrow> bal t \<and> bpath (ht t) path"
  by (induction path arbitrary: t) (auto simp: bal_fill)

lemma set_height_simps [simp]:
  "fheight (set_height h f) = h" "fsib (set_height h f) = fsib f" "felem (set_height h f) = felem f"
  "before (set_height h f # fs) = before (f # fs)" "after (set_height h f # fs) = after (f # fs)"
  by (cases f; simp)+

lemma before_Cons_cong: "before fs = before gs \<Longrightarrow> before (f # fs) = before (f # gs)"
  by (cases f) simp_all

lemma after_Cons_cong: "after fs = after gs \<Longrightarrow> after (f # fs) = after (f # gs)"
  by (cases f) simp_all

lemma RecalcHeights_keeps:
  "before (RecalcHeights t path) = before path" "after (RecalcHeights t path) = after path"
  "length (RecalcHeights t path) = length path" "bpath h (RecalcHeights t path) = bpath h path"
proof (induction path arbitrary: t h)
  case (Cons f fs)
  {
    case 1
    show ?case using Cons.IH(1) by (auto simp: Let_def intro: before_Cons_cong)
  next
    case 2
    show ?case using Cons.IH(2) by (auto simp: Let_def intro: after_Cons_cong)
  next
    case 3
    show ?case using Cons.IH(3) by (simp add: Let_def)
  next
    case 4
    show ?case using Cons.IH(4) by (simp add: Let_def)
  }
qed simp_all

text \<open>Stopping at the first unchanged height is right: above it nothing has changed.\<close>

lemma RecalcHeights_hpath: "hpath h0 path \<Longrightarrow> hpath (ht t) (RecalcHeights t path)"
proof (induction path arbitrary: h0 t)
  case (Cons f fs)
  then show ?case
    using Cons.IH [of "fheight f" "fill (set_height (max (ht t) (ht (fsib f)) + 1) f) t"]
    by (auto simp: Let_def)
qed simp

lemma node_simps [simp]:
  "inord (node l x r) = inord l @ x # inord r" "ht (node l x r) = max (ht l) (ht r) + 1"
  "hok (node l x r) \<longleftrightarrow> hok l \<and> hok r" "bal (node l x r) \<longleftrightarrow> \<not> unbalanced (ht l) (ht r) \<and> bal l \<and> bal r"
  by (simp_all add: node_def)

section \<open>Rotations\<close>

text \<open>Any rotation keeps the sequence and the heights right.\<close>

lemma Rebalance_keeps:
  assumes "n \<noteq> Tip" and "hok n" and "hok (fsib p)" and "hok (fsib gp)" and "hpath h0 fs"
  shows "\<exists>s. Rebalance n (p # gp # fs) = Ret (s, RecalcHeights s fs) \<and> hok s
    \<and> inord s = inord (fill gp (fill p n)) \<and> hpath (ht s) (RecalcHeights s fs)"
  using assms RecalcHeights_hpath [OF assms(5)]
  by (cases n; cases p; cases gp) (auto simp: Let_def)

text \<open>
  The grown side of an insertion: \<open>n\<close> is the taller child of \<open>p\<close>, which is two levels taller than
  its sibling. The rotation gives back the old height.
\<close>

lemma Rebalance_grown:
  assumes "hok n" and "bal n" and "bal (fsib p)" and "bal (fsib gp)"
    and "ht n = k + 1" and "ht (fsib p) = k" and "ht (fsib gp) = k"
    and "Rebalance n (p # gp # fs) = Ret (s, gs)"
  shows "bal s \<and> ht s = k + 2"
  using assms by (cases n; cases p; cases gp) (auto simp: Let_def unbalanced_def)

lemma insert_fix:
  assumes "t \<noteq> Tip" "hok t" "bal t" "hpath (ht t) (p # fs)" "\<not> unbalanced (ht t) (ht (fsib p))" "bal (fsib p)"
    and "bpath h0 fs" and "fheight p = h0 \<or> fheight p = h0 + 1 \<and> ht t = ht (fsib p) + 1"
  shows "case FindFirstUnbalGP t (p # fs) of
      None \<Rightarrow> bal (unzip t (p # fs))
    | Some (ub, q) \<Rightarrow> \<exists>s gs. Rebalance ub q = Ret (s, gs) \<and> hok (unzip s gs) \<and> bal (unzip s gs)
        \<and> inord (unzip s gs) = inord (unzip t (p # fs))"
  using assms
proof (induction fs arbitrary: t p h0)
  case Nil
  then show ?case by (simp add: bal_fill)
next
  case (Cons gp fs)
  let ?s = "ht (fsib gp)"
  have path: "fheight p = max (ht t) (ht (fsib p)) + 1" "hok (fsib p)" "fheight gp = max (fheight p) ?s + 1"
      "hok (fsib gp)" "hpath (fheight gp) fs"
    using Cons.prems(4) by auto
  have old: "\<not> unbalanced h0 ?s" "bal (fsib gp)" "bpath (max h0 ?s + 1) fs"
    using Cons.prems(7) by auto
  show ?case
  proof (cases "unbalanced (fheight p) ?s")
    case True
    then have hp: "fheight p = h0 + 1" "ht t = ht (fsib p) + 1" "h0 = ?s + 1"
      using Cons.prems(8) old(1) by (auto simp: unbalanced_def)
    then have k: "ht t = ?s + 1" "ht (fsib p) = ?s" using path(1) by auto
    obtain s where s: "Rebalance t (p # gp # fs) = Ret (s, RecalcHeights s fs)" "hok s"
        "inord s = inord (fill gp (fill p t))" "hpath (ht s) (RecalcHeights s fs)"
      using Rebalance_keeps [OF Cons.prems(1,2) path(2,4,5)] by blast
    have b: "bal s" "ht s = max h0 ?s + 1"
      using Rebalance_grown [OF Cons.prems(2,3,6) old(2) k(1,2) refl s(1)] hp by simp_all
    then have "bpath (ht s) (RecalcHeights s fs)" using old(3) by (simp add: RecalcHeights_keeps)
    then have "bal (unzip s (RecalcHeights s fs))" "hok (unzip s (RecalcHeights s fs))"
      using s(2,4) b(1) by (simp_all add: bal_unzip hok_unzip)
    moreover have "inord (unzip s (RecalcHeights s fs)) = inord (unzip t (p # gp # fs))"
      using s(3) by (simp add: inord_unzip RecalcHeights_keeps)
    ultimately show ?thesis using True s(1) by auto
  next
    case False
    have "case FindFirstUnbalGP (fill p t) (gp # fs) of
        None \<Rightarrow> bal (unzip (fill p t) (gp # fs))
      | Some (ub, q) \<Rightarrow> \<exists>s gs. Rebalance ub q = Ret (s, gs) \<and> hok (unzip s gs) \<and> bal (unzip s gs)
          \<and> inord (unzip s gs) = inord (unzip (fill p t) (gp # fs))"
    proof (rule Cons.IH [of "fill p t" gp "max h0 ?s + 1"])
      show "fill p t \<noteq> Tip" by (cases p) simp_all
      show "hok (fill p t)" using path Cons.prems(2) by (simp add: hok_fill)
      show "bal (fill p t)" using Cons.prems(3,5,6) by (simp add: bal_fill)
      show "hpath (ht (fill p t)) (gp # fs)" using path by simp
      show "\<not> unbalanced (ht (fill p t)) ?s" using False by simp
      show "fheight gp = max h0 ?s + 1 \<or> fheight gp = max h0 ?s + 1 + 1 \<and> ht (fill p t) = ?s + 1"
        using path(3) Cons.prems(8) False old(1) by (auto simp: unbalanced_def max_def)
    qed (use old in simp_all)
    then show ?thesis using False by (cases "FindFirstUnbalGP (fill p t) (gp # fs)") auto
  qed
qed

section \<open>Erasing\<close>

lemma erase_skip:
  "\<not> unbalanced (ht t) (ht (fsib f)) \<Longrightarrow> erase_rebalance fuel t (f # fs) = erase_rebalance fuel (fill f t) fs"
  by (subst (1 2) erase_rebalance.simps) (simp split: option.split)

lemma erase_turn:
  assumes "unbalanced (ht t) (ht (fsib f))"
  shows "erase_rebalance (Suc fuel) t (f # fs) =
    (case erase_grandchild (fill f t) fs of
       None \<Rightarrow> Crash
     | Some (n, p) \<Rightarrow> obind (Rebalance n p) (\<lambda>(s, ggp). erase_rebalance fuel s ggp))"
  using assms by (subst erase_rebalance.simps) simp

text \<open>
  The shrunk side of a removal: the sibling is two levels taller, and the grandchild chosen gives
  a balanced subtree of the old height or one less.
\<close>

lemma Rebalance_shrunk:
  assumes "hok t" "bal t" "hok (fsib f)" "bal (fsib f)" "ht (fsib f) = ht t + 2" "hpath h0 fs"
  shows "\<exists>n p s. erase_grandchild (fill f t) fs = Some (n, p) \<and> Rebalance n p = Ret (s, RecalcHeights s fs)
    \<and> hok s \<and> bal s \<and> (ht s = ht t + 2 \<or> ht s = ht t + 3) \<and> inord s = inord (fill f t)
    \<and> hpath (ht s) (RecalcHeights s fs)"
proof (cases f)
  case (FrameL x h r)
  then obtain rl y k rr where r: "r = Nd rl y k rr" using assms(5) by (cases r) auto
  show ?thesis
  proof (cases "ht rr < ht rl")
    case True
    then obtain a z b c where "rl = Nd a z b c" by (cases rl) auto
    then show ?thesis
      using FrameL r True assms RecalcHeights_hpath [OF assms(6)]
      by (auto simp: Let_def unbalanced_def)
  next
    case False
    then obtain a z b c where "rr = Nd a z b c" using assms(3,5) FrameL r by (cases rr) auto
    then show ?thesis
      using FrameL r False assms RecalcHeights_hpath [OF assms(6)]
      by (auto simp: Let_def unbalanced_def)
  qed
next
  case (FrameR l x h)
  then obtain ll y k lr where l: "l = Nd ll y k lr" using assms(5) by (cases l) auto
  show ?thesis
  proof (cases "ht lr > ht ll")
    case True
    then obtain a z b c where "lr = Nd a z b c" by (cases lr) auto
    then show ?thesis
      using FrameR l True assms RecalcHeights_hpath [OF assms(6)]
      by (auto simp: Let_def unbalanced_def)
  next
    case False
    then obtain a z b c where "ll = Nd a z b c" using assms(3,5) FrameR l by (cases ll) auto
    then show ?thesis
      using FrameR l False assms RecalcHeights_hpath [OF assms(6)]
      by (auto simp: Let_def unbalanced_def)
  qed
qed

lemma erase_fix:
  assumes "hok t" "bal t" "hpath (ht t) path" "bpath h0 path" "h0 = ht t \<or> h0 = ht t + 1" "length path \<le> fuel"
  shows "\<exists>root. erase_rebalance fuel t path = Ret root \<and> hok root \<and> bal root
    \<and> inord root = before path @ inord t @ after path"
  using assms
proof (induction "length path" arbitrary: t path h0 fuel)
  case 0
  then show ?case by (subst erase_rebalance.simps) simp
next
  case (Suc n)
  then obtain f fs where p: "path = f # fs" "length fs = n" by (cases path) auto
  let ?s = "ht (fsib f)"
  have hf: "fheight f = max (ht t) ?s + 1" "hok (fsib f)" "hpath (fheight f) fs"
    and bf: "\<not> unbalanced h0 ?s" "bal (fsib f)" "bpath (max h0 ?s + 1) fs"
    using Suc.prems(3,4) p by auto
  show ?case
  proof (cases "unbalanced (ht t) ?s")
    case False
    have "\<exists>root. erase_rebalance fuel (fill f t) fs = Ret root \<and> hok root \<and> bal root
        \<and> inord root = before fs @ inord (fill f t) @ after fs"
      by (rule Suc.hyps(1) [of fs "fill f t" "max h0 ?s + 1"])
        (use p Suc.prems hf bf False in \<open>auto simp: hok_fill bal_fill\<close>)
    then show ?thesis using p erase_skip [OF False] by (cases f) auto
  next
    case True
    then have s: "?s = ht t + 2" and h0: "h0 = ht t + 1"
      using bf(1) Suc.prems(5) by (auto simp: unbalanced_def)
    obtain m where fuel: "fuel = Suc m" "length fs \<le> m" using Suc.prems(6) p by (cases fuel) auto
    obtain g q u where g: "erase_grandchild (fill f t) fs = Some (g, q)" "Rebalance g q = Ret (u, RecalcHeights u fs)"
        "hok u" "bal u" "ht u = ht t + 2 \<or> ht u = ht t + 3" "inord u = inord (fill f t)"
        "hpath (ht u) (RecalcHeights u fs)"
      using Rebalance_shrunk [OF Suc.prems(1,2) hf(2) bf(2) s hf(3)] by blast
    have "\<exists>root. erase_rebalance m u (RecalcHeights u fs) = Ret root \<and> hok root \<and> bal root
        \<and> inord root = before (RecalcHeights u fs) @ inord u @ after (RecalcHeights u fs)"
      by (rule Suc.hyps(1) [of "RecalcHeights u fs" u "max h0 ?s + 1"])
        (use p fuel g bf s h0 in \<open>auto simp: RecalcHeights_keeps\<close>)
    then show ?thesis
      using erase_turn [OF True, of m fs] fuel p g(1,2,6)
      by (cases f) (auto simp: RecalcHeights_keeps)
  qed
qed

section \<open>Invariant of the tree object\<close>

definition first_of :: "'a list \<Rightarrow> 'a option" where
  "first_of xs = (case xs of [] \<Rightarrow> None | x # _ \<Rightarrow> Some x)"

definition last_of :: "'a list \<Rightarrow> 'a option" where
  "last_of xs = (if xs = [] then None else Some (last xs))"

lemma first_of_simps [simp]: "first_of [] = None" "first_of (x # xs) = Some x"
  by (simp_all add: first_of_def)

lemma first_of_append: "first_of (xs @ ys) = (if xs = [] then first_of ys else first_of xs)"
  by (cases xs) simp_all

lemma first_of_mem: "first_of xs = Some x \<Longrightarrow> x \<in> set xs"
  by (cases xs) simp_all

lemma last_of_append: "last_of (xs @ ys) = (if ys = [] then last_of xs else last_of ys)"
  by (simp add: last_of_def)

lemma last_of_simps [simp]: "last_of [] = None" "last_of (xs @ [x]) = Some x" "last_of [x] = Some x"
  by (simp_all add: last_of_def)

lemma last_of_Cons: "last_of (x # xs) = (if xs = [] then Some x else last_of xs)"
  by (simp add: last_of_def)

lemma last_of_mem: "last_of xs = Some x \<Longrightarrow> x \<in> set xs"
  by (auto simp: last_of_def split: if_splits)

text \<open>\<open>av_seq\<close> is the abstraction: the items in order.\<close>

definition av_seq :: "'a avltree \<Rightarrow> 'a list" where
  "av_seq t = inord (av_Root t)"

definition avl_inv :: "('a \<Rightarrow> 'a \<Rightarrow> bool) \<Rightarrow> 'a avltree \<Rightarrow> bool" where
  "avl_inv lt t \<longleftrightarrow> hok (av_Root t) \<and> bal (av_Root t) \<and> sorted_wrt lt (av_seq t)
     \<and> av_Head t = first_of (av_seq t) \<and> av_Tail t = last_of (av_seq t) \<and> av_owned t = set (av_seq t)
     \<and> distinct (av_seq t)"

lemma avl_inv_new: "avl_inv lt avltree_new"
  by (simp add: avl_inv_def avltree_new_def av_seq_def)

subsection \<open>Insertion\<close>

lemma descend_path:
  assumes "descend lt el t path = Inr path'"
  shows "unzip Tip path' = unzip t path"
  using assms by (induction lt el t path rule: descend.induct) (auto split: if_splits)

lemma descend_order:
  assumes tr: "transp lt" and "sorted_wrt lt (before path @ inord t @ after path)"
    and "\<forall>x \<in> set (before path). lt x el" and "\<forall>x \<in> set (after path). lt el x"
    and "descend lt el t path = Inr path'"
  shows "(\<forall>x \<in> set (before path'). lt x el) \<and> (\<forall>x \<in> set (after path'). lt el x)"
  using assms(2-5)
proof (induction t arbitrary: path)
  case (Nd l x h r)
  have lx: "\<forall>y \<in> set (inord l). lt y x" and xr: "\<forall>y \<in> set (inord r). lt x y"
    using Nd.prems(1) by (auto simp: sorted_wrt_append)
  consider (left) "lt el x" | (right) "\<not> lt el x" "lt x el" | (eq) "\<not> lt el x" "\<not> lt x el" by blast
  then show ?case
  proof cases
    case left
    have "\<forall>y \<in> set (after (FrameL x h r # path)). lt el y"
      using left xr Nd.prems(3) transpD [OF tr] by auto
    with left show ?thesis
      using Nd.IH(1) [of "FrameL x h r # path"] Nd.prems by simp
  next
    case right
    have "\<forall>y \<in> set (before (FrameR l x h # path)). lt y el"
      using right lx Nd.prems(2) transpD [OF tr] by auto
    with right show ?thesis
      using Nd.IH(2) [of "FrameR l x h # path"] Nd.prems by simp
  next
    case eq
    with Nd.prems show ?thesis by simp
  qed
qed simp

lemma descend_found:
  "descend lt el t path = Inl x \<Longrightarrow> x \<in> set (inord t) \<and> \<not> lt el x \<and> \<not> lt x el"
  by (induction lt el t path rule: descend.induct) (auto split: if_splits)

text \<open>The tree \<open>AttachRebal\<close> builds, and the ends of the sequence.\<close>

lemma AttachRebal_root:
  assumes "hok (unzip Tip path)" and "bal (unzip Tip path)"
  shows "\<exists>root. hok root \<and> bal root \<and> inord root = before path @ el # after path
    \<and> AttachRebal el path t = Ret ((attach_ends el path t)\<lparr>av_Root := root\<rparr>)"
proof (cases path)
  case Nil
  then show ?thesis by (intro exI [of _ "Nd Tip el 1 Tip"]) (simp add: unbalanced_def AttachRebal_def)
next
  case (Cons f fs)
  let ?n = "Nd Tip el 1 Tip" and ?path1 = "RecalcHeights (Nd Tip el 1 Tip) path"
  have hp: "hpath 0 path" and bp: "bpath 0 path"
    using assms hok_unzip [of Tip path] bal_unzip [of Tip path] by auto
  obtain g gs where g: "?path1 = g # gs" using RecalcHeights_keeps(3) [of ?n path] Cons by (cases ?path1) auto
  have hp1: "hpath (ht ?n) (g # gs)" using RecalcHeights_hpath [OF hp, of ?n] by (simp only: g)
  have bp1: "bpath 0 (g # gs)" using bp RecalcHeights_keeps(4) [of 0 ?n path] by (simp only: g)
  have "case FindFirstUnbalGP ?n (g # gs) of
      None \<Rightarrow> bal (unzip ?n (g # gs))
    | Some (ub, q) \<Rightarrow> \<exists>s gs'. Rebalance ub q = Ret (s, gs') \<and> hok (unzip s gs') \<and> bal (unzip s gs')
        \<and> inord (unzip s gs') = inord (unzip ?n (g # gs))"
    by (rule insert_fix [where ?h0.0 = "max 0 (ht (fsib g)) + 1"])
      (use hp1 bp1 in \<open>auto simp: unbalanced_def\<close>)
  moreover have "hok (unzip ?n (g # gs))" using hp1 by (simp add: hok_unzip del: unzip.simps hpath.simps)
  moreover have "inord (unzip ?n (g # gs)) = before path @ el # after path"
    using RecalcHeights_keeps(1,2) [of ?n path] g by (simp add: inord_unzip del: unzip.simps)
  ultimately show ?thesis
    by (cases "FindFirstUnbalGP ?n (g # gs)")
      (auto simp: AttachRebal_def Let_def g [unfolded One_nat_def] simp del: unzip.simps)
qed

lemma Insert_spec:
  assumes inv: "avl_inv lt t" and tr: "transp lt" and new: "el \<notin> av_owned t"
    and cmp: "\<forall>x \<in> set (av_seq t). lt el x \<or> lt x el" and asym: "\<And>x. lt el x \<Longrightarrow> \<not> lt x el"
  shows "\<exists>t'. Insert lt el t = Ret (Some el, el, t') \<and> avl_inv lt t'
    \<and> av_seq t' = filter (\<lambda>x. lt x el) (av_seq t) @ el # filter (\<lambda>x. lt el x) (av_seq t)"
proof -
  let ?t2 = "t\<lparr>av_owned := insert el (av_owned t)\<rparr>" and ?R = "av_Root t"
  have t: "hok ?R" "bal ?R" "sorted_wrt lt (inord ?R)" "av_Head t = first_of (inord ?R)"
      "av_Tail t = last_of (inord ?R)" "av_owned t = set (inord ?R)" "distinct (inord ?R)"
    using inv by (auto simp: avl_inv_def av_seq_def)
  obtain path where d: "descend lt el ?R [] = Inr path"
    using descend_found [of lt el ?R "[]"] cmp by (cases "descend lt el ?R []") (auto simp: av_seq_def)
  have z: "unzip Tip path = ?R" using descend_path [OF d] by simp
  then have seq: "inord ?R = before path @ after path" using inord_unzip [of Tip path] by simp
  have ord: "\<forall>x \<in> set (before path). lt x el" "\<forall>x \<in> set (after path). lt el x"
    using descend_order [OF tr, of "[]" ?R el path] t(3) d by auto
  have fl: "filter (\<lambda>x. lt x el) (inord ?R) = before path" "filter (\<lambda>x. lt el x) (inord ?R) = after path"
    using ord asym by (auto simp: seq filter_empty_conv intro!: filter_True)
  let ?t1 = "attach_ends el path ?t2"
  obtain root where r: "hok root" "bal root" "inord root = before path @ el # after path"
      "AttachRebal el path ?t2 = Ret (?t1\<lparr>av_Root := root\<rparr>)"
    using AttachRebal_root [of path el ?t2] t(1,2) z by auto
  have "Insert lt el t = Ret (Some el, el, ?t1\<lparr>av_Root := root\<rparr>)"
    using new d r(4) by (simp add: Insert_def Unlink_def)
  moreover have "av_Head ?t1 = first_of (inord root) \<and> av_Tail ?t1 = last_of (inord root)"
  proof (cases path)
    case Nil
    then show ?thesis using r(3) by (simp add: attach_ends_def)
  next
    case (Cons f fs)
    show ?thesis
    proof (cases f)
      case (FrameL x h rr)
      have dx: "distinct (before fs @ x # inord rr @ after fs)" using t(7) seq Cons FrameL by simp
      have "av_Head t = Some x \<longleftrightarrow> before fs = []"
        using t(4) seq Cons FrameL dx by (auto simp: first_of_append dest: first_of_mem)
      then show ?thesis
        using r(3) t(4,5) seq Cons FrameL
        by (auto simp: attach_ends_def first_of_append last_of_append last_of_Cons)
    next
      case (FrameR l x h)
      have dx: "distinct (before fs @ inord l @ x # after fs)" using t(7) seq Cons FrameR by simp
      have "av_Tail t = Some x \<longleftrightarrow> after fs = []"
        using t(5) seq Cons FrameR dx by (auto simp: last_of_append last_of_Cons dest: last_of_mem split: if_splits)
      then show ?thesis
        using r(3) t(4,5) seq Cons FrameR
        by (auto simp: attach_ends_def first_of_append last_of_append last_of_Cons)
    qed
  qed
  moreover have "av_owned ?t1 = set (inord root)"
    using r(3) t(6) seq by (auto simp: attach_ends_def split: list.splits frame.splits)
  moreover have "sorted_wrt lt (inord root)" "distinct (inord root)"
    using r(3) t(3,6,7) seq ord new transpD [OF tr] by (auto simp: sorted_wrt_append)
  ultimately show ?thesis
    using r(1-3) fl by (intro exI [of _ "?t1\<lparr>av_Root := root\<rparr>"]) (simp add: avl_inv_def av_seq_def)
qed

subsection \<open>Erasure\<close>

lemma locate_Some:
  "locate el t path = Some (c, q) \<Longrightarrow> unzip c q = unzip t path \<and> (\<exists>l h r. c = Nd l el h r)"
  by (induction el t path rule: locate.induct) (auto split: if_splits option.splits)

lemma locate_finds: "el \<in> set (inord t) \<Longrightarrow> \<exists>p. locate el t path = Some p"
proof (induction t arbitrary: path)
  case (Nd l x h r)
  show ?case
  proof (cases "locate el l (FrameL x h r # path)")
    case None
    then have "el \<notin> set (inord l)" using Nd.IH(1) [of "FrameL x h r # path"] by auto
    with Nd None show ?thesis by auto
  qed auto
qed simp

lemma take_min_spec:
  assumes "t \<noteq> Tip"
  shows "\<exists>y k filler down. take_min t path = Some (y, filler, down @ path) \<and> unzip (Nd Tip y k filler) down = t
    \<and> before down = []"
  using assms
proof (induction t arbitrary: path)
  case (Nd l x h r)
  show ?case
  proof (cases "l = Tip")
    case True
    then show ?thesis by (intro exI [of _ x] exI [of _ h] exI [of _ r] exI [of _ "[]"]) simp
  next
    case False
    then obtain y k filler down where "take_min l (FrameL x h r # path) = Some (y, filler, down @ FrameL x h r # path)"
        "unzip (Nd Tip y k filler) down = l" "before down = []"
      using Nd.IH(1) by blast
    moreover have "take_min (Nd l x h r) path = take_min l (FrameL x h r # path)"
      using False by (cases l) simp_all
    ultimately show ?thesis
      by (intro exI [of _ y] exI [of _ k] exI [of _ filler] exI [of _ "down @ [FrameL x h r]"])
        (simp add: unzip_append before_append)
  qed
qed simp

lemma take_max_spec:
  assumes "t \<noteq> Tip"
  shows "\<exists>y k filler down. take_max t path = Some (y, filler, down @ path) \<and> unzip (Nd filler y k Tip) down = t
    \<and> after down = []"
  using assms
proof (induction t arbitrary: path)
  case (Nd l x h r)
  show ?case
  proof (cases "r = Tip")
    case True
    then show ?thesis by (intro exI [of _ x] exI [of _ h] exI [of _ l] exI [of _ "[]"]) simp
  next
    case False
    then obtain y k filler down where "take_max r (FrameR l x h # path) = Some (y, filler, down @ FrameR l x h # path)"
        "unzip (Nd filler y k Tip) down = r" "after down = []"
      using Nd.IH(2) by blast
    moreover have "take_max (Nd l x h r) path = take_max r (FrameR l x h # path)"
      using False by (cases r) simp_all
    ultimately show ?thesis
      by (intro exI [of _ y] exI [of _ k] exI [of _ filler] exI [of _ "down @ [FrameR l x h]"])
        (simp add: unzip_append after_append)
  qed
qed simp

text \<open>The heights and the balance of a tree do not depend on its elements.\<close>

lemma hok_relabel: "hok (unzip (Nd l x h r) path) = hok (unzip (Nd l y h r) path)"
  by (simp add: hok_unzip)

lemma bal_relabel:
  assumes "hok (unzip (Nd l x h r) path)"
  shows "bal (unzip (Nd l x h r) path) = bal (unzip (Nd l y h r) path)"
proof -
  have "hpath (ht (Nd l z h r)) path" for z using assms by (auto simp: hok_unzip)
  then show ?thesis by (simp add: bal_unzip)
qed

text \<open>What \<open>erase_unlink\<close> leaves: a place one level lower than before, on an otherwise intact path.\<close>

definition unlinked :: "'a \<Rightarrow> 'a avl \<Rightarrow> 'a avl \<Rightarrow> 'a path \<Rightarrow> bool" where
  "unlinked el rt c path \<longleftrightarrow> hok c \<and> bal c \<and> hpath (ht c + 1) path \<and> bpath (ht c + 1) path
     \<and> before path @ inord c @ after path = remove1 el (inord rt)"

lemma unlinked_place:
  assumes "hok (unzip (Nd l y k r) path)" and "bal (unzip (Nd l y k r) path)"
    and "l = Tip \<and> c = r \<or> r = Tip \<and> c = l"
  shows "hok c \<and> bal c \<and> hpath (ht c + 1) path \<and> bpath (ht c + 1) path"
  using assms by (auto simp: hok_unzip bal_unzip)

lemma remove1_middle: "distinct (xs @ x # ys) \<Longrightarrow> remove1 x (xs @ x # ys) = xs @ ys"
  by (simp add: remove1_append)

lemma erase_unlink_spec:
  assumes ok: "hok (unzip (Nd l el h r) path)" "bal (unzip (Nd l el h r) path)"
    and dist: "distinct (inord (unzip (Nd l el h r) path))"
    and ends: "av_Head t = first_of (inord (unzip (Nd l el h r) path))"
      "av_Tail t = last_of (inord (unzip (Nd l el h r) path))"
  shows "\<exists>c q hd tl. erase_unlink el (Nd l el h r, path) t = Some ((c, q), t\<lparr>av_Head := hd, av_Tail := tl\<rparr>)
    \<and> unlinked el (unzip (Nd l el h r) path) c q
    \<and> hd = first_of (remove1 el (inord (unzip (Nd l el h r) path)))
    \<and> tl = last_of (remove1 el (inord (unzip (Nd l el h r) path)))"
proof -
  have seq: "inord (unzip (Nd l el h r) path) = (before path @ inord l) @ el # (inord r @ after path)"
    by (simp add: inord_unzip)
  have rem: "remove1 el (inord (unzip (Nd l el h r) path)) = (before path @ inord l) @ (inord r @ after path)"
    using dist unfolding seq by (rule remove1_middle)
  have hd: "av_Head t = Some el \<longleftrightarrow> before path @ inord l = []"
    using ends(1) dist unfolding seq by (auto simp: first_of_append dest: first_of_mem split: if_splits)
  have tl: "av_Tail t = Some el \<longleftrightarrow> inord r @ after path = []"
    using ends(2) dist unfolding seq by (auto simp: last_of_append last_of_Cons dest: last_of_mem split: if_splits)
  show ?thesis
  proof (cases "r = Tip")
    case r: False
    obtain y k filler down where m: "take_min r [] = Some (y, filler, down)"
        "unzip (Nd Tip y k filler) down = r" "before down = []"
      using take_min_spec [OF r, of "[]"] by auto
    let ?q = "down @ FrameR l y h # path"
    have root: "unzip (Nd Tip y k filler) ?q = unzip (Nd l y h r) path" by (simp add: unzip_append m(2))
    have "hok (unzip (Nd Tip y k filler) ?q)" "bal (unzip (Nd Tip y k filler) ?q)"
      using ok hok_relabel [of l el h r path y] bal_relabel [of l el h r path y] by (simp_all add: root)
    from unlinked_place [OF this, of filler]
    have place: "hok filler \<and> bal filler \<and> hpath (ht filler + 1) ?q \<and> bpath (ht filler + 1) ?q" by simp
    have inr: "inord r = y # inord filler @ after down"
      using m(2,3) inord_unzip [of "Nd Tip y k filler" down] by simp
    have "unlinked el (unzip (Nd l el h r) path) filler ?q"
      unfolding unlinked_def rem using place by (simp add: before_append after_append m(3) inr)
    moreover have "first_of ((before path @ inord l) @ (inord r @ after path)) = (if av_Head t = Some el then Some y else av_Head t)"
      using hd ends(1) unfolding seq by (auto simp: first_of_append inr)
    moreover have "last_of ((before path @ inord l) @ (inord r @ after path)) = av_Tail t"
      using ends(2) unfolding seq by (auto simp: last_of_append last_of_Cons inr)
    ultimately show ?thesis
      using r m(1) unfolding rem by (auto simp: erase_unlink_def)
  next
    case r: True
    show ?thesis
    proof (cases "l = Tip")
      case l: False
      obtain y k filler down where m: "take_max l [] = Some (y, filler, down)"
          "unzip (Nd filler y k Tip) down = l" "after down = []"
        using take_max_spec [OF l, of "[]"] by auto
      let ?q = "down @ FrameL y h r # path"
      have root: "unzip (Nd filler y k Tip) ?q = unzip (Nd l y h r) path" by (simp add: unzip_append m(2))
      have "hok (unzip (Nd filler y k Tip) ?q)" "bal (unzip (Nd filler y k Tip) ?q)"
        using ok hok_relabel [of l el h r path y] bal_relabel [of l el h r path y] by (simp_all add: root)
      from unlinked_place [OF this, of filler]
      have place: "hok filler \<and> bal filler \<and> hpath (ht filler + 1) ?q \<and> bpath (ht filler + 1) ?q" by simp
      have inl: "inord l = before down @ inord filler @ [y]"
        using m(2,3) inord_unzip [of "Nd filler y k Tip" down] by simp
      have "unlinked el (unzip (Nd l el h r) path) filler ?q"
        unfolding unlinked_def rem using place r by (simp add: before_append after_append m(3) inl)
      moreover have "last_of ((before path @ inord l) @ (inord r @ after path)) = (if av_Tail t = Some el then Some y else av_Tail t)"
        using tl ends(2) r unfolding seq by (auto simp: last_of_append last_of_Cons inl)
      moreover have "first_of ((before path @ inord l) @ (inord r @ after path)) = av_Head t"
        using ends(1) unfolding seq by (auto simp: first_of_append inl)
      ultimately show ?thesis
        using r l m(1) unfolding rem by (auto simp: erase_unlink_def)
    next
      case l: True
      have place: "hpath 1 path \<and> bpath 1 path"
        using unlinked_place [OF ok, of Tip] r l by simp
      have "unlinked el (unzip (Nd l el h r) path) Tip path"
        unfolding unlinked_def rem using place r l by simp
      moreover have "first_of (before path @ after path) = (if av_Head t = Some el
          then (case path of [] \<Rightarrow> None | f # _ \<Rightarrow> Some (felem f)) else av_Head t)"
        using hd ends(1) r l unfolding seq
        by (cases path rule: before.cases) (auto simp: first_of_append)
      moreover have "last_of (before path @ after path) = (if av_Tail t = Some el
          then (case path of [] \<Rightarrow> None | f # _ \<Rightarrow> Some (felem f)) else av_Tail t)"
        using tl ends(2) r l unfolding seq
        by (cases path rule: before.cases) (auto simp: last_of_append last_of_Cons)
      ultimately show ?thesis
        using r l unfolding rem by (auto simp: erase_unlink_def Let_def)
    qed
  qed
qed

lemma sorted_wrt_remove1: "sorted_wrt lt xs \<Longrightarrow> sorted_wrt lt (remove1 x xs)"
  by (induction xs) (auto dest: notin_set_remove1 in_set_remove1 [THEN iffD1] set_remove1_subset [THEN subsetD])

lemma EraseImpl_spec:
  assumes inv: "avl_inv lt t" and el: "el \<in> av_owned t"
  shows "\<exists>t'. EraseImpl el t = Ret t' \<and> avl_inv lt t' \<and> av_seq t' = remove1 el (av_seq t)"
proof -
  let ?R = "av_Root t" and ?t0 = "t\<lparr>av_owned := av_owned t - {el}\<rparr>"
  have t: "hok ?R" "bal ?R" "sorted_wrt lt (inord ?R)" "av_Head t = first_of (inord ?R)"
      "av_Tail t = last_of (inord ?R)" "av_owned t = set (inord ?R)" "distinct (inord ?R)"
    using inv by (auto simp: avl_inv_def av_seq_def)
  obtain p q where loc: "locate el ?R [] = Some (p, q)"
    using locate_finds [of el ?R "[]"] el t(6) by auto
  then obtain l h r where z: "p = Nd l el h r" "unzip (Nd l el h r) q = ?R"
    using locate_Some [OF loc] by auto
  obtain c pa hd tl where u: "erase_unlink el (Nd l el h r, q) ?t0 = Some ((c, pa), ?t0\<lparr>av_Head := hd, av_Tail := tl\<rparr>)"
      "unlinked el ?R c pa" "hd = first_of (remove1 el (inord ?R))" "tl = last_of (remove1 el (inord ?R))"
    using erase_unlink_spec [of l el h r q ?t0] t z(2) by auto
  have "\<exists>root. erase_rebalance (length pa) c (RecalcHeights c pa) = Ret root \<and> hok root \<and> bal root
      \<and> inord root = before (RecalcHeights c pa) @ inord c @ after (RecalcHeights c pa)"
    by (rule erase_fix [where ?h0.0 = "ht c + 1"])
      (use u(2) RecalcHeights_hpath in \<open>auto simp: unlinked_def RecalcHeights_keeps\<close>)
  then obtain root where root: "erase_rebalance (length pa) c (RecalcHeights c pa) = Ret root" "hok root" "bal root"
      "inord root = remove1 el (inord ?R)"
    using u(2) by (auto simp: RecalcHeights_keeps unlinked_def)
  let ?t' = "?t0\<lparr>av_Head := hd, av_Tail := tl, av_Root := root\<rparr>"
  have "EraseImpl el t = Ret ?t'"
    using loc u(1) root(1) z(1) by (simp add: EraseImpl_def)
  moreover have "avl_inv lt ?t'"
    using root t u(3,4) by (simp add: avl_inv_def av_seq_def sorted_wrt_remove1 set_remove1_eq)
  ultimately show ?thesis using root(4) by (intro exI [of _ ?t']) (simp add: av_seq_def)
qed

section \<open>Height\<close>

lemma avl_height: "hok t \<Longrightarrow> bal t \<Longrightarrow> 2 ^ (ht t div 2) \<le> length (inord t) + 1"
proof (induction t)
  case (Nd l x h r)
  have h: "h = max (ht l) (ht r) + 1" using Nd.prems(1) by simp
  have low: "h \<le> ht l + 2" "h \<le> ht r + 2"
    using Nd.prems(2) h by (auto simp: unbalanced_def)
  show ?case
  proof (cases "h < 2")
    case True
    then have "h div 2 = 0" by simp
    then show ?thesis by simp
  next
    case False
    then have e: "h div 2 = Suc ((h - 2) div 2)" by (simp add: div_nat_eqI)
    have "(2 :: nat) ^ ((h - 2) div 2) \<le> 2 ^ (ht l div 2)" "(2 :: nat) ^ ((h - 2) div 2) \<le> 2 ^ (ht r div 2)"
      using low by (intro power_increasing div_le_mono; simp)+
    from add_mono [OF this] have "(2 :: nat) ^ (h div 2) \<le> 2 ^ (ht l div 2) + 2 ^ (ht r div 2)" by (simp add: e)
    then show ?thesis using Nd by simp
  qed
qed simp

section \<open>Lookup and iteration\<close>

text \<open>
  \<open>lt\<close> orders the items of the tree and the sought one strictly and totally.
\<close>

definition comparable :: "('a \<Rightarrow> 'a \<Rightarrow> bool) \<Rightarrow> 'a \<Rightarrow> 'a list \<Rightarrow> bool" where
  "comparable lt el xs \<longleftrightarrow> transp lt \<and> (\<forall>x y. lt x y \<longrightarrow> \<not> lt y x) \<and> (\<forall>x \<in> set xs. x = el \<or> lt el x \<or> lt x el)"

lemma Find_spec:
  assumes "sorted_wrt lt (inord t)" and "comparable lt el (inord t)"
  shows "avl_Find lt el t = (if el \<in> set (inord t) then Some el else None)"
  using assms
proof (induction t)
  case (Nd l x h r)
  have asym: "lt y z \<Longrightarrow> \<not> lt z y" for y z using Nd.prems(2) by (auto simp: comparable_def)
  have s: "sorted_wrt lt (inord l)" "sorted_wrt lt (inord r)" "\<And>y. y \<in> set (inord l) \<Longrightarrow> lt y x"
      "\<And>y. y \<in> set (inord r) \<Longrightarrow> lt x y"
    using Nd.prems(1) by (auto simp: sorted_wrt_append)
  have c: "comparable lt el (inord l)" "comparable lt el (inord r)" "\<not> lt el x \<Longrightarrow> \<not> lt x el \<Longrightarrow> x = el"
    using Nd.prems(2) by (auto simp: comparable_def)
  consider (left) "lt el x" "\<not> lt x el" "el \<noteq> x" | (right) "lt x el" "\<not> lt el x" "el \<noteq> x" | (eq) "x = el" "\<not> lt el el"
    using c(3) asym by blast
  then show ?case
  proof cases
    case left
    then have "el \<notin> set (inord r)" using s(4) by blast
    then show ?thesis using left Nd.IH(1) [OF s(1) c(1)] by simp
  next
    case right
    then have "el \<notin> set (inord l)" using s(3) by blast
    then show ?thesis using right Nd.IH(2) [OF s(2) c(2)] by simp
  next
    case eq
    then show ?thesis by simp
  qed
qed simp

lemma LowerBound_spec:
  assumes "sorted_wrt lt (inord t)" and "comparable lt el (inord t)"
  shows "avl_LowerBound lt el b t = (case filter (\<lambda>x. \<not> lt x el) (inord t) of [] \<Rightarrow> b | x # _ \<Rightarrow> Some x)"
  using assms
proof (induction t arbitrary: b)
  case (Nd l x h r)
  have asym: "lt y z \<Longrightarrow> \<not> lt z y" and tr: "lt y z \<Longrightarrow> lt z w \<Longrightarrow> lt y w" for y z w
    using Nd.prems(2) by (auto simp: comparable_def dest: transpD)
  have s: "sorted_wrt lt (inord l)" "sorted_wrt lt (inord r)" "\<And>y. y \<in> set (inord l) \<Longrightarrow> lt y x"
    using Nd.prems(1) by (auto simp: sorted_wrt_append)
  have c: "comparable lt el (inord l)" "comparable lt el (inord r)" "\<not> lt el x \<Longrightarrow> \<not> lt x el \<Longrightarrow> x = el"
    using Nd.prems(2) by (auto simp: comparable_def)
  consider (left) "lt el x" | (right) "lt x el" | (eq) "x = el" "\<not> lt el el" using c(3) asym by blast
  then show ?case
  proof cases
    case left
    then show ?thesis using Nd.IH(1) [OF s(1) c(1)] asym by (auto split: list.split)
  next
    case right
    then have "filter (\<lambda>x. \<not> lt x el) (inord l) = []" using s(3) tr by (auto simp: filter_empty_conv)
    then show ?thesis using right Nd.IH(2) [OF s(2) c(2)] asym by auto
  next
    case eq
    then have "filter (\<lambda>x. \<not> lt x el) (inord l) = []" using s(3) by (auto simp: filter_empty_conv)
    then show ?thesis using eq by simp
  qed
qed simp

lemma down_left_spec:
  assumes "t \<noteq> Tip"
  shows "\<exists>y k r path'. down_left t path = (Nd Tip y k r, path') \<and> unzip (Nd Tip y k r) path' = unzip t path
    \<and> before path' = before path"
  using assms by (induction t path rule: down_left.induct) auto

lemma down_right_spec:
  assumes "t \<noteq> Tip"
  shows "\<exists>y k l path'. down_right t path = (Nd l y k Tip, path') \<and> unzip (Nd l y k Tip) path' = unzip t path
    \<and> after path' = after path"
  using assms by (induction t path rule: down_right.induct) auto

lemma up_from_right_spec:
  "case up_from_right t path of
     None \<Rightarrow> after path = []
   | Some (u, path') \<Rightarrow> \<exists>l y k r. u = Nd l y k r \<and> unzip u path' = unzip t path
       \<and> before path' @ inord l = before path @ inord t"
  by (induction t path rule: up_from_right.induct) (auto split: option.split prod.splits)

lemma up_from_left_spec:
  "case up_from_left t path of
     None \<Rightarrow> before path = []
   | Some (u, path') \<Rightarrow> \<exists>l y k r. u = Nd l y k r \<and> unzip u path' = unzip t path
       \<and> inord r @ after path' = inord t @ after path"
  by (induction t path rule: up_from_left.induct) (auto split: option.split prod.splits)

text \<open>The position of the element that has exactly the elements \<open>xs\<close> before it.\<close>

definition at_index :: "'a avl \<Rightarrow> nat \<Rightarrow> 'a avl \<times> 'a path \<Rightarrow> bool" where
  "at_index t n p \<longleftrightarrow> (\<exists>l y k r path. p = (Nd l y k r, path) \<and> unzip (Nd l y k r) path = t
     \<and> length (before path @ inord l) = n)"

lemma at_index_inord:
  assumes "at_index t n (Nd l y k r, path)"
  shows "inord t = (before path @ inord l) @ y # inord r @ after path" and "n = length (before path @ inord l)"
  using assms inord_unzip [of "Nd l y k r" path] by (auto simp: at_index_def)

lemma FindNext_spec:
  assumes "at_index t n p"
  shows "case FindNext p of None \<Rightarrow> Suc n = length (inord t) | Some q \<Rightarrow> at_index t (Suc n) q"
proof -
  obtain l y k r path where p: "p = (Nd l y k r, path)" using assms by (auto simp: at_index_def)
  have root: "unzip (Nd l y k r) path = t" using assms p by (auto simp: at_index_def)
  note seq = at_index_inord [OF assms [unfolded p]]
  show ?thesis
  proof (cases "r = Tip")
    case True
    show ?thesis
      using up_from_right_spec [where t = "Nd l y k r" and path = path] root seq True
      by (auto simp: p at_index_def split: option.splits dest: arg_cong [of _ _ length])
  next
    case False
    then show ?thesis
      using down_left_spec [OF False, of "FrameR l y k # path"] root seq
      by (auto simp: p at_index_def)
  qed
qed

lemma FindPrev_spec:
  assumes "at_index t n p"
  shows "case FindPrev p of None \<Rightarrow> n = 0 | Some q \<Rightarrow> 0 < n \<and> at_index t (n - 1) q"
proof -
  obtain l y k r path where p: "p = (Nd l y k r, path)" using assms by (auto simp: at_index_def)
  have root: "unzip (Nd l y k r) path = t" using assms p by (auto simp: at_index_def)
  note seq = at_index_inord [OF assms [unfolded p]]
  have idx: "at_index t (n - 1) (Nd l' y' k' r', path') \<and> 0 < n"
    if "unzip (Nd l' y' k' r') path' = t" "inord r' @ after path' = y # inord r @ after path" for l' y' k' r' path'
  proof -
    have "inord t = (before path' @ inord l') @ y' # y # inord r @ after path"
      using inord_unzip [of "Nd l' y' k' r'" path'] that by simp
    with seq have "length (before path' @ inord l') + 1 = n" by (auto dest: arg_cong [of _ _ length])
    then show ?thesis using that(1) by (auto simp: at_index_def)
  qed
  show ?thesis
  proof (cases "l = Tip")
    case True
    show ?thesis
      using up_from_left_spec [where t = "Nd l y k r" and path = path] root seq True idx
      by (auto simp: p split: option.splits)
  next
    case False
    obtain y' k' l' path' where "down_right l (FrameL y k r # path) = (Nd l' y' k' Tip, path')"
        "unzip (Nd l' y' k' Tip) path' = t" "after path' = y # inord r @ after path"
      using down_right_spec [OF False, of "FrameL y k r # path"] root by auto
    then show ?thesis using False idx [of l' y' k' Tip path'] by (simp add: p)
  qed
qed

section \<open>The promises of the tree\<close>

lemma Insert_duplicate:
  assumes inv: "avl_inv lt t" and tr: "transp lt" and new: "el \<notin> av_owned t"
    and dup: "\<exists>x \<in> set (av_seq t). \<not> lt el x \<and> \<not> lt x el"
  shows "\<exists>x \<in> set (av_seq t). \<not> lt el x \<and> \<not> lt x el
    \<and> Insert lt el t = Ret (None, x, t\<lparr>av_owned := insert el (av_owned t)\<rparr>)"
proof (cases "descend lt el (av_Root t) []")
  case (Inl x)
  then show ?thesis
    using descend_found [OF Inl] new by (auto simp: Insert_def Unlink_def av_seq_def)
next
  case (Inr path)
  have "set (av_seq t) = set (before path) \<union> set (after path)"
    using descend_path [OF Inr] inord_unzip [of Tip path] by (simp add: av_seq_def)
  moreover have "(\<forall>x \<in> set (before path). lt x el) \<and> (\<forall>x \<in> set (after path). lt el x)"
    using descend_order [OF tr _ _ _ Inr] inv by (simp add: avl_inv_def av_seq_def)
  ultimately show ?thesis using dup by auto
qed

text \<open>
  C16. \<open>Insert\<close> of an item that is not in the tree: if it is comparable with all items it takes its
  place in the order, the tree stays balanced (so its height is logarithmic), and \<open>First\<close>, \<open>Last\<close>
  are the ends of the new sequence. If an equal item is present, it is reported, nothing is linked,
  but the rejected item is left marked as a member of the tree.
\<close>

theorem avl_insert:
  assumes "avl_inv lt t" and "transp lt" and "\<And>x y. lt x y \<Longrightarrow> \<not> lt y x" and "el \<notin> av_owned t"
  shows "if \<forall>x \<in> set (av_seq t). lt el x \<or> lt x el
    then \<exists>t'. Insert lt el t = Ret (Some el, el, t') \<and> avl_inv lt t'
      \<and> av_seq t' = filter (\<lambda>x. lt x el) (av_seq t) @ el # filter (\<lambda>x. lt el x) (av_seq t)
      \<and> First t' = Some (hd (av_seq t')) \<and> Last t' = Some (List.last (av_seq t'))
      \<and> 2 ^ (ht (av_Root t') div 2) \<le> length (av_seq t') + 1
    else \<exists>x \<in> set (av_seq t). \<not> lt el x \<and> \<not> lt x el
      \<and> Insert lt el t = Ret (None, x, t\<lparr>av_owned := insert el (av_owned t)\<rparr>)"
proof (cases "\<forall>x \<in> set (av_seq t). lt el x \<or> lt x el")
  case True
  then obtain t' where t': "Insert lt el t = Ret (Some el, el, t')" "avl_inv lt t'"
      "av_seq t' = filter (\<lambda>x. lt x el) (av_seq t) @ el # filter (\<lambda>x. lt el x) (av_seq t)"
    using Insert_spec [OF assms(1,2,4) _ assms(3)] by blast
  moreover have "First t' = Some (hd (av_seq t'))" "Last t' = Some (List.last (av_seq t'))"
    using t'(2,3) by (cases "av_seq t'"; auto simp: First_def Last_def avl_inv_def first_of_def last_of_def split: list.splits)+
  moreover have "2 ^ (ht (av_Root t') div 2) \<le> length (av_seq t') + 1"
    using t'(2) avl_height [of "av_Root t'"] by (simp add: avl_inv_def av_seq_def)
  ultimately show ?thesis using True by auto
next
  case False
  then show ?thesis using Insert_duplicate [OF assms(1,2,4)] by auto
qed

text \<open>
  C17. \<open>Erase\<close> unlinks exactly the given item of this tree, keeps the order and the balance, and
  rejects an item of another tree; the rebalancing loop ends.
\<close>

theorem avl_erase:
  assumes "avl_inv lt t"
  shows "if el \<in> av_owned t
    then \<exists>t'. Erase el t = Ret (Some el, t') \<and> avl_inv lt t' \<and> av_seq t' = remove1 el (av_seq t)
      \<and> (Empty t' \<longleftrightarrow> av_seq t = [el]) \<and> 2 ^ (ht (av_Root t') div 2) \<le> length (av_seq t') + 1
    else Erase el t = Ret (None, t)"
proof (cases "el \<in> av_owned t")
  case True
  then obtain t' where t': "EraseImpl el t = Ret t'" "avl_inv lt t'" "av_seq t' = remove1 el (av_seq t)"
    using EraseImpl_spec [OF assms] by blast
  have "el \<in> set (av_seq t)" using assms True by (simp add: avl_inv_def)
  then have "av_seq t' = [] \<longleftrightarrow> av_seq t = [el]"
    using t'(3) by (cases "av_seq t") (auto split: if_splits)
  then have "Empty t' \<longleftrightarrow> av_seq t = [el]"
    using t'(2) by (cases "av_seq t'") (auto simp: Empty_def First_def avl_inv_def)
  moreover have "2 ^ (ht (av_Root t') div 2) \<le> length (av_seq t') + 1"
    using t'(2) avl_height [of "av_Root t'"] by (simp add: avl_inv_def av_seq_def)
  ultimately show ?thesis using True t' by (simp add: Erase_def)
qed (simp add: Erase_def)

lemma find_filter: "find P xs = (case filter P xs of [] \<Rightarrow> None | x # _ \<Rightarrow> Some x)"
  by (induction xs) auto

fun pos_elem :: "'a avl \<times> 'a path \<Rightarrow> 'a option" where
  "pos_elem (Nd l x h r, path) = Some x"
| "pos_elem (Tip, path) = None"

lemma at_index_elem:
  assumes "at_index t n p"
  shows "pos_elem p = Some (inord t ! n)"
proof -
  obtain l y k r path where p: "p = (Nd l y k r, path)" using assms by (auto simp: at_index_def)
  show ?thesis using at_index_inord [OF assms [unfolded p]] by (simp add: p nth_append)
qed

lemma at_index_less:
  assumes "at_index t n p"
  shows "n < length (inord t)"
proof -
  obtain l y k r path where p: "p = (Nd l y k r, path)" using assms by (auto simp: at_index_def)
  show ?thesis using at_index_inord [OF assms [unfolded p]] by simp
qed

lemma locate_first:
  assumes "distinct (inord t)" and "inord t = x # xs"
  shows "\<exists>p. locate x t [] = Some p \<and> at_index t 0 p"
proof -
  obtain p where p: "locate x t [] = Some p" using locate_finds [of x t "[]"] assms(2) by auto
  obtain u path where u: "p = (u, path)" by fastforce
  then obtain l h r where z: "p = (Nd l x h r, path)" "unzip (Nd l x h r) path = t"
    using locate_Some [of x t "[]" u path] p by auto
  then have "inord t = (before path @ inord l) @ x # inord r @ after path"
    using inord_unzip [of "Nd l x h r" path] by simp
  then have "before path @ inord l = []"
    using assms by (cases "before path @ inord l") auto
  then show ?thesis using p z by (auto simp: at_index_def)
qed

text \<open>
  C18. An iterator started at \<open>Begin()\<close> and advanced with \<open>++\<close> visits the items in order, each once,
  and is the end iterator after the last; \<open>--\<close> undoes \<open>++\<close>. \<open>Find\<close> and \<open>LowerBound\<close> return the item
  itself and the first item not below the sought one.
\<close>

theorem avl_iteration:
  assumes inv: "avl_inv lt t" and "n \<le> length (av_seq t)" and "av_seq t \<noteq> []"
    and cmp: "comparable lt el (av_seq t)"
  shows "(let it = (\<lambda>k. ((\<lambda>p. Option.bind p FindNext) ^^ k) (Option.bind (First t) (\<lambda>x. locate x (av_Root t) []))) in
      (if n < length (av_seq t) then Option.bind (it n) pos_elem = Some (av_seq t ! n) else it n = None)
      \<and> (Suc n < length (av_seq t) \<longrightarrow> Option.bind (Option.bind (it (Suc n)) FindPrev) pos_elem = Some (av_seq t ! n)))
    \<and> avl_Find lt el (av_Root t) = (if el \<in> set (av_seq t) then Some el else None)
    \<and> avl_LowerBound lt el None (av_Root t) = find (\<lambda>x. \<not> lt x el) (av_seq t)"
proof -
  define it where "it k = ((\<lambda>p. Option.bind p FindNext) ^^ k) (Option.bind (First t) (\<lambda>x. locate x (av_Root t) []))" for k
  let ?R = "av_Root t"
  obtain x xs where seq: "inord ?R = x # xs" using assms(3) by (cases "inord ?R") (auto simp: av_seq_def)
  have d: "distinct (inord ?R)" and srt: "sorted_wrt lt (inord ?R)" and hd: "First t = Some x"
    using inv seq by (auto simp: avl_inv_def av_seq_def First_def)
  have it: "if k < length (inord ?R) then \<exists>p. it k = Some p \<and> at_index ?R k p else it k = None"
    if "k \<le> length (inord ?R)" for k
    using that
  proof (induction k)
    case 0
    then show ?case using locate_first [OF d seq] seq hd by (auto simp: it_def)
  next
    case (Suc k)
    then obtain p where p: "it k = Some p" "at_index ?R k p" by auto
    have st: "it (Suc k) = Option.bind (it k) FindNext" by (simp add: it_def)
    show ?case
      using FindNext_spec [OF p(2)] Suc.prems at_index_less [of ?R "Suc k"] unfolding st p(1)
      by (cases "FindNext p") auto
  qed
  have prev: "Option.bind (Option.bind (it (Suc n)) FindPrev) pos_elem = Some (inord ?R ! n)"
    if len: "Suc n < length (inord ?R)"
  proof -
    obtain p where p: "it (Suc n) = Some p" "at_index ?R (Suc n) p" using it [OF less_imp_le [OF len]] len by auto
    then obtain q where "FindPrev p = Some q" "at_index ?R n q"
      using FindPrev_spec [OF p(2)] by (cases "FindPrev p") auto
    then show ?thesis using p at_index_elem by (simp)
  qed
  have "if n < length (inord ?R) then Option.bind (it n) pos_elem = Some (inord ?R ! n) else it n = None"
    using it [of n] assms(2) at_index_elem by (auto simp: av_seq_def)
  moreover have "avl_LowerBound lt el None ?R = find (\<lambda>x. \<not> lt x el) (inord ?R)"
    using LowerBound_spec [OF srt, of el None] cmp by (simp add: av_seq_def find_filter)
  ultimately show ?thesis
    using prev Find_spec [OF srt] cmp by (simp add: Let_def it_def [symmetric] av_seq_def)
qed

text \<open>A tree of five items, inserted in ascending order, and its erasures.\<close>

definition avl_example :: "nat list \<Rightarrow> nat avltree outcome" where
  "avl_example xs = ofold (\<lambda>x t. obind (Insert (<) x t) (\<lambda>(_, _, t'). Ret t')) xs avltree_new"

lemma avl_example_inv:
  assumes "distinct xs"
  shows "\<exists>t. avl_example xs = Ret t \<and> avl_inv (<) t \<and> set (av_seq t) = set xs"
  using assms
proof (induction xs rule: rev_induct)
  case Nil
  then show ?case using avl_inv_new by (auto simp: avl_example_def av_seq_def avltree_new_def)
next
  case (snoc x xs)
  then obtain t where t: "avl_example xs = Ret t" "avl_inv (<) t" "set (av_seq t) = set xs" by auto
  have "\<forall>y \<in> set (av_seq t). x < y \<or> y < x" using t(3) snoc.prems by (metis distinct_append disjoint_insert(1) insert_absorb linorder_neqE_nat list.set_intros(1) IntI empty_iff)
  then have "\<exists>t'. Insert (<) x t = Ret (Some x, x, t') \<and> avl_inv (<) t'
      \<and> av_seq t' = filter (\<lambda>y. y < x) (av_seq t) @ x # filter (\<lambda>y. x < y) (av_seq t)"
    by (intro Insert_spec [OF t(2)]) (use t snoc.prems in \<open>auto simp: avl_inv_def\<close>)
  then obtain t' where t': "Insert (<) x t = Ret (Some x, x, t')" "avl_inv (<) t'"
      "av_seq t' = filter (\<lambda>y. y < x) (av_seq t) @ x # filter (\<lambda>y. x < y) (av_seq t)" by blast
  have "avl_example (xs @ [x]) = Ret t'" using t(1) t'(1) by (simp add: avl_example_def ofold_append)
  moreover have "set (av_seq t') = set (xs @ [x])" using t'(3) t(3) snoc.prems by auto
  ultimately show ?case using t'(2) by blast
qed

theorem avl_insert_witness:
  "\<exists>t t'. avl_example [1, 2, 3, 4, 5] = Ret t \<and> Insert (<) 0 t = Ret (Some 0, 0, t') \<and> avl_inv (<) t'"
proof -
  obtain t where t: "avl_example [1, 2, 3, 4, 5] = Ret t" "avl_inv (<) t" "set (av_seq t) = {1, 2, 3, 4, 5}"
    using avl_example_inv [of "[1, 2, 3, 4, 5]"] by auto
  have "0 \<notin> av_owned t" using t by (simp add: avl_inv_def)
  with avl_insert [OF t(2), of 0] t show ?thesis by auto
qed

theorem avl_erase_witness:
  "\<exists>t t'. avl_example [1, 2, 3, 4, 5] = Ret t \<and> Erase 2 t = Ret (Some 2, t') \<and> av_seq t' = remove1 2 (av_seq t)"
proof -
  obtain t where t: "avl_example [1, 2, 3, 4, 5] = Ret t" "avl_inv (<) t" "set (av_seq t) = {1, 2, 3, 4, 5}"
    using avl_example_inv [of "[1, 2, 3, 4, 5]"] by auto
  have "2 \<in> av_owned t" using t by (simp add: avl_inv_def)
  with avl_erase [OF t(2), of 2] t show ?thesis by auto
qed

theorem avl_iteration_witness:
  "\<exists>t. avl_example [1, 2, 3, 4, 5] = Ret t \<and> avl_Find (<) 4 (av_Root t) = Some 4
     \<and> avl_LowerBound (<) 4 None (av_Root t) = find (\<lambda>x. \<not> x < 4) (av_seq t)"
proof -
  obtain t where t: "avl_example [1, 2, 3, 4, 5] = Ret t" "avl_inv (<) t" "set (av_seq t) = {1, 2, 3, 4, 5}"
    using avl_example_inv [of "[1, 2, 3, 4, 5]"] by auto
  have "comparable (<) 4 (av_seq t)" using t(3) by (auto simp: comparable_def)
  moreover have "av_seq t \<noteq> []" using t(3) by auto
  ultimately show ?thesis using avl_iteration [OF t(2), of 0 4] t by auto
qed

end
