(* ===== verification/Rrobin.thy ===== *)
theory Rrobin
  imports Backends Avlproofs
begin

text \<open>
  The algorithms "rr" and "srr" (web/httpd/modules/balancer/rrobin.cpp and smartrr.cpp): the
  backends sit in an AVL tree ordered by weight and address; the first one is taken out, made
  heavier and put back. The two files share their \<open>TBackEnds\<close>, here the operations on \<open>'b rr\<close> with
  the weight and the step of a backend as arguments; the locale \<open>weight_step\<close> states what they rely
  on. The address of a backend in the memory pool is given by \<open>rr_addr\<close>.
\<close>

record 'b rr =
  rr_List :: "'b list"
  rr_addr :: "nat \<Rightarrow> ui64"
  rr_Servers :: "nat avltree"

text \<open>\<open>TBackEnd::Compare\<close> on the backends with the given indices.\<close>

definition rr_Compare :: "('b \<Rightarrow> real) \<Rightarrow> 'b list \<Rightarrow> (nat \<Rightarrow> ui64) \<Rightarrow> nat \<Rightarrow> nat \<Rightarrow> bool" where
  "rr_Compare getW l addr i j \<longleftrightarrow>
     getW (l ! i) < getW (l ! j) \<or> getW (l ! i) = getW (l ! j) \<and> addr i < addr j"

definition rr_Add :: "('b \<Rightarrow> real) \<Rightarrow> 'b \<Rightarrow> 'b rr \<Rightarrow> 'b rr outcome" where
  "rr_Add getW b s =
     (let l = rr_List s @ [b] in
      obind (Insert (rr_Compare getW l (rr_addr s)) (length (rr_List s)) (rr_Servers s))
        (\<lambda>(_, _, t). Ret (s\<lparr>rr_List := l, rr_Servers := t\<rparr>)))"

text \<open>\<open>DoNext\<close>; on an empty tree \<open>*Servers_.Begin()\<close> dereferences a null pointer.\<close>

definition rr_DoNext :: "('b \<Rightarrow> real) \<Rightarrow> ('b \<Rightarrow> 'b) \<Rightarrow> 'b rr \<Rightarrow> nat option outcome \<times> 'b rr" where
  "rr_DoNext getW inc s =
     (case First (rr_Servers s) of
        None \<Rightarrow> (Crash, s)
      | Some nxt \<Rightarrow>
          (let r = obind (Erase nxt (rr_Servers s)) (\<lambda>(_, t1).
                   let l = (rr_List s)[nxt := inc (rr_List s ! nxt)] in
                   obind (Insert (rr_Compare getW l (rr_addr s)) nxt t1) (\<lambda>(_, _, t2).
                     Ret (s\<lparr>rr_List := l, rr_Servers := t2\<rparr>)))
           in case r of Ret s' \<Rightarrow> (Ret (Some nxt), s') | _ \<Rightarrow> (Crash, s)))"

definition rr_Size :: "'b rr \<Rightarrow> nat" where
  "rr_Size s = length (rr_List s)"

definition rr_upd :: "('b \<Rightarrow> 'b) \<Rightarrow> nat \<Rightarrow> 'b rr \<Rightarrow> 'b rr" where
  "rr_upd f i s = s\<lparr>rr_List := (rr_List s)[i := f (rr_List s ! i)]\<rparr>"

section \<open>Always taking the lightest serves everyone\<close>

text \<open>
  \<open>W n i\<close> is the weight of \<open>i\<close> after \<open>n\<close> rounds, \<open>k n\<close> the one taken in round \<open>n\<close>.
\<close>

lemma lightest_serves:
  fixes W :: "nat \<Rightarrow> nat \<Rightarrow> real"
  assumes lo: "0 < lo" and j: "j < N" and k: "\<And>n. k n < N" and min: "\<And>n. W n (k n) \<le> W n j"
    and same: "\<And>n i. i \<noteq> k n \<Longrightarrow> W (Suc n) i = W n i"
    and up: "\<And>n. W n (k n) + lo \<le> W (Suc n) (k n) \<and> W (Suc n) (k n) \<le> W n (k n) + hi"
  shows "\<exists>n. k n = j"
proof (rule ccontr)
  assume never: "\<not> (\<exists>n. k n = j)"
  have Wj: "W n j = W 0 j" for n
    by (induction n) (use same never in metis)+
  have bound: "W n i \<le> max (W 0 i) (W 0 j + hi)" for n i
  proof (induction n)
    case (Suc n)
    show ?case
    proof (cases "i = k n")
      case True
      then have "W (Suc n) i \<le> W 0 j + hi" using up [of n] min [of n] Wj [of n] by simp
      then show ?thesis by simp
    next
      case False
      then show ?thesis using Suc same by simp
    qed
  qed simp
  have grow: "(\<Sum>i<N. W 0 i) + real n * lo \<le> (\<Sum>i<N. W n i)" for n
  proof (induction n)
    case (Suc n)
    have "(\<Sum>i<N. W (Suc n) i) = W (Suc n) (k n) + (\<Sum>i \<in> {..<N} - {k n}. W (Suc n) i)"
      using sum.remove [of "{..<N}" "k n" "W (Suc n)"] k by simp
    also have "(\<Sum>i \<in> {..<N} - {k n}. W (Suc n) i) = (\<Sum>i \<in> {..<N} - {k n}. W n i)"
      by (rule sum.cong) (auto simp: same)
    also have "W (Suc n) (k n) + (\<Sum>i \<in> {..<N} - {k n}. W n i) \<ge> W n (k n) + lo + (\<Sum>i \<in> {..<N} - {k n}. W n i)"
      using up [of n] by simp
    also have "W n (k n) + lo + (\<Sum>i \<in> {..<N} - {k n}. W n i) = (\<Sum>i<N. W n i) + lo"
      using sum.remove [of "{..<N}" "k n" "W n"] k by simp
    finally show ?case using Suc by (simp add: algebra_simps)
  qed simp
  obtain n :: nat where n: "((\<Sum>i<N. max (W 0 i) (W 0 j + hi)) - (\<Sum>i<N. W 0 i)) / lo < real n"
    using reals_Archimedean2 by blast
  have "(\<Sum>i<N. W n i) \<le> (\<Sum>i<N. max (W 0 i) (W 0 j + hi))" by (intro sum_mono bound)
  with grow [of n] have "real n * lo \<le> (\<Sum>i<N. max (W 0 i) (W 0 j + hi)) - (\<Sum>i<N. W 0 i)" by linarith
  with n lo show False by (simp add: pos_divide_less_eq)
qed

section \<open>The shared contract\<close>

locale weight_step =
  fixes getW :: "'b \<Rightarrow> real" and inc :: "'b \<Rightarrow> 'b" and good :: "real \<Rightarrow> real \<Rightarrow> 'b \<Rightarrow> bool"
  assumes good_pos: "good lo hi b \<Longrightarrow> 0 < lo"
    and inc_step: "good lo hi b \<Longrightarrow> getW b + lo \<le> getW (inc b) \<and> getW (inc b) \<le> getW b + hi"
    and inc_good: "good lo hi b \<Longrightarrow> good lo hi (inc b)"
begin

abbreviation cmp :: "'b rr \<Rightarrow> nat \<Rightarrow> nat \<Rightarrow> bool" where
  "cmp s \<equiv> rr_Compare getW (rr_List s) (rr_addr s)"

definition rr_shape :: "'b rr \<Rightarrow> bool" where
  "rr_shape s \<longleftrightarrow> avl_inv (cmp s) (rr_Servers s) \<and> set (av_seq (rr_Servers s)) = {..<rr_Size s}
     \<and> inj_on (rr_addr s) {..<rr_Size s}"

definition rr_ok :: "real \<Rightarrow> real \<Rightarrow> 'b rr \<Rightarrow> bool" where
  "rr_ok lo hi s \<longleftrightarrow> rr_shape s \<and> (\<forall>b \<in> set (rr_List s). good lo hi b)"

definition rr_inv :: "'b rr \<Rightarrow> bool" where
  "rr_inv s \<longleftrightarrow> rr_List s \<noteq> [] \<and> (\<exists>lo hi. rr_ok lo hi s)"

lemma cmp_transp: "transp (rr_Compare getW l addr)"
  by (rule transpI) (auto simp: rr_Compare_def)

lemma cmp_asym: "rr_Compare getW l addr i j \<Longrightarrow> \<not> rr_Compare getW l addr j i"
  by (auto simp: rr_Compare_def)

lemma cmp_total:
  assumes "inj_on addr {..<n}" and "i < n" and "j < n" and "i \<noteq> j"
  shows "rr_Compare getW l addr i j \<or> rr_Compare getW l addr j i"
proof -
  have "addr i \<noteq> addr j" using assms by (metis inj_onD lessThan_iff)
  then show ?thesis using linorder_neq_iff [of "addr i" "addr j"] by (auto simp: rr_Compare_def)
qed

text \<open>The order of the backends still in the tree does not depend on one outside it.\<close>

lemma avl_inv_cong:
  assumes "avl_inv lt t" and "\<And>i j. i \<in> set (av_seq t) \<Longrightarrow> j \<in> set (av_seq t) \<Longrightarrow> lt i j = lt' i j"
  shows "avl_inv lt' t"
  using assms sorted_wrt_mono_rel [of "av_seq t" lt lt'] by (auto simp: avl_inv_def)

lemma insert_tree:
  assumes "avl_inv (rr_Compare getW l addr) t" and "set (av_seq t) = S" and "i \<notin> S"
    and "inj_on addr {..<n}" and "i < n" and "S \<subseteq> {..<n}"
  shows "\<exists>t'. Insert (rr_Compare getW l addr) i t = Ret (Some i, i, t')
    \<and> avl_inv (rr_Compare getW l addr) t' \<and> set (av_seq t') = insert i S"
proof -
  have cmpS: "\<forall>x \<in> set (av_seq t). rr_Compare getW l addr i x \<or> rr_Compare getW l addr x i"
    using cmp_total [OF assms(4,5)] assms(2,3,6) by (metis lessThan_iff subsetD)
  obtain t' where t': "Insert (rr_Compare getW l addr) i t = Ret (Some i, i, t')" "avl_inv (rr_Compare getW l addr) t'"
      "av_seq t' = filter (\<lambda>x. rr_Compare getW l addr x i) (av_seq t) @ i # filter (\<lambda>x. rr_Compare getW l addr i x) (av_seq t)"
    using Insert_spec [OF assms(1) cmp_transp _ cmpS cmp_asym] assms(1-3) by (auto simp: avl_inv_def)
  then show ?thesis using cmpS assms(2) by auto
qed

lemma rr_Add_ok:
  assumes "rr_shape s" and "inj_on (rr_addr s) {..<Suc (rr_Size s)}"
  shows "\<exists>s'. rr_Add getW b s = Ret s' \<and> rr_shape s' \<and> rr_List s' = rr_List s @ [b] \<and> rr_addr s' = rr_addr s"
proof -
  let ?l = "rr_List s @ [b]" and ?n = "rr_Size s"
  have "avl_inv (rr_Compare getW ?l (rr_addr s)) (rr_Servers s)"
    by (rule avl_inv_cong [where lt = "cmp s"])
      (use assms(1) in \<open>auto simp: rr_shape_def rr_Compare_def nth_append rr_Size_def\<close>)
  from insert_tree [OF this, of "{..<?n}" ?n "Suc ?n"] assms
  obtain t' where "Insert (rr_Compare getW ?l (rr_addr s)) ?n (rr_Servers s) = Ret (Some ?n, ?n, t')"
      "avl_inv (rr_Compare getW ?l (rr_addr s)) t'" "set (av_seq t') = insert ?n {..<?n}"
    by (auto simp: rr_shape_def)
  then show ?thesis
    using assms by (auto simp: rr_Add_def rr_shape_def rr_Size_def lessThan_Suc)
qed

text \<open>\<open>DoNext\<close> returns the first backend in the order and moves only its weight.\<close>

lemma rr_next:
  assumes ok: "rr_ok lo hi s" and ne: "rr_List s \<noteq> []"
  shows "\<exists>i s'. rr_DoNext getW inc s = (Ret (Some i), s') \<and> i < rr_Size s \<and> rr_ok lo hi s'
    \<and> rr_List s' = (rr_List s)[i := inc (rr_List s ! i)] \<and> rr_addr s' = rr_addr s
    \<and> (\<forall>j < rr_Size s. j \<noteq> i \<longrightarrow> cmp s i j)"
proof -
  let ?t = "rr_Servers s" and ?n = "rr_Size s"
  have inv: "avl_inv (cmp s) ?t" and set: "set (av_seq ?t) = {..<?n}" and inj: "inj_on (rr_addr s) {..<?n}"
    and good: "\<forall>b \<in> set (rr_List s). good lo hi b"
    using ok by (auto simp: rr_ok_def rr_shape_def)
  have "?n > 0" using ne by (simp add: rr_Size_def)
  then obtain i xs where seq: "av_seq ?t = i # xs" using set by (cases "av_seq ?t") auto
  have i: "i < ?n" using set seq by auto
  have first: "First ?t = Some i" using inv seq by (simp add: First_def avl_inv_def)
  have own: "i \<in> av_owned ?t" using inv seq by (simp add: avl_inv_def)
  obtain t1 where t1: "EraseImpl i ?t = Ret t1" "avl_inv (cmp s) t1" "av_seq t1 = xs"
    using EraseImpl_spec [OF inv own] seq by auto
  have dist: "distinct (i # xs)" using inv seq by (simp add: avl_inv_def)
  then have set1: "set xs = {..<?n} - {i}" using set seq by auto
  let ?l = "(rr_List s)[i := inc (rr_List s ! i)]"
  have "avl_inv (rr_Compare getW ?l (rr_addr s)) t1"
    by (rule avl_inv_cong [OF t1(2)]) (use set1 t1(3) in \<open>auto simp: rr_Compare_def\<close>)
  from insert_tree [OF this, of "{..<?n} - {i}" i ?n] t1(3) set1 inj i
  obtain t2 where t2: "Insert (rr_Compare getW ?l (rr_addr s)) i t1 = Ret (Some i, i, t2)"
      "avl_inv (rr_Compare getW ?l (rr_addr s)) t2" "set (av_seq t2) = insert i ({..<?n} - {i})"
    by auto
  let ?s' = "s\<lparr>rr_List := ?l, rr_Servers := t2\<rparr>"
  have "rr_DoNext getW inc s = (Ret (Some i), ?s')"
    using first own t1(1) t2(1) by (simp add: rr_DoNext_def Erase_def Let_def)
  moreover have "rr_ok lo hi ?s'"
    using t2(2,3) inj i good inc_good [of lo hi "rr_List s ! i"] set_update_subset_insert [of "rr_List s" i "inc (rr_List s ! i)"]
    by (auto simp: rr_ok_def rr_shape_def rr_Size_def insert_absorb)
  moreover have "\<forall>j < ?n. j \<noteq> i \<longrightarrow> cmp s i j"
    using inv seq set by (auto simp: avl_inv_def)
  ultimately show ?thesis using i by (intro exI [of _ i] exI [of _ ?s']) simp
qed

lemma rr_upd_ok:
  assumes ok: "rr_ok lo hi s" and i: "i < rr_Size s" and "getW (f (rr_List s ! i)) = getW (rr_List s ! i)"
    and "good lo hi (f (rr_List s ! i))"
  shows "rr_ok lo hi (rr_upd f i s)" and "rr_Size (rr_upd f i s) = rr_Size s"
proof -
  have "getW ((rr_List s)[i := f (rr_List s ! i)] ! j) = getW (rr_List s ! j)" if "j < rr_Size s" for j
    using that i assms(3) by (cases "i = j") (simp_all add: rr_Size_def)
  note same = this
  have "avl_inv (cmp (rr_upd f i s)) (rr_Servers s)"
    by (rule avl_inv_cong [of "cmp s"]) (use ok same in \<open>auto simp: rr_ok_def rr_shape_def rr_Compare_def rr_upd_def\<close>)
  then show "rr_ok lo hi (rr_upd f i s)"
    using ok assms(4) set_update_subset_insert [of "rr_List s" i "f (rr_List s ! i)"]
    by (auto simp: rr_ok_def rr_shape_def rr_upd_def rr_Size_def)
  show "rr_Size (rr_upd f i s) = rr_Size s" by (simp add: rr_upd_def rr_Size_def)
qed

text \<open>The states of a sequence of \<open>DoNext\<close> calls, and the backends they return.\<close>

lemma rr_serves:
  assumes ok: "rr_ok lo hi (st 0)" and ne: "rr_List (st 0) \<noteq> []"
    and step: "\<And>n. rr_DoNext getW inc (st n) = (Ret (Some (k n)), st (Suc n))" and j: "j < rr_Size (st 0)"
  shows "\<exists>n. k n = j"
proof -
  define N where "N = rr_Size (st 0)"
  define W where "W n i = getW (rr_List (st n) ! i)" for n i
  have jN: "j < N" using j by (simp add: N_def)
  have inv: "rr_ok lo hi (st n) \<and> rr_Size (st n) = N" for n
  proof (induction n)
    case (Suc n)
    then have "rr_List (st n) \<noteq> []" using jN by (auto simp: rr_Size_def)
    with Suc obtain i s' where "rr_DoNext getW inc (st n) = (Ret (Some i), s')" "rr_ok lo hi s'"
        "rr_List s' = (rr_List (st n))[i := inc (rr_List (st n) ! i)]"
      using rr_next by blast
    with step [of n] Suc show ?case by (simp add: rr_Size_def)
  qed (use ok in \<open>simp add: N_def\<close>)
  have facts: "k n < N \<and> W n (k n) \<le> W n j \<and> (\<forall>i. i \<noteq> k n \<longrightarrow> W (Suc n) i = W n i)
      \<and> W n (k n) + lo \<le> W (Suc n) (k n) \<and> W (Suc n) (k n) \<le> W n (k n) + hi" for n
  proof -
    have "rr_List (st n) \<noteq> []" using inv [of n] jN by (auto simp: rr_Size_def)
    then obtain i s' where i: "rr_DoNext getW inc (st n) = (Ret (Some i), s')" "i < rr_Size (st n)"
        "rr_List s' = (rr_List (st n))[i := inc (rr_List (st n) ! i)]"
        "\<forall>j < rr_Size (st n). j \<noteq> i \<longrightarrow> cmp (st n) i j"
      using rr_next inv by blast
    have "i = k n" "s' = st (Suc n)" using i(1) step [of n] by simp_all
    with i inv have r: "k n < N" "rr_List (st (Suc n)) = (rr_List (st n))[k n := inc (rr_List (st n) ! k n)]"
        "\<forall>j < N. j \<noteq> k n \<longrightarrow> cmp (st n) (k n) j" by simp_all
    then have kn: "k n < length (rr_List (st n))" using inv [of n] by (simp add: rr_Size_def)
    have "good lo hi (rr_List (st n) ! k n)" using inv [of n] kn by (simp add: rr_ok_def)
    then have up: "W n (k n) + lo \<le> W (Suc n) (k n) \<and> W (Suc n) (k n) \<le> W n (k n) + hi"
      using inc_step kn by (simp add: W_def r(2))
    have "W n (k n) \<le> W n j"
      using r(3) jN by (cases "j = k n") (auto simp: rr_Compare_def W_def)
    moreover have "\<forall>i. i \<noteq> k n \<longrightarrow> W (Suc n) i = W n i" by (simp add: W_def r(2))
    ultimately show ?thesis using r(1) up by blast
  qed
  have lo: "0 < lo"
  proof -
    have "good lo hi (rr_List (st 0) ! 0)" using ok ne by (simp add: rr_ok_def)
    then show ?thesis by (rule good_pos)
  qed
  show ?thesis
    by (rule lightest_serves [OF lo jN, of k W hi]) (simp_all add: facts)
qed

end

text \<open>The virtual table of \<open>TBackEnds\<close>, over the handlers of a backend.\<close>

definition rr_ops ::
  "('b \<Rightarrow> real) \<Rightarrow> ('b \<Rightarrow> 'b) \<Rightarrow> ('b \<Rightarrow> 'm) \<Rightarrow> ('b \<Rightarrow> 'b) \<Rightarrow> ('b \<Rightarrow> 'b) \<Rightarrow> ('b rr, 'm) ibackends" where
  "rr_ops getW inc modul onComplete onFail =
     \<lparr>be_DoNext = (\<lambda>_ _. rr_DoNext getW inc), be_Size = rr_Size, be_Module = (\<lambda>i s. modul (rr_List s ! i)),
      be_OnComplete = (\<lambda>_. rr_upd onComplete), be_OnFail = (\<lambda>_. rr_upd onFail)\<rparr>"

lemma rr_ops_simps [simp]:
  "be_DoNext (rr_ops getW inc modul onC onF) h a = rr_DoNext getW inc"
  "be_Size (rr_ops getW inc modul onC onF) = rr_Size"
  "be_OnComplete (rr_ops getW inc modul onC onF) t = rr_upd onC"
  "be_OnFail (rr_ops getW inc modul onC onF) t = rr_upd onF"
  by (simp_all add: rr_ops_def)

locale weight_backends = weight_step +
  fixes modul :: "'a \<Rightarrow> 'm" and onC :: "'a \<Rightarrow> 'a" and onF :: "'a \<Rightarrow> 'a"
  assumes handlers_weight: "getW (onC b) = getW b" "getW (onF b) = getW b"
    and handlers_good: "good lo hi b \<Longrightarrow> good lo hi (onC b)" "good lo hi b \<Longrightarrow> good lo hi (onF b)"
begin

abbreviation ops :: "('a rr, 'm) ibackends" where
  "ops \<equiv> rr_ops getW inc modul onC onF"

lemma rr_inv_next:
  assumes "rr_inv s"
  obtains i s' where "rr_DoNext getW inc s = (Ret (Some i), s')" "i < rr_Size s" "rr_inv s'" "rr_Size s' = rr_Size s"
proof -
  obtain lo hi where ok: "rr_ok lo hi s" and ne: "rr_List s \<noteq> []" using assms by (auto simp: rr_inv_def)
  obtain i s' where n: "rr_DoNext getW inc s = (Ret (Some i), s')" "i < rr_Size s" "rr_ok lo hi s'"
      "rr_List s' = (rr_List s)[i := inc (rr_List s ! i)]"
    using rr_next [OF ok ne] by blast
  moreover from n(3,4) ne have "rr_inv s'" by (auto simp: rr_inv_def)
  ultimately show thesis using that [of i s'] by (simp add: rr_Size_def)
qed

lemma rr_inv_upd:
  assumes "rr_inv s" and "i < rr_Size s" and "f = onC \<or> f = onF"
  shows "rr_inv (rr_upd f i s) \<and> rr_Size (rr_upd f i s) = rr_Size s"
proof -
  obtain lo hi where ok: "rr_ok lo hi s" and ne: "rr_List s \<noteq> []" using assms(1) by (auto simp: rr_inv_def)
  have "good lo hi (rr_List s ! i)" using ok assms(2) by (simp add: rr_ok_def rr_Size_def)
  then have "rr_ok lo hi (rr_upd f i s)" "rr_Size (rr_upd f i s) = rr_Size s"
    using rr_upd_ok [OF ok assms(2)] handlers_weight handlers_good assms(3) by blast+
  then show ?thesis using ne by (auto simp: rr_inv_def rr_upd_def)
qed

lemma rr_after:
  assumes "rr_inv s"
  shows "rr_inv (be_after ops h a n s) \<and> rr_Size (be_after ops h a n s) = rr_Size s"
proof (induction n)
  case (Suc n)
  then obtain i s' where "rr_DoNext getW inc (be_after ops h a n s) = (Ret (Some i), s')" "rr_inv s'"
      "rr_Size s' = rr_Size (be_after ops h a n s)"
    using rr_inv_next by blast
  with Suc show ?case by (simp add: be_after_last del: be_after.simps)
qed (use assms in simp)

lemma rr_progress:
  assumes s: "rr_inv s" and j: "j < rr_Size s"
  shows "\<exists>n. be_pick ops h a n s = Ret (Some j)"
proof -
  define k where "k n = (case be_pick ops h a n s of Ret (Some i) \<Rightarrow> i | _ \<Rightarrow> 0)" for n
  have step: "rr_DoNext getW inc (be_after ops h a n s) = (Ret (Some (k n)), be_after ops h a (Suc n) s)" for n
  proof -
    obtain i s' where "rr_DoNext getW inc (be_after ops h a n s) = (Ret (Some i), s')"
      using rr_after [OF s] rr_inv_next by blast
    then show ?thesis by (simp add: k_def be_pick_def be_after_last del: be_after.simps)
  qed
  obtain lo hi where "rr_ok lo hi s" and "rr_List s \<noteq> []" using s by (auto simp: rr_inv_def)
  then obtain n where "k n = j" using rr_serves [of lo hi "\<lambda>n. be_after ops h a n s", OF _ _ step] j by auto
  with step [of n] have "be_pick ops h a n s = Ret (Some j)" by (simp add: be_pick_def)
  then show ?thesis by blast
qed

end

sublocale weight_backends \<subseteq> wb: backends_progress "rr_ops getW inc modul onC onF" rr_inv
proof
  fix s h a i t j
  assume s: "rr_inv s"
  show "\<exists>i s'. be_DoNext ops h a s = (Ret (Some i), s') \<and> i < be_Size ops s \<and> rr_inv s'
      \<and> be_Size ops s' = be_Size ops s"
    using rr_inv_next [OF s] by (metis rr_ops_simps(1,2))
  show "\<exists>n. be_pick ops h a n s = Ret (Some j)" if "j < be_Size ops s"
    using rr_progress [OF s] that by simp
qed (use rr_inv_upd in simp_all)

section \<open>Construction\<close>

text \<open>
  The configuration loop shared by both files; \<open>mk\<close> is the constructor of \<open>TBackEnd\<close> at a position
  of the pool.
\<close>

definition rr_DoConsume ::
  "('b \<Rightarrow> real) \<Rightarrow> (nat \<Rightarrow> 'm descriptor \<Rightarrow> 'b) \<Rightarrow> (string \<Rightarrow> real outcome) \<Rightarrow> 'm factory
   \<Rightarrow> string \<Rightarrow> cfg_value \<Rightarrow> 'b rr \<Rightarrow> 'b rr outcome" where
  "rr_DoConsume getW mk fromString loader key v s =
     obind (AsSubConfig v) (\<lambda>sub. obind (descriptor_new fromString loader sub) (\<lambda>d. rr_Add getW (mk (rr_Size s) d) s))"

definition rr_create ::
  "('b \<Rightarrow> real) \<Rightarrow> (nat \<Rightarrow> 'm descriptor \<Rightarrow> 'b) \<Rightarrow> (string \<Rightarrow> real outcome) \<Rightarrow> 'm factory \<Rightarrow> (nat \<Rightarrow> ui64)
   \<Rightarrow> cfg \<Rightarrow> 'b rr outcome" where
  "rr_create getW mk fromString loader addr c =
     ForEach (rr_DoConsume getW mk fromString loader) c \<lparr>rr_List = [], rr_addr = addr, rr_Servers = avltree_new\<rparr>"

context weight_step
begin

text \<open>
  Every entry of the configuration adds one backend at the end of the list, if the pool gives the
  backends distinct addresses.
\<close>

lemma rr_fill:
  assumes "rr_shape s" and "inj_on (rr_addr s) {..<rr_Size s + length c}"
    and "ForEach (rr_DoConsume getW mk fromString loader) c s = Ret t"
  shows "rr_shape t \<and> rr_Size t = rr_Size s + length c
    \<and> (\<forall>b \<in> set (rr_List t). b \<in> set (rr_List s) \<or> (\<exists>n d. b = mk n d \<and> d_Module d \<noteq> None))"
  using assms
proof (induction c arbitrary: s)
  case (Cons kv c)
  obtain k v where kv: "kv = (k, v)" by fastforce
  from Cons.prems(3) obtain u where u: "rr_DoConsume getW mk fromString loader k v s = Ret u"
      and rest: "ForEach (rr_DoConsume getW mk fromString loader) c u = Ret t"
    by (auto simp: ForEach_def kv obind_Ret_iff)
  from u obtain d where d: "d_Module d \<noteq> None" "rr_Add getW (mk (rr_Size s) d) s = Ret u"
    by (auto simp: rr_DoConsume_def obind_Ret_iff dest!: descriptor_new_module)
  have inj: "inj_on (rr_addr s) {..<Suc (rr_Size s)}"
    using Cons.prems(2) by (rule inj_on_subset) auto
  from rr_Add_ok [OF Cons.prems(1) inj, of "mk (rr_Size s) d"] d(2)
  have u: "rr_shape u" "rr_List u = rr_List s @ [mk (rr_Size s) d]" "rr_addr u = rr_addr s" by auto
  from Cons.IH [OF u(1) _ rest] Cons.prems(2) u(2,3) d(1) show ?case by (auto simp: rr_Size_def)
qed (simp add: ForEach_def)

lemma rr_create_shape:
  assumes "inj_on addr {..<length c}" and "rr_create getW mk fromString loader addr c = Ret s"
  shows "rr_shape s \<and> rr_Size s = length c \<and> (\<forall>b \<in> set (rr_List s). \<exists>n d. b = mk n d \<and> d_Module d \<noteq> None)"
proof -
  let ?s0 = "\<lparr>rr_List = [], rr_addr = addr, rr_Servers = avltree_new\<rparr>"
  have "rr_shape ?s0" by (simp add: rr_shape_def rr_Size_def avltree_new_def avl_inv_def av_seq_def)
  from rr_fill [OF this _ assms(2) [unfolded rr_create_def]] assms(1) show ?thesis by (simp add: rr_Size_def)
qed

text \<open>A configuration whose entries all describe backends is accepted.\<close>

lemma rr_fill_ok:
  assumes "list_all2 (\<lambda>kv d. \<exists>sub. AsSubConfig (snd kv) = Ret sub \<and> descriptor_new fromString loader sub = Ret d) c ds"
    and "rr_shape s" and "inj_on (rr_addr s) {..<rr_Size s + length c}"
  shows "\<exists>t. ForEach (rr_DoConsume getW mk fromString loader) c s = Ret t
    \<and> rr_List t = rr_List s @ map2 mk [rr_Size s..<rr_Size s + length c] ds"
  using assms
proof (induction c ds arbitrary: s rule: list_all2_induct)
  case (Cons kv c d ds)
  obtain k v where kv: "kv = (k, v)" by fastforce
  have "inj_on (rr_addr s) {..<Suc (rr_Size s)}"
    using Cons.prems(2) by (rule inj_on_subset) auto
  from rr_Add_ok [OF Cons.prems(1) this, of "mk (rr_Size s) d"]
  obtain u where u: "rr_Add getW (mk (rr_Size s) d) s = Ret u" "rr_shape u"
      "rr_List u = rr_List s @ [mk (rr_Size s) d]" "rr_addr u = rr_addr s" by blast
  have "rr_DoConsume getW mk fromString loader k v s = Ret u"
    using Cons.hyps(1) u(1) by (auto simp: kv rr_DoConsume_def)
  moreover have "inj_on (rr_addr u) {..<rr_Size u + length c}"
    using Cons.prems(2) u(3,4) by (simp add: rr_Size_def)
  moreover have "[rr_Size s..<rr_Size s + length (kv # c)] = rr_Size s # [rr_Size u..<rr_Size u + length c]"
    using u(3) by (simp add: rr_Size_def upt_conv_Cons del: upt_Suc)
  ultimately show ?case
    using Cons.IH [OF u(2)] u(3) by (auto simp: ForEach_def kv simp del: upt_Suc)
qed (simp add: ForEach_def)

lemma rr_create_ok:
  assumes "list_all2 (\<lambda>kv d. \<exists>sub. AsSubConfig (snd kv) = Ret sub \<and> descriptor_new fromString loader sub = Ret d) c ds"
    and "inj_on addr {..<length c}"
  shows "\<exists>s. rr_create getW mk fromString loader addr c = Ret s \<and> rr_List s = map2 mk [0..<length c] ds"
  using rr_fill_ok [OF assms(1), of "\<lparr>rr_List = [], rr_addr = addr, rr_Servers = avltree_new\<rparr>" mk] assms(2)
  by (simp add: rr_create_def rr_shape_def rr_Size_def avltree_new_def avl_inv_def av_seq_def)

end

section \<open>The algorithm "rr"\<close>

record 'm rrb =
  rrb_BackEnd :: "'m descriptor"
  rrb_Weight :: real
  rrb_Fail :: ui64
  rrb_Succ :: ui64

definition rrb_new :: "nat \<Rightarrow> 'm descriptor \<Rightarrow> 'm rrb" where
  "rrb_new n descr = \<lparr>rrb_BackEnd = descr, rrb_Weight = d_Weight descr, rrb_Fail = 0, rrb_Succ = 0\<rparr>"

definition rrb_WeightStep :: "'m rrb \<Rightarrow> real" where
  "rrb_WeightStep b = d_Weight (rrb_BackEnd b)"

definition rrb_IncUsageCount :: "'m rrb \<Rightarrow> 'm rrb" where
  "rrb_IncUsageCount b = b\<lparr>rrb_Weight := rrb_Weight b + rrb_WeightStep b\<rparr>"

definition rrb_OnComplete :: "'m rrb \<Rightarrow> 'm rrb" where
  "rrb_OnComplete b = b\<lparr>rrb_Succ := rrb_Succ b + 1\<rparr>"

definition rrb_OnFail :: "'m rrb \<Rightarrow> 'm rrb" where
  "rrb_OnFail b = b\<lparr>rrb_Fail := rrb_Fail b + 1\<rparr>"

definition rrb_Module :: "'m rrb \<Rightarrow> 'm" where
  "rrb_Module b = the (d_Module (rrb_BackEnd b))"

definition CreateRoundRobin ::
  "(string \<Rightarrow> real outcome) \<Rightarrow> 'm factory \<Rightarrow> (nat \<Rightarrow> ui64) \<Rightarrow> cfg \<Rightarrow> 'm rrb rr outcome" where
  "CreateRoundRobin fromString loader addr c = rr_create rrb_Weight rrb_new fromString loader addr c"

definition rrobin_ops :: "('m rrb rr, 'm) ibackends" where
  "rrobin_ops = rr_ops rrb_Weight rrb_IncUsageCount rrb_Module rrb_OnComplete rrb_OnFail"

definition rrb_good :: "real \<Rightarrow> real \<Rightarrow> 'm rrb \<Rightarrow> bool" where
  "rrb_good lo hi b \<longleftrightarrow> 0 < lo \<and> lo \<le> rrb_WeightStep b \<and> rrb_WeightStep b \<le> hi"

interpretation rrb: weight_backends "rrb_Weight :: 'm rrb \<Rightarrow> real" rrb_IncUsageCount rrb_good rrb_Module
    rrb_OnComplete rrb_OnFail
  by unfold_locales (auto simp: rrb_good_def rrb_IncUsageCount_def rrb_OnComplete_def rrb_OnFail_def rrb_WeightStep_def)

text \<open>
  The bookkeeping of a history: backend \<open>i\<close> weighs its configured weight times one plus the number
  of times it was handed out.
\<close>

definition rr_history :: "real \<Rightarrow> real \<Rightarrow> real list \<Rightarrow> nat option outcome list \<times> 'm rrb rr \<Rightarrow> bool" where
  "rr_history lo hi ds = (\<lambda>(ps, s). rrb.rr_ok lo hi s \<and> map rrb_WeightStep (rr_List s) = ds
     \<and> set ps \<subseteq> (Ret \<circ> Some) ` {..<length ds}
     \<and> (\<forall>i < length ds. rrb_Weight (rr_List s ! i) = ds ! i * (1 + real (count_list ps (Ret (Some i)))))
     \<and> (\<forall>i < length ds. \<forall>j < length ds.
          ds ! i * real (count_list ps (Ret (Some i))) \<le> ds ! j * (1 + real (count_list ps (Ret (Some j))))))"

lemma rr_history_upd:
  assumes H: "rr_history lo hi ds (ps, s)" and i: "i < length ds" and f: "f = rrb_OnComplete \<or> f = rrb_OnFail"
  shows "rr_history lo hi ds (ps, rr_upd f i s)"
proof -
  have ok: "rrb.rr_ok lo hi s" and ds: "map rrb_WeightStep (rr_List s) = ds" using H by (auto simp: rr_history_def)
  have iS: "i < rr_Size s" using i ds by (auto simp: rr_Size_def)
  have same: "rrb_Weight (f b) = rrb_Weight b" "rrb_WeightStep (f b) = rrb_WeightStep b" for b
    using f by (auto simp: rrb_OnComplete_def rrb_OnFail_def rrb_WeightStep_def)
  have "rrb_good lo hi (rr_List s ! i)" using ok iS by (simp add: rrb.rr_ok_def rr_Size_def)
  then have ok': "rrb.rr_ok lo hi (rr_upd f i s)"
    using rrb.rr_upd_ok(1) [OF ok iS, of f] same by (simp add: rrb_good_def)
  have l: "rr_List (rr_upd f i s) = (rr_List s)[i := f (rr_List s ! i)]" by (simp add: rr_upd_def)
  have ds': "map rrb_WeightStep (rr_List (rr_upd f i s)) = ds"
    using iS ds by (auto simp: l map_update same rr_Size_def list_update_same_conv)
  have "rrb_Weight (rr_List (rr_upd f i s) ! j) = rrb_Weight (rr_List s ! j)" for j
    using iS same(1) [of "rr_List s ! i"] unfolding l by (cases "i = j") (simp_all add: rr_Size_def)
  then show ?thesis using H ok' ds' by (simp add: rr_history_def)
qed

lemma rr_history_next:
  assumes H: "rr_history lo hi ds (ps, s)" and "ds \<noteq> []" and n: "rr_DoNext rrb_Weight rrb_IncUsageCount s = (r, s')"
  shows "rr_history lo hi ds (r # ps, s')"
proof -
  have ok: "rrb.rr_ok lo hi s" and ds: "map rrb_WeightStep (rr_List s) = ds" using H by (auto simp: rr_history_def)
  then have "rr_List s \<noteq> []" using assms(2) by auto
  from rrb.rr_next [OF ok this] n obtain i where i: "r = Ret (Some i)" "i < rr_Size s" "rrb.rr_ok lo hi s'"
      "rr_List s' = (rr_List s)[i := rrb_IncUsageCount (rr_List s ! i)]"
      "\<forall>j < rr_Size s. j \<noteq> i \<longrightarrow> rr_Compare rrb_Weight (rr_List s) (rr_addr s) i j"
    by auto
  have len: "rr_Size s = length ds" using ds by (auto simp: rr_Size_def)
  have pos: "0 \<le> ds ! j" if "j < length ds" for j
  proof -
    have "j < length (rr_List s)" using that ds by auto
    then have "rrb_good lo hi (rr_List s ! j)" "ds ! j = rrb_WeightStep (rr_List s ! j)"
      using ok ds by (auto simp: rrb.rr_ok_def)
    then show ?thesis by (auto simp: rrb_good_def)
  qed
  define c where "c j = real (count_list ps (Ret (Some j)))" for j
  have W: "rrb_Weight (rr_List s ! j) = ds ! j * (1 + c j)" if "j < length ds" for j
    using H that by (simp add: rr_history_def c_def)
  have fair: "ds ! j * c j \<le> ds ! k * (1 + c k)" if "j < length ds" "k < length ds" for j k
    using H that by (simp add: rr_history_def c_def)
  have light: "ds ! i * (1 + c i) \<le> ds ! j * (1 + c j)" if "j < length ds" for j
    using i(2,5) that len W [of i] W [of j] by (cases "j = i") (auto simp: rr_Compare_def)
  have c': "real (count_list (r # ps) (Ret (Some j))) = (if j = i then 1 + c j else c j)" for j
    by (simp add: i(1) c_def)
  have step: "rrb_WeightStep (rr_List s ! i) = ds ! i" using ds i(2) by (auto simp: rr_Size_def)
  have ds': "map rrb_WeightStep (rr_List s') = ds"
    using i(2,4) ds by (auto simp: map_update rr_Size_def rrb_IncUsageCount_def rrb_WeightStep_def list_update_same_conv)
  have W': "rrb_Weight (rr_List s' ! j) = ds ! j * (1 + real (count_list (r # ps) (Ret (Some j))))" if "j < length ds" for j
    using i(2,4) W [OF that] step len unfolding c'
    by (cases "j = i") (simp_all add: rrb_IncUsageCount_def rr_Size_def algebra_simps)
  have fair': "ds ! j * real (count_list (r # ps) (Ret (Some j)))
      \<le> ds ! k * (1 + real (count_list (r # ps) (Ret (Some k))))" if "j < length ds" "k < length ds" for j k
    using fair [OF that] light [OF that(2)] pos [OF that(1)] pos [OF that(2)] unfolding c'
    by (auto simp: algebra_simps)
  show ?thesis using H i ds' W' fair' len by (simp add: rr_history_def)
qed

lemma rr_history_run:
  assumes "rr_history lo hi ds ([], s)" and "ds \<noteq> []" and "\<forall>e \<in> set evs. ev_ok (length ds) e"
  shows "rr_history lo hi ds (be_run rrobin_ops evs s)"
  unfolding be_run_def
proof (rule fold_invariant [where Q = "ev_ok (length ds)"])
  fix e and x :: "nat option outcome list \<times> 'a rrb rr"
  assume e: "ev_ok (length ds) e" and x: "rr_history lo hi ds x"
  obtain ps t where ps: "x = (ps, t)" by fastforce
  show "rr_history lo hi ds (be_event_step rrobin_ops e x)"
    using e x [unfolded ps] rr_history_upd [of lo hi ds ps t] rr_history_next [OF x [unfolded ps] assms(2)]
    by (cases e) (auto simp: ps rrobin_ops_def split: prod.split)
qed (use assms in auto)

lemma CreateRoundRobin_history:
  assumes inj: "inj_on addr {..<length c}" and s: "CreateRoundRobin fromString loader addr c = Ret s"
    and pos: "\<forall>b \<in> set (rr_List s). 0 < rrb_WeightStep b" and "c \<noteq> []"
  shows "\<exists>lo hi. rr_history lo hi (map rrb_WeightStep (rr_List s)) ([], s)" and "rr_Size s = length c"
proof -
  have sh: "rrb.rr_shape s" and sz: "rr_Size s = length c"
      and new: "\<forall>b \<in> set (rr_List s). \<exists>n d. b = rrb_new n d"
    using rrb.rr_create_shape [OF inj s [unfolded CreateRoundRobin_def]] by blast+
  let ?ws = "rrb_WeightStep ` set (rr_List s)"
  have fin: "finite ?ws" and ne: "?ws \<noteq> {}" using sz assms(4) by (auto simp: rr_Size_def)
  then have "0 < Min ?ws" using pos by (subst Min_gr_iff) auto
  then have "rrb.rr_ok (Min ?ws) (Max ?ws) s" using sh fin by (auto simp: rrb.rr_ok_def rrb_good_def)
  moreover have "rrb_Weight b = rrb_WeightStep b" if "b \<in> set (rr_List s)" for b
    using new that by (auto simp: rrb_new_def rrb_WeightStep_def)
  ultimately have "rr_history (Min ?ws) (Max ?ws) (map rrb_WeightStep (rr_List s)) ([], s)"
    using pos by (auto simp: rr_history_def intro: less_imp_le)
  then show "\<exists>lo hi. rr_history lo hi (map rrb_WeightStep (rr_List s)) ([], s)" by blast
  show "rr_Size s = length c" by (rule sz)
qed

text \<open>
  C19. Whatever the interleaving of requests and reports, "rr" answers every request with a backend,
  and shares them out in inverse proportion to the configured weights: a backend of weight \<open>d\<^sub>i\<close>
  handed out \<open>n\<^sub>i\<close> times satisfies \<open>d\<^sub>i n\<^sub>i \<le> d\<^sub>j (n\<^sub>j + 1)\<close> against every other. With equal weights two
  counts never differ by more than one; a larger weight means fewer requests.
\<close>

theorem round_robin_shares:
  assumes "CreateRoundRobin fromString loader addr c = Ret s" and "inj_on addr {..<length c}"
    and "\<forall>b \<in> set (rr_List s). 0 < d_Weight (rrb_BackEnd b)"
    and "\<forall>e \<in> set evs. ev_ok (length c) e" and "be_run rrobin_ops evs s = (ps, s')"
    and "i < length c" and "j < length c"
  shows "set ps \<subseteq> (Ret \<circ> Some) ` {..<length c}
    \<and> d_Weight (rrb_BackEnd (rr_List s ! i)) * real (count_list ps (Ret (Some i)))
      \<le> d_Weight (rrb_BackEnd (rr_List s ! j)) * (1 + real (count_list ps (Ret (Some j))))"
proof -
  let ?ds = "map rrb_WeightStep (rr_List s)"
  have "c \<noteq> []" using assms(6) by auto
  moreover have "\<forall>b \<in> set (rr_List s). 0 < rrb_WeightStep b" using assms(3) by (simp add: rrb_WeightStep_def)
  ultimately obtain lo hi where H: "rr_history lo hi ?ds ([], s)" and len: "length (rr_List s) = length c"
    using CreateRoundRobin_history [OF assms(2,1)] by (auto simp: rr_Size_def)
  have "rr_history lo hi ?ds (be_run rrobin_ops evs s)"
    using rr_history_run [OF H, of evs] assms(4,6) len by (cases "rr_List s") auto
  then have "rr_history lo hi ?ds (ps, s')" by (simp only: assms(5))
  then show ?thesis using assms(6,7) len by (simp add: rr_history_def rrb_WeightStep_def)
qed

abbreviation two_backends :: cfg where
  "two_backends \<equiv> [(''1'', CfgTable [(''proxy'', CfgTable [])]),
     (''2'', CfgTable [(''weight'', CfgStr ''2''), (''proxy'', CfgTable [])])]"

abbreviation proxy_loader :: "unit factory" where
  "proxy_loader \<equiv> AddHandle \<lparr>h_Name = ''proxy'', h_Construct = (\<lambda>_. Ret ())\<rparr> (factory_new None)"

lemma two_backends_read:
  "list_all2 (\<lambda>kv d. \<exists>sub. AsSubConfig (snd kv) = Ret sub \<and> descriptor_new (\<lambda>_. Ret 2) proxy_loader sub = Ret d)
     two_backends [\<lparr>d_Weight = 1, d_Module = Some ()\<rparr>, \<lparr>d_Weight = 2, d_Module = Some ()\<rparr>]"
  by (simp add: descriptor_new_def ForEach_def descriptor_DoConsume_def ON_KEY_def MustLoad_def Load_def factory_new_def)

lemma two_addresses: "inj_on (of_nat :: nat \<Rightarrow> ui64) {..<length two_backends}"
  by (auto simp: inj_on_def less_Suc_eq numeral_2_eq_2)

theorem round_robin_shares_witness:
  "\<exists>s ps s'. CreateRoundRobin (\<lambda>_. Ret 2) proxy_loader of_nat two_backends = Ret s
    \<and> map (\<lambda>b. d_Weight (rrb_BackEnd b)) (rr_List s) = [1, 2]
    \<and> be_run rrobin_ops [AskNext 0 0, AskNext 0 0, Failed 7 1, AskNext 0 0] s = (ps, s')
    \<and> 2 * real (count_list ps (Ret (Some 1))) \<le> 1 * (1 + real (count_list ps (Ret (Some 0))))"
proof -
  obtain s where s: "CreateRoundRobin (\<lambda>_. Ret 2) proxy_loader of_nat two_backends = Ret s"
      "rr_List s = map2 rrb_new [0..<length two_backends] [\<lparr>d_Weight = 1, d_Module = Some ()\<rparr>, \<lparr>d_Weight = 2, d_Module = Some ()\<rparr>]"
    using rrb.rr_create_ok [OF two_backends_read two_addresses, of rrb_new] unfolding CreateRoundRobin_def by blast
  then have l: "map (\<lambda>b. d_Weight (rrb_BackEnd b)) (rr_List s) = [1, 2]"
    by (simp add: rrb_new_def upt_conv_Cons)
  then have pos: "\<forall>b \<in> set (rr_List s). 0 < d_Weight (rrb_BackEnd b)" by auto
  obtain ps s' where run: "be_run rrobin_ops [AskNext 0 0, AskNext 0 0, Failed 7 1, AskNext 0 0] s = (ps, s')"
    by fastforce
  have "d_Weight (rrb_BackEnd (rr_List s ! 1)) * real (count_list ps (Ret (Some 1)))
      \<le> d_Weight (rrb_BackEnd (rr_List s ! 0)) * (1 + real (count_list ps (Ret (Some 0))))"
    using round_robin_shares [OF s(1) two_addresses pos _ run, of 1 0] by simp
  moreover have "d_Weight (rrb_BackEnd (rr_List s ! 1)) = 2" "d_Weight (rrb_BackEnd (rr_List s ! 0)) = 1"
    using l by auto
  ultimately show ?thesis using s(1) l run by auto
qed

section \<open>The algorithm "srr"\<close>

text \<open>\<open>State_\<close> is not initialised by the constructor: it is an argument.\<close>

record 'm srrb =
  srrb_BackEnd :: "'m descriptor"
  srrb_Weight :: real
  srrb_WeightStep :: real
  srrb_CntComplete :: ui32
  srrb_CntFail :: ui32
  srrb_State :: ui32

definition srrb_new :: "(nat \<Rightarrow> ui32) \<Rightarrow> nat \<Rightarrow> 'm descriptor \<Rightarrow> 'm srrb" where
  "srrb_new memory n descr = \<lparr>srrb_BackEnd = descr, srrb_Weight = 1, srrb_WeightStep = 1, srrb_CntComplete = 0,
     srrb_CntFail = 0, srrb_State = memory n\<rparr>"

definition UpdateState :: "'m srrb \<Rightarrow> 'm srrb" where
  "UpdateState b =
     (let reset = (\<lambda>b. b\<lparr>srrb_CntComplete := 0, srrb_CntFail := 0\<rparr>);
          c = srrb_CntComplete b; f = srrb_CntFail b in
      if srrb_State b = 0 then (if f \<noteq> 0 then reset (b\<lparr>srrb_State := 1\<rparr>) else b)
      else if srrb_State b = 1 then
        (if f + c > 10 then
           reset (if f > c then b\<lparr>srrb_State := 2\<rparr> else if f = 0 then b\<lparr>srrb_State := 0\<rparr> else b)
         else b)
      else if srrb_State b = 2 then
        (if f + c > 10 then
           reset (if c = 0 then b\<lparr>srrb_State := 3\<rparr> else if c > f then b\<lparr>srrb_State := 1\<rparr> else b)
         else b)
      else if srrb_State b = 3 then (if c \<noteq> 0 then reset (b\<lparr>srrb_State := 2\<rparr>) else b)
      else b)"

definition srrb_mul :: "ui32 \<Rightarrow> real" where
  "srrb_mul state = (if state = 1 then 2 else if state = 2 then 8 else if state = 3 then 64 else 1)"

definition srrb_IncUsageCount :: "'m srrb \<Rightarrow> 'm srrb" where
  "srrb_IncUsageCount b0 =
     (let b = UpdateState b0 in b\<lparr>srrb_Weight := srrb_Weight b + srrb_WeightStep b * srrb_mul (srrb_State b)\<rparr>)"

definition srrb_OnComplete :: "'m srrb \<Rightarrow> 'm srrb" where
  "srrb_OnComplete b = b\<lparr>srrb_CntComplete := srrb_CntComplete b + 1\<rparr>"

definition srrb_OnFail :: "'m srrb \<Rightarrow> 'm srrb" where
  "srrb_OnFail b = b\<lparr>srrb_CntFail := srrb_CntFail b + 1\<rparr>"

definition srrb_Module :: "'m srrb \<Rightarrow> 'm" where
  "srrb_Module b = the (d_Module (srrb_BackEnd b))"

definition CreateSmartRoundRobin ::
  "(string \<Rightarrow> real outcome) \<Rightarrow> 'm factory \<Rightarrow> (nat \<Rightarrow> ui32) \<Rightarrow> (nat \<Rightarrow> ui64) \<Rightarrow> cfg \<Rightarrow> 'm srrb rr outcome" where
  "CreateSmartRoundRobin fromString loader memory addr c =
     rr_create srrb_Weight (srrb_new memory) fromString loader addr c"

definition smartrr_ops :: "('m srrb rr, 'm) ibackends" where
  "smartrr_ops = rr_ops srrb_Weight srrb_IncUsageCount srrb_Module srrb_OnComplete srrb_OnFail"

definition srrb_good :: "real \<Rightarrow> real \<Rightarrow> 'm srrb \<Rightarrow> bool" where
  "srrb_good lo hi b \<longleftrightarrow> lo = 1 \<and> hi = 64 \<and> srrb_WeightStep b = 1"

lemma UpdateState_keeps [simp]:
  "srrb_Weight (UpdateState b) = srrb_Weight b" "srrb_WeightStep (UpdateState b) = srrb_WeightStep b"
  by (simp_all add: UpdateState_def Let_def)

interpretation srrb: weight_backends "srrb_Weight :: 'm srrb \<Rightarrow> real" srrb_IncUsageCount srrb_good srrb_Module
    srrb_OnComplete srrb_OnFail
  by unfold_locales (auto simp: srrb_good_def srrb_IncUsageCount_def srrb_OnComplete_def srrb_OnFail_def
      srrb_mul_def Let_def)

text \<open>
  The bookkeeping of a history of "srr": a backend handed out \<open>n\<close> times weighs between \<open>1 + n\<close> and
  \<open>1 + 64 n\<close>, and two weights differ by at most one step of 64.
\<close>

definition srr_history :: "nat \<Rightarrow> nat option outcome list \<times> 'm srrb rr \<Rightarrow> bool" where
  "srr_history N = (\<lambda>(ps, s). srrb.rr_ok 1 64 s \<and> rr_Size s = N \<and> set ps \<subseteq> (Ret \<circ> Some) ` {..<N}
     \<and> (\<forall>i < N. 1 + real (count_list ps (Ret (Some i))) \<le> srrb_Weight (rr_List s ! i)
          \<and> srrb_Weight (rr_List s ! i) \<le> 1 + 64 * real (count_list ps (Ret (Some i))))
     \<and> (\<forall>i < N. \<forall>j < N. srrb_Weight (rr_List s ! i) \<le> srrb_Weight (rr_List s ! j) + 64))"

lemma srr_history_upd:
  assumes H: "srr_history N (ps, s)" and i: "i < N" and f: "f = srrb_OnComplete \<or> f = srrb_OnFail"
  shows "srr_history N (ps, rr_upd f i s)"
proof -
  have ok: "srrb.rr_ok 1 64 s" and iS: "i < rr_Size s" using H i by (auto simp: srr_history_def)
  have same: "srrb_Weight (f b) = srrb_Weight b" "srrb_WeightStep (f b) = srrb_WeightStep b" for b
    using f by (auto simp: srrb_OnComplete_def srrb_OnFail_def)
  have "srrb_good 1 64 (rr_List s ! i)" using ok iS by (simp add: srrb.rr_ok_def rr_Size_def)
  then have "srrb.rr_ok 1 64 (rr_upd f i s) \<and> rr_Size (rr_upd f i s) = rr_Size s"
    using srrb.rr_upd_ok [OF ok iS, of f] same by (simp add: srrb_good_def)
  moreover have "srrb_Weight (rr_List (rr_upd f i s) ! j) = srrb_Weight (rr_List s ! j)" for j
    using iS same(1) [of "rr_List s ! i"] by (cases "i = j") (simp_all add: rr_upd_def rr_Size_def)
  ultimately show ?thesis using H by (simp add: srr_history_def)
qed

lemma srr_history_next:
  assumes H: "srr_history N (ps, s)" and "0 < N" and n: "rr_DoNext srrb_Weight srrb_IncUsageCount s = (r, s')"
  shows "srr_history N (r # ps, s')"
proof -
  have ok: "srrb.rr_ok 1 64 s" and N: "rr_Size s = N" using H by (auto simp: srr_history_def)
  then have "rr_List s \<noteq> []" using assms(2) by (auto simp: rr_Size_def)
  from srrb.rr_next [OF ok this] n obtain i where i: "r = Ret (Some i)" "i < N" "srrb.rr_ok 1 64 s'"
      "rr_List s' = (rr_List s)[i := srrb_IncUsageCount (rr_List s ! i)]"
      "\<forall>j < N. j \<noteq> i \<longrightarrow> rr_Compare srrb_Weight (rr_List s) (rr_addr s) i j"
    by (auto simp: N)
  define W where "W j = srrb_Weight (rr_List s ! j)" for j
  define W' where "W' j = srrb_Weight (rr_List s' ! j)" for j
  define c where "c j = real (count_list ps (Ret (Some j)))" for j
  have old: "1 + c j \<le> W j \<and> W j \<le> 1 + 64 * c j" "k < N \<Longrightarrow> W j \<le> W k + 64" if "j < N" for j k
    using H that by (auto simp: srr_history_def W_def c_def)
  have light: "W i \<le> W j" if "j < N" for j
    using i(5) that by (cases "j = i") (auto simp: rr_Compare_def W_def)
  have "srrb_good 1 64 (rr_List s ! i)" using ok i(2) N by (simp add: srrb.rr_ok_def rr_Size_def)
  then have up: "W i + 1 \<le> W' i \<and> W' i \<le> W i + 64"
    using srrb.inc_step i(2,4) N by (simp add: W_def W'_def rr_Size_def)
  have other: "j \<noteq> i \<Longrightarrow> W' j = W j" for j by (simp add: W_def W'_def i(4))
  have c': "real (count_list (r # ps) (Ret (Some j))) = (if j = i then 1 + c j else c j)" for j
    by (simp add: i(1) c_def)
  have "1 + real (count_list (r # ps) (Ret (Some j))) \<le> W' j \<and> W' j \<le> 1 + 64 * real (count_list (r # ps) (Ret (Some j)))"
    if "j < N" for j
    using old(1) [OF that] up other [of j] unfolding c' by (cases "j = i") auto
  moreover have "W' j \<le> W' k + 64" if "j < N" "k < N" for j k
    using old(2) [OF that] light [OF that(1)] light [OF that(2)] up other [of j] other [of k]
    by (cases "j = i"; cases "k = i") auto
  moreover have "rr_Size s' = N" using i(4) N by (simp add: rr_Size_def)
  ultimately show ?thesis using H i(1-3) by (simp add: srr_history_def W'_def)
qed

lemma srr_history_run:
  assumes "srr_history N ([], s)" and "0 < N" and "\<forall>e \<in> set evs. ev_ok N e"
  shows "srr_history N (be_run smartrr_ops evs s)"
  unfolding be_run_def
proof (rule fold_invariant [where Q = "ev_ok N"])
  fix e and x :: "nat option outcome list \<times> 'a srrb rr"
  assume e: "ev_ok N e" and x: "srr_history N x"
  obtain ps t where ps: "x = (ps, t)" by fastforce
  show "srr_history N (be_event_step smartrr_ops e x)"
    using e x [unfolded ps] srr_history_upd [of N ps t] srr_history_next [OF x [unfolded ps] assms(2)]
    by (cases e) (auto simp: ps smartrr_ops_def split: prod.split)
qed (use assms in auto)

lemma CreateSmartRoundRobin_history:
  assumes "inj_on addr {..<length c}" and s: "CreateSmartRoundRobin fromString loader memory addr c = Ret s"
  shows "srr_history (length c) ([], s)"
proof -
  have sh: "srrb.rr_shape s" and sz: "rr_Size s = length c"
      and new: "\<forall>b \<in> set (rr_List s). \<exists>n d. b = srrb_new memory n d"
    using srrb.rr_create_shape [OF assms(1) s [unfolded CreateSmartRoundRobin_def]] by blast+
  have one: "srrb_Weight b = 1" "srrb_WeightStep b = 1" if "b \<in> set (rr_List s)" for b
    using new that by (auto simp: srrb_new_def)
  show ?thesis using sh sz one by (auto simp: srr_history_def srrb.rr_ok_def srrb_good_def rr_Size_def)
qed

text \<open>
  C20. "srr" starves nobody, whatever is reported: after every history the count of each backend is at
  most 64 times one plus the count of every other, and every request was answered with a backend. The
  uninitialised \<open>State_\<close> is arbitrary.
\<close>

theorem smart_round_robin_shares:
  assumes "CreateSmartRoundRobin fromString loader memory addr c = Ret s" and "inj_on addr {..<length c}"
    and "\<forall>e \<in> set evs. ev_ok (length c) e" and "be_run smartrr_ops evs s = (ps, s')"
    and "i < length c" and "j < length c"
  shows "set ps \<subseteq> (Ret \<circ> Some) ` {..<length c}
    \<and> count_list ps (Ret (Some i)) \<le> 64 * (1 + count_list ps (Ret (Some j)))"
proof -
  have "srr_history (length c) (be_run smartrr_ops evs s)"
    using srr_history_run [OF CreateSmartRoundRobin_history [OF assms(2,1)]] assms(3,5) by fastforce
  then have H: "srr_history (length c) (ps, s')" by (simp only: assms(4))
  have "1 + real (count_list ps (Ret (Some i))) \<le> srrb_Weight (rr_List s' ! i)"
      "srrb_Weight (rr_List s' ! i) \<le> srrb_Weight (rr_List s' ! j) + 64"
      "srrb_Weight (rr_List s' ! j) \<le> 1 + 64 * real (count_list ps (Ret (Some j)))"
    using H assms(5,6) by (auto simp: srr_history_def)
  then have "real (count_list ps (Ret (Some i))) \<le> real (64 * (1 + count_list ps (Ret (Some j))))"
    unfolding of_nat_mult of_nat_add of_nat_numeral of_nat_1 by argo
  then show ?thesis using H by (simp add: srr_history_def del: of_nat_mult of_nat_add)
qed

theorem smart_round_robin_shares_witness:
  "\<exists>s ps s'. CreateSmartRoundRobin (\<lambda>_. Ret 2) proxy_loader (\<lambda>_. 77) of_nat two_backends = Ret s
    \<and> be_run smartrr_ops [AskNext 0 0, Failed 7 0, AskNext 0 0, AskNext 0 0] s = (ps, s')
    \<and> count_list ps (Ret (Some 1)) \<le> 64 * (1 + count_list ps (Ret (Some 0)))"
proof -
  obtain s where s: "CreateSmartRoundRobin (\<lambda>_. Ret 2) proxy_loader (\<lambda>_. 77) of_nat two_backends = Ret s"
    using srrb.rr_create_ok [OF two_backends_read two_addresses, of "srrb_new (\<lambda>_. 77)"]
    unfolding CreateSmartRoundRobin_def by blast
  obtain ps s' where run: "be_run smartrr_ops [AskNext 0 0, Failed 7 0, AskNext 0 0, AskNext 0 0] s = (ps, s')"
    by fastforce
  from smart_round_robin_shares [OF s two_addresses _ run, of 1 0] s run show ?thesis by auto
qed

text \<open>One request through a backend: it is taken, then its success or failure is reported.\<close>

definition srr_round :: "bool \<Rightarrow> 'm srrb \<Rightarrow> 'm srrb" where
  "srr_round ok b = (if ok then srrb_OnComplete else srrb_OnFail) (srrb_IncUsageCount b)"

definition srr_core :: "'m srrb \<Rightarrow> ui32 \<times> ui32 \<times> ui32" where
  "srr_core b = (srrb_State b, srrb_CntComplete b, srrb_CntFail b)"

text \<open>The state and the counters move independently of the rest.\<close>

fun srr_step :: "bool \<Rightarrow> ui32 \<times> ui32 \<times> ui32 \<Rightarrow> ui32 \<times> ui32 \<times> ui32" where
  "srr_step ok (st, c, f) =
     (let (st', c', f') =
        (if st = 0 then (if f \<noteq> 0 then (1, 0, 0) else (st, c, f))
         else if st = 1 then
           (if f + c > 10 then (if f > c then 2 else if f = 0 then 0 else 1, 0, 0) else (st, c, f))
         else if st = 2 then
           (if f + c > 10 then (if c = 0 then 3 else if c > f then 1 else 2, 0, 0) else (st, c, f))
         else if st = 3 then (if c \<noteq> 0 then (2, 0, 0) else (st, c, f))
         else (st, c, f))
      in if ok then (st', c' + 1, f') else (st', c', f' + 1))"

lemma srr_core_round: "srr_core (srr_round ok b) = srr_step ok (srr_core b)"
proof -
  consider "srrb_State b = 0" | "srrb_State b = 1" | "srrb_State b = 2" | "srrb_State b = 3"
    | "srrb_State b \<notin> {0, 1, 2, 3}" by blast
  then show ?thesis
    by cases (simp_all add: UpdateState_def Let_def srr_core_def srr_round_def srrb_OnComplete_def srrb_OnFail_def
        srrb_IncUsageCount_def)
qed

lemma srr_core_rounds: "srr_core (fold srr_round rs b) = fold srr_step rs (srr_core b)"
  by (induction rs arbitrary: b) (simp_all add: srr_core_round)

text \<open>The reports of one window are counted, in any order, while the state does not move.\<close>

lemma srr_step_window:
  assumes "st = 1 \<or> st = 2" and "length rs \<le> 11"
  shows "fold srr_step rs (st, 0, 0) = (st, of_nat (count_list rs True), of_nat (count_list rs False))"
  using assms(2)
proof (induction rs rule: rev_induct)
  case (snoc ok rs)
  let ?c = "count_list rs True" and ?f = "count_list rs False"
  have n: "?c + ?f = length rs" by (induction rs) auto
  then have "of_nat ?f + of_nat ?c = (of_nat (length rs) :: ui32)"
    unfolding of_nat_add [symmetric] by (simp add: add.commute)
  moreover have "(of_nat (length rs) :: ui32) \<le> 10" using snoc.prems by (simp add: word_le_nat_alt unat_of_nat)
  ultimately have "\<not> of_nat ?f + of_nat ?c > (10 :: ui32)" by simp
  then show ?case using snoc assms(1) by (cases ok) (auto simp: add.commute)
qed simp

lemma srr_step_decide:
  assumes "length rs = 11"
  shows "of_nat (count_list rs False) + of_nat (count_list rs True) > (10 :: ui32)"
    and "(of_nat (count_list rs x) < (of_nat (count_list rs y) :: ui32)) = (count_list rs x < count_list rs y)"
    and "(of_nat (count_list rs x) = (0 :: ui32)) = (count_list rs x = 0)"
proof -
  have n: "count_list rs False + count_list rs True = length rs" by (induction rs) auto
  show "of_nat (count_list rs False) + of_nat (count_list rs True) > (10 :: ui32)"
    unfolding of_nat_add [symmetric] n assms by simp
  have le: "count_list rs z < 2 ^ 32" for z using count_le_length [of rs z] assms by simp
  show "(of_nat (count_list rs x) < (of_nat (count_list rs y) :: ui32)) = (count_list rs x < count_list rs y)"
    using le [of x] le [of y] by (simp add: word_less_nat_alt unat_of_nat take_bit_nat_eq_self)
  show "(of_nat (count_list rs x) = (0 :: ui32)) = (count_list rs x = 0)"
    using le [of x] by (simp add: word_unat_eq_iff unat_of_nat take_bit_nat_eq_self)
qed

text \<open>A state that is left by a report of one kind only is kept by any number of the other.\<close>

lemma srr_step_stays:
  "fst (fold srr_step (replicate k True) (0, c, 0)) = 0" "fst (fold srr_step (replicate k False) (3, 0, f)) = 3"
  by (induction k arbitrary: c f) simp_all

lemma srr_step_unknown: "st > 3 \<Longrightarrow> fst (fold srr_step rs (st, c, f)) = st"
proof (induction rs arbitrary: c f)
  case (Cons ok rs)
  then have "st \<notin> {0, 1, 2, 3}" by auto
  then show ?case using Cons by simp
qed simp

text \<open>
  The way from one end to the other: the first report in the end state, then a window of eleven
  reports in each of the two states between.
\<close>

definition srr_way :: "ui32 \<Rightarrow> ui32 \<Rightarrow> ui32 \<Rightarrow> ui32 \<Rightarrow> nat \<Rightarrow> ui32" where
  "srr_way s0 s1 s2 s3 k = (if k \<le> 1 then s0 else if k \<le> 12 then s1 else if k \<le> 23 then s2 else s3)"

lemma srr_ways_eval:
  "list_all (\<lambda>k. fst (fold srr_step (replicate k True) (2, 1, 0)) = srr_way 3 2 1 0 (k + 2)
     \<and> fst (fold srr_step (replicate k False) (1, 0, 1)) = srr_way 0 1 2 3 (k + 2)) [0..<22]"
  "fold srr_step (replicate 22 True) (2, 1, 0) = (0, 1, 0)" "fold srr_step (replicate 22 False) (1, 0, 1) = (3, 0, 1)"
  by code_simp+

lemma srr_step_ways:
  "fst (fold srr_step (replicate k True) (3, 0, f)) = srr_way 3 2 1 0 k"
  "fst (fold srr_step (replicate k False) (0, c, 0)) = srr_way 0 1 2 3 k"
proof -
  consider "k = 0" | "k = 1" | m where "k = m + 2" "m < 22" | m where "k = 22 + m + 2"
    using less_2_cases [of k] le_Suc_ex [of 2 k] le_Suc_ex [of 24 k] by fastforce
  then have "fst (fold srr_step (replicate k True) (3, 0, f)) = srr_way 3 2 1 0 k
      \<and> fst (fold srr_step (replicate k False) (0, c, 0)) = srr_way 0 1 2 3 k"
  proof cases
    case (3 m)
    then show ?thesis using srr_ways_eval(1) by (simp add: list_all_iff)
  next
    case (4 m)
    then have k: "replicate k ok = ok # ok # replicate 22 ok @ replicate m ok" for ok
      by (simp add: replicate_add del: replicate.simps) (simp add: numeral_eq_Suc)
    show ?thesis unfolding k using 4 srr_step_stays by (simp add: srr_ways_eval(2,3) srr_way_def del: replicate.simps fold_replicate)
  qed (simp_all add: srr_way_def)
  then show "fst (fold srr_step (replicate k True) (3, 0, f)) = srr_way 3 2 1 0 k"
    "fst (fold srr_step (replicate k False) (0, c, 0)) = srr_way 0 1 2 3 k" by blast+
qed

text \<open>
  C21. How the states of "srr" move when every use of a backend is followed by its report (\<open>True\<close> a
  success, \<open>rs\<close> the reports in order). From state 3 with no success counted, whatever the failures,
  an unbroken run of successes leads through exactly one use more in state 3, eleven in state 2 and
  eleven in state 1 to state 0, where it stays; from state 0 with no failure counted an unbroken run
  of failures leads the same way up to state 3. With both counters 0 a backend in state 1 or 2 stays
  there for eleven reports; the next use looks at them in any order and moves from 1 to 2 if most
  failed, from 1 to 0 if none failed, from 2 to 3 if none succeeded, from 2 to 1 if most succeeded
  and nowhere otherwise, and starts a new window with both counters at 0. A state above 3, which the
  uninitialised \<open>State_\<close> may hold, is never left.
\<close>

theorem smart_round_robin_converges:
  "(srrb_State b = 3 \<and> srrb_CntComplete b = 0
      \<longrightarrow> srrb_State (fold srr_round (replicate k True) b) = srr_way 3 2 1 0 k)
   \<and> (srrb_State b = 0 \<and> srrb_CntFail b = 0
      \<longrightarrow> srrb_State (fold srr_round (replicate k False) b) = srr_way 0 1 2 3 k)
   \<and> (srrb_State b \<in> {1, 2} \<and> srrb_CntComplete b = 0 \<and> srrb_CntFail b = 0 \<and> length rs = 11
      \<longrightarrow> (\<forall>j \<le> 11. srrb_State (fold srr_round (take j rs) b) = srrb_State b)
        \<and> srr_core (UpdateState (fold srr_round rs b)) =
          (if srrb_State b = 1
           then (if count_list rs True < count_list rs False then 2 else if count_list rs False = 0 then 0 else 1, 0, 0)
           else (if count_list rs True = 0 then 3 else if count_list rs False < count_list rs True then 1 else 2, 0, 0)))
   \<and> (srrb_State b > 3 \<longrightarrow> srrb_State (fold srr_round rs b) = srrb_State b)"
proof -
  have st: "srrb_State x = fst (srr_core x)" for x :: "'a srrb" by (simp add: srr_core_def)
  have upd: "srr_core (UpdateState x) = (let (s, c, f) = srr_core x in
      if s = 1 \<and> f + c > 10 then (if f > c then 2 else if f = 0 then 0 else 1, 0, 0)
      else if s = 2 \<and> f + c > 10 then (if c = 0 then 3 else if c > f then 1 else 2, 0, 0) else srr_core (UpdateState x))"
    for x :: "'a srrb"
    by (simp add: srr_core_def UpdateState_def Let_def)
  have "srr_core (UpdateState (fold srr_round rs b)) =
          (if srrb_State b = 1
           then (if count_list rs True < count_list rs False then 2 else if count_list rs False = 0 then 0 else 1, 0, 0)
           else (if count_list rs True = 0 then 3 else if count_list rs False < count_list rs True then 1 else 2, 0, 0))"
    if w: "srrb_State b \<in> {1, 2}" "srrb_CntComplete b = 0" "srrb_CntFail b = 0" "length rs = 11"
  proof -
    have "srr_core (fold srr_round rs b) = (srrb_State b, of_nat (count_list rs True), of_nat (count_list rs False))"
      using srr_step_window [of "srrb_State b" rs] w unfolding srr_core_rounds by (simp add: srr_core_def)
    then show ?thesis using w(1) by (subst upd) (auto simp: srr_step_decide [OF w(4)])
  qed
  moreover have "srrb_State (fold srr_round (take j rs) b) = srrb_State b"
    if "srrb_State b \<in> {1, 2}" "srrb_CntComplete b = 0" "srrb_CntFail b = 0" "j \<le> 11" for j
    using srr_step_window [of "srrb_State b" "take j rs"] that
    unfolding st srr_core_rounds by (simp add: srr_core_def min_le_iff_disj)
  ultimately show ?thesis
    using srr_step_ways srr_step_unknown unfolding st srr_core_rounds by (simp add: srr_core_def)
qed

theorem smart_round_robin_converges_witness:
  "let b = (\<lambda>st. srrb_new (\<lambda>_. st) 0 \<lparr>d_Weight = 1, d_Module = Some ()\<rparr>);
       rs = replicate 5 True @ replicate 6 False in
   srrb_State (fold srr_round (replicate 23 True) (b 3)) = 1
   \<and> srrb_State (fold srr_round (replicate 24 False) (b 0)) = 3
   \<and> srr_core (UpdateState (fold srr_round rs (b 1))) = (2, 0, 0)
   \<and> srr_core (UpdateState (fold srr_round rs (b 2))) = (2, 0, 0)
   \<and> srrb_State (fold srr_round rs (b 77)) = 77"
proof -
  define b where "b st = srrb_new (\<lambda>_. st) 0 \<lparr>d_Weight = 1, d_Module = Some ()\<rparr>" for st :: ui32
  define rs where "rs = replicate 5 True @ replicate 6 False"
  have b: "srrb_State (b st) = st" "srrb_CntComplete (b st) = 0" "srrb_CntFail (b st) = 0" for st
    by (simp_all add: b_def srrb_new_def)
  have rs: "length rs = 11" "count_list rs True = 5" "count_list rs False = 6" by (simp_all add: rs_def numeral_eq_Suc)
  have "srrb_State (fold srr_round (replicate 23 True) (b 3)) = 1"
    using smart_round_robin_converges [of "b 3" 23] by (simp add: b srr_way_def del: fold_replicate)
  moreover have "srrb_State (fold srr_round (replicate 24 False) (b 0)) = 3"
    using smart_round_robin_converges [of "b 0" 24] by (simp add: b srr_way_def del: fold_replicate)
  moreover have "srr_core (UpdateState (fold srr_round rs (b 1))) = (2, 0, 0)"
      "srr_core (UpdateState (fold srr_round rs (b 2))) = (2, 0, 0)" "srrb_State (fold srr_round rs (b 77)) = 77"
    using smart_round_robin_converges [of "b 1" 0 rs] smart_round_robin_converges [of "b 2" 0 rs]
      smart_round_robin_converges [of "b 77" 0 rs] by (simp_all add: b rs)
  ultimately show ?thesis by (simp add: b_def rs_def Let_def del: fold_replicate)
qed

end
