(* ===== verification/Algorithms.thy ===== *)
theory Algorithms
  imports Balancer Hashing Fair Robust Pidgroup Weighted Weighted2 Rrobin
begin

text \<open>
  The choice of a balancing algorithm by its name (web/httpd/modules/balancer/iterator.cpp): an
  \<open>IBackEnds*\<close> is a value of the sum of all algorithms, its virtual calls go to the operations of
  the algorithm. The sum meets the contract \<open>backends\<close>, and \<open>backends_progress\<close> where the algorithm
  does.
\<close>

datatype 'm algorithm =
    AlgFair "'m fair"
  | AlgSmartRR "'m srrb rr"
  | AlgRoundRobin "'m rrb rr"
  | AlgWeighted "'m weighted"
  | AlgWeighted2 "'m weighted2"
  | AlgRobust "'m robust"
  | AlgPIDGroup "'m pidgroup"
  | AlgHashing "'m hashing"

text \<open>
  What the constructors read beside the configuration: number parsing, the module loader, the
  memory of uninitialised members, pool addresses, the random numbers and the clock.
\<close>

record 'm make_env =
  mk_fromReal :: "string \<Rightarrow> real outcome"
  mk_fromDuration :: "string \<Rightarrow> ui64 outcome"
  mk_Loader :: "'m factory"
  mk_V0 :: "real list"
  mk_counters :: "ui64 \<times> ui64"
  mk_garbage :: w2_garbage
  mk_states :: "nat \<Rightarrow> ui32"
  mk_addr :: "nat \<Rightarrow> ui64"
  mk_random :: "real stream"
  mk_random64 :: "ui64 stream"
  mk_clock :: "ui64 stream"

definition ConstructBackEnds :: "'m make_env \<Rightarrow> string \<Rightarrow> cfg \<Rightarrow> 'm algorithm option outcome" where
  "ConstructBackEnds e type c =
     (if type = ''fair'' then
        map_outcome_val (Some \<circ> AlgFair) (CreateFair (mk_fromReal e) (mk_Loader e) (mk_V0 e) (mk_random e) c)
      else if type = ''srr'' then
        map_outcome_val (Some \<circ> AlgSmartRR) (CreateSmartRoundRobin (mk_fromReal e) (mk_Loader e) (mk_states e) (mk_addr e) c)
      else if type = ''rr'' then
        map_outcome_val (Some \<circ> AlgRoundRobin) (CreateRoundRobin (mk_fromReal e) (mk_Loader e) (mk_addr e) c)
      else if type = ''weighted'' then
        map_outcome_val (Some \<circ> AlgWeighted) (CreateWeighted (mk_fromReal e) (mk_Loader e) (mk_random e) c)
      else if type = ''weighted2'' then
        map_outcome_val (Some \<circ> AlgWeighted2)
          (CreateWeighted2 (mk_fromReal e) (mk_fromDuration e) (mk_Loader e) (mk_garbage e) (mk_clock e) c)
      else if type = ''robust'' then
        map_outcome_val (Some \<circ> AlgRobust)
          (CreateRobust (mk_fromReal e) (mk_Loader e) (fst (mk_counters e)) (snd (mk_counters e)) (mk_V0 e) (mk_random e) c)
      else if type = ''pidgroup'' then
        map_outcome_val (Some \<circ> AlgPIDGroup) (CreatePIDGroup (mk_fromReal e) (mk_Loader e) (mk_random e) c)
      else if type = ''hashing'' \<or> type = ''subnet'' then
        map_outcome_val (Some \<circ> AlgHashing) (CreateHashing (mk_fromReal e) (mk_Loader e) (mk_random64 e) c)
      else Ret None)"

section \<open>Virtual calls\<close>

fun alg_DoNext :: "ui64 \<Rightarrow> ui64 \<Rightarrow> 'm algorithm \<Rightarrow> nat option outcome \<times> 'm algorithm" where
  "alg_DoNext h a (AlgFair s) = map_prod id AlgFair (be_DoNext fair_ops h a s)"
| "alg_DoNext h a (AlgSmartRR s) = map_prod id AlgSmartRR (be_DoNext smartrr_ops h a s)"
| "alg_DoNext h a (AlgRoundRobin s) = map_prod id AlgRoundRobin (be_DoNext rrobin_ops h a s)"
| "alg_DoNext h a (AlgWeighted s) = map_prod id AlgWeighted (be_DoNext weighted_ops h a s)"
| "alg_DoNext h a (AlgWeighted2 s) = map_prod id AlgWeighted2 (be_DoNext weighted2_ops h a s)"
| "alg_DoNext h a (AlgRobust s) = map_prod id AlgRobust (be_DoNext robust_ops h a s)"
| "alg_DoNext h a (AlgPIDGroup s) = map_prod id AlgPIDGroup (be_DoNext pid_ops h a s)"
| "alg_DoNext h a (AlgHashing s) = map_prod id AlgHashing (be_DoNext hashing_ops h a s)"

fun alg_Size :: "'m algorithm \<Rightarrow> nat" where
  "alg_Size (AlgFair s) = be_Size fair_ops s"
| "alg_Size (AlgSmartRR s) = be_Size smartrr_ops s"
| "alg_Size (AlgRoundRobin s) = be_Size rrobin_ops s"
| "alg_Size (AlgWeighted s) = be_Size weighted_ops s"
| "alg_Size (AlgWeighted2 s) = be_Size weighted2_ops s"
| "alg_Size (AlgRobust s) = be_Size robust_ops s"
| "alg_Size (AlgPIDGroup s) = be_Size pid_ops s"
| "alg_Size (AlgHashing s) = be_Size hashing_ops s"

fun alg_Module :: "nat \<Rightarrow> 'm algorithm \<Rightarrow> 'm" where
  "alg_Module i (AlgFair s) = be_Module fair_ops i s"
| "alg_Module i (AlgSmartRR s) = be_Module smartrr_ops i s"
| "alg_Module i (AlgRoundRobin s) = be_Module rrobin_ops i s"
| "alg_Module i (AlgWeighted s) = be_Module weighted_ops i s"
| "alg_Module i (AlgWeighted2 s) = be_Module weighted2_ops i s"
| "alg_Module i (AlgRobust s) = be_Module robust_ops i s"
| "alg_Module i (AlgPIDGroup s) = be_Module pid_ops i s"
| "alg_Module i (AlgHashing s) = be_Module hashing_ops i s"

fun alg_OnComplete :: "ui64 \<Rightarrow> nat \<Rightarrow> 'm algorithm \<Rightarrow> 'm algorithm" where
  "alg_OnComplete t i (AlgFair s) = AlgFair (be_OnComplete fair_ops t i s)"
| "alg_OnComplete t i (AlgSmartRR s) = AlgSmartRR (be_OnComplete smartrr_ops t i s)"
| "alg_OnComplete t i (AlgRoundRobin s) = AlgRoundRobin (be_OnComplete rrobin_ops t i s)"
| "alg_OnComplete t i (AlgWeighted s) = AlgWeighted (be_OnComplete weighted_ops t i s)"
| "alg_OnComplete t i (AlgWeighted2 s) = AlgWeighted2 (be_OnComplete weighted2_ops t i s)"
| "alg_OnComplete t i (AlgRobust s) = AlgRobust (be_OnComplete robust_ops t i s)"
| "alg_OnComplete t i (AlgPIDGroup s) = AlgPIDGroup (be_OnComplete pid_ops t i s)"
| "alg_OnComplete t i (AlgHashing s) = AlgHashing (be_OnComplete hashing_ops t i s)"

fun alg_OnFail :: "ui64 \<Rightarrow> nat \<Rightarrow> 'm algorithm \<Rightarrow> 'm algorithm" where
  "alg_OnFail t i (AlgFair s) = AlgFair (be_OnFail fair_ops t i s)"
| "alg_OnFail t i (AlgSmartRR s) = AlgSmartRR (be_OnFail smartrr_ops t i s)"
| "alg_OnFail t i (AlgRoundRobin s) = AlgRoundRobin (be_OnFail rrobin_ops t i s)"
| "alg_OnFail t i (AlgWeighted s) = AlgWeighted (be_OnFail weighted_ops t i s)"
| "alg_OnFail t i (AlgWeighted2 s) = AlgWeighted2 (be_OnFail weighted2_ops t i s)"
| "alg_OnFail t i (AlgRobust s) = AlgRobust (be_OnFail robust_ops t i s)"
| "alg_OnFail t i (AlgPIDGroup s) = AlgPIDGroup (be_OnFail pid_ops t i s)"
| "alg_OnFail t i (AlgHashing s) = AlgHashing (be_OnFail hashing_ops t i s)"

definition alg_ops :: "('m algorithm, 'm) ibackends" where
  "alg_ops = \<lparr>be_DoNext = alg_DoNext, be_Size = alg_Size, be_Module = alg_Module,
     be_OnComplete = alg_OnComplete, be_OnFail = alg_OnFail\<rparr>"

lemma alg_ops_simps [simp]:
  "be_DoNext alg_ops = alg_DoNext" "be_Size alg_ops = alg_Size" "be_Module alg_ops = alg_Module"
  "be_OnComplete alg_ops = alg_OnComplete" "be_OnFail alg_ops = alg_OnFail"
  by (simp_all add: alg_ops_def)

section \<open>Contracts\<close>

fun alg_inv :: "'m algorithm \<Rightarrow> bool" where
  "alg_inv (AlgFair s) = fair_inv s"
| "alg_inv (AlgSmartRR s) = srrb.rr_inv s"
| "alg_inv (AlgRoundRobin s) = rrb.rr_inv s"
| "alg_inv (AlgWeighted s) = weighted_inv s"
| "alg_inv (AlgWeighted2 s) = w2_inv s"
| "alg_inv (AlgRobust s) = robust_inv s"
| "alg_inv (AlgPIDGroup s) = pid_ready s"
| "alg_inv (AlgHashing s) = hashing_inv s"

text \<open>The algorithms of which the connection iterator is known to return.\<close>

fun alg_live :: "'m algorithm \<Rightarrow> bool" where
  "alg_live (AlgSmartRR s) = srrb.rr_inv s"
| "alg_live (AlgRoundRobin s) = rrb.rr_inv s"
| "alg_live (AlgWeighted2 s) = w2_inv s"
| "alg_live (AlgHashing s) = hashing_random_inv s"
| "alg_live _ = False"

context backends
begin

text \<open>The laws carried through a constructor of the sum.\<close>

lemma next_under:
  assumes "inv s" and "\<And>s. P (K s) = inv s" and "\<And>s. sz (K s) = be_Size ops s"
  shows "\<exists>i t. map_prod id K (be_DoNext ops h a s) = (Ret (Some i), t) \<and> i < be_Size ops s \<and> P t \<and> sz t = be_Size ops s"
  using next_ok [OF assms(1), of h a] assms(2,3) by auto

end

lemma rrobin_backends: "backends rrobin_ops rrb.rr_inv" and smartrr_backends: "backends smartrr_ops srrb.rr_inv"
  unfolding rrobin_ops_def smartrr_ops_def by (rule rrb.wb.backends_axioms srrb.wb.backends_axioms)+

interpretation alg: backends "alg_ops :: ('m algorithm, 'm) ibackends" alg_inv
proof
  fix s :: "'m algorithm" and h a i t
  assume s: "alg_inv s"
  show "\<exists>i s'. be_DoNext alg_ops h a s = (Ret (Some i), s') \<and> i < be_Size alg_ops s \<and> alg_inv s'
      \<and> be_Size alg_ops s' = be_Size alg_ops s"
  proof (cases s)
    case (AlgFair x)
    then show ?thesis using fairb.next_under [where P = alg_inv and K = AlgFair and sz = alg_Size] s by simp
  next
    case (AlgSmartRR x)
    then show ?thesis using backends.next_under [OF smartrr_backends, where P = alg_inv and K = AlgSmartRR and sz = alg_Size] s by simp
  next
    case (AlgRoundRobin x)
    then show ?thesis using backends.next_under [OF rrobin_backends, where P = alg_inv and K = AlgRoundRobin and sz = alg_Size] s by simp
  next
    case (AlgWeighted x)
    then show ?thesis using wei.next_under [where P = alg_inv and K = AlgWeighted and sz = alg_Size] s by simp
  next
    case (AlgWeighted2 x)
    then show ?thesis using wei2.next_under [where P = alg_inv and K = AlgWeighted2 and sz = alg_Size] s by simp
  next
    case (AlgRobust x)
    then show ?thesis using rob.next_under [where P = alg_inv and K = AlgRobust and sz = alg_Size] s by simp
  next
    case (AlgPIDGroup x)
    then show ?thesis using pid.next_under [where P = alg_inv and K = AlgPIDGroup and sz = alg_Size] s by simp
  next
    case (AlgHashing x)
    then show ?thesis using hash.next_under [where P = alg_inv and K = AlgHashing and sz = alg_Size] s by simp
  qed
  show "i < be_Size alg_ops s \<Longrightarrow> alg_inv (be_OnComplete alg_ops t i s)
      \<and> be_Size alg_ops (be_OnComplete alg_ops t i s) = be_Size alg_ops s"
    using s by (cases s) (simp_all add: fairb.complete_ok backends.complete_ok [OF smartrr_backends]
        backends.complete_ok [OF rrobin_backends] wei.complete_ok wei2.complete_ok rob.complete_ok pid.complete_ok
        hash.complete_ok)
  show "i < be_Size alg_ops s \<Longrightarrow> alg_inv (be_OnFail alg_ops t i s)
      \<and> be_Size alg_ops (be_OnFail alg_ops t i s) = be_Size alg_ops s"
    using s by (cases s) (simp_all add: fairb.fail_ok backends.fail_ok [OF smartrr_backends]
        backends.fail_ok [OF rrobin_backends] wei.fail_ok wei2.fail_ok rob.fail_ok pid.fail_ok hash.fail_ok)
qed

text \<open>Any number of calls stays under the constructor.\<close>

lemma be_after_under:
  assumes "\<And>h a s. be_DoNext ops' h a (K s) = map_prod id K (be_DoNext ops h a s)"
  shows "be_after ops' h a n (K s) = K (be_after ops h a n s)" and "be_pick ops' h a n (K s) = be_pick ops h a n s"
proof -
  show after: "be_after ops' h a n (K s) = K (be_after ops h a n s)"
    by (induction n arbitrary: a s) (simp_all add: assms)
  show "be_pick ops' h a n (K s) = be_pick ops h a n s"
    unfolding be_pick_def after assms by simp
qed

lemma rrobin_progress: "backends_progress rrobin_ops rrb.rr_inv"
  and smartrr_progress: "backends_progress smartrr_ops srrb.rr_inv"
  unfolding rrobin_ops_def smartrr_ops_def
  by (rule rrb.wb.backends_progress_axioms srrb.wb.backends_progress_axioms)+

lemma alg_live_inv: "alg_live s \<Longrightarrow> alg_inv s"
  by (cases s) (auto simp: hashing_random_inv_def)

lemma alg_live_next:
  assumes "alg_live s"
  shows "\<exists>i s'. alg_DoNext h a s = (Ret (Some i), s') \<and> i < alg_Size s \<and> alg_live s' \<and> alg_Size s' = alg_Size s"
proof (cases s)
  case (AlgSmartRR x)
  then show ?thesis using backends.next_under [OF smartrr_backends, where P = alg_live and K = AlgSmartRR and sz = alg_Size] assms by simp
next
  case (AlgRoundRobin x)
  then show ?thesis using backends.next_under [OF rrobin_backends, where P = alg_live and K = AlgRoundRobin and sz = alg_Size] assms by simp
next
  case (AlgWeighted2 x)
  then show ?thesis using wei2.next_under [where P = alg_live and K = AlgWeighted2 and sz = alg_Size] assms by simp
next
  case (AlgHashing x)
  then show ?thesis using hashr.next_under [where P = alg_live and K = AlgHashing and sz = alg_Size] assms by simp
qed (use assms in simp_all)

interpretation live: backends_progress "alg_ops :: ('m algorithm, 'm) ibackends" alg_live
proof
  fix s :: "'m algorithm" and h a i t j
  assume s: "alg_live s"
  show "\<exists>i s'. be_DoNext alg_ops h a s = (Ret (Some i), s') \<and> i < be_Size alg_ops s \<and> alg_live s'
      \<and> be_Size alg_ops s' = be_Size alg_ops s"
    using alg_live_next [OF s] by simp
  show "i < be_Size alg_ops s \<Longrightarrow> alg_live (be_OnComplete alg_ops t i s)
      \<and> be_Size alg_ops (be_OnComplete alg_ops t i s) = be_Size alg_ops s"
    using s by (cases s) (simp_all add: backends.complete_ok [OF smartrr_backends]
        backends.complete_ok [OF rrobin_backends] wei2.complete_ok hashr.complete_ok)
  show "i < be_Size alg_ops s \<Longrightarrow> alg_live (be_OnFail alg_ops t i s)
      \<and> be_Size alg_ops (be_OnFail alg_ops t i s) = be_Size alg_ops s"
    using s by (cases s) (simp_all add: backends.fail_ok [OF smartrr_backends]
        backends.fail_ok [OF rrobin_backends] wei2.fail_ok hashr.fail_ok)
  show "j < be_Size alg_ops s \<Longrightarrow> \<exists>n. be_pick alg_ops h a n s = Ret (Some j)"
  proof (cases s)
    case (AlgSmartRR x)
    then show "j < be_Size alg_ops s \<Longrightarrow> ?thesis" using backends_progress.progress [OF smartrr_progress] s
      by (simp add: be_after_under(2) [where K = AlgSmartRR and ops = smartrr_ops])
  next
    case (AlgRoundRobin x)
    then show "j < be_Size alg_ops s \<Longrightarrow> ?thesis" using backends_progress.progress [OF rrobin_progress] s
      by (simp add: be_after_under(2) [where K = AlgRoundRobin and ops = rrobin_ops])
  next
    case (AlgWeighted2 x)
    then show "j < be_Size alg_ops s \<Longrightarrow> ?thesis" using wei2.progress s
      by (simp add: be_after_under(2) [where K = AlgWeighted2 and ops = weighted2_ops])
  next
    case (AlgHashing x)
    then show "j < be_Size alg_ops s \<Longrightarrow> ?thesis" using hashr.progress s
      by (simp add: be_after_under(2) [where K = AlgHashing and ops = hashing_ops])
  qed (use s in simp_all)
qed

section \<open>The first attempt of "hashing"\<close>

lemma hashing_first:
  assumes "hs_BackEnds (b_BackEnds b) \<noteq> []" and "0 < unat (b_Attempts b)"
    and "DoRun hashing_ops Run r send h inp ou clk b = Some (res, st)"
  shows "\<exists>bs. it_Attempts (bs_iter st) = Some (unat h mod hashing_Size (b_BackEnds b)) # bs"
proof -
  obtain n where n: "unat (b_Attempts b) = Suc n" using assms(2) by (cases "unat (b_Attempts b)") auto
  let ?st = "bal_start inp ou clk b" and ?i = "unat h mod hashing_Size (b_BackEnds b)"
  obtain q st1 where q: "bal_attempt hashing_ops Run r send h n ?st = Some (q, st1)"
    using assms(3) by (auto simp: DoRun_def n split: option.splits)
  have "ci_Next hashing_ops h conn_iter_new (b_BackEnds b)
      = Some (Ret (Some ?i), \<lparr>it_Attempts = [Some ?i], it_Attempt = 1\<rparr>, b_BackEnds b)"
    using assms(1) by (simp add: ci_Next_def ci_search.simps conn_iter_new_def be_Next_def hashing_ops_def hashing_DoNext_def
        hashing_Size_def AlreadyHave_def)
  then have "it_Attempts (bs_iter st1) = [Some ?i]"
    using q by (auto simp: bal_attempt_def Let_def bal_start_def split: outcome.splits prod.splits if_splits)
  moreover have "st = st1 \<or> bal_loop hashing_ops Run r send h n st1 = Some (res, st)"
    using assms(3) q by (auto simp: DoRun_def n split: option.splits)
  ultimately show ?thesis using bal_loop_grows [of hashing_ops Run r send h n st1 res st] by auto
qed

text \<open>
  C39. "hashing" is sticky: whatever requests were started, in whatever order they completed or failed
  and whatever the random numbers were since the algorithm was created, the balancer sends the first
  attempt of a request with hash \<open>h\<close> to the backend number \<open>h\<close> modulo the number of configured backends,
  whatever the modules, the client and the arbiter do. The hashes are spread evenly: every backend is
  the first for the same number of them, up to one.
\<close>

theorem hashing_sticky:
  assumes "CreateHashing fromString loader rnd c = Ret s" and "c \<noteq> []"
    and "\<forall>e \<in> set evs. ev_ok (length c) e" and "be_run hashing_ops evs s = (ps, b_BackEnds b)"
    and "0 < unat (b_Attempts b)" and "DoRun hashing_ops Run r send h inp ou clk b = Some (res, st)"
  shows "(\<exists>bs. it_Attempts (bs_iter st) = Some (unat h mod length c) # bs)
    \<and> (\<forall>j < length c. length c \<le> 2 ^ 64 \<longrightarrow> hash_share (length c) j \<in> {2 ^ 64 div length c, 2 ^ 64 div length c + 1})"
proof -
  have "hashing_Size (b_BackEnds b) = length c"
    using hashing_history [OF assms(4)] CreateHashing_Size [OF assms(1)] assms(3) by simp
  moreover from this have "hs_BackEnds (b_BackEnds b) \<noteq> []" using assms(2) by (auto simp: hashing_Size_def)
  ultimately show ?thesis using hashing_first [OF _ assms(5,6)] hash_share_even by simp
qed

theorem hashing_sticky_witness:
  "\<exists>s ps b st bs. CreateHashing (\<lambda>_. Ret 2) proxy_loader (sconst 5) two_backends = Ret s
    \<and> be_run hashing_ops [AskNext 0 0, Failed 7 0, AskNext 3 1, Completed 7 1] s = (ps, b_BackEnds b)
    \<and> DoRun hashing_ops (\<lambda>m left. Done) owned_Recv (\<lambda>l ou. (Ret (), ou @ l)) 7 [] [] (sconst 0) b = Some (Ret (), st)
    \<and> it_Attempts (bs_iter st) = Some 1 # bs"
proof -
  let ?d = "\<lambda>w. hashing_backend_new \<lparr>d_Weight = w, d_Module = Some ()\<rparr>"
  let ?evs = "[AskNext 0 0, Failed 7 0, AskNext 3 1, Completed 7 1]"
  define s where "s = \<lparr>hs_BackEnds = [?d 1, ?d 2], hs_random = sconst 5\<rparr>"
  have new: "CreateHashing (\<lambda>_. Ret 2) proxy_loader (sconst 5) two_backends = Ret s"
    by (simp add: s_def CreateHashing_def ForEach_def Add_backend_def hashing_Add_def descriptor_new_def descriptor_DoConsume_def
        ON_KEY_def MustLoad_def Load_def factory_new_def)
  obtain ps s' where run: "be_run hashing_ops ?evs s = (ps, s')" by fastforce
  define b where "b = \<lparr>b_BackEnds = s', b_Arbiter = FakeArbiter, b_Attempts = 1, b_Incomplete = 0\<rparr>"
  have evs: "\<forall>e \<in> set ?evs. ev_ok (length two_backends) e" by simp
  have "hashing_Size s' = 2" using hashing_history [OF run] CreateHashing_Size [OF new] by simp
  then have "hs_BackEnds s' \<noteq> []" by (auto simp: hashing_Size_def)
  then have "\<exists>st. DoRun hashing_ops (\<lambda>m left. Done) owned_Recv (\<lambda>l ou. (Ret (), ou @ l)) 7 [] [] (sconst 0) b = Some (Ret (), st)"
    by (simp add: DoRun_def b_def bal_start_def bal_attempt_def Let_def ci_Next_def ci_search.simps conn_iter_new_def be_Next_def
        hashing_ops_def hashing_DoNext_def hashing_Size_def AlreadyHave_def)
  then obtain st where st:
    "DoRun hashing_ops (\<lambda>m left. Done) owned_Recv (\<lambda>l ou. (Ret (), ou @ l)) 7 [] [] (sconst 0) b = Some (Ret (), st)" by blast
  have run': "be_run hashing_ops ?evs s = (ps, b_BackEnds b)" "0 < unat (b_Attempts b)" using run by (simp_all add: b_def)
  have "unat (7 :: ui64) mod length two_backends = 1" by (simp add: numeral_2_eq_2 [symmetric])
  with hashing_sticky [OF new _ evs run' st] obtain bs where "it_Attempts (bs_iter st) = Some 1 # bs" by auto
  with new run'(1) st show ?thesis by blast
qed

end
