(* ===== verification/Intrlist.thy ===== *)
theory Intrlist
  imports Prelude "HOL-Library.Monad_Syntax"
begin

text \<open>
  The intrusive lists (util/generic/intrlist.h). The items live in an explicit store: \<open>Next_\<close> and
  \<open>Prev_\<close> are functions from addresses to addresses. A \<open>TIntrusiveList\<close> is the address of its
  \<open>End_\<close> item; an iterator is the address of the item it points to. Loops that follow \<open>Next_\<close>
  may not end on a broken store, so they are partial functions.

  \<open>ilist h e xs\<close> says that the list with the end item \<open>e\<close> holds the items \<open>xs\<close>, in that order. The
  lemmas give for every operation the new contents, and that no list disjoint from the ones it works on
  changes.
\<close>

type_synonym addr = nat

record heap =
  Next_of :: "addr \<Rightarrow> addr"
  Prev_of :: "addr \<Rightarrow> addr"

section \<open>\<open>TIntrusiveListItem\<close>\<close>

definition SetNext :: "addr \<Rightarrow> addr \<Rightarrow> heap \<Rightarrow> heap" where
  "SetNext this t h = h\<lparr>Next_of := (Next_of h)(this := t)\<rparr>"

definition SetPrev :: "addr \<Rightarrow> addr \<Rightarrow> heap \<Rightarrow> heap" where
  "SetPrev this t h = h\<lparr>Prev_of := (Prev_of h)(this := t)\<rparr>"

definition SetEnd :: "addr \<Rightarrow> heap \<Rightarrow> heap" where
  "SetEnd this h = SetNext this this (SetPrev this this h)"

text \<open>The constructor of an item.\<close>

definition item_new :: "addr \<Rightarrow> heap \<Rightarrow> heap" where
  "item_new this h = SetPrev this this (SetNext this this h)"

definition item_Empty :: "addr \<Rightarrow> heap \<Rightarrow> bool" where
  "item_Empty this h \<longleftrightarrow> Prev_of h this = this \<and> Next_of h this = this"

definition item_Unlink :: "addr \<Rightarrow> heap \<Rightarrow> heap" where
  "item_Unlink this h =
     (if item_Empty this h then h
      else let h1 = SetNext (Prev_of h this) (Next_of h this) h;
               h2 = SetPrev (Next_of h1 this) (Prev_of h1 this) h1
           in SetEnd this h2)"

definition LinkBeforeNoUnlink :: "addr \<Rightarrow> addr \<Rightarrow> heap \<Rightarrow> heap" where
  "LinkBeforeNoUnlink before this h =
     (let aft = Prev_of h before
      in SetPrev before this (SetNext this before (SetPrev this aft (SetNext aft this h))))"

definition LinkBefore :: "addr \<Rightarrow> addr \<Rightarrow> heap \<Rightarrow> heap" where
  "LinkBefore before this h = LinkBeforeNoUnlink before this (item_Unlink this h)"

definition LinkAfter :: "addr \<Rightarrow> addr \<Rightarrow> heap \<Rightarrow> heap" where
  "LinkAfter aft this h = (let h1 = item_Unlink this h in LinkBeforeNoUnlink (Next_of h1 aft) this h1)"

text \<open>
  \<open>TIntrusiveListItem::ForEach\<close>: the functor gets the node and may change the store; the next
  item is read before it is called.
\<close>

partial_function (option) item_ForEach_loop ::
  "(addr \<Rightarrow> heap \<times> 's \<Rightarrow> heap \<times> 's) \<Rightarrow> addr \<Rightarrow> addr \<Rightarrow> heap \<times> 's \<Rightarrow> (heap \<times> 's) option" where
  "item_ForEach_loop f this c st =
     (if c = this then Some st
      else let n = Next_of (fst st) c in item_ForEach_loop f this n (f c st))"

definition item_ForEach :: "(addr \<Rightarrow> heap \<times> 's \<Rightarrow> heap \<times> 's) \<Rightarrow> addr \<Rightarrow> heap \<times> 's \<Rightarrow> (heap \<times> 's) option" where
  "item_ForEach f this st = item_ForEach_loop f this (Next_of (fst st) this) st"

section \<open>\<open>TIntrusiveList\<close>\<close>

definition it_Next :: "addr \<Rightarrow> heap \<Rightarrow> addr" where
  "it_Next it h = Next_of h it"

definition it_Prev :: "addr \<Rightarrow> heap \<Rightarrow> addr" where
  "it_Prev it h = Prev_of h it"

definition il_Begin :: "addr \<Rightarrow> heap \<Rightarrow> addr" where
  "il_Begin e h = it_Next e h"

definition il_RBegin :: "addr \<Rightarrow> heap \<Rightarrow> addr" where
  "il_RBegin e h = it_Prev e h"

text \<open>
  The reverse iterator: pre-increment and post-increment. The result of an increment is paired with the new
  position of the iterator.
\<close>

definition rev_PreInc :: "addr \<Rightarrow> heap \<Rightarrow> addr \<times> addr" where
  "rev_PreInc it h = (let it' = it_Prev it h in (it', it'))"

definition rev_PostInc :: "addr \<Rightarrow> heap \<Rightarrow> addr \<times> addr" where
  "rev_PostInc it h = (let it' = it_Prev it h in (it', it'))"

definition PushBack :: "addr \<Rightarrow> addr \<Rightarrow> heap \<Rightarrow> heap" where
  "PushBack e item h = LinkBefore e item h"

definition PushFront :: "addr \<Rightarrow> addr \<Rightarrow> heap \<Rightarrow> heap" where
  "PushFront e item h = LinkAfter e item h"

definition PopBack :: "addr \<Rightarrow> heap \<Rightarrow> addr \<times> heap" where
  "PopBack e h = (let ret = Prev_of h e in (ret, item_Unlink ret h))"

definition PopFront :: "addr \<Rightarrow> heap \<Rightarrow> addr \<times> heap" where
  "PopFront e h = (let ret = Next_of h e in (ret, item_Unlink ret h))"

text \<open>\<open>TIntrusiveList::ForEach\<close>: \<open>f(&*(it++))\<close>.\<close>

partial_function (option) il_ForEach_loop ::
  "(addr \<Rightarrow> heap \<times> 's \<Rightarrow> heap \<times> 's) \<Rightarrow> addr \<Rightarrow> addr \<Rightarrow> heap \<times> 's \<Rightarrow> (heap \<times> 's) option" where
  "il_ForEach_loop f e it st =
     (if it = e then Some st
      else let it' = it_Next it (fst st) in il_ForEach_loop f e it' (f it st))"

definition il_ForEach :: "(addr \<Rightarrow> heap \<times> 's \<Rightarrow> heap \<times> 's) \<Rightarrow> addr \<Rightarrow> heap \<times> 's \<Rightarrow> (heap \<times> 's) option" where
  "il_ForEach f e st = il_ForEach_loop f e (il_Begin e (fst st)) st"

text \<open>\<open>TSizeCount\<close> counts the calls.\<close>

definition TSizeCount :: "addr \<Rightarrow> heap \<times> nat \<Rightarrow> heap \<times> nat" where
  "TSizeCount _ = (\<lambda>(h, n). (h, n + 1))"

definition il_Size :: "addr \<Rightarrow> heap \<Rightarrow> nat option" where
  "il_Size e h = map_option snd (il_ForEach TSizeCount e (h, 0))"

definition il_Empty :: "addr \<Rightarrow> heap \<Rightarrow> bool" where
  "il_Empty e h = item_Empty e h"

definition il_Cut :: "addr \<Rightarrow> addr \<Rightarrow> addr \<Rightarrow> heap \<Rightarrow> heap" where
  "il_Cut bgn en pasteBefore h =
     (if bgn = en then h
      else let cutFront = bgn; gapBack = en;
               gapFront = Prev_of h cutFront; cutBack = Prev_of h gapBack;
               h1 = SetPrev gapBack gapFront (SetNext gapFront gapBack h);
               pasteBack = pasteBefore; pasteFront = Prev_of h1 pasteBack
           in SetPrev pasteBack cutBack (SetNext cutBack pasteBack
                (SetPrev cutFront pasteFront (SetNext pasteFront cutFront h1))))"

definition il_Append :: "addr \<Rightarrow> addr \<Rightarrow> heap \<Rightarrow> heap" where
  "il_Append e lst h = il_Cut (il_Begin lst h) lst e h"

text \<open>\<open>tmp\<close> is the address of the local list.\<close>

definition il_Swap :: "addr \<Rightarrow> addr \<Rightarrow> addr \<Rightarrow> heap \<Rightarrow> heap" where
  "il_Swap tmp e lst h = il_Append e tmp (il_Append lst e (il_Append tmp lst (item_new tmp h)))"

definition il_Clear :: "addr \<Rightarrow> heap \<Rightarrow> heap" where
  "il_Clear e h = item_Unlink e h"

text \<open>\<open>TIntrusiveListWithAutoDelete::Clear\<close>; the destroyed items are collected.\<close>

partial_function (option) ad_Clear :: "addr \<Rightarrow> heap \<Rightarrow> addr list \<Rightarrow> (addr list \<times> heap) option" where
  "ad_Clear e h gone =
     (if il_Empty e h then Some (gone, h)
      else case PopFront e h of (item, h') \<Rightarrow> ad_Clear e h' (gone @ [item]))"

text \<open>\<open>TIntrusiveListWithAutoDelete::Cut(begin, end)\<close>: the range is destroyed with the local list.\<close>

definition ad_Cut :: "addr \<Rightarrow> addr \<Rightarrow> addr \<Rightarrow> heap \<Rightarrow> (addr list \<times> heap) option" where
  "ad_Cut temp bgn en h = (let h1 = il_Cut bgn en temp (item_new temp h) in ad_Clear temp h1 [])"

text \<open>
  \<open>QuickSort\<close>: the loop that moves the bigger items, and the recursion. The local list \<open>bigger\<close> is at
  the next free stack address.
\<close>

partial_function (option) qs_partition ::
  "(addr \<Rightarrow> addr \<Rightarrow> bool) \<Rightarrow> addr \<Rightarrow> addr \<Rightarrow> addr \<Rightarrow> addr \<Rightarrow> heap \<Rightarrow> heap option" where
  "qs_partition f c bigger e it h =
     (if it = e then Some h
      else if f c it then (let it' = it_Next it h in qs_partition f c bigger e it' (PushBack bigger it h))
      else qs_partition f c bigger e (it_Next it h) h)"

partial_function (option) il_QuickSort :: "(addr \<Rightarrow> addr \<Rightarrow> bool) \<Rightarrow> addr \<Rightarrow> addr \<Rightarrow> heap \<Rightarrow> heap option" where
  "il_QuickSort f stk e h =
     (if il_Begin e h = e \<or> it_Next (il_Begin e h) h = e then Some h
      else let (c, h1) = PopFront e h; bigger = stk; h2 = item_new bigger h1 in
           Option.bind (qs_partition f c bigger e (il_Begin e h2) h2) (\<lambda>h3.
           Option.bind (il_QuickSort f (stk + 1) e h3) (\<lambda>h4.
           Option.bind (il_QuickSort f (stk + 1) bigger h4) (\<lambda>h5.
             Some (il_Append e bigger (PushBack e c h5))))))"

section \<open>\<open>TIntrusiveSList\<close>\<close>

text \<open>The one-way list: \<open>Begin_\<close> and the \<open>Next_\<close> pointers of the items; 0 is the null pointer.\<close>

type_synonym sheap = "addr \<Rightarrow> addr"

definition sl_PushFront :: "addr \<Rightarrow> addr \<times> sheap \<Rightarrow> addr \<times> sheap" where
  "sl_PushFront item = (\<lambda>(bgn, nxt). (item, nxt(item := bgn)))"

text \<open>On an empty list \<open>Begin_->Next()\<close> dereferences a null pointer.\<close>

definition sl_PopFront :: "addr \<times> sheap \<Rightarrow> (addr \<times> addr \<times> sheap) outcome" where
  "sl_PopFront = (\<lambda>(bgn, nxt). if bgn = 0 then Crash else Ret (bgn, nxt bgn, nxt))"

definition sl_Empty :: "addr \<times> sheap \<Rightarrow> bool" where
  "sl_Empty = (\<lambda>(bgn, nxt). bgn = 0)"

partial_function (option) sl_ForEach_loop :: "(addr \<Rightarrow> sheap \<times> 's \<Rightarrow> sheap \<times> 's) \<Rightarrow> addr \<Rightarrow> sheap \<times> 's \<Rightarrow> (sheap \<times> 's) option" where
  "sl_ForEach_loop f it st = (if it = 0 then Some st else let n = fst st it in sl_ForEach_loop f n (f it st))"

text \<open>\<open>Reverse\<close>: the local list takes every item, then the two are swapped.\<close>

partial_function (option) sl_Reverse_loop :: "addr \<Rightarrow> addr \<Rightarrow> sheap \<Rightarrow> (addr \<times> addr \<times> sheap) option" where
  "sl_Reverse_loop bgn l nxt =
     (if sl_Empty (bgn, nxt) then Some (bgn, l, nxt)
      else case sl_PopFront (bgn, nxt) of
             Ret (item, bgn', nxt') \<Rightarrow> (case sl_PushFront item (l, nxt') of (l', nxt'') \<Rightarrow> sl_Reverse_loop bgn' l' nxt'')
           | _ \<Rightarrow> None)"

definition sl_Reverse :: "addr \<times> sheap \<Rightarrow> (addr \<times> sheap) option" where
  "sl_Reverse = (\<lambda>(bgn, nxt). map_option (\<lambda>(_, l, nxt'). (l, nxt')) (sl_Reverse_loop bgn 0 nxt))"

definition sl_Size :: "addr \<times> sheap \<Rightarrow> nat option" where
  "sl_Size = (\<lambda>(bgn, nxt). map_option snd (sl_ForEach_loop (\<lambda>_ (n, k). (n, k + 1)) bgn (nxt, 0)))"

section \<open>Contents\<close>

fun links :: "heap \<Rightarrow> addr list \<Rightarrow> bool" where
  "links h (a # b # xs) \<longleftrightarrow> Next_of h a = b \<and> Prev_of h b = a \<and> links h (b # xs)"
| "links h _ \<longleftrightarrow> True"

definition ilist :: "heap \<Rightarrow> addr \<Rightarrow> addr list \<Rightarrow> bool" where
  "ilist h e xs \<longleftrightarrow> distinct (e # xs) \<and> links h (e # xs @ [e])"

lemma heap_simps [simp]:
  "Next_of (SetNext a b h) = (Next_of h)(a := b)" "Prev_of (SetNext a b h) = Prev_of h"
  "Next_of (SetPrev a b h) = Next_of h" "Prev_of (SetPrev a b h) = (Prev_of h)(a := b)"
  by (simp_all add: SetNext_def SetPrev_def)

lemma links_append: "links h (xs @ a # ys) \<longleftrightarrow> links h (xs @ [a]) \<and> links h (a # ys)"
proof (induction xs)
  case (Cons x xs)
  then show ?case by (cases xs) auto
qed simp

lemma links_snoc: "links h (xs @ [a, b]) \<longleftrightarrow> links h (xs @ [a]) \<and> Next_of h a = b \<and> Prev_of h b = a"
  using links_append [of h xs a "[b]"] by simp

lemma links_cong:
  assumes "\<And>a. a \<in> set (butlast xs) \<Longrightarrow> Next_of h' a = Next_of h a"
    and "\<And>a. a \<in> set (tl xs) \<Longrightarrow> Prev_of h' a = Prev_of h a"
  shows "links h' xs = links h xs"
  using assms by (induction h xs rule: links.induct) auto

text \<open>The stores differ at the items of \<open>S\<close> only.\<close>

definition outside :: "addr set \<Rightarrow> heap \<Rightarrow> heap \<Rightarrow> bool" where
  "outside S h h' \<longleftrightarrow> (\<forall>a. a \<notin> S \<longrightarrow> Next_of h' a = Next_of h a \<and> Prev_of h' a = Prev_of h a)"

lemma ilist_frame:
  assumes "outside S h h'" and "set (e # xs) \<inter> S = {}"
  shows "ilist h' e xs = ilist h e xs"
proof -
  have "links h' (e # xs @ [e]) = links h (e # xs @ [e])"
    using assms by (intro links_cong) (auto simp: outside_def butlast_append dest!: in_set_butlastD)
  then show ?thesis by (simp add: ilist_def)
qed

lemma outside_refl: "outside S h h"
  by (simp add: outside_def)

lemma outside_trans: "outside S h h' \<Longrightarrow> outside T h' h'' \<Longrightarrow> outside (S \<union> T) h h''"
  by (simp add: outside_def)

lemma outside_mono: "outside S h h' \<Longrightarrow> S \<subseteq> T \<Longrightarrow> outside T h h'"
  by (auto simp: outside_def)

lemma ilist_nil [simp]: "ilist h e [] \<longleftrightarrow> Next_of h e = e \<and> Prev_of h e = e"
  by (auto simp: ilist_def)

lemma ilist_ends:
  assumes "ilist h e xs"
  shows "Next_of h e = (if xs = [] then e else hd xs)" and "Prev_of h e = (if xs = [] then e else last xs)"
proof -
  show "Next_of h e = (if xs = [] then e else hd xs)" using assms by (cases xs) (auto simp: ilist_def)
  show "Prev_of h e = (if xs = [] then e else last xs)"
    using assms links_snoc [of h "e # butlast xs" "last xs" e] by (cases xs rule: rev_cases) (auto simp: ilist_def)
qed

section \<open>Taking out, putting in, moving ranges\<close>

text \<open>
  The ring of a list cut open at two places: \<open>P @ [p]\<close> ends before the first, \<open>n # N\<close> starts after the
  second.
\<close>

lemma ring_front: obtains P p where "e # xs = P @ [p]"
  by (metis list.distinct(1) rev_exhaust)

lemma ring_back: obtains n N where "ys @ [e] = n # N"
  by (cases "ys @ [e]") auto

lemma ring_cut:
  assumes P: "e # xs = P @ [p]" and N: "ys @ [e] = n # N" and d: "distinct (e # xs @ ys)"
  shows "set P \<union> {p} = insert e (set xs)" "insert n (set N) = insert e (set ys)" "p \<notin> set P" "set (tl (P @ [p])) = set xs"
    "n \<notin> set xs" "p \<notin> set ys" "n \<notin> set N" "butlast (n # N) = ys" "n = hd (ys @ [e])" "set N \<subseteq> insert e (set ys)"
    "e # xs @ zs @ ys @ [e] = P @ [p] @ zs @ n # N"
proof -
  show "set P \<union> {p} = insert e (set xs)" using arg_cong [OF P, of set] by auto
  show "insert n (set N) = insert e (set ys)" using arg_cong [OF N, of set] by auto
  show "set (tl (P @ [p])) = set xs" using arg_cong [OF P, of tl] by simp
  have "distinct (P @ [p])" using d P by (metis append_Cons distinct_append)
  then show "p \<notin> set P" by simp
  have "p \<in> set (e # xs)" using P by simp
  then show "p \<notin> set ys" using d by auto
  show "n \<notin> set xs" "n \<notin> set N" "set N \<subseteq> insert e (set ys)" using N d by (cases ys; auto)+
  show "butlast (n # N) = ys" using N by (metis butlast_snoc)
  show "n = hd (ys @ [e])" using N by simp
  have "e # xs @ zs @ ys @ [e] = (e # xs) @ zs @ ys @ [e]" by simp
  then show "e # xs @ zs @ ys @ [e] = P @ [p] @ zs @ n # N" unfolding P N by simp
qed

lemma links_front:
  assumes "links h (P @ [p])" and "\<And>a. a \<in> set P \<Longrightarrow> Next_of h' a = Next_of h a"
    and "\<And>a. a \<in> set (tl (P @ [p])) \<Longrightarrow> Prev_of h' a = Prev_of h a"
  shows "links h' (P @ [p])"
  using assms links_cong [of "P @ [p]" h' h] by simp

lemma links_back:
  assumes "links h (n # N)" and "\<And>a. a \<in> set (butlast (n # N)) \<Longrightarrow> Next_of h' a = Next_of h a"
    and "\<And>a. a \<in> set N \<Longrightarrow> Prev_of h' a = Prev_of h a"
  shows "links h' (n # N)"
  using assms links_cong [of "n # N" h' h] by simp

lemma Unlink_spec:
  assumes "ilist h e (xs @ x # ys)"
  shows "ilist (item_Unlink x h) e (xs @ ys)" and "ilist (item_Unlink x h) x []"
    and "outside (set (e # xs @ x # ys)) h (item_Unlink x h)"
proof -
  obtain P p where P: "e # xs = P @ [p]" by (rule ring_front)
  obtain n N where N: "ys @ [e] = n # N" by (rule ring_back)
  have d: "distinct (e # xs @ ys)" "x \<notin> set (e # xs @ ys)" using assms by (auto simp: ilist_def)
  note c = ring_cut [OF P N d(1)]
  have xP: "x \<notin> set P" "x \<noteq> p" "x \<notin> set N" "x \<noteq> n" using c(1,2) d(2) by auto
  have l: "links h (P @ [p])" "Next_of h p = x" "Prev_of h x = p" "Next_of h x = n" "Prev_of h n = x" "links h (n # N)"
    using assms links_append [of h P p "x # n # N"] c(11) [of "[x]"] by (auto simp: ilist_def)
  define h' where "h' = item_Unlink x h"
  have h': "Next_of h' = (Next_of h)(p := n, x := x)" "Prev_of h' = (Prev_of h)(n := p, x := x)"
    using l xP by (auto simp: h'_def item_Unlink_def item_Empty_def SetEnd_def Let_def fun_eq_iff)
  have "links h' (P @ [p])" by (rule links_front [OF l(1)]) (use c(3-5) d(2) xP in \<open>auto simp: h'\<close>)
  moreover have "links h' (n # N)"
    by (rule links_back [OF l(6)]) (use c(6-8) d(2) xP in \<open>auto simp: h' simp del: butlast.simps\<close>)
  moreover have "Next_of h' p = n" "Prev_of h' n = p" using xP by (auto simp: h')
  ultimately have "links h' (P @ [p] @ n # N)" using links_append [of h' P p "n # N"] by simp
  then show "ilist (item_Unlink x h) e (xs @ ys)" using d(1) c(11) [of "[]"] by (simp add: ilist_def h'_def)
  show "ilist (item_Unlink x h) x []" by (simp add: h'_def [symmetric] h')
  show "outside (set (e # xs @ x # ys)) h (item_Unlink x h)"
    using c(1,2) by (auto simp: outside_def h'_def [symmetric] h')
qed

lemma Unlink_single: "ilist h x [] \<Longrightarrow> item_Unlink x h = h"
  by (simp add: item_Unlink_def item_Empty_def)

lemma LinkBeforeNoUnlink_spec:
  assumes e: "ilist h e (xs @ ys)" and x: "x \<notin> set (e # xs @ ys)" and b: "b = hd (ys @ [e])"
  shows "ilist (LinkBeforeNoUnlink b x h) e (xs @ x # ys)"
    and "outside (insert x (set (e # xs @ ys))) h (LinkBeforeNoUnlink b x h)"
proof -
  obtain P p where P: "e # xs = P @ [p]" by (rule ring_front)
  obtain n N where N: "ys @ [e] = n # N" by (rule ring_back)
  have d: "distinct (e # xs @ ys)" using e by (auto simp: ilist_def)
  note c = ring_cut [OF P N d]
  have xP: "x \<notin> set P" "x \<noteq> p" "x \<notin> set N" "x \<noteq> n" using c(1,2) x by auto
  have l: "links h (P @ [p])" "Next_of h p = n" "Prev_of h n = p" "links h (n # N)"
    using e links_append [of h P p "n # N"] c(11) [of "[]"] by (auto simp: ilist_def)
  define h' where "h' = LinkBeforeNoUnlink b x h"
  have h': "Next_of h' = (Next_of h)(p := x, x := n)" "Prev_of h' = (Prev_of h)(x := p, n := x)"
    using l b c(9) by (auto simp: h'_def LinkBeforeNoUnlink_def Let_def)
  have "links h' (P @ [p])" by (rule links_front [OF l(1)]) (use c(3-5) x xP in \<open>auto simp: h'\<close>)
  moreover have "links h' (n # N)"
    by (rule links_back [OF l(4)]) (use c(6-8) x xP in \<open>auto simp: h' simp del: butlast.simps\<close>)
  moreover have "Next_of h' p = x" "Prev_of h' x = p" "Next_of h' x = n" "Prev_of h' n = x" using xP by (auto simp: h')
  ultimately have "links h' (P @ [p] @ [x] @ n # N)" using links_append [of h' P p "x # n # N"] by simp
  then show "ilist (LinkBeforeNoUnlink b x h) e (xs @ x # ys)" using d x c(11) [of "[x]"] by (simp add: ilist_def h'_def)
  show "outside (insert x (set (e # xs @ ys))) h (LinkBeforeNoUnlink b x h)"
    using c(1,2) by (auto simp: outside_def h'_def [symmetric] h')
qed

text \<open>A range of one list is moved into another.\<close>

lemma il_Cut_spec:
  assumes e: "ilist h e (xs @ ys @ zs)" and f: "ilist h f (us @ vs)"
    and disj: "set (e # xs @ ys @ zs) \<inter> set (f # us @ vs) = {}"
    and pos: "bgn = hd (ys @ zs @ [e])" "en = hd (zs @ [e])" "paste = hd (vs @ [f])"
  shows "ilist (il_Cut bgn en paste h) e (xs @ zs)" and "ilist (il_Cut bgn en paste h) f (us @ ys @ vs)"
    and "outside (set (e # xs @ ys @ zs) \<union> set (f # us @ vs)) h (il_Cut bgn en paste h)"
proof -
  have "ilist (il_Cut bgn en paste h) e (xs @ zs) \<and> ilist (il_Cut bgn en paste h) f (us @ ys @ vs)
    \<and> outside (set (e # xs @ ys @ zs) \<union> set (f # us @ vs)) h (il_Cut bgn en paste h)"
  proof (cases "ys = []")
    case True
    then show ?thesis using e f pos by (simp add: il_Cut_def outside_refl)
  next
    case False
    then obtain b Y where Y: "ys = b # Y" by (cases ys) auto
    obtain Z l where Z: "ys = Z @ [l]" using False by (metis rev_exhaust)
    obtain P p where P: "e # xs = P @ [p]" by (rule ring_front)
    obtain n N where N: "zs @ [e] = n # N" by (rule ring_back)
    obtain Q q where Q: "f # us = Q @ [q]" by (rule ring_front)
    obtain m M where M: "vs @ [f] = m # M" by (rule ring_back)
    have d: "distinct (e # xs @ zs)" "distinct (f # us @ vs)" "distinct ys" "set ys \<inter> set (e # xs @ zs) = {}"
      using e f by (auto simp: ilist_def)
    note c = ring_cut [OF P N d(1)] and g = ring_cut [OF Q M d(2)]
    have "links h (P @ [p] @ ys @ n # N)" using e c(11) [of ys] by (simp add: ilist_def)
    then have "links h (P @ [p])" "links h (p # ys @ n # N)" using links_append [of h P p "ys @ n # N"] by auto
    moreover from this(2) have "links h (p # ys)" "links h (l # n # N)"
      using links_append [of h "p # Z" l "n # N"] by (auto simp: Z)
    ultimately have l: "links h (P @ [p])" "Next_of h p = b" "Prev_of h b = p" "links h ys" "Next_of h l = n" "Prev_of h n = l"
        "links h (n # N)"
      by (auto simp: Y)
    have k: "links h (Q @ [q])" "Next_of h q = m" "Prev_of h m = q" "links h (m # M)"
      using f links_append [of h Q q "m # M"] g(11) [of "[]"] by (auto simp: ilist_def)
    have "distinct (b # Y)" "distinct (Z @ [l])" using d(3) Y Z by simp_all
    then have in_y: "b \<in> set ys" "l \<in> set ys" "set Y \<subseteq> set ys" "set Z \<subseteq> set ys" "b \<notin> set Y" "l \<notin> set Z"
      using arg_cong [OF Y, of set] arg_cong [OF Z, of set] by auto
    define E F where "E = insert e (set xs \<union> set zs)" and "F = insert f (set us \<union> set vs)"
    have sub: "p \<in> E" "n \<in> E" "set P \<subseteq> E" "set xs \<subseteq> E" "set zs \<subseteq> E" "set N \<subseteq> E"
        "q \<in> F" "m \<in> F" "set Q \<subseteq> F" "set us \<subseteq> F" "set vs \<subseteq> F" "set M \<subseteq> F"
      using c(1,2) g(1,2) by (auto simp: E_def F_def)
    have dj: "E \<inter> F = {}" "E \<inter> set ys = {}" "F \<inter> set ys = {}" using disj d(4) by (auto simp: E_def F_def)
    have in_e: "p \<notin> F" "n \<notin> F" "p \<notin> set ys" "n \<notin> set ys" and in_f: "q \<notin> E" "m \<notin> E" "q \<notin> set ys" "m \<notin> set ys"
      and in_b: "b \<notin> E" "l \<notin> E" "b \<notin> F" "l \<notin> F"
      using sub dj in_y(1,2) by blast+
    have ne: "p \<noteq> q" "p \<noteq> l" "q \<noteq> l" "n \<noteq> b" "n \<noteq> m" "b \<noteq> m"
      using in_e in_f in_b sub(1,2,7,8) by metis+
    have pos': "bgn = b" "en = n" "paste = m" using pos c(9) g(9) by (simp_all add: Y)
    define h' where "h' = il_Cut bgn en paste h"
    have h': "Next_of h' = (Next_of h)(p := n, q := b, l := m)" "Prev_of h' = (Prev_of h)(n := p, b := q, m := l)"
      using l k ne by (simp_all add: h'_def il_Cut_def Let_def pos' fun_eq_iff)
    have 1: "links h' (P @ [p])"
      by (rule links_front [OF l(1)], unfold h' c(4)) (use c(3,5) in_f in_b sub(3,4) in auto)
    have 2: "links h' (n # N)"
      by (rule links_back [OF l(7)], unfold h' c(8)) (use c(6,7) in_f in_b sub(5,6) in auto)
    have 3: "links h' (Q @ [q])"
      by (rule links_front [OF k(1)], unfold h' g(4)) (use g(3,5) in_e in_b sub(9,10) in auto)
    have 4: "links h' (m # M)"
      by (rule links_back [OF k(4)], unfold h' g(8)) (use g(6,7) in_e in_b sub(11,12) in auto)
    have "butlast ys = Z" "tl ys = Y" by (simp add: Z) (simp add: Y)
    then have 5: "links h' ys"
      using l(4) in_e in_f in_y(3-6) by (subst links_cong [of ys h' h]) (auto simp: h')
    have "Next_of h' p = n" "Prev_of h' n = p" using ne by (auto simp: h')
    then have "links h' (P @ [p] @ n # N)" using 1 2 links_append [of h' P p "n # N"] by simp
    then have A: "ilist h' e (xs @ zs)" using d(1) c(11) [of "[]"] by (simp add: ilist_def)
    have "Next_of h' l = m" "Prev_of h' m = l" "Next_of h' q = b" "Prev_of h' b = q" using ne by (auto simp: h')
    then have "links h' (q # ys)" "links h' (l # m # M)" using 4 5 by (simp_all add: Y)
    then have "links h' (q # ys @ m # M)" using links_append [of h' "q # Z" l "m # M"] by (simp add: Z)
    then have "links h' (Q @ [q] @ ys @ m # M)" using 3 links_append [of h' Q q "ys @ m # M"] by simp
    then have B: "ilist h' f (us @ ys @ vs)" using d(2,3) disj g(11) [of ys] by (auto simp: ilist_def)
    define U where "U = set (e # xs @ ys @ zs) \<union> set (f # us @ vs)"
    have "E \<subseteq> U" "F \<subseteq> U" "set ys \<subseteq> U" by (auto simp: E_def F_def U_def)
    then have "p \<in> U" "n \<in> U" "q \<in> U" "m \<in> U" "b \<in> U" "l \<in> U" using sub(1,2,7,8) in_y(1,2) by blast+
    then have "outside U h h'" unfolding outside_def h' by auto
    with A B show ?thesis unfolding h'_def U_def by blast
  qed
  then show "ilist (il_Cut bgn en paste h) e (xs @ zs)" "ilist (il_Cut bgn en paste h) f (us @ ys @ vs)"
    "outside (set (e # xs @ ys @ zs) \<union> set (f # us @ vs)) h (il_Cut bgn en paste h)" by blast+
qed

section \<open>The operations of a list\<close>

lemma PushBack_spec:
  assumes "ilist h e xs" and "ilist h x []" and "x \<notin> set (e # xs)"
  shows "ilist (PushBack e x h) e (xs @ [x])" and "outside (insert x (set (e # xs))) h (PushBack e x h)"
  using LinkBeforeNoUnlink_spec [of h e xs "[]" x e] assms
  by (simp_all add: PushBack_def LinkBefore_def Unlink_single del: ilist_nil)

lemma PushFront_spec:
  assumes "ilist h e xs" and "ilist h x []" and "x \<notin> set (e # xs)"
  shows "ilist (PushFront e x h) e (x # xs)" and "outside (insert x (set (e # xs))) h (PushFront e x h)"
proof -
  have "Next_of h e = hd (xs @ [e])" using ilist_ends(1) [OF assms(1)] by (cases xs) simp_all
  then show "ilist (PushFront e x h) e (x # xs)" "outside (insert x (set (e # xs))) h (PushFront e x h)"
    using LinkBeforeNoUnlink_spec [of h e "[]" xs x "hd (xs @ [e])"] assms
    by (simp_all add: PushFront_def LinkAfter_def Unlink_single Let_def del: ilist_nil)
qed

text \<open>An item that is in another list is taken out of it first.\<close>

lemma PushBack_moves:
  assumes e: "ilist h e xs" and f: "ilist h f (us @ x # vs)" and disj: "set (e # xs) \<inter> set (f # us @ x # vs) = {}"
  shows "ilist (PushBack e x h) e (xs @ [x]) \<and> ilist (PushBack e x h) f (us @ vs)"
proof -
  let ?h = "item_Unlink x h"
  note u = Unlink_spec [OF f]
  have e1: "ilist ?h e xs" using ilist_frame [OF u(3) disj] e by simp
  have x: "x \<notin> set (e # xs)" using disj by auto
  note p = PushBack_spec [OF e1 u(2) x]
  have eq: "PushBack e x ?h = PushBack e x h"
    using Unlink_single [OF u(2)] by (simp add: PushBack_def LinkBefore_def)
  have "set (f # us @ vs) \<inter> insert x (set (e # xs)) = {}" using disj f by (auto simp: ilist_def)
  then have "ilist (PushBack e x ?h) f (us @ vs)" using ilist_frame [OF p(2)] u(1) by blast
  with p(1) show ?thesis by (simp only: eq)
qed

lemma PopFront_spec:
  assumes "ilist h e (x # xs)"
  shows "PopFront e h = (x, item_Unlink x h)"
  using ilist_ends(1) [OF assms] by (simp add: PopFront_def)

lemma PopBack_spec:
  assumes "ilist h e (xs @ [x])"
  shows "PopBack e h = (x, item_Unlink x h)"
  using ilist_ends(2) [OF assms] by (simp add: PopBack_def)

lemma il_Empty_spec:
  assumes "ilist h e xs"
  shows "il_Empty e h \<longleftrightarrow> xs = []"
proof (cases xs)
  case (Cons x ys)
  then have "Next_of h e = x" "x \<noteq> e" using assms by (auto simp: ilist_def)
  then show ?thesis using Cons by (simp add: il_Empty_def item_Empty_def)
qed (use assms in \<open>simp add: il_Empty_def item_Empty_def\<close>)

lemma Append_spec:
  assumes "ilist h e xs" and "ilist h lst ys" and "set (e # xs) \<inter> set (lst # ys) = {}"
  shows "ilist (il_Append e lst h) e (xs @ ys)" and "ilist (il_Append e lst h) lst []"
    and "outside (set (e # xs) \<union> set (lst # ys)) h (il_Append e lst h)"
proof -
  have b: "il_Begin lst h = hd (ys @ [] @ [lst])"
    using ilist_ends(1) [OF assms(2)] by (cases ys) (simp_all add: il_Begin_def it_Next_def)
  have "set (lst # [] @ ys @ []) \<inter> set (e # xs @ []) = {}" using assms(3) by auto
  note c = il_Cut_spec [of h lst "[]" ys "[]" e xs "[]", OF _ _ this b refl refl]
  have l: "ilist h lst ([] @ ys @ [])" and x: "ilist h e (xs @ [])" using assms(1,2) by simp_all
  show "ilist (il_Append e lst h) e (xs @ ys)" using c(2) [OF l x] by (simp add: il_Append_def)
  show "ilist (il_Append e lst h) lst []" using c(1) [OF l x] by (simp add: il_Append_def)
  have "outside (set (lst # ys) \<union> set (e # xs)) h (il_Append e lst h)"
    using c(3) [OF l x] by (simp add: il_Append_def)
  then show "outside (set (e # xs) \<union> set (lst # ys)) h (il_Append e lst h)" by (rule outside_mono) auto
qed

lemma item_new_spec: "ilist (item_new e h) e []" "outside {e} h (item_new e h)"
  by (auto simp: item_new_def outside_def)

lemma Swap_spec:
  assumes e: "ilist h e xs" and l: "ilist h lst ys" and disj: "set (e # xs) \<inter> set (lst # ys) = {}"
    and tmp: "tmp \<notin> set (e # xs) \<union> set (lst # ys)"
  shows "ilist (il_Swap tmp e lst h) e ys \<and> ilist (il_Swap tmp e lst h) lst xs \<and> ilist (il_Swap tmp e lst h) tmp []"
proof -
  define h0 where "h0 = item_new tmp h"
  define h1 where "h1 = il_Append tmp lst h0"
  define h2 where "h2 = il_Append lst e h1"
  have 0: "ilist h0 tmp []" "ilist h0 e xs" "ilist h0 lst ys"
    using item_new_spec [of tmp h] ilist_frame [OF item_new_spec(2) [of tmp h]] e l tmp by (auto simp: h0_def simp del: ilist_nil)
  have d1: "set (tmp # []) \<inter> set (lst # ys) = {}" using tmp by auto
  note A1 = Append_spec [OF 0(1,3) d1]
  have "set (e # xs) \<inter> (set [tmp] \<union> set (lst # ys)) = {}" using tmp disj by auto
  then have 1: "ilist h1 tmp ys" "ilist h1 lst []" "ilist h1 e xs"
    using A1 ilist_frame [OF A1(3), of e xs] 0(2) by (simp_all add: h1_def del: ilist_nil)
  have d2: "set (lst # []) \<inter> set (e # xs) = {}" using disj by auto
  note A2 = Append_spec [OF 1(2,3) d2]
  have "set (tmp # ys) \<inter> (set [lst] \<union> set (e # xs)) = {}" using tmp disj l by (auto simp: ilist_def)
  then have 2: "ilist h2 lst xs" "ilist h2 e []" "ilist h2 tmp ys"
    using A2 ilist_frame [OF A2(3), of tmp ys] 1(1) by (simp_all add: h2_def del: ilist_nil)
  have d3: "set (e # []) \<inter> set (tmp # ys) = {}" using tmp disj by auto
  note A3 = Append_spec [OF 2(2,3) d3]
  have "set (lst # xs) \<inter> (set [e] \<union> set (tmp # ys)) = {}" using tmp disj e l by (auto simp: ilist_def)
  then have "ilist (il_Append e tmp h2) lst xs" using ilist_frame [OF A3(3), of lst xs] 2(1) by simp
  with A3 show ?thesis by (simp add: il_Swap_def h0_def h1_def h2_def del: ilist_nil)
qed

section \<open>Loops\<close>

text \<open>
  A loop over the items works as long as the functor leaves the way ahead alone: \<open>I cs st\<close> relates
  the items still to be visited to the state.
\<close>

lemma il_ForEach_loop_fold:
  assumes start: "I cs st"
    and ahead: "\<And>c cs st. I (c # cs) st \<Longrightarrow> c \<noteq> e \<and> Next_of (fst st) c = (case cs of [] \<Rightarrow> e | d # _ \<Rightarrow> d) \<and> I cs (f c st)"
  shows "il_ForEach_loop f e (case cs of [] \<Rightarrow> e | d # _ \<Rightarrow> d) st = Some (fold f cs st)"
  using start
proof (induction cs arbitrary: st)
  case (Cons c cs)
  from ahead [OF Cons.prems] Cons.IH [of "f c st"] show ?case
    by (subst il_ForEach_loop.simps) (simp add: it_Next_def Let_def)
qed (subst il_ForEach_loop.simps, simp)

lemma item_ForEach_loop_fold:
  assumes start: "I cs st"
    and ahead: "\<And>c cs st. I (c # cs) st \<Longrightarrow> c \<noteq> e \<and> Next_of (fst st) c = (case cs of [] \<Rightarrow> e | d # _ \<Rightarrow> d) \<and> I cs (f c st)"
  shows "item_ForEach_loop f e (case cs of [] \<Rightarrow> e | d # _ \<Rightarrow> d) st = Some (fold f cs st)"
  using start
proof (induction cs arbitrary: st)
  case (Cons c cs)
  from ahead [OF Cons.prems] Cons.IH [of "f c st"] show ?case
    by (subst item_ForEach_loop.simps) (simp add: Let_def)
qed (subst item_ForEach_loop.simps, simp)

text \<open>The items ahead of a position in the ring.\<close>

lemma ring_ahead:
  assumes "ilist h e (xs @ c # cs)"
  shows "c \<noteq> e" and "Next_of h c = (case cs of [] \<Rightarrow> e | d # _ \<Rightarrow> d)"
proof -
  show "c \<noteq> e" using assms by (auto simp: ilist_def)
  have "links h (c # cs @ [e])" using assms links_append [of h "e # xs" c "cs @ [e]"] by (simp add: ilist_def)
  then show "Next_of h c = (case cs of [] \<Rightarrow> e | d # _ \<Rightarrow> d)" by (cases cs) simp_all
qed

lemma begin_case: "ilist h e xs \<Longrightarrow> Next_of h e = (case xs of [] \<Rightarrow> e | d # _ \<Rightarrow> d)"
  using ilist_ends(1) [of h e xs] by (cases xs) simp_all

text \<open>A functor that leaves the store alone, and one that unlinks each item it gets.\<close>

definition keeps_store :: "(addr \<Rightarrow> heap \<times> 's \<Rightarrow> heap \<times> 's) \<Rightarrow> bool" where
  "keeps_store f \<longleftrightarrow> (\<forall>c st. fst (f c st) = fst st)"

definition unlinks_item :: "(addr \<Rightarrow> heap \<times> 's \<Rightarrow> heap \<times> 's) \<Rightarrow> bool" where
  "unlinks_item f \<longleftrightarrow> (\<forall>c st. fst (f c st) = item_Unlink c (fst st))"

lemma ForEach_keeps:
  assumes "ilist h e xs" and "keeps_store f"
  shows "il_ForEach f e (h, s) = Some (fold f xs (h, s))" and "item_ForEach f e (h, s) = Some (fold f xs (h, s))"
proof -
  define I where "I cs st \<longleftrightarrow> (\<exists>ys. ilist (fst st) e (ys @ cs))" for cs and st :: "heap \<times> 'a"
  have start: "I xs (h, s)" using assms(1) by (auto simp: I_def intro: exI [of _ "[]"])
  have ahead: "c \<noteq> e \<and> Next_of (fst st) c = (case cs of [] \<Rightarrow> e | d # _ \<Rightarrow> d) \<and> I cs (f c st)" if I: "I (c # cs) st" for c cs st
  proof -
    obtain ys where ys: "ilist (fst st) e (ys @ c # cs)" using I by (auto simp: I_def)
    moreover have "fst (f c st) = fst st" using assms(2) unfolding keeps_store_def by blast
    then have "I cs (f c st)" unfolding I_def using ys by (intro exI [of _ "ys @ [c]"]) simp
    ultimately show ?thesis using ring_ahead by blast
  qed
  show "il_ForEach f e (h, s) = Some (fold f xs (h, s))"
    using il_ForEach_loop_fold [of I, OF start ahead] begin_case [OF assms(1)] by (simp add: il_ForEach_def il_Begin_def it_Next_def)
  show "item_ForEach f e (h, s) = Some (fold f xs (h, s))"
    using item_ForEach_loop_fold [of I, OF start ahead] begin_case [OF assms(1)] by (simp add: item_ForEach_def)
qed

lemma ForEach_unlinks:
  assumes "ilist h e xs" and "unlinks_item f"
  shows "il_ForEach f e (h, s) = Some (fold f xs (h, s))" and "item_ForEach f e (h, s) = Some (fold f xs (h, s))"
    and "ilist (fst (fold f xs (h, s))) e []"
proof -
  define I where "I cs st \<longleftrightarrow> ilist (fst st) e cs" for cs and st :: "heap \<times> 'a"
  have start: "I xs (h, s)" using assms(1) by (simp add: I_def)
  have ahead: "c \<noteq> e \<and> Next_of (fst st) c = (case cs of [] \<Rightarrow> e | d # _ \<Rightarrow> d) \<and> I cs (f c st)" if "I (c # cs) st" for c cs st
  proof -
    have "ilist (fst st) e ([] @ c # cs)" using that by (simp add: I_def)
    moreover have "fst (f c st) = item_Unlink c (fst st)" using assms(2) unfolding unlinks_item_def by blast
    then have "I cs (f c st)" using Unlink_spec(1) [OF calculation] by (simp add: I_def)
    ultimately show ?thesis using ring_ahead by blast
  qed
  show "il_ForEach f e (h, s) = Some (fold f xs (h, s))"
    using il_ForEach_loop_fold [of I, OF start ahead] begin_case [OF assms(1)] by (simp add: il_ForEach_def il_Begin_def it_Next_def)
  show "item_ForEach f e (h, s) = Some (fold f xs (h, s))"
    using item_ForEach_loop_fold [of I, OF start ahead] begin_case [OF assms(1)] by (simp add: item_ForEach_def)
  have "I cs st \<Longrightarrow> I [] (fold f cs st)" for cs st
  proof (induction cs arbitrary: st)
    case (Cons c cs)
    then show ?case using ahead [OF Cons.prems] Cons.IH [of "f c st"] by simp
  qed simp
  from this [OF start] show "ilist (fst (fold f xs (h, s))) e []" by (simp add: I_def)
qed

lemma Size_spec: "ilist h e xs \<Longrightarrow> il_Size e h = Some (length xs)"
proof -
  assume e: "ilist h e xs"
  have "keeps_store TSizeCount" by (auto simp: keeps_store_def TSizeCount_def)
  moreover have "fold TSizeCount xs (h, n) = (h, n + length xs)" for n
    by (induction xs arbitrary: n) (auto simp: TSizeCount_def)
  ultimately show ?thesis using ForEach_keeps(1) [OF e, of TSizeCount 0] by (simp add: il_Size_def)
qed

lemma ad_Clear_spec:
  assumes "ilist h e xs"
  shows "\<exists>h'. ad_Clear e h gone = Some (gone @ xs, h') \<and> ilist h' e [] \<and> outside (set (e # xs)) h h'"
  using assms
proof (induction xs arbitrary: h gone)
  case Nil
  then show ?case using il_Empty_spec [OF Nil] by (subst ad_Clear.simps) (auto simp: outside_refl)
next
  case (Cons x xs)
  have l: "ilist h e ([] @ x # xs)" using Cons.prems by simp
  from Cons.IH [of "item_Unlink x h" "gone @ [x]"] Unlink_spec(1) [OF l]
  obtain h' where h': "ad_Clear e (item_Unlink x h) (gone @ [x]) = Some (gone @ x # xs, h')" "ilist h' e []"
      "outside (set (e # xs)) (item_Unlink x h) h'"
    by auto
  have "outside (set (e # x # xs)) h h'"
    by (rule outside_mono [OF outside_trans [OF Unlink_spec(3) [OF l] h'(3)]]) auto
  with h'(1,2) show ?case
    using il_Empty_spec [OF Cons.prems] PopFront_spec [OF Cons.prems] by (subst ad_Clear.simps) auto
qed

section \<open>Sorting\<close>

function qsort_spec :: "('a \<Rightarrow> 'a \<Rightarrow> bool) \<Rightarrow> 'a list \<Rightarrow> 'a list" where
  "qsort_spec f [] = []"
| "qsort_spec f (c # cs) = qsort_spec f (filter (\<lambda>x. \<not> f c x) cs) @ c # qsort_spec f (filter (f c) cs)"
  by pat_completeness auto
termination by (relation "measure (length \<circ> snd)") (auto simp: less_Suc_eq_le)

lemma qsort_spec_mset: "mset (qsort_spec f xs) = mset xs"
proof (induction f xs rule: qsort_spec.induct)
  case (2 f c cs)
  then show ?case by simp
qed simp

lemma qsort_spec_set: "set (qsort_spec f xs) = set xs"
  using arg_cong [OF qsort_spec_mset, of set_mset] by simp

text \<open>The comparator is a strict weak order.\<close>

definition weak_order :: "('a \<Rightarrow> 'a \<Rightarrow> bool) \<Rightarrow> bool" where
  "weak_order f \<longleftrightarrow> (\<forall>x y z. \<not> f x y \<longrightarrow> \<not> f y z \<longrightarrow> \<not> f x z) \<and> (\<forall>x y. f x y \<longrightarrow> \<not> f y x)"

lemma qsort_spec_sorted: "weak_order f \<Longrightarrow> sorted_wrt (\<lambda>x y. \<not> f y x) (qsort_spec f xs)"
proof (induction f xs rule: qsort_spec.induct)
  case (2 f c cs)
  have "\<forall>x \<in> set (filter (\<lambda>x. \<not> f c x) cs). \<forall>y \<in> set (filter (f c) cs). \<not> f y x"
    using 2(3) unfolding weak_order_def set_filter by blast
  moreover have "\<forall>y \<in> set (filter (f c) cs). \<not> f y c" using 2(3) unfolding weak_order_def set_filter by blast
  moreover have "\<forall>x \<in> set (filter (\<lambda>x. \<not> f c x) cs). \<not> f c x" by simp
  ultimately show ?case
    unfolding qsort_spec.simps sorted_wrt_append sorted_wrt.simps qsort_spec_set list.set using 2(1,2) [OF 2(3)] by blast
qed simp

lemma qs_partition_spec:
  assumes "ilist h e (ks @ ms)" and "ilist h b bs" and "set (e # ks @ ms) \<inter> set (b # bs) = {}"
  shows "\<exists>h'. qs_partition f c b e (case ms of [] \<Rightarrow> e | d # _ \<Rightarrow> d) h = Some h'
    \<and> ilist h' e (ks @ filter (\<lambda>x. \<not> f c x) ms) \<and> ilist h' b (bs @ filter (f c) ms)
    \<and> outside (set (e # ks @ ms) \<union> set (b # bs)) h h'"
  using assms
proof (induction ms arbitrary: h ks bs)
  case Nil
  then show ?case by (subst qs_partition.simps) (auto simp: outside_refl)
next
  case (Cons m ms)
  have n: "m \<noteq> e" "it_Next m h = (case ms of [] \<Rightarrow> e | d # _ \<Rightarrow> d)"
    using ring_ahead [OF Cons.prems(1)] by (simp_all add: it_Next_def)
  show ?case
  proof (cases "f c m")
    case False
    have "ilist h e ((ks @ [m]) @ ms)" "set (e # (ks @ [m]) @ ms) \<inter> set (b # bs) = {}"
      using Cons.prems by auto
    from Cons.IH [OF this(1) Cons.prems(2) this(2)] False n show ?thesis
      by (subst qs_partition.simps) simp
  next
    case True
    let ?h = "PushBack b m h"
    have dj: "set (b # bs) \<inter> set (e # ks @ m # ms) = {}" using Cons.prems(3) by auto
    from PushBack_moves [OF Cons.prems(2,1) dj] have mv: "ilist ?h b (bs @ [m])" "ilist ?h e (ks @ ms)" by auto
    have dj2: "set (e # ks @ ms) \<inter> set (b # bs @ [m]) = {}" using Cons.prems(1,3) by (auto simp: ilist_def)
    have out: "outside (set (e # ks @ m # ms) \<union> set (b # bs)) h ?h"
    proof -
      have u: "ilist (item_Unlink m h) b bs" using ilist_frame [OF Unlink_spec(3) [OF Cons.prems(1)] dj] Cons.prems(2) by simp
      have "m \<notin> set (b # bs)" using dj by auto
      note p = PushBack_spec(2) [OF u Unlink_spec(2) [OF Cons.prems(1)] this]
      have eq: "PushBack b m (item_Unlink m h) = ?h"
        using Unlink_single [OF Unlink_spec(2) [OF Cons.prems(1)]] by (simp add: PushBack_def LinkBefore_def)
      show ?thesis
        by (rule outside_mono [OF outside_trans [OF Unlink_spec(3) [OF Cons.prems(1)] p [unfolded eq]]]) auto
    qed
    from Cons.IH [OF mv(2,1) dj2] obtain h' where h': "qs_partition f c b e (case ms of [] \<Rightarrow> e | d # _ \<Rightarrow> d) ?h = Some h'"
        "ilist h' e (ks @ filter (\<lambda>x. \<not> f c x) ms)" "ilist h' b ((bs @ [m]) @ filter (f c) ms)"
        "outside (set (e # ks @ ms) \<union> set (b # bs @ [m])) ?h h'" by blast
    have "outside (set (e # ks @ m # ms) \<union> set (b # bs)) h h'"
      by (rule outside_mono [OF outside_trans [OF out h'(4)]]) auto
    with h'(1-3) True n show ?thesis by (subst qs_partition.simps) (simp add: Let_def)
  qed
qed

lemma il_QuickSort_spec:
  assumes "ilist h e xs" and "\<forall>a \<in> set (e # xs). a < stk"
  shows "\<exists>h'. il_QuickSort f stk e h = Some h' \<and> ilist h' e (qsort_spec f xs)
    \<and> outside (set (e # xs) \<union> {stk..}) h h'"
  using assms
proof (induction "length xs" arbitrary: h e xs stk rule: less_induct)
  case less
  have b0: "il_Begin e h = (case xs of [] \<Rightarrow> e | d # _ \<Rightarrow> d)"
    using begin_case [OF less.prems(1)] by (simp add: il_Begin_def it_Next_def)
  consider "xs = []" | c where "xs = [c]" | c d ds where "xs = c # d # ds" by (metis list.exhaust)
  then show ?case
  proof cases
    case 1
    then show ?thesis using less.prems b0 by (subst il_QuickSort.simps) (simp add: outside_refl)
  next
    case 2
    then have "it_Next c h = e" using ring_ahead(2) [of h e "[]" c "[]"] less.prems(1) by (simp add: it_Next_def)
    then show ?thesis using 2 less.prems b0 by (subst il_QuickSort.simps) (simp add: outside_refl)
  next
    case 3
    let ?cs = "d # ds"
    let ?lo = "filter (\<lambda>x. \<not> f c x) ?cs" and ?hi = "filter (f c) ?cs"
    define h1 where "h1 = item_Unlink c h"
    define h2 where "h2 = item_new stk h1"
    have xs: "ilist h e ([] @ c # ?cs)" using less.prems(1) 3 by simp
    have bnd: "e < stk" "c < stk" "\<forall>a \<in> set ?cs. a < stk" using less.prems(2) 3 by auto
    have dist: "c \<noteq> e" "c \<notin> set ?cs" "e \<notin> set ?cs" "distinct ?cs" using xs by (auto simp: ilist_def)
    note U = Unlink_spec [OF xs, folded h1_def, unfolded append_Nil]
    have ne: "\<not> (il_Begin e h = e \<or> it_Next (il_Begin e h) h = e)"
      using b0 3 ring_ahead(2) [OF xs] dist by (simp add: it_Next_def)
    have pop: "PopFront e h = (c, h1)" using PopFront_spec less.prems(1) 3 by (simp add: h1_def)
    have o2: "outside {stk} h1 h2" "ilist h2 stk []" unfolding h2_def by (rule item_new_spec)+
    have e2: "ilist h2 e ([] @ ?cs)" using ilist_frame [OF o2(1), of e ?cs] U(1) bnd by auto
    have c2: "ilist h2 c []" using ilist_frame [OF o2(1), of c "[]"] U(2) bnd by auto
    have dj: "set (e # [] @ ?cs) \<inter> set (stk # []) = {}" using bnd by auto
    from qs_partition_spec [OF e2 o2(2) dj, of f c] obtain h3 where
      h3: "qs_partition f c stk e d h2 = Some h3" "ilist h3 e ?lo" "ilist h3 stk ?hi"
        "outside (set (e # ?cs) \<union> {stk}) h2 h3" by auto
    have b2: "il_Begin e h2 = d" using begin_case [OF e2] by (simp add: il_Begin_def it_Next_def)
    have c3: "ilist h3 c []" using ilist_frame [OF h3(4), of c "[]"] c2 dist bnd by auto
    have "length ?lo < length xs" "length ?hi < length xs"
      using 3 length_filter_le [of "\<lambda>x. \<not> f c x" ?cs] length_filter_le [of "f c" ?cs] by (simp_all add: less_Suc_eq_le)
    note IH = less.hyps [OF this(1)] less.hyps [OF this(2)]
    have "\<forall>a \<in> set (e # ?lo). a < stk + 1" using bnd by auto
    from IH(1) [OF h3(2) this] obtain h4 where h4: "il_QuickSort f (stk + 1) e h3 = Some h4"
        "ilist h4 e (qsort_spec f ?lo)" "outside (set (e # ?lo) \<union> {stk + 1..}) h3 h4" by blast
    have "set (stk # ?hi) \<inter> (set (e # ?lo) \<union> {stk + 1..}) = {}" using bnd dist by auto
    then have s4: "ilist h4 stk ?hi" using ilist_frame [OF h4(3)] h3(3) by blast
    have "set (c # []) \<inter> (set (e # ?lo) \<union> {stk + 1..}) = {}" using bnd dist by auto
    then have c4: "ilist h4 c []" using ilist_frame [OF h4(3)] c3 by blast
    have "\<forall>a \<in> set (stk # ?hi). a < stk + 1" using bnd by auto
    from IH(2) [OF s4 this] obtain h5 where h5: "il_QuickSort f (stk + 1) stk h4 = Some h5"
        "ilist h5 stk (qsort_spec f ?hi)" "outside (set (stk # ?hi) \<union> {stk + 1..}) h4 h5" by blast
    have "set (e # qsort_spec f ?lo) \<inter> (set (stk # ?hi) \<union> {stk + 1..}) = {}"
      using bnd dist by (auto simp: qsort_spec_set)
    then have e5: "ilist h5 e (qsort_spec f ?lo)" using ilist_frame [OF h5(3)] h4(2) by blast
    have "set (c # []) \<inter> (set (stk # ?hi) \<union> {stk + 1..}) = {}" using bnd dist by auto
    then have c5: "ilist h5 c []" using ilist_frame [OF h5(3)] c4 by blast
    have "c \<notin> set (e # qsort_spec f ?lo)" using dist by (auto simp: qsort_spec_set)
    note P = PushBack_spec [OF e5 c5 this]
    have "set (stk # qsort_spec f ?hi) \<inter> insert c (set (e # qsort_spec f ?lo)) = {}"
      using bnd dist by (auto simp: qsort_spec_set)
    then have s6: "ilist (PushBack e c h5) stk (qsort_spec f ?hi)" using ilist_frame [OF P(2)] h5(2) by blast
    have "set (e # qsort_spec f ?lo @ [c]) \<inter> set (stk # qsort_spec f ?hi) = {}"
      using bnd dist by (auto simp: qsort_spec_set)
    note A = Append_spec [OF P(1) s6 this]
    let ?h' = "il_Append e stk (PushBack e c h5)" and ?S = "set (e # xs) \<union> {stk..}"
    have "outside ?S h h1" by (rule outside_mono [OF U(3)]) (use 3 in auto)
    moreover have "outside ?S h1 h2" by (rule outside_mono [OF o2(1)]) auto
    moreover have "outside ?S h2 h3" by (rule outside_mono [OF h3(4)]) (use 3 in auto)
    moreover have "outside ?S h3 h4" by (rule outside_mono [OF h4(3)]) (use 3 in auto)
    moreover have "outside ?S h4 h5" by (rule outside_mono [OF h5(3)]) (use 3 in auto)
    moreover have "outside ?S h5 (PushBack e c h5)" by (rule outside_mono [OF P(2)]) (use 3 in \<open>auto simp: qsort_spec_set\<close>)
    moreover have "outside ?S (PushBack e c h5) ?h'" by (rule outside_mono [OF A(3)]) (use 3 in \<open>auto simp: qsort_spec_set\<close>)
    ultimately have "outside ?S h ?h'" by (simp add: outside_def)
    moreover have "il_QuickSort f stk e h = Some ?h'"
      by (subst il_QuickSort.simps) (simp only: ne pop if_False prod.case Let_def h2_def [symmetric] b2 h3(1) h4(1) h5(1) Option.bind.simps)
    ultimately show ?thesis using A(1) 3 by auto
  qed
qed

section \<open>The promises of the lists\<close>

text \<open>
  C22. The two-way list keeps its contents: pushing puts a single item, or an item taken out of another
  list, at the chosen end; popping returns and frees the item at that end; no other list is touched.
\<close>

theorem intrusive_list_ends:
  assumes "ilist h e xs" and "ilist h f (us @ x # vs)" and "set (e # xs) \<inter> set (f # us @ x # vs) = {}"
    and "ilist h g ws" and "set (g # ws) \<inter> (set (e # xs) \<union> set (f # us @ x # vs)) = {}"
  shows "(let h1 = PushBack e x h; (y, h2) = PopBack e h1; (z, h3) = PopFront e h1 in
      ilist h1 e (xs @ [x]) \<and> ilist h1 f (us @ vs) \<and> ilist h1 g ws
    \<and> y = x \<and> ilist h2 e xs \<and> ilist h2 x []
    \<and> z = hd (xs @ [x]) \<and> ilist h3 e (tl (xs @ [x])) \<and> ilist h3 z [] \<and> ilist h3 g ws
    \<and> ilist (PushFront e x h2) e (x # xs))"
proof -
  define h1 where "h1 = PushBack e x h"
  have mv: "ilist h1 e (xs @ [x])" "ilist h1 f (us @ vs)"
    unfolding h1_def using PushBack_moves [OF assms(1,2,3)] by simp_all
  obtain z zs where z: "xs @ [x] = z # zs" by (cases "xs @ [x]") auto
  have b: "PopBack e h1 = (x, item_Unlink x h1)" by (rule PopBack_spec [OF mv(1)])
  have fr: "PopFront e h1 = (z, item_Unlink z h1)" by (rule PopFront_spec) (use mv(1) z in simp)
  note ub = Unlink_spec [of h1 e xs x "[]", OF mv(1)]
  have "ilist h1 e ([] @ z # zs)" using mv(1) z by simp
  note uf = Unlink_spec [OF this]
  have x: "x \<notin> set (e # xs)" using assms(3) by auto
  have pf: "ilist (PushFront e x (item_Unlink x h1)) e (x # xs)"
    using PushFront_spec(1) [of _ e xs x] ub(1,2) x by (simp del: ilist_nil)
  have g1: "ilist h1 g ws"
  proof -
    have u: "ilist (item_Unlink x h) e xs" using ilist_frame [OF Unlink_spec(3) [OF assms(2)] assms(3)] assms(1) by simp
    have "ilist (item_Unlink x h) g ws"
      using ilist_frame [OF Unlink_spec(3) [OF assms(2)], of g ws] assms(4,5) by blast
    moreover have "h1 = PushBack e x (item_Unlink x h)"
      using Unlink_single [OF Unlink_spec(2) [OF assms(2)]] by (simp add: h1_def PushBack_def LinkBefore_def)
    moreover have "set (g # ws) \<inter> insert x (set (e # xs)) = {}" using assms(5) by auto
    ultimately show ?thesis
      using ilist_frame [OF PushBack_spec(2) [OF u Unlink_spec(2) [OF assms(2)] x], of g ws] by simp
  qed
  have "set (z # zs) = set (xs @ [x])" using z by simp
  then have "set (g # ws) \<inter> set (e # [] @ z # zs) = {}" using assms(5) by auto
  then have g3: "ilist (item_Unlink z h1) g ws" using ilist_frame [OF uf(3), of g ws] g1 by blast
  show ?thesis
    using mv g1 g3 ub(1,2) uf(1,2) pf z by (simp add: Let_def h1_def [symmetric] b fr del: ilist_nil)
qed

text \<open>
  \<open>Append\<close> moves all items of one list behind those of another and \<open>Swap\<close> exchanges two lists,
  in constant time and without touching a third; \<open>Cut\<close> moves a range.
\<close>

theorem intrusive_list_moves:
  assumes "ilist h e (xs @ ys @ zs)" and "ilist h f (us @ vs)" and "set (e # xs @ ys @ zs) \<inter> set (f # us @ vs) = {}"
    and "tmp \<notin> set (e # xs @ ys @ zs) \<union> set (f # us @ vs)"
  shows "ilist (il_Cut (hd (ys @ zs @ [e])) (hd (zs @ [e])) (hd (vs @ [f])) h) f (us @ ys @ vs)
    \<and> ilist (il_Cut (hd (ys @ zs @ [e])) (hd (zs @ [e])) (hd (vs @ [f])) h) e (xs @ zs)
    \<and> ilist (il_Append e f h) e (xs @ ys @ zs @ us @ vs) \<and> ilist (il_Append e f h) f []
    \<and> ilist (il_Swap tmp e f h) e (us @ vs) \<and> ilist (il_Swap tmp e f h) f (xs @ ys @ zs)"
  using il_Cut_spec(1,2) [OF assms(1,2,3) refl refl refl] Append_spec(1,2) [OF assms(1,2,3)] Swap_spec [OF assms]
  by (simp del: ilist_nil)

text \<open>
  \<open>ForEach\<close> ends and calls the functor once per item, in order, also when the functor unlinks the item
  it is given; \<open>Size\<close> counts the items; \<open>Clear\<close> of an owning list destroys every item once.
\<close>

theorem intrusive_list_loops:
  assumes "ilist h e xs" and "keeps_store f \<or> unlinks_item f"
  shows "il_ForEach f e (h, s) = Some (fold f xs (h, s)) \<and> item_ForEach f e (h, s) = Some (fold f xs (h, s))
    \<and> il_Size e h = Some (length xs)
    \<and> (\<exists>h'. ad_Clear e h [] = Some (xs, h') \<and> ilist h' e [] \<and> outside (set (e # xs)) h h')"
  using ForEach_keeps [OF assms(1)] ForEach_unlinks(1,2) [OF assms(1)] assms(2) Size_spec [OF assms(1)]
    ad_Clear_spec [OF assms(1), of "[]"] by auto

text \<open>
  C35. \<open>QuickSort\<close> of a list ends and leaves the same items in an order of the comparator, whatever
  strict weak order it is, using stack addresses only beside the items.
\<close>

theorem intrusive_list_quicksort:
  assumes "ilist h e xs" and "\<forall>a \<in> set (e # xs). a < stk" and "weak_order f"
  shows "\<exists>h' ys. il_QuickSort f stk e h = Some h' \<and> ilist h' e ys \<and> mset ys = mset xs
    \<and> sorted_wrt (\<lambda>x y. \<not> f y x) ys \<and> outside (set (e # xs) \<union> {stk..}) h h'"
  using il_QuickSort_spec [OF assms(1,2), of f] qsort_spec_mset qsort_spec_sorted [OF assms(3)] by blast

text \<open>
  The reverse iterator's post-increment returns the position after the step, the same as its
  pre-increment, so a loop that reads \<open>*it++\<close> skips the last item of the list.
\<close>

theorem reverse_iterator_post_increment:
  assumes "ilist h e (xs @ [y, x])"
  shows "il_RBegin e h = x \<and> rev_PostInc (il_RBegin e h) h = (y, y) \<and> rev_PostInc x h = rev_PreInc x h"
proof -
  have "links h ((e # xs) @ [y] @ [x] @ [e])" using assms by (simp add: ilist_def)
  then have "Prev_of h x = y" using links_append [of h "e # xs" y "[x, e]"] by simp
  then show ?thesis
    using ilist_ends(2) [OF assms] by (simp add: il_RBegin_def it_Prev_def rev_PostInc_def rev_PreInc_def Let_def)
qed

text \<open>Three lists: an end item 0 with the items 1 and 2, an end item 3 with the item 4, and an empty one at 5.\<close>

definition three_lists :: heap where
  "three_lists = \<lparr>Next_of = id(0 := 1, 1 := 2, 2 := 0, 3 := 4, 4 := 3), Prev_of = id(0 := 2, 1 := 0, 2 := 1, 3 := 4, 4 := 3)\<rparr>"

lemma three_lists_hold: "ilist three_lists 0 [1, 2]" "ilist three_lists 3 [4]" "ilist three_lists 5 []"
  by (simp_all add: three_lists_def ilist_def)

theorem intrusive_list_ends_witness: "ilist (PushBack 0 4 three_lists) 0 [1, 2, 4] \<and> ilist (PushBack 0 4 three_lists) 3 []"
  using intrusive_list_ends [OF three_lists_hold(1) _ _ three_lists_hold(3), of 3 "[]" 4 "[]"] three_lists_hold(2)
  by (simp add: Let_def split_def del: ilist_nil)

theorem intrusive_list_moves_witness: "ilist (il_Swap 6 0 3 three_lists) 0 [4] \<and> ilist (il_Swap 6 0 3 three_lists) 3 [1, 2]"
  using intrusive_list_moves [of three_lists 0 "[1]" "[2]" "[]" 3 "[4]" "[]" 6] three_lists_hold by (simp del: ilist_nil)

theorem intrusive_list_loops_witness:
  "il_Size 0 three_lists = Some 2 \<and> (\<exists>h'. ad_Clear 0 three_lists [] = Some ([1, 2], h'))"
  using intrusive_list_loops [OF three_lists_hold(1), of TSizeCount 0] by (auto simp: keeps_store_def TSizeCount_def)

theorem intrusive_list_quicksort_witness:
  "\<exists>h' ys. il_QuickSort (\<lambda>x y. x > y) 10 0 three_lists = Some h' \<and> ilist h' 0 ys \<and> mset ys = {#1, 2#}"
  using intrusive_list_quicksort [OF three_lists_hold(1), of 10 "\<lambda>x y. x > y"] by (fastforce simp: weak_order_def)

theorem reverse_iterator_post_increment_witness: "rev_PostInc (il_RBegin 0 three_lists) three_lists = (1, 1)"
  using reverse_iterator_post_increment [of three_lists 0 "[]" 1 2] three_lists_hold(1) by auto

section \<open>The one-way list\<close>

fun schain :: "sheap \<Rightarrow> addr \<Rightarrow> addr list \<Rightarrow> bool" where
  "schain nxt b [] \<longleftrightarrow> b = 0"
| "schain nxt b (x # xs) \<longleftrightarrow> b = x \<and> x \<noteq> 0 \<and> schain nxt (nxt x) xs"

lemma schain_upd: "a \<notin> set xs \<Longrightarrow> schain (nxt(a := v)) b xs = schain nxt b xs"
  by (induction xs arbitrary: b) auto

lemma sl_Reverse_loop_spec:
  assumes "schain nxt b xs" and "schain nxt l ys" and "distinct (xs @ ys)"
  shows "\<exists>l' nxt'. sl_Reverse_loop b l nxt = Some (0, l', nxt') \<and> schain nxt' l' (rev xs @ ys)"
  using assms
proof (induction xs arbitrary: b l nxt ys)
  case Nil
  then show ?case by (subst sl_Reverse_loop.simps) (simp add: sl_Empty_def)
next
  case (Cons x xs)
  let ?nxt = "nxt(x := l)"
  have "schain ?nxt (nxt x) xs" "schain ?nxt x (x # ys)" "distinct (xs @ x # ys)"
    using Cons.prems by (auto simp: schain_upd)
  from Cons.IH [OF this] obtain l' nxt' where "sl_Reverse_loop (nxt x) x ?nxt = Some (0, l', nxt')" "schain nxt' l' (rev xs @ x # ys)"
    by blast
  then show ?case
    using Cons.prems(1) by (subst sl_Reverse_loop.simps) (simp add: sl_Empty_def sl_PopFront_def sl_PushFront_def)
qed

lemma sl_Size_loop:
  assumes "schain nxt b xs"
  shows "sl_ForEach_loop (\<lambda>_ (n, k). (n, k + 1)) b (nxt, k) = Some (nxt, k + length xs)"
  using assms by (induction xs arbitrary: b k) (subst sl_ForEach_loop.simps, auto simp: Let_def)+

text \<open>
  The one-way list is a stack: \<open>PopFront\<close> returns what \<open>PushFront\<close> put there, \<open>Reverse\<close> ends and
  reverses it in place, \<open>Size\<close> is the number of items.
\<close>

theorem intrusive_slist_stack:
  assumes "schain nxt b xs" and "distinct (x # xs)" and "x \<noteq> 0"
  shows "(let (b1, n1) = sl_PushFront x (b, nxt) in
      schain n1 b1 (x # xs) \<and> sl_PopFront (b1, n1) = Ret (x, b, n1) \<and> schain n1 b xs
    \<and> sl_Size (b1, n1) = Some (Suc (length xs))
    \<and> (\<exists>b2 n2. sl_Reverse (b1, n1) = Some (b2, n2) \<and> schain n2 b2 (rev xs @ [x])))"
proof -
  have c: "schain (nxt(x := b)) x (x # xs)" using assms by (simp add: schain_upd)
  have "\<exists>l' nxt'. sl_Reverse_loop x 0 (nxt(x := b)) = Some (0, l', nxt') \<and> schain nxt' l' (rev (x # xs) @ [])"
    by (rule sl_Reverse_loop_spec [OF c]) (use assms(2) in auto)
  moreover have "sl_ForEach_loop (\<lambda>_ (n, k). (n, k + 1)) x (nxt(x := b), 0) = Some (nxt(x := b), 0 + length (x # xs))"
    by (rule sl_Size_loop [OF c])
  ultimately show ?thesis
    using c assms(3) by (auto simp: Let_def sl_PushFront_def sl_PopFront_def sl_Size_def sl_Reverse_def)
qed

theorem intrusive_slist_stack_witness:
  "\<exists>b2 n2. sl_Reverse (sl_PushFront 7 (8, id(8 := 9, 9 := 0))) = Some (b2, n2) \<and> schain n2 b2 [9, 8, 7]"
  using intrusive_slist_stack [of "id(8 := 9, 9 := 0)" 8 "[8, 9]" 7] by (auto simp: Let_def sl_PushFront_def)

end
