(* ===== verification/Chunkstring.thy ===== *)
theory Chunkstring
  imports Chunks
begin

text \<open>
  Strings over chunk lists (web/httpd/kernel/chunkstring.h). An iterator is the position of its chunk
  and the index within it; the end of the list, whose item is no chunk, is the position \<open>length cs\<close>. The
  chunk list is a ring: the end follows the last chunk and precedes the first. Reading the length or
  the data of the end item is undefined behaviour, here a crash; the code also takes the address of
  its data for a search of length zero, which reads nothing.

  The refinement is given by \<open>cs_off\<close>: an iterator is an offset into the bytes of the string.
\<close>

type_synonym cs_iter = "nat \<times> nat"

section \<open>Iterators\<close>

definition chunk_next :: "chunks \<Rightarrow> nat \<Rightarrow> nat" where
  "chunk_next cs c = (if c = length cs then 0 else c + 1)"

definition chunk_prev :: "chunks \<Rightarrow> nat \<Rightarrow> nat" where
  "chunk_prev cs c = (if c = 0 then length cs else c - 1)"

text \<open>\<open>Next(cnt)\<close>; an index beyond the end of its chunk is a crash as well.\<close>

function cs_NextN :: "chunks \<Rightarrow> nat \<Rightarrow> cs_iter \<Rightarrow> cs_iter outcome" where
  "cs_NextN cs cnt (c, i) =
     (if cnt = 0 then Ret (c, i)
      else if c \<ge> length cs \<or> i > length (cs ! c) then Crash
      else let chunkLeft = length (cs ! c) - i in
           if chunkLeft \<le> cnt then cs_NextN cs (cnt - chunkLeft) (chunk_next cs c, 0)
           else Ret (c, i + cnt))"
  by pat_completeness auto
termination by (relation "measure (\<lambda>(cs, cnt, (c, i)). length cs - c)") (auto simp: chunk_next_def)

declare cs_NextN.simps [simp del]

text \<open>
  The loop of \<open>Prev(cnt)\<close>: the remaining count and \<open>chunkLeft\<close> when it ends. The test after the loop
  repeats its condition, so only the \<open>else\<close> branch is taken.
\<close>

function cs_PrevN_loop :: "chunks \<Rightarrow> nat \<Rightarrow> nat \<Rightarrow> nat \<Rightarrow> (nat \<times> nat \<times> nat) outcome" where
  "cs_PrevN_loop cs c cnt chunkLeft =
     (if cnt \<ge> chunkLeft then
        (if c = 0 \<or> c > length cs then Crash
         else cs_PrevN_loop cs (chunk_prev cs c) (cnt - chunkLeft) (length (cs ! chunk_prev cs c)))
      else Ret (c, cnt, chunkLeft))"
  by pat_completeness auto
termination by (relation "measure (\<lambda>(cs, c, cnt, l). c)") (auto simp: chunk_prev_def)

declare cs_PrevN_loop.simps [simp del]

definition cs_PrevN :: "chunks \<Rightarrow> nat \<Rightarrow> cs_iter \<Rightarrow> cs_iter outcome" where
  "cs_PrevN cs cnt = (\<lambda>(c, i).
     obind (cs_PrevN_loop cs c cnt (i + 1)) (\<lambda>(c', cnt', chunkLeft).
       Ret (c', if cnt' > chunkLeft then 0 else chunkLeft - 1 - cnt')))"

definition cs_Next :: "chunks \<Rightarrow> cs_iter \<Rightarrow> cs_iter outcome" where
  "cs_Next cs = (\<lambda>(c, i).
     if c \<ge> length cs then Crash
     else if i + 1 \<ge> length (cs ! c) then Ret (chunk_next cs c, 0) else Ret (c, i + 1))"

definition cs_Prev :: "chunks \<Rightarrow> cs_iter \<Rightarrow> cs_iter outcome" where
  "cs_Prev cs = (\<lambda>(c, i).
     if i = 0 then
       (let c' = chunk_prev cs c in
        if c' \<ge> length cs \<or> cs ! c' = [] then Crash else Ret (c', length (cs ! c') - 1))
     else Ret (c, i - 1))"

text \<open>\<open>operator+= (int)\<close> and \<open>operator-= (int)\<close>.\<close>

definition cs_add :: "chunks \<Rightarrow> int \<Rightarrow> cs_iter \<Rightarrow> cs_iter outcome" where
  "cs_add cs off it = (if off > 0 then cs_NextN cs (nat off) it else cs_PrevN cs (nat (- off)) it)"

definition cs_sub :: "chunks \<Rightarrow> int \<Rightarrow> cs_iter \<Rightarrow> cs_iter outcome" where
  "cs_sub cs off it = (if off > 0 then cs_PrevN cs (nat off) it else cs_NextN cs (nat (- off)) it)"

definition cs_deref :: "chunks \<Rightarrow> cs_iter \<Rightarrow> char outcome" where
  "cs_deref cs = (\<lambda>(c, i). if c < length cs \<and> i < length (cs ! c) then Ret (cs ! c ! i) else Crash)"

section \<open>Strings\<close>

fun cs_Append :: "chunks \<Rightarrow> chunks \<Rightarrow> chunks" where
  "cs_Append [] cs = cs"
| "cs_Append (c # lst) cs = cs_Append lst (if length c > 0 then Push c cs else cs)"

definition cs_new :: "chunks \<Rightarrow> chunks" where
  "cs_new lst = cs_Append lst []"

definition cs_assign :: "chunks \<Rightarrow> chunks \<Rightarrow> chunks" where
  "cs_assign other cs = cs_Append other []"

definition cs_Length :: "chunks \<Rightarrow> nat" where
  "cs_Length cs = FullLength cs"

definition cs_Begin :: "chunks \<Rightarrow> cs_iter" where
  "cs_Begin cs = (0, 0)"

definition cs_End :: "chunks \<Rightarrow> cs_iter" where
  "cs_End cs = (length cs, 0)"

text \<open>\<open>memchr\<close> and \<open>memcmp\<close>; of the latter only the sign is promised.\<close>

fun memchr :: "char \<Rightarrow> bytes \<Rightarrow> nat option" where
  "memchr ch [] = None"
| "memchr ch (x # xs) = (if x = ch then Some 0 else map_option Suc (memchr ch xs))"

fun memcmp :: "bytes \<Rightarrow> bytes \<Rightarrow> int" where
  "memcmp (x # xs) (y # ys) =
     (if x = y then memcmp xs ys else if (of_char x :: nat) < of_char y then - 1 else 1)"
| "memcmp _ _ = 0"

text \<open>\<open>TCharTraits::Find\<close> in \<open>len\<close> bytes of a chunk from \<open>from\<close> on; the index is within the chunk.\<close>

definition chunk_find :: "chunks \<Rightarrow> char \<Rightarrow> nat \<Rightarrow> nat \<Rightarrow> nat \<Rightarrow> nat option outcome" where
  "chunk_find cs ch c from len =
     (if len = 0 then Ret None
      else if c < length cs \<and> from + len \<le> length (cs ! c)
      then Ret (map_option (\<lambda>k. from + k) (memchr ch (take len (drop from (cs ! c)))))
      else Crash)"

function find_loop :: "chunks \<Rightarrow> char \<Rightarrow> nat \<Rightarrow> nat \<Rightarrow> (nat option \<times> nat) outcome" where
  "find_loop cs ch ec c =
     (let c' = chunk_next cs c in
      if c' = ec then Ret (None, c')
      else if c \<ge> length cs \<or> c' \<ge> length cs then Crash
      else obind (chunk_find cs ch c' 0 (length (cs ! c'))) (\<lambda>found.
             case found of Some k \<Rightarrow> Ret (Some k, c') | None \<Rightarrow> find_loop cs ch ec c'))"
  by pat_completeness auto
termination by (relation "measure (\<lambda>(cs, ch, ec, c). length cs - c)") (auto simp: chunk_next_def)

declare find_loop.simps [simp del]

definition FindImpl :: "chunks \<Rightarrow> char \<Rightarrow> cs_iter \<Rightarrow> cs_iter \<Rightarrow> cs_iter outcome" where
  "FindImpl cs ch = (\<lambda>(bc, bi) (ec, ei).
     if bc = ec then
       (if ei < bi then Crash
        else obind (chunk_find cs ch bc bi (ei - bi)) (\<lambda>found.
          Ret (case found of Some k \<Rightarrow> (bc, k) | None \<Rightarrow> (ec, ei))))
     else if bc \<ge> length cs \<or> bi > length (cs ! bc) then Crash
     else obind (chunk_find cs ch bc bi (length (cs ! bc) - bi)) (\<lambda>found.
       case found of
         Some k \<Rightarrow> Ret (bc, k)
       | None \<Rightarrow> obind (find_loop cs ch ec bc) (\<lambda>(found, c).
           case found of
             Some k \<Rightarrow> Ret (c, k)
           | None \<Rightarrow> obind (chunk_find cs ch ec 0 ei) (\<lambda>found.
               Ret (case found of Some k \<Rightarrow> (c, k) | None \<Rightarrow> (ec, ei))))))"

definition cs_Find :: "chunks \<Rightarrow> char \<Rightarrow> cs_iter outcome" where
  "cs_Find cs ch = FindImpl cs ch (cs_Begin cs) (cs_End cs)"

definition CutFront :: "chunks \<Rightarrow> cs_iter \<Rightarrow> chunks outcome" where
  "CutFront cs = (\<lambda>(c, i).
     if i = 0 then Ret (drop c cs)
     else if c \<ge> length cs then Crash
     else obind (SubChunk i (length (cs ! c)) (cs ! c)) (\<lambda>newBegin.
            let rest = drop (c + 1) cs in
            Ret (if length newBegin > 0 then newBegin # rest else rest)))"

definition CutBack :: "chunks \<Rightarrow> cs_iter \<Rightarrow> chunks outcome" where
  "CutBack cs = (\<lambda>(c, i).
     if i = 0 then Ret (take c cs)
     else if c \<ge> length cs then Crash
     else obind (SubChunk 0 i (cs ! c)) (\<lambda>newEnd.
            let rest = take c cs in
            Ret (if length newEnd > 0 then rest @ [newEnd] else rest)))"

text \<open>The bytes \<open>GetData\<close> writes.\<close>

fun GetData :: "chunks \<Rightarrow> bytes" where
  "GetData [] = []"
| "GetData (c # cs) = c @ GetData cs"

fun cs_Compare :: "chunks \<Rightarrow> bytes \<Rightarrow> int" where
  "cs_Compare [] other = (if length other > 0 then - 1 else 0)"
| "cs_Compare (c # cs) other =
     (if length other < length c then
        (let res = memcmp (take (length other) c) other in if res = 0 then 1 else res)
      else let res = memcmp c (take (length c) other) in
           if res \<noteq> 0 then res else cs_Compare cs (drop (length c) other))"

fun StartsWith :: "chunks \<Rightarrow> bytes \<Rightarrow> bool" where
  "StartsWith [] prefix = (length prefix = 0)"
| "StartsWith (c # cs) prefix =
     (if length prefix = 0 then True
      else let len = min (length c) (length prefix) in
           if memcmp (take len c) (take len prefix) \<noteq> 0 then False
           else StartsWith cs (drop len prefix))"

section \<open>Iterators are offsets\<close>

definition cs_good :: "chunks \<Rightarrow> bool" where
  "cs_good cs \<longleftrightarrow> [] \<notin> set cs"

definition cs_off :: "chunks \<Rightarrow> cs_iter \<Rightarrow> nat" where
  "cs_off cs = (\<lambda>(c, i). length (bytes_of (take c cs)) + i)"

definition cs_ok :: "chunks \<Rightarrow> cs_iter \<Rightarrow> bool" where
  "cs_ok cs = (\<lambda>(c, i). c < length cs \<and> i < length (cs ! c) \<or> c = length cs \<and> i = 0)"

lemma good_chunk: "cs_good cs \<Longrightarrow> c < length cs \<Longrightarrow> 0 < length (cs ! c)"
  by (auto simp: cs_good_def in_set_conv_nth)

lemma ok_start: "cs_good cs \<Longrightarrow> c \<le> length cs \<Longrightarrow> cs_ok cs (c, 0)"
  using good_chunk by (auto simp: cs_ok_def)

lemma off_next: "c < length cs \<Longrightarrow> cs_off cs (Suc c, 0) = cs_off cs (c, 0) + length (cs ! c)"
  by (simp add: cs_off_def take_Suc_conv_app_nth)

lemma off_index: "cs_off cs (c, i) = cs_off cs (c, 0) + i"
  by (simp add: cs_off_def)

lemma off_end: "cs_off cs (cs_End cs) = length (bytes_of cs)"
  by (simp add: cs_off_def cs_End_def)

lemma off_mono: "c \<le> d \<Longrightarrow> d \<le> length cs \<Longrightarrow> cs_off cs (c, 0) \<le> cs_off cs (d, 0)"
proof (induction d)
  case (Suc d)
  then show ?case using off_next [of d cs] by (cases "c = Suc d") auto
qed simp

lemma off_bound: "cs_ok cs it \<Longrightarrow> cs_off cs it \<le> length (bytes_of cs)"
proof -
  assume ok: "cs_ok cs it"
  obtain c i where it: "it = (c, i)" by fastforce
  show ?thesis
    using ok off_next [of c cs] off_mono [of "Suc c" "length cs" cs] off_end [of cs] off_index [of cs c i]
    by (auto simp: it cs_ok_def cs_End_def)
qed

lemma off_inside: "cs_ok cs (c, i) \<Longrightarrow> c < length cs \<Longrightarrow> cs_off cs (c, i) < length (bytes_of cs)"
  using off_next [of c cs] off_mono [of "Suc c" "length cs" cs] off_end [of cs] off_index [of cs c i]
  by (auto simp: cs_ok_def cs_End_def)

lemma off_less:
  assumes "cs_ok cs (c, i)" and "cs_ok cs (d, j)" and "c < d"
  shows "cs_off cs (c, i) < cs_off cs (d, j)"
  using assms off_next [of c cs] off_mono [of "Suc c" d cs] off_index [of cs c i] off_index [of cs d j]
  by (auto simp: cs_ok_def)

lemma off_inj:
  assumes "cs_ok cs a" and "cs_ok cs b" and "cs_off cs a = cs_off cs b"
  shows "a = b"
proof -
  obtain c i d j where ab: "a = (c, i)" "b = (d, j)" by fastforce
  have "\<not> c < d" "\<not> d < c" using off_less assms by (fastforce simp: ab)+
  then show ?thesis using assms(3) off_index [of cs c i] off_index [of cs d j] by (simp add: ab)
qed

lemma cs_nth:
  assumes "c < length cs" and "i < length (cs ! c)"
  shows "bytes_of cs ! cs_off cs (c, i) = cs ! c ! i"
proof -
  have "bytes_of cs = bytes_of (take c cs) @ cs ! c @ bytes_of (drop (Suc c) cs)"
    using id_take_nth_drop [OF assms(1)] by (metis concat.simps(2) concat_append)
  then show ?thesis using assms by (simp add: cs_off_def nth_append)
qed

lemma deref_spec: "cs_ok cs it \<Longrightarrow> cs_off cs it < length (bytes_of cs) \<Longrightarrow> cs_deref cs it = Ret (bytes_of cs ! cs_off cs it)"
  using cs_nth off_end by (cases it) (auto simp: cs_ok_def cs_deref_def cs_End_def)

lemma NextN_spec:
  assumes "cs_good cs" and "cs_ok cs it" and "cs_off cs it + cnt \<le> length (bytes_of cs)"
  shows "\<exists>it'. cs_NextN cs cnt it = Ret it' \<and> cs_ok cs it' \<and> cs_off cs it' = cs_off cs it + cnt"
  using assms
proof (induction cs cnt it rule: cs_NextN.induct)
  case (1 cs cnt c i)
  show ?case
  proof (cases "cnt = 0")
    case False
    then have c: "c < length cs" "i < length (cs ! c)"
      using 1(3,4) off_end [of cs] by (auto simp: cs_ok_def cs_End_def)
    show ?thesis
    proof (cases "length (cs ! c) - i \<le> cnt")
      case True
      have st: "cs_off cs (Suc c, 0) = cs_off cs (c, i) + (length (cs ! c) - i)"
        using off_next [OF c(1)] off_index [of cs c i] c(2) by simp
      have ok: "cs_ok cs (Suc c, 0)" using ok_start [OF 1(2)] c(1) by simp
      have "\<exists>it'. cs_NextN cs (cnt - (length (cs ! c) - i)) (chunk_next cs c, 0) = Ret it' \<and> cs_ok cs it'
          \<and> cs_off cs it' = cs_off cs (Suc c, 0) + (cnt - (length (cs ! c) - i))"
        using 1(1) [OF False _ refl True 1(2)] c ok 1(4) st True by (simp add: chunk_next_def)
      then show ?thesis
        using False c True st by (subst cs_NextN.simps) (auto simp: Let_def)
    next
      case f: False
      then show ?thesis using False c off_index [of cs c i] off_index [of cs c "i + cnt"]
        by (subst cs_NextN.simps) (auto simp: Let_def cs_ok_def)
    qed
  qed (use 1 in \<open>simp add: cs_NextN.simps\<close>)
qed

lemma PrevN_loop_spec:
  assumes "cs_good cs" and "c \<le> length cs" and "cnt < cs_off cs (c, 0) + left" and "0 < left"
    and "left = 1 \<or> c < length cs \<and> left \<le> length (cs ! c)"
  shows "\<exists>c' cnt' left'. cs_PrevN_loop cs c cnt left = Ret (c', cnt', left') \<and> cnt' < left' \<and> cs_ok cs (c', left' - 1 - cnt')
    \<and> cs_off cs (c', left' - 1 - cnt') + cnt + 1 = cs_off cs (c, 0) + left"
  using assms
proof (induction cs c cnt left rule: cs_PrevN_loop.induct)
  case (1 cs c cnt left)
  show ?case
  proof (cases "cnt \<ge> left")
    case True
    then have c0: "0 < c" using 1(4) by (cases c) (auto simp: cs_off_def)
    let ?d = "c - 1"
    have d: "?d < length cs" "chunk_prev cs c = ?d" using c0 1(3) by (auto simp: chunk_prev_def)
    have st: "cs_off cs (c, 0) = cs_off cs (?d, 0) + length (cs ! ?d)" using off_next [OF d(1)] c0 by simp
    have n: "\<not> (c = 0 \<or> c > length cs)" using c0 1(3) by simp
    have lt: "cnt - left < cs_off cs (?d, 0) + length (cs ! ?d)" using 1(4,5) st True by linarith
    have dl: "chunk_prev cs c \<le> length cs" using d by simp
    obtain c' cnt' left' where r: "cs_PrevN_loop cs ?d (cnt - left) (length (cs ! ?d)) = Ret (c', cnt', left')"
        "cnt' < left'" "cs_ok cs (c', left' - 1 - cnt')"
        "cs_off cs (c', left' - 1 - cnt') + (cnt - left) + 1 = cs_off cs (?d, 0) + length (cs ! ?d)"
      using 1(1) [OF True n 1(2) dl, unfolded d(2), OF lt good_chunk [OF 1(2) d(1)]] d(1) by blast
    have "cs_PrevN_loop cs c cnt left = Ret (c', cnt', left')"
      using True n d r(1) by (subst cs_PrevN_loop.simps) simp
    moreover have "cs_off cs (c', left' - 1 - cnt') + cnt + 1 = cs_off cs (c, 0) + left"
      using r(4) st True by linarith
    ultimately show ?thesis using r(2,3) by blast
  next
    case False
    have "cs_ok cs (c, left - 1 - cnt)"
      using 1(5,6) False 1(3) ok_start [OF 1(2,3)] by (auto simp: cs_ok_def)
    then show ?thesis using False off_index [of cs c "left - 1 - cnt"] by (subst cs_PrevN_loop.simps) auto
  qed
qed

lemma PrevN_spec:
  assumes "cs_good cs" and "cs_ok cs it" and "cnt \<le> cs_off cs it"
  shows "\<exists>it'. cs_PrevN cs cnt it = Ret it' \<and> cs_ok cs it' \<and> cs_off cs it' = cs_off cs it - cnt"
proof -
  obtain c i where it: "it = (c, i)" by fastforce
  have "c \<le> length cs" "i + 1 = 1 \<or> c < length cs \<and> i + 1 \<le> length (cs ! c)"
    using assms(2) by (auto simp: it cs_ok_def)
  from PrevN_loop_spec [OF assms(1) this(1) _ _ this(2), of cnt] assms(3) off_index [of cs c i]
  obtain c' cnt' left' where r: "cs_PrevN_loop cs c cnt (i + 1) = Ret (c', cnt', left')" "cnt' < left'"
      "cs_ok cs (c', left' - 1 - cnt')" "cs_off cs (c', left' - 1 - cnt') + cnt + 1 = cs_off cs (c, 0) + (i + 1)"
    by (auto simp: it)
  then show ?thesis using off_index [of cs c i] by (auto simp: it cs_PrevN_def)
qed

lemma Next_spec:
  assumes "cs_good cs" and "cs_ok cs it" and "cs_off cs it < length (bytes_of cs)"
  shows "\<exists>it'. cs_Next cs it = Ret it' \<and> cs_ok cs it' \<and> cs_off cs it' = cs_off cs it + 1"
proof -
  obtain c i where it: "it = (c, i)" by fastforce
  have c: "c < length cs" "i < length (cs ! c)" using assms(2,3) off_end [of cs] by (auto simp: it cs_ok_def cs_End_def)
  show ?thesis
  proof (cases "i + 1 \<ge> length (cs ! c)")
    case True
    then show ?thesis
      using c off_next [OF c(1)] off_index [of cs c i] ok_start [OF assms(1), of "Suc c"]
      by (simp add: it cs_Next_def chunk_next_def)
  next
    case False
    then show ?thesis using c off_index [of cs c i] off_index [of cs c "i + 1"] by (simp add: it cs_Next_def cs_ok_def)
  qed
qed

lemma Prev_spec:
  assumes "cs_good cs" and "cs_ok cs it" and "0 < cs_off cs it"
  shows "\<exists>it'. cs_Prev cs it = Ret it' \<and> cs_ok cs it' \<and> cs_off cs it' = cs_off cs it - 1"
proof -
  obtain c i where it: "it = (c, i)" by fastforce
  show ?thesis
  proof (cases "i = 0")
    case True
    then have c0: "0 < c" using assms(3) by (cases c) (auto simp: it cs_off_def)
    let ?d = "c - 1"
    have d: "?d < length cs" "chunk_prev cs c = ?d" using c0 assms(2) by (auto simp: it cs_ok_def chunk_prev_def)
    have st: "cs_off cs (c, 0) = cs_off cs (?d, 0) + length (cs ! ?d)" using off_next [OF d(1)] c0 by simp
    have pos: "0 < length (cs ! ?d)" by (rule good_chunk [OF assms(1) d(1)])
    have "cs_Prev cs it = Ret (?d, length (cs ! ?d) - 1)"
      using True d pos by (simp add: it cs_Prev_def Let_def)
    moreover have "cs_ok cs (?d, length (cs ! ?d) - 1)" using d(1) pos by (simp add: cs_ok_def)
    moreover have "cs_off cs (?d, length (cs ! ?d) - 1) = cs_off cs it - 1"
      using st pos True off_index [of cs ?d "length (cs ! ?d) - 1"] unfolding it True by arith
    ultimately show ?thesis by blast
  next
    case False
    then show ?thesis using assms(2) off_index [of cs c i] off_index [of cs c "i - 1"] by (auto simp: it cs_Prev_def cs_ok_def)
  qed
qed

section \<open>Searching\<close>

lemma map_option_add_zero [simp]: "map_option ((+) (0 :: nat)) x = x"
  by (cases x) auto

lemma memchr_append:
  "memchr ch (xs @ ys) = (case memchr ch xs of Some k \<Rightarrow> Some k | None \<Rightarrow> map_option (\<lambda>k. length xs + k) (memchr ch ys))"
  by (induction xs) (auto simp: option.map_comp comp_def fun_eq_iff option.map_ident intro!: option.map_cong split: option.splits)

lemma memchr_None: "memchr ch xs = None \<longleftrightarrow> ch \<notin> set xs"
  by (induction xs) auto

lemma memchr_Some: "memchr ch xs = Some k \<Longrightarrow> k < length xs \<and> xs ! k = ch \<and> ch \<notin> set (take k xs)"
  by (induction xs arbitrary: k) (auto split: if_splits)

text \<open>The bytes between two offsets.\<close>

definition cs_range :: "chunks \<Rightarrow> nat \<Rightarrow> nat \<Rightarrow> bytes" where
  "cs_range cs a b = take (b - a) (drop a (bytes_of cs))"

lemma range_append:
  assumes "a \<le> b" and "b \<le> c" and "c \<le> length (bytes_of cs)"
  shows "cs_range cs a c = cs_range cs a b @ cs_range cs b c"
proof -
  have "c - a = (b - a) + (c - b)" using assms by simp
  then have "take (c - a) (drop a (bytes_of cs)) = take (b - a) (drop a (bytes_of cs)) @ take (c - b) (drop (b - a) (drop a (bytes_of cs)))"
    by (simp only: take_add)
  then show ?thesis using assms by (simp add: cs_range_def)
qed

lemma range_chunk:
  assumes "c < length cs" and "i \<le> j" and "j \<le> length (cs ! c)"
  shows "cs_range cs (cs_off cs (c, i)) (cs_off cs (c, j)) = take (j - i) (drop i (cs ! c))"
proof -
  have "bytes_of cs = bytes_of (take c cs) @ cs ! c @ bytes_of (drop (Suc c) cs)"
    using id_take_nth_drop [OF assms(1)] by (metis concat.simps(2) concat_append)
  then show ?thesis using assms by (simp add: cs_range_def cs_off_def)
qed

lemma find_loop_spec:
  assumes "c < ec" and "ec \<le> length cs"
  shows "case memchr ch (cs_range cs (cs_off cs (Suc c, 0)) (cs_off cs (ec, 0))) of
      None \<Rightarrow> find_loop cs ch ec c = Ret (None, ec)
    | Some k \<Rightarrow> \<exists>c' j. find_loop cs ch ec c = Ret (Some j, c') \<and> c' < ec \<and> j < length (cs ! c')
        \<and> cs_off cs (c', j) = cs_off cs (Suc c, 0) + k"
  using assms
proof (induction cs ch ec c rule: find_loop.induct)
  case (1 cs ch ec c)
  have nx: "chunk_next cs c = Suc c" using 1(2,3) by (simp add: chunk_next_def)
  show ?case
  proof (cases "Suc c = ec")
    case True
    then show ?thesis using nx by (simp add: cs_range_def find_loop.simps Let_def)
  next
    case False
    then have l: "Suc c < ec" "Suc c < length cs" using 1(2,3) by auto
    have a: "cs_range cs (cs_off cs (Suc c, 0)) (cs_off cs (Suc (Suc c), 0)) = cs ! Suc c"
      using range_chunk [OF l(2), of 0 "length (cs ! Suc c)"] off_next [OF l(2)]
        off_index [of cs "Suc c" "length (cs ! Suc c)"] by simp
    have "cs_off cs (ec, 0) \<le> length (bytes_of cs)"
      using off_mono [of ec "length cs" cs] 1(3) off_end [of cs] by (simp add: cs_End_def)
    then have b: "cs_range cs (cs_off cs (Suc c, 0)) (cs_off cs (ec, 0))
        = cs ! Suc c @ cs_range cs (cs_off cs (Suc (Suc c), 0)) (cs_off cs (ec, 0))"
      using range_append [of "cs_off cs (Suc c, 0)" "cs_off cs (Suc (Suc c), 0)" "cs_off cs (ec, 0)" cs]
        off_next [OF l(2)] off_mono [of "Suc (Suc c)" ec cs] l(1) 1(3) a by simp
    have cf: "chunk_find cs ch (Suc c) 0 (length (cs ! Suc c)) = Ret (memchr ch (cs ! Suc c))"
      using l(2) by (simp add: chunk_find_def)
    show ?thesis
    proof (cases "memchr ch (cs ! Suc c)")
      case (Some k)
      then have "find_loop cs ch ec c = Ret (Some k, Suc c)"
        using nx False l 1(2,3) cf by (subst find_loop.simps) (simp add: Let_def)
      then show ?thesis using Some b memchr_Some [OF Some] l off_index [of cs "Suc c" k] by (simp add: memchr_append)
    next
      case None
      have "find_loop cs ch ec c = find_loop cs ch ec (Suc c)"
        using nx False l 1(2,3) cf None by (subst find_loop.simps) (simp add: Let_def)
      moreover have "case memchr ch (cs_range cs (cs_off cs (Suc (Suc c), 0)) (cs_off cs (ec, 0))) of
          None \<Rightarrow> find_loop cs ch ec (Suc c) = Ret (None, ec)
        | Some k \<Rightarrow> \<exists>c' j. find_loop cs ch ec (Suc c) = Ret (Some j, c') \<and> c' < ec \<and> j < length (cs ! c')
            \<and> cs_off cs (c', j) = cs_off cs (Suc (Suc c), 0) + k"
        using 1(1) [OF nx [symmetric], of None] False l 1(2,3) cf None by simp
      ultimately show ?thesis using b None off_next [OF l(2)]
        by (auto simp: memchr_append add.assoc split: option.splits)
    qed
  qed
qed

lemma chunk_find_spec:
  assumes "c < length cs" and "i \<le> j" and "j \<le> length (cs ! c)"
  shows "chunk_find cs ch c i (j - i)
    = Ret (map_option (\<lambda>k. i + k) (memchr ch (cs_range cs (cs_off cs (c, i)) (cs_off cs (c, j)))))"
  using assms range_chunk [OF assms] by (auto simp: chunk_find_def)

text \<open>The position a search promises, as an offset.\<close>

definition find_offset :: "chunks \<Rightarrow> char \<Rightarrow> nat \<Rightarrow> nat \<Rightarrow> nat" where
  "find_offset cs ch a b = (case memchr ch (cs_range cs a b) of Some k \<Rightarrow> a + k | None \<Rightarrow> b)"

lemma find_offset_meaning:
  assumes "a \<le> b" and "b \<le> length (bytes_of cs)"
  shows "(\<forall>j. a \<le> j \<and> j < find_offset cs ch a b \<longrightarrow> bytes_of cs ! j \<noteq> ch)
    \<and> (if ch \<in> set (cs_range cs a b) then a \<le> find_offset cs ch a b \<and> find_offset cs ch a b < b
         \<and> bytes_of cs ! find_offset cs ch a b = ch else find_offset cs ch a b = b)"
proof -
  have l: "length (cs_range cs a b) = b - a" using assms by (simp add: cs_range_def)
  have at: "cs_range cs a b ! k = bytes_of cs ! (a + k)" if "k < b - a" for k
    using that assms by (simp add: cs_range_def)
  have before: "bytes_of cs ! j \<noteq> ch" if "a \<le> j" "j < a + k" "k \<le> b - a" "ch \<notin> set (take k (cs_range cs a b))" for j k
  proof
    assume "bytes_of cs ! j = ch"
    then have "take k (cs_range cs a b) ! (j - a) = ch" "j - a < length (take k (cs_range cs a b))"
      using that at [of "j - a"] l by auto
    then show False using that(4) nth_mem by metis
  qed
  show ?thesis
  proof (cases "memchr ch (cs_range cs a b)")
    case None
    then have "ch \<notin> set (cs_range cs a b)" by (simp add: memchr_None)
    then show ?thesis using None before [of _ "b - a"] assms l by (simp add: find_offset_def)
  next
    case (Some k)
    then have "ch \<in> set (cs_range cs a b)" using memchr_None [of ch "cs_range cs a b"] by auto
    then show ?thesis using Some memchr_Some [OF Some] before [of _ k] at [of k] l by (auto simp: find_offset_def)
  qed
qed

lemma find_offset_append:
  assumes "a \<le> b" and "b \<le> c" and "c \<le> length (bytes_of cs)"
  shows "find_offset cs ch a c
    = (if memchr ch (cs_range cs a b) = None then find_offset cs ch b c else find_offset cs ch a b)"
proof -
  have "length (cs_range cs a b) = b - a" using assms by (simp add: cs_range_def)
  then show ?thesis
    using assms range_append [OF assms] by (auto simp: find_offset_def memchr_append split: option.splits)
qed

lemma FindImpl_same:
  assumes "cs_ok cs (c, i)" and "cs_ok cs (c, j)" and "i \<le> j"
  shows "\<exists>it. FindImpl cs ch (c, i) (c, j) = Ret it \<and> cs_ok cs it
    \<and> cs_off cs it = find_offset cs ch (cs_off cs (c, i)) (cs_off cs (c, j))"
proof (cases "c < length cs")
  case True
  then have j: "j < length (cs ! c)" using assms(2) by (simp add: cs_ok_def)
  note cf = chunk_find_spec [OF True assms(3) less_imp_le [OF j], of ch]
  show ?thesis
  proof (cases "memchr ch (cs_range cs (cs_off cs (c, i)) (cs_off cs (c, j)))")
    case None
    then show ?thesis using cf assms by (simp add: FindImpl_def find_offset_def)
  next
    case (Some k)
    have "k < j - i" using memchr_Some [OF Some] range_chunk [OF True assms(3)] j by simp
    then show ?thesis
      using cf Some assms(3) True j off_index [of cs c "i + k"] off_index [of cs c i]
      by (auto simp: FindImpl_def find_offset_def cs_ok_def)
  qed
next
  case False
  then show ?thesis using assms by (auto simp: FindImpl_def cs_ok_def chunk_find_def find_offset_def cs_range_def)
qed

lemma find_tail:
  assumes "cs_ok cs (ec, ei)"
  shows "chunk_find cs ch ec 0 ei = Ret (memchr ch (cs_range cs (cs_off cs (ec, 0)) (cs_off cs (ec, ei))))"
proof (cases "ec < length cs")
  case True
  then have "ei \<le> length (cs ! ec)" using assms by (simp add: cs_ok_def)
  from chunk_find_spec [OF True _ this, of 0 ch] show ?thesis by (simp add: option.map_ident)
next
  case False
  then show ?thesis using assms by (simp add: cs_ok_def chunk_find_def cs_range_def)
qed

lemma FindImpl_other:
  assumes "cs_good cs" and b: "cs_ok cs (bc, bi)" and e: "cs_ok cs (ec, ei)" and "bc < ec"
  shows "\<exists>it. FindImpl cs ch (bc, bi) (ec, ei) = Ret it \<and> cs_ok cs it
    \<and> cs_off cs it = find_offset cs ch (cs_off cs (bc, bi)) (cs_off cs (ec, ei))"
proof -
  let ?n = "cs_off cs (Suc bc, 0)" and ?m = "cs_off cs (ec, 0)"
  have l: "bc < length cs" "bi < length (cs ! bc)" "ec \<le> length cs" using assms by (auto simp: cs_ok_def)
  have n: "cs_off cs (bc, length (cs ! bc)) = ?n" using off_next [OF l(1)] off_index [of cs bc "length (cs ! bc)"] by simp
  have le: "cs_off cs (bc, bi) \<le> ?n" "?n \<le> ?m" "?m \<le> cs_off cs (ec, ei)" "cs_off cs (ec, ei) \<le> length (bytes_of cs)"
    using off_next [OF l(1)] off_index [of cs bc bi] l(2) off_mono [of "Suc bc" ec cs] \<open>bc < ec\<close> l(3)
      off_index [of cs ec ei] off_bound [OF e] by auto
  have lem: "?n \<le> cs_off cs (ec, ei)" using le by simp
  note split1 = find_offset_append [OF le(1) lem le(4), of ch] and split2 = find_offset_append [OF le(2,3,4), of ch]
  have cf: "chunk_find cs ch bc bi (length (cs ! bc) - bi)
      = Ret (map_option (\<lambda>k. bi + k) (memchr ch (cs_range cs (cs_off cs (bc, bi)) ?n)))"
    using chunk_find_spec [OF l(1) less_imp_le [OF l(2)] order_refl, of ch] n by simp
  have go: "bc \<noteq> ec" "\<not> (bc \<ge> length cs \<or> bi > length (cs ! bc))" using assms(4) l by auto
  show ?thesis
  proof (cases "memchr ch (cs_range cs (cs_off cs (bc, bi)) ?n)")
    case (Some k)
    have "length (cs_range cs (cs_off cs (bc, bi)) ?n) = length (cs ! bc) - bi"
      using range_chunk [OF l(1) less_imp_le [OF l(2)] order_refl] n by simp
    then have "bi + k < length (cs ! bc)" using memchr_Some [OF Some] l(2) by linarith
    then have "cs_ok cs (bc, bi + k)" using l by (simp add: cs_ok_def)
    moreover have "FindImpl cs ch (bc, bi) (ec, ei) = Ret (bc, bi + k)" using go cf Some by (simp add: FindImpl_def)
    ultimately show ?thesis
      using Some split1 off_index [of cs bc "bi + k"] off_index [of cs bc bi] by (simp add: find_offset_def)
  next
    case None
    note fl = find_loop_spec [OF assms(4) l(3), of ch]
    show ?thesis
    proof (cases "memchr ch (cs_range cs ?n ?m)")
      case (Some k)
      then obtain c' j where c': "find_loop cs ch ec bc = Ret (Some j, c')" "c' < ec" "j < length (cs ! c')"
          "cs_off cs (c', j) = ?n + k"
        using fl by auto
      then have "FindImpl cs ch (bc, bi) (ec, ei) = Ret (c', j)" using go cf None by (simp add: FindImpl_def)
      moreover have "cs_ok cs (c', j)" using c' l(3) by (simp add: cs_ok_def)
      ultimately show ?thesis using split1 split2 None Some c'(4) by (simp add: find_offset_def)
    next
      case none: None
      then have f: "find_loop cs ch ec bc = Ret (None, ec)" using fl by simp
      show ?thesis
      proof (cases "memchr ch (cs_range cs ?m (cs_off cs (ec, ei)))")
        case (Some k)
        have k: "k < ei" using memchr_Some [OF Some] off_index [of cs ec ei] by (simp add: cs_range_def)
        then have "cs_ok cs (ec, k)" using e by (auto simp: cs_ok_def)
        moreover have "FindImpl cs ch (bc, bi) (ec, ei) = Ret (ec, k)"
          using go cf None f find_tail [OF e, of ch] Some by (simp add: FindImpl_def)
        ultimately show ?thesis
          using split1 split2 None none Some off_index [of cs ec k] by (simp add: find_offset_def)
      next
        case (None)
        then have "FindImpl cs ch (bc, bi) (ec, ei) = Ret (ec, ei)"
          using go cf \<open>memchr ch (cs_range cs (cs_off cs (bc, bi)) ?n) = None\<close> f find_tail [OF e, of ch]
          by (simp add: FindImpl_def)
        then show ?thesis
          using split1 split2 none None e \<open>memchr ch (cs_range cs (cs_off cs (bc, bi)) ?n) = None\<close>
          by (simp add: find_offset_def)
      qed
    qed
  qed
qed

section \<open>Cutting and comparing\<close>

lemma CutFront_spec:
  assumes "cs_ok cs it"
  shows "\<exists>cs'. CutFront cs it = Ret cs' \<and> bytes_of cs' = drop (cs_off cs it) (bytes_of cs) \<and> (cs_good cs \<longrightarrow> cs_good cs')"
proof -
  obtain c i where it: "it = (c, i)" by fastforce
  show ?thesis
  proof (cases "i = 0")
    case True
    have "bytes_of cs = bytes_of (take c cs) @ bytes_of (drop c cs)" by (simp flip: concat_append)
    then have "drop (cs_off cs it) (bytes_of cs) = bytes_of (drop c cs)" using True by (simp add: it cs_off_def)
    then show ?thesis using True by (auto simp: it CutFront_def cs_good_def dest: in_set_dropD)
  next
    case False
    then have c: "c < length cs" "i < length (cs ! c)" using assms by (auto simp: it cs_ok_def)
    have "bytes_of cs = bytes_of (take c cs) @ cs ! c @ bytes_of (drop (Suc c) cs)"
      using id_take_nth_drop [OF c(1)] by (metis concat.simps(2) concat_append)
    then have "drop (cs_off cs it) (bytes_of cs) = drop i (cs ! c) @ bytes_of (drop (Suc c) cs)"
      using c by (simp add: it cs_off_def)
    then show ?thesis
      using False c by (auto simp: it CutFront_def SubChunk_def SubBlob_def Let_def cs_good_def dest: in_set_dropD)
  qed
qed

lemma CutBack_spec:
  assumes "cs_ok cs it"
  shows "\<exists>cs'. CutBack cs it = Ret cs' \<and> bytes_of cs' = take (cs_off cs it) (bytes_of cs) \<and> (cs_good cs \<longrightarrow> cs_good cs')"
proof -
  obtain c i where it: "it = (c, i)" by fastforce
  show ?thesis
  proof (cases "i = 0")
    case True
    have "bytes_of cs = bytes_of (take c cs) @ bytes_of (drop c cs)" by (simp flip: concat_append)
    then have "take (cs_off cs it) (bytes_of cs) = bytes_of (take c cs)" using True by (simp add: it cs_off_def)
    then show ?thesis using True by (auto simp: it CutBack_def cs_good_def dest: in_set_takeD)
  next
    case False
    then have c: "c < length cs" "i < length (cs ! c)" using assms by (auto simp: it cs_ok_def)
    have "bytes_of cs = bytes_of (take c cs) @ cs ! c @ bytes_of (drop (Suc c) cs)"
      using id_take_nth_drop [OF c(1)] by (metis concat.simps(2) concat_append)
    then have "take (cs_off cs it) (bytes_of cs) = bytes_of (take c cs) @ take i (cs ! c)"
      using c by (simp add: it cs_off_def)
    then show ?thesis
      using False c by (auto simp: it CutBack_def SubChunk_def SubBlob_def Let_def cs_good_def dest: in_set_takeD)
  qed
qed

text \<open>The reference: the three-way comparison of byte strings as sequences of unsigned bytes.\<close>

fun byte_order :: "bytes \<Rightarrow> bytes \<Rightarrow> int" where
  "byte_order [] [] = 0"
| "byte_order [] (y # ys) = - 1"
| "byte_order (x # xs) [] = 1"
| "byte_order (x # xs) (y # ys) =
     (if x = y then byte_order xs ys else if (of_char x :: nat) < of_char y then - 1 else 1)"

abbreviation byte_less :: "(char \<times> char) set" where
  "byte_less \<equiv> {(x, y). (of_char x :: nat) < of_char y}"

lemma byte_order_lexord:
  "(byte_order xs ys = 0 \<longleftrightarrow> xs = ys) \<and> (byte_order xs ys < 0 \<longleftrightarrow> (xs, ys) \<in> lexord byte_less)
   \<and> (byte_order xs ys > 0 \<longleftrightarrow> (ys, xs) \<in> lexord byte_less)"
proof (induction xs ys rule: byte_order.induct)
  case (4 x xs y ys)
  have "x \<noteq> y \<Longrightarrow> (of_char x :: nat) < of_char y \<or> (of_char y :: nat) < of_char x"
    by (metis linorder_neqE_nat of_char_eq_iff)
  with 4 show ?case by auto
qed auto

lemma memcmp_append:
  assumes "length a = length b"
  shows "byte_order (a @ xs) (b @ ys) = (if memcmp a b = 0 then byte_order xs ys else memcmp a b)"
  using assms by (induction a b rule: list_induct2) auto

lemma memcmp_zero: "length a = length b \<Longrightarrow> memcmp a b = 0 \<longleftrightarrow> a = b"
  by (induction a b rule: list_induct2) auto

lemma byte_order_rest: "ys \<noteq> [] \<Longrightarrow> byte_order ys [] = 1 \<and> byte_order [] ys = - 1"
  by (cases ys) auto

lemma Compare_order: "cs_Compare cs other = byte_order (bytes_of cs) other"
proof (induction cs other rule: cs_Compare.induct)
  case (1 other)
  then show ?case by (cases other) auto
next
  case (2 c cs other)
  show ?case
  proof (cases "length other < length c")
    case True
    let ?n = "length other"
    have "drop ?n c @ bytes_of cs \<noteq> []" using True by simp
    then have "byte_order (drop ?n c @ bytes_of cs) [] = 1" using byte_order_rest by blast
    moreover have "byte_order (take ?n c @ drop ?n c @ bytes_of cs) (other @ [])
        = (if memcmp (take ?n c) other = 0 then byte_order (drop ?n c @ bytes_of cs) [] else memcmp (take ?n c) other)"
      using True by (intro memcmp_append) simp
    ultimately show ?thesis using True by (simp add: Let_def flip: append_assoc)
  next
    case False
    have "byte_order (c @ bytes_of cs) (take (length c) other @ drop (length c) other)
        = (if memcmp c (take (length c) other) = 0 then byte_order (bytes_of cs) (drop (length c) other)
           else memcmp c (take (length c) other))"
      using False by (intro memcmp_append) simp
    then show ?thesis using False 2 [OF False refl] by (simp add: Let_def)
  qed
qed

lemma StartsWith_prefix: "StartsWith cs p \<longleftrightarrow> p = take (length p) (bytes_of cs)"
proof (induction cs p rule: StartsWith.induct)
  case (2 c cs p)
  show ?case
  proof (cases "p = []")
    case False
    let ?n = "min (length c) (length p)"
    have z: "memcmp (take ?n c) (take ?n p) = 0 \<longleftrightarrow> take ?n c = take ?n p" by (rule memcmp_zero) simp
    have "p = take (length p) (c @ bytes_of cs)
        \<longleftrightarrow> take ?n c = take ?n p \<and> drop ?n p = take (length p - ?n) (bytes_of cs)"
      by (cases "length c \<le> length p") (auto simp: min_def, (metis append_eq_conv_conj append_take_drop_id)+)
    then show ?thesis using False z 2 [of ?n] by (auto simp: Let_def)
  qed simp
qed simp

lemma Append_bytes: "bytes_of (cs_Append lst cs) = bytes_of cs @ bytes_of lst \<and> (cs_good cs \<longrightarrow> cs_good (cs_Append lst cs))"
  by (induction lst arbitrary: cs) (auto simp: Push_def cs_good_def)

lemma GetData_bytes: "GetData cs = bytes_of cs"
  by (induction cs) auto

section \<open>Properties\<close>

text \<open>
  Iterators of a chunk string are offsets into its bytes. A string built from any chunk list has
  the bytes of the list and no empty chunk. On such a string moving an iterator forwards or
  backwards by any count that stays inside returns, and adds or subtracts exactly the count, whatever
  chunk boundaries are crossed (the end of the string is an iterator as well); dereferencing gives the
  byte at the offset.
\<close>

theorem chunk_string_iterator:
  assumes "cs = cs_new lst" and "cs_ok cs it"
  shows "bytes_of cs = bytes_of lst \<and> cs_Length cs = length (bytes_of lst) \<and> GetData cs = bytes_of lst
    \<and> cs_ok cs (cs_Begin cs) \<and> cs_off cs (cs_Begin cs) = 0 \<and> cs_ok cs (cs_End cs) \<and> cs_off cs (cs_End cs) = cs_Length cs
    \<and> (\<forall>d. 0 \<le> int (cs_off cs it) + d \<and> int (cs_off cs it) + d \<le> int (cs_Length cs) \<longrightarrow>
          (\<exists>it'. cs_add cs d it = Ret it' \<and> cs_ok cs it' \<and> int (cs_off cs it') = int (cs_off cs it) + d)
        \<and> (\<exists>it'. cs_sub cs (- d) it = Ret it' \<and> cs_ok cs it' \<and> int (cs_off cs it') = int (cs_off cs it) + d))
    \<and> (cs_off cs it < cs_Length cs \<longrightarrow> cs_deref cs it = Ret (bytes_of lst ! cs_off cs it)
        \<and> (\<exists>it'. cs_Next cs it = Ret it' \<and> cs_ok cs it' \<and> cs_off cs it' = cs_off cs it + 1 \<and> cs_Prev cs it' = Ret it))"
proof -
  have b: "bytes_of cs = bytes_of lst" and g: "cs_good cs"
    using assms(1) Append_bytes [of lst "[]"] by (auto simp: cs_new_def cs_good_def)
  have l: "cs_Length cs = length (bytes_of lst)" using b by (simp add: cs_Length_def FullLength_bytes)
  have fw: "\<exists>it'. cs_NextN cs (nat d) it = Ret it' \<and> cs_ok cs it' \<and> int (cs_off cs it') = int (cs_off cs it) + d"
    if "0 \<le> d" "int (cs_off cs it) + d \<le> int (cs_Length cs)" for d
  proof -
    have "cs_off cs it + nat d \<le> length (bytes_of cs)" using that l by (simp add: b)
    from NextN_spec [OF g assms(2) this] obtain it' where
      it': "cs_NextN cs (nat d) it = Ret it'" "cs_ok cs it'" "cs_off cs it' = cs_off cs it + nat d" by blast
    have "int (cs_off cs it') = int (cs_off cs it) + d" using it'(3) that by simp
    with it' show ?thesis by blast
  qed
  have bw: "\<exists>it'. cs_PrevN cs (nat (- d)) it = Ret it' \<and> cs_ok cs it' \<and> int (cs_off cs it') = int (cs_off cs it) + d"
    if "d \<le> 0" "0 \<le> int (cs_off cs it) + d" for d
  proof -
    have "nat (- d) \<le> cs_off cs it" using that by linarith
    from PrevN_spec [OF g assms(2) this] obtain it' where
      it': "cs_PrevN cs (nat (- d)) it = Ret it'" "cs_ok cs it'" "cs_off cs it' = cs_off cs it - nat (- d)" by blast
    have "int (cs_off cs it') = int (cs_off cs it) + d" using it'(3) that by linarith
    with it' show ?thesis by blast
  qed
  have nx: "\<exists>it'. cs_Next cs it = Ret it' \<and> cs_ok cs it' \<and> cs_off cs it' = cs_off cs it + 1 \<and> cs_Prev cs it' = Ret it"
    if lt: "cs_off cs it < cs_Length cs"
  proof -
    obtain it' where it': "cs_Next cs it = Ret it'" "cs_ok cs it'" "cs_off cs it' = cs_off cs it + 1"
      using Next_spec [OF g assms(2)] lt b l by auto
    obtain it'' where it'': "cs_Prev cs it' = Ret it''" "cs_ok cs it''" "cs_off cs it'' = cs_off cs it' - 1"
      using Prev_spec [OF g it'(2)] it'(3) by auto
    have "it'' = it" using off_inj [OF it''(2) assms(2)] it''(3) it'(3) by simp
    with it' it'' show ?thesis by blast
  qed
  have add: "\<exists>it'. cs_add cs d it = Ret it' \<and> cs_ok cs it' \<and> int (cs_off cs it') = int (cs_off cs it) + d"
    and sub: "\<exists>it'. cs_sub cs (- d) it = Ret it' \<and> cs_ok cs it' \<and> int (cs_off cs it') = int (cs_off cs it) + d"
    if "0 \<le> int (cs_off cs it) + d" "int (cs_off cs it) + d \<le> int (cs_Length cs)" for d
    by (cases "d > 0"; use that fw [of d] bw [of d] in \<open>simp add: cs_add_def cs_sub_def\<close>)
       (cases "d < 0"; use that fw [of d] bw [of d] in \<open>simp add: cs_add_def cs_sub_def\<close>)
  have ends: "cs_ok cs (cs_Begin cs)" "cs_off cs (cs_Begin cs) = 0" "cs_ok cs (cs_End cs)" "cs_off cs (cs_End cs) = cs_Length cs"
    using ok_start [OF g, of 0] off_end [of cs] b l by (auto simp: cs_Begin_def cs_End_def cs_off_def cs_ok_def)
  have dr: "cs_off cs it < cs_Length cs \<Longrightarrow> cs_deref cs it = Ret (bytes_of lst ! cs_off cs it)"
    using deref_spec [OF assms(2)] b l by simp
  have gd: "GetData cs = bytes_of lst" using GetData_bytes b by metis
  show ?thesis by (intro conjI allI impI b l gd ends add sub nx dr) blast+
qed

theorem chunk_string_iterator_witness:
  "cs_add (cs_new [''ab'', [], ''cde'']) 3 (0, 1) = Ret (1, 2)
   \<and> int (cs_off (cs_new [''ab'', [], ''cde'']) (1, 2)) = int (cs_off (cs_new [''ab'', [], ''cde'']) (0, 1)) + 3"
proof -
  let ?cs = "cs_new [''ab'', [], ''cde'']"
  have ok: "cs_ok ?cs (0, 1)" by code_simp
  have e: "cs_add ?cs 3 (0, 1) = Ret (1, 2)" by code_simp
  have le: "0 \<le> int (cs_off ?cs (0, 1)) + 3 \<and> int (cs_off ?cs (0, 1)) + 3 \<le> int (cs_Length ?cs)" by code_simp
  show ?thesis using chunk_string_iterator [OF refl ok] le e by fastforce
qed

text \<open>
  \<open>Find\<close> between two iterators of a string without empty chunks returns the first position of the
  character in the bytes between them, and the second iterator when there is none.
\<close>

theorem chunk_string_find:
  assumes "cs_good cs" and "cs_ok cs b" and "cs_ok cs e" and "cs_off cs b \<le> cs_off cs e"
  shows "\<exists>it. FindImpl cs ch b e = Ret it \<and> cs_ok cs it
    \<and> (\<forall>j. cs_off cs b \<le> j \<and> j < cs_off cs it \<longrightarrow> bytes_of cs ! j \<noteq> ch)
    \<and> (if ch \<in> set (take (cs_off cs e - cs_off cs b) (drop (cs_off cs b) (bytes_of cs)))
       then cs_off cs b \<le> cs_off cs it \<and> cs_off cs it < cs_off cs e \<and> bytes_of cs ! cs_off cs it = ch
       else it = e)"
proof -
  obtain bc bi ec ei where be: "b = (bc, bi)" "e = (ec, ei)" by fastforce
  have "\<exists>it. FindImpl cs ch b e = Ret it \<and> cs_ok cs it \<and> cs_off cs it = find_offset cs ch (cs_off cs b) (cs_off cs e)"
  proof (cases "bc = ec")
    case True
    then have "bi \<le> ei" using assms(4) off_index [of cs bc bi] off_index [of cs ec ei] by (simp add: be)
    then show ?thesis using FindImpl_same assms(2,3) True by (simp add: be)
  next
    case False
    then have "bc < ec" using off_less [of cs ec ei bc bi] assms(2-4) by (fastforce simp: be)
    then show ?thesis using FindImpl_other assms by (simp add: be)
  qed
  then obtain it where it: "FindImpl cs ch b e = Ret it" "cs_ok cs it"
      "cs_off cs it = find_offset cs ch (cs_off cs b) (cs_off cs e)" by blast
  note r = find_offset_meaning [OF assms(4) off_bound [OF assms(3)], of ch]
  show ?thesis using it r off_inj [OF it(2) assms(3)] by (auto simp: cs_range_def)
qed

theorem chunk_string_find_witness:
  "FindImpl [''ab'', ''cad''] (CHR ''a'') (0, 1) (1, 2) = Ret (1, 1)"
proof -
  let ?cs = "[''ab'', ''cad'']"
  have h: "cs_good ?cs" "cs_ok ?cs (0, 1)" "cs_ok ?cs (1, 2)" "cs_off ?cs (0, 1) \<le> cs_off ?cs (1, 2)"
    by (simp_all add: cs_good_def cs_ok_def cs_off_def)
  have e: "FindImpl ?cs (CHR ''a'') (0, 1) (1, 2) = Ret (1, 1)" by code_simp
  show ?thesis using chunk_string_find [OF h, of "CHR ''a''"] e by auto
qed

text \<open>
  Cutting a string at an iterator keeps exactly the bytes after it (\<open>CutFront\<close>) or before it
  (\<open>CutBack\<close>) and leaves no empty chunk; together the two halves are the string.
\<close>

theorem chunk_string_cut:
  assumes "cs_good cs" and "cs_ok cs it"
  shows "\<exists>front tail. CutBack cs it = Ret front \<and> CutFront cs it = Ret tail \<and> cs_good front \<and> cs_good tail
    \<and> cs_Length front = cs_off cs it \<and> bytes_of front @ bytes_of tail = bytes_of cs"
proof -
  obtain f t where "CutBack cs it = Ret f" "bytes_of f = take (cs_off cs it) (bytes_of cs)" "cs_good f"
      "CutFront cs it = Ret t" "bytes_of t = drop (cs_off cs it) (bytes_of cs)" "cs_good t"
    using CutBack_spec [OF assms(2)] CutFront_spec [OF assms(2)] assms(1) by blast
  then show ?thesis using off_bound [OF assms(2)] by (auto simp: cs_Length_def FullLength_bytes)
qed

theorem chunk_string_cut_witness:
  "CutBack [''ab'', ''cad''] (1, 1) = Ret [''ab'', ''c''] \<and> CutFront [''ab'', ''cad''] (1, 1) = Ret [''ad'']
   \<and> (\<exists>f t. CutBack [''ab'', ''cad''] (1, 1) = Ret f \<and> CutFront [''ab'', ''cad''] (1, 1) = Ret t \<and> bytes_of f @ bytes_of t = ''abcad'')"
proof -
  have h: "cs_good [''ab'', ''cad'']" "cs_ok [''ab'', ''cad''] (1, 1)" by (simp_all add: cs_good_def cs_ok_def)
  show ?thesis using chunk_string_cut [OF h] by (auto simp: CutBack_def CutFront_def SubChunk_def SubBlob_def)
qed

text \<open>
  C28. \<open>Compare\<close> orders a chunk string and a plain string as sequences of unsigned bytes, whatever the
  chunks are: zero exactly for equal bytes, negative exactly when the chunk string comes first. \<open>StartsWith\<close>
  decides whether the plain string is a prefix.
\<close>

theorem chunk_string_compare:
  "(cs_Compare cs other = 0 \<longleftrightarrow> bytes_of cs = other)
   \<and> (cs_Compare cs other < 0 \<longleftrightarrow> (bytes_of cs, other) \<in> lexord {(x, y). (of_char x :: nat) < of_char y})
   \<and> (cs_Compare cs other > 0 \<longleftrightarrow> (other, bytes_of cs) \<in> lexord {(x, y). (of_char x :: nat) < of_char y})
   \<and> (StartsWith cs other \<longleftrightarrow> (\<exists>rest. bytes_of cs = other @ rest))"
  using byte_order_lexord [of "bytes_of cs" other] StartsWith_prefix [of cs other]
    append_take_drop_id [of "length other" "bytes_of cs"]
  by (metis Compare_order append_eq_conv_conj)

end
