(* ===== verification/Http.thy ===== *)
theory Http
  imports Streamiter
begin

text \<open>
  HTTP messages and their parser (web/httpd/kernel/http.h, http.cpp, and the state machine of
  httpfsm.rl). The machine is the deterministic automaton of the regular expression
  \<open>request lend (header lend)* lend\<close>: entering actions run on the first character of an expression,
  leaving actions on the character that follows it. It runs over one chunk at a time with the pointers
  \<open>sp\<close> and \<open>p\<close>, here offsets into the chunk, and appends the parts of the current token to the chunk
  list \<open>curTok\<close> points to.

  The build translates the machine with \<open>-G2\<close>: the state lives in the program counter and is stored in
  \<open>cs\<close> when the end of a chunk or an error is reached. The action \<open>endOfHeaders\<close> returns from
  \<open>ParseChunk\<close> before that, so that \<open>cs\<close> keeps the value from before the chunk.

  The reference is a machine on single bytes that knows no chunks (\<open>byte_step\<close>): the parser refines it
  for every way the stream is cut, and parsing what \<open>BuildTo\<close> prints gives the message back.
\<close>

section \<open>Messages\<close>

text \<open>\<open>THeader\<close>; its copy constructor copies both lists.\<close>

record header =
  h_Key :: chunks
  h_Value :: chunks

definition header_new :: header where
  "header_new = \<lparr>h_Key = [], h_Value = []\<rparr>"

definition header_copy :: "header \<Rightarrow> header" where
  "header_copy hdr = header_new\<lparr>h_Key := CopyTo (h_Key hdr) [], h_Value := CopyTo (h_Value hdr) []\<rparr>"

record request =
  r_Request :: chunks
  r_Headers :: "header list"

definition request_new :: request where
  "request_new = \<lparr>r_Request = [], r_Headers = []\<rparr>"

text \<open>\<open>TRequest(const TRequest&)\<close>, \<open>TRequest(const T&)\<close> and \<open>TRequest(TChunkList&)\<close>, which takes the list.\<close>

definition request_copy :: "request \<Rightarrow> request" where
  "request_copy req =
     \<lparr>r_Request = CopyTo (r_Request req) [],
      r_Headers = foldl (\<lambda>hs it. hs @ [header_copy it]) [] (r_Headers req)\<rparr>"

definition request_of :: "chunk \<Rightarrow> request" where
  "request_of req = request_new\<lparr>r_Request := Push req []\<rparr>"

definition request_take :: "chunks \<Rightarrow> request \<times> chunks" where
  "request_take req = (request_new\<lparr>r_Request := req\<rparr>, [])"

definition CRLF :: bytes where
  "CRLF = [CHR 0x0D, CHR 0x0A]"

definition HDRD :: bytes where
  "HDRD = '': ''"

fun build_headers :: "header list \<Rightarrow> chunks \<Rightarrow> chunks" where
  "build_headers [] lst = lst"
| "build_headers (it # hs) lst =
     build_headers hs (Push CRLF (CopyTo (h_Value it) (Push HDRD (CopyTo (h_Key it) lst))))"

text \<open>\<open>BuildTo(lst, customHeaders)\<close>: the list and the custom headers, which are moved; \<open>None\<close> is null.\<close>

definition BuildTo_custom :: "request \<Rightarrow> chunks \<Rightarrow> chunks option \<Rightarrow> chunks \<times> chunks option" where
  "BuildTo_custom req lst customHeaders =
     (let lst1 = Push CRLF (CopyTo (r_Request req) lst);
          lst2 = build_headers (r_Headers req) lst1;
          (custom, lst3) = (case customHeaders of
                              None \<Rightarrow> (None, lst2)
                            | Some c \<Rightarrow> (let (c', l) = MoveTo c lst2 in (Some c', l)))
      in (Push CRLF lst3, custom))"

definition BuildTo :: "request \<Rightarrow> chunks \<Rightarrow> chunks" where
  "BuildTo req lst = fst (BuildTo_custom req lst None)"

text \<open>\<open>NewHeader()\<close> returns the header, here its position, and \<open>AddHeader\<close> fills it.\<close>

definition NewHeader :: "request \<Rightarrow> nat \<times> request" where
  "NewHeader req = (length (r_Headers req), req\<lparr>r_Headers := r_Headers req @ [header_new]\<rparr>)"

definition AddHeader_key :: "chunk \<Rightarrow> request \<Rightarrow> nat \<times> request" where
  "AddHeader_key key req =
     (let (i, req1) = NewHeader req; h = r_Headers req1 ! i
      in (i, req1\<lparr>r_Headers := (r_Headers req1)[i := h\<lparr>h_Key := Push key (h_Key h)\<rparr>]\<rparr>))"

definition AddHeader :: "chunk \<Rightarrow> chunk \<Rightarrow> request \<Rightarrow> request" where
  "AddHeader key val req =
     (let (i, req1) = AddHeader_key key req; h = r_Headers req1 ! i
      in req1\<lparr>r_Headers := (r_Headers req1)[i := h\<lparr>h_Value := Push val (h_Value h)\<rparr>]\<rparr>)"

section \<open>The parser\<close>

datatype fsm = Start | InRequest | LineCR | LineStart | InKey | InDelim | InValue | EndCR | Final | Error

datatype fsm_action = EndOfHeaders | StartOfRequest | StartOfKey | StartOfValue | EndOfToken | NextToken

definition is_char :: "char \<Rightarrow> bool" where
  "is_char c \<longleftrightarrow> c \<noteq> CHR 0x0D \<and> c \<noteq> CHR 0x0A"

definition is_hdelim :: "char \<Rightarrow> bool" where
  "is_hdelim c \<longleftrightarrow> c = CHR '' '' \<or> c = CHR 0x09 \<or> c = CHR '':''"

definition is_hchar :: "char \<Rightarrow> bool" where
  "is_hchar c \<longleftrightarrow> is_char c \<and> \<not> is_hdelim c"

text \<open>The transitions with the actions they run, in order.\<close>

fun fsm_step :: "fsm \<Rightarrow> char \<Rightarrow> fsm \<times> fsm_action list" where
  "fsm_step Start c = (if is_char c then (InRequest, [StartOfRequest]) else (Error, []))"
| "fsm_step InRequest c =
     (if c = CHR 0x0D then (LineCR, [EndOfToken]) else if c = CHR 0x0A then (LineStart, [EndOfToken])
      else (InRequest, []))"
| "fsm_step LineCR c = (if c = CHR 0x0A then (LineStart, []) else (Error, []))"
| "fsm_step LineStart c =
     (if is_hchar c then (InKey, [NextToken, StartOfKey])
      else if c = CHR 0x0D then (EndCR, [NextToken])
      else if c = CHR 0x0A then (Final, [NextToken, EndOfHeaders]) else (Error, []))"
| "fsm_step InKey c =
     (if is_hchar c then (InKey, []) else if is_hdelim c then (InDelim, [EndOfToken]) else (Error, []))"
| "fsm_step InDelim c =
     (if is_hdelim c then (InDelim, []) else if is_hchar c then (InValue, [NextToken, StartOfValue])
      else if c = CHR 0x0D then (LineCR, [NextToken]) else (LineStart, [NextToken]))"
| "fsm_step InValue c =
     (if c = CHR 0x0D then (LineCR, [EndOfToken]) else if c = CHR 0x0A then (LineStart, [EndOfToken])
      else (InValue, []))"
| "fsm_step EndCR c = (if c = CHR 0x0A then (Final, [EndOfHeaders]) else (Error, []))"
| "fsm_step Final c = (Error, [])"
| "fsm_step Error c = (Error, [])"

text \<open>What \<open>curTok\<close> points to; a header is named by its position.\<close>

datatype tok = TokRequest | TokKey nat | TokValue nat

record parser =
  p_Unparsed :: chunks
  p_Request :: request
  p_cs :: fsm
  p_curTok :: "tok option"
  p_curHdr :: "nat option"

definition parser_new :: "chunks \<Rightarrow> request \<Rightarrow> parser" where
  "parser_new unparsed req =
     \<lparr>p_Unparsed = unparsed, p_Request = req, p_cs = Start, p_curTok = None, p_curHdr = None\<rparr>"

definition InFinalState :: "parser \<Rightarrow> bool" where
  "InFinalState ps \<longleftrightarrow> p_cs ps = Final"

text \<open>\<open>cur->AddPartTo(b, e, *tok)\<close>.\<close>

fun add_part :: "nat \<Rightarrow> nat \<Rightarrow> chunk \<Rightarrow> tok \<Rightarrow> request \<Rightarrow> request outcome" where
  "add_part b e cur TokRequest req =
     obind (AddPartTo b e cur (r_Request req)) (\<lambda>l. Ret (req\<lparr>r_Request := l\<rparr>))"
| "add_part b e cur (TokKey i) req =
     (if i < length (r_Headers req) then
        let h = r_Headers req ! i in
        obind (AddPartTo b e cur (h_Key h)) (\<lambda>l. Ret (req\<lparr>r_Headers := (r_Headers req)[i := h\<lparr>h_Key := l\<rparr>]\<rparr>))
      else Crash)"
| "add_part b e cur (TokValue i) req =
     (if i < length (r_Headers req) then
        let h = r_Headers req ! i in
        obind (AddPartTo b e cur (h_Value h)) (\<lambda>l. Ret (req\<lparr>r_Headers := (r_Headers req)[i := h\<lparr>h_Value := l\<rparr>]\<rparr>))
      else Crash)"

text \<open>
  The actions; the last component of the result tells that \<open>endOfHeaders\<close> returned. \<open>rest\<close> is \<open>lst\<close>,
  the chunks after \<open>cur\<close>.
\<close>

fun run_action ::
  "chunk \<Rightarrow> chunks \<Rightarrow> nat \<Rightarrow> fsm_action \<Rightarrow> nat \<times> parser \<Rightarrow> (nat \<times> parser \<times> bool) outcome" where
  "run_action cur rest p EndOfHeaders (sp, ps) =
     obind (AddPartTo (p + 1) (length cur) cur (p_Unparsed ps)) (\<lambda>u.
       Ret (sp, ps\<lparr>p_Unparsed := snd (MoveTo rest u)\<rparr>, True))"
| "run_action cur rest p StartOfRequest (sp, ps) = Ret (sp, ps\<lparr>p_curTok := Some TokRequest\<rparr>, False)"
| "run_action cur rest p StartOfKey (sp, ps) =
     (let (i, req) = NewHeader (p_Request ps)
      in Ret (sp, ps\<lparr>p_Request := req, p_curHdr := Some i, p_curTok := Some (TokKey i)\<rparr>, False))"
| "run_action cur rest p StartOfValue (sp, ps) =
     (case p_curHdr ps of
        None \<Rightarrow> Crash
      | Some i \<Rightarrow> Ret (sp, ps\<lparr>p_curTok := Some (TokValue i), p_curHdr := None\<rparr>, False))"
| "run_action cur rest p EndOfToken (sp, ps) =
     (case p_curTok ps of
        None \<Rightarrow> Crash
      | Some t \<Rightarrow> obind (add_part sp p cur t (p_Request ps)) (\<lambda>req.
          Ret (sp, ps\<lparr>p_Request := req, p_curTok := None\<rparr>, False)))"
| "run_action cur rest p NextToken (sp, ps) = Ret (p, ps, False)"

fun run_actions ::
  "chunk \<Rightarrow> chunks \<Rightarrow> nat \<Rightarrow> fsm_action list \<Rightarrow> nat \<times> parser \<Rightarrow> (nat \<times> parser \<times> bool) outcome" where
  "run_actions cur rest p [] (sp, ps) = Ret (sp, ps, False)"
| "run_actions cur rest p (a # as) s =
     obind (run_action cur rest p a s) (\<lambda>(sp, ps, ret).
       if ret then Ret (sp, ps, True) else run_actions cur rest p as (sp, ps))"

text \<open>
  The machine over the characters of \<open>cur\<close> from \<open>p\<close> on, in state \<open>st\<close>: \<open>cs\<close> is stored at the end of the
  chunk and in the error state only.
\<close>

fun exec :: "chunk \<Rightarrow> chunks \<Rightarrow> nat \<Rightarrow> bytes \<Rightarrow> nat \<Rightarrow> fsm \<Rightarrow> parser \<Rightarrow> (nat \<times> parser \<times> bool) outcome" where
  "exec cur rest p [] sp st ps = Ret (sp, ps\<lparr>p_cs := st\<rparr>, False)"
| "exec cur rest p (c # cs) sp st ps =
     (case fsm_step st c of
        (st', acts) \<Rightarrow>
          obind (run_actions cur rest p acts (sp, ps)) (\<lambda>(sp', ps', ret).
            if ret then Ret (sp', ps', True)
            else if st' = Error then Ret (sp', ps'\<lparr>p_cs := Error\<rparr>, False)
            else exec cur rest (p + 1) cs sp' st' ps'))"

text \<open>
  \<open>ParseChunk(lst)\<close>: the result, the list after the call and the parser. The chunks that a call which
  throws has taken from the list are gone.
\<close>

fun ParseChunk :: "chunks \<Rightarrow> parser \<Rightarrow> bool outcome \<times> chunks \<times> parser" where
  "ParseChunk [] ps = (Ret False, [], ps)"
| "ParseChunk (cur # lst) ps =
     (case exec cur lst 0 cur 0 (p_cs ps) ps of
        Ret (sp, ps1, ret) \<Rightarrow>
          (if ret then (Ret True, [], ps1)
           else if p_cs ps1 = Error then (Throw (HttpParseError 400), lst, ps1)
           else (case p_curTok ps1 of
                   None \<Rightarrow> ParseChunk lst ps1
                 | Some t \<Rightarrow>
                     (case add_part sp (length cur) cur t (p_Request ps1) of
                        Ret req \<Rightarrow> ParseChunk lst (ps1\<lparr>p_Request := req\<rparr>)
                      | Throw e \<Rightarrow> (Throw e, lst, ps1)
                      | Crash \<Rightarrow> (Crash, lst, ps1))))
      | Throw e \<Rightarrow> (Throw e, lst, ps)
      | Crash \<Rightarrow> (Crash, lst, ps))"

text \<open>\<open>TRequestParseContext::Parse\<close>: it returns when the headers are complete.\<close>

partial_function (option) Parse_loop :: "'s recv \<Rightarrow> parser \<Rightarrow> 's \<Rightarrow> (unit outcome \<times> parser \<times> 's) option" where
  "Parse_loop recv ps s =
     (case recv s of
        (Ret lst, s') \<Rightarrow>
          (if FullLength lst = 0 then Some (Throw (HttpParseError 400), ps, s')
           else (case ParseChunk lst ps of
                   (Ret ok, _, ps') \<Rightarrow> if ok then Some (Ret (), ps', s') else Parse_loop recv ps' s'
                 | (Throw e, _, ps') \<Rightarrow> Some (Throw e, ps', s')
                 | (Crash, _, ps') \<Rightarrow> Some (Crash, ps', s')))
      | (Throw e, s') \<Rightarrow> Some (Throw e, ps, s')
      | (Crash, s') \<Rightarrow> Some (Crash, ps, s'))"

text \<open>\<open>TRequest::Parse(in, unparsed)\<close>: the request, the unparsed chunks and the input after the call.\<close>

definition Parse :: "'s recv \<Rightarrow> chunks \<Rightarrow> request \<Rightarrow> 's \<Rightarrow> (unit outcome \<times> request \<times> chunks \<times> 's) option" where
  "Parse recv unparsed req s =
     map_option (\<lambda>(r, ps, s'). (r, p_Request ps, p_Unparsed ps, s')) (Parse_loop recv (parser_new unparsed req) s)"

text \<open>\<open>TPushParseContext\<close> is a request with its parser; \<open>ParseChunk\<close> swaps the rest into \<open>lst\<close>.\<close>

definition push_parse_new :: parser where
  "push_parse_new = parser_new [] request_new"

definition push_ParseChunk :: "chunks \<Rightarrow> parser \<Rightarrow> bool outcome \<times> chunks \<times> parser" where
  "push_ParseChunk lst ps =
     (case ParseChunk lst ps of
        (Ret True, lst', ps') \<Rightarrow> (Ret True, p_Unparsed ps', ps'\<lparr>p_Unparsed := lst'\<rparr>)
      | r \<Rightarrow> r)"

definition HeadersParsed :: "parser \<Rightarrow> bool" where
  "HeadersParsed ps = InFinalState ps"

text \<open>\<open>THttpRequestInput\<close>: the custom headers it is, and the request pointer; \<open>None\<close> is null.\<close>

record request_input =
  ri_this :: chunks
  ri_R :: "request option"

definition request_input_new :: "request \<Rightarrow> request_input" where
  "request_input_new r = \<lparr>ri_this = [], ri_R = (if r_Request r = [] then None else Some r)\<rparr>"

definition request_input_Recv :: "request_input recv" where
  "request_input_Recv st =
     (case ri_R st of
        None \<Rightarrow> (Ret [], st)
      | Some r \<Rightarrow> (case BuildTo_custom r [] (Some (ri_this st)) of
                     (lst, c) \<Rightarrow> (Ret lst, st\<lparr>ri_this := (case c of Some l \<Rightarrow> l | None \<Rightarrow> []), ri_R := None\<rparr>)))"

definition IsHttp :: "chunks \<Rightarrow> bool" where
  "IsHttp lst =
     (case CopyData 1 lst of
        [] \<Rightarrow> False
      | ch # _ \<Rightarrow> ch \<in> set ''gGpPhHdDtTcCoO'')"

section \<open>The reference machine\<close>

text \<open>
  A message as byte strings. The reference reads one byte at a time and appends it to the token its
  state is in; it has no chunks and no pointers.
\<close>

type_synonym message = "bytes \<times> (bytes \<times> bytes) list"

definition message_of :: "request \<Rightarrow> message" where
  "message_of req = (bytes_of (r_Request req), map (\<lambda>h. (bytes_of (h_Key h), bytes_of (h_Value h))) (r_Headers req))"

fun feed :: "tok \<Rightarrow> bytes \<Rightarrow> message \<Rightarrow> message" where
  "feed TokRequest bs (l, hs) = (l @ bs, hs)"
| "feed (TokKey i) bs (l, hs) = (l, hs[i := (fst (hs ! i) @ bs, snd (hs ! i))])"
| "feed (TokValue i) bs (l, hs) = (l, hs[i := (fst (hs ! i), snd (hs ! i) @ bs)])"

definition byte_step :: "fsm \<Rightarrow> char \<Rightarrow> message \<Rightarrow> fsm \<times> message" where
  "byte_step st c msg =
     (let st' = fst (fsm_step st c) in
      (st', case st' of
              InRequest \<Rightarrow> feed TokRequest [c] msg
            | InKey \<Rightarrow> (let (l, hs) = msg; hs' = (if st = LineStart then hs @ [([], [])] else hs)
                        in feed (TokKey (length hs' - 1)) [c] (l, hs'))
            | InValue \<Rightarrow> feed (TokValue (length (snd msg) - 1)) [c] msg
            | _ \<Rightarrow> msg))"

datatype parse_result = More fsm message | Parsed message bytes | Rejected

fun byte_run :: "fsm \<Rightarrow> message \<Rightarrow> bytes \<Rightarrow> parse_result" where
  "byte_run st msg [] = More st msg"
| "byte_run st msg (c # cs) =
     (case byte_step st c msg of
        (st', msg') \<Rightarrow> if st' = Error then Rejected else if st' = Final then Parsed msg' cs else byte_run st' msg' cs)"

lemma byte_run_append:
  "byte_run st msg (xs @ ys) =
     (case byte_run st msg xs of
        More st' msg' \<Rightarrow> byte_run st' msg' ys
      | Parsed msg' rest \<Rightarrow> Parsed msg' (rest @ ys)
      | Rejected \<Rightarrow> Rejected)"
  by (induction xs arbitrary: st msg) (auto split: prod.splits)

section \<open>The parser refines the reference\<close>

text \<open>The part of the current token that is still in the chunk only.\<close>

definition slice :: "nat \<Rightarrow> nat \<Rightarrow> bytes \<Rightarrow> bytes" where
  "slice b e c = take (e - b) (drop b c)"

lemma slice_empty [simp]: "slice b b c = []"
  by (simp add: slice_def)

lemma slice_all [simp]: "slice 0 (length c) c = c"
  by (simp add: slice_def)

lemma slice_snoc: "b \<le> p \<Longrightarrow> p < length c \<Longrightarrow> slice b (Suc p) c = slice b p c @ [c ! p]"
  by (simp add: slice_def Suc_diff_le take_Suc_conv_app_nth)

fun pending :: "tok option \<Rightarrow> bytes \<Rightarrow> message \<Rightarrow> message" where
  "pending None bs msg = msg"
| "pending (Some t) bs msg = feed t bs msg"

fun tok_ok :: "tok \<Rightarrow> nat \<Rightarrow> bool" where
  "tok_ok TokRequest n = True"
| "tok_ok (TokKey i) n = (i < n)"
| "tok_ok (TokValue i) n = (i < n)"

lemma feed_append: "tok_ok t (length (snd msg)) \<Longrightarrow> feed t (xs @ ys) msg = feed t ys (feed t xs msg)"
  by (cases t; cases msg) auto

lemma feed_empty [simp]: "feed t [] msg = msg"
  by (cases t; cases msg) (auto simp: list_update_same_conv list_update_beyond not_less)

lemma feed_headers [simp]: "length (snd (feed t bs msg)) = length (snd msg)"
  by (cases t; cases msg) auto

lemma AddPartTo_slice:
  assumes "b \<le> e" and "e \<le> length c"
  shows "\<exists>l'. AddPartTo b e c l = Ret l' \<and> bytes_of l' = bytes_of l @ slice b e c"
  using assms by (auto simp: AddPartTo_def SubChunk_def SubBlob_def slice_def)

lemma message_headers [simp]: "length (snd (message_of req)) = length (r_Headers req)"
  by (simp add: message_of_def)

lemma add_part_spec:
  assumes "b \<le> e" and "e \<le> length c" and "tok_ok t (length (r_Headers req))"
  shows "\<exists>req'. add_part b e c t req = Ret req' \<and> message_of req' = feed t (slice b e c) (message_of req)
    \<and> length (r_Headers req') = length (r_Headers req)"
proof (cases t)
  case TokRequest
  then show ?thesis using AddPartTo_slice [OF assms(1,2), of "r_Request req"] by (auto simp: message_of_def)
next
  case (TokKey i)
  then show ?thesis using assms(3) AddPartTo_slice [OF assms(1,2), of "h_Key (r_Headers req ! i)"]
    by (auto simp: message_of_def map_update Let_def)
next
  case (TokValue i)
  then show ?thesis using assms(3) AddPartTo_slice [OF assms(1,2), of "h_Value (r_Headers req ! i)"]
    by (auto simp: message_of_def map_update Let_def)
qed

text \<open>Which token the parser is in, by the state of the machine.\<close>

fun tok_inv :: "fsm \<Rightarrow> tok option \<Rightarrow> nat option \<Rightarrow> nat \<Rightarrow> bool" where
  "tok_inv InRequest tk hp n = (tk = Some TokRequest \<and> n = 0)"
| "tok_inv InKey tk hp n = (0 < n \<and> tk = Some (TokKey (n - 1)) \<and> hp = Some (n - 1))"
| "tok_inv InDelim tk hp n = (0 < n \<and> tk = None \<and> hp = Some (n - 1))"
| "tok_inv InValue tk hp n = (0 < n \<and> tk = Some (TokValue (n - 1)))"
| "tok_inv Final tk hp n = False"
| "tok_inv Error tk hp n = False"
| "tok_inv Start tk hp n = (tk = None \<and> n = 0)"
| "tok_inv st tk hp n = (tk = None)"

definition parse_inv :: "fsm \<Rightarrow> parser \<Rightarrow> nat \<Rightarrow> nat \<Rightarrow> chunk \<Rightarrow> message \<Rightarrow> bool" where
  "parse_inv st ps sp p cur msg \<longleftrightarrow>
     tok_inv st (p_curTok ps) (p_curHdr ps) (length (r_Headers (p_Request ps)))
     \<and> msg = pending (p_curTok ps) (slice sp p cur) (message_of (p_Request ps))
     \<and> sp \<le> p \<and> p \<le> length cur \<and> (st = Start \<longrightarrow> sp = p)"

lemma inv_tok:
  assumes "parse_inv st ps sp p cur msg" and "p_curTok ps = Some t"
  shows "tok_ok t (length (r_Headers (p_Request ps)))"
  using assms by (cases st) (auto simp: parse_inv_def)

text \<open>Two kinds of steps: one more character of the token, and the end of the token.\<close>

lemma inv_continue:
  assumes "parse_inv st ps sp p cur msg" and "p_curTok ps = Some t" and "p < length cur" and "st \<noteq> Start"
  shows "parse_inv st ps sp (Suc p) cur (feed t [cur ! p] msg)"
  using assms inv_tok [OF assms(1,2)] slice_snoc [of sp p cur] feed_append [of t "message_of (p_Request ps)"]
  by (auto simp: parse_inv_def)

lemma run_EndOfToken:
  assumes "parse_inv st ps sp p cur msg" and "p_curTok ps = Some t"
  obtains req where "run_actions cur rest p [EndOfToken] (sp, ps) = Ret (sp, ps\<lparr>p_Request := req, p_curTok := None\<rparr>, False)"
    and "message_of req = msg" and "length (r_Headers req) = length (r_Headers (p_Request ps))"
proof -
  have "sp \<le> p" "p \<le> length cur" "msg = feed t (slice sp p cur) (message_of (p_Request ps))"
    using assms by (auto simp: parse_inv_def)
  with add_part_spec [OF this(1,2) inv_tok [OF assms]] obtain req where
    "add_part sp p cur t (p_Request ps) = Ret req" "message_of req = msg"
    "length (r_Headers req) = length (r_Headers (p_Request ps))" by auto
  with assms(2) show ?thesis by (intro that [of req]) auto
qed

text \<open>A step outside of a token leaves the message alone.\<close>

lemma inv_outside:
  assumes "p < length cur" and "sp' \<le> Suc p" and "p_curTok ps = None" and "st' \<noteq> Start"
    and "tok_inv st' None (p_curHdr ps) (length (r_Headers (p_Request ps)))"
  shows "parse_inv st' ps sp' (Suc p) cur (message_of (p_Request ps))"
  using assms by (auto simp: parse_inv_def)

text \<open>The first character of a token.\<close>

lemma inv_first:
  assumes "p < length cur" and "p_curTok ps = Some t" and "st' \<noteq> Start"
    and "tok_inv st' (Some t) (p_curHdr ps) (length (r_Headers (p_Request ps)))"
  shows "parse_inv st' ps p (Suc p) cur (feed t [cur ! p] (message_of (p_Request ps)))"
  using assms slice_snoc [of p p cur] by (auto simp: parse_inv_def)

lemma step_EndOfToken:
  assumes inv: "parse_inv st ps sp p cur msg" and "p_curTok ps = Some t" and p: "p < length cur"
    and "st' \<noteq> Start" and "\<And>ph. ph = p_curHdr ps \<Longrightarrow> tok_inv st' None ph (length (r_Headers (p_Request ps)))"
  shows "\<exists>sp' ps'. run_actions cur rest p [EndOfToken] (sp, ps) = Ret (sp', ps', False) \<and> p_cs ps' = p_cs ps
    \<and> p_Unparsed ps' = p_Unparsed ps \<and> parse_inv st' ps' sp' (Suc p) cur msg"
proof -
  obtain req where r: "run_actions cur rest p [EndOfToken] (sp, ps) = Ret (sp, ps\<lparr>p_Request := req, p_curTok := None\<rparr>, False)"
      "message_of req = msg" "length (r_Headers req) = length (r_Headers (p_Request ps))"
    using run_EndOfToken [OF inv assms(2)] by blast
  let ?ps = "ps\<lparr>p_Request := req, p_curTok := None\<rparr>"
  have "sp \<le> Suc p" using inv by (simp add: parse_inv_def)
  from inv_outside [OF p this, of ?ps st'] assms(4,5) r
  have "parse_inv st' ?ps sp (Suc p) cur msg" by simp
  with r(1) show ?thesis by auto
qed

lemma message_new_header:
  "message_of (req\<lparr>r_Headers := r_Headers req @ [header_new]\<rparr>) = (fst (message_of req), snd (message_of req) @ [([], [])])"
  by (simp add: message_of_def header_new_def)

lemma not_delim_char: "\<not> is_hdelim c \<Longrightarrow> \<not> is_hchar c \<Longrightarrow> c = CHR 0x0D \<or> c = CHR 0x0A"
  by (auto simp: is_hchar_def is_char_def)

lemma step_refines:
  assumes inv: "parse_inv st ps sp p cur msg" and p: "p < length cur"
    and st: "fsm_step st (cur ! p) = (st', acts)" and ok: "st' \<noteq> Error" "st' \<noteq> Final"
  shows "\<exists>sp' ps'. run_actions cur rest p acts (sp, ps) = Ret (sp', ps', False) \<and> p_cs ps' = p_cs ps
    \<and> p_Unparsed ps' = p_Unparsed ps \<and> parse_inv st' ps' sp' (Suc p) cur (snd (byte_step st (cur ! p) msg))"
proof (cases st)
  case Start
  then have "st' = InRequest" "acts = [StartOfRequest]" using st ok by (auto split: if_splits)
  moreover have "p_curTok ps = None" "sp = p" "r_Headers (p_Request ps) = []" using inv Start by (auto simp: parse_inv_def)
  ultimately show ?thesis
    using inv_first [OF p, of "ps\<lparr>p_curTok := Some TokRequest\<rparr>" TokRequest InRequest] inv st
    by (auto simp: byte_step_def parse_inv_def [of st])
next
  case InRequest
  then have t: "p_curTok ps = Some TokRequest" using inv by (simp add: parse_inv_def)
  show ?thesis
  proof (cases "st' = InRequest")
    case True
    then have "acts = []" using st InRequest by (auto split: if_splits)
    then show ?thesis using inv_continue [OF inv t p] True InRequest st by (simp add: byte_step_def)
  next
    case False
    then have "acts = [EndOfToken]" "st' = LineCR \<or> st' = LineStart" using st InRequest by (auto split: if_splits)
    then show ?thesis using step_EndOfToken [OF inv t p, of st' rest] InRequest st by (auto simp: byte_step_def)
  qed
next
  case LineCR
  then have "st' = LineStart" "acts = []" using st ok by (auto split: if_splits)
  then show ?thesis using inv LineCR st inv_outside [OF p, of sp ps LineStart] by (auto simp: byte_step_def parse_inv_def [of LineCR])
next
  case LineStart
  then have t: "p_curTok ps = None" and msg: "msg = message_of (p_Request ps)" using inv by (auto simp: parse_inv_def)
  let ?ps = "ps\<lparr>p_Request := (p_Request ps)\<lparr>r_Headers := r_Headers (p_Request ps) @ [header_new]\<rparr>,
      p_curHdr := Some (length (r_Headers (p_Request ps))), p_curTok := Some (TokKey (length (r_Headers (p_Request ps))))\<rparr>"
  consider "st' = InKey" "acts = [NextToken, StartOfKey]" | "st' = EndCR" "acts = [NextToken]"
    using st ok LineStart by (auto split: if_splits)
  then show ?thesis
  proof cases
    case 1
    have e: "(snd (message_of (p_Request ps)) @ [x]) ! length (r_Headers (p_Request ps)) = x"
      "(snd (message_of (p_Request ps)) @ [x])[length (r_Headers (p_Request ps)) := y] = snd (message_of (p_Request ps)) @ [y]"
      for x y by (metis message_headers nth_append_length, metis message_headers list_update_length)
    show ?thesis using 1 e inv_first [OF p, of ?ps "TokKey (length (r_Headers (p_Request ps)))" InKey] LineStart st msg
      by (simp add: NewHeader_def byte_step_def message_new_header split_beta)
  next
    case 2
    then show ?thesis using inv_outside [OF p, of p ps EndCR] LineStart st msg t by (simp add: byte_step_def)
  qed
next
  case InKey
  let ?n = "length (r_Headers (p_Request ps))"
  have t: "p_curTok ps = Some (TokKey (?n - 1))" "p_curHdr ps = Some (?n - 1)" "0 < ?n" and l: "length (snd msg) = ?n"
    using inv InKey by (auto simp: parse_inv_def)
  show ?thesis
  proof (cases "st' = InKey")
    case True
    then have "acts = []" using st InKey by (auto split: if_splits)
    then show ?thesis using inv_continue [OF inv t(1) p] True InKey st l by (cases msg) (simp add: byte_step_def)
  next
    case False
    then have "acts = [EndOfToken]" "st' = InDelim" using st ok InKey by (auto split: if_splits)
    then show ?thesis using step_EndOfToken [OF inv t(1) p, of st' rest] InKey st t by (auto simp: byte_step_def)
  qed
next
  case InDelim
  let ?n = "length (r_Headers (p_Request ps))"
  have t: "p_curTok ps = None" "p_curHdr ps = Some (?n - 1)" "0 < ?n" "sp \<le> p" and msg: "msg = message_of (p_Request ps)"
    using inv InDelim by (auto simp: parse_inv_def)
  let ?ps = "ps\<lparr>p_curTok := Some (TokValue (?n - 1)), p_curHdr := None\<rparr>"
  consider "st' = InDelim" "acts = []" | "st' = InValue" "acts = [NextToken, StartOfValue]"
    | "st' = LineCR \<or> st' = LineStart" "acts = [NextToken]"
    using st ok InDelim by (auto split: if_splits)
  then show ?thesis
  proof cases
    case 1
    then show ?thesis using inv_outside [OF p, of sp ps InDelim] InDelim st msg t by (simp add: byte_step_def)
  next
    case 2
    then show ?thesis using inv_first [OF p, of ?ps "TokValue (?n - 1)" InValue] InDelim st msg t by (simp add: byte_step_def)
  next
    case 3
    then show ?thesis using inv_outside [OF p, of p ps st'] InDelim st msg t by (auto simp: byte_step_def)
  qed
next
  case InValue
  let ?n = "length (r_Headers (p_Request ps))"
  have t: "p_curTok ps = Some (TokValue (?n - 1))" "0 < ?n" and l: "length (snd msg) = ?n"
    using inv InValue by (auto simp: parse_inv_def)
  show ?thesis
  proof (cases "st' = InValue")
    case True
    then have "acts = []" using st InValue by (auto split: if_splits)
    then show ?thesis using inv_continue [OF inv t(1) p] True InValue st l by (simp add: byte_step_def)
  next
    case False
    then have "acts = [EndOfToken]" "st' = LineCR \<or> st' = LineStart" using st InValue by (auto split: if_splits)
    then show ?thesis using step_EndOfToken [OF inv t(1) p, of st' rest] InValue st by (auto simp: byte_step_def)
  qed
next
  case EndCR
  then show ?thesis using st ok by (auto split: if_splits)
next
  case Final
  then show ?thesis using inv by (simp add: parse_inv_def)
next
  case Error
  then show ?thesis using inv by (simp add: parse_inv_def)
qed

lemma final_step:
  assumes inv: "parse_inv st ps sp p cur msg" and p: "p < length cur" and st: "fsm_step st (cur ! p) = (Final, acts)"
  shows "\<exists>sp' ps'. run_actions cur rest p acts (sp, ps) = Ret (sp', ps', True) \<and> p_cs ps' = p_cs ps
    \<and> bytes_of (p_Unparsed ps') = bytes_of (p_Unparsed ps) @ drop (Suc p) cur @ bytes_of rest
    \<and> message_of (p_Request ps') = msg \<and> byte_step st (cur ! p) msg = (Final, msg)"
proof -
  have "st = LineStart \<and> acts = [NextToken, EndOfHeaders] \<or> st = EndCR \<and> acts = [EndOfHeaders]"
    using st by (cases st) (auto split: if_splits)
  moreover have "AddPartTo (Suc p) (length cur) cur u = Ret u' \<Longrightarrow> bytes_of u' = bytes_of u @ drop (Suc p) cur" for u u'
    using p by (auto simp: AddPartTo_def SubChunk_def SubBlob_def split: if_splits)
  ultimately show ?thesis
    using inv p st AddPartTo_slice [of "Suc p" "length cur" cur "p_Unparsed ps"]
    by (auto simp: parse_inv_def MoveTo_def byte_step_def)
qed

lemma error_step: "fsm_step st c = (Error, acts) \<Longrightarrow> acts = []"
  by (cases st) (auto split: if_splits)

text \<open>The machine over the rest of a chunk, against the reference on its bytes.\<close>

definition exec_result :: "fsm \<Rightarrow> chunk \<Rightarrow> chunks \<Rightarrow> parser \<Rightarrow> (nat \<times> parser \<times> bool) outcome \<Rightarrow> parse_result \<Rightarrow> bool" where
  "exec_result st0 cur rest ps r b \<longleftrightarrow>
     (case b of
        More st msg \<Rightarrow> \<exists>sp ps'. r = Ret (sp, ps', False) \<and> p_cs ps' = st \<and> parse_inv st ps' sp (length cur) cur msg
          \<and> p_Unparsed ps' = p_Unparsed ps
      | Parsed msg bs \<Rightarrow> \<exists>sp ps'. r = Ret (sp, ps', True) \<and> p_cs ps' = st0 \<and> message_of (p_Request ps') = msg
          \<and> bytes_of (p_Unparsed ps') = bytes_of (p_Unparsed ps) @ bs @ bytes_of rest
      | Rejected \<Rightarrow> \<exists>sp ps'. r = Ret (sp, ps', False) \<and> p_cs ps' = Error)"

lemma exec_refines:
  assumes "parse_inv st ps sp p cur msg" and "cs = drop p cur"
  shows "exec_result (p_cs ps) cur rest ps (exec cur rest p cs sp st ps) (byte_run st msg cs)"
  using assms
proof (induction cs arbitrary: p sp st ps msg)
  case Nil
  then show ?case by (auto simp: exec_result_def parse_inv_def)
next
  case (Cons c cs)
  have p: "p < length cur" "cur ! p = c" "cs = drop (Suc p) cur"
    using Cons.prems(2) by (metis drop_all list.distinct(1) not_less, metis hd_drop_conv_nth drop_all list.distinct(1) list.sel(1) not_less,
        metis drop_Suc list.sel(3) tl_drop)
  obtain st' acts where f: "fsm_step st c = (st', acts)" by fastforce
  consider "st' = Error" | "st' = Final" | "st' \<noteq> Error" "st' \<noteq> Final" by blast
  then show ?case
  proof cases
    case 1
    then show ?thesis using f error_step [of st c acts] by (auto simp: exec_result_def byte_step_def)
  next
    case 2
    then show ?thesis using final_step [OF Cons.prems(1) p(1), of acts rest] f p(2,3)
      by (auto simp: exec_result_def)
  next
    case 3
    obtain sp' ps' where s: "run_actions cur rest p acts (sp, ps) = Ret (sp', ps', False)" "p_cs ps' = p_cs ps"
        "p_Unparsed ps' = p_Unparsed ps" "parse_inv st' ps' sp' (Suc p) cur (snd (byte_step st c msg))"
      using step_refines [OF Cons.prems(1) p(1), of st' acts rest] f p(2) 3 by auto
    have "exec_result (p_cs ps') cur rest ps' (exec cur rest (Suc p) cs sp' st' ps') (byte_run st' (snd (byte_step st c msg)) cs)"
      by (rule Cons.IH [OF s(4) p(3)])
    moreover have "fst (byte_step st c msg) = st'" using f by (simp add: byte_step_def Let_def)
    ultimately show ?thesis using f s(1-3) 3 by (auto simp: exec_result_def split_beta split: parse_result.splits)
  qed
qed

text \<open>Between two chunks nothing is pending.\<close>

definition parser_inv :: "parser \<Rightarrow> message \<Rightarrow> bool" where
  "parser_inv ps msg \<longleftrightarrow>
     tok_inv (p_cs ps) (p_curTok ps) (p_curHdr ps) (length (r_Headers (p_Request ps))) \<and> msg = message_of (p_Request ps)"

lemma parser_inv_chunk: "parser_inv ps msg \<Longrightarrow> parse_inv (p_cs ps) ps 0 0 cur msg"
  by (cases "p_curTok ps") (auto simp: parser_inv_def parse_inv_def)

lemma parser_inv_new: "parser_inv (parser_new u request_new) ([], [])"
  by (simp add: parser_inv_def parser_new_def request_new_def message_of_def)

lemma parser_not_final: "parser_inv ps msg \<Longrightarrow> p_cs ps \<noteq> Final \<and> p_cs ps \<noteq> Error"
  by (cases "p_cs ps") (auto simp: parser_inv_def)

text \<open>The end of a chunk: the part of the token it holds is added.\<close>

lemma chunk_end:
  assumes "parse_inv (p_cs ps) ps sp (length cur) cur msg"
  shows "case p_curTok ps of
      None \<Rightarrow> parser_inv ps msg
    | Some t \<Rightarrow> \<exists>req. add_part sp (length cur) cur t (p_Request ps) = Ret req \<and> parser_inv (ps\<lparr>p_Request := req\<rparr>) msg"
proof (cases "p_curTok ps")
  case None
  then show ?thesis using assms by (auto simp: parse_inv_def parser_inv_def)
next
  case (Some t)
  have "sp \<le> length cur" "msg = feed t (slice sp (length cur) cur) (message_of (p_Request ps))"
    using assms Some by (auto simp: parse_inv_def)
  with add_part_spec [OF this(1) order_refl inv_tok [OF assms Some]] assms Some show ?thesis
    by (auto simp: parser_inv_def parse_inv_def)
qed

definition chunks_result :: "parser \<Rightarrow> bool outcome \<times> chunks \<times> parser \<Rightarrow> parse_result \<Rightarrow> bool" where
  "chunks_result ps r b \<longleftrightarrow>
     (case b of
        More st msg \<Rightarrow> \<exists>ps'. r = (Ret False, [], ps') \<and> p_cs ps' = st \<and> parser_inv ps' msg \<and> p_Unparsed ps' = p_Unparsed ps
      | Parsed msg bs \<Rightarrow> \<exists>ps'. r = (Ret True, [], ps') \<and> p_cs ps' \<noteq> Final \<and> message_of (p_Request ps') = msg
          \<and> bytes_of (p_Unparsed ps') = bytes_of (p_Unparsed ps) @ bs
      | Rejected \<Rightarrow> \<exists>l ps'. r = (Throw (HttpParseError 400), l, ps'))"

lemma ParseChunk_refines:
  "parser_inv ps msg \<Longrightarrow> chunks_result ps (ParseChunk lst ps) (byte_run (p_cs ps) msg (bytes_of lst))"
proof (induction lst arbitrary: ps msg)
  case Nil
  then show ?case by (simp add: chunks_result_def)
next
  case (Cons cur lst)
  note e = exec_refines [OF parser_inv_chunk [OF Cons.prems], of cur cur lst]
  show ?case
  proof (cases "byte_run (p_cs ps) msg cur")
    case (More st msg')
    then obtain sp ps1 where x: "exec cur lst 0 cur 0 (p_cs ps) ps = Ret (sp, ps1, False)" "p_cs ps1 = st"
        "parse_inv st ps1 sp (length cur) cur msg'" "p_Unparsed ps1 = p_Unparsed ps"
      using e by (auto simp: exec_result_def)
    have ne: "p_cs ps1 \<noteq> Error" using x(2,3) by (cases st) (auto simp: parse_inv_def)
    note ce = chunk_end [OF x(3) [folded x(2)]]
    obtain ps2 where p2: "ParseChunk (cur # lst) ps = ParseChunk lst ps2" "parser_inv ps2 msg'" "p_cs ps2 = st"
        "p_Unparsed ps2 = p_Unparsed ps"
      using x ne ce by (cases "p_curTok ps1") auto
    from Cons.IH [OF p2(2)] p2 More show ?thesis
      by (auto simp: byte_run_append chunks_result_def split: parse_result.splits)
  next
    case (Parsed msg' bs)
    then show ?thesis using e parser_not_final [OF Cons.prems]
      by (auto simp: exec_result_def chunks_result_def byte_run_append)
  next
    case Rejected
    then show ?thesis using e by (auto simp: exec_result_def chunks_result_def byte_run_append)
  qed
qed

context io_input
begin

lemma Parse_loop_refines:
  assumes "inv s" and "parser_inv ps msg"
  shows "case byte_run (p_cs ps) msg (content s) of
      Parsed msg' rest \<Rightarrow> \<exists>ps' s'. Parse_loop recv ps s = Some (Ret (), ps', s') \<and> inv s'
        \<and> message_of (p_Request ps') = msg' \<and> bytes_of (p_Unparsed ps') @ content s' = bytes_of (p_Unparsed ps) @ rest
    | _ \<Rightarrow> \<exists>ps' s'. Parse_loop recv ps s = Some (Throw (HttpParseError 400), ps', s')"
  using assms
proof (induction "length (content s)" arbitrary: s ps msg rule: less_induct)
  case less
  obtain l s' where r: "recv s = (Ret l, s')" "inv s'" "content s = bytes_of l @ content s'"
    and eof: "bytes_of l = [] \<longleftrightarrow> l = []" "l = [] \<Longrightarrow> content s = []"
    using recvE [OF less.prems(1)] by metis
  show ?case
  proof (cases "l = []")
    case True
    then show ?thesis using r eof by (subst Parse_loop.simps) (auto simp: FullLength_bytes)
  next
    case False
    then have nz: "FullLength l \<noteq> 0" using eof by (simp add: FullLength_bytes)
    note p = ParseChunk_refines [OF less.prems(2), of l]
    show ?thesis
    proof (cases "byte_run (p_cs ps) msg (bytes_of l)")
      case (More st msg')
      then obtain ps' where ps': "ParseChunk l ps = (Ret False, [], ps')" "p_cs ps' = st" "parser_inv ps' msg'"
          "p_Unparsed ps' = p_Unparsed ps"
        using p by (auto simp: chunks_result_def)
      have "length (content s') < length (content s)" using r eof False by simp
      note ih = less.hyps [OF this r(2) ps'(3)]
      have "Parse_loop recv ps s = Parse_loop recv ps' s'" using r(1) nz ps'(1) by (subst Parse_loop.simps) simp
      then show ?thesis using ih ps' More r(3) by (auto simp: byte_run_append split: parse_result.splits)
    next
      case (Parsed msg' bs)
      then show ?thesis using p r nz by (subst Parse_loop.simps) (auto simp: chunks_result_def byte_run_append)
    next
      case Rejected
      then show ?thesis using p r nz by (subst Parse_loop.simps) (auto simp: chunks_result_def byte_run_append)
    qed
  qed
qed

lemma Parse_refines:
  assumes "inv s"
  shows "case byte_run Start ([], []) (content s) of
      Parsed msg rest \<Rightarrow> \<exists>req u s'. Parse recv [] request_new s = Some (Ret (), req, u, s') \<and> inv s'
        \<and> message_of req = msg \<and> bytes_of u @ content s' = rest
    | _ \<Rightarrow> \<exists>req u s'. Parse recv [] request_new s = Some (Throw (HttpParseError 400), req, u, s')"
  using Parse_loop_refines [OF assms parser_inv_new [of "[]"]]
  by (force simp: Parse_def parser_new_def split: parse_result.splits)

end

section \<open>Parsing what is printed\<close>

lemma bytes_build_headers:
  "bytes_of (build_headers hs lst)
   = bytes_of lst @ concat (map (\<lambda>h. bytes_of (h_Key h) @ HDRD @ bytes_of (h_Value h) @ CRLF) hs)"
  by (induction hs arbitrary: lst) (auto simp: Push_def)

definition message_bytes :: "message \<Rightarrow> bytes" where
  "message_bytes msg = fst msg @ CRLF @ concat (map (\<lambda>(k, v). k @ HDRD @ v @ CRLF) (snd msg))"

lemma BuildTo_custom_bytes:
  "\<exists>l. BuildTo_custom req lst custom = (l, map_option (\<lambda>_. []) custom)
     \<and> bytes_of l = bytes_of lst @ message_bytes (message_of req) @ (case custom of None \<Rightarrow> [] | Some c \<Rightarrow> bytes_of c) @ CRLF"
  by (cases custom) (auto simp: BuildTo_custom_def Let_def Push_def MoveTo_def bytes_build_headers message_bytes_def
      message_of_def comp_def)

lemma BuildTo_bytes: "bytes_of (BuildTo req lst) = bytes_of lst @ message_bytes (message_of req) @ CRLF"
  using BuildTo_custom_bytes [of req lst None] by (auto simp: BuildTo_def)

text \<open>What a message must look like to be printed readably: the tokens the machine accepts.\<close>

definition value_ok :: "bytes \<Rightarrow> bool" where
  "value_ok v \<longleftrightarrow> v = [] \<or> is_hchar (hd v) \<and> list_all is_char v"

definition message_ok :: "message \<Rightarrow> bool" where
  "message_ok msg \<longleftrightarrow> fst msg \<noteq> [] \<and> list_all is_char (fst msg)
     \<and> list_all (\<lambda>(k, v). k \<noteq> [] \<and> list_all is_hchar k \<and> value_ok v) (snd msg)"

lemma char_states: "is_char c \<Longrightarrow> c \<noteq> CHR 0x0D \<and> c \<noteq> CHR 0x0A"
  by (simp add: is_char_def)

lemma run_line: "list_all is_char w \<Longrightarrow> byte_run InRequest (l, hs) (w @ rest) = byte_run InRequest (l @ w, hs) rest"
  by (induction w arbitrary: l) (auto simp: byte_step_def dest: char_states)

lemma run_key:
  "list_all is_hchar w \<Longrightarrow> byte_run InKey (l, hs @ [(k, v)]) (w @ rest) = byte_run InKey (l, hs @ [(k @ w, v)]) rest"
  by (induction w arbitrary: k) (auto simp: byte_step_def)

lemma run_value:
  "list_all is_char w \<Longrightarrow> byte_run InValue (l, hs @ [(k, v)]) (w @ rest) = byte_run InValue (l, hs @ [(k, v @ w)]) rest"
  by (induction w arbitrary: v) (auto simp: byte_step_def dest: char_states)

lemma run_crlf:
  "st \<in> {InRequest, InValue, InDelim} \<Longrightarrow> byte_run st msg (CRLF @ rest) = byte_run LineStart msg rest"
  by (auto simp: CRLF_def byte_step_def is_hdelim_def is_hchar_def is_char_def)

lemma run_header:
  assumes "k \<noteq> []" and "list_all is_hchar k" and "value_ok v"
  shows "byte_run LineStart (l, hs) ((k @ HDRD @ v @ CRLF) @ rest) = byte_run LineStart (l, hs @ [(k, v)]) rest"
proof -
  obtain a k' where k: "k = a # k'" "is_hchar a" "list_all is_hchar k'" using assms by (cases k) auto
  have "byte_run LineStart (l, hs) ((k @ HDRD @ v @ CRLF) @ rest)
      = byte_run InKey (l, hs @ [([a], [])]) (k' @ HDRD @ v @ CRLF @ rest)"
    using k by (simp add: byte_step_def)
  also have "\<dots> = byte_run InKey (l, hs @ [(k, [])]) (HDRD @ v @ CRLF @ rest)" using run_key [OF k(3)] k(1) by simp
  also have "\<dots> = byte_run InDelim (l, hs @ [(k, [])]) (v @ CRLF @ rest)"
    by (simp add: HDRD_def byte_step_def is_hchar_def is_hdelim_def)
  also have "\<dots> = byte_run LineStart (l, hs @ [(k, v)]) rest"
  proof (cases v)
    case Nil
    then show ?thesis using run_crlf by simp
  next
    case (Cons b v')
    then have b: "is_hchar b" "list_all is_char v'" using assms(3) by (auto simp: value_ok_def)
    then have "byte_run InDelim (l, hs @ [(k, [])]) (v @ CRLF @ rest) = byte_run InValue (l, hs @ [(k, [b])]) (v' @ CRLF @ rest)"
      using Cons by (simp add: byte_step_def is_hchar_def)
    then show ?thesis using run_value [OF b(2)] run_crlf Cons by simp
  qed
  finally show ?thesis .
qed

lemma run_headers:
  "list_all (\<lambda>(k, v). k \<noteq> [] \<and> list_all is_hchar k \<and> value_ok v) hs
   \<Longrightarrow> byte_run LineStart (l, gs) (concat (map (\<lambda>(k, v). k @ HDRD @ v @ CRLF) hs) @ CRLF @ rest) = Parsed (l, gs @ hs) rest"
proof (induction hs arbitrary: gs)
  case Nil
  then show ?case by (simp add: CRLF_def byte_step_def is_hchar_def is_char_def)
next
  case (Cons h hs)
  obtain k v where h: "h = (k, v)" by fastforce
  have "byte_run LineStart (l, gs) ((k @ HDRD @ v @ CRLF) @ (concat (map (\<lambda>(k, v). k @ HDRD @ v @ CRLF) hs) @ CRLF @ rest))
      = byte_run LineStart (l, gs @ [(k, v)]) (concat (map (\<lambda>(k, v). k @ HDRD @ v @ CRLF) hs) @ CRLF @ rest)"
    using Cons.prems h by (intro run_header) auto
  then show ?case using Cons h by simp
qed

lemma run_printed: "message_ok msg \<Longrightarrow> byte_run Start ([], []) (message_bytes msg @ CRLF @ body) = Parsed msg body"
proof -
  assume ok: "message_ok msg"
  obtain a l hs where m: "msg = (a # l, hs)" using ok by (cases msg; cases "fst msg") (auto simp: message_ok_def)
  then have a: "is_char a" "list_all is_char l" using ok by (auto simp: message_ok_def)
  have "byte_run Start ([], []) (message_bytes msg @ CRLF @ body)
      = byte_run InRequest ([a], []) (l @ CRLF @ concat (map (\<lambda>(k, v). k @ HDRD @ v @ CRLF) hs) @ CRLF @ body)"
    using a m by (simp add: message_bytes_def byte_step_def)
  then show ?thesis using run_line [OF a(2)] run_crlf run_headers [of hs] ok m by (simp add: message_ok_def)
qed

section \<open>The stored state\<close>

lemma run_action_cs: "run_action cur rest p a (sp, ps) = Ret (sp', ps', ret) \<Longrightarrow> p_cs ps' = p_cs ps"
  by (cases a) (auto simp: obind_iffs Let_def NewHeader_def split: option.splits)

lemma run_action_returns: "run_action cur rest p a (sp, ps) = Ret (sp', ps', False) \<Longrightarrow> a \<noteq> EndOfHeaders"
  by (cases a) (auto simp: obind_iffs)

lemma run_actions_cs:
  "run_actions cur rest p as (sp, ps) = Ret (sp', ps', ret) \<Longrightarrow> p_cs ps' = p_cs ps \<and> (EndOfHeaders \<in> set as \<longrightarrow> ret)"
proof (induction as arbitrary: sp ps)
  case (Cons a as)
  then obtain sp1 ps1 r where r: "run_action cur rest p a (sp, ps) = Ret (sp1, ps1, r)"
      "(if r then Ret (sp1, ps1, True) else run_actions cur rest p as (sp1, ps1)) = Ret (sp', ps', ret)"
    by (auto simp: obind_iffs)
  then show ?case using Cons.IH [of sp1 ps1] run_action_cs [OF r(1)] run_action_returns [of cur rest p a sp ps sp1 ps1]
    by (auto split: if_splits)
qed simp

lemma final_returns: "fsm_step st c = (Final, acts) \<Longrightarrow> EndOfHeaders \<in> set acts"
  by (cases st) (auto split: if_splits)

lemma exec_cs:
  "exec cur rest p cs sp st ps = Ret (sp', ps', ret) \<Longrightarrow> st \<noteq> Final \<Longrightarrow> p_cs ps \<noteq> Final \<Longrightarrow> p_cs ps' \<noteq> Final"
proof (induction cs arbitrary: p sp st ps)
  case (Cons c cs)
  obtain st' acts where f: "fsm_step st c = (st', acts)" by fastforce
  obtain sp1 ps1 r where r: "run_actions cur rest p acts (sp, ps) = Ret (sp1, ps1, r)" using Cons.prems(1) f by (auto simp: obind_iffs)
  note ra = run_actions_cs [OF r]
  have "\<not> r \<Longrightarrow> st' \<noteq> Final" using ra final_returns [of st c acts] f by auto
  then show ?case using Cons.prems f r ra Cons.IH [of "p + 1" sp1 st' ps1] by (auto split: if_splits)
qed auto

lemma ParseChunk_cs: "p_cs ps \<noteq> Final \<Longrightarrow> p_cs (snd (snd (ParseChunk lst ps))) \<noteq> Final"
proof (induction lst ps rule: ParseChunk.induct)
  case (2 cur lst ps)
  show ?case
  proof (cases "exec cur lst 0 cur 0 (p_cs ps) ps")
    case (Ret r)
    obtain sp ps1 ret where x: "r = (sp, ps1, ret)" by (cases r) auto
    have "p_cs ps1 \<noteq> Final" using exec_cs [of cur lst 0 cur 0 "p_cs ps" ps sp ps1 ret] Ret x 2(3) by simp
    then show ?thesis using 2(1,2) Ret x by (auto split: option.splits outcome.splits)
  qed (use 2(3) in auto)
qed simp

section \<open>Properties\<close>

text \<open>
  C12. The parser reads a message from any input, however the input cuts its bytes into chunks and lists
  of chunks, exactly as the byte-at-a-time machine does: it returns on the messages that machine
  accepts, with the same request line, keys and values, and the bytes it has not used together with
  the rest of the input are exactly those behind the empty line; on every other stream it throws
  \<open>THttpParseError\<close> with code 400. It never crashes and always ends.
\<close>

theorem http_parser_refines:
  assumes "io_input r i c" and "i s"
  shows "case byte_run Start ([], []) (c s) of
      Parsed msg rest \<Rightarrow> \<exists>req u s'. Parse r [] request_new s = Some (Ret (), req, u, s') \<and> i s'
        \<and> message_of req = msg \<and> bytes_of u @ c s' = rest
    | _ \<Rightarrow> \<exists>req u s'. Parse r [] request_new s = Some (Throw (HttpParseError 400), req, u, s')"
  by (rule io_input.Parse_refines [OF assms])

theorem http_parser_refines_witness:
  "byte_run Start ([], []) (''G'' @ [CHR 0x0A, CHR 0x0A] @ ''b'') = Parsed (''G'', []) ''b''
   \<and> (\<exists>req u s'. Parse owned_Recv [] request_new [''G'', [CHR 0x0A], CHR 0x0A # ''b''] = Some (Ret (), req, u, s')
        \<and> message_of req = (''G'', []) \<and> bytes_of u @ bytes_of s' = ''b'')"
proof -
  let ?s = "[''G'', [CHR 0x0A], CHR 0x0A # ''b'']"
  have b: "byte_run Start ([], []) (''G'' @ [CHR 0x0A, CHR 0x0A] @ ''b'') = Parsed (''G'', []) ''b''" by code_simp
  have "bytes_of ?s = ''G'' @ [CHR 0x0A, CHR 0x0A] @ ''b''" by simp
  then show ?thesis using http_parser_refines [OF own.io_input_axioms, of ?s] b by (auto simp: owned_inv_def)
qed

text \<open>
  C13. Round trip: a message whose request line, keys and values are such that they can be told apart
  (a line and keys that are not empty, no line breaks, keys without blanks and colons, values that do
  not begin with a blank or a colon) is read back from what \<open>BuildTo\<close> prints, followed by any body and
  delivered in any chunks, with the same line and headers, and the body is left unread.
\<close>

theorem http_round_trip:
  assumes "message_ok (message_of req)" and "io_input r i c" and "i s"
    and "c s = bytes_of (BuildTo req []) @ body"
  shows "\<exists>req' u s'. Parse r [] request_new s = Some (Ret (), req', u, s') \<and> message_of req' = message_of req
    \<and> bytes_of u @ c s' = body"
proof -
  have "byte_run Start ([], []) (c s) = Parsed (message_of req) body"
    using run_printed [OF assms(1), of body] assms(4) by (simp add: BuildTo_bytes)
  with io_input.Parse_refines [OF assms(2,3)] show ?thesis by fastforce
qed

theorem http_round_trip_witness:
  "\<exists>req' u s'. Parse owned_Recv [] request_new (BuildTo (AddHeader ''Host'' ''ya.ru'' (request_of ''GET / HTTP/1.1'')) [] @ [''body''])
     = Some (Ret (), req', u, s') \<and> message_of req' = (''GET / HTTP/1.1'', [(''Host'', ''ya.ru'')]) \<and> bytes_of u @ bytes_of s' = ''body''"
proof -
  let ?r = "AddHeader ''Host'' ''ya.ru'' (request_of ''GET / HTTP/1.1'')"
  have m: "message_of ?r = (''GET / HTTP/1.1'', [(''Host'', ''ya.ru'')])"
    by (simp add: message_of_def AddHeader_def AddHeader_key_def NewHeader_def request_of_def request_new_def header_new_def Push_def)
  have ok: "message_ok (message_of ?r)"
    unfolding m by (simp add: message_ok_def value_ok_def is_hchar_def is_char_def is_hdelim_def)
  have i: "owned_inv (BuildTo ?r [] @ [''body''])"
    by (simp add: owned_inv_def BuildTo_def BuildTo_custom_def AddHeader_def AddHeader_key_def NewHeader_def request_of_def
        request_new_def header_new_def Push_def CRLF_def HDRD_def)
  have b: "bytes_of (BuildTo ?r [] @ [''body'']) = bytes_of (BuildTo ?r []) @ ''body''" by (simp only: concat_append concat.simps append_Nil2)
  note t = http_round_trip [where req = ?r and r = owned_Recv and i = owned_inv and c = bytes_of and body = "''body''", OF ok own.io_input_axioms]
  show ?thesis using t [OF i b] by (simp only: m)
qed

text \<open>
  \<open>InFinalState\<close> never holds: whatever lists a push parser is given and whatever its calls return,
  \<open>HeadersParsed\<close> stays false, also after \<open>ParseChunk\<close> has returned true.
\<close>

theorem headers_parsed_never_holds:
  "\<not> HeadersParsed (foldl (\<lambda>ps lst. snd (snd (push_ParseChunk lst ps))) push_parse_new ls)"
proof -
  have "p_cs (foldl (\<lambda>ps lst. snd (snd (push_ParseChunk lst ps))) ps ls) \<noteq> Final" if "p_cs ps \<noteq> Final" for ps
    using that
  proof (induction ls arbitrary: ps)
    case (Cons l ls)
    have "p_cs (snd (snd (push_ParseChunk l ps))) \<noteq> Final"
      using ParseChunk_cs [OF Cons.prems, of l] by (auto simp: push_ParseChunk_def split: prod.splits outcome.splits bool.splits)
    then show ?case using Cons.IH by simp
  qed simp
  then show ?thesis by (simp add: HeadersParsed_def InFinalState_def push_parse_new_def parser_new_def)
qed

end
