(* ===== verification/Numcast.thy ===== *)
theory Numcast
  imports Chunks
begin

text \<open>
  Printing and parsing of integers (util/string/cast.cpp) and hexadecimal encoding (util/string/hex.h).
  An integer type \<open>T\<close> is a word; a signed one is the same word read with \<open>sint\<close>. A buffer that is written
  from its start is the bytes written so far. Negation of the least signed value and its cast back wrap
  around, as on every compiler the program is built with.

  The references are the value of a digit string (\<open>digits_value\<close>, a natural number with no width) and the
  digits of a number: the parser never wraps, it throws exactly on what is no number or does not fit,
  and reads back what the printer prints.
\<close>

section \<open>Printing\<close>

definition IntToChar :: bytes where
  "IntToChar = ''0123456789ABCDEF''"

text \<open>
  The loop \<open>do ... while (t && --len)\<close>: the characters written, least digit first, and \<open>t\<close> when it ends.
\<close>

fun format_loop :: "nat \<Rightarrow> 'a::len word \<Rightarrow> nat \<Rightarrow> bytes \<times> 'a word" where
  "format_loop base t len =
     (let d = IntToChar ! unat (t mod of_nat base); t' = t div of_nat base; len' = len - 1 in
      if t' \<noteq> 0 \<and> 0 < len' then (let (ds, r) = format_loop base t' len' in (d # ds, r)) else ([d], t'))"

declare format_loop.simps [simp del]

text \<open>The second loop exchanges the ends of the buffer in place; \<open>b\<close> and \<open>e\<close> are \<open>buf\<close> and \<open>tmp\<close>.\<close>

function swap_loop :: "bytes \<Rightarrow> nat \<Rightarrow> nat \<Rightarrow> bytes" where
  "swap_loop buf b e =
     (if b < e then let c = buf ! b in swap_loop (buf[b := buf ! e, e := c]) (b + 1) (e - 1) else buf)"
  by pat_completeness auto
termination by (relation "measure (\<lambda>(buf, b, e). e - b)") auto

declare swap_loop.simps [simp del]

definition Format_unsigned :: "nat \<Rightarrow> 'a::len word \<Rightarrow> nat \<Rightarrow> bytes outcome" where
  "Format_unsigned base t len =
     (if len = 0 then Throw Yexception
      else case format_loop base t len of
        (buf, t') \<Rightarrow> if t' \<noteq> 0 then Throw Yexception else Ret (swap_loop buf 0 (length buf - 1)))"

definition Format_signed :: "nat \<Rightarrow> 'a::len word \<Rightarrow> nat \<Rightarrow> bytes outcome" where
  "Format_signed base t len =
     (if sint t < 0 then
        (if len < 2 then Throw Yexception
         else obind (Format_unsigned base (- t) (len - 1)) (\<lambda>s. Ret (CHR ''-'' # s)))
      else Format_unsigned base t len)"

section \<open>Parsing\<close>

definition LetterToIntMap :: "nat list" where
  "LetterToIntMap = replicate 48 20 @ [0, 1, 2, 3, 4, 5, 6, 7, 8, 9] @ replicate 7 20 @ [10, 11, 12, 13, 14, 15]
     @ replicate 26 20 @ [10, 11, 12, 13, 14, 15]"

text \<open>\<open>T sym = *begin\<close> widens a signed character; a negative one becomes a large number.\<close>

fun parse_loop :: "nat \<Rightarrow> bytes \<Rightarrow> 'a::len word \<Rightarrow> 'a word outcome" where
  "parse_loop base [] ret = Ret ret"
| "parse_loop base (c # s) ret =
     (let sym = word_of_int (schar c) :: 'a word; max1 = - 1 :: 'a word; max2 = max1 div of_nat base in
      if unat sym \<ge> length LetterToIntMap then Throw Yexception
      else let num = LetterToIntMap ! unat sym in
        if num \<ge> base then Throw Yexception
        else if ret > max2 then Throw Yexception
        else let ret1 = ret * of_nat base; digit = of_nat num :: 'a word in
          if ret1 > max1 - digit then Throw Yexception else parse_loop base s (ret1 + digit))"

definition Parse_unsigned :: "nat \<Rightarrow> bytes \<Rightarrow> 'a::len word outcome" where
  "Parse_unsigned base s =
     (case s of
        [] \<Rightarrow> Throw Yexception
      | c # s' \<Rightarrow> if c = CHR ''+'' then (if s' = [] then Throw Yexception else parse_loop base s' 0) else parse_loop base s 0)"

text \<open>\<open>TAbs<T>::Min\<close> and \<open>TAbs<T>::Max\<close> of a signed type.\<close>

definition abs_Max :: "'a::len word" where
  "abs_Max = (- 1) div 2"

definition abs_Min :: "'a::len word" where
  "abs_Min = - 1 - abs_Max"

definition Parse_signed :: "nat \<Rightarrow> bytes \<Rightarrow> 'a::len word outcome" where
  "Parse_signed base s =
     (case s of
        [] \<Rightarrow> Throw Yexception
      | c # s' \<Rightarrow>
          if c = CHR ''-'' then
            obind (Parse_unsigned base s' :: 'a word outcome) (\<lambda>ret. if ret > abs_Min then Throw Yexception else Ret (- ret))
          else obind (Parse_unsigned base s :: 'a word outcome) (\<lambda>ret. if ret > abs_Max then Throw Yexception else Ret ret))"

section \<open>Hexadecimal bytes\<close>

definition DigitToChar :: "nat \<Rightarrow> char" where
  "DigitToChar d = (if d < 10 then char_of (d + of_char CHR ''0'') else char_of (d - 10 + of_char CHR ''A''))"

definition Char2Digit :: "char \<Rightarrow> int" where
  "Char2Digit ch =
     (if schar ch \<le> schar CHR ''9'' then schar ch - schar CHR ''0''
      else if schar ch \<le> schar CHR ''F'' then schar ch - schar CHR ''A'' + 10
      else schar ch - schar CHR ''a'' + 10)"

definition Stroka2Byte :: "char \<Rightarrow> char \<Rightarrow> int" where
  "Stroka2Byte a b = Char2Digit a * 16 + Char2Digit b"

fun HexEncode :: "bytes \<Rightarrow> bytes" where
  "HexEncode [] = []"
| "HexEncode (b # e) = DigitToChar (of_char b div 16) # DigitToChar (of_char b mod 16) # HexEncode e"

text \<open>An odd number of characters makes the cursor step over the end.\<close>

fun HexDecode :: "bytes \<Rightarrow> bytes outcome" where
  "HexDecode [] = Ret []"
| "HexDecode [a] = Crash"
| "HexDecode (a # b # s) = obind (HexDecode s) (\<lambda>out. Ret (char_of (nat (Stroka2Byte a b mod 256)) # out))"

section \<open>The loop that reverses\<close>

lemma swap_loop_nth:
  "e < length buf \<Longrightarrow> length (swap_loop buf b e) = length buf
   \<and> (\<forall>k < length buf. swap_loop buf b e ! k = (if b \<le> k \<and> k \<le> e then buf ! (b + e - k) else buf ! k))"
proof (induction buf b e rule: swap_loop.induct)
  case (1 buf b e)
  show ?case
  proof (cases "b < e")
    case True
    let ?buf = "buf[b := buf ! e, e := buf ! b]"
    have eq: "swap_loop buf b e = swap_loop ?buf (b + 1) (e - 1)"
      using True by (subst swap_loop.simps) (simp add: Let_def)
    have ih: "length (swap_loop ?buf (b + 1) (e - 1)) = length ?buf"
      "\<And>k. k < length ?buf \<Longrightarrow> swap_loop ?buf (b + 1) (e - 1) ! k
        = (if b + 1 \<le> k \<and> k \<le> e - 1 then ?buf ! (b + 1 + (e - 1) - k) else ?buf ! k)"
      using 1(1) [OF True refl] 1(2) by auto
    have "swap_loop buf b e ! k = (if b \<le> k \<and> k \<le> e then buf ! (b + e - k) else buf ! k)" if "k < length buf" for k
    proof -
      consider "k = b" | "k = e" | "b < k" "k < e" | "k < b \<or> e < k" by linarith
      then show ?thesis
      proof cases
        case 1
        then show ?thesis using eq ih(2) [of k] True that \<open>e < length buf\<close> by (simp add: nth_list_update)
      next
        case 2
        then have "\<not> k \<le> e - 1" using True by simp
        then show ?thesis using 2 eq ih(2) [of k] True that \<open>e < length buf\<close> by (simp add: nth_list_update)
      next
        case 3
        then have "b + 1 + (e - 1) - k = b + e - k" "b + e - k \<noteq> b" "b + e - k \<noteq> e" "b + 1 \<le> k \<and> k \<le> e - 1" by auto
        then show ?thesis using eq ih(2) [of k] 3 that by (simp add: nth_list_update)
      next
        case 4
        then show ?thesis using eq ih(2) [of k] True that by (auto simp: nth_list_update)
      qed
    qed
    then show ?thesis using eq ih(1) by simp
  next
    case False
    then have "b + e - k = k" if "b \<le> k \<and> k \<le> e" for k using that by linarith
    moreover have "swap_loop buf b e = buf" using False by (subst swap_loop.simps) simp
    ultimately show ?thesis by simp
  qed
qed

lemma swap_loop_rev: "buf \<noteq> [] \<Longrightarrow> swap_loop buf 0 (length buf - 1) = rev buf"
  using swap_loop_nth [of "length buf - 1" buf 0] by (intro nth_equalityI) (auto simp: rev_nth)

section \<open>The digits that are printed\<close>

text \<open>The digits of a number, the least first.\<close>

fun digits :: "nat \<Rightarrow> nat \<Rightarrow> nat list" where
  "digits base n = (if base < 2 \<or> n < base then [n] else (n mod base) # digits base (n div base))"

declare digits.simps [simp del]

lemma digits_small: "n < base \<Longrightarrow> digits base n = [n]"
  by (subst digits.simps) simp

lemma digits_step: "2 \<le> base \<Longrightarrow> base \<le> n \<Longrightarrow> digits base n = (n mod base) # digits base (n div base)"
  by (subst digits.simps) simp

lemma digits_nonempty [simp]: "digits base n \<noteq> []"
  by (subst digits.simps) simp

lemma digits_bound: "2 \<le> base \<Longrightarrow> d \<in> set (digits base n) \<Longrightarrow> d < base"
proof (induction base n rule: digits.induct)
  case (1 base n)
  show ?case
  proof (cases "n < base")
    case True
    then show ?thesis using 1(3) by (simp add: digits_small)
  next
    case False
    then show ?thesis using 1 by (auto simp: digits_step)
  qed
qed

lemma unat_base: "base < 2 ^ LENGTH('a::len) \<Longrightarrow> unat (of_nat base :: 'a word) = base"
  by (simp add: unsigned_of_nat take_bit_nat_eq_self)

lemma format_loop_spec:
  fixes t :: "'a::len word"
  assumes "2 \<le> base" and "base \<le> 16" and "16 < (2 :: nat) ^ LENGTH('a)" and "0 < len"
  shows "if length (digits base (unat t)) \<le> len
    then format_loop base t len = (map ((!) IntToChar) (digits base (unat t)), 0)
    else snd (format_loop base t len) \<noteq> 0"
  using assms(4)
proof (induction len arbitrary: t rule: less_induct)
  case (less len)
  have ub: "unat (of_nat base :: 'a word) = base" using assms by (intro unat_base) linarith
  have um: "unat (t mod of_nat base) = unat t mod base" by (simp add: unat_mod ub)
  have ud: "unat (t div of_nat base) = unat t div base" by (simp add: unat_div ub)
  have z: "t div of_nat base \<noteq> 0 \<longleftrightarrow> base \<le> unat t"
    using ud assms(1) by (metis div_eq_0_iff leD not_le_imp_less not_numeral_le_zero unat_eq_zero)
  show ?case
  proof (cases "base \<le> unat t")
    case False
    then have "t div of_nat base = 0" using z by blast
    then show ?thesis using False less.prems um by (subst (1 2) format_loop.simps) (simp add: digits_small Let_def)
  next
    case True
    note ds = digits_step [OF assms(1) True]
    show ?thesis
    proof (cases "0 < len - 1")
      case l: True
      have "format_loop base t len = (let (ds, r) = format_loop base (t div of_nat base) (len - 1)
          in (IntToChar ! (unat t mod base) # ds, r))"
        using True z l um by (subst format_loop.simps) (simp add: Let_def)
      moreover note less.IH [of "len - 1" "t div of_nat base"]
      ultimately show ?thesis using ds l ud by (auto simp: split_beta split: if_splits)
    next
      case f: False
      have "format_loop base t len = ([IntToChar ! (unat t mod base)], t div of_nat base)"
        using f um by (subst format_loop.simps) (simp add: Let_def)
      moreover have "\<not> length (digits base (unat t)) \<le> len"
        using ds f less.prems by (cases "digits base (unat t div base)") auto
      ultimately show ?thesis using z True by simp
    qed
  qed
qed

lemma Format_unsigned_spec:
  fixes t :: "'a::len word"
  assumes "2 \<le> base" and "base \<le> 16" and "16 < (2 :: nat) ^ LENGTH('a)"
  shows "Format_unsigned base t len
    = (if length (digits base (unat t)) \<le> len then Ret (map ((!) IntToChar) (rev (digits base (unat t)))) else Throw Yexception)"
proof (cases "len = 0")
  case False
  then show ?thesis
    using format_loop_spec [OF assms, of len t] swap_loop_rev [of "map ((!) IntToChar) (digits base (unat t))"]
    by (auto simp: Format_unsigned_def split_beta rev_map split: if_splits)
qed (simp add: Format_unsigned_def)

section \<open>The value that is parsed\<close>

definition digit_value :: "nat \<Rightarrow> char \<Rightarrow> nat option" where
  "digit_value base c =
     (let n = of_char c :: nat;
          d = (if 48 \<le> n \<and> n \<le> 57 then n - 48 else if 65 \<le> n \<and> n \<le> 70 then n - 55
               else if 97 \<le> n \<and> n \<le> 102 then n - 87 else 16)
      in if d < base then Some d else None)"

fun digits_value :: "nat \<Rightarrow> nat \<Rightarrow> bytes \<Rightarrow> nat option" where
  "digits_value base acc [] = Some acc"
| "digits_value base acc (c # s) =
     (case digit_value base c of None \<Rightarrow> None | Some d \<Rightarrow> digits_value base (acc * base + d) s)"

lemma digits_value_ge: "2 \<le> base \<Longrightarrow> digits_value base acc s = Some v \<Longrightarrow> acc \<le> v"
proof (induction s arbitrary: acc)
  case (Cons c s)
  then obtain d where d: "digits_value base (acc * base + d) s = Some v" by (auto split: option.splits)
  have "acc \<le> acc * base + d" using Cons.prems(1) by (simp add: trans_le_add1)
  then show ?case using Cons.IH [OF Cons.prems(1) d] by linarith
qed simp

lemma map_letters: "n < 103 \<Longrightarrow> LetterToIntMap ! n =
    (if 48 \<le> n \<and> n \<le> 57 then n - 48 else if 65 \<le> n \<and> n \<le> 70 then n - 55 else if 97 \<le> n then n - 87 else 20)"
proof -
  have "list_all (\<lambda>n. LetterToIntMap ! n =
    (if 48 \<le> n \<and> n \<le> 57 then n - 48 else if 65 \<le> n \<and> n \<le> 70 then n - 55 else if 97 \<le> n then n - 87 else 20)) [0..<103]"
    by code_simp
  then show "n < 103 \<Longrightarrow> ?thesis" by (simp add: list_all_iff)
qed

lemma letters_length: "length LetterToIntMap = 103"
  by (simp add: LetterToIntMap_def)

lemma schar_cases: "schar c = (if of_char c < (128 :: nat) then int (of_char c) else int (of_char c) - 256)"
proof -
  have "(of_char c :: int) = int (of_char c)" by (rule of_nat_of_char [symmetric])
  then show ?thesis unfolding schar_def by (simp only: not_less [symmetric] if_not_P split: if_split) blast
qed

lemma of_char_bound: "(of_char c :: nat) < 256"
  by simp

text \<open>The look-up of the loop is the value of the digit, for every character.\<close>

lemma symbol_value:
  assumes "256 \<le> (2 :: nat) ^ LENGTH('a::len)" and "base \<le> 16"
  shows "digit_value base c =
    (let n = unat (word_of_int (schar c) :: 'a word) in
     if n < 103 \<and> LetterToIntMap ! n < base then Some (LetterToIntMap ! n) else None)"
proof -
  obtain n where n: "n = (of_char c :: nat)" "n < 256" using of_char_bound by blast
  have two: "256 \<le> (2 :: int) ^ LENGTH('a)"
    using assms(1) by (metis of_nat_le_iff of_nat_numeral of_nat_power)
  show ?thesis
  proof (cases "n < 128")
    case True
    then have "word_of_int (schar c) = (of_nat n :: 'a word)" using n by (simp only: schar_cases) simp
    then have "unat (word_of_int (schar c) :: 'a word) = n" using True assms(1) unat_base [of n, where 'a = 'a] by simp
    then show ?thesis using map_letters [of n] assms(2) n(1) by (simp add: digit_value_def Let_def)
  next
    case False
    have s: "schar c = int n - 256" using False n by (simp only: schar_cases) simp
    have "(int n - 256) mod 2 ^ LENGTH('a) = (int n - 256 + 2 ^ LENGTH('a)) mod 2 ^ LENGTH('a)" by simp
    also have "\<dots> = int n - 256 + 2 ^ LENGTH('a)" using n(2) two by (intro mod_pos_pos_trivial) auto
    finally have "uint (word_of_int (schar c) :: 'a word) = int n - 256 + 2 ^ LENGTH('a)" by (simp only: s uint_word_of_int)
    then have "103 \<le> unat (word_of_int (schar c) :: 'a word)" using False two by (simp add: unat_eq_nat_uint)
    then show ?thesis using False assms(2) n(1) by (simp add: digit_value_def Let_def)
  qed
qed

lemma unat_max: "unat (- 1 :: 'a::len word) = 2 ^ LENGTH('a) - 1"
  by (simp add: unsigned_minus_1_eq_mask mask_eq_exp_minus_1)

lemma le_div_mult: "0 < (b :: nat) \<Longrightarrow> a \<le> m div b \<longleftrightarrow> a * b \<le> m"
  by (simp add: less_eq_div_iff_mult_less_eq)

lemma parse_loop_spec:
  fixes ret :: "'a::len word"
  assumes "2 \<le> base" and "base \<le> 16" and "256 \<le> (2 :: nat) ^ LENGTH('a)"
  shows "parse_loop base s ret = (case digits_value base (unat ret) s of
      None \<Rightarrow> Throw Yexception
    | Some v \<Rightarrow> if v < 2 ^ LENGTH('a) then Ret (of_nat v) else Throw Yexception)"
proof (induction s arbitrary: ret)
  case Nil
  then show ?case by (simp add: unsigned_less)
next
  case (Cons c s)
  let ?n = "unat (word_of_int (schar c) :: 'a word)" and ?W = "2 ^ LENGTH('a) :: nat"
  note sv = symbol_value [OF assms(3,2), of c]
  show ?case
  proof (cases "digit_value base c")
    case None
    then show ?thesis using sv by (auto simp: Let_def letters_length split: if_splits)
  next
    case (Some d)
    then have d: "?n < 103" "LetterToIntMap ! ?n = d" "d < base" using sv by (auto simp: Let_def split: if_splits)
    have ub: "unat (of_nat base :: 'a word) = base" using assms by (intro unat_base) linarith
    have dd: "unat (of_nat d :: 'a word) = d" using assms d(3) by (intro unat_base) linarith
    have max2: "ret > (- 1) div of_nat base \<longleftrightarrow> unat ret * base > ?W - 1"
      using assms(1) le_div_mult [of base "unat ret" "?W - 1"] by (simp add: word_less_nat_alt unat_div ub unat_max not_le [symmetric])
    show ?thesis
    proof (cases "unat ret * base > ?W - 1")
      case True
      then have "v \<ge> ?W" if "digits_value base (unat ret * base + d) s = Some v" for v
        using digits_value_ge [OF assms(1) that] by linarith
      then show ?thesis using Some d max2 True by (auto simp: Let_def letters_length split: option.splits)
    next
      case False
      then have "unat ret * base < ?W" by (simp add: not_less le_less_trans [OF _ diff_less])
      then have r1: "unat (ret * of_nat base) = unat ret * base"
        by (simp add: unat_word_ariths ub)
      have m: "ret * of_nat base > - 1 - of_nat d \<longleftrightarrow> unat ret * base + d > ?W - 1"
      proof -
        have "unat (- 1 - of_nat d :: 'a word) = ?W - 1 - d" by (simp add: unat_sub unat_max dd)
        moreover have "d < ?W" using d(3) assms by linarith
        ultimately show ?thesis using r1 unfolding word_less_nat_alt by linarith
      qed
      show ?thesis
      proof (cases "unat ret * base + d > ?W - 1")
        case True
        then have "v \<ge> ?W" if "digits_value base (unat ret * base + d) s = Some v" for v
          using digits_value_ge [OF assms(1) that] by linarith
        then show ?thesis using Some d max2 False m True by (auto simp: Let_def letters_length split: option.splits)
      next
        case f: False
        have "unat ret * base + d < ?W" using f by (simp add: not_less le_less_trans [OF _ diff_less])
        then have "unat (ret * of_nat base + of_nat d) = unat ret * base + d"
          using r1 dd by (simp add: unat_word_ariths)
        then show ?thesis using Some d max2 False m f Cons.IH [of "ret * of_nat base + of_nat d"]
          by (simp add: Let_def letters_length)
      qed
    qed
  qed
qed

lemma Parse_unsigned_spec:
  assumes "2 \<le> base" and "base \<le> 16" and "256 \<le> (2 :: nat) ^ LENGTH('a::len)"
  shows "Parse_unsigned base s = (let s' = (if s \<noteq> [] \<and> hd s = CHR ''+'' then tl s else s) in
    if s' = [] then Throw Yexception
    else case digits_value base 0 s' of
      None \<Rightarrow> Throw Yexception
    | Some v \<Rightarrow> if v < 2 ^ LENGTH('a) then Ret (of_nat v :: 'a word) else Throw Yexception)"
  by (cases s) (auto simp: Parse_unsigned_def Let_def parse_loop_spec [OF assms] simp del: parse_loop.simps digits_value.simps)

text \<open>The printed digits have the value of the number.\<close>

lemma IntToChar_value: "d < base \<Longrightarrow> base \<le> 16 \<Longrightarrow> digit_value base (IntToChar ! d) = Some d"
proof -
  have "list_all (\<lambda>d. digit_value 16 (IntToChar ! d) = Some d) [0..<16]" by code_simp
  then have "d < 16 \<Longrightarrow> digit_value 16 (IntToChar ! d) = Some d" by (simp add: list_all_iff)
  then show "d < base \<Longrightarrow> base \<le> 16 \<Longrightarrow> ?thesis" by (auto simp: digit_value_def Let_def split: if_splits)
qed

lemma digits_value_append:
  "digits_value base acc (xs @ ys) = (case digits_value base acc xs of None \<Rightarrow> None | Some v \<Rightarrow> digits_value base v ys)"
  by (induction xs arbitrary: acc) (auto split: option.splits)

lemma digits_value_digits:
  assumes "2 \<le> base" and "base \<le> 16"
  shows "digits_value base 0 (map ((!) IntToChar) (rev (digits base n))) = Some n"
  using assms
proof (induction base n rule: digits.induct)
  case (1 base n)
  show ?case
  proof (cases "n < base")
    case True
    then show ?thesis using 1(3) by (simp add: digits_small IntToChar_value)
  next
    case False
    have "digit_value base (IntToChar ! (n mod base)) = Some (n mod base)"
      using 1(2,3) by (intro IntToChar_value) auto
    then show ?thesis using False 1 by (simp add: digits_step digits_value_append)
  qed
qed

lemma digits_no_sign:
  assumes "2 \<le> base" and "base \<le> 16" and "c \<in> set (map ((!) IntToChar) (digits base n))"
  shows "c \<noteq> CHR ''+'' \<and> c \<noteq> CHR ''-''"
proof -
  obtain d where "d < base" "c = IntToChar ! d" using assms digits_bound by auto
  then have "digit_value base c = Some d" using assms IntToChar_value by auto
  moreover have "digit_value base CHR ''+'' = None" "digit_value base CHR ''-'' = None" using assms(2) by (simp_all add: digit_value_def)
  ultimately show ?thesis by auto
qed

lemma Parse_digits:
  fixes t :: "'a::len word"
  assumes "2 \<le> base" and "base \<le> 16" and "256 \<le> (2 :: nat) ^ LENGTH('a)"
  shows "Parse_unsigned base (map ((!) IntToChar) (rev (digits base (unat t)))) = Ret t"
proof -
  let ?s = "map ((!) IntToChar) (rev (digits base (unat t)))"
  have ne: "?s \<noteq> []" by simp
  then have "hd ?s \<in> set (map ((!) IntToChar) (digits base (unat t)))" by (metis hd_in_set rev_map set_rev)
  then have "hd ?s \<noteq> CHR ''+''" using digits_no_sign [OF assms(1,2)] by blast
  then show ?thesis using ne digits_value_digits [OF assms(1,2), of "unat t"]
    by (simp add: Parse_unsigned_spec [OF assms] Let_def unsigned_less)
qed

lemma sint_negative: "sint t < 0 \<longleftrightarrow> 2 ^ (LENGTH('a) - 1) \<le> unat (t :: 'a::len word)"
proof -
  obtain n where n: "LENGTH('a) = Suc n" by (metis len_not_eq_0 not0_implies_Suc)
  have "unat t < 2 * 2 ^ n" using unsigned_less [of t, where ?'a = nat] n by simp
  then have q: "unat t div 2 ^ n < 2" by (simp add: less_mult_imp_div_less mult.commute)
  have "sint t < 0 \<longleftrightarrow> bit t n" using bit_last_iff [of t] n by simp
  also have "\<dots> \<longleftrightarrow> odd (unat t div 2 ^ n)" by (simp add: bit_unsigned_iff flip: bit_iff_odd)
  also have "\<dots> \<longleftrightarrow> unat t div 2 ^ n \<noteq> 0" using q by (cases "unat t div 2 ^ n") auto
  also have "\<dots> \<longleftrightarrow> 2 ^ n \<le> unat t" by (simp add: div_eq_0_iff not_less)
  finally show ?thesis using n by simp
qed

lemma unat_abs_Max: "unat (abs_Max :: 'a::len word) = 2 ^ (LENGTH('a) - 1) - 1" if "2 < (2 :: nat) ^ LENGTH('a)"
proof -
  obtain n where n: "LENGTH('a) = Suc n" by (metis len_not_eq_0 not0_implies_Suc)
  have "unat (2 :: 'a word) = 2" using unat_base [of 2, where 'a = 'a] that by simp
  then have "unat (abs_Max :: 'a word) = (2 ^ LENGTH('a) - 1) div 2" by (simp only: abs_Max_def unat_div unat_max)
  also have "\<dots> = 2 ^ n - 1" using n by simp
  finally show ?thesis using n by simp
qed

lemma unat_abs_Min: "unat (abs_Min :: 'a::len word) = 2 ^ (LENGTH('a) - 1)" if "2 < (2 :: nat) ^ LENGTH('a)"
proof -
  have "unat (abs_Min :: 'a word) = (2 ^ LENGTH('a) - 1) - (2 ^ (LENGTH('a) - 1) - 1)"
    by (simp add: abs_Min_def unat_sub unat_max unat_abs_Max [OF that])
  also have "\<dots> = 2 ^ (LENGTH('a) - 1)" by (cases "LENGTH('a)") auto
  finally show ?thesis .
qed

lemma unat_negated: "t \<noteq> 0 \<Longrightarrow> unat (- t) = 2 ^ LENGTH('a) - unat t" for t :: "'a::len word"
proof -
  assume "t \<noteq> 0"
  then have t: "0 < unat t" "unat t < 2 ^ LENGTH('a)" by (auto simp: unsigned_less unat_gt_0)
  have "unat (- 1 - t) = 2 ^ LENGTH('a) - 1 - unat t" by (simp add: unat_sub unat_max)
  then have "unat (- 1 - t + 1) = (2 ^ LENGTH('a) - 1 - unat t + 1) mod 2 ^ LENGTH('a)" by (simp only: unat_word_ariths(1) unsigned_1)
  also have "2 ^ LENGTH('a) - 1 - unat t + 1 = 2 ^ LENGTH('a) - unat t" using t by linarith
  also have "\<dots> mod 2 ^ LENGTH('a) = 2 ^ LENGTH('a) - unat t" using t by simp
  finally show ?thesis by simp
qed

lemma Format_signed_spec:
  fixes t :: "'a::len word"
  assumes "2 \<le> base" and "base \<le> 16" and "256 \<le> (2 :: nat) ^ LENGTH('a)" and f: "Format_signed base t len = Ret s"
  shows "length s \<le> len \<and> Parse_signed base s = Ret t"
proof -
  have b: "16 < (2 :: nat) ^ LENGTH('a)" "2 < (2 :: nat) ^ LENGTH('a)" using assms(3) by linarith+
  note fu = Format_unsigned_spec [OF assms(1,2) b(1)] and p = Parse_digits [OF assms(1-3)]
  show ?thesis
  proof (cases "sint t < 0")
    case True
    let ?s = "map ((!) IntToChar) (rev (digits base (unat (- t))))"
    have t: "t \<noteq> 0" "2 ^ (LENGTH('a) - 1) \<le> unat t" using True sint_negative [of t] by auto
    have "unat (- t) = 2 ^ LENGTH('a) - unat t" using t(1) by (rule unat_negated)
    also have "\<dots> \<le> 2 ^ (LENGTH('a) - 1)" using t(2) by (cases "LENGTH('a)") auto
    finally have "\<not> - t > abs_Min" by (simp add: word_less_nat_alt unat_abs_Min [OF b(2)])
    moreover have "s = CHR ''-'' # ?s" "length ?s \<le> len - 1" "2 \<le> len"
      using f True fu [of "- t" "len - 1"] by (auto simp: Format_signed_def obind_iffs split: if_splits)
    ultimately show ?thesis using p [of "- t"] by (auto simp: Parse_signed_def)
  next
    case False
    let ?s = "map ((!) IntToChar) (rev (digits base (unat t)))"
    have s: "s = ?s" "length ?s \<le> len" using f False fu [of t len] by (auto simp: Format_signed_def split: if_splits)
    have "\<not> t > abs_Max" using False sint_negative [of t] by (simp add: word_less_nat_alt unat_abs_Max [OF b(2)])
    moreover have "hd ?s \<noteq> CHR ''-''"
      using digits_no_sign [OF assms(1,2), of "hd ?s" "unat t"] hd_in_set [of ?s] by auto
    ultimately show ?thesis using s p [of t] by (cases s) (auto simp: Parse_signed_def)
  qed
qed

section \<open>Properties\<close>

text \<open>
  The parser of unsigned integers accepts exactly the non-empty digit strings of its base (an
  optional plus sign first) whose value fits the type, and returns that value; everything else, a
  number too large by one included, throws. It never returns a wrapped value.
\<close>

theorem parse_unsigned_exact:
  assumes "2 \<le> base" and "base \<le> 16" and "256 \<le> (2 :: nat) ^ LENGTH('a::len)"
  shows "Parse_unsigned base s = Ret (t :: 'a word) \<longleftrightarrow>
    (\<exists>ds. (s = ds \<or> s = CHR ''+'' # ds) \<and> ds \<noteq> [] \<and> digits_value base 0 ds = Some (unat t))"
proof -
  have plus: "digits_value base 0 (CHR ''+'' # ds) = None" for ds using assms(2) by (simp add: digit_value_def)
  have fit: "v < 2 ^ LENGTH('a) \<and> of_nat v = t \<longleftrightarrow> v = unat t" for v
    using unat_base [of v, where 'a = 'a] by (auto simp: unsigned_less)
  have plain: "ds \<noteq> [] \<Longrightarrow> hd ds \<noteq> CHR ''+'' \<Longrightarrow> Parse_unsigned base ds = Ret t \<longleftrightarrow> digits_value base 0 ds = Some (unat t)"
    and signed: "ds \<noteq> [] \<Longrightarrow> Parse_unsigned base (CHR ''+'' # ds) = Ret t \<longleftrightarrow> digits_value base 0 ds = Some (unat t)" for ds
    using fit by (auto simp: Parse_unsigned_spec [OF assms] simp del: digits_value.simps split: option.splits)
  have none: "Parse_unsigned base [] \<noteq> Ret t" "Parse_unsigned base [CHR ''+''] \<noteq> Ret t" by (simp_all add: Parse_unsigned_def)
  show ?thesis
  proof (cases "s \<noteq> [] \<and> hd s = CHR ''+''")
    case True
    then obtain ds where "s = CHR ''+'' # ds" by (cases s) auto
    then show ?thesis using plus signed [of ds] none by (cases "ds = []") auto
  next
    case False
    then show ?thesis using plain [of s] none by (cases s) auto
  qed
qed

theorem parse_unsigned_exact_witness:
  "Parse_unsigned 10 ''255'' = Ret (255 :: 8 word) \<and> Parse_unsigned 10 ''256'' \<noteq> Ret (0 :: 8 word)"
proof -
  have v: "digits_value 10 0 ''255'' = Some 255" "digits_value 10 0 ''256'' = Some 256" by code_simp+
  show ?thesis using parse_unsigned_exact [of 10 "''255''" "255 :: 8 word"] parse_unsigned_exact [of 10 "''256''" "0 :: 8 word"] v
    by (auto simp del: digits_value.simps)
qed

text \<open>
  Round trip of integers: in every base from 2 to 16 and for every width, what the printer writes for
  a signed or unsigned number (whenever the buffer is long enough, otherwise it throws) the parser
  reads back as the same number, the least negative one included.
\<close>

theorem integer_round_trip:
  fixes t :: "'a::len word"
  assumes "2 \<le> base" and "base \<le> 16" and "256 \<le> (2 :: nat) ^ LENGTH('a)"
  shows "(case Format_unsigned base t len of Ret s \<Rightarrow> length s \<le> len \<and> Parse_unsigned base s = Ret t
      | r \<Rightarrow> r = Throw Yexception \<and> len < length (digits base (unat t)))
    \<and> (case Format_signed base t len of Ret s \<Rightarrow> length s \<le> len \<and> Parse_signed base s = Ret t
      | r \<Rightarrow> r = Throw Yexception)"
proof -
  have b: "16 < (2 :: nat) ^ LENGTH('a)" using assms(3) by linarith
  note f = Format_unsigned_spec [OF assms(1,2) b] and p = Parse_digits [OF assms]
  have u: "case Format_unsigned base t len of Ret s \<Rightarrow> length s \<le> len \<and> Parse_unsigned base s = Ret t
      | r \<Rightarrow> r = Throw Yexception \<and> len < length (digits base (unat t))"
    using f [of t len] p [of t] by (auto split: outcome.splits if_splits)
  have s: "case Format_signed base t len of Ret s \<Rightarrow> length s \<le> len \<and> Parse_signed base s = Ret t
      | r \<Rightarrow> r = Throw Yexception"
  proof (cases "Format_signed base t len")
    case (Ret s)
    then show ?thesis using Format_signed_spec [OF assms Ret] by simp
  qed (auto simp: Format_signed_def f obind_iffs split: if_splits)
  show ?thesis using u s by blast
qed

theorem integer_round_trip_witness:
  "Format_unsigned 16 (255 :: 8 word) 2 = Ret ''FF'' \<and> Parse_unsigned 16 ''FF'' = Ret (255 :: 8 word)
   \<and> Format_signed 10 (- 128 :: 8 word) 4 = Ret ''-128'' \<and> Parse_signed 10 ''-128'' = Ret (- 128 :: 8 word)"
proof -
  have f: "Format_unsigned 16 (255 :: 8 word) 2 = Ret ''FF''" by code_simp
  have g: "Format_signed 10 (- 128 :: 8 word) 4 = Ret ''-128''" by code_simp
  show ?thesis
    using integer_round_trip [where base = 16 and t = "255 :: 8 word" and len = 2]
      integer_round_trip [where base = 10 and t = "- 128 :: 8 word" and len = 4] f g by simp
qed

lemma schar_char_of: "k < 128 \<Longrightarrow> schar (char_of k) = int k"
  by (simp add: schar_cases)

lemma hex_digit: "d < 16 \<Longrightarrow> Char2Digit (DigitToChar d) = int d"
proof -
  assume d: "d < 16"
  have c: "schar CHR ''0'' = 48" "schar CHR ''9'' = 57" "schar CHR ''A'' = 65" "schar CHR ''F'' = 70"
    by (simp_all add: schar_def)
  show ?thesis
  proof (cases "d < 10")
    case True
    then have "schar (DigitToChar d) = int d + 48" using schar_char_of [of "d + 48"] by (simp add: DigitToChar_def)
    then show ?thesis using True by (simp add: Char2Digit_def c)
  next
    case False
    then have "schar (DigitToChar d) = int d + 55" using d schar_char_of [of "d - 10 + 65"] by (simp add: DigitToChar_def)
    then show ?thesis using d False by (simp add: Char2Digit_def c)
  qed
qed

lemma hex_byte: "n < 256 \<Longrightarrow> Stroka2Byte (DigitToChar (n div 16)) (DigitToChar (n mod 16)) = int n"
  by (simp add: Stroka2Byte_def hex_digit zdiv_int zmod_int)

text \<open>
  Round trip of bytes: \<open>HexDecode\<close> inverts \<open>HexEncode\<close> for every byte string, and the code is twice as
  long as the string.
\<close>

theorem hex_round_trip: "HexDecode (HexEncode s) = Ret s \<and> length (HexEncode s) = 2 * length s"
proof (induction s)
    case (Cons c s)
    obtain n where n: "n = (of_char c :: nat)" "n < 256" using of_char_bound by blast
    have c: "char_of n = c" by (simp add: n(1))
    have "HexEncode (c # s) = DigitToChar (n div 16) # DigitToChar (n mod 16) # HexEncode s" by (simp only: HexEncode.simps n(1))
    moreover have "nat (int n mod 256) = n" using n(2) by simp
    ultimately show ?case using Cons hex_byte [OF n(2)] c by simp
qed simp

end
