(* ===== verification/Httpcoding.thy ===== *)
theory Httpcoding
  imports Http Numcast
begin

text \<open>
  Transfer encodings: the encoder of the http module (web/httpd/modules/http/encoder.h), which parses
  the response a module sends, adds headers and encodes the body, and the decoder of the proxy module
  (\<open>TChunkedTransfer\<close> in web/httpd/modules/proxy/module.cpp), which reads a chunked body from a backend.

  A loop of the decoder reads until it sees a line end; a stream that never has one keeps it reading, so
  the loops are partial functions with the value \<open>None\<close> for a call that does not return. Where the decoder
  is used as an input, whose type has no such value, this is \<open>Crash\<close>; the properties show that neither
  happens.

  Encoder and decoder are inverse to each other: what the encoder sends is a sequence of chunks that
  spell the body (\<open>chunk_stream\<close>), and the decoder returns the body for every such sequence.
\<close>

section \<open>The encoder\<close>

datatype transfer = IdentityTransfer | ChunkedTransfer

text \<open>\<open>WriteChunk(lst)\<close> of the list \<open>this\<close>: the list it moves is left empty.\<close>

definition WriteChunk :: "chunks \<Rightarrow> chunks \<Rightarrow> chunks outcome" where
  "WriteChunk lst this =
     obind (Format_unsigned 16 (of_nat (FullLength lst) :: ui64) 16) (\<lambda>buf.
       Ret (Push CRLF (snd (MoveTo lst (Push CRLF (Push buf this))))))"

fun OnDataPart :: "transfer \<Rightarrow> chunks \<Rightarrow> chunks \<Rightarrow> chunks outcome" where
  "OnDataPart IdentityTransfer part this = Ret (snd (MoveTo part this))"
| "OnDataPart ChunkedTransfer part this = WriteChunk part this"

fun OnFinish :: "transfer \<Rightarrow> chunks \<Rightarrow> chunks outcome" where
  "OnFinish IdentityTransfer this = Ret this"
| "OnFinish ChunkedTransfer this = WriteChunk [] this"

text \<open>\<open>THttpEncoder\<close>: the list it is, its parser, \<open>CustomHeaders_\<close> (\<open>None\<close> is null) and the slave.\<close>

record 'o encoder =
  en_this :: chunks
  en_parser :: parser
  en_Custom :: "chunks option"
  en_S :: 'o

definition encoder_new :: "'o \<Rightarrow> chunks \<Rightarrow> 'o encoder" where
  "encoder_new slave customHeaders =
     \<lparr>en_this = [], en_parser = push_parse_new, en_Custom = Some customHeaders, en_S = slave\<rparr>"

definition encoder_Flush :: "'o send \<Rightarrow> 'o encoder \<Rightarrow> unit outcome \<times> 'o encoder" where
  "encoder_Flush send st =
     (if en_this st = [] then (Ret (), st)
      else (case send (en_this st) (en_S st) of
              (Ret _, o') \<Rightarrow> (Ret (), st\<lparr>en_this := [], en_S := o'\<rparr>)
            | (r, o') \<Rightarrow> (r, st\<lparr>en_S := o'\<rparr>)))"

text \<open>A data part goes to the list, then the list to the slave.\<close>

definition encoder_part :: "transfer \<Rightarrow> 'o send \<Rightarrow> chunks \<Rightarrow> 'o encoder \<Rightarrow> unit outcome \<times> 'o encoder" where
  "encoder_part tr send part st =
     (case OnDataPart tr part (en_this st) of
        Ret l \<Rightarrow> encoder_Flush send (st\<lparr>en_this := l\<rparr>)
      | Throw e \<Rightarrow> (Throw e, st)
      | Crash \<Rightarrow> (Crash, st))"

definition encoder_Send :: "transfer \<Rightarrow> 'o send \<Rightarrow> 'o encoder send" where
  "encoder_Send tr send lst st =
     (case en_Custom st of
        None \<Rightarrow> encoder_part tr send lst st
      | Some custom \<Rightarrow>
          (case push_ParseChunk lst (en_parser st) of
             (Ret True, lst', ps) \<Rightarrow>
               (let (this, _) = BuildTo_custom (p_Request ps) (en_this st) (Some custom);
                    st1 = st\<lparr>en_this := this, en_parser := ps, en_Custom := None\<rparr>
                in if lst' \<noteq> [] then encoder_part tr send lst' st1 else encoder_Flush send st1)
           | (Ret False, _, ps) \<Rightarrow> encoder_Flush send (st\<lparr>en_parser := ps\<rparr>)
           | (Throw e, _, ps) \<Rightarrow> (Throw e, st\<lparr>en_parser := ps\<rparr>)
           | (Crash, _, ps) \<Rightarrow> (Crash, st\<lparr>en_parser := ps\<rparr>)))"

definition encoder_Finish :: "transfer \<Rightarrow> 'o send \<Rightarrow> 'o encoder \<Rightarrow> unit outcome \<times> 'o encoder" where
  "encoder_Finish tr send st =
     (if en_Custom st \<noteq> None then (Throw (HttpError 500), st)
      else (case OnFinish tr (en_this st) of
              Ret l \<Rightarrow> encoder_Flush send (st\<lparr>en_this := l\<rparr>)
            | Throw e \<Rightarrow> (Throw e, st)
            | Crash \<Rightarrow> (Crash, st)))"

section \<open>The decoder\<close>

record 's chunked =
  ct_it :: "'s siter"
  ct_L :: ui64

partial_function (option) SkipWS :: "'s recv \<Rightarrow> 's siter \<Rightarrow> (char outcome \<times> 's siter) option" where
  "SkipWS recv it =
     (case si_NextChar recv it of
        (Ret ch, it1) \<Rightarrow> if ch = CHR 0x0D \<or> ch = CHR 0x0A then SkipWS recv it1 else Some (Ret ch, it1)
      | (Throw e, it1) \<Rightarrow> Some (Throw e, it1)
      | (Crash, it1) \<Rightarrow> Some (Crash, it1))"

partial_function (option) length_loop :: "'s recv \<Rightarrow> ui64 \<Rightarrow> char \<Rightarrow> 's siter \<Rightarrow> (ui64 outcome \<times> 's siter) option" where
  "length_loop recv ret ch it =
     (if ch = CHR 0x0A then Some (Ret ret, it)
      else (case si_NextChar recv it of
              (Ret ch', it1) \<Rightarrow>
                length_loop recv (if ch = CHR 0x0D then ret else ret * 16 + word_of_int (Char2Digit ch)) ch' it1
            | (Throw e, it1) \<Rightarrow> Some (Throw e, it1)
            | (Crash, it1) \<Rightarrow> Some (Crash, it1)))"

definition ParseNextChunkLength :: "'s recv \<Rightarrow> 's siter \<Rightarrow> (ui64 outcome \<times> 's siter) option" where
  "ParseNextChunkLength recv it =
     (case SkipWS recv it of
        None \<Rightarrow> None
      | Some (Ret ch, it1) \<Rightarrow> length_loop recv 0 ch it1
      | Some (Throw e, it1) \<Rightarrow> Some (Throw e, it1)
      | Some (Crash, it1) \<Rightarrow> Some (Crash, it1))"

text \<open>The constructor reads the first length.\<close>

definition chunked_new :: "'s recv \<Rightarrow> 's \<Rightarrow> ('s chunked outcome \<times> 's siter) option" where
  "chunked_new recv slave =
     map_option (\<lambda>(r, it). (map_outcome_val (\<lambda>l. \<lparr>ct_it = it, ct_L = l\<rparr>) r, it)) (ParseNextChunkLength recv (siter_new slave))"

definition chunked_DoRecv :: "'s recv \<Rightarrow> 's chunked \<Rightarrow> (chunks outcome \<times> 's chunked) option" where
  "chunked_DoRecv recv st =
     (if ct_L st = 0 then Some (Ret [], st)
      else case si_NextLen recv (unat (ct_L st)) [] (ct_it st) of
        (Ret lst, it1) \<Rightarrow>
          (let L = ct_L st - of_nat (FullLength lst); st1 = st\<lparr>ct_it := it1, ct_L := L\<rparr> in
           if L = 0 then
             (case ParseNextChunkLength recv it1 of
                None \<Rightarrow> None
              | Some (Ret l, it2) \<Rightarrow> Some (Ret lst, st1\<lparr>ct_it := it2, ct_L := l\<rparr>)
              | Some (Throw e, it2) \<Rightarrow> Some (Throw e, st1\<lparr>ct_it := it2\<rparr>)
              | Some (Crash, it2) \<Rightarrow> Some (Crash, st1\<lparr>ct_it := it2\<rparr>))
           else Some (Ret lst, st1))
      | (Throw e, it1) \<Rightarrow> Some (Throw e, st\<lparr>ct_it := it1\<rparr>)
      | (Crash, it1) \<Rightarrow> Some (Crash, st\<lparr>ct_it := it1\<rparr>))"

definition chunked_Recv :: "'s recv \<Rightarrow> 's chunked recv" where
  "chunked_Recv recv st = (case chunked_DoRecv recv st of Some r \<Rightarrow> r | None \<Rightarrow> (Crash, st))"

section \<open>Bodies in chunks\<close>

definition hexlen :: "nat \<Rightarrow> bytes" where
  "hexlen n = map ((!) IntToChar) (rev (digits 16 n))"

definition chunk_bytes :: "bytes \<Rightarrow> bytes" where
  "chunk_bytes p = hexlen (length p) @ CRLF @ p @ CRLF"

definition parts_ok :: "bytes list \<Rightarrow> bool" where
  "parts_ok parts \<longleftrightarrow> (\<forall>p \<in> set parts. p \<noteq> [] \<and> length p < 2 ^ 64)"

text \<open>
  The parts as chunks, and the last chunk, in the spelling of the encoder: lengths in upper-case hexadecimal
  digits without leading zeros, no extensions, no trailers. The decoder accepts more.
\<close>

definition chunk_stream :: "bytes list \<Rightarrow> bytes" where
  "chunk_stream parts = concat (map chunk_bytes parts) @ chunk_bytes []"

lemma chunk_stream_simps:
  "chunk_stream [] = hexlen 0 @ CRLF @ CRLF"
  "chunk_stream (p # parts) = hexlen (length p) @ CRLF @ p @ CRLF @ chunk_stream parts"
  by (simp_all add: chunk_stream_def chunk_bytes_def)

lemma hex16: "(2 :: nat) \<le> 16" "(16 :: nat) \<le> 16" "16 < (2 :: nat) ^ LENGTH(64)"
  by simp_all

lemma digits_length: "2 \<le> base \<Longrightarrow> 0 < k \<Longrightarrow> n < base ^ k \<Longrightarrow> length (digits base n) \<le> k"
proof (induction k arbitrary: n)
  case (Suc k)
  show ?case
  proof (cases "n < base")
    case True
    then show ?thesis by (simp add: digits_small)
  next
    case False
    then have "0 < k" using Suc.prems by (cases k) auto
    moreover have "n div base < base ^ k" using Suc.prems by (simp add: less_mult_imp_div_less mult.commute)
    ultimately show ?thesis using Suc.IH [of "n div base"] Suc.prems False by (simp add: digits_step)
  qed
qed simp

lemma WriteChunk_bytes:
  assumes "length (bytes_of lst) < 2 ^ 64"
  shows "\<exists>l. WriteChunk lst this = Ret l \<and> l \<noteq> [] \<and> bytes_of l = bytes_of this @ chunk_bytes (bytes_of lst)"
proof -
  have u: "unat (of_nat (FullLength lst) :: ui64) = length (bytes_of lst)"
    using assms by (simp add: FullLength_bytes unat_of_nat)
  have "(16 :: nat) ^ 16 = 2 ^ 64" by simp
  then have "length (digits 16 (length (bytes_of lst))) \<le> 16" using assms digits_length [of 16 16 "length (bytes_of lst)"] by linarith
  then have "Format_unsigned 16 (of_nat (FullLength lst) :: ui64) 16 = Ret (hexlen (length (bytes_of lst)))"
    by (simp add: Format_unsigned_spec [OF hex16] u hexlen_def)
  then show ?thesis by (simp add: WriteChunk_def Push_def MoveTo_def chunk_bytes_def)
qed

section \<open>Decoding\<close>

lemma hex_char: "d < 16 \<Longrightarrow> Char2Digit (IntToChar ! d) = int d \<and> IntToChar ! d \<noteq> CHR 0x0D \<and> IntToChar ! d \<noteq> CHR 0x0A"
proof -
  have "list_all (\<lambda>d. Char2Digit (IntToChar ! d) = int d \<and> IntToChar ! d \<noteq> CHR 0x0D \<and> IntToChar ! d \<noteq> CHR 0x0A) [0..<16]"
    by code_simp
  then show "d < 16 \<Longrightarrow> ?thesis" by (simp add: list_all_iff)
qed

lemma foldl_digits: "foldl (\<lambda>r d. r * 16 + of_nat d) 0 (rev (digits 16 n)) = (of_nat n :: ui64)"
proof (induction "16 :: nat" n rule: digits.induct)
  case (1 n)
  show ?case
  proof (cases "n < 16")
    case False
    have "of_nat (n div 16) * 16 + of_nat (n mod 16) = (of_nat n :: ui64)"
      by (metis div_mult_mod_eq of_nat_add of_nat_mult of_nat_numeral)
    then show ?thesis using 1 False by (simp add: digits_step)
  qed (simp add: digits_small)
qed

context io_input_nonempty
begin

lemma NextChar_spec:
  assumes "siter_inv inv it" and "siter_content content it = c # cs"
  shows "\<exists>it'. si_NextChar recv it = (Ret c, it') \<and> siter_inv inv it' \<and> siter_content content it' = cs"
  using NextCh_spec [OF assms(1)] assms(2) by (auto simp: si_NextChar_def)

lemma SkipWS_spec:
  assumes "siter_inv inv it" and "siter_content content it = ws @ c # cs" and "set ws \<subseteq> {CHR 0x0D, CHR 0x0A}"
    and "c \<noteq> CHR 0x0D" and "c \<noteq> CHR 0x0A"
  shows "\<exists>it'. SkipWS recv it = Some (Ret c, it') \<and> siter_inv inv it' \<and> siter_content content it' = cs"
  using assms
proof (induction ws arbitrary: it)
  case Nil
  then show ?case using NextChar_spec [of it c cs] by (subst SkipWS.simps) auto
next
  case (Cons w ws)
  obtain it1 where i: "si_NextChar recv it = (Ret w, it1)" "siter_inv inv it1" "siter_content content it1 = ws @ c # cs"
    using NextChar_spec [OF Cons.prems(1), of w "ws @ c # cs"] Cons.prems(2) by auto
  have "SkipWS recv it = SkipWS recv it1" using i(1) Cons.prems(3) by (subst SkipWS.simps) auto
  then show ?case using Cons.IH [OF i(2,3)] Cons.prems by simp
qed

lemma length_loop_spec:
  assumes "siter_inv inv it" and "set ds \<subseteq> {..<16}" and "d < 16"
    and "siter_content content it = map ((!) IntToChar) ds @ CRLF @ cs"
  shows "\<exists>it'. length_loop recv r (IntToChar ! d) it = Some (Ret (foldl (\<lambda>r d. r * 16 + of_nat d) r (d # ds)), it')
    \<and> siter_inv inv it' \<and> siter_content content it' = cs"
  using assms
proof (induction ds arbitrary: it d r)
  case Nil
  obtain it1 where i1: "si_NextChar recv it = (Ret CHR 0x0D, it1)" "siter_inv inv it1" "siter_content content it1 = CHR 0x0A # cs"
    using NextChar_spec [OF Nil.prems(1)] Nil.prems(4) by (auto simp: CRLF_def)
  obtain it2 where i2: "si_NextChar recv it1 = (Ret CHR 0x0A, it2)" "siter_inv inv it2" "siter_content content it2 = cs"
    using NextChar_spec [OF i1(2,3)] by auto
  have a: "length_loop recv r (IntToChar ! d) it = length_loop recv (r * 16 + of_nat d) (CHR 0x0D) it1"
    using i1(1) hex_char [OF Nil.prems(3)] by (subst length_loop.simps) simp
  have b: "length_loop recv q (CHR 0x0D) it1 = length_loop recv q (CHR 0x0A) it2" for q
    using i2(1) by (subst length_loop.simps) simp
  have "length_loop recv q (CHR 0x0A) it2 = Some (Ret q, it2)" for q by (subst length_loop.simps) simp
  then show ?case using a b i2(2,3) by simp
next
  case (Cons e ds)
  obtain it1 where i1: "si_NextChar recv it = (Ret (IntToChar ! e), it1)" "siter_inv inv it1"
      "siter_content content it1 = map ((!) IntToChar) ds @ CRLF @ cs"
    using NextChar_spec [OF Cons.prems(1)] Cons.prems(4) by auto
  have a: "length_loop recv r (IntToChar ! d) it = length_loop recv (r * 16 + of_nat d) (IntToChar ! e) it1"
    using i1(1) hex_char [OF Cons.prems(3)] by (subst length_loop.simps) simp
  show ?case using Cons.IH [OF i1(2) _ _ i1(3), of e "r * 16 + of_nat d"] Cons.prems(2) a by simp
qed

lemma ParseLength_spec:
  assumes "siter_inv inv it" and "set ws \<subseteq> {CHR 0x0D, CHR 0x0A}" and "siter_content content it = ws @ hexlen n @ CRLF @ cs"
  shows "\<exists>it'. ParseNextChunkLength recv it = Some (Ret (of_nat n), it') \<and> siter_inv inv it' \<and> siter_content content it' = cs"
proof -
  obtain d ds where d: "rev (digits 16 n) = d # ds" by (cases "rev (digits 16 n)") auto
  have "set (digits 16 n) = insert d (set ds)" using d by (metis list.set(2) set_rev)
  then have lt: "d < 16" "set ds \<subseteq> {..<16}" using digits_bound [of 16 _ n] by auto
  have cc: "siter_content content it = ws @ IntToChar ! d # (map ((!) IntToChar) ds @ CRLF @ cs)"
    using assms(3) d by (simp add: hexlen_def)
  obtain it1 where i: "SkipWS recv it = Some (Ret (IntToChar ! d), it1)" "siter_inv inv it1"
      "siter_content content it1 = map ((!) IntToChar) ds @ CRLF @ cs"
    using SkipWS_spec [OF assms(1) cc assms(2)] hex_char [OF lt(1)] by blast
  show ?thesis
    using length_loop_spec [OF i(2) lt(2,1) i(3), of 0] i(1) foldl_digits [of n] d by (auto simp: ParseNextChunkLength_def)
qed

text \<open>What a decoder still has to deliver.\<close>

definition spells :: "'a chunked \<Rightarrow> bytes \<Rightarrow> bool" where
  "spells st body \<longleftrightarrow> siter_inv inv (ct_it st) \<and>
     (ct_L st = 0 \<and> body = [] \<or>
      (\<exists>p parts rest. parts_ok (p # parts) \<and> ct_L st = of_nat (length p) \<and> body = p @ concat parts
         \<and> siter_content content (ct_it st) = p @ CRLF @ chunk_stream parts @ rest))"

lemma spells_data:
  assumes "siter_inv inv (ct_it st)" and "parts_ok (p # parts)" and "ct_L st = of_nat (length p)"
    and "siter_content content (ct_it st) = p @ CRLF @ chunk_stream parts @ rest"
  shows "spells st (p @ concat parts)"
  unfolding spells_def using assms by blast

lemma length_then_spells:
  assumes "siter_inv inv it" and "parts_ok parts" and "set ws \<subseteq> {CHR 0x0D, CHR 0x0A}"
    and "siter_content content it = ws @ chunk_stream parts @ rest"
  shows "\<exists>it' l. ParseNextChunkLength recv it = Some (Ret l, it') \<and> (\<forall>st. spells (st\<lparr>ct_it := it', ct_L := l\<rparr>) (concat parts))"
proof (cases parts)
  case Nil
  then show ?thesis using ParseLength_spec [OF assms(1,3), of 0 "CRLF @ rest"] assms(4)
    by (auto simp: chunk_stream_simps spells_def)
next
  case (Cons p ps)
  then obtain it' where i: "ParseNextChunkLength recv it = Some (Ret (of_nat (length p)), it')" "siter_inv inv it'"
      "siter_content content it' = p @ CRLF @ chunk_stream ps @ rest"
    using ParseLength_spec [OF assms(1,3), of "length p" "p @ CRLF @ chunk_stream ps @ rest"] assms(4)
    by (auto simp: chunk_stream_simps)
  then show ?thesis using spells_data [of _ p ps rest] assms(2) Cons by simp
qed

lemma of_nat_small: "n < 2 ^ 64 \<Longrightarrow> unat (of_nat n :: ui64) = n"
  by (simp add: unat_of_nat)

lemma chunked_step:
  assumes "spells st body"
  shows "\<exists>l st' body'. chunked_Recv recv st = (Ret l, st') \<and> spells st' body' \<and> body = bytes_of l @ body'
    \<and> (if body = [] then l = [] else bytes_of l \<noteq> [])"
proof (cases "ct_L st = 0 \<and> body = []")
  case True
  then show ?thesis using assms by (auto simp: chunked_Recv_def chunked_DoRecv_def)
next
  case False
  then obtain p parts rest where p: "parts_ok (p # parts)" "ct_L st = of_nat (length p)" "body = p @ concat parts"
      "siter_content content (ct_it st) = p @ CRLF @ chunk_stream parts @ rest" "siter_inv inv (ct_it st)"
    using assms by (auto simp: spells_def)
  have ok: "p \<noteq> []" "length p < 2 ^ 64" "parts_ok parts" using p(1) by (auto simp: parts_ok_def)
  have L: "unat (ct_L st) = length p" using p(2) ok(2) of_nat_small by simp
  then have L0: "ct_L st \<noteq> 0" using ok(1) by auto
  obtain l it1 where n: "si_NextLen recv (length p) [] (ct_it st) = (Ret l, it1)" "siter_inv inv it1"
      "siter_content content (ct_it st) = bytes_of l @ siter_content content it1" "length (bytes_of l) \<le> length p"
      "bytes_of l \<noteq> []"
    using NextLen_spec [OF p(5), of "length p"] p(4) ok(1) by auto
  have l: "bytes_of l = take (length (bytes_of l)) p"
    "siter_content content it1 = drop (length (bytes_of l)) p @ CRLF @ chunk_stream parts @ rest"
    using n(3,4) p(4) by (metis append_eq_append_conv_if append_take_drop_id take_append diff_is_0_eq take0 append_Nil2,
        metis n(3,4) p(4) append_eq_conv_conj drop_append diff_is_0_eq drop0)
  let ?L = "ct_L st - of_nat (FullLength l)"
  have Leq: "?L = of_nat (length (drop (length (bytes_of l)) p))"
    using p(2) n(4) by (simp add: FullLength_bytes of_nat_diff)
  show ?thesis
  proof (cases "length (bytes_of l) = length p")
    case True
    then have full: "bytes_of l = p" "siter_content content it1 = CRLF @ chunk_stream parts @ rest" using l by auto
    obtain it2 L2 where i2: "ParseNextChunkLength recv it1 = Some (Ret L2, it2)"
        "\<And>st. spells (st\<lparr>ct_it := it2, ct_L := L2\<rparr>) (concat parts)"
      using length_then_spells [OF n(2) ok(3) _ full(2)] by (auto simp: CRLF_def)
    have "chunked_Recv recv st = (Ret l, st\<lparr>ct_it := it2, ct_L := L2\<rparr>)"
      using L0 L n(1) i2(1) Leq True by (simp add: chunked_Recv_def chunked_DoRecv_def Let_def)
    then show ?thesis using i2(2) [of st] p(3) full(1) n(5) by auto
  next
    case f: False
    let ?p = "drop (length (bytes_of l)) p"
    have q: "?p \<noteq> []" "length ?p < 2 ^ 64" using f n(4) ok(2) by auto
    then have "?L \<noteq> 0" using Leq of_nat_small [of "length ?p"] by (metis length_0_conv unat_0)
    then have "chunked_Recv recv st = (Ret l, st\<lparr>ct_it := it1, ct_L := ?L\<rparr>)"
      using L0 L n(1) by (simp add: chunked_Recv_def chunked_DoRecv_def Let_def)
    moreover have "spells (st\<lparr>ct_it := it1, ct_L := ?L\<rparr>) (?p @ concat parts)"
      using n(2) Leq l(2) q ok(3) by (intro spells_data [of _ _ _ rest]) (auto simp: parts_ok_def)
    moreover have "body = bytes_of l @ ?p @ concat parts" using p(3) l(1) by (metis append_assoc append_take_drop_id)
    ultimately show ?thesis using n(5) ok(1) p(3) by (intro exI conjI) auto
  qed
qed

lemma chunked_ReadAll:
  assumes "spells st body"
  shows "\<exists>l st'. ReadAll (chunked_Recv recv) lst st = Some (Ret l, st') \<and> bytes_of l = bytes_of lst @ body"
  using assms
proof (induction "length body" arbitrary: body st lst rule: less_induct)
  case less
  obtain l st' body' where r: "chunked_Recv recv st = (Ret l, st')" "spells st' body'" "body = bytes_of l @ body'"
      "if body = [] then l = [] else bytes_of l \<noteq> []"
    using chunked_step [OF less.prems] by blast
  show ?case
  proof (cases "body = []")
    case True
    then have "chunked_Recv recv st = (Ret [], st')" using r(1,4) by simp
    then show ?thesis using True by (subst ReadAll.simps) simp
  next
    case False
    then have bl: "bytes_of l \<noteq> []" using r(4) by simp
    then have lt: "length body' < length body" by (simp add: r(3))
    have "l \<noteq> []" using bl by auto
    then have "ReadAll (chunked_Recv recv) lst st = ReadAll (chunked_Recv recv) (lst @ l) st'"
      using r(1) by (subst ReadAll.simps) (simp add: MoveTo_def)
    moreover obtain l' st'' where "ReadAll (chunked_Recv recv) (lst @ l) st' = Some (Ret l', st'')"
        "bytes_of l' = bytes_of (lst @ l) @ body'"
      using less.hyps [OF lt r(2), of "lst @ l"] by blast
    ultimately show ?thesis using r(3) by simp
  qed
qed

end

context io_input_nonempty
begin

lemma NextLen_end: "siter_inv inv it \<Longrightarrow> siter_content content it = [] \<Longrightarrow> \<exists>it'. si_NextLen recv len [] it = (Ret [], it')"
  using Peek_spec [of it] by (auto simp: si_NextLen_def)

lemma chunked_truncated_ReadAll:
  assumes "siter_inv inv (ct_it st)" and "length (siter_content content (ct_it st)) < unat (ct_L st)"
  shows "\<exists>l st'. ReadAll (chunked_Recv recv) lst st = Some (Ret l, st') \<and> bytes_of l = bytes_of lst @ siter_content content (ct_it st)"
  using assms
proof (induction "length (siter_content content (ct_it st))" arbitrary: st lst rule: less_induct)
  case less
  have L0: "ct_L st \<noteq> 0" using less.prems(2) by auto
  obtain l it1 where n: "si_NextLen recv (unat (ct_L st)) [] (ct_it st) = (Ret l, it1)" "siter_inv inv it1"
      "siter_content content (ct_it st) = bytes_of l @ siter_content content it1"
      "bytes_of l = [] \<longrightarrow> siter_content content (ct_it st) = []"
    using NextLen_spec [OF less.prems(1), of "unat (ct_L st)"] less.prems(2) by auto
  let ?L = "ct_L st - of_nat (FullLength l)"
  let ?st = "st\<lparr>ct_it := it1, ct_L := ?L\<rparr>"
  have le: "length (bytes_of l) < unat (ct_L st)" using n(3) less.prems(2) by simp
  then have u: "unat (of_nat (FullLength l) :: ui64) = length (bytes_of l)"
    by (intro trans [OF of_nat_small]) (auto simp: FullLength_bytes intro: less_trans [OF _ unsigned_less [of "ct_L st", where ?'a = nat, simplified]])
  then have uL: "unat ?L = unat (ct_L st) - length (bytes_of l)" using le by (simp add: unat_sub word_le_nat_alt)
  then have L1: "?L \<noteq> 0" using le by (metis unat_0 zero_less_diff less_numeral_extra(3))
  then have r: "chunked_Recv recv st = (Ret l, ?st)" using L0 n(1) by (simp add: chunked_Recv_def chunked_DoRecv_def Let_def)
  show ?case
  proof (cases "l = []")
    case True
    then show ?thesis using r n(4) by (subst ReadAll.simps) simp
  next
    case False
    show ?thesis
    proof (cases "bytes_of l = []")
      case True
      then have "siter_content content (ct_it st) = []" using n(4) by blast
      then have "l = []" using NextLen_end [OF less.prems(1), of "unat (ct_L st)"] n(1) by auto
      then show ?thesis using False by blast
    next
      case nb: False
      have lt: "length (siter_content content it1) < length (siter_content content (ct_it st))" using n(3) nb by simp
      have "ReadAll (chunked_Recv recv) lst st = ReadAll (chunked_Recv recv) (lst @ l) ?st"
        using r False by (subst ReadAll.simps) (simp add: MoveTo_def)
      moreover have "length (siter_content content (ct_it ?st)) < unat (ct_L ?st)" using uL le n(3) less.prems(2) by simp
      ultimately show ?thesis using less.hyps [of ?st "lst @ l"] lt n(2,3) by simp
    qed
  qed
qed

end

section \<open>Encoding\<close>

text \<open>The contract of an output: it takes every list and keeps the bytes in order.\<close>

locale io_output =
  fixes send :: "'o send" and sent :: "'o \<Rightarrow> bytes"
  assumes send_ok: "\<exists>o'. send l ou = (Ret (), o') \<and> sent o' = sent ou @ bytes_of l"

text \<open>\<open>TStd\<close>, with the bytes written so far as its state, and \<open>TCountOutput\<close> on top of an output.\<close>

definition std_Send :: "bytes send" where
  "std_Send lst ou = (Ret (), ou @ bytes_of lst)"

interpretation std: io_output std_Send "\<lambda>b. b"
  by unfold_locales (simp add: std_Send_def)

lemma count_io_output:
  assumes "io_output send sent"
  shows "io_output (count_Send send) (\<lambda>st. sent (co_Slave st))"
proof
  fix l and ou :: "'a counted"
  obtain o' where "send l (co_Slave ou) = (Ret (), o')" "sent o' = sent (co_Slave ou) @ bytes_of l"
    using io_output.send_ok [OF assms] by blast
  then show "\<exists>o'. count_Send send l ou = (Ret (), o') \<and> sent (co_Slave o') = sent (co_Slave ou) @ bytes_of l"
    by (simp add: count_Send_def)
qed

interpretation counted_std: io_output "count_Send std_Send" co_Slave
  by (rule count_io_output) unfold_locales

text \<open>The lists a module sends, and \<open>Finish\<close>; the first exception ends the run.\<close>

fun encoder_run :: "transfer \<Rightarrow> 'o send \<Rightarrow> chunks list \<Rightarrow> 'o encoder \<Rightarrow> unit outcome \<times> 'o encoder" where
  "encoder_run tr send [] st = encoder_Finish tr send st"
| "encoder_run tr send (l # ls) st =
     (case encoder_Send tr send l st of (Ret _, st') \<Rightarrow> encoder_run tr send ls st' | r \<Rightarrow> r)"

definition list_ok :: "chunks \<Rightarrow> bool" where
  "list_ok l \<longleftrightarrow> l \<noteq> [] \<and> [] \<notin> set l \<and> length (bytes_of l) < 2 ^ 64"

fun body_stream :: "transfer \<Rightarrow> bytes list \<Rightarrow> bytes" where
  "body_stream IdentityTransfer parts = concat parts"
| "body_stream ChunkedTransfer parts = chunk_stream parts"

fun part_bytes :: "transfer \<Rightarrow> bytes \<Rightarrow> bytes" where
  "part_bytes IdentityTransfer p = p"
| "part_bytes ChunkedTransfer p = chunk_bytes p"

lemma body_stream_Cons: "body_stream tr (p # parts) = part_bytes tr p @ body_stream tr parts"
  by (cases tr) (simp_all add: chunk_stream_def)

lemma list_ok_bytes: "list_ok l \<Longrightarrow> bytes_of l \<noteq> []"
  by (simp add: list_ok_def bytes_of_Nil_iff)

lemma OnDataPart_bytes:
  "length (bytes_of l) < 2 ^ 64 \<Longrightarrow> \<exists>l'. OnDataPart tr l this = Ret l' \<and> bytes_of l' = bytes_of this @ part_bytes tr (bytes_of l)"
  using WriteChunk_bytes [of l this] by (cases tr) (auto simp: MoveTo_def)

lemma OnFinish_bytes: "\<exists>l'. OnFinish tr this = Ret l' \<and> bytes_of l' = bytes_of this @ body_stream tr []"
  using WriteChunk_bytes [of "[]" this] by (cases tr) (auto simp: chunk_stream_def)

lemma byte_run_rest: "byte_run st msg xs = Parsed msg' bs \<Longrightarrow> length bs < length xs"
  by (induction xs arbitrary: st msg) (fastforce split: prod.splits if_splits)+

text \<open>A predicate of the parser that its actions keep and that does not depend on the stored state.\<close>

lemma run_actions_keep:
  assumes act: "\<And>p a sp ps sp' ps' ret. run_action cur rest p a (sp, ps) = Ret (sp', ps', ret) \<Longrightarrow> Q ps \<Longrightarrow> Q ps'"
  shows "run_actions cur rest p as (sp, ps) = Ret (sp', ps', ret) \<Longrightarrow> Q ps \<Longrightarrow> Q ps'"
proof (induction as arbitrary: sp ps)
  case (Cons a as)
  then obtain sp1 ps1 r where r: "run_action cur rest p a (sp, ps) = Ret (sp1, ps1, r)"
      "(if r then Ret (sp1, ps1, True) else run_actions cur rest p as (sp1, ps1)) = Ret (sp', ps', ret)"
    by (auto simp: obind_iffs)
  then show ?case using Cons.IH [of sp1 ps1] act [OF r(1) Cons.prems(2)] by (auto split: if_splits)
qed simp

lemma exec_keep:
  assumes act: "\<And>p a sp ps sp' ps' ret. run_action cur rest p a (sp, ps) = Ret (sp', ps', ret) \<Longrightarrow> Q ps \<Longrightarrow> Q ps'"
    and cs: "\<And>ps x. Q (ps\<lparr>p_cs := x\<rparr>) = Q ps"
  shows "exec cur rest p bs sp st ps = Ret (sp', ps', ret) \<Longrightarrow> Q ps \<Longrightarrow> Q ps'"
proof (induction bs arbitrary: p sp st ps)
  case Nil
  then show ?case using cs by auto
next
  case (Cons c bs)
  obtain st' acts where f: "fsm_step st c = (st', acts)" by fastforce
  obtain sp1 ps1 r where r: "run_actions cur rest p acts (sp, ps) = Ret (sp1, ps1, r)" using Cons.prems(1) f by (auto simp: obind_iffs)
  have "Q ps1" by (rule run_actions_keep [where Q = Q, OF act r Cons.prems(2)])
  then show ?case using Cons.prems f r cs Cons.IH [of "p + 1" sp1 st' ps1] by (auto split: if_splits)
qed

lemma ParseChunk_keep:
  assumes act: "\<And>cur rest p a sp ps sp' ps' ret. [] \<notin> set rest \<Longrightarrow> run_action cur rest p a (sp, ps) = Ret (sp', ps', ret) \<Longrightarrow> Q ps \<Longrightarrow> Q ps'"
    and cs: "\<And>ps x. Q (ps\<lparr>p_cs := x\<rparr>) = Q ps"
    and add: "\<And>b e c t ps req. add_part b e c t (p_Request ps) = Ret req \<Longrightarrow> Q ps \<Longrightarrow> Q (ps\<lparr>p_Request := req\<rparr>)"
  shows "[] \<notin> set lst \<Longrightarrow> Q ps \<Longrightarrow> Q (snd (snd (ParseChunk lst ps)))"
proof (induction lst ps rule: ParseChunk.induct)
  case (2 cur lst ps)
  show ?case
  proof (cases "exec cur lst 0 cur 0 (p_cs ps) ps")
    case (Ret r)
    obtain sp ps1 ret where x: "r = (sp, ps1, ret)" by (cases r) auto
    have ne: "[] \<notin> set lst" using 2(3) by simp
    have u: "Q ps1" using exec_keep [of cur lst Q 0 cur 0 "p_cs ps" ps sp ps1 ret] act [OF ne] cs Ret x 2(4) by blast
    then show ?thesis using 2(1,2) [OF Ret x [symmetric] refl] ne Ret x add by (auto split: option.splits outcome.splits)
  qed (use 2(4) in auto)
qed simp

text \<open>No empty chunk gets into the unparsed rest or into a token.\<close>

definition unparsed_ok :: "parser \<Rightarrow> bool" where
  "unparsed_ok ps \<longleftrightarrow> [] \<notin> set (p_Unparsed ps)"

definition request_ok :: "request \<Rightarrow> bool" where
  "request_ok req \<longleftrightarrow> [] \<notin> set (r_Request req) \<and> list_all (\<lambda>h. [] \<notin> set (h_Key h) \<and> [] \<notin> set (h_Value h)) (r_Headers req)"

lemma AddPartTo_ok: "AddPartTo b e c l = Ret l' \<Longrightarrow> [] \<notin> set l \<Longrightarrow> [] \<notin> set l'"
  by (auto simp: AddPartTo_def SubChunk_def SubBlob_def obind_iffs split: if_splits)

lemma add_part_ok: "add_part b e c t req = Ret req' \<Longrightarrow> request_ok req \<Longrightarrow> request_ok req'"
  by (cases t) (auto simp: request_ok_def obind_iffs Let_def list_all_length nth_list_update dest!: AddPartTo_ok split: if_splits)

lemma run_action_unparsed:
  "[] \<notin> set rest \<Longrightarrow> run_action cur rest p a (sp, ps) = Ret (sp', ps', ret) \<Longrightarrow> unparsed_ok ps \<Longrightarrow> unparsed_ok ps'"
  by (cases a) (auto simp: obind_iffs unparsed_ok_def Let_def NewHeader_def MoveTo_def dest!: AddPartTo_ok split: option.splits if_splits)

lemma run_action_request:
  "run_action cur rest p a (sp, ps) = Ret (sp', ps', ret) \<Longrightarrow> request_ok (p_Request ps) \<Longrightarrow> request_ok (p_Request ps')"
  by (cases a) (auto simp: obind_iffs Let_def NewHeader_def MoveTo_def dest: add_part_ok split: option.splits if_splits,
      auto simp: request_ok_def header_new_def)

lemma ParseChunk_unparsed: "[] \<notin> set lst \<Longrightarrow> unparsed_ok ps \<Longrightarrow> unparsed_ok (snd (snd (ParseChunk lst ps)))"
proof (rule ParseChunk_keep [where Q = unparsed_ok])
  show "unparsed_ok ps'" if "[] \<notin> set rest" "run_action cur rest p a (sp, ps) = Ret (sp', ps', ret)" "unparsed_ok ps"
    for cur rest p a sp ps sp' ps' ret using run_action_unparsed [OF that] .
qed (auto simp: unparsed_ok_def)

lemma ParseChunk_request:
  "[] \<notin> set lst \<Longrightarrow> request_ok (p_Request ps) \<Longrightarrow> request_ok (p_Request (snd (snd (ParseChunk lst ps))))"
  by (rule ParseChunk_keep [where Q = "\<lambda>ps. request_ok (p_Request ps)"]) (auto intro: run_action_request add_part_ok)

context io_output
begin

lemma Flush_spec:
  "\<exists>o'. encoder_Flush send st = (Ret (), st\<lparr>en_this := [], en_S := o'\<rparr>) \<and> sent o' = sent (en_S st) @ bytes_of (en_this st)"
proof (cases "en_this st = []")
  case True
  then show ?thesis by (intro exI [of _ "en_S st"]) (simp add: encoder_Flush_def)
next
  case False
  then show ?thesis using send_ok [of "en_this st" "en_S st"] by (auto simp: encoder_Flush_def)
qed

lemma part_spec:
  assumes "length (bytes_of l) < 2 ^ 64"
  shows "\<exists>o'. encoder_part tr send l st = (Ret (), st\<lparr>en_this := [], en_S := o'\<rparr>)
    \<and> sent o' = sent (en_S st) @ bytes_of (en_this st) @ part_bytes tr (bytes_of l)"
proof -
  obtain l' where l': "OnDataPart tr l (en_this st) = Ret l'" "bytes_of l' = bytes_of (en_this st) @ part_bytes tr (bytes_of l)"
    using OnDataPart_bytes [OF assms] by blast
  show ?thesis using Flush_spec [of "st\<lparr>en_this := l'\<rparr>"] l' by (auto simp: encoder_part_def)
qed

lemma run_data:
  assumes "en_Custom st = None" and "en_this st = []" and "list_all list_ok ls"
  shows "\<exists>st'. encoder_run tr send ls st = (Ret (), st')
    \<and> sent (en_S st') = sent (en_S st) @ body_stream tr (map bytes_of ls)"
  using assms
proof (induction ls arbitrary: st)
  case Nil
  obtain l' where l': "OnFinish tr (en_this st) = Ret l'" "bytes_of l' = bytes_of (en_this st) @ body_stream tr []"
    using OnFinish_bytes by blast
  show ?case using Flush_spec [of "st\<lparr>en_this := l'\<rparr>"] l' Nil.prems by (auto simp: encoder_Finish_def)
next
  case (Cons l ls)
  have "length (bytes_of l) < 2 ^ 64" using Cons.prems(3) by (simp add: list_ok_def)
  then obtain o' where p: "encoder_part tr send l st = (Ret (), st\<lparr>en_this := [], en_S := o'\<rparr>)"
      "sent o' = sent (en_S st) @ part_bytes tr (bytes_of l)"
    using part_spec [of l tr st] Cons.prems(2) by auto
  obtain st' where "encoder_run tr send ls (st\<lparr>en_this := [], en_S := o'\<rparr>) = (Ret (), st')"
      "sent (en_S st') = sent o' @ body_stream tr (map bytes_of ls)"
    using Cons.IH [of "st\<lparr>en_this := [], en_S := o'\<rparr>"] Cons.prems by auto
  then show ?case using p Cons.prems(1) by (simp add: encoder_Send_def body_stream_Cons)
qed

definition header_phase :: "'o encoder \<Rightarrow> chunks \<Rightarrow> message \<Rightarrow> bool" where
  "header_phase st custom msg \<longleftrightarrow> en_Custom st = Some custom \<and> en_this st = [] \<and> parser_inv (en_parser st) msg
     \<and> p_Unparsed (en_parser st) = []"

lemma Send_header:
  assumes "header_phase st custom msg" and "list_ok l"
  shows "case byte_run (p_cs (en_parser st)) msg (bytes_of l) of
      More cs msg' \<Rightarrow> \<exists>st'. encoder_Send tr send l st = (Ret (), st') \<and> header_phase st' custom msg'
        \<and> p_cs (en_parser st') = cs \<and> sent (en_S st') = sent (en_S st)
    | Parsed msg' bs \<Rightarrow> \<exists>st'. encoder_Send tr send l st = (Ret (), st') \<and> en_Custom st' = None \<and> en_this st' = []
        \<and> sent (en_S st') = sent (en_S st) @ message_bytes msg' @ bytes_of custom @ CRLF @ (if bs = [] then [] else part_bytes tr bs)
    | Rejected \<Rightarrow> \<exists>st'. encoder_Send tr send l st = (Throw (HttpParseError 400), st') \<and> sent (en_S st') = sent (en_S st)"
proof (cases "byte_run (p_cs (en_parser st)) msg (bytes_of l)")
  case (More cs msg')
  have h: "en_Custom st = Some custom" "en_this st = []" "parser_inv (en_parser st) msg" "p_Unparsed (en_parser st) = []"
    using assms(1) by (auto simp: header_phase_def)
  obtain ps' where "ParseChunk l (en_parser st) = (Ret False, [], ps')" "p_cs ps' = cs" "parser_inv ps' msg'" "p_Unparsed ps' = []"
    using ParseChunk_refines [OF h(3), of l] More h(4) by (auto simp: chunks_result_def)
  then show ?thesis using h More by (simp add: encoder_Send_def push_ParseChunk_def encoder_Flush_def header_phase_def)
next
  case (Parsed msg' bs)
  have h: "en_Custom st = Some custom" "en_this st = []" "parser_inv (en_parser st) msg" "p_Unparsed (en_parser st) = []"
    using assms(1) by (auto simp: header_phase_def)
  obtain ps' where ps': "ParseChunk l (en_parser st) = (Ret True, [], ps')" "message_of (p_Request ps') = msg'"
      "bytes_of (p_Unparsed ps') = bs"
    using ParseChunk_refines [OF h(3), of l] Parsed h(4) by (auto simp: chunks_result_def)
  have "[] \<notin> set (p_Unparsed ps')"
    using ParseChunk_unparsed [of l "en_parser st"] ps'(1) assms(2) h(4) by (simp add: unparsed_ok_def list_ok_def)
  then have ne: "p_Unparsed ps' = [] \<longleftrightarrow> bs = []" using ps'(3) bytes_of_Nil_iff by metis
  obtain this where b: "BuildTo_custom (p_Request ps') [] (Some custom) = (this, Some [])"
      "bytes_of this = message_bytes msg' @ bytes_of custom @ CRLF"
    using BuildTo_custom_bytes [of "p_Request ps'" "[]" "Some custom"] ps'(2) by auto
  let ?st = "st\<lparr>en_this := this, en_parser := ps'\<lparr>p_Unparsed := []\<rparr>, en_Custom := None\<rparr>"
  have "length bs < 2 ^ 64" using byte_run_rest [OF Parsed] assms(2) by (simp add: list_ok_def)
  then show ?thesis
    using h Parsed ps' b ne Flush_spec [of ?st] part_spec [of "p_Unparsed ps'" tr ?st]
    by (auto simp: encoder_Send_def push_ParseChunk_def)
next
  case Rejected
  have h: "en_Custom st = Some custom" "parser_inv (en_parser st) msg" using assms(1) by (auto simp: header_phase_def)
  obtain r ps' where "ParseChunk l (en_parser st) = (Throw (HttpParseError 400), r, ps')"
    using ParseChunk_refines [OF h(2), of l] Rejected by (auto simp: chunks_result_def)
  then show ?thesis using h Rejected by (simp add: encoder_Send_def push_ParseChunk_def)
qed

lemma run_header_phase:
  assumes "header_phase st custom msg" and "list_all list_ok ls"
  shows "case byte_run (p_cs (en_parser st)) msg (concat (map bytes_of ls)) of
      Parsed msg' body \<Rightarrow> \<exists>st' parts. encoder_run tr send ls st = (Ret (), st') \<and> parts_ok parts \<and> concat parts = body
        \<and> sent (en_S st') = sent (en_S st) @ message_bytes msg' @ bytes_of custom @ CRLF @ body_stream tr parts
    | Rejected \<Rightarrow> \<exists>st'. encoder_run tr send ls st = (Throw (HttpParseError 400), st') \<and> sent (en_S st') = sent (en_S st)
    | More _ _ \<Rightarrow> \<exists>st'. encoder_run tr send ls st = (Throw (HttpError 500), st') \<and> sent (en_S st') = sent (en_S st)"
  using assms
proof (induction ls arbitrary: st msg)
  case Nil
  then show ?case by (auto simp: encoder_Finish_def header_phase_def)
next
  case (Cons l ls)
  have l: "list_ok l" "list_all list_ok ls" using Cons.prems(2) by auto
  note sh = Send_header [OF Cons.prems(1) l(1), of tr]
  show ?case
  proof (cases "byte_run (p_cs (en_parser st)) msg (bytes_of l)")
    case (More cs msg')
    then obtain st' where s: "encoder_Send tr send l st = (Ret (), st')" "header_phase st' custom msg'"
        "p_cs (en_parser st') = cs" "sent (en_S st') = sent (en_S st)"
      using sh by auto
    have "encoder_run tr send (l # ls) st = encoder_run tr send ls st'" using s(1) by simp
    then show ?thesis using Cons.IH [OF s(2) l(2)] s(3,4) More by (simp only: byte_run_append list.map concat.simps parse_result.case)
  next
    case (Parsed msg' bs)
    then obtain st' where s: "encoder_Send tr send l st = (Ret (), st')" "en_Custom st' = None" "en_this st' = []"
        "sent (en_S st') = sent (en_S st) @ message_bytes msg' @ bytes_of custom @ CRLF @ (if bs = [] then [] else part_bytes tr bs)"
      using sh by auto
    let ?parts = "(if bs = [] then [] else [bs]) @ map bytes_of ls"
    obtain st'' where "encoder_run tr send ls st' = (Ret (), st'')" "sent (en_S st'') = sent (en_S st') @ body_stream tr (map bytes_of ls)"
      using run_data [OF s(2,3) l(2)] by blast
    then have "encoder_run tr send (l # ls) st = (Ret (), st'')"
      "sent (en_S st'') = sent (en_S st) @ message_bytes msg' @ bytes_of custom @ CRLF @ body_stream tr ?parts"
      using s(1,4) by (auto simp: body_stream_Cons)
    moreover have "parts_ok ?parts" using l byte_run_rest [OF Parsed] list_ok_bytes by (auto simp: parts_ok_def list_ok_def list_all_iff)
    moreover have "concat ?parts = bs @ concat (map bytes_of ls)" by simp
    ultimately show ?thesis using Parsed by (simp only: byte_run_append list.map concat.simps parse_result.case) blast
  next
    case Rejected
    then show ?thesis using sh by (auto simp: byte_run_append)
  qed
qed

lemma encoder_new_phase: "header_phase (encoder_new ou custom) custom ([], [])"
  using parser_inv_new [of "[]"] by (simp add: header_phase_def encoder_new_def push_parse_new_def parser_new_def)

lemma encoder_output:
  assumes "list_all list_ok ls"
  shows "case byte_run Start ([], []) (concat (map bytes_of ls)) of
      Parsed msg body \<Rightarrow> \<exists>st' parts. encoder_run tr send ls (encoder_new ou custom) = (Ret (), st') \<and> parts_ok parts \<and> concat parts = body
        \<and> sent (en_S st') = sent ou @ message_bytes msg @ bytes_of custom @ CRLF @ body_stream tr parts
    | Rejected \<Rightarrow> \<exists>st'. encoder_run tr send ls (encoder_new ou custom) = (Throw (HttpParseError 400), st') \<and> sent (en_S st') = sent ou
    | More _ _ \<Rightarrow> \<exists>st'. encoder_run tr send ls (encoder_new ou custom) = (Throw (HttpError 500), st') \<and> sent (en_S st') = sent ou"
proof -
  have "en_S (encoder_new ou custom) = ou" "p_cs (en_parser (encoder_new ou custom)) = Start"
    by (simp_all add: encoder_new_def push_parse_new_def parser_new_def)
  then show ?thesis using run_header_phase [OF encoder_new_phase [of ou custom] assms, of tr] by (simp only:)
qed

end

section \<open>Properties\<close>

text \<open>
  C15. The decoder of chunked bodies reads from any input, however its bytes are cut into chunks, exactly
  the body that a chunked stream spells: every non-empty part and then the end of the stream; what
  follows the last chunk is never delivered.
\<close>

theorem chunked_decoder:
  assumes "io_input_nonempty r i c" and "i s" and "parts_ok parts" and "c s = chunk_stream parts @ rest"
  shows "\<exists>st it l st'. chunked_new r s = Some (Ret st, it) \<and> ReadAll (chunked_Recv r) [] st = Some (Ret l, st')
    \<and> bytes_of l = concat parts"
proof -
  have it: "siter_inv i (siter_new s)" "siter_content c (siter_new s) = [] @ chunk_stream parts @ rest"
    using assms(2,4) by (auto simp: siter_inv_def siter_new_def siter_content_def)
  obtain it' l where p: "ParseNextChunkLength r (siter_new s) = Some (Ret l, it')"
      "\<And>st. io_input_nonempty.spells i c (st\<lparr>ct_it := it', ct_L := l\<rparr>) (concat parts)"
    using io_input_nonempty.length_then_spells [OF assms(1) it(1) assms(3) _ it(2)] by auto
  let ?st = "\<lparr>ct_it = it', ct_L = l\<rparr>"
  have "io_input_nonempty.spells i c ?st (concat parts)" using p(2) [of ?st] by simp
  then obtain ls st' where "ReadAll (chunked_Recv r) [] ?st = Some (Ret ls, st')" "bytes_of ls = bytes_of [] @ concat parts"
    using io_input_nonempty.chunked_ReadAll [OF assms(1), of ?st "concat parts" "[]"] by blast
  moreover have "chunked_new r s = Some (Ret ?st, it')" using p(1) by (simp add: chunked_new_def)
  ultimately show ?thesis by auto
qed

theorem chunked_decoder_witness:
  "\<exists>st it l st'. chunked_new owned_Recv [''2'', CRLF @ ''a'', ''b'' @ CRLF, ''0'' @ CRLF @ CRLF] = Some (Ret st, it)
    \<and> ReadAll (chunked_Recv owned_Recv) [] st = Some (Ret l, st') \<and> bytes_of l = ''ab''"
proof -
  let ?s = "[''2'', CRLF @ ''a'', ''b'' @ CRLF, ''0'' @ CRLF @ CRLF]"
  have ok: "parts_ok [''ab'']" by (simp add: parts_ok_def)
  have i: "owned_inv ?s" by (simp add: owned_inv_def CRLF_def)
  have c: "bytes_of ?s = chunk_stream [''ab''] @ []"
    by (simp add: chunk_stream_simps hexlen_def digits_small IntToChar_def)
  note t = chunked_decoder [where r = owned_Recv and i = owned_inv and c = bytes_of, OF own.io_input_nonempty_axioms]
  show ?thesis using t [OF i ok c] by simp
qed

text \<open>
  A chunked body that breaks off inside a chunk is not reported: the decoder delivers the bytes that
  did arrive and then the end of the stream, as for a complete body.
\<close>

theorem chunked_decoder_truncation:
  assumes "io_input_nonempty r i c" and "i s" and "n < 2 ^ 64" and "length q < n" and "c s = hexlen n @ CRLF @ q"
  shows "\<exists>st it l st'. chunked_new r s = Some (Ret st, it) \<and> ReadAll (chunked_Recv r) [] st = Some (Ret l, st') \<and> bytes_of l = q"
proof -
  have it: "siter_inv i (siter_new s)" "siter_content c (siter_new s) = [] @ hexlen n @ CRLF @ q"
    using assms(2,5) by (auto simp: siter_inv_def siter_new_def siter_content_def)
  obtain it' where p: "ParseNextChunkLength r (siter_new s) = Some (Ret (of_nat n), it')" "siter_inv i it'" "siter_content c it' = q"
    using io_input_nonempty.ParseLength_spec [OF assms(1) it(1) _ it(2)] by auto
  let ?st = "\<lparr>ct_it = it', ct_L = of_nat n\<rparr>"
  have "length (siter_content c (ct_it ?st)) < unat (ct_L ?st)" using p(3) assms(3,4) by (simp add: unat_of_nat)
  then obtain l st' where "ReadAll (chunked_Recv r) [] ?st = Some (Ret l, st')" "bytes_of l = q"
    using io_input_nonempty.chunked_truncated_ReadAll [OF assms(1), of ?st "[]"] p(2,3) by auto
  moreover have "chunked_new r s = Some (Ret ?st, it')" using p(1) by (simp add: chunked_new_def)
  ultimately show ?thesis by blast
qed

theorem chunked_decoder_truncation_witness:
  "\<exists>st it l st'. chunked_new owned_Recv [''5'' @ CRLF, ''ab''] = Some (Ret st, it)
    \<and> ReadAll (chunked_Recv owned_Recv) [] st = Some (Ret l, st') \<and> bytes_of l = ''ab''"
proof -
  let ?s = "[''5'' @ CRLF, ''ab'']"
  have i: "owned_inv ?s" by (simp add: owned_inv_def)
  have c: "bytes_of ?s = hexlen 5 @ CRLF @ ''ab''" by (simp add: hexlen_def digits_small IntToChar_def)
  note t = chunked_decoder_truncation [where r = owned_Recv and i = owned_inv and c = bytes_of, OF own.io_input_nonempty_axioms]
  show ?thesis using t [OF i _ _ c] by simp
qed

text \<open>
  C14. The encoder of the http module. Whatever lists a module sends (non-empty lists of non-empty
  chunks), together they are read by the byte-at-a-time machine; when that accepts, every call returns
  and the slave gets the message, the custom headers, the empty line and the body in its transfer
  encoding, the parts in order and complete; when it rejects, a call throws code 400; when the headers
  never end, \<open>Finish\<close> throws code 500. In both error cases nothing is sent.
\<close>

theorem http_encoder:
  assumes "io_output send sent" and "list_all list_ok ls"
  shows "case byte_run Start ([], []) (concat (map bytes_of ls)) of
      Parsed msg body \<Rightarrow> \<exists>st' parts. encoder_run tr send ls (encoder_new ou custom) = (Ret (), st') \<and> parts_ok parts
        \<and> concat parts = body \<and> sent (en_S st') = sent ou @ message_bytes msg @ bytes_of custom @ CRLF @ body_stream tr parts
    | Rejected \<Rightarrow> \<exists>st'. encoder_run tr send ls (encoder_new ou custom) = (Throw (HttpParseError 400), st') \<and> sent (en_S st') = sent ou
    | More _ _ \<Rightarrow> \<exists>st'. encoder_run tr send ls (encoder_new ou custom) = (Throw (HttpError 500), st') \<and> sent (en_S st') = sent ou"
  by (rule io_output.encoder_output [OF assms])

theorem http_encoder_witness:
  "\<exists>st'. encoder_run ChunkedTransfer std_Send [[''H'']] (encoder_new [] []) = (Throw (HttpError 500), st') \<and> en_S st' = []"
proof -
  have l: "list_all list_ok [[''H'']]" by (simp add: list_ok_def)
  have b: "byte_run Start ([], []) (concat (map bytes_of [[''H'']])) = More InRequest (''H'', [])" by code_simp
  show ?thesis using http_encoder [OF std.io_output_axioms l, where tr = ChunkedTransfer and ou = "[]" and custom = "[]"] by (simp only: b parse_result.case)
qed

end
