(* ===== verification/Httpmod.thy ===== *)
theory Httpmod
  imports Httpcoding Balancer
begin

text \<open>
  Message properties (web/httpd/kernel/headers.cpp), the http module (web/httpd/modules/http/module.cpp)
  and the reading side of the proxy module (\<open>TLimitedBackEndInput\<close> in web/httpd/modules/proxy/module.cpp,
  \<open>TWorker\<close> in proxy.cpp).

  The automaton that recognises header names is built by the regular expression library from the
  names "Connection", "Keep-Alive", "Content-Length", "Transfer-Encoding" and "Server", case ignored,
  in this order. It is the parameter \<open>hmatch\<close>: the number of the name a key is, or \<open>None\<close>. The module below
  the http module is a \<open>prog\<close> that may depend on the request and on how many requests were served before.
\<close>

section \<open>Message properties\<close>

type_synonym header_match = "bytes \<Rightarrow> nat option"

record resp_props =
  rp_ChunkedTransfer :: bool
  rp_ContentLength :: ui64

text \<open>
  \<open>ForEachHeader\<close> calls the functor on every header; a recognised header is deleted, which unlinks it (the
  loop has moved on before the call). The result is the properties and the headers that stay.
\<close>

fun response_parse :: "header_match \<Rightarrow> header list \<Rightarrow> resp_props \<Rightarrow> resp_props \<times> header list" where
  "response_parse hmatch [] props = (props, [])"
| "response_parse hmatch (hdr # hs) props =
     (case hmatch (bytes_of (h_Key hdr)) of
        Some k \<Rightarrow>
          response_parse hmatch hs
            (if k = 3 then props\<lparr>rp_ChunkedTransfer := True\<rparr>
             else if k = 2 then props\<lparr>rp_ContentLength := FromString (h_Value hdr)\<rparr> else props)
      | None \<Rightarrow> (let (p, keep) = response_parse hmatch hs props in (p, hdr # keep)))"

text \<open>\<open>TResponseProperties(r)\<close>: the properties, and the response without the recognised headers.\<close>

definition response_props :: "header_match \<Rightarrow> request \<Rightarrow> resp_props \<times> request" where
  "response_props hmatch r =
     (let (p, hs) = response_parse hmatch (r_Headers r) \<lparr>rp_ChunkedTransfer = False, rp_ContentLength = 0\<rparr>
      in (p, r\<lparr>r_Headers := hs\<rparr>))"

definition HttpVersion :: "chunks \<Rightarrow> ui32" where
  "HttpVersion req =
     (if req = [] then 0
      else let last = List.last req in
           if last = [] then 0 else word_of_int (schar (last ! (length last - 1)) - schar CHR ''0''))"

record req_props =
  qp_KeepAlive :: bool
  qp_ChunkedTransfer :: bool
  qp_ContentLength :: ui64

definition request_props :: "header_match \<Rightarrow> request \<Rightarrow> req_props \<times> request" where
  "request_props hmatch r =
     (let keep = (HttpVersion (r_Request r) \<noteq> 0); (p, r') = response_props hmatch r
      in (\<lparr>qp_KeepAlive = keep, qp_ChunkedTransfer = keep, qp_ContentLength = rp_ContentLength p\<rparr>, r'))"

section \<open>The http module\<close>

text \<open>\<open>TFixedLengthInput\<close>: it reads the body through the iterator of the connection.\<close>

record 's fixed =
  fi_it :: "'s siter"
  fi_Len :: ui64

definition fixed_Recv :: "'s recv \<Rightarrow> 's fixed recv" where
  "fixed_Recv recv st =
     (if fi_Len st = 0 then (Ret [], st)
      else case si_NextLen recv (unat (fi_Len st)) [] (fi_it st) of
        (Ret lst, it) \<Rightarrow> (Ret lst, st\<lparr>fi_it := it, fi_Len := fi_Len st - of_nat (FullLength lst)\<rparr>)
      | (r, it) \<Rightarrow> (r, st\<lparr>fi_it := it\<rparr>))"

text \<open>\<open>Input\<close> of the context: \<open>TFixedLengthInput\<close>, or \<open>TNullStream\<close> beside the iterator.\<close>

datatype 's body_input = FixedBody "'s fixed" | NullBody "'s siter"

fun body_Recv :: "'s recv \<Rightarrow> 's body_input recv" where
  "body_Recv recv (FixedBody f) = (case fixed_Recv recv f of (r, f') \<Rightarrow> (r, FixedBody f'))"
| "body_Recv recv (NullBody it) = null_Recv (NullBody it)"

fun body_iter :: "'s body_input \<Rightarrow> 's siter" where
  "body_iter (FixedBody f) = fi_it f"
| "body_iter (NullBody it) = it"

record http_mod =
  hm_ParseError :: ui64
  hm_Discarded :: ui64
  hm_MaxLen :: nat
  hm_MaxReq :: nat
  hm_KeepAlive :: bool

text \<open>
  The constructor and \<open>DoConsume\<close>. \<open>load\<close> is \<open>MustLoad\<close> of the factory; the module it returns stands beside
  the settings, null before any is configured.
\<close>

definition http_DoConsume ::
  "(string \<Rightarrow> nat outcome) \<Rightarrow> (string \<Rightarrow> bool outcome) \<Rightarrow> (string \<Rightarrow> cfg \<Rightarrow> 'm outcome)
   \<Rightarrow> string \<Rightarrow> cfg_value \<Rightarrow> http_mod \<times> 'm option \<Rightarrow> (http_mod \<times> 'm option) outcome" where
  "http_DoConsume fromSize fromBool load key v s =
     ON_KEY ''maxlen'' fromSize (\<lambda>x (m, M). (m\<lparr>hm_MaxLen := x\<rparr>, M)) key v s
      (ON_KEY ''maxreq'' fromSize (\<lambda>x (m, M). (m\<lparr>hm_MaxReq := x\<rparr>, M)) key v s
        (ON_KEY ''keepalive'' fromBool (\<lambda>x (m, M). (m\<lparr>hm_KeepAlive := x\<rparr>, M)) key v s
          (obind (AsSubConfig v) (\<lambda>sub. obind (load key sub) (\<lambda>M. Ret (fst s, Some M))))))"

definition http_new ::
  "(string \<Rightarrow> nat outcome) \<Rightarrow> (string \<Rightarrow> bool outcome) \<Rightarrow> (string \<Rightarrow> cfg \<Rightarrow> 'm outcome) \<Rightarrow> cfg \<Rightarrow> (http_mod \<times> 'm) outcome" where
  "http_new fromSize fromBool load c =
     obind (ForEach (http_DoConsume fromSize fromBool load) c
         (\<lparr>hm_ParseError = 0, hm_Discarded = 0, hm_MaxLen = 0, hm_MaxReq = 2 ^ 64 - 1, hm_KeepAlive = True\<rparr>, None))
       (\<lambda>(m, M). case M of None \<Rightarrow> Throw ConfigParseError | Some md \<Rightarrow> Ret (m, md))"

text \<open>\<open>TErrFunc::OnErr\<close>.\<close>

definition too_big :: "unit outcome" where
  "too_big = Throw (HttpParseError 413)"

text \<open>\<open>TParsedRequest(it, maxlen)\<close>: the request and the iterator; the unparsed rest is put back.\<close>

definition ParsedRequest :: "'s recv \<Rightarrow> nat \<Rightarrow> 's siter \<Rightarrow> (unit outcome \<times> request \<times> 's siter) option" where
  "ParsedRequest recv maxlen it =
     map_option (\<lambda>(r, req, unparsed, it'). (r, req, case r of Ret _ \<Rightarrow> si_UnGet unparsed it' | _ \<Rightarrow> it'))
       (if maxlen \<noteq> 0 then
          map_option (\<lambda>(r, req, u, lim). (r, req, u, li_S lim))
            (Parse (limited_Recv too_big (siter_Recv recv)) [] request_new (limited_new it maxlen))
        else Parse (siter_Recv recv) [] request_new it)"

definition connection_close :: bytes where
  "connection_close = ''Connection: Close'' @ CRLF"

definition transfer_chunked :: bytes where
  "transfer_chunked = ''Transfer-Encoding: Chunked'' @ CRLF"

text \<open>\<open>RunDecoded\<close>: the result, the iterator and the output after the run.\<close>

definition RunDecoded :: "'s recv \<Rightarrow> 'e send \<Rightarrow> prog \<Rightarrow> ui64 \<Rightarrow> 's siter \<Rightarrow> 'e \<Rightarrow> unit outcome \<times> 's siter \<times> 'e" where
  "RunDecoded recv send M len it out =
     (let input = (if len \<noteq> 0 then FixedBody \<lparr>fi_it = it, fi_Len = len\<rparr> else NullBody it);
          (r, input', out') = run_prog (body_Recv recv) send M input out
      in (r, body_iter input', out'))"

definition RunEncoded ::
  "transfer \<Rightarrow> 's recv \<Rightarrow> 'o send \<Rightarrow> prog \<Rightarrow> ui64 \<Rightarrow> chunks \<Rightarrow> 's siter \<Rightarrow> 'o \<Rightarrow> unit outcome \<times> 's siter \<times> 'o" where
  "RunEncoded tr recv send M len headers it out =
     (case RunDecoded recv (encoder_Send tr send) M len it (encoder_new out headers) of
        (Ret _, it', enc) \<Rightarrow> (case encoder_Finish tr send enc of (r, enc') \<Rightarrow> (r, it', en_S enc'))
      | (r, it', enc) \<Rightarrow> (r, it', en_S enc))"

text \<open>
  \<open>TContext(this, descr).Run()\<close>: the result, the iterator and the output. \<open>M\<close> is the module below with the
  parsed request.
\<close>

definition context_Run ::
  "header_match \<Rightarrow> (request \<Rightarrow> prog) \<Rightarrow> http_mod \<Rightarrow> 's recv \<Rightarrow> 'o send \<Rightarrow> 's siter \<Rightarrow> 'o
   \<Rightarrow> (bool outcome \<times> 's siter \<times> 'o) option" where
  "context_Run hmatch M parent recv send it out =
     (case ParsedRequest recv (hm_MaxLen parent) it of
        None \<Rightarrow> None
      | Some (Throw e, _, it1) \<Rightarrow> Some (Throw e, it1, out)
      | Some (Crash, _, it1) \<Rightarrow> Some (Crash, it1, out)
      | Some (Ret _, req0, it1) \<Rightarrow>
          Some (let (props, req) = request_props hmatch req0 in
            if FullLength (r_Request req) > hm_MaxReq parent then (Throw (HttpParseError 414), it1, out)
            else
              let keep = (qp_KeepAlive props \<and> hm_KeepAlive parent);
                  headers = (if keep then [] else [connection_close]);
                  (r, it2, out') =
                    (if qp_ChunkedTransfer props
                     then RunEncoded ChunkedTransfer recv send (M req) (qp_ContentLength props)
                            (Push transfer_chunked headers) it1 out
                     else RunEncoded IdentityTransfer recv send (M req) (qp_ContentLength props) headers it1 out)
              in (map_outcome_val (\<lambda>_. keep) r, it2, out')))"

text \<open>\<open>Peek(it)\<close> of the module catches a \<open>TSystemError\<close>.\<close>

definition http_Peek :: "'s recv \<Rightarrow> 's siter \<Rightarrow> bool outcome \<times> 's siter" where
  "http_Peek recv it =
     (case si_Peek recv it of
        (Throw (SystemError st), it') \<Rightarrow> (Ret False, it')
      | r \<Rightarrow> r)"

text \<open>The loop of \<open>DoRun\<close>; \<open>n\<close> counts the requests.\<close>

partial_function (option) http_loop ::
  "header_match \<Rightarrow> (nat \<Rightarrow> request \<Rightarrow> prog) \<Rightarrow> 's recv \<Rightarrow> 'o send \<Rightarrow> nat \<Rightarrow> http_mod \<Rightarrow> 's siter \<Rightarrow> 'o
   \<Rightarrow> (unit outcome \<times> http_mod \<times> 's siter \<times> 'o) option" where
  "http_loop hmatch M recv send n m it out =
     (case http_Peek recv it of
        (Ret data, it1) \<Rightarrow>
          (if \<not> data then Some (Ret (), m\<lparr>hm_Discarded := hm_Discarded m + 1\<rparr>, it1, out)
           else Option.bind (context_Run hmatch (M n) m recv send it1 out) (\<lambda>(r, it2, out').
             case r of
               Ret keep \<Rightarrow> if keep then http_loop hmatch M recv send (Suc n) m it2 out' else Some (Ret (), m, it2, out')
             | Throw e \<Rightarrow>
                 Some (Throw e, (case e of HttpParseError _ \<Rightarrow> m\<lparr>hm_ParseError := hm_ParseError m + 1\<rparr> | _ \<Rightarrow> m), it2, out')
             | Crash \<Rightarrow> Some (Crash, m, it2, out')))
      | (Throw e, it1) \<Rightarrow> Some (Throw e, m, it1, out)
      | (Crash, it1) \<Rightarrow> Some (Crash, m, it1, out))"

definition http_DoRun ::
  "header_match \<Rightarrow> (nat \<Rightarrow> request \<Rightarrow> prog) \<Rightarrow> 's recv \<Rightarrow> 'o send \<Rightarrow> http_mod \<Rightarrow> 's \<Rightarrow> 'o
   \<Rightarrow> (unit outcome \<times> http_mod \<times> 's siter \<times> 'o) option" where
  "http_DoRun hmatch M recv send m input out = http_loop hmatch M recv send 0 m (siter_new input) out"

section \<open>Headers that are kept\<close>

lemma response_parse_spec:
  "response_parse hmatch hs props =
     (\<lparr>rp_ChunkedTransfer = (rp_ChunkedTransfer props \<or> (\<exists>h \<in> set hs. hmatch (bytes_of (h_Key h)) = Some 3)),
       rp_ContentLength = foldl (\<lambda>a h. if hmatch (bytes_of (h_Key h)) = Some 2 then FromString (h_Value h) else a) (rp_ContentLength props) hs\<rparr>,
      filter (\<lambda>h. hmatch (bytes_of (h_Key h)) = None) hs)"
  by (induction hs arbitrary: props) (auto split: option.splits)

text \<open>The properties as functions of the bytes of a message.\<close>

definition content_length :: "header_match \<Rightarrow> (bytes \<times> bytes) list \<Rightarrow> ui64" where
  "content_length hmatch hs = foldl (\<lambda>a (k, v). if hmatch k = Some 2 then FromString [v] else a) 0 hs"

definition is_chunked :: "header_match \<Rightarrow> (bytes \<times> bytes) list \<Rightarrow> bool" where
  "is_chunked hmatch hs \<longleftrightarrow> (\<exists>(k, v) \<in> set hs. hmatch k = Some 3)"

definition kept :: "header_match \<Rightarrow> message \<Rightarrow> message" where
  "kept hmatch msg = (fst msg, filter (\<lambda>(k, v). hmatch k = None) (snd msg))"

lemma response_props_spec:
  assumes "message_of r = msg"
  shows "\<exists>r'. response_props hmatch r
      = (\<lparr>rp_ChunkedTransfer = is_chunked hmatch (snd msg), rp_ContentLength = content_length hmatch (snd msg)\<rparr>, r')
    \<and> message_of r' = kept hmatch msg \<and> r_Request r' = r_Request r"
proof -
  have cl: "foldl (\<lambda>a h. if hmatch (bytes_of (h_Key h)) = Some 2 then FromString (h_Value h) else a) n hs
      = foldl (\<lambda>a (k, v). if hmatch k = Some 2 then FromString [v] else a) n (map (\<lambda>h. (bytes_of (h_Key h), bytes_of (h_Value h))) hs)"
    for n :: ui64 and hs by (induction hs arbitrary: n) (auto simp: FromString_bytes)
  show ?thesis
    using assms by (auto simp: response_props_def response_parse_spec message_of_def is_chunked_def content_length_def cl kept_def filter_map comp_def)
qed

section \<open>Every stream is served to its end\<close>

text \<open>The bytes an iterator can still deliver, when nothing is known of its chunks.\<close>

context io_input
begin

definition left :: "'s siter \<Rightarrow> nat" where
  "left it = length (bytes_of (si_L it)) + length (content (si_S it))"

lemma Peek_left:
  assumes "inv (si_S it)"
  shows "\<exists>b it'. si_Peek recv it = (Ret b, it') \<and> inv (si_S it') \<and> left it' = left it \<and> (b \<longleftrightarrow> si_L it' \<noteq> [])"
proof -
  obtain l s' where "recv (si_S it) = (Ret l, s')" "inv s'" "content (si_S it) = bytes_of l @ content s'"
    using recvE [OF assms] by metis
  then show ?thesis using assms by (cases "si_L it = []") (auto simp: si_Peek_def left_def)
qed

lemma siter_Recv_left:
  assumes "inv (si_S it)"
  shows "\<exists>l it'. siter_Recv recv it = (Ret l, it') \<and> inv (si_S it') \<and> left it = length (bytes_of l) + left it'"
  using Peek_left [OF assms] by (auto simp: siter_Recv_def si_NextAll_def MoveTo_def left_def)

lemma NextLen_left:
  assumes "inv (si_S it)"
  shows "\<exists>l it'. si_NextLen recv n [] it = (Ret l, it') \<and> inv (si_S it') \<and> left it = length (bytes_of l) + left it'"
proof -
  obtain b it1 where p: "si_Peek recv it = (Ret b, it1)" "inv (si_S it1)" "left it1 = left it" using Peek_left [OF assms] by blast
  obtain x y where s: "Split n (si_L it1) = Ret (x, y)" "bytes_of x = take n (bytes_of (si_L it1))"
      "bytes_of y = drop n (bytes_of (si_L it1))" by (rule Split_spec [of n "si_L it1"]) blast
  show ?thesis using p s by (cases b) (auto simp: si_NextLen_def left_def)
qed

lemma UnGet_left: "inv (si_S (si_UnGet u it)) = inv (si_S it)" "left (si_UnGet u it) = length (bytes_of u) + left it"
  by (auto simp: si_UnGet_def MoveTo_def left_def)

lemma body_Recv_left:
  assumes "inv (si_S (body_iter b))"
  shows "inv (si_S (body_iter (snd (body_Recv recv b)))) \<and> left (body_iter (snd (body_Recv recv b))) \<le> left (body_iter b)"
proof (cases b)
  case (FixedBody f)
  then show ?thesis using assms NextLen_left [of "fi_it f" "unat (fi_Len f)"] by (auto simp: fixed_Recv_def)
next
  case (NullBody it)
  then show ?thesis using assms by (simp add: null_Recv_def)
qed

end

lemma run_prog_preserves:
  assumes "\<And>i. P i \<Longrightarrow> P (snd (recv i))" and "P i"
  shows "P (fst (snd (run_prog recv send p i ou)))"
  using assms(2)
proof (induction p arbitrary: i ou)
  case (RecvP k h)
  obtain r i' where r: "recv i = (r, i')" by fastforce
  then have "P i'" using assms(1) [OF RecvP.prems] by simp
  then show ?case using r RecvP.IH by (cases r) auto
next
  case (SendP l p h)
  obtain r o' where "send l ou = (r, o')" by fastforce
  then show ?case using SendP by (cases r) auto
qed auto

lemma RunEncoded_iter:
  assumes "\<And>b. P (body_iter b) \<Longrightarrow> P (body_iter (snd (body_Recv recv b)))" and "P it"
  shows "P (fst (snd (RunEncoded tr recv send M len hs it ou)))"
proof -
  let ?b = "if len \<noteq> 0 then FixedBody \<lparr>fi_it = it, fi_Len = len\<rparr> else NullBody it"
  have "P (body_iter (fst (snd (run_prog (body_Recv recv) (encoder_Send tr send) M ?b (encoder_new ou hs)))))"
    using assms by (intro run_prog_preserves [where P = "\<lambda>b. P (body_iter b)"]) auto
  then show ?thesis by (auto simp: RunEncoded_def RunDecoded_def Let_def split: prod.splits outcome.splits)
qed

text \<open>The parser on an input that only loses bytes, or throws.\<close>

lemma Parse_loop_total:
  assumes step: "\<And>s. P s \<Longrightarrow> (\<exists>l s'. recv s = (Ret l, s') \<and> P s' \<and> m s' + length (bytes_of l) \<le> m s) \<or> (\<exists>e s'. recv s = (Throw e, s') \<and> P s')"
    and "P s" and "parser_inv ps msg" and "p_Unparsed ps = []"
  shows "\<exists>r ps' s'. Parse_loop recv ps s = Some (r, ps', s') \<and> P s'
    \<and> (r = Ret () \<longrightarrow> length (bytes_of (p_Unparsed ps')) + m s' < m s)"
  using assms(2-4)
proof (induction "m s" arbitrary: s ps msg rule: less_induct)
  case less
  show ?case
  proof (cases "\<exists>e s'. recv s = (Throw e, s') \<and> P s'")
    case True
    then show ?thesis by (subst Parse_loop.simps) auto
  next
    case False
    then obtain l s' where r: "recv s = (Ret l, s')" "P s'" "m s' + length (bytes_of l) \<le> m s" using step [OF less.prems(1)] by blast
    note p = ParseChunk_refines [OF less.prems(2), of l]
    show ?thesis
    proof (cases "FullLength l = 0")
      case True
      then show ?thesis using r by (subst Parse_loop.simps) simp
    next
      case nz: False
      show ?thesis
      proof (cases "byte_run (p_cs ps) msg (bytes_of l)")
        case (More st msg')
        then obtain ps' where ps': "ParseChunk l ps = (Ret False, [], ps')" "parser_inv ps' msg'" "p_Unparsed ps' = []"
          using p less.prems(3) by (auto simp: chunks_result_def)
        have lt: "m s' < m s" using r(3) nz unfolding FullLength_bytes by linarith
        have "Parse_loop recv ps s = Parse_loop recv ps' s'" using r(1) nz ps'(1) by (subst Parse_loop.simps) simp
        then show ?thesis using less.hyps [OF lt r(2) ps'(2,3)] lt by fastforce
      next
        case (Parsed msg' bs)
        then obtain ps' where ps': "ParseChunk l ps = (Ret True, [], ps')" "bytes_of (p_Unparsed ps') = bs"
          using p less.prems(3) by (auto simp: chunks_result_def)
        have "Parse_loop recv ps s = Some (Ret (), ps', s')" using r(1) nz ps'(1) by (subst Parse_loop.simps) simp
        then show ?thesis using r(2,3) byte_run_rest [OF Parsed] ps'(2) by auto
      next
        case Rejected
        then obtain l' ps' where "ParseChunk l ps = (Throw (HttpParseError 400), l', ps')" using p by (auto simp: chunks_result_def)
        then have "Parse_loop recv ps s = Some (Throw (HttpParseError 400), ps', s')" using r(1) nz by (subst Parse_loop.simps) simp
        then show ?thesis using r(2) by auto
      qed
    qed
  qed
qed

context io_input
begin

lemma ParsedRequest_total:
  assumes "inv (si_S it)"
  shows "\<exists>r req it'. ParsedRequest recv maxlen it = Some (r, req, it') \<and> inv (si_S it') \<and> (r = Ret () \<longrightarrow> left it' < left it)"
proof -
  note new = parser_inv_new [of "[]"]
  have u: "p_Unparsed (parser_new [] request_new) = []" by (simp add: parser_new_def)
  show ?thesis
  proof (cases "maxlen = 0")
    case True
    have st: "(\<exists>l s'. siter_Recv recv s = (Ret l, s') \<and> inv (si_S s') \<and> left s' + length (bytes_of l) \<le> left s)
        \<or> (\<exists>e s'. siter_Recv recv s = (Throw e, s') \<and> inv (si_S s'))" if "inv (si_S s)" for s
      using siter_Recv_left [OF that] by auto
    obtain r ps' it' where "Parse_loop (siter_Recv recv) (parser_new [] request_new) it = Some (r, ps', it')" "inv (si_S it')"
        "r = Ret () \<longrightarrow> length (bytes_of (p_Unparsed ps')) + left it' < left it"
      using Parse_loop_total [where P = "\<lambda>s. inv (si_S s)" and m = left, OF st assms new u] by blast
    then show ?thesis using True by (cases r) (auto simp: ParsedRequest_def Parse_def UnGet_left)
  next
    case False
    have st: "(\<exists>l s'. limited_Recv too_big (siter_Recv recv) s = (Ret l, s') \<and> inv (si_S (li_S s')) \<and> left (li_S s') + length (bytes_of l) \<le> left (li_S s))
        \<or> (\<exists>e s'. limited_Recv too_big (siter_Recv recv) s = (Throw e, s') \<and> inv (si_S (li_S s')))" if ok: "inv (si_S (li_S s))" for s
    proof (cases "li_L s = 0")
      case True
      then show ?thesis using ok by (simp add: limited_Recv_def too_big_def)
    next
      case False
      obtain l it' where l: "siter_Recv recv (li_S s) = (Ret l, it')" "inv (si_S it')" "left (li_S s) = length (bytes_of l) + left it'"
        using siter_Recv_left [OF ok] by blast
      obtain b where "Cut (li_L s) l = Ret b" "bytes_of b = take (li_L s) (bytes_of l)" by (rule Cut_spec [of "li_L s" l]) blast
      then show ?thesis using l False by (simp add: limited_Recv_def)
    qed
    have i: "inv (si_S (li_S (limited_new it maxlen)))" using assms by (simp add: limited_new_def)
    obtain r ps' lim where "Parse_loop (limited_Recv too_big (siter_Recv recv)) (parser_new [] request_new) (limited_new it maxlen) = Some (r, ps', lim)"
        "inv (si_S (li_S lim))" "r = Ret () \<longrightarrow> length (bytes_of (p_Unparsed ps')) + left (li_S lim) < left (li_S (limited_new it maxlen))"
      using Parse_loop_total [where P = "\<lambda>s. inv (si_S (li_S s))" and m = "\<lambda>s. left (li_S s)", OF st i new u] by blast
    then show ?thesis using False by (cases r) (auto simp: ParsedRequest_def Parse_def UnGet_left limited_new_def)
  qed
qed

lemma RunEncoded_left:
  assumes "inv (si_S it)" and "RunEncoded tr recv send M len hs it ou = (r, it', ou')"
  shows "inv (si_S it') \<and> left it' \<le> left it"
  using RunEncoded_iter [where P = "\<lambda>j. inv (si_S j) \<and> left j \<le> left it", of recv it tr send M len hs ou] body_Recv_left assms
  by fastforce

lemma context_Run_total:
  assumes "inv (si_S it)"
  shows "\<exists>r it' ou'. context_Run hmatch M parent recv send it ou = Some (r, it', ou') \<and> inv (si_S it')
    \<and> (\<forall>k. r = Ret k \<longrightarrow> left it' < left it)"
proof -
  obtain r req0 it1 where p: "ParsedRequest recv (hm_MaxLen parent) it = Some (r, req0, it1)" "inv (si_S it1)"
      "r = Ret () \<longrightarrow> left it1 < left it"
    using ParsedRequest_total [OF assms] by blast
  show ?thesis
  proof (cases r)
    case (Ret u)
    obtain props req where q: "request_props hmatch req0 = (props, req)" by fastforce
    let ?keep = "qp_KeepAlive props \<and> hm_KeepAlive parent"
    let ?hs = "if ?keep then [] else [connection_close]"
    obtain r2 it2 ou2 where e: "(if qp_ChunkedTransfer props
        then RunEncoded ChunkedTransfer recv send (M req) (qp_ContentLength props) (Push transfer_chunked ?hs) it1 ou
        else RunEncoded IdentityTransfer recv send (M req) (qp_ContentLength props) ?hs it1 ou) = (r2, it2, ou2)"
      by (metis prod_cases3)
    have "inv (si_S it2) \<and> left it2 \<le> left it1"
    proof (cases "qp_ChunkedTransfer props")
      case True
      show ?thesis by (rule RunEncoded_left [OF p(2) e [unfolded if_P [OF True]]])
    next
      case False
      show ?thesis by (rule RunEncoded_left [OF p(2) e [unfolded if_not_P [OF False]]])
    qed
    moreover have "context_Run hmatch M parent recv send it ou = Some (if FullLength (r_Request req) > hm_MaxReq parent
        then (Throw (HttpParseError 414), it1, ou) else (map_outcome_val (\<lambda>_. ?keep) r2, it2, ou2))"
      using p(1) Ret q e by (simp add: context_Run_def Let_def)
    ultimately show ?thesis using p(2,3) Ret by auto
  qed (use p in \<open>auto simp: context_Run_def\<close>)
qed

lemma http_loop_total:
  assumes "inv (si_S it)"
  shows "\<exists>res. http_loop hmatch M recv send n m it ou = Some res"
  using assms
proof (induction "left it" arbitrary: it n ou rule: less_induct)
  case less
  obtain b it1 where p: "si_Peek recv it = (Ret b, it1)" "inv (si_S it1)" "left it1 = left it" using Peek_left [OF less.prems] by blast
  then have pk: "http_Peek recv it = (Ret b, it1)" by (simp add: http_Peek_def)
  obtain r it2 ou2 where c: "context_Run hmatch (M n) m recv send it1 ou = Some (r, it2, ou2)" "inv (si_S it2)" "\<forall>k. r = Ret k \<longrightarrow> left it2 < left it1"
    using context_Run_total [OF p(2), of hmatch "M n" m send ou] by blast
  show ?case
  proof (cases "b \<and> r = Ret True")
    case True
    then have "http_loop hmatch M recv send n m it ou = http_loop hmatch M recv send (Suc n) m it2 ou2"
      using pk c(1) by (subst http_loop.simps) simp
    moreover have "left it2 < left it" using c(3) p(3) True by metis
    ultimately show ?thesis using less.hyps [OF _ c(2)] by simp
  next
    case False
    then show ?thesis using pk c(1) by (cases r) (subst http_loop.simps, auto)+
  qed
qed

end

section \<open>Where a request ends\<close>

context io_input_nonempty
begin

lemma Parse_unparsed:
  assumes "inv s" and "unparsed_ok ps" and "request_ok (p_Request ps)" and "Parse_loop recv ps s = Some (Ret (), ps', s')"
  shows "unparsed_ok ps' \<and> request_ok (p_Request ps') \<and> inv s'"
  using assms
proof (induction "length (content s)" arbitrary: s ps rule: less_induct)
  case less
  obtain l s1 where r: "recv s = (Ret l, s1)" "inv s1" "content s = bytes_of l @ content s1"
    and eof: "bytes_of l = [] \<longleftrightarrow> l = []" using recvE [OF less.prems(1)] by metis
  have ne: "[] \<notin> set l" by (rule recv_nonempty [OF less.prems(1) r(1)])
  have nz: "FullLength l \<noteq> 0" using less.prems(4) r(1) by (subst (asm) Parse_loop.simps) (auto split: if_splits)
  obtain x lst ps1 where p: "ParseChunk l ps = (x, lst, ps1)" by (metis prod_cases3)
  have u: "unparsed_ok ps1" "request_ok (p_Request ps1)"
    using ParseChunk_unparsed [OF ne less.prems(2)] ParseChunk_request [OF ne less.prems(3)] p by simp_all
  have eq: "Parse_loop recv ps s = (case x of Ret ok \<Rightarrow> if ok then Some (Ret (), ps1, s1) else Parse_loop recv ps1 s1
      | Throw e \<Rightarrow> Some (Throw e, ps1, s1) | Crash \<Rightarrow> Some (Crash, ps1, s1))"
    using r(1) nz p by (subst Parse_loop.simps) (simp split: outcome.split)
  have "length (content s1) < length (content s)" using r(3) nz by (simp add: FullLength_bytes)
  then show ?case using less.hyps [OF _ r(2) u] less.prems(4) eq u r(2) by (auto split: outcome.splits if_splits)
qed

lemma ParsedRequest_spec:
  assumes "siter_inv inv it" and "message_ok msg" and "siter_content content it = message_bytes msg @ CRLF @ rest"
  shows "\<exists>req it'. ParsedRequest recv 0 it = Some (Ret (), req, it') \<and> message_of req = msg \<and> siter_inv inv it'
    \<and> siter_content content it' = rest"
proof -
  note si = siter_io_input
  have b: "byte_run Start ([], []) (siter_content content it) = Parsed msg rest" using run_printed [OF assms(2)] assms(3) by simp
  have io: "io_input (siter_Recv recv) (siter_inv inv) (siter_content content)" using si by (simp add: io_input_nonempty_def)
  obtain req u it1 where p: "Parse (siter_Recv recv) [] request_new it = Some (Ret (), req, u, it1)" "siter_inv inv it1"
      "message_of req = msg" "bytes_of u @ siter_content content it1 = rest"
    using io_input.Parse_refines [OF io assms(1)] b by auto
  then obtain ps' where ps': "Parse_loop (siter_Recv recv) (parser_new [] request_new) it = Some (Ret (), ps', it1)" "p_Unparsed ps' = u"
    by (auto simp: Parse_def)
  have "unparsed_ok (parser_new [] request_new)" "request_ok (p_Request (parser_new [] request_new))"
    by (simp_all add: unparsed_ok_def request_ok_def parser_new_def request_new_def)
  then have "[] \<notin> set u" using io_input_nonempty.Parse_unparsed [OF si assms(1) _ _ ps'(1)] ps'(2) by (simp add: unparsed_ok_def)
  then show ?thesis using p UnGet_content [OF p(2), of u] by (auto simp: ParsedRequest_def)
qed

text \<open>The module below takes at most the body.\<close>

definition framed :: "bytes \<Rightarrow> nat \<Rightarrow> 'a body_input \<Rightarrow> bool" where
  "framed tail n b \<longleftrightarrow> siter_inv inv (body_iter b) \<and>
     (case b of FixedBody f \<Rightarrow> \<exists>k \<le> n. unat (fi_Len f) = n - k \<and> siter_content content (fi_it f) = drop k tail
      | NullBody it \<Rightarrow> siter_content content it = tail)"

lemma framed_Recv: "framed tail n b \<Longrightarrow> framed tail n (snd (body_Recv recv b))"
proof (cases b)
  case (FixedBody f)
  assume fr: "framed tail n b"
  then obtain k where k: "siter_inv inv (fi_it f)" "k \<le> n" "unat (fi_Len f) = n - k" "siter_content content (fi_it f) = drop k tail"
    using FixedBody by (auto simp: framed_def)
  show ?thesis
  proof (cases "fi_Len f = 0")
    case True
    then show ?thesis using fr FixedBody by (simp add: fixed_Recv_def)
  next
    case False
    obtain l it' where l: "si_NextLen recv (unat (fi_Len f)) [] (fi_it f) = (Ret l, it')" "siter_inv inv it'"
        "siter_content content (fi_it f) = bytes_of l @ siter_content content it'" "length (bytes_of l) \<le> unat (fi_Len f)"
      using NextLen_spec [OF k(1), of "unat (fi_Len f)"] by blast
    have u: "unat (of_nat (FullLength l) :: ui64) = length (bytes_of l)"
      using l(4) by (intro trans [OF of_nat_small]) (auto simp: FullLength_bytes intro: le_less_trans [OF _ unsigned_less [of "fi_Len f", where ?'a = nat, simplified]])
    then have "unat (fi_Len f - of_nat (FullLength l)) = n - (k + length (bytes_of l))"
      using l(4) k(3) by (simp add: unat_sub word_le_nat_alt)
    moreover have "siter_content content it' = drop (k + length (bytes_of l)) tail"
      using l(3) k(4) by (metis append_eq_conv_conj drop_drop add.commute)
    moreover have "k + length (bytes_of l) \<le> n" using l(4) k(2,3) by simp
    ultimately show ?thesis using FixedBody False l(1,2) by (auto simp: framed_def fixed_Recv_def)
  qed
qed (simp add: null_Recv_def)

lemma framed_iter:
  assumes "framed tail n b"
  shows "\<exists>k \<le> n. siter_inv inv (body_iter b) \<and> siter_content content (body_iter b) = drop k tail"
  using assms by (cases b) (auto simp: framed_def intro: exI [of _ 0])

lemma RunEncoded_framed:
  assumes "siter_inv inv it" and "siter_content content it = tail"
  shows "\<exists>k \<le> unat len. siter_inv inv (fst (snd (RunEncoded tr recv send M len hs it ou)))
    \<and> siter_content content (fst (snd (RunEncoded tr recv send M len hs it ou))) = drop k tail"
proof -
  let ?b = "if len \<noteq> 0 then FixedBody \<lparr>fi_it = it, fi_Len = len\<rparr> else NullBody it"
  have "framed tail (unat len) ?b" using assms by (auto simp: framed_def intro: exI [of _ 0])
  then have "framed tail (unat len) (fst (snd (run_prog (body_Recv recv) (encoder_Send tr send) M ?b (encoder_new ou hs))))"
    by (intro run_prog_preserves [where P = "framed tail (unat len)"] framed_Recv)
  from framed_iter [OF this] show ?thesis
    by (auto simp: RunEncoded_def RunDecoded_def Let_def split: prod.splits outcome.splits)
qed

end

section \<open>Properties\<close>

text \<open>
  C4. The http module ends on every finite stream: whatever bytes a client sends, however they are cut,
  with or without a limit on the request, and whatever the module below reads, sends or throws, the
  keep-alive loop of \<open>DoRun\<close> returns or throws after finitely many requests, for each of them takes at
  least one byte.
\<close>

theorem http_module_ends:
  assumes "io_input r i c" and "i s"
  shows "\<exists>res m' it' ou'. http_DoRun hmatch M r send m s ou = Some (res, m', it', ou')"
proof -
  have "i (si_S (siter_new s))" using assms(2) by (simp add: siter_new_def)
  from io_input.http_loop_total [OF assms(1) this, of hmatch M send 0 m ou] show ?thesis
    unfolding http_DoRun_def by (metis prod_cases4)
qed

theorem http_module_ends_witness:
  "\<exists>res m' it' ou'. http_DoRun (\<lambda>_. None) (\<lambda>_ _. Done) owned_Recv std_Send
     \<lparr>hm_ParseError = 0, hm_Discarded = 0, hm_MaxLen = 0, hm_MaxReq = 100, hm_KeepAlive = True\<rparr> [''GET'', '' /''] []
     = Some (res, m', it', ou')"
proof -
  have i: "owned_inv [''GET'', '' /'']" by (simp add: owned_inv_def)
  note t = http_module_ends [where r = owned_Recv and i = owned_inv and c = bytes_of, OF own.io_input_axioms]
  show ?thesis by (rule t [OF i])
qed

text \<open>
  C5. Request framing, with no \<open>maxlen\<close> configured (\<open>hm_MaxLen m = 0\<close>, the default). On a connection that holds a
  well-formed request followed by anything, the context of the http module parses exactly the request line and the headers, drops the hop-by-hop headers it
  recognises, rejects a line over the limit with code 414 before the module below runs, and otherwise
  runs that module with the remaining headers and lets it take from the connection at most as many
  bytes as \<open>Content-Length\<close> says: what is behind them is still there for the next request. With \<open>maxlen\<close> this
  is false: the bytes received behind the limit are lost (\<open>http_maxlen_loses_data\<close>).
\<close>

theorem http_request_framing:
  assumes "io_input_nonempty r i c" and "siter_inv i it" and "hm_MaxLen m = 0" and "message_ok msg"
    and "siter_content c it = message_bytes msg @ CRLF @ tail"
  shows "\<exists>req it1. message_of req = kept hmatch msg \<and> siter_inv i it1 \<and> siter_content c it1 = tail
    \<and> (if length (fst msg) > hm_MaxReq m
       then context_Run hmatch M m r send it ou = Some (Throw (HttpParseError 414), it1, ou)
       else \<exists>tr hs res it' ou' k keep. RunEncoded tr r send (M req) (content_length hmatch (snd msg)) hs it1 ou = (res, it', ou')
         \<and> context_Run hmatch M m r send it ou = Some (map_outcome_val (\<lambda>_. keep) res, it', ou')
         \<and> k \<le> unat (content_length hmatch (snd msg)) \<and> siter_inv i it' \<and> siter_content c it' = drop k tail)"
proof -
  obtain req0 it1 where p: "ParsedRequest r 0 it = Some (Ret (), req0, it1)" "message_of req0 = msg" "siter_inv i it1"
      "siter_content c it1 = tail"
    using io_input_nonempty.ParsedRequest_spec [OF assms(1,2,4,5)] by blast
  obtain req where q: "response_props hmatch req0 = (\<lparr>rp_ChunkedTransfer = is_chunked hmatch (snd msg),
      rp_ContentLength = content_length hmatch (snd msg)\<rparr>, req)" "message_of req = kept hmatch msg" "r_Request req = r_Request req0"
    using response_props_spec [OF p(2)] by blast
  have line: "FullLength (r_Request req) = length (fst msg)" using p(2) q(3) by (auto simp: FullLength_bytes message_of_def)
  let ?len = "content_length hmatch (snd msg)" and ?v = "HttpVersion (r_Request req0) \<noteq> 0"
  let ?keep = "?v \<and> hm_KeepAlive m"
  let ?tr = "if ?v then ChunkedTransfer else IdentityTransfer"
  let ?hs = "(if ?v then Push transfer_chunked else (\<lambda>x. x)) (if ?keep then [] else [connection_close])"
  obtain res it' ou' where e: "RunEncoded ?tr r send (M req) ?len ?hs it1 ou = (res, it', ou')" by (metis prod_cases3)
  obtain k where "k \<le> unat ?len" "siter_inv i it'" "siter_content c it' = drop k tail"
    using io_input_nonempty.RunEncoded_framed [OF assms(1) p(3,4), of ?len ?tr send "M req" ?hs ou] e by auto
  moreover have "context_Run hmatch M m r send it ou = Some (if length (fst msg) > hm_MaxReq m
      then (Throw (HttpParseError 414), it1, ou) else (map_outcome_val (\<lambda>_. ?keep) res, it', ou'))"
    using p(1) q(1) assms(3) line e by (simp add: context_Run_def request_props_def Let_def split: if_splits)
  ultimately show ?thesis using e p(3,4) q(2)
    by (intro exI [of _ req] exI [of _ it1]) (cases "length (fst msg) > hm_MaxReq m"; auto)
qed

theorem http_request_framing_witness:
  "\<exists>req it1. message_of req = (''GET /1'', [])
    \<and> siter_content bytes_of it1 = ''abcd''
    \<and> context_Run (\<lambda>k. if k = ''L'' then Some 2 else None) (\<lambda>_. Done)
        \<lparr>hm_ParseError = 0, hm_Discarded = 0, hm_MaxLen = 0, hm_MaxReq = 2, hm_KeepAlive = True\<rparr>
        owned_Recv std_Send \<lparr>si_L = [''GET /'', ''1'' @ CRLF @ ''L: 3'' @ CRLF @ CRLF @ ''ab'', ''cd''], si_S = []\<rparr> []
      = Some (Throw (HttpParseError 414), it1, [])"
proof -
  let ?it = "\<lparr>si_L = [''GET /'', ''1'' @ CRLF @ ''L: 3'' @ CRLF @ CRLF @ ''ab'', ''cd''], si_S = []\<rparr>"
  let ?m = "\<lparr>hm_ParseError = 0, hm_Discarded = 0, hm_MaxLen = 0, hm_MaxReq = 2, hm_KeepAlive = True\<rparr>"
  have i: "siter_inv owned_inv ?it" by (simp add: siter_inv_def owned_inv_def CRLF_def)
  have m: "message_ok (''GET /1'', [(''L'', ''3'')])" by (simp add: message_ok_def value_ok_def is_hchar_def is_char_def is_hdelim_def)
  have c: "siter_content bytes_of ?it = message_bytes (''GET /1'', [(''L'', ''3'')]) @ CRLF @ ''abcd''"
    by (simp add: siter_content_def message_bytes_def HDRD_def CRLF_def)
  have l: "hm_MaxLen ?m = 0" by simp
  note t = http_request_framing [where r = owned_Recv and i = owned_inv and c = bytes_of, OF own.io_input_nonempty_axioms]
  show ?thesis using t [OF i l m c, of "\<lambda>k. if k = ''L'' then Some 2 else None" "\<lambda>_. Done" std_Send "[]"]
    by (auto simp: kept_def)
qed

text \<open>
  A limit on the request loses data. When \<open>maxlen\<close> is set and the iterator hands over more than
  \<open>maxlen\<close> bytes at once, a request that itself fits the limit is parsed, but of the bytes behind it
  (its body, or the next requests) only those within the first \<open>maxlen\<close> bytes of the stream are put back:
  the rest has been cut off and is gone.
\<close>

theorem http_maxlen_loses_data:
  assumes "l \<noteq> []" and "[] \<notin> set l" and "message_ok msg" and "bytes_of l = message_bytes msg @ CRLF @ tail"
    and "length (message_bytes msg) + 2 \<le> maxlen"
  shows "\<exists>req it'. ParsedRequest r maxlen \<lparr>si_L = l, si_S = s\<rparr> = Some (Ret (), req, it') \<and> message_of req = msg
    \<and> si_S it' = s \<and> bytes_of (si_L it') = take (maxlen - (length (message_bytes msg) + 2)) tail"
proof -
  let ?it = "\<lparr>si_L = l, si_S = s\<rparr>" and ?rest = "take (maxlen - (length (message_bytes msg) + 2)) tail"
  obtain b where b: "Cut maxlen l = Ret b" "bytes_of b = take maxlen (bytes_of l)" by (rule Cut_spec [of maxlen l]) blast
  obtain k where k: "maxlen = length (message_bytes msg) + 2 + k" using assms(5) le_Suc_ex by blast
  have bb: "bytes_of b = message_bytes msg @ CRLF @ ?rest" using b(2) assms(4) by (simp add: k CRLF_def)
  have ml: "maxlen \<noteq> 0" using assms(5) by simp
  have r: "limited_Recv too_big (siter_Recv r) (limited_new ?it maxlen)
      = (Ret b, \<lparr>li_S = \<lparr>si_L = [], si_S = s\<rparr>, li_L = maxlen - FullLength b\<rparr>)"
    using b(1) assms(1) ml by (simp add: limited_Recv_def limited_new_def siter_Recv_def si_NextAll_def si_Peek_def MoveTo_def)
  have p: "byte_run Start ([], []) (bytes_of b) = Parsed msg ?rest" unfolding bb by (rule run_printed [OF assms(3)])
  obtain ps' where ps': "ParseChunk b (parser_new [] request_new) = (Ret True, [], ps')" "message_of (p_Request ps') = msg"
      "bytes_of (p_Unparsed ps') = ?rest"
    using ParseChunk_refines [OF parser_inv_new [of "[]"], of b] p by (auto simp: chunks_result_def parser_new_def)
  have "FullLength b \<noteq> 0" using bb by (simp add: FullLength_bytes CRLF_def)
  then have "Parse_loop (limited_Recv too_big (siter_Recv r)) (parser_new [] request_new) (limited_new ?it maxlen)
      = Some (Ret (), ps', \<lparr>li_S = \<lparr>si_L = [], si_S = s\<rparr>, li_L = maxlen - FullLength b\<rparr>)"
    using r ps'(1) by (subst Parse_loop.simps) simp
  then show ?thesis using ml ps'(2,3) by (simp add: ParsedRequest_def Parse_def si_UnGet_def MoveTo_def)
qed

theorem http_maxlen_loses_data_witness:
  "\<exists>req it'. ParsedRequest owned_Recv 8 \<lparr>si_L = [''GET'' @ CRLF @ CRLF @ ''body''], si_S = []\<rparr> = Some (Ret (), req, it')
    \<and> message_of req = (''GET'', []) \<and> si_S it' = [] \<and> bytes_of (si_L it') = ''b''"
proof -
  let ?l = "[''GET'' @ CRLF @ CRLF @ ''body'']"
  have a: "?l \<noteq> []" and b: "[] \<notin> set ?l" by (simp_all add: CRLF_def)
  have m: "message_ok (''GET'', [])" by (simp add: message_ok_def is_char_def)
  have c: "bytes_of ?l = message_bytes (''GET'', []) @ CRLF @ ''body''" by (simp add: message_bytes_def)
  have n: "length (message_bytes (''GET'', [])) + 2 \<le> 8" by (simp add: message_bytes_def CRLF_def)
  show ?thesis using http_maxlen_loses_data [OF a b m c n, of owned_Recv "[]"] by (simp add: message_bytes_def CRLF_def)
qed

end
