(* ===== verification/Proxy.thy ===== *)
theory Proxy
  imports Httpmod
begin

text \<open>
  The proxy module: the input that reads the response of a backend (\<open>TLimitedBackEndInput\<close> in
  web/httpd/modules/proxy/module.cpp) and the loop that copies a stream (\<open>TWorker\<close> in proxy.cpp).

  \<open>BuildInputChain\<close> parses the headers, drops the recognised ones and builds the chain that delivers the
  body: chunked, limited by \<open>Content-Length\<close>, or up to the end of the connection. \<open>P_\<close> lies in a buffer of
  the object; the model keeps it as a value. The slave \<open>S_\<close> is reached through the chain once it is built.
\<close>

section \<open>Operations\<close>

datatype 's backend_input =
    BI_New 's
  | BI_Chunked "(chunks, 's) concat_input chunked"
  | BI_Limited "(chunks, 's) concat_input limited"
  | BI_Concat "(chunks, 's) concat_input"

text \<open>\<open>THelper\<close> and \<open>TPrechargedConcatInput\<close>: the unparsed rest in front of the slave.\<close>

definition helper_Recv :: "'s recv \<Rightarrow> (chunks, 's) concat_input recv" where
  "helper_Recv recv = concat_Recv owned_Recv recv"

definition helper_new :: "chunks \<Rightarrow> 's \<Rightarrow> (chunks, 's) concat_input" where
  "helper_new unparsed slave = concat_new unparsed slave"

definition BuildInputChain :: "header_match \<Rightarrow> 's recv \<Rightarrow> 's \<Rightarrow> chunks outcome \<times> 's backend_input" where
  "BuildInputChain hmatch recv s =
     (case Parse recv [] request_new s of
        None \<Rightarrow> (Crash, BI_New s)
      | Some (Throw e, _, _, s') \<Rightarrow> (Throw e, BI_New s')
      | Some (Crash, _, _, s') \<Rightarrow> (Crash, BI_New s')
      | Some (Ret _, r0, unparsed, s') \<Rightarrow>
          (let (props, r) = response_props hmatch r0; lst = BuildTo r []; h = helper_new unparsed s' in
           if rp_ChunkedTransfer props then
             (case chunked_new (helper_Recv recv) h of
                None \<Rightarrow> (Crash, BI_New s')
              | Some (Ret st, _) \<Rightarrow> (Ret lst, BI_Chunked st)
              | Some (Throw e, it) \<Rightarrow> (Throw e, BI_New (ci_second (si_S it)))
              | Some (Crash, it) \<Rightarrow> (Crash, BI_New (ci_second (si_S it))))
           else if rp_ContentLength props \<noteq> 0 then (Ret lst, BI_Limited (limited_new h (unat (rp_ContentLength props))))
           else (Ret lst, BI_Concat h)))"

text \<open>\<open>TErrHndl::OnErr\<close> of the limited input does nothing.\<close>

fun backend_Recv :: "header_match \<Rightarrow> 's recv \<Rightarrow> 's backend_input recv" where
  "backend_Recv hmatch recv (BI_New s) = BuildInputChain hmatch recv s"
| "backend_Recv hmatch recv (BI_Chunked st) = (case chunked_Recv (helper_Recv recv) st of (r, st') \<Rightarrow> (r, BI_Chunked st'))"
| "backend_Recv hmatch recv (BI_Limited st) = (case limited_Recv (Ret ()) (helper_Recv recv) st of (r, st') \<Rightarrow> (r, BI_Limited st'))"
| "backend_Recv hmatch recv (BI_Concat st) = (case helper_Recv recv st of (r, st') \<Rightarrow> (r, BI_Concat st'))"

text \<open>\<open>TWorker::Run\<close>.\<close>

partial_function (option) worker_Run :: "'s recv \<Rightarrow> 'o send \<Rightarrow> 's \<Rightarrow> 'o \<Rightarrow> (unit outcome \<times> 's \<times> 'o) option" where
  "worker_Run recv send s ou =
     (case recv s of
        (Ret lst, s') \<Rightarrow>
          (if lst = [] then Some (Ret (), s', ou)
           else (case send lst ou of
                   (Ret _, o') \<Rightarrow> worker_Run recv send s' o'
                 | (Throw e, o') \<Rightarrow> Some (Throw e, s', o')
                 | (Crash, o') \<Rightarrow> Some (Crash, s', o')))
      | (Throw e, s') \<Rightarrow> Some (Throw e, s', ou)
      | (Crash, s') \<Rightarrow> Some (Crash, s', ou))"

text \<open>\<open>operator()\<close> of the worker that runs as a coroutine: exceptions end it silently.\<close>

definition worker_call :: "'s recv \<Rightarrow> 'o send \<Rightarrow> 's \<Rightarrow> 'o \<Rightarrow> (unit outcome \<times> 's \<times> 'o) option" where
  "worker_call recv send s ou =
     map_option (\<lambda>(r, s', o'). (case r of Crash \<Rightarrow> Crash | _ \<Rightarrow> Ret (), s', o')) (worker_Run recv send s ou)"

section \<open>The lists an input delivers\<close>

inductive delivers :: "'s recv \<Rightarrow> 's \<Rightarrow> chunks list \<Rightarrow> 's \<Rightarrow> bool" for recv where
  delivers_end: "recv s = (Ret [], s') \<Longrightarrow> delivers recv s [] s'"
| delivers_list: "recv s = (Ret l, s1) \<Longrightarrow> l \<noteq> [] \<Longrightarrow> delivers recv s1 ls s' \<Longrightarrow> delivers recv s (l # ls) s'"

lemma delivers_worker:
  "delivers recv s ls s' \<Longrightarrow> (\<And>l ou. \<exists>o'. send l ou = (Ret (), o')) \<Longrightarrow> \<exists>o'. worker_Run recv send s ou = Some (Ret (), s', o')"
proof (induction arbitrary: ou rule: delivers.induct)
  case (delivers_end s s')
  then show ?case by (subst worker_Run.simps) simp
next
  case (delivers_list s l s1 ls s')
  obtain o' where "send l ou = (Ret (), o')" using delivers_list.prems by blast
  then show ?case using delivers_list by (subst worker_Run.simps) simp
qed

text \<open>Copying to an encoder and finishing it is the run of the encoder on the delivered lists.\<close>

lemma delivers_encoder:
  assumes "delivers recv s ls s'" and "encoder_run tr send ls enc = (Ret (), enc')"
  shows "\<exists>enc1. worker_Run recv (encoder_Send tr send) s enc = Some (Ret (), s', enc1) \<and> encoder_Finish tr send enc1 = (Ret (), enc')"
  using assms
proof (induction arbitrary: enc rule: delivers.induct)
  case (delivers_end s s')
  then show ?case by (subst worker_Run.simps) simp
next
  case (delivers_list s l s1 ls s')
  obtain r e1 where e: "encoder_Send tr send l enc = (r, e1)" by fastforce
  then have "r = Ret ()" "encoder_run tr send ls e1 = (Ret (), enc')" using delivers_list.prems by (auto split: outcome.splits)
  then show ?case using e delivers_list by (subst worker_Run.simps) simp
qed

definition data_ok :: "chunks \<Rightarrow> bool" where
  "data_ok l \<longleftrightarrow> bytes_of l \<noteq> []"

context io_input
begin

lemma io_delivers:
  assumes "inv s"
  shows "\<exists>ls s'. delivers recv s ls s' \<and> list_all data_ok ls \<and> concat (map bytes_of ls) = content s"
  using assms
proof (induction "length (content s)" arbitrary: s rule: less_induct)
  case less
  obtain l s1 where r: "recv s = (Ret l, s1)" "inv s1" "content s = bytes_of l @ content s1"
    and eof: "bytes_of l = [] \<longleftrightarrow> l = []" "l = [] \<Longrightarrow> content s = []"
    using recvE [OF less.prems] by metis
  show ?case
  proof (cases "l = []")
    case True
    then show ?thesis using r(1) eof(2) delivers_end [of recv s s1] by (intro exI [of _ "[]"]) auto
  next
    case False
    then have "length (content s1) < length (content s)" using r(3) eof by simp
    from less.hyps [OF this r(2)] obtain ls s' where "delivers recv s1 ls s'" "list_all data_ok ls" "concat (map bytes_of ls) = content s1"
      by blast
    then show ?thesis using delivers_list [of recv s l s1, OF r(1) False] r(3) eof(1) False by (intro exI [of _ "l # ls"]) (auto simp: data_ok_def)
  qed
qed

end

context io_input_nonempty
begin

lemma chunked_delivers:
  assumes "spells st body"
  shows "\<exists>ls st'. delivers (chunked_Recv recv) st ls st' \<and> list_all data_ok ls \<and> concat (map bytes_of ls) = body"
  using assms
proof (induction "length body" arbitrary: body st rule: less_induct)
  case less
  obtain l st1 body1 where r: "chunked_Recv recv st = (Ret l, st1)" "spells st1 body1" "body = bytes_of l @ body1"
      "if body = [] then l = [] else bytes_of l \<noteq> []"
    using chunked_step [OF less.prems] by blast
  show ?case
  proof (cases "body = []")
    case True
    then show ?thesis using r(1,4) delivers_end [of "chunked_Recv recv" st st1] by (intro exI [of _ "[]"]) auto
  next
    case False
    then have bl: "bytes_of l \<noteq> []" using r(4) by simp
    then have lt: "length body1 < length body" by (simp add: r(3))
    obtain ls st' where "delivers (chunked_Recv recv) st1 ls st'" "list_all data_ok ls" "concat (map bytes_of ls) = body1"
      using less.hyps [OF lt r(2)] by blast
    moreover have "l \<noteq> []" using bl by auto
    ultimately show ?thesis using delivers_list [of "chunked_Recv recv" st l st1, OF r(1)] bl by (intro exI [of _ "l # ls"]) (auto simp: data_ok_def r(3))
  qed
qed

end

lemma delivers_wrap:
  assumes "delivers recv s ls s'" and "\<And>s. recv' (f s) = (case recv s of (r, s1) \<Rightarrow> (r, f s1))"
  shows "delivers recv' (f s) ls (f s')"
  using assms(1) by induction (auto intro: delivers.intros simp: assms(2))

section \<open>The response of a backend\<close>

lemma concat_nonempty:
  assumes "io_input_nonempty ra ia ca" and "io_input_nonempty rb ib cb"
  shows "io_input_nonempty (concat_Recv ra rb) (concat_inv ia ib) (concat_content ca cb)"
proof -
  have io: "io_input (concat_Recv ra rb) (concat_inv ia ib) (concat_content ca cb)"
    using assms by (intro concat_io_input) (simp_all add: io_input_nonempty_def)
  have ne: "[] \<notin> set l" if "concat_inv ia ib st" and "concat_Recv ra rb st = (Ret l, st')" for st l st'
    using that io_input_nonempty.recv_nonempty [OF assms(1)] io_input_nonempty.recv_nonempty [OF assms(2)]
    by (auto simp: concat_Recv_def concat_deref_def concat_inv_def null_Recv_def Let_def
        split: prod.splits outcome.splits if_splits input_ptr.splits)
  show ?thesis using io ne by (auto simp: io_input_nonempty_def io_input_nonempty_axioms_def)
qed

text \<open>The body that follows the headers, by the properties of the message.\<close>

definition body_of :: "header_match \<Rightarrow> message \<Rightarrow> bytes \<Rightarrow> bytes \<Rightarrow> bool" where
  "body_of hmatch msg tail body \<longleftrightarrow>
     (if is_chunked hmatch (snd msg) then \<exists>parts rest. parts_ok parts \<and> tail = chunk_stream parts @ rest \<and> body = concat parts
      else if content_length hmatch (snd msg) \<noteq> 0 then body = take (unat (content_length hmatch (snd msg))) tail
      else body = tail)"

context io_input_nonempty
begin

lemma helper_io:
  "io_input_nonempty (helper_Recv recv) (concat_inv owned_inv inv) (concat_content bytes_of content)"
  unfolding helper_Recv_def by (intro concat_nonempty own.io_input_nonempty_axioms io_input_nonempty_axioms)

lemma helper_new_spec:
  assumes "[] \<notin> set u" and "inv s"
  shows "concat_inv owned_inv inv (helper_new u s)" and "concat_content bytes_of content (helper_new u s) = bytes_of u @ content s"
  using assms by (auto simp: helper_new_def concat_inv_def concat_new_def concat_content_def owned_inv_def)

lemma body_delivers:
  assumes "[] \<notin> set u" and "inv s" and "body_of hmatch msg (bytes_of u @ content s) body"
  shows "\<exists>st ls st'. (if is_chunked hmatch (snd msg) then \<exists>it ct. chunked_new (helper_Recv recv) (helper_new u s) = Some (Ret ct, it) \<and> st = BI_Chunked ct
        else if content_length hmatch (snd msg) \<noteq> 0 then st = BI_Limited (limited_new (helper_new u s) (unat (content_length hmatch (snd msg))))
        else st = BI_Concat (helper_new u s))
    \<and> delivers (backend_Recv hmatch recv) st ls st' \<and> list_all data_ok ls \<and> concat (map bytes_of ls) = body"
proof -
  let ?h = "helper_new u s" and ?r = "helper_Recv recv"
  note h = helper_new_spec [OF assms(1,2)] and io = helper_io
  have io': "io_input ?r (concat_inv owned_inv inv) (concat_content bytes_of content)" using io by (simp add: io_input_nonempty_def)
  consider (chunked) "is_chunked hmatch (snd msg)" | (limited) "\<not> is_chunked hmatch (snd msg)" "content_length hmatch (snd msg) \<noteq> 0"
    | (rest) "\<not> is_chunked hmatch (snd msg)" "content_length hmatch (snd msg) = 0" by blast
  then show ?thesis
  proof cases
    case chunked
    then obtain parts rest where p: "parts_ok parts" "bytes_of u @ content s = chunk_stream parts @ rest" "body = concat parts"
      using assms(3) by (auto simp: body_of_def)
    have it: "siter_inv (concat_inv owned_inv inv) (siter_new ?h)"
      "siter_content (concat_content bytes_of content) (siter_new ?h) = [] @ chunk_stream parts @ rest"
      using h p(2) by (auto simp: siter_inv_def siter_new_def siter_content_def)
    obtain it' l where pl: "ParseNextChunkLength ?r (siter_new ?h) = Some (Ret l, it')"
        "\<And>st. io_input_nonempty.spells (concat_inv owned_inv inv) (concat_content bytes_of content) (st\<lparr>ct_it := it', ct_L := l\<rparr>) (concat parts)"
      using io_input_nonempty.length_then_spells [OF io it(1) p(1) _ it(2)] by auto
    let ?ct = "\<lparr>ct_it = it', ct_L = l\<rparr>"
    have n: "chunked_new ?r ?h = Some (Ret ?ct, it')" using pl(1) by (simp add: chunked_new_def)
    have "io_input_nonempty.spells (concat_inv owned_inv inv) (concat_content bytes_of content) ?ct (concat parts)" using pl(2) [of ?ct] by simp
    then obtain ls st' where d: "delivers (chunked_Recv ?r) ?ct ls st'" "list_all data_ok ls" "concat (map bytes_of ls) = body"
      using io_input_nonempty.chunked_delivers [OF io] p(3) by blast
    show ?thesis
      using chunked n d delivers_wrap [OF d(1), of "backend_Recv hmatch recv" BI_Chunked]
      by (intro exI [of _ "BI_Chunked ?ct"] exI [of _ ls] exI [of _ "BI_Chunked st'"]) auto
  next
    case limited
    let ?n = "unat (content_length hmatch (snd msg))"
    have li: "limited_inv (concat_inv owned_inv inv) (limited_new ?h ?n)"
      and lc: "limited_content (concat_content bytes_of content) (limited_new ?h ?n) = body"
      using h limited assms(3) by (auto simp: limited_inv_def limited_new_def limited_content_def body_of_def)
    obtain ls st' where d: "delivers (limited_Recv (Ret ()) ?r) (limited_new ?h ?n) ls st'" "list_all data_ok ls"
        "concat (map bytes_of ls) = body"
      using io_input.io_delivers [OF limited_io_input [OF io'] li] unfolding lc by blast
    then show ?thesis
      using limited delivers_wrap [OF d(1), of "backend_Recv hmatch recv" BI_Limited] by auto
  next
    case rest
    then obtain ls st' where d: "delivers ?r ?h ls st'" "list_all data_ok ls" "concat (map bytes_of ls) = body"
      using io_input.io_delivers [OF io' h(1)] h(2) assms(3) by (auto simp: body_of_def)
    then show ?thesis
      using rest delivers_wrap [OF d(1), of "backend_Recv hmatch recv" BI_Concat] by auto
  qed
qed

lemma backend_delivers:
  assumes "inv s" and "message_ok msg" and "content s = message_bytes msg @ CRLF @ tail" and "body_of hmatch msg tail body"
  shows "\<exists>r ls st'. delivers (backend_Recv hmatch recv) (BI_New s) (BuildTo r [] # ls) st' \<and> message_of r = kept hmatch msg
    \<and> request_ok r \<and> list_all data_ok ls \<and> concat (map bytes_of ls) = body"
proof -
  have b: "byte_run Start ([], []) (content s) = Parsed msg tail" using run_printed [OF assms(2)] assms(3) by simp
  obtain r0 u s' where p: "Parse recv [] request_new s = Some (Ret (), r0, u, s')" "inv s'" "message_of r0 = msg" "bytes_of u @ content s' = tail"
    using Parse_refines [OF assms(1)] b by auto
  then obtain ps' where ps': "Parse_loop recv (parser_new [] request_new) s = Some (Ret (), ps', s')" "p_Unparsed ps' = u"
    by (auto simp: Parse_def)
  have "unparsed_ok (parser_new [] request_new)" "request_ok (p_Request (parser_new [] request_new))"
    by (simp_all add: unparsed_ok_def request_ok_def parser_new_def request_new_def)
  then have u: "[] \<notin> set u" "request_ok r0"
    using Parse_unparsed [OF assms(1) _ _ ps'(1)] ps' p(1) by (auto simp: unparsed_ok_def Parse_def)
  have ok: "request_ok (snd (response_props hmatch r0))"
    using u(2) by (auto simp: response_props_def response_parse_spec request_ok_def list_all_iff)
  obtain r where q: "response_props hmatch r0 = (\<lparr>rp_ChunkedTransfer = is_chunked hmatch (snd msg),
      rp_ContentLength = content_length hmatch (snd msg)\<rparr>, r)" "message_of r = kept hmatch msg"
    using response_props_spec [OF p(3)] by blast
  have bt: "BuildTo r [] \<noteq> []" using BuildTo_bytes [of r "[]"] by (auto simp: CRLF_def)
  obtain st ls st' where d: "if is_chunked hmatch (snd msg) then \<exists>it ct. chunked_new (helper_Recv recv) (helper_new u s') = Some (Ret ct, it) \<and> st = BI_Chunked ct
        else if content_length hmatch (snd msg) \<noteq> 0 then st = BI_Limited (limited_new (helper_new u s') (unat (content_length hmatch (snd msg))))
        else st = BI_Concat (helper_new u s')" "delivers (backend_Recv hmatch recv) st ls st'" "list_all data_ok ls" "concat (map bytes_of ls) = body"
    using body_delivers [OF u(1) p(2) assms(4) [folded p(4)]] by blast
  have "backend_Recv hmatch recv (BI_New s) = (Ret (BuildTo r []), st)"
    using p(1) q(1) d(1) by (auto simp: BuildInputChain_def Let_def split: if_splits)
  then show ?thesis using delivers_list [of "backend_Recv hmatch recv" "BI_New s" "BuildTo r []" st ls st'] bt d(2-4) q ok by auto
qed

end

section \<open>Through the encoder to the client\<close>

context io_output
begin

lemma run_data_parts:
  assumes "en_Custom st = None" and "en_this st = []" and "list_all (\<lambda>l. length (bytes_of l) < 2 ^ 64) ls"
  shows "\<exists>st'. encoder_run tr send ls st = (Ret (), st') \<and> sent (en_S st') = sent (en_S st) @ body_stream tr (map bytes_of ls)"
  using assms
proof (induction ls arbitrary: st)
  case Nil
  then show ?case using run_data [of st "[]"] by simp
next
  case (Cons l ls)
  obtain o' where p: "encoder_part tr send l st = (Ret (), st\<lparr>en_this := [], en_S := o'\<rparr>)"
      "sent o' = sent (en_S st) @ part_bytes tr (bytes_of l)"
    using part_spec [of l tr st] Cons.prems by auto
  obtain st' where "encoder_run tr send ls (st\<lparr>en_this := [], en_S := o'\<rparr>) = (Ret (), st')"
      "sent (en_S st') = sent o' @ body_stream tr (map bytes_of ls)"
    using Cons.IH [of "st\<lparr>en_this := [], en_S := o'\<rparr>"] Cons.prems by auto
  then show ?case using p Cons.prems(1) by (simp add: encoder_Send_def body_stream_Cons)
qed

lemma encoder_message:
  assumes "message_ok (message_of r)" and "list_ok (BuildTo r [])" and "list_all (\<lambda>l. length (bytes_of l) < 2 ^ 64) ls"
  shows "\<exists>st'. encoder_run tr send (BuildTo r [] # ls) (encoder_new ou custom) = (Ret (), st')
    \<and> sent (en_S st') = sent ou @ message_bytes (message_of r) @ bytes_of custom @ CRLF @ body_stream tr (map bytes_of ls)"
proof -
  let ?st = "encoder_new ou custom"
  have c: "p_cs (en_parser ?st) = Start" "en_S ?st = ou" by (simp_all add: encoder_new_def push_parse_new_def parser_new_def)
  have "byte_run Start ([], []) (bytes_of (BuildTo r [])) = Parsed (message_of r) []"
    using run_printed [OF assms(1), of "[]"] by (simp add: BuildTo_bytes)
  then obtain st1 where s: "encoder_Send tr send (BuildTo r []) ?st = (Ret (), st1)" "en_Custom st1 = None" "en_this st1 = []"
      "sent (en_S st1) = sent ou @ message_bytes (message_of r) @ bytes_of custom @ CRLF"
    using Send_header [OF encoder_new_phase [of ou custom] assms(2), of tr] c by auto
  then show ?thesis using run_data_parts [OF s(2,3) assms(3), of tr] by auto
qed

end

lemma BuildTo_ok: "request_ok r \<Longrightarrow> [] \<notin> set (BuildTo r [])"
proof -
  assume r: "request_ok r"
  have "[] \<notin> set (build_headers hs l)" if "[] \<notin> set l" "list_all (\<lambda>h. [] \<notin> set (h_Key h) \<and> [] \<notin> set (h_Value h)) hs" for hs l
    using that by (induction hs arbitrary: l) (auto simp: Push_def CRLF_def HDRD_def)
  then show ?thesis using r by (auto simp: BuildTo_def BuildTo_custom_def Push_def CRLF_def request_ok_def)
qed

lemma kept_ok: "message_ok msg \<Longrightarrow> message_ok (kept hmatch msg)"
  by (auto simp: message_ok_def kept_def list_all_iff)

lemma kept_length: "length (message_bytes (kept hmatch msg)) \<le> length (message_bytes msg)"
proof -
  have "length (concat (map f (filter P hs))) \<le> length (concat (map f hs))" for f :: "bytes \<times> bytes \<Rightarrow> bytes" and P hs
    by (induction hs) auto
  then show ?thesis by (simp add: message_bytes_def kept_def)
qed

lemma concat_length_le: "p \<in> set parts \<Longrightarrow> length p \<le> length (concat parts)"
  by (induction parts) auto

lemma body_of_length: "body_of hmatch msg tail body \<Longrightarrow> length body \<le> length tail"
proof -
  have "length (concat parts) \<le> length (chunk_stream parts)" for parts
    by (induction parts) (auto simp: chunk_stream_simps)
  then show "body_of hmatch msg tail body \<Longrightarrow> ?thesis" by (auto simp: body_of_def trans_le_add1 split: if_splits)
qed

section \<open>Properties\<close>

text \<open>
  C6. The response of a backend reaches the client. On a backend connection that holds a well-formed
  response, its body chunked, limited by \<open>Content-Length\<close> or up to the end, the copying loop of the
  proxy returns, and the encoder of the http module, once finished, has sent to the client the status
  line and every header that is not a hop-by-hop header, in order, the custom headers, and exactly the
  body, encoded anew; however the bytes were cut on the way.
\<close>

theorem proxied_response:
  assumes "io_input_nonempty r i c" and "i s" and "message_ok msg" and "c s = message_bytes msg @ CRLF @ tail"
    and "body_of hmatch msg tail body" and "io_output send sent" and "length (c s) < 2 ^ 64"
  shows "\<exists>st' enc enc' parts. worker_Run (backend_Recv hmatch r) (encoder_Send tr send) (BI_New s) (encoder_new ou custom) = Some (Ret (), st', enc)
    \<and> encoder_Finish tr send enc = (Ret (), enc') \<and> parts_ok parts \<and> concat parts = body
    \<and> sent (en_S enc') = sent ou @ message_bytes (kept hmatch msg) @ bytes_of custom @ CRLF @ body_stream tr parts"
proof -
  obtain q ls st' where d: "delivers (backend_Recv hmatch r) (BI_New s) (BuildTo q [] # ls) st'" "message_of q = kept hmatch msg" "request_ok q"
      "list_all data_ok ls" "concat (map bytes_of ls) = body"
    using io_input_nonempty.backend_delivers [OF assms(1-5)] by blast
  have bt: "length (bytes_of (BuildTo q [])) < 2 ^ 64"
    using kept_length [of hmatch msg] assms(4,7) d(2) by (simp add: BuildTo_bytes)
  have lb: "length body < 2 ^ 64" using body_of_length [OF assms(5)] assms(4,7) by simp
  have each: "length (bytes_of l) < 2 ^ 64" if "l \<in> set ls" for l
    using concat_length_le [of "bytes_of l" "map bytes_of ls"] that lb d(5) by auto
  have ok: "list_ok (BuildTo q [])" using BuildTo_ok [OF d(3)] bt BuildTo_bytes [of q "[]"] by (auto simp: list_ok_def CRLF_def)
  obtain enc' where e: "encoder_run tr send (BuildTo q [] # ls) (encoder_new ou custom) = (Ret (), enc')"
      "sent (en_S enc') = sent ou @ message_bytes (kept hmatch msg) @ bytes_of custom @ CRLF @ body_stream tr (map bytes_of ls)"
    using io_output.encoder_message [OF assms(6), of q ls tr ou custom] kept_ok [OF assms(3)] d(2) ok each by (auto simp: list_all_iff)
  obtain enc where "worker_Run (backend_Recv hmatch r) (encoder_Send tr send) (BI_New s) (encoder_new ou custom) = Some (Ret (), st', enc)"
      "encoder_Finish tr send enc = (Ret (), enc')"
    using delivers_encoder [OF d(1) e(1)] by blast
  moreover have "parts_ok (map bytes_of ls)" using d(4) each by (auto simp: parts_ok_def data_ok_def list_all_iff)
  ultimately show ?thesis using e(2) d(5) by blast
qed

theorem proxied_response_witness:
  "\<exists>st' enc enc' parts. worker_Run (backend_Recv (\<lambda>k. if k = ''L'' then Some 2 else None) owned_Recv) (encoder_Send IdentityTransfer std_Send)
       (BI_New [''OK'' @ CRLF @ ''L: 3'' @ CRLF @ CRLF, ''abcd'']) (encoder_new [] []) = Some (Ret (), st', enc)
    \<and> encoder_Finish IdentityTransfer std_Send enc = (Ret (), enc') \<and> parts_ok parts \<and> concat parts = ''abc''
    \<and> en_S enc' = ''OK'' @ CRLF @ CRLF @ ''abc''"
proof -
  let ?m = "\<lambda>k. if k = ''L'' then Some 2 else None" and ?msg = "(''OK'', [(''L'', ''3'')])"
  let ?s = "[''OK'' @ CRLF @ ''L: 3'' @ CRLF @ CRLF, ''abcd'']"
  have i: "owned_inv ?s" by (simp add: owned_inv_def)
  have m: "message_ok ?msg" by (simp add: message_ok_def value_ok_def is_hchar_def is_char_def is_hdelim_def)
  have c: "bytes_of ?s = message_bytes ?msg @ CRLF @ ''abcd''" by (simp add: message_bytes_def HDRD_def CRLF_def)
  have l: "content_length ?m (snd ?msg) = 3" by (simp add: content_length_def FromString_bytes schar_def)
  have b: "body_of ?m ?msg ''abcd'' ''abc''" unfolding body_of_def l by (simp add: is_chunked_def)
  have n: "length (bytes_of ?s) < 2 ^ 64" by (simp add: CRLF_def)
  note t = proxied_response [where r = owned_Recv and i = owned_inv and c = bytes_of, OF own.io_input_nonempty_axioms]
  note u = t [where send = std_Send and sent = "\<lambda>b. b" and tr = IdentityTransfer and ou = "[]" and custom = "[]", OF i m c b std.io_output_axioms n]
  have k: "message_bytes (kept ?m ?msg) = ''OK'' @ CRLF" by (simp add: message_bytes_def kept_def)
  show ?thesis using u unfolding k by auto
qed

end
