(* ===== verification/Green.thy ===== *)
theory Green
  imports Prelude "HOL-Library.Product_Lexorder"
begin

unbundle bit_operations_syntax

text \<open>
  The coroutine executor of util/green (impl.h, impl.cpp, events.h): coroutines, timers, the poller and the
  scheduler loop, as a machine with an explicit step relation.

  A coroutine runs until it switches to the scheduler, so its code is a program counter with an instruction
  for every call of the executor: \<open>Access\<close> stands for all the code between two such calls. The memory the
  coroutines share is the parameter \<open>'s\<close>, and the code is the function from program counters to
  instructions. The machine switches contexts by changing the place of control, \<open>control\<close>.

  A coroutine is named by its \<open>TContRep\<close>; it waits for at most one event at a time, which lies on its own
  stack, so that the order of two events by address is the order of their coroutines. \<open>IoWait_\<close>, a red-black
  tree, is the sorted list of its keys. The lists \<open>Ready_\<close>, \<open>ToDelete_\<close> and the free list of the pool are
  intrusive with one link in a \<open>TContRep\<close>: pushing takes the coroutine out of the list it is in. An instant
  is a number of microseconds; what the clock and the operating system's poller return are arguments.
\<close>

section \<open>State\<close>

type_synonym cid = nat
type_synonym instant = ui64
type_synonym fd = nat

abbreviation instant_Max :: instant where "instant_Max \<equiv> 18446744073709551615"
abbreviation EINPROGRESS :: int where "EINPROGRESS \<equiv> 115"
abbreviation ETIMEDOUT :: int where "ETIMEDOUT \<equiv> 110"
abbreviation ECANCELED :: int where "ECANCELED \<equiv> 125"
abbreviation EWAKEDUP :: int where "EWAKEDUP \<equiv> 34567"

text \<open>\<open>TTimerEvent\<close>, or \<open>TFdEvent\<close> with its descriptor and mask.\<close>

record cont_event =
  ev_DeadLine :: instant
  ev_Status :: int
  ev_Fd :: "(fd \<times> ui16) option"

record 'pc cont =
  ct_pc :: 'pc
  ct_Cancelled :: bool
  ct_Exited :: bool
  ct_Event :: "cont_event option"

text \<open>An \<open>IPollEvent\<close>: the event of a coroutine, or an object with its own \<open>OnPollEvent\<close>.\<close>

datatype poll_event = FdEvent cid | Handler nat

record 'pc executor =
  g_ToDelete :: "cid list"
  g_Ready :: "cid list"
  g_IoWait :: "(instant \<times> cid) list"
  g_Lists :: "fd \<Rightarrow> (poll_event \<times> ui16) list"
  g_Set :: "fd \<Rightarrow> ui16"
  g_Free :: "cid list"
  g_Next :: cid
  g_Current :: "cid option"
  g_FailOnError :: bool
  g_Cont :: "cid \<Rightarrow> 'pc cont option"

text \<open>What a coroutine or a handler may ask of the executor without switching.\<close>

datatype exec_request =
    ScheduleExec cid
  | CancelCont cid
  | AbortAll
  | PollSchedule nat fd ui16
  | PollRemove nat fd
  | FailVerify

datatype ('s, 'pc) instr =
    Access "cid \<Rightarrow> 's \<Rightarrow> 's \<times> 'pc"
  | SleepD instant "int \<Rightarrow> 'pc"
  | PollD fd ui16 instant "int \<Rightarrow> 'pc"
  | ReScheduleAndSwitch 'pc
  | Request exec_request 'pc
  | Create 'pc "cid \<Rightarrow> 'pc"
  | Leave
  | Raise

datatype control = InCont cid | InWaitForIO | InLoop | Stopped | Aborted

record ('s, 'pc) machine =
  m_at :: control
  m_ex :: "'pc executor"
  m_mem :: 's

section \<open>Lists, timers and the poller\<close>

definition upd_cont :: "cid \<Rightarrow> ('pc cont \<Rightarrow> 'pc cont) \<Rightarrow> 'pc executor \<Rightarrow> 'pc executor" where
  "upd_cont c f g = g\<lparr>g_Cont := (g_Cont g)(c := map_option f (g_Cont g c))\<rparr>"

definition rep_Unlink :: "cid \<Rightarrow> 'pc executor \<Rightarrow> 'pc executor" where
  "rep_Unlink c g = g\<lparr>g_ToDelete := filter ((\<noteq>) c) (g_ToDelete g), g_Ready := filter ((\<noteq>) c) (g_Ready g), g_Free := filter ((\<noteq>) c) (g_Free g)\<rparr>"

definition ScheduleExecution :: "cid \<Rightarrow> 'pc executor \<Rightarrow> 'pc executor" where
  "ScheduleExecution c g = (let g' = rep_Unlink c g in g'\<lparr>g_Ready := g_Ready g' @ [c]\<rparr>)"

definition ScheduleToDelete :: "cid \<Rightarrow> 'pc executor \<Rightarrow> 'pc executor" where
  "ScheduleToDelete c g = (let g' = rep_Unlink c g in g'\<lparr>g_ToDelete := g_ToDelete g' @ [c]\<rparr>)"

text \<open>\<open>TEventWaitQueue::Register\<close>, and \<open>UnLink\<close> of an event.\<close>

definition Register :: "instant \<Rightarrow> cid \<Rightarrow> 'pc executor \<Rightarrow> 'pc executor" where
  "Register d c g = rep_Unlink c (g\<lparr>g_IoWait := insort (d, c) (g_IoWait g)\<rparr>)"

definition event_UnLink :: "cid \<Rightarrow> 'pc executor \<Rightarrow> 'pc executor" where
  "event_UnLink c g = g\<lparr>g_IoWait := filter (\<lambda>e. snd e \<noteq> c) (g_IoWait g)\<rparr>"

definition event_Wake :: "cid \<Rightarrow> int \<Rightarrow> 'pc executor \<Rightarrow> 'pc executor" where
  "event_Wake c status g =
     ScheduleExecution c (event_UnLink c (upd_cont c (\<lambda>t. t\<lparr>ct_Event := map_option (\<lambda>e. e\<lparr>ev_Status := status\<rparr>) (ct_Event t)\<rparr>) g))"

fun timeout_loop :: "instant \<Rightarrow> (instant \<times> cid) list \<Rightarrow> 'pc executor \<Rightarrow> 'pc executor" where
  "timeout_loop now [] g = g"
| "timeout_loop now ((d, c) # es) g = (if d \<le> now then timeout_loop now es (event_Wake c ETIMEDOUT g) else g)"

definition CancelTimedOut :: "instant \<Rightarrow> 'pc executor \<Rightarrow> instant \<times> 'pc executor" where
  "CancelTimedOut now g =
     (case g_IoWait g of
        [] \<Rightarrow> (now, g)
      | (d, c) # _ \<Rightarrow> if d > now then (d, g) else (now, timeout_loop now (g_IoWait g) g))"

definition Flags :: "(poll_event \<times> ui16) list \<Rightarrow> ui16" where
  "Flags lst = foldl (\<lambda>ret it. ret OR snd it) 0 lst"

text \<open>\<open>TContPoller\<close>; \<open>g_Set\<close> is what \<open>P_->Set\<close> was last told of a descriptor.\<close>

definition poller_Schedule :: "poll_event \<Rightarrow> fd \<Rightarrow> ui16 \<Rightarrow> 'pc executor \<Rightarrow> 'pc executor" where
  "poller_Schedule ev fd what g =
     (let oldFlags = Flags (g_Lists g fd);
          lst = (ev, what) # filter (\<lambda>e. fst e \<noteq> ev) (g_Lists g fd);
          newFlags = Flags lst; g' = g\<lparr>g_Lists := (g_Lists g)(fd := lst)\<rparr> in
      if newFlags \<noteq> oldFlags then g'\<lparr>g_Set := (g_Set g)(fd := newFlags)\<rparr> else g')"

definition poller_Remove :: "poll_event \<Rightarrow> fd \<Rightarrow> 'pc executor \<Rightarrow> 'pc executor" where
  "poller_Remove ev fd g =
     (let oldFlags = Flags (g_Lists g fd);
          lst = filter (\<lambda>e. fst e \<noteq> ev) (g_Lists g fd);
          newFlags = Flags lst; g' = g\<lparr>g_Lists := (g_Lists g)(fd := lst)\<rparr> in
      if newFlags \<noteq> oldFlags then g'\<lparr>g_Set := (g_Set g)(fd := newFlags)\<rparr> else g')"

section \<open>Coroutines\<close>

text \<open>\<open>TContRepPool\<close> and the life of a coroutine.\<close>

definition pool_Allocate :: "'pc executor \<Rightarrow> cid \<times> 'pc executor" where
  "pool_Allocate g =
     (case g_Free g of
        [] \<Rightarrow> (g_Next g, g\<lparr>g_Next := g_Next g + 1\<rparr>)
      | c # cs \<Rightarrow> (c, g\<lparr>g_Free := cs\<rparr>))"

definition Construct :: "cid \<Rightarrow> 'pc \<Rightarrow> 'pc executor \<Rightarrow> 'pc executor" where
  "Construct c func g = g\<lparr>g_Cont := (g_Cont g)(c := Some \<lparr>ct_pc = func, ct_Cancelled = False, ct_Exited = False, ct_Event = None\<rparr>)\<rparr>"

definition CreateImpl :: "'pc \<Rightarrow> 'pc executor \<Rightarrow> cid \<times> 'pc executor" where
  "CreateImpl func g = (let (c, g') = pool_Allocate g in (c, rep_Unlink c (Construct c func g')))"

definition executor_Create :: "'pc \<Rightarrow> 'pc executor \<Rightarrow> cid \<times> 'pc executor" where
  "executor_Create func g = (let (c, g') = CreateImpl func g in (c, ScheduleExecution c g'))"

definition executor_Release :: "cid \<Rightarrow> 'pc executor \<Rightarrow> 'pc executor" where
  "executor_Release c g = (let g' = rep_Unlink c g in g'\<lparr>g_Cont := (g_Cont g')(c := None), g_Free := c # g_Free g'\<rparr>)"

definition DeleteScheduled :: "'pc executor \<Rightarrow> 'pc executor" where
  "DeleteScheduled g = fold executor_Release (g_ToDelete g) g"

definition cont_Cancelled :: "'pc executor \<Rightarrow> cid \<Rightarrow> bool" where
  "cont_Cancelled g c = (case g_Cont g c of None \<Rightarrow> False | Some t \<Rightarrow> ct_Cancelled t)"

definition cont_Cancel :: "cid \<Rightarrow> 'pc executor \<Rightarrow> 'pc executor" where
  "cont_Cancel c g =
     (if cont_Cancelled g c then g
      else (let g' = upd_cont c (\<lambda>t. t\<lparr>ct_Cancelled := True\<rparr>) g in
            if g_Current g' = Some c then g' else ScheduleExecution c g'))"

text \<open>
  \<open>TContExecutor::Abort\<close>. A coroutine that \<open>Cancel\<close> moves to the end of \<open>Ready_\<close> is visited once more,
  to no effect: it is cancelled.
\<close>

definition executor_Abort :: "'pc executor \<Rightarrow> 'pc executor" where
  "executor_Abort g = (let g' = fold (\<lambda>e. cont_Cancel (snd e)) (g_IoWait g) g in fold cont_Cancel (g_Ready g') g')"

text \<open>Scheduling or cancelling a coroutine that does not exist is a use after free.\<close>

fun do_request :: "exec_request \<Rightarrow> 'pc executor \<Rightarrow> 'pc executor option" where
  "do_request (ScheduleExec c) g = (if g_Cont g c = None then None else Some (ScheduleExecution c g))"
| "do_request (CancelCont c) g = (if g_Cont g c = None then None else Some (cont_Cancel c g))"
| "do_request AbortAll g = Some (executor_Abort g)"
| "do_request (PollSchedule n fd what) g = Some (poller_Schedule (Handler n) fd what g)"
| "do_request (PollRemove n fd) g = Some (poller_Remove (Handler n) fd g)"
| "do_request FailVerify g = None"

fun do_requests :: "exec_request list \<Rightarrow> 'pc executor \<Rightarrow> 'pc executor option" where
  "do_requests [] g = Some g"
| "do_requests (r # rs) g = Option.bind (do_request r g) (do_requests rs)"

section \<open>Steps\<close>

definition goto :: "cid \<Rightarrow> 'pc \<Rightarrow> 'pc executor \<Rightarrow> 'pc executor" where
  "goto c pc g = upd_cont c (\<lambda>t. t\<lparr>ct_pc := pc\<rparr>) g"

text \<open>
  \<open>ExecuteEvent\<close> up to the switch, and after it: the result, then the destructor of the event.
\<close>

definition event_begin :: "instant \<Rightarrow> (fd \<times> ui16) option \<Rightarrow> cid \<Rightarrow> 'pc executor \<Rightarrow> 'pc executor" where
  "event_begin d f c g =
     (let g' = Register d c (upd_cont c (\<lambda>t. t\<lparr>ct_Event := Some \<lparr>ev_DeadLine = d, ev_Status = EINPROGRESS, ev_Fd = f\<rparr>\<rparr>) g) in
      case f of None \<Rightarrow> g' | Some (fd, what) \<Rightarrow> poller_Schedule (FdEvent c) fd what g')"

definition event_end :: "cont_event \<Rightarrow> cid \<Rightarrow> 'pc executor \<Rightarrow> int \<times> 'pc executor" where
  "event_end ev c g =
     (let status = (if cont_Cancelled g c then ECANCELED else ev_Status ev);
          g' = (case ev_Fd ev of None \<Rightarrow> g | Some (fd, what) \<Rightarrow> poller_Remove (FdEvent c) fd g) in
      (status, event_UnLink c (upd_cont c (\<lambda>t. t\<lparr>ct_Event := None\<rparr>) g')))"

definition ExecuteEvent :: "instant \<Rightarrow> (fd \<times> ui16) option \<Rightarrow> (int \<Rightarrow> 'pc) \<Rightarrow> cid \<Rightarrow> 'pc cont \<Rightarrow> ('s, 'pc) machine \<Rightarrow> ('s, 'pc) machine" where
  "ExecuteEvent d f k c t m =
     (case ct_Event t of
        None \<Rightarrow>
          if ct_Cancelled t then m\<lparr>m_ex := goto c (k ECANCELED) (m_ex m)\<rparr>
          else m\<lparr>m_ex := event_begin d f c (m_ex m), m_at := InWaitForIO\<rparr>
      | Some ev \<Rightarrow> (let (status, g) = event_end ev c (m_ex m) in m\<lparr>m_ex := goto c (k status) g\<rparr>))"

definition cont_Exit :: "cid \<Rightarrow> ('s, 'pc) machine \<Rightarrow> ('s, 'pc) machine" where
  "cont_Exit c m = m\<lparr>m_ex := ScheduleToDelete c (upd_cont c (\<lambda>t. t\<lparr>ct_Exited := True\<rparr>) (m_ex m)), m_at := InWaitForIO\<rparr>"

text \<open>
  One instruction of the running coroutine. A coroutine that is resumed after its exit fails the \<open>VERIFY\<close> in
  \<open>TContExecutor::Exit\<close>; an exception that leaves the function is fatal if \<open>FailOnError_\<close> is set.
\<close>

definition cont_step :: "('pc \<Rightarrow> ('s, 'pc) instr) \<Rightarrow> cid \<Rightarrow> ('s, 'pc) machine \<Rightarrow> ('s, 'pc) machine" where
  "cont_step code c m =
     (case g_Cont (m_ex m) c of
        None \<Rightarrow> m\<lparr>m_at := Aborted\<rparr>
      | Some t \<Rightarrow>
          if ct_Exited t then m\<lparr>m_at := Aborted\<rparr>
          else (case code (ct_pc t) of
             Access f \<Rightarrow> (let (s, pc) = f c (m_mem m) in m\<lparr>m_mem := s, m_ex := goto c pc (m_ex m)\<rparr>)
           | SleepD d k \<Rightarrow> ExecuteEvent d None k c t m
           | PollD fd what d k \<Rightarrow> ExecuteEvent d (Some (fd, what)) k c t m
           | ReScheduleAndSwitch pc \<Rightarrow> m\<lparr>m_ex := ScheduleExecution c (goto c pc (m_ex m)), m_at := InWaitForIO\<rparr>
           | Request r pc \<Rightarrow>
               (case do_request r (m_ex m) of
                  None \<Rightarrow> m\<lparr>m_at := Aborted\<rparr>
                | Some g \<Rightarrow> m\<lparr>m_ex := goto c pc g\<rparr>)
           | Create func k \<Rightarrow> (let (c', g) = executor_Create func (m_ex m) in m\<lparr>m_ex := goto c (k c') g\<rparr>)
           | Leave \<Rightarrow> cont_Exit c m
           | Raise \<Rightarrow> if g_FailOnError (m_ex m) then m\<lparr>m_at := Aborted\<rparr> else cont_Exit c m))"

text \<open>\<open>RunScheduler\<close>: the head of the loop, and \<open>Activate\<close>.\<close>

definition RunScheduler_step :: "('s, 'pc) machine \<Rightarrow> ('s, 'pc) machine" where
  "RunScheduler_step m =
     (case g_Ready (m_ex m) of
        [] \<Rightarrow> m\<lparr>m_at := Stopped\<rparr>
      | c # cs \<Rightarrow> m\<lparr>m_ex := (m_ex m)\<lparr>g_Ready := cs, g_Current := Some c\<rparr>, m_at := InCont c\<rparr>)"

text \<open>
  \<open>WaitForIO\<close>: one round with the instant the clock shows and the events the poller returns, each a
  descriptor with a status and a filter. A handler is a virtual call: its effect on the memory and what it
  asks of the executor.
\<close>

type_synonym 's handlers = "nat \<Rightarrow> int \<Rightarrow> 's \<Rightarrow> 's \<times> exec_request list"
type_synonym poller_event = "fd \<times> int \<times> ui16"

fun OnPollEvent :: "'s handlers \<Rightarrow> poll_event \<Rightarrow> int \<Rightarrow> 'pc executor \<times> 's \<Rightarrow> ('pc executor \<times> 's) option" where
  "OnPollEvent hnd (FdEvent c) status (g, s) = Some (event_Wake c status g, s)"
| "OnPollEvent hnd (Handler n) status (g, s) =
     (let (s', rs) = hnd n status s in map_option (\<lambda>g'. (g', s')) (do_requests rs g))"

text \<open>
  The walk over the events of one descriptor goes over the list as it is when the walk begins. The source
  walks the intrusive list itself and remembers the next event before each call; the two agree as long
  as a call takes out no event of this descriptor but its own and adds none, as \<open>event_Wake\<close> and the
  handler of \<open>TSocketOut\<close> do.
\<close>

fun dispatch_list :: "'s handlers \<Rightarrow> int \<Rightarrow> ui16 \<Rightarrow> (poll_event \<times> ui16) list \<Rightarrow> 'pc executor \<times> 's \<Rightarrow> ('pc executor \<times> 's) option" where
  "dispatch_list hnd status flt [] gs = Some gs"
| "dispatch_list hnd status flt ((ev, what) # es) gs =
     (if status \<noteq> 0 \<or> what AND flt \<noteq> 0
      then Option.bind (OnPollEvent hnd ev status gs) (dispatch_list hnd status flt es)
      else dispatch_list hnd status flt es gs)"

fun dispatch :: "'s handlers \<Rightarrow> poller_event list \<Rightarrow> 'pc executor \<times> 's \<Rightarrow> ('pc executor \<times> 's) option" where
  "dispatch hnd [] gs = Some gs"
| "dispatch hnd ((fd, status, flt) # evs) gs =
     Option.bind (dispatch_list hnd status flt (g_Lists (fst gs) fd) gs) (dispatch hnd evs)"

definition WaitForIO_round :: "'s handlers \<Rightarrow> instant \<Rightarrow> poller_event list \<Rightarrow> ('s, 'pc) machine \<Rightarrow> ('s, 'pc) machine" where
  "WaitForIO_round hnd now evs m =
     (let (next, g) = CancelTimedOut now (m_ex m);
          g' = (if evs = [] then snd (CancelTimedOut next g) else g) in
      case dispatch hnd evs (g', m_mem m) of
        None \<Rightarrow> m\<lparr>m_at := Aborted\<rparr>
      | Some (g'', s) \<Rightarrow> m\<lparr>m_ex := g'', m_mem := s\<rparr>)"

definition WaitForIO_waits :: "'pc executor \<Rightarrow> bool" where
  "WaitForIO_waits g \<longleftrightarrow> g_Ready g = [] \<and> g_IoWait g \<noteq> []"

text \<open>
  The clock has not reached \<open>TInstant::Max()\<close>. The poller may return any events, and none before its
  deadline when it is interrupted.
\<close>

definition clock_ok :: "instant \<Rightarrow> bool" where
  "clock_ok now \<longleftrightarrow> now < instant_Max"

inductive machine_step :: "('pc \<Rightarrow> ('s, 'pc) instr) \<Rightarrow> 's handlers \<Rightarrow> ('s, 'pc) machine \<Rightarrow> ('s, 'pc) machine \<Rightarrow> bool"
  for code hnd where
  step_cont: "m_at m = InCont c \<Longrightarrow> machine_step code hnd m (cont_step code c m)"
| step_loop: "m_at m = InLoop \<Longrightarrow> machine_step code hnd m (RunScheduler_step m)"
| step_io: "m_at m = InWaitForIO \<Longrightarrow> WaitForIO_waits (m_ex m) \<Longrightarrow> clock_ok now \<Longrightarrow> machine_step code hnd m (WaitForIO_round hnd now evs m)"
| step_wait_end: "m_at m = InWaitForIO \<Longrightarrow> \<not> WaitForIO_waits (m_ex m) \<Longrightarrow> machine_step code hnd m (m\<lparr>m_ex := DeleteScheduled (m_ex m), m_at := InLoop\<rparr>)"

text \<open>A machine that has just been built, and the coroutines created before \<open>Execute\<close>.\<close>

definition executor_new :: "bool \<Rightarrow> 'pc executor" where
  "executor_new fail = \<lparr>g_ToDelete = [], g_Ready = [], g_IoWait = [], g_Lists = (\<lambda>_. []), g_Set = (\<lambda>_. 0), g_Free = [],
     g_Next = 0, g_Current = None, g_FailOnError = fail, g_Cont = (\<lambda>_. None)\<rparr>"

definition machine_start :: "bool \<Rightarrow> 'pc list \<Rightarrow> 's \<Rightarrow> ('s, 'pc) machine" where
  "machine_start fail funcs s = \<lparr>m_at = InLoop, m_ex = fold (\<lambda>f g. snd (executor_Create f g)) funcs (executor_new fail), m_mem = s\<rparr>"

inductive machine_reach :: "('pc \<Rightarrow> ('s, 'pc) instr) \<Rightarrow> 's handlers \<Rightarrow> ('s, 'pc) machine \<Rightarrow> ('s, 'pc) machine \<Rightarrow> bool"
  for code hnd m where
  reach_start: "machine_reach code hnd m m"
| reach_step: "machine_reach code hnd m m' \<Longrightarrow> machine_step code hnd m' m'' \<Longrightarrow> machine_reach code hnd m m''"

section \<open>What each operation leaves alone\<close>

lemma executor_frames [simp]:
  "g_Cont (rep_Unlink c g) = g_Cont g" "g_IoWait (rep_Unlink c g) = g_IoWait g" "g_Lists (rep_Unlink c g) = g_Lists g" "g_Set (rep_Unlink c g) = g_Set g"
  "g_Next (rep_Unlink c g) = g_Next g" "g_Current (rep_Unlink c g) = g_Current g"
  "g_Cont (ScheduleExecution c g) = g_Cont g" "g_IoWait (ScheduleExecution c g) = g_IoWait g" "g_Lists (ScheduleExecution c g) = g_Lists g"
  "g_Set (ScheduleExecution c g) = g_Set g" "g_Next (ScheduleExecution c g) = g_Next g" "g_Current (ScheduleExecution c g) = g_Current g"
  "g_ToDelete (upd_cont c f g) = g_ToDelete g" "g_Ready (upd_cont c f g) = g_Ready g" "g_Free (upd_cont c f g) = g_Free g"
  "g_IoWait (upd_cont c f g) = g_IoWait g" "g_Lists (upd_cont c f g) = g_Lists g" "g_Set (upd_cont c f g) = g_Set g"
  "g_Next (upd_cont c f g) = g_Next g" "g_Current (upd_cont c f g) = g_Current g"
  "g_Cont (event_UnLink c g) = g_Cont g" "g_Lists (event_UnLink c g) = g_Lists g" "g_Set (event_UnLink c g) = g_Set g"
  "g_Next (event_UnLink c g) = g_Next g" "g_Ready (event_UnLink c g) = g_Ready g" "g_ToDelete (event_UnLink c g) = g_ToDelete g"
  "g_Free (event_UnLink c g) = g_Free g" "g_Current (event_UnLink c g) = g_Current g"
  by (simp_all add: rep_Unlink_def ScheduleExecution_def Let_def upd_cont_def event_UnLink_def)

lemma poller_frames [simp]:
  "g_Cont (poller_Schedule ev fd w g) = g_Cont g" "g_IoWait (poller_Schedule ev fd w g) = g_IoWait g" "g_Next (poller_Schedule ev fd w g) = g_Next g"
  "g_Ready (poller_Schedule ev fd w g) = g_Ready g" "g_ToDelete (poller_Schedule ev fd w g) = g_ToDelete g" "g_Free (poller_Schedule ev fd w g) = g_Free g"
  "g_Current (poller_Schedule ev fd w g) = g_Current g"
  "g_Cont (poller_Remove ev fd g) = g_Cont g" "g_IoWait (poller_Remove ev fd g) = g_IoWait g" "g_Next (poller_Remove ev fd g) = g_Next g"
  "g_Ready (poller_Remove ev fd g) = g_Ready g" "g_ToDelete (poller_Remove ev fd g) = g_ToDelete g" "g_Free (poller_Remove ev fd g) = g_Free g"
  "g_Current (poller_Remove ev fd g) = g_Current g"
  by (simp_all add: poller_Schedule_def poller_Remove_def Let_def)

lemma link_fields:
  "g_Ready (rep_Unlink c g) = filter ((\<noteq>) c) (g_Ready g)" "g_ToDelete (rep_Unlink c g) = filter ((\<noteq>) c) (g_ToDelete g)"
  "g_Free (rep_Unlink c g) = filter ((\<noteq>) c) (g_Free g)"
  "g_Ready (ScheduleExecution c g) = filter ((\<noteq>) c) (g_Ready g) @ [c]" "g_ToDelete (ScheduleExecution c g) = filter ((\<noteq>) c) (g_ToDelete g)"
  "g_Free (ScheduleExecution c g) = filter ((\<noteq>) c) (g_Free g)"
  "g_IoWait (event_UnLink c g) = filter (\<lambda>e. snd e \<noteq> c) (g_IoWait g)"
  by (simp_all add: rep_Unlink_def ScheduleExecution_def Let_def event_UnLink_def)

lemma g_Cont_upd: "g_Cont (upd_cont c f g) c' = (if c' = c then map_option f (g_Cont g c) else g_Cont g c')"
  by (simp add: upd_cont_def)

section \<open>The invariant\<close>

definition cont_event_of :: "'pc executor \<Rightarrow> cid \<Rightarrow> cont_event option" where
  "cont_event_of g c = Option.bind (g_Cont g c) ct_Event"

text \<open>No coroutine is in two lists or twice in one, the pool holds the free ones.\<close>

definition lists_ok :: "'pc executor \<Rightarrow> bool" where
  "lists_ok g \<longleftrightarrow> distinct (g_Ready g @ g_ToDelete g @ g_Free g) \<and> (\<forall>c\<in>set (g_Ready g). g_Cont g c \<noteq> None)
     \<and> (\<forall>c\<in>set (g_ToDelete g). \<exists>t. g_Cont g c = Some t \<and> ct_Exited t)
     \<and> (\<forall>c\<in>set (g_Free g). g_Cont g c = None \<and> c < g_Next g) \<and> (\<forall>c. g_Next g \<le> c \<longrightarrow> g_Cont g c = None)"

text \<open>The timers are sorted, and each belongs to the event its coroutine waits for.\<close>

definition timers_ok :: "'pc executor \<Rightarrow> bool" where
  "timers_ok g \<longleftrightarrow> sorted (g_IoWait g) \<and> distinct (map snd (g_IoWait g))
     \<and> (\<forall>d c. (d, c) \<in> set (g_IoWait g) \<longrightarrow> (\<exists>ev. cont_event_of g c = Some ev \<and> ev_DeadLine ev = d))"

text \<open>The poller of the operating system waits for exactly the flags of the registered events.\<close>

definition poller_inv :: "'pc executor \<Rightarrow> bool" where
  "poller_inv g \<longleftrightarrow> (\<forall>fd. g_Set g fd = Flags (g_Lists g fd))
     \<and> (\<forall>fd c w. (FdEvent c, w) \<in> set (g_Lists g fd) \<longrightarrow> (\<exists>ev. cont_event_of g c = Some ev \<and> ev_Fd ev = Some (fd, w)))"

text \<open>A coroutine that exists and does not run is ready, about to be deleted, or waits for a timer.\<close>

definition none_lost :: "cid option \<Rightarrow> 'pc executor \<Rightarrow> bool" where
  "none_lost run g \<longleftrightarrow> (\<forall>c. g_Cont g c \<noteq> None \<and> run \<noteq> Some c \<longrightarrow> c \<in> set (g_Ready g) \<or> c \<in> set (g_ToDelete g) \<or> c \<in> snd ` set (g_IoWait g))"

text \<open>A coroutine with an event is in the call that made it.\<close>

definition event_of_instr :: "('s, 'pc) instr \<Rightarrow> cont_event \<Rightarrow> bool" where
  "event_of_instr i ev \<longleftrightarrow>
     (case i of SleepD d k \<Rightarrow> ev_DeadLine ev = d \<and> ev_Fd ev = None
      | PollD fd w d k \<Rightarrow> ev_DeadLine ev = d \<and> ev_Fd ev = Some (fd, w) | _ \<Rightarrow> False)"

definition events_ok :: "('pc \<Rightarrow> ('s, 'pc) instr) \<Rightarrow> 'pc executor \<Rightarrow> bool" where
  "events_ok code g \<longleftrightarrow> (\<forall>c t ev. g_Cont g c = Some t \<and> ct_Event t = Some ev \<longrightarrow> \<not> ct_Exited t \<and> event_of_instr (code (ct_pc t)) ev)"

definition executor_ok :: "('pc \<Rightarrow> ('s, 'pc) instr) \<Rightarrow> cid option \<Rightarrow> 'pc executor \<Rightarrow> bool" where
  "executor_ok code run g \<longleftrightarrow> lists_ok g \<and> timers_ok g \<and> poller_inv g \<and> none_lost run g \<and> events_ok code g"

lemma Flags_step: "(if Flags l' \<noteq> Flags l then f(fd := Flags l') else f) = f(fd := Flags l')" if "f fd = Flags l" for f :: "fd \<Rightarrow> ui16"
  using that by auto

lemma poller_Set_fields:
  assumes "poller_inv g"
  shows "g_Set (poller_Schedule ev fd w g) fd' = Flags (g_Lists (poller_Schedule ev fd w g) fd')"
    and "g_Set (poller_Remove ev fd g) fd' = Flags (g_Lists (poller_Remove ev fd g) fd')"
  using assms by (auto simp: poller_inv_def poller_Schedule_def poller_Remove_def Let_def)

lemma poller_Lists_fields:
  "g_Lists (poller_Schedule ev fd w g) = (g_Lists g)(fd := (ev, w) # filter (\<lambda>e. fst e \<noteq> ev) (g_Lists g fd))"
  "g_Lists (poller_Remove ev fd g) = (g_Lists g)(fd := filter (\<lambda>e. fst e \<noteq> ev) (g_Lists g fd))"
  by (auto simp: poller_Schedule_def poller_Remove_def Let_def)

lemma lists_ok_Schedule: "lists_ok g \<Longrightarrow> g_Cont g c \<noteq> None \<Longrightarrow> lists_ok (ScheduleExecution c g)"
  by (auto simp: lists_ok_def link_fields)

lemma lists_ok_rep_Unlink: "lists_ok g \<Longrightarrow> lists_ok (rep_Unlink c g)"
  by (auto simp: lists_ok_def link_fields)

lemma executor_ok_Schedule:
  assumes "executor_ok code run g" and "g_Cont g c \<noteq> None"
  shows "executor_ok code run (ScheduleExecution c g)"
  using assms lists_ok_Schedule [of g c]
  by (auto simp: executor_ok_def timers_ok_def poller_inv_def none_lost_def events_ok_def cont_event_of_def link_fields)

text \<open>A change of a coroutine that leaves its event, and the call it is in, alone.\<close>

definition same_wait :: "'pc cont \<Rightarrow> 'pc cont \<Rightarrow> bool" where
  "same_wait t t' \<longleftrightarrow> ct_Exited t' = ct_Exited t
     \<and> (case ct_Event t of None \<Rightarrow> ct_Event t' = None
        | Some e \<Rightarrow> ct_pc t' = ct_pc t \<and> (\<exists>e'. ct_Event t' = Some e' \<and> ev_DeadLine e' = ev_DeadLine e \<and> ev_Fd e' = ev_Fd e))"

lemma event_of_instr_cong: "ev_DeadLine e' = ev_DeadLine e \<Longrightarrow> ev_Fd e' = ev_Fd e \<Longrightarrow> event_of_instr i e' = event_of_instr i e"
  by (cases i) (simp_all add: event_of_instr_def)

lemma cont_event_of_upd:
  assumes "\<And>t. g_Cont g c = Some t \<Longrightarrow> same_wait t (f t)" and "cont_event_of g c' = Some e"
  shows "\<exists>e'. cont_event_of (upd_cont c f g) c' = Some e' \<and> ev_DeadLine e' = ev_DeadLine e \<and> ev_Fd e' = ev_Fd e"
  using assms by (auto simp: cont_event_of_def g_Cont_upd same_wait_def bind_eq_Some_conv)

lemma executor_ok_upd:
  assumes ok: "executor_ok code run g" and f: "\<And>t. g_Cont g c = Some t \<Longrightarrow> same_wait t (f t)"
  shows "executor_ok code run (upd_cont c f g)"
proof -
  have l: "lists_ok (upd_cont c f g)"
    using ok f by (auto simp: executor_ok_def lists_ok_def g_Cont_upd same_wait_def)
  have t: "timers_ok (upd_cont c f g)"
    using ok cont_event_of_upd [of g c f, OF f] unfolding executor_ok_def timers_ok_def by fastforce
  have p: "poller_inv (upd_cont c f g)"
    using ok cont_event_of_upd [of g c f, OF f] unfolding executor_ok_def poller_inv_def by fastforce
  have n: "none_lost run (upd_cont c f g)"
    using ok by (auto simp: executor_ok_def none_lost_def g_Cont_upd split: if_splits)
  have e: "events_ok code (upd_cont c f g)"
    unfolding events_ok_def
  proof (intro allI impI)
    fix c' t' ev assume a: "g_Cont (upd_cont c f g) c' = Some t' \<and> ct_Event t' = Some ev"
    show "\<not> ct_Exited t' \<and> event_of_instr (code (ct_pc t')) ev"
    proof (cases "c' = c")
      case True
      then obtain u where u: "g_Cont g c = Some u" "t' = f u" using a by (auto simp: g_Cont_upd)
      then obtain e0 where e0: "ct_Event u = Some e0" "ct_pc t' = ct_pc u" "ev_DeadLine ev = ev_DeadLine e0" "ev_Fd ev = ev_Fd e0" "ct_Exited t' = ct_Exited u"
        using f [OF u(1)] a by (auto simp: same_wait_def split: option.splits)
      have "\<not> ct_Exited u \<and> event_of_instr (code (ct_pc u)) e0"
        using ok u(1) e0(1) by (auto simp: executor_ok_def events_ok_def)
      then show ?thesis using e0 event_of_instr_cong [OF e0(3,4), of "code (ct_pc u)"] by simp
    next
      case False
      then show ?thesis using ok a by (auto simp: executor_ok_def events_ok_def g_Cont_upd)
    qed
  qed
  show ?thesis using l t p n e by (simp add: executor_ok_def)
qed

lemma executor_ok_goto:
  assumes "executor_ok code run g" and "g_Cont g c = Some t" and "ct_Event t = None"
  shows "executor_ok code run (goto c pc g)"
  unfolding goto_def using assms by (intro executor_ok_upd) (auto simp: same_wait_def)

lemma executor_ok_Cancel:
  assumes "executor_ok code run g" and "g_Cont g c \<noteq> None"
  shows "executor_ok code run (cont_Cancel c g)"
proof -
  have "executor_ok code run (upd_cont c (\<lambda>t. t\<lparr>ct_Cancelled := True\<rparr>) g)"
    using assms(1) by (rule executor_ok_upd) (simp add: same_wait_def split: option.splits)
  then show ?thesis using assms by (auto simp: cont_Cancel_def Let_def g_Cont_upd intro!: executor_ok_Schedule)
qed

lemma Cancel_Cont: "dom (g_Cont (cont_Cancel c g)) = dom (g_Cont g)"
  by (auto simp: cont_Cancel_def Let_def g_Cont_upd dom_def split: if_splits)

lemma fold_Cancel_Cont: "dom (g_Cont (fold cont_Cancel cs g)) = dom (g_Cont g)"
  by (induction cs arbitrary: g) (simp_all add: Cancel_Cont)

lemma executor_ok_fold_Cancel:
  "executor_ok code run g \<Longrightarrow> set cs \<subseteq> dom (g_Cont g) \<Longrightarrow> executor_ok code run (fold cont_Cancel cs g)"
proof (induction cs arbitrary: g)
  case (Cons c cs)
  have "executor_ok code run (cont_Cancel c g)" using Cons.prems by (intro executor_ok_Cancel) auto
  then show ?case using Cons.IH [of "cont_Cancel c g"] Cons.prems by (simp add: Cancel_Cont)
qed simp

lemma executor_Abort_fold: "executor_Abort g = (let g' = fold cont_Cancel (map snd (g_IoWait g)) g in fold cont_Cancel (g_Ready g') g')"
  by (simp add: executor_Abort_def fold_map comp_def)

lemma executor_ok_Abort: "executor_ok code run g \<Longrightarrow> executor_ok code run (executor_Abort g)"
proof -
  assume ok: "executor_ok code run g"
  have w: "set (map snd (g_IoWait g)) \<subseteq> dom (g_Cont g)"
    using ok by (fastforce simp: executor_ok_def timers_ok_def cont_event_of_def bind_eq_Some_conv)
  let ?g = "fold cont_Cancel (map snd (g_IoWait g)) g"
  have g': "executor_ok code run ?g" by (rule executor_ok_fold_Cancel [OF ok w])
  then have "set (g_Ready ?g) \<subseteq> dom (g_Cont ?g)" by (auto simp: executor_ok_def lists_ok_def)
  then show ?thesis using executor_ok_fold_Cancel [OF g'] by (simp add: executor_Abort_fold Let_def)
qed

lemma executor_ok_poller:
  assumes "executor_ok code run g"
  shows "executor_ok code run (poller_Schedule (Handler n) fd w g)" and "executor_ok code run (poller_Remove (Handler n) fd g)"
  using assms poller_Set_fields [of g]
  by (auto simp: executor_ok_def lists_ok_def timers_ok_def none_lost_def events_ok_def cont_event_of_def poller_inv_def poller_Lists_fields split: if_splits)

lemma executor_ok_request: "executor_ok code run g \<Longrightarrow> do_request r g = Some g' \<Longrightarrow> executor_ok code run g'"
  by (cases r) (auto simp: executor_ok_Schedule executor_ok_Cancel executor_ok_Abort executor_ok_poller split: if_splits)

lemma executor_ok_requests: "executor_ok code run g \<Longrightarrow> do_requests rs g = Some g' \<Longrightarrow> executor_ok code run g'"
  by (induction rs arbitrary: g) (auto simp: bind_eq_Some_conv dest: executor_ok_request)

lemma executor_ok_requeue:
  assumes "executor_ok code run g" and "g_Cont g c \<noteq> None"
  shows "executor_ok code run (ScheduleExecution c (event_UnLink c g))"
proof -
  let ?g = "ScheduleExecution c (event_UnLink c g)"
  have "timers_ok ?g"
    using assms by (auto simp: executor_ok_def timers_ok_def cont_event_of_def link_fields sorted_wrt_filter distinct_map_filter)
  moreover have "lists_ok ?g" using assms lists_ok_Schedule [of "event_UnLink c g" c] by (auto simp: executor_ok_def lists_ok_def link_fields)
  moreover have "none_lost run ?g" using assms by (auto simp: executor_ok_def none_lost_def link_fields image_iff)
  ultimately show ?thesis using assms by (auto simp: executor_ok_def poller_inv_def events_ok_def cont_event_of_def)
qed

lemma executor_ok_Wake:
  assumes "executor_ok code run g" and "g_Cont g c \<noteq> None"
  shows "executor_ok code run (event_Wake c status g)"
proof -
  let ?g = "upd_cont c (\<lambda>t. t\<lparr>ct_Event := map_option (\<lambda>e. e\<lparr>ev_Status := status\<rparr>) (ct_Event t)\<rparr>) g"
  have "executor_ok code run ?g" using assms(1) by (rule executor_ok_upd) (simp add: same_wait_def split: option.splits)
  then show ?thesis using assms(2) executor_ok_requeue [of code run ?g c] by (simp add: event_Wake_def g_Cont_upd)
qed

lemma Wake_Cont: "dom (g_Cont (event_Wake c status g)) = dom (g_Cont g)"
  by (auto simp: event_Wake_def g_Cont_upd dom_def split: if_splits)

lemma executor_ok_timeout_loop:
  "executor_ok code run g \<Longrightarrow> snd ` set es \<subseteq> dom (g_Cont g) \<Longrightarrow> executor_ok code run (timeout_loop now es g)"
proof (induction now es g rule: timeout_loop.induct)
  case (2 now d c es g)
  then show ?case using executor_ok_Wake [of code run g c ETIMEDOUT] Wake_Cont [of c ETIMEDOUT g] by auto
qed simp

lemma timers_live: "executor_ok code run g \<Longrightarrow> snd ` set (g_IoWait g) \<subseteq> dom (g_Cont g)"
  by (fastforce simp: executor_ok_def timers_ok_def cont_event_of_def bind_eq_Some_conv)

lemma executor_ok_CancelTimedOut: "executor_ok code run g \<Longrightarrow> executor_ok code run (snd (CancelTimedOut now g))"
  using executor_ok_timeout_loop [of code run g "g_IoWait g" now] timers_live [of code run g]
  by (cases "g_IoWait g") (simp_all add: CancelTimedOut_def split: prod.splits)

text \<open>
  A handler may take events out of the lists, but an event of a coroutine that is in the list at the
  start of a round belongs to a coroutine that still exists: nothing is deleted while events are delivered.
\<close>

lemma request_Cont: "do_request r g = Some g' \<Longrightarrow> dom (g_Cont g') = dom (g_Cont g)"
proof (cases r)
  case (CancelCont c)
  then show "do_request r g = Some g' \<Longrightarrow> ?thesis" using Cancel_Cont [of c g] by (simp split: if_splits)
next
  case AbortAll
  have "dom (g_Cont (executor_Abort g)) = dom (g_Cont g)" by (simp add: executor_Abort_fold Let_def fold_Cancel_Cont)
  then show "do_request r g = Some g' \<Longrightarrow> ?thesis" using AbortAll by simp
qed (auto split: if_splits)

lemma requests_Cont: "do_requests rs g = Some g' \<Longrightarrow> dom (g_Cont g') = dom (g_Cont g)"
proof (induction rs arbitrary: g)
  case (Cons r rs)
  then obtain g1 where "do_request r g = Some g1" "do_requests rs g1 = Some g'" by (auto simp: bind_eq_Some_conv)
  then show ?case using Cons.IH [of g1] request_Cont [of r g g1] by simp
qed simp

lemma OnPollEvent_ok:
  assumes "executor_ok code run g" and "\<And>c. ev = FdEvent c \<Longrightarrow> c \<in> dom (g_Cont g)" and "OnPollEvent hnd ev status (g, s) = Some (g', s')"
  shows "executor_ok code run g' \<and> dom (g_Cont g') = dom (g_Cont g)"
proof (cases ev)
  case (FdEvent c)
  then show ?thesis using assms executor_ok_Wake [of code run g c status] Wake_Cont [of c status g] by auto
next
  case (Handler n)
  then show ?thesis using assms by (auto simp: executor_ok_requests requests_Cont split: prod.splits)
qed

lemma dispatch_list_ok:
  assumes "executor_ok code run (fst gs)" and "\<And>c w. (FdEvent c, w) \<in> set es \<Longrightarrow> c \<in> dom (g_Cont (fst gs))" and "dispatch_list hnd status flt es gs = Some gs'"
  shows "executor_ok code run (fst gs')"
  using assms
proof (induction hnd status flt es gs rule: dispatch_list.induct)
  case (2 hnd status flt ev what es gs)
  show ?case
  proof (cases "status \<noteq> 0 \<or> what AND flt \<noteq> 0")
    case True
    obtain g s where gs: "gs = (g, s)" by force
    then obtain g1 s1 where o: "OnPollEvent hnd ev status (g, s) = Some (g1, s1)" "dispatch_list hnd status flt es (g1, s1) = Some gs'"
      using "2.prems"(3) True by (auto simp: bind_eq_Some_conv)
    have k: "executor_ok code run g1 \<and> dom (g_Cont g1) = dom (g_Cont g)"
    proof (rule OnPollEvent_ok [OF _ _ o(1)])
      show "executor_ok code run g" using "2.prems"(1) gs by simp
      show "c \<in> dom (g_Cont g)" if "ev = FdEvent c" for c using "2.prems"(2) [of c what] that gs by simp
    qed
    have "c \<in> dom (g_Cont g1)" if "(FdEvent c, w) \<in> set es" for c w
      using "2.prems"(2) [of c w] that k gs by simp
    then show ?thesis using "2.IH"(1) [OF True, of "(g1, s1)"] o k gs by simp
  next
    case False
    then show ?thesis using "2.IH"(2) "2.prems" by auto
  qed
qed simp

lemma poll_events_live: "executor_ok code run g \<Longrightarrow> (FdEvent c, w) \<in> set (g_Lists g fd) \<Longrightarrow> c \<in> dom (g_Cont g)"
  by (fastforce simp: executor_ok_def poller_inv_def cont_event_of_def bind_eq_Some_conv)

lemma dispatch_ok: "executor_ok code run (fst gs) \<Longrightarrow> dispatch hnd evs gs = Some gs' \<Longrightarrow> executor_ok code run (fst gs')"
proof (induction hnd evs gs rule: dispatch.induct)
  case (2 hnd fd status flt evs gs)
  then show ?case using dispatch_list_ok [of code run gs "g_Lists (fst gs) fd"] poll_events_live by (fastforce simp: bind_eq_Some_conv)
qed simp

lemma executor_ok_Create:
  assumes ok: "executor_ok code run g" and c: "executor_Create func g = (c, g')"
  shows "executor_ok code run g' \<and> g_Cont g c = None
    \<and> g_Cont g' = (g_Cont g)(c := Some \<lparr>ct_pc = func, ct_Cancelled = False, ct_Exited = False, ct_Event = None\<rparr>)"
proof -
  let ?t = "\<lparr>ct_pc = func, ct_Cancelled = False, ct_Exited = False, ct_Event = None\<rparr>"
  obtain g1 where a: "pool_Allocate g = (c, g1)" "g' = ScheduleExecution c (rep_Unlink c (Construct c func g1))"
    using c by (auto simp: executor_Create_def CreateImpl_def Let_def split: prod.splits)
  have f: "g_Cont g1 = g_Cont g" "g_Ready g1 = g_Ready g" "g_ToDelete g1 = g_ToDelete g" "g_IoWait g1 = g_IoWait g" "g_Lists g1 = g_Lists g" "g_Set g1 = g_Set g"
    using a(1) by (auto simp: pool_Allocate_def split: list.splits)
  have fresh: "g_Cont g c = None" using ok a(1) by (auto simp: pool_Allocate_def executor_ok_def lists_ok_def split: list.splits)
  have free: "c < g_Next g1" "set (g_Free g1) \<subseteq> set (g_Free g) - {c}" "distinct (g_Free g1)" "g_Next g \<le> g_Next g1"
    using ok a(1) by (auto simp: pool_Allocate_def executor_ok_def lists_ok_def split: list.splits)
  have ct: "g_Cont g' = (g_Cont g)(c := Some ?t)" by (simp add: a(2) Construct_def f)
  have ev: "cont_event_of g' c' = cont_event_of g c'" for c' using fresh by (simp add: cont_event_of_def ct)
  have lt: "c' < g_Next g1" if "c' \<in> set (g_Free g)" for c'
    using ok that free(4) by (fastforce simp: executor_ok_def lists_ok_def)
  have "lists_ok g'"
    using ok fresh free lt unfolding lists_ok_def ct by (auto simp: executor_ok_def lists_ok_def a(2) link_fields Construct_def f)
  moreover have "timers_ok g'" "poller_inv g'"
    using ok unfolding timers_ok_def poller_inv_def ev by (auto simp: executor_ok_def timers_ok_def poller_inv_def a(2) Construct_def f)
  moreover have "none_lost run g'"
    using ok unfolding none_lost_def ct by (auto simp: executor_ok_def none_lost_def a(2) link_fields Construct_def f)
  moreover have "events_ok code g'" using ok unfolding events_ok_def ct by (auto simp: executor_ok_def events_ok_def)
  ultimately show ?thesis using fresh ct by (simp add: executor_ok_def)
qed

lemma executor_ok_Release:
  assumes "executor_ok code run g" and "c \<in> set (g_ToDelete g)"
  shows "executor_ok code run (executor_Release c g)"
proof -
  obtain t where t: "g_Cont g c = Some t" "ct_Exited t" "ct_Event t = None"
    using assms by (fastforce simp: executor_ok_def lists_ok_def events_ok_def)
  have f: "g_Cont (executor_Release c g) = (g_Cont g)(c := None)" "g_IoWait (executor_Release c g) = g_IoWait g"
    "g_Lists (executor_Release c g) = g_Lists g" "g_Set (executor_Release c g) = g_Set g" "g_Next (executor_Release c g) = g_Next g"
    "g_Ready (executor_Release c g) = filter ((\<noteq>) c) (g_Ready g)" "g_ToDelete (executor_Release c g) = filter ((\<noteq>) c) (g_ToDelete g)"
    "g_Free (executor_Release c g) = c # filter ((\<noteq>) c) (g_Free g)"
    by (simp_all add: executor_Release_def Let_def link_fields)
  have ev: "cont_event_of (executor_Release c g) c' = cont_event_of g c'" for c' using t by (simp add: cont_event_of_def f)
  have nx: "c < g_Next g" using assms(1) t(1) by (cases "c < g_Next g") (auto simp: executor_ok_def lists_ok_def)
  have "lists_ok (executor_Release c g)"
    using assms(1) nx unfolding lists_ok_def f by (auto simp: executor_ok_def lists_ok_def)
  moreover have "timers_ok (executor_Release c g)" "poller_inv (executor_Release c g)"
    using assms(1) unfolding timers_ok_def poller_inv_def ev f by (auto simp: executor_ok_def timers_ok_def poller_inv_def)
  moreover have "none_lost run (executor_Release c g)" using assms(1) unfolding none_lost_def f by (auto simp: executor_ok_def none_lost_def)
  moreover have "events_ok code (executor_Release c g)" using assms(1) unfolding events_ok_def f by (auto simp: executor_ok_def events_ok_def split: if_splits)
  ultimately show ?thesis by (simp add: executor_ok_def)
qed

lemma executor_ok_Releases:
  "executor_ok code run g \<Longrightarrow> set cs \<subseteq> set (g_ToDelete g) \<Longrightarrow> distinct cs \<Longrightarrow> executor_ok code run (fold executor_Release cs g)"
proof (induction cs arbitrary: g)
  case (Cons c cs)
  have "set cs \<subseteq> set (g_ToDelete (executor_Release c g))" using Cons.prems by (auto simp: executor_Release_def Let_def link_fields)
  then show ?case using Cons executor_ok_Release [of code run g c] by simp
qed simp

lemma executor_ok_DeleteScheduled: "executor_ok code run g \<Longrightarrow> executor_ok code run (DeleteScheduled g)"
  unfolding DeleteScheduled_def by (rule executor_ok_Releases) (auto simp: executor_ok_def lists_ok_def)

lemma executor_ok_begin:
  assumes ok: "executor_ok code (Some c) g" and t: "g_Cont g c = Some t" "ct_Event t = None" "\<not> ct_Exited t"
    and i: "event_of_instr (code (ct_pc t)) \<lparr>ev_DeadLine = d, ev_Status = EINPROGRESS, ev_Fd = f\<rparr>"
  shows "executor_ok code None (event_begin d f c g)"
proof -
  let ?ev = "\<lparr>ev_DeadLine = d, ev_Status = EINPROGRESS, ev_Fd = f\<rparr>"
  let ?g1 = "upd_cont c (\<lambda>t. t\<lparr>ct_Event := Some ?ev\<rparr>) g"
  let ?g2 = "Register d c ?g1"
  have w: "c \<notin> snd ` set (g_IoWait g)" and nd: "c \<notin> set (g_ToDelete g)" and np: "(FdEvent c, w) \<notin> set (g_Lists g fd)" for fd w
    using ok t by (fastforce simp: executor_ok_def timers_ok_def cont_event_of_def lists_ok_def poller_inv_def)+
  have ct: "g_Cont ?g2 = (g_Cont g)(c := Some (t\<lparr>ct_Event := Some ?ev\<rparr>))" by (auto simp: Register_def upd_cont_def t)
  have io: "g_IoWait ?g2 = insort (d, c) (g_IoWait g)" by (simp add: Register_def)
  have ev: "cont_event_of ?g2 c' = (if c' = c then Some ?ev else cont_event_of g c')" for c' by (simp add: cont_event_of_def ct)
  have l: "lists_ok ?g2" using ok t unfolding lists_ok_def ct by (auto simp: executor_ok_def lists_ok_def Register_def link_fields)
  have w': "(d', c) \<notin> set (g_IoWait g)" for d' using w by force
  have tm: "timers_ok ?g2"
    using ok w w' unfolding timers_ok_def ev io
    by (auto simp: executor_ok_def timers_ok_def sorted_insort set_insort_key distinct_map distinct_insort inj_on_def)
  have pl: "poller_inv ?g2" using ok np unfolding poller_inv_def ev by (auto simp: executor_ok_def poller_inv_def Register_def)
  have nl: "none_lost None ?g2"
    using ok unfolding none_lost_def ct io by (auto simp: executor_ok_def none_lost_def set_insort_key Register_def link_fields)
  have eo: "events_ok code ?g2" using ok t i unfolding events_ok_def ct by (auto simp: executor_ok_def events_ok_def)
  show ?thesis
  proof (cases f)
    case None
    then show ?thesis using l tm pl nl eo by (simp add: executor_ok_def event_begin_def)
  next
    case (Some x)
    obtain fd what where f: "f = Some (fd, what)" using Some by (cases x) auto
    let ?g3 = "poller_Schedule (FdEvent c) fd what ?g2"
    have s3: "g_Set ?g3 fd' = Flags (g_Lists ?g3 fd')" for fd' by (rule poller_Set_fields(1) [OF pl])
    have ev3: "cont_event_of ?g3 c' = cont_event_of ?g2 c'" for c' by (simp add: cont_event_of_def)
    have m3: "\<exists>ev. cont_event_of ?g3 c' = Some ev \<and> ev_Fd ev = Some (fd', w)" if "(FdEvent c', w) \<in> set (g_Lists ?g3 fd')" for c' w fd'
    proof (cases "(FdEvent c', w) \<in> set (g_Lists ?g2 fd')")
      case True
      then show ?thesis using pl unfolding poller_inv_def ev3 by blast
    next
      case False
      then have "c' = c" "w = what" "fd' = fd" using that by (auto simp: poller_Lists_fields split: if_splits)
      then show ?thesis using f unfolding ev3 ev by simp
    qed
    have "poller_inv ?g3" using s3 m3 by (simp add: poller_inv_def)
    then show ?thesis
      using l tm nl eo f by (auto simp: executor_ok_def event_begin_def Let_def lists_ok_def timers_ok_def none_lost_def events_ok_def cont_event_of_def)
  qed
qed

lemma executor_ok_end:
  assumes ok: "executor_ok code (Some c) g" and t: "g_Cont g c = Some t" "ct_Event t = Some ev" and e: "event_end ev c g = (status, g')"
  shows "executor_ok code (Some c) g' \<and> g_Cont g' c = Some (t\<lparr>ct_Event := None\<rparr>)"
proof -
  let ?g1 = "case ev_Fd ev of None \<Rightarrow> g | Some (fd, what) \<Rightarrow> poller_Remove (FdEvent c) fd g"
  let ?g2 = "upd_cont c (\<lambda>t. t\<lparr>ct_Event := None\<rparr>) ?g1"
  have g': "g' = event_UnLink c ?g2" using e by (simp add: event_end_def Let_def)
  have f1: "g_Cont ?g1 = g_Cont g" "g_Ready ?g1 = g_Ready g" "g_ToDelete ?g1 = g_ToDelete g" "g_Free ?g1 = g_Free g" "g_IoWait ?g1 = g_IoWait g" "g_Next ?g1 = g_Next g"
    by (auto split: option.splits)
  have ct: "g_Cont g' = (g_Cont g)(c := Some (t\<lparr>ct_Event := None\<rparr>))" using t f1(1) by (simp add: g' upd_cont_def)
  have fs: "g_Ready g' = g_Ready g" "g_ToDelete g' = g_ToDelete g" "g_Free g' = g_Free g" "g_Next g' = g_Next g"
    "g_IoWait g' = filter (\<lambda>e. snd e \<noteq> c) (g_IoWait g)" "g_Set g' = g_Set ?g1" "g_Lists g' = g_Lists ?g1"
    by (simp_all add: g' f1 link_fields)
  have ev: "cont_event_of g' c' = cont_event_of g c'" if "c' \<noteq> c" for c' using that by (simp add: cont_event_of_def ct)
  have l: "lists_ok g'" using ok t unfolding lists_ok_def ct fs by (auto simp: executor_ok_def lists_ok_def)
  have tm: "timers_ok g'"
    using ok unfolding timers_ok_def fs by (auto simp: executor_ok_def timers_ok_def sorted_wrt_filter distinct_map_filter ev)
  have p0: "poller_inv g" using ok by (simp add: executor_ok_def)
  have mine: "ev_Fd ev = Some (fd, w)" if "(FdEvent c, w) \<in> set (g_Lists g fd)" for fd w
    using p0 that t by (fastforce simp: poller_inv_def cont_event_of_def)
  have st: "g_Set ?g1 fd = Flags (g_Lists ?g1 fd)" for fd
    using poller_Set_fields(2) [OF p0] p0 by (auto simp: poller_inv_def split: option.splits)
  have sub: "(e, w) \<in> set (g_Lists g fd) \<and> e \<noteq> FdEvent c" if "(e, w) \<in> set (g_Lists ?g1 fd)" for e w fd
    using that mine by (auto simp: poller_Lists_fields split: option.splits prod.splits if_splits)
  have pl: "poller_inv g'"
    using p0 sub st unfolding poller_inv_def fs by (fastforce simp: ev)
  have nl: "none_lost (Some c) g'" using ok unfolding none_lost_def ct fs by (auto simp: executor_ok_def none_lost_def image_iff)
  have eo: "events_ok code g'" using ok unfolding events_ok_def ct by (auto simp: executor_ok_def events_ok_def split: if_splits)
  show ?thesis using l tm pl nl eo by (simp add: executor_ok_def ct)
qed

lemma executor_ok_running: "executor_ok code (Some c) g \<Longrightarrow> c \<in> set (g_Ready g) \<Longrightarrow> executor_ok code None g"
  by (auto simp: executor_ok_def none_lost_def)

lemma executor_ok_Exit:
  assumes ok: "executor_ok code (Some c) g" and t: "g_Cont g c = Some t" "ct_Event t = None"
  shows "executor_ok code None (ScheduleToDelete c (upd_cont c (\<lambda>t. t\<lparr>ct_Exited := True\<rparr>) g))"
proof -
  let ?g = "ScheduleToDelete c (upd_cont c (\<lambda>t. t\<lparr>ct_Exited := True\<rparr>) g)"
  have f: "g_Cont ?g = (g_Cont g)(c := Some (t\<lparr>ct_Exited := True\<rparr>))" "g_Ready ?g = filter ((\<noteq>) c) (g_Ready g)" "g_Free ?g = filter ((\<noteq>) c) (g_Free g)"
    "g_ToDelete ?g = filter ((\<noteq>) c) (g_ToDelete g) @ [c]" "g_IoWait ?g = g_IoWait g" "g_Lists ?g = g_Lists g" "g_Set ?g = g_Set g" "g_Next ?g = g_Next g"
    using t by (auto simp: ScheduleToDelete_def Let_def link_fields upd_cont_def)
  have ev: "cont_event_of ?g c' = cont_event_of g c'" for c' using t by (simp add: cont_event_of_def f)
  show ?thesis
    using ok t unfolding executor_ok_def lists_ok_def timers_ok_def poller_inv_def none_lost_def events_ok_def ev f
    by (intro conjI) (auto split: if_splits)
qed

text \<open>
  The invariant of the machine: the coroutine in control exists, and at the head of the loop nothing waits to
  be deleted and no timer is left without a coroutine to run.
\<close>

definition loop_head :: "'pc executor \<Rightarrow> bool" where
  "loop_head g \<longleftrightarrow> g_ToDelete g = [] \<and> \<not> WaitForIO_waits g"

definition machine_ok :: "('pc \<Rightarrow> ('s, 'pc) instr) \<Rightarrow> ('s, 'pc) machine \<Rightarrow> bool" where
  "machine_ok code m \<longleftrightarrow>
     (case m_at m of
        InCont c \<Rightarrow> executor_ok code (Some c) (m_ex m) \<and> g_Cont (m_ex m) c \<noteq> None \<and> c \<notin> set (g_ToDelete (m_ex m))
      | Aborted \<Rightarrow> True
      | InWaitForIO \<Rightarrow> executor_ok code None (m_ex m)
      | InLoop \<Rightarrow> executor_ok code None (m_ex m) \<and> loop_head (m_ex m)
      | Stopped \<Rightarrow> executor_ok code None (m_ex m) \<and> loop_head (m_ex m) \<and> g_Ready (m_ex m) = [])"

lemma end_ToDelete: "event_end ev c g = (status, g') \<Longrightarrow> g_ToDelete g' = g_ToDelete g"
  by (auto simp: event_end_def Let_def split: option.splits)

lemma request_ToDelete: "do_request r g = Some g' \<Longrightarrow> set (g_ToDelete g') \<subseteq> set (g_ToDelete g)"
proof -
  have c: "set (g_ToDelete (cont_Cancel c g)) \<subseteq> set (g_ToDelete g)" for c and g :: "'a executor"
    by (auto simp: cont_Cancel_def Let_def link_fields)
  have f: "set (g_ToDelete (fold cont_Cancel cs g)) \<subseteq> set (g_ToDelete g)" for cs and g :: "'a executor"
    using c by (induction cs arbitrary: g) (auto, blast)
  show "do_request r g = Some g' \<Longrightarrow> ?thesis"
    using c f [of "g_Ready (fold cont_Cancel (map snd (g_IoWait g)) g)" "fold cont_Cancel (map snd (g_IoWait g)) g"] f [of "map snd (g_IoWait g)" g]
    by (cases r) (auto simp: link_fields executor_Abort_fold Let_def split: if_splits)
qed

lemma Create_ToDelete: "executor_Create func g = (c, g') \<Longrightarrow> set (g_ToDelete g') \<subseteq> set (g_ToDelete g)"
  by (auto simp: executor_Create_def CreateImpl_def pool_Allocate_def Let_def Construct_def link_fields split: list.splits)

lemma goto_frames [simp]: "g_Ready (goto c pc g) = g_Ready g" "g_ToDelete (goto c pc g) = g_ToDelete g" "g_Lists (goto c pc g) = g_Lists g"
  by (simp_all add: goto_def)

lemma machine_ok_ExecuteEvent:
  assumes td: "c \<notin> set (g_ToDelete (m_ex m))" and ok: "executor_ok code (Some c) (m_ex m)" and at: "m_at m = InCont c" and t: "g_Cont (m_ex m) c = Some t" "\<not> ct_Exited t"
    and i: "event_of_instr (code (ct_pc t)) \<lparr>ev_DeadLine = d, ev_Status = EINPROGRESS, ev_Fd = f\<rparr>"
  shows "machine_ok code (ExecuteEvent d f k c t m)"
proof (cases "ct_Event t")
  case None
  then show ?thesis
    using executor_ok_goto [OF ok t(1) None] executor_ok_begin [OF ok t(1) None t(2) i] t at td
    by (auto simp: ExecuteEvent_def machine_ok_def goto_def g_Cont_upd)
next
  case (Some ev)
  obtain status g where e: "event_end ev c (m_ex m) = (status, g)" by force
  from executor_ok_end [OF ok t(1) Some e] have g: "executor_ok code (Some c) g" "g_Cont g c = Some (t\<lparr>ct_Event := None\<rparr>)" by auto
  show ?thesis using executor_ok_goto [OF g] Some e at g(2) td end_ToDelete [OF e] by (auto simp: ExecuteEvent_def machine_ok_def goto_def g_Cont_upd)
qed

lemma request_event:
  assumes "do_request r g = Some g'" and "g_Cont g c = Some t" "ct_Event t = None"
  shows "\<exists>t'. g_Cont g' c = Some t' \<and> ct_Event t' = None"
proof -
  have cc: "\<exists>t'. g_Cont (cont_Cancel c' g) c = Some t' \<and> ct_Event t' = None" if "g_Cont g c = Some t" "ct_Event t = None" for c' t and g :: "'a executor"
    using that by (auto simp: cont_Cancel_def Let_def g_Cont_upd)
  have fc: "\<exists>t'. g_Cont (fold cont_Cancel cs g) c = Some t' \<and> ct_Event t' = None" if "g_Cont g c = Some t" "ct_Event t = None" for cs t and g :: "'a executor"
    using that
  proof (induction cs arbitrary: g t)
    case (Cons c' cs)
    obtain t' where "g_Cont (cont_Cancel c' g) c = Some t'" "ct_Event t' = None" using cc [OF Cons.prems] by blast
    then show ?case using Cons.IH by simp
  qed simp
  show ?thesis
  proof (cases r)
    case AbortAll
    obtain t1 where "g_Cont (fold cont_Cancel (map snd (g_IoWait g)) g) c = Some t1 \<and> ct_Event t1 = None" using fc [OF assms(2,3)] by blast
    then show ?thesis using AbortAll assms(1) fc [of "fold cont_Cancel (map snd (g_IoWait g)) g" t1] by (auto simp: executor_Abort_fold Let_def)
  qed (use assms cc in \<open>auto split: if_splits\<close>)
qed

lemma machine_ok_cont_step:
  assumes td: "c \<notin> set (g_ToDelete (m_ex m))" and ok: "executor_ok code (Some c) (m_ex m)" and at: "m_at m = InCont c" and c: "g_Cont (m_ex m) c \<noteq> None"
  shows "machine_ok code (cont_step code c m)"
proof -
  obtain t where t: "g_Cont (m_ex m) c = Some t" using c by blast
  show ?thesis
  proof (cases "ct_Exited t")
    case True
    then show ?thesis using t by (simp add: cont_step_def machine_ok_def)
  next
    case False
    have no_event: "ct_Event t = None" if "\<And>ev. \<not> event_of_instr (code (ct_pc t)) ev"
      using ok t that by (cases "ct_Event t") (auto simp: executor_ok_def events_ok_def)
    have go: "executor_ok code (Some c) (goto c pc g) \<and> g_Cont (goto c pc g) c \<noteq> None"
      if "executor_ok code (Some c) g" "g_Cont g c = Some t'" "ct_Event t' = None" for pc g t'
      using executor_ok_goto [OF that] that by (simp add: goto_def g_Cont_upd)
    show ?thesis
    proof (cases "code (ct_pc t)")
      case (Access f)
      then show ?thesis using go [OF ok t no_event] t False at td by (auto simp: cont_step_def machine_ok_def event_of_instr_def split: prod.splits)
    next
      case (SleepD d k)
      have "machine_ok code (ExecuteEvent d None k c t m)"
        by (rule machine_ok_ExecuteEvent [OF td ok at t False]) (simp add: SleepD event_of_instr_def)
      then show ?thesis using SleepD t False by (simp add: cont_step_def)
    next
      case (PollD fd w d k)
      have "machine_ok code (ExecuteEvent d (Some (fd, w)) k c t m)"
        by (rule machine_ok_ExecuteEvent [OF td ok at t False]) (simp add: PollD event_of_instr_def)
      then show ?thesis using PollD t False by (simp add: cont_step_def)
    next
      case (ReScheduleAndSwitch pc)
      let ?g = "goto c pc (m_ex m)"
      have "executor_ok code (Some c) ?g" "g_Cont ?g c \<noteq> None"
        using go [OF ok t no_event] by (simp_all add: ReScheduleAndSwitch event_of_instr_def)
      then have "executor_ok code (Some c) (ScheduleExecution c ?g)" by (rule executor_ok_Schedule)
      moreover have "c \<in> set (g_Ready (ScheduleExecution c ?g))" by (simp add: link_fields)
      ultimately have "executor_ok code None (ScheduleExecution c ?g)" by (rule executor_ok_running)
      then show ?thesis using ReScheduleAndSwitch t False by (simp add: cont_step_def machine_ok_def)
    next
      case (Request r pc)
      then have e: "ct_Event t = None" using no_event by (simp add: event_of_instr_def)
      show ?thesis
      proof (cases "do_request r (m_ex m)")
        case None
        then show ?thesis using Request t False by (simp add: cont_step_def machine_ok_def)
      next
        case (Some g)
        obtain t' where t': "g_Cont g c = Some t'" "ct_Event t' = None" using request_event [OF Some t e] by blast
        then show ?thesis using Request t False at go [OF executor_ok_request [OF ok Some] t'] Some td request_ToDelete [OF Some] by (auto simp: cont_step_def machine_ok_def)
      qed
    next
      case (Create func k)
      then have e: "ct_Event t = None" using no_event by (simp add: event_of_instr_def)
      obtain c' g where cr: "executor_Create func (m_ex m) = (c', g)" by force
      note o = executor_ok_Create [OF ok cr]
      then have t': "g_Cont g c = Some t" using t by auto
      show ?thesis using go [OF conjunct1 [OF o] t' e] Create cr t False at td Create_ToDelete [OF cr] by (auto simp: cont_step_def machine_ok_def)
    next
      case Leave
      then show ?thesis using executor_ok_Exit [OF ok t no_event] t False by (simp add: cont_step_def machine_ok_def cont_Exit_def event_of_instr_def)
    next
      case Raise
      then show ?thesis using executor_ok_Exit [OF ok t no_event] t False by (simp add: cont_step_def machine_ok_def cont_Exit_def event_of_instr_def)
    qed
  qed
qed

lemma DeleteScheduled_fields: "g_ToDelete (DeleteScheduled g) = []" "g_IoWait (DeleteScheduled g) = g_IoWait g"
proof -
  have "g_ToDelete (fold executor_Release cs g) = filter (\<lambda>c. c \<notin> set cs) (g_ToDelete g) \<and> g_IoWait (fold executor_Release cs g) = g_IoWait g" for cs
    by (induction cs arbitrary: g) (auto simp: executor_Release_def Let_def link_fields intro: filter_cong)
  then show "g_ToDelete (DeleteScheduled g) = []" "g_IoWait (DeleteScheduled g) = g_IoWait g" by (auto simp: DeleteScheduled_def)
qed

lemma DeleteScheduled_Ready:
  assumes "lists_ok g"
  shows "g_Ready (DeleteScheduled g) = g_Ready g"
proof -
  have "g_Ready (fold executor_Release cs g) = filter (\<lambda>c. c \<notin> set cs) (g_Ready g)" for cs
    by (induction cs arbitrary: g) (auto simp: executor_Release_def Let_def link_fields intro: filter_cong)
  moreover have "filter (\<lambda>c. c \<notin> set (g_ToDelete g)) (g_Ready g) = g_Ready g"
    using assms by (auto simp: lists_ok_def filter_id_conv)
  ultimately show ?thesis by (simp add: DeleteScheduled_def)
qed

lemma machine_ok_step: "machine_step code hnd m m' \<Longrightarrow> machine_ok code m \<Longrightarrow> machine_ok code m'"
proof (induction rule: machine_step.induct)
  case (step_cont m c)
  then show ?case using machine_ok_cont_step by (auto simp: machine_ok_def)
next
  case (step_loop m)
  then show ?case
    by (auto simp: machine_ok_def RunScheduler_step_def executor_ok_def lists_ok_def timers_ok_def poller_inv_def none_lost_def events_ok_def cont_event_of_def split: list.splits)
next
  case (step_io m now evs)
  obtain next1 g where ct: "CancelTimedOut now (m_ex m) = (next1, g)" by force
  let ?g = "if evs = [] then snd (CancelTimedOut next1 g) else g"
  have ok: "executor_ok code None (m_ex m)" using step_io by (simp add: machine_ok_def)
  then have "executor_ok code None g" using executor_ok_CancelTimedOut [OF ok, of now] ct by simp
  then have "executor_ok code None ?g" using executor_ok_CancelTimedOut [of code None g next1] by simp
  then show ?case
    using dispatch_ok [of code None "(?g, m_mem m)" hnd evs] step_io(1) ct
    by (auto simp: WaitForIO_round_def machine_ok_def Let_def split: option.splits)
next
  case (step_wait_end m)
  then have ok: "executor_ok code None (m_ex m)" by (simp add: machine_ok_def)
  then have "g_Ready (DeleteScheduled (m_ex m)) = g_Ready (m_ex m)" by (intro DeleteScheduled_Ready) (simp add: executor_ok_def)
  then show ?case
    using executor_ok_DeleteScheduled [OF ok] step_wait_end by (auto simp: machine_ok_def loop_head_def WaitForIO_waits_def DeleteScheduled_fields)
qed

lemma machine_ok_start: "machine_ok code (machine_start fail funcs s)"
proof -
  have "executor_ok code None g \<and> loop_head g \<Longrightarrow> executor_ok code None (fold (\<lambda>f g. snd (executor_Create f g)) funcs g)
      \<and> loop_head (fold (\<lambda>f g. snd (executor_Create f g)) funcs g)" for g
  proof (induction funcs arbitrary: g)
    case (Cons f funcs)
    obtain c g' where c: "executor_Create f g = (c, g')" by force
    then have "executor_ok code None g'" using executor_ok_Create [OF _ c] Cons.prems by blast
    moreover have "loop_head g'"
      using c Cons.prems by (auto simp: loop_head_def WaitForIO_waits_def executor_Create_def CreateImpl_def pool_Allocate_def Let_def link_fields Construct_def split: list.splits)
    ultimately show ?case using Cons.IH c by simp
  qed simp
  moreover have "executor_ok code None (executor_new fail) \<and> loop_head (executor_new fail)"
    by (simp add: executor_ok_def lists_ok_def timers_ok_def poller_inv_def none_lost_def events_ok_def executor_new_def cont_event_of_def loop_head_def WaitForIO_waits_def Flags_def)
  ultimately show ?thesis by (simp add: machine_ok_def machine_start_def)
qed

lemma machine_ok_reach: "machine_reach code hnd m m' \<Longrightarrow> machine_ok code m \<Longrightarrow> machine_ok code m'"
  by (induction rule: machine_reach.induct) (auto intro: machine_ok_step)

section \<open>Running the machine\<close>

text \<open>The step the machine takes with what the clock and the poller return.\<close>

definition machine_next :: "('pc \<Rightarrow> ('s, 'pc) instr) \<Rightarrow> 's handlers \<Rightarrow> instant \<times> poller_event list \<Rightarrow> ('s, 'pc) machine \<Rightarrow> ('s, 'pc) machine option" where
  "machine_next code hnd env m =
     (case m_at m of
        InCont c \<Rightarrow> Some (cont_step code c m)
      | InLoop \<Rightarrow> Some (RunScheduler_step m)
      | InWaitForIO \<Rightarrow>
          if WaitForIO_waits (m_ex m) then (if clock_ok (fst env) then Some (WaitForIO_round hnd (fst env) (snd env) m) else None)
          else Some (m\<lparr>m_ex := DeleteScheduled (m_ex m), m_at := InLoop\<rparr>)
      | _ \<Rightarrow> None)"

fun machine_run :: "('pc \<Rightarrow> ('s, 'pc) instr) \<Rightarrow> 's handlers \<Rightarrow> (instant \<times> poller_event list) list \<Rightarrow> ('s, 'pc) machine \<Rightarrow> ('s, 'pc) machine option" where
  "machine_run code hnd [] m = Some m"
| "machine_run code hnd (env # envs) m = Option.bind (machine_next code hnd env m) (machine_run code hnd envs)"

lemma machine_next_step: "machine_next code hnd env m = Some m' \<Longrightarrow> machine_step code hnd m m'"
  by (auto simp: machine_next_def intro: machine_step.intros split: control.splits if_splits)

lemma machine_step_next: "machine_step code hnd m m' \<Longrightarrow> \<exists>env. machine_next code hnd env m = Some m'"
  by (induction rule: machine_step.induct) (auto simp: machine_next_def)

lemma machine_reach_trans: "machine_reach code hnd m' m'' \<Longrightarrow> machine_reach code hnd m m' \<Longrightarrow> machine_reach code hnd m m''"
  by (induction rule: machine_reach.induct) (auto intro: machine_reach.intros)

lemma machine_run_reach: "machine_run code hnd envs m = Some m' \<Longrightarrow> machine_reach code hnd m m'"
proof (induction envs arbitrary: m)
  case (Cons env envs)
  then obtain m1 where "machine_next code hnd env m = Some m1" "machine_run code hnd envs m1 = Some m'" by (auto simp: bind_eq_Some_conv)
  then show ?case using Cons.IH machine_reach_trans reach_step [OF reach_start machine_next_step] by metis
qed (simp add: reach_start)

lemma machine_step_iff: "machine_step code hnd m m' \<longleftrightarrow> (\<exists>env. machine_next code hnd env m = Some m')"
  using machine_next_step machine_step_next by blast

section \<open>Timers\<close>

lemma timeout_loop_fold: "timeout_loop now es g = fold (\<lambda>c. event_Wake c ETIMEDOUT) (map snd (takeWhile (\<lambda>e. fst e \<le> now) es)) g"
  by (induction now es g rule: timeout_loop.induct) auto

lemma sorted_takeWhile_filter:
  fixes es :: "(instant \<times> cid) list"
  shows "sorted es \<Longrightarrow> takeWhile (\<lambda>e. fst e \<le> now) es = filter (\<lambda>e. fst e \<le> now) es"
proof (induction es)
  case (Cons e es)
  then have "\<forall>x\<in>set es. fst e \<le> fst x" by (auto simp: less_eq_prod_def)
  then have "filter (\<lambda>e. fst e \<le> now) es = []" if "\<not> fst e \<le> now" using that by (auto simp: filter_empty_conv)
  then show ?case using Cons by auto
qed simp

lemma Wake_fields:
  "g_IoWait (event_Wake c status g) = filter (\<lambda>e. snd e \<noteq> c) (g_IoWait g)" "g_Ready (event_Wake c status g) = filter ((\<noteq>) c) (g_Ready g) @ [c]"
  "cont_event_of (event_Wake c status g) c' = (if c' = c then map_option (\<lambda>e. e\<lparr>ev_Status := status\<rparr>) (cont_event_of g c) else cont_event_of g c')"
  by (cases "g_Cont g c"; simp add: event_Wake_def link_fields cont_event_of_def g_Cont_upd)+

lemma Wakes_fields:
  assumes "distinct cs"
  shows "g_IoWait (fold (\<lambda>c. event_Wake c status) cs g) = filter (\<lambda>e. snd e \<notin> set cs) (g_IoWait g)"
    and "g_Ready (fold (\<lambda>c. event_Wake c status) cs g) = filter (\<lambda>c. c \<notin> set cs) (g_Ready g) @ cs"
    and "cont_event_of (fold (\<lambda>c. event_Wake c status) cs g) c' = (if c' \<in> set cs then map_option (\<lambda>e. e\<lparr>ev_Status := status\<rparr>) (cont_event_of g c') else cont_event_of g c')"
  using assms
proof (induction cs arbitrary: g)
  case (Cons c cs)
  { case 1 then show ?case using Cons.IH(1) by (auto simp: Wake_fields intro: filter_cong) }
  { case 2
    have "filter (\<lambda>c. c \<notin> set cs) [c] = [c]" using 2 by simp
    then show ?case using Cons.IH(2) 2 by (auto simp: Wake_fields intro: filter_cong) }
  { case 3 then show ?case using Cons.IH(3) by (auto simp: Wake_fields) }
qed simp_all

section \<open>Helper lemmas for programs\<close>

text \<open>The coroutine in control.\<close>

definition running :: "('s, 'pc) machine \<Rightarrow> cid option" where
  "running m = (case m_at m of InCont c \<Rightarrow> Some c | _ \<Rightarrow> None)"

lemma running_frames [simp]: "running (m\<lparr>m_ex := g\<rparr>) = running m" "running (m\<lparr>m_mem := s\<rparr>) = running m"
  by (simp_all add: running_def)

lemma Releases_Cont: "g_Cont (fold executor_Release cs g) c = (if c \<in> set cs then None else g_Cont g c)"
  by (induction cs arbitrary: g) (auto simp: executor_Release_def Let_def)

lemma Cont_goto: "g_Cont (goto c pc g) c' = (if c' = c then map_option (\<lambda>t. t\<lparr>ct_pc := pc\<rparr>) (g_Cont g c) else g_Cont g c')"
  by (simp add: goto_def g_Cont_upd)

lemma at_same: "m_at m = a \<Longrightarrow> m\<lparr>m_ex := g, m_at := a\<rparr> = m\<lparr>m_ex := g\<rparr>"
  by (cases m) simp

definition new_cont :: "'pc \<Rightarrow> 'pc cont" where
  "new_cont pc = \<lparr>ct_pc = pc, ct_Cancelled = False, ct_Exited = False, ct_Event = None\<rparr>"

lemma Create_new:
  assumes "g_Free g = []"
  shows "g_Free (snd (executor_Create pc g)) = [] \<and> g_Next (snd (executor_Create pc g)) = Suc (g_Next g) \<and> g_Cont (snd (executor_Create pc g)) = (g_Cont g)(g_Next g := Some (new_cont pc))"
  using assms by (simp add: executor_Create_def CreateImpl_def pool_Allocate_def Construct_def link_fields Let_def new_cont_def)

section \<open>Rounds that only wake\<close>

text \<open>
  Without handlers a round of \<open>WaitForIO\<close> only wakes coroutines that wait for an event.
\<close>

definition no_handlers :: "'s handlers" where
  "no_handlers n status s = (s, [])"

inductive wakes :: "'pc executor \<Rightarrow> 'pc executor \<Rightarrow> bool" for g where
  wakes_refl: "wakes g g"
| wakes_step: "wakes g g' \<Longrightarrow> cont_event_of g' c \<noteq> None \<Longrightarrow> wakes g (event_Wake c status g')"

lemma wakes_trans: "wakes g' g'' \<Longrightarrow> wakes g g' \<Longrightarrow> wakes g g''"
  by (induction rule: wakes.induct) (auto intro: wakes_step)

definition alike :: "'pc cont \<Rightarrow> 'pc cont \<Rightarrow> bool" where
  "alike t t' \<longleftrightarrow> ct_pc t' = ct_pc t \<and> ct_Cancelled t' = ct_Cancelled t \<and> ct_Exited t' = ct_Exited t \<and> (ct_Event t' = None) = (ct_Event t = None)"

definition woken :: "'pc executor \<Rightarrow> 'pc executor \<Rightarrow> bool" where
  "woken g g' \<longleftrightarrow> (\<forall>c. rel_option alike (g_Cont g c) (g_Cont g' c)) \<and> set (g_Ready g) \<subseteq> set (g_Ready g') \<and> g_ToDelete g' = g_ToDelete g \<and> g_Current g' = g_Current g"

lemma woken_trans: "woken g g' \<Longrightarrow> woken g' g'' \<Longrightarrow> woken g g''"
proof -
  assume a: "woken g g'" "woken g' g''"
  have "rel_option alike (g_Cont g c) (g_Cont g'' c)" for c
  proof -
    have "rel_option alike (g_Cont g c) (g_Cont g' c)" "rel_option alike (g_Cont g' c) (g_Cont g'' c)" using a by (auto simp: woken_def)
    then show ?thesis by (cases "g_Cont g c"; cases "g_Cont g' c"; cases "g_Cont g'' c") (auto simp: alike_def)
  qed
  then show ?thesis using a by (auto simp: woken_def)
qed

lemma woken_Wake:
  assumes ok: "executor_ok code run g" and c: "cont_event_of g c \<noteq> None"
  shows "woken g (event_Wake c status g)"
proof -
  have "c \<notin> set (g_ToDelete g)"
    using ok c by (fastforce simp: executor_ok_def lists_ok_def events_ok_def cont_event_of_def bind_eq_Some_conv)
  then have td: "g_ToDelete (event_Wake c status g) = g_ToDelete g" "g_Current (event_Wake c status g) = g_Current g"
    by (auto simp: event_Wake_def link_fields filter_id_conv)
  have "rel_option alike (g_Cont g c') (g_Cont (event_Wake c status g) c')" for c'
    by (cases "g_Cont g c'"; cases "c' = c") (simp_all add: event_Wake_def g_Cont_upd alike_def)
  then show ?thesis using td by (auto simp: woken_def Wake_fields)
qed

lemma wakes_keeps: "wakes g g' \<Longrightarrow> executor_ok code run g \<Longrightarrow> executor_ok code run g' \<and> woken g g'"
proof (induction rule: wakes.induct)
  case wakes_refl
  then show ?case by (simp add: woken_def option.rel_refl alike_def)
next
  case (wakes_step g' c status)
  then have ok: "executor_ok code run g'" "woken g g'" by blast+
  have live: "g_Cont g' c \<noteq> None" using wakes_step(2) by (auto simp: cont_event_of_def bind_eq_Some_conv)
  show ?case using executor_ok_Wake [OF ok(1) live] woken_trans [OF ok(2) woken_Wake [OF ok(1) wakes_step(2)]] by blast
qed

lemma wakes_timeout_loop:
  "(\<And>d c. (d, c) \<in> set es \<Longrightarrow> cont_event_of g c \<noteq> None) \<Longrightarrow> wakes g (timeout_loop now es g)"
proof (induction now es g rule: timeout_loop.induct)
  case (2 now d c es g)
  have w: "wakes g (event_Wake c ETIMEDOUT g)" using "2.prems" [of d c] by (intro wakes_step wakes_refl) simp
  have "wakes (event_Wake c ETIMEDOUT g) (timeout_loop now es (event_Wake c ETIMEDOUT g))" if "d \<le> now"
    using that "2.prems" by (intro "2.IH") (auto simp: Wake_fields)
  then show ?case using wakes_trans [OF _ w] by (auto intro: wakes_refl)
qed (simp add: wakes_refl)

lemma wakes_CancelTimedOut: "executor_ok code run g \<Longrightarrow> wakes g (snd (CancelTimedOut now g))"
  using wakes_timeout_loop [of "g_IoWait g" g now]
  by (cases "g_IoWait g") (fastforce simp: CancelTimedOut_def executor_ok_def timers_ok_def intro: wakes_refl split: prod.splits)+

lemma wakes_dispatch_list:
  fixes gs :: "'pc executor \<times> 's"
  assumes "\<And>c w. (FdEvent c, w) \<in> set es \<Longrightarrow> cont_event_of (fst gs) c \<noteq> None" and "dispatch_list no_handlers status flt es gs = Some gs'"
  shows "wakes (fst gs) (fst gs') \<and> snd gs' = snd gs"
  using assms
proof (induction "no_handlers :: 's handlers" status flt es gs rule: dispatch_list.induct)
  case (2 status flt ev what es gs)
  obtain g s where gs: "gs = (g, s)" by force
  show ?case
  proof (cases "status \<noteq> 0 \<or> what AND flt \<noteq> 0")
    case True
    show ?thesis
    proof (cases ev)
      case (FdEvent c)
      have w: "wakes g (event_Wake c status g)" using "2.prems"(1) [of c what] FdEvent gs by (intro wakes_step wakes_refl) simp
      have o: "OnPollEvent no_handlers ev status gs = Some (event_Wake c status g, s)" using FdEvent gs by simp
      then have d: "dispatch_list no_handlers status flt es (event_Wake c status g, s) = Some gs'" using "2.prems"(2) True by simp
      have "cont_event_of (event_Wake c status g) c' \<noteq> None" if "(FdEvent c', w) \<in> set es" for c' w
        using "2.prems"(1) [of c' w] that gs by (auto simp: Wake_fields)
      then show ?thesis using "2.hyps"(1) [OF True o] d wakes_trans [OF _ w] gs by auto
    next
      case (Handler n)
      then have o: "OnPollEvent no_handlers ev status gs = Some gs" using gs by (simp add: no_handlers_def)
      then show ?thesis using "2.hyps"(1) [OF True o] "2.prems" True by auto
    qed
  next
    case False
    then show ?thesis using "2.hyps"(2) "2.prems" by auto
  qed
qed (simp add: wakes_refl)

lemma wakes_dispatch:
  fixes gs :: "'pc executor \<times> 's"
  assumes "executor_ok code run (fst gs)" and "dispatch no_handlers evs gs = Some gs'"
  shows "wakes (fst gs) (fst gs') \<and> snd gs' = snd gs"
  using assms
proof (induction "no_handlers :: 's handlers" evs gs rule: dispatch.induct)
  case (2 fd status flt evs gs)
  then obtain gs1 where g1: "dispatch_list no_handlers status flt (g_Lists (fst gs) fd) gs = Some gs1" "dispatch no_handlers evs gs1 = Some gs'"
    by (auto simp: bind_eq_Some_conv)
  have "cont_event_of (fst gs) c \<noteq> None" if "(FdEvent c, w) \<in> set (g_Lists (fst gs) fd)" for c w
    using "2.prems"(1) that by (fastforce simp: executor_ok_def poller_inv_def)
  then have w: "wakes (fst gs) (fst gs1)" "snd gs1 = snd gs" using wakes_dispatch_list [OF _ g1(1)] by auto
  moreover have "executor_ok code run (fst gs1)" using wakes_keeps [OF w(1) "2.prems"(1)] by simp
  ultimately show ?case using "2.hyps" [OF g1(1)] g1(2) wakes_trans by metis
qed (simp add: wakes_refl)

lemma dispatch_no_handlers:
  fixes gs :: "'pc executor \<times> 's"
  shows "\<exists>gs'. dispatch no_handlers evs gs = Some gs'"
proof -
  have l: "\<exists>gs'. dispatch_list no_handlers status flt es gs = Some gs'" for status flt es and gs :: "'pc executor \<times> 's"
  proof (induction es arbitrary: gs)
    case (Cons e es)
    obtain ev what where "e = (ev, what)" by force
    then show ?case using Cons.IH by (cases ev; cases gs) (auto simp: no_handlers_def)
  qed simp
  show ?thesis
  proof (induction evs arbitrary: gs)
    case (Cons e evs)
    obtain fd status flt where e: "e = (fd, status, flt)" by (cases e) auto
    obtain gs1 where "dispatch_list no_handlers status flt (g_Lists (fst gs) fd) gs = Some gs1" using l by blast
    then show ?case using Cons.IH [of gs1] e by simp
  qed simp
qed

lemma wakes_WaitForIO:
  assumes "executor_ok code run (m_ex m)"
  shows "\<exists>g. WaitForIO_round no_handlers now evs m = m\<lparr>m_ex := g\<rparr> \<and> wakes (m_ex m) g"
proof -
  obtain n g where c: "CancelTimedOut now (m_ex m) = (n, g)" by force
  let ?g = "if evs = [] then snd (CancelTimedOut n g) else g"
  have w: "wakes (m_ex m) g" using wakes_CancelTimedOut [OF assms, of now] c by simp
  then have ok: "executor_ok code run g" using wakes_keeps [OF w assms] by simp
  have w': "wakes (m_ex m) ?g" using wakes_trans [OF wakes_CancelTimedOut [OF ok, of n] w] w by simp
  then have ok': "executor_ok code run ?g" using wakes_keeps [OF w' assms] by simp
  obtain g1 s1 where d: "dispatch no_handlers evs (?g, m_mem m) = Some (g1, s1)" using dispatch_no_handlers by fastforce
  then have "wakes ?g g1" "s1 = m_mem m" using wakes_dispatch [of code run "(?g, m_mem m)" evs "(g1, s1)"] ok' by auto
  then show ?thesis using c d wakes_trans [OF _ w'] by (intro exI [of _ g1]) (simp add: WaitForIO_round_def)
qed

section \<open>Properties\<close>

text \<open>
  C7. No coroutine is lost. Whatever the coroutines and the handlers do, and whatever the clock and the poller
  return, in every state the executor reaches short of a fatal error the lists are disjoint and without
  repetition, the timers are sorted and belong to the events of waiting coroutines, the poller waits for
  exactly the flags of the registered events, and every coroutine that does not run is ready, about to be
  deleted, or waits for a timer; the scheduler stops only when no coroutine is left.
\<close>

theorem executor_invariant:
  assumes "machine_reach code hnd (machine_start fail funcs s) m" and "m_at m \<noteq> Aborted"
  shows "executor_ok code (running m) (m_ex m) \<and> (m_at m = Stopped \<longrightarrow> (\<forall>c. g_Cont (m_ex m) c = None))"
proof -
  have "machine_ok code m" using machine_ok_reach [OF assms(1) machine_ok_start] .
  then show ?thesis
    using assms(2) by (auto simp: machine_ok_def running_def loop_head_def WaitForIO_waits_def executor_ok_def none_lost_def split: control.splits)
qed

text \<open>Two coroutines: one sleeps until 5 and leaves, the other waits for a descriptor.\<close>

definition demo_code :: "nat \<Rightarrow> (nat, nat) instr" where
  "demo_code pc = (if pc = 0 then SleepD 5 (\<lambda>_. 2) else if pc = 1 then PollD 3 1 instant_Max (\<lambda>_. 2) else Leave)"

theorem executor_invariant_witness:
  "\<exists>m. machine_reach demo_code (\<lambda>_ _ s. (s, [])) (machine_start False [0, 1] 0) m \<and> m_at m = Stopped \<and> (\<forall>c. g_Cont (m_ex m) c = None)"
proof -
  let ?envs = "replicate 6 (7, []) @ replicate 11 (8, [(3, 0, 1)])"
  have "map_option m_at (machine_run demo_code (\<lambda>_ _ s. (s, [])) ?envs (machine_start False [0, 1] 0)) = Some Stopped" by code_simp
  then obtain m where m: "machine_run demo_code (\<lambda>_ _ s. (s, [])) ?envs (machine_start False [0, 1] 0) = Some m" "m_at m = Stopped" by auto
  have r: "machine_reach demo_code (\<lambda>_ _ s. (s, [])) (machine_start False [0, 1] 0) m" using machine_run_reach [OF m(1)] .
  then show ?thesis using executor_invariant [OF r] m(2) by auto
qed

text \<open>
  Timers. \<open>CancelTimedOut\<close> wakes exactly the coroutines whose deadline is not after \<open>now\<close>, in the order of
  their deadlines and behind those that are ready, each with the status \<open>ETIMEDOUT\<close>; no other event changes;
  it returns the earliest deadline if none is due.
\<close>

theorem timers_fire:
  assumes "executor_ok code run g" and "CancelTimedOut now g = (next1, g')"
  shows "let due = map snd (filter (\<lambda>e. fst e \<le> now) (g_IoWait g)) in
      g_Ready g' = filter (\<lambda>c. c \<notin> set due) (g_Ready g) @ due
    \<and> g_IoWait g' = filter (\<lambda>e. now < fst e) (g_IoWait g)
    \<and> (\<forall>c. map_option ev_Status (cont_event_of g' c) = (if c \<in> set due then Some ETIMEDOUT else map_option ev_Status (cont_event_of g c)))
    \<and> next1 = (if due = [] \<and> g_IoWait g \<noteq> [] then fst (hd (g_IoWait g)) else now)"
proof -
  let ?due = "map snd (filter (\<lambda>e. fst e \<le> now) (g_IoWait g))"
  have t: "sorted (g_IoWait g)" "distinct (map snd (g_IoWait g))"
    "\<And>d c. (d, c) \<in> set (g_IoWait g) \<Longrightarrow> \<exists>ev. cont_event_of g c = Some ev" using assms(1) by (auto simp: executor_ok_def timers_ok_def)
  have tw: "takeWhile (\<lambda>e. fst e \<le> now) (g_IoWait g) = filter (\<lambda>e. fst e \<le> now) (g_IoWait g)" using sorted_takeWhile_filter [OF t(1)] .
  have g': "g' = fold (\<lambda>c. event_Wake c ETIMEDOUT) ?due g"
    using assms(2) unfolding tw [symmetric] by (auto simp: CancelTimedOut_def timeout_loop_fold split: list.splits if_splits)
  have d: "distinct ?due" using t(2) by (simp add: distinct_map_filter)
  have ev: "\<exists>ev. cont_event_of g c = Some ev" if "c \<in> set ?due" for c using that t(3) by auto
  have inj: "snd e \<in> set ?due \<longleftrightarrow> fst e \<le> now" if "e \<in> set (g_IoWait g)" for e
    using that t(2) by (auto simp: distinct_map inj_on_def)
  have w: "filter (\<lambda>e. snd e \<notin> set ?due) (g_IoWait g) = filter (\<lambda>e. now < fst e) (g_IoWait g)"
    using inj by (intro filter_cong) (auto simp: not_le)
  have n: "next1 = (if ?due = [] \<and> g_IoWait g \<noteq> [] then fst (hd (g_IoWait g)) else now)"
    using assms(2) unfolding tw [symmetric] by (auto simp: CancelTimedOut_def split: list.splits if_splits)
  show ?thesis
    unfolding Let_def g' Wakes_fields [OF d] using n w ev by (auto simp: option.map_comp comp_def)
qed

theorem timers_fire_witness:
  "let g = m_ex (the (machine_run demo_code (\<lambda>_ _ s. (s, [])) (replicate 5 (3, [])) (machine_start False [0, 1] 0))) in
     g_Ready (snd (CancelTimedOut 7 g)) = [0] \<and> g_IoWait (snd (CancelTimedOut 7 g)) = [(instant_Max, 1)]"
proof -
  let ?envs = "replicate 5 (3, [])" and ?h = "\<lambda>_ _ s :: nat. (s, [])"
  let ?m = "machine_run demo_code ?h ?envs (machine_start False [0, 1] 0)"
  have e: "map_option (\<lambda>m. (m_at m, g_Ready (m_ex m), g_IoWait (m_ex m))) ?m = Some (InWaitForIO, [], [(5, 0), (instant_Max, 1)])" by code_simp
  then obtain m where m: "?m = Some m" "m_at m = InWaitForIO" "g_Ready (m_ex m) = []" "g_IoWait (m_ex m) = [(5, 0), (instant_Max, 1)]" by auto
  have "executor_ok demo_code None (m_ex m)"
    using machine_ok_reach [OF machine_run_reach [OF m(1)] machine_ok_start] m(2) by (simp add: machine_ok_def)
  moreover obtain n g' where c: "CancelTimedOut 7 (m_ex m) = (n, g')" by force
  ultimately show ?thesis using timers_fire [of demo_code None "m_ex m" 7 n g'] m by (simp add: Let_def)
qed

lemma Cancel_Cancelled: "cont_Cancelled (cont_Cancel c g) c' \<longleftrightarrow> cont_Cancelled g c' \<or> c' = c \<and> g_Cont g c \<noteq> None"
  by (auto simp: cont_Cancel_def cont_Cancelled_def Let_def g_Cont_upd split: option.splits)

lemma Cancel_Ready: "set (g_Ready (cont_Cancel c g)) = set (g_Ready g) \<union> (if cont_Cancelled g c \<or> g_Current g = Some c then {} else {c})"
  by (auto simp: cont_Cancel_def Let_def link_fields)

lemma Cancel_Current: "g_Current (cont_Cancel c g) = g_Current g"
  by (simp add: cont_Cancel_def Let_def)

lemma fold_Cancel_Current: "g_Current (fold cont_Cancel cs g) = g_Current g"
  by (induction cs arbitrary: g) (simp_all add: Cancel_Current)

lemma Cancels:
  assumes "set cs \<subseteq> dom (g_Cont g)"
  shows "cont_Cancelled (fold cont_Cancel cs g) c \<longleftrightarrow> cont_Cancelled g c \<or> c \<in> set cs"
    and "set (g_Ready (fold cont_Cancel cs g)) = set (g_Ready g) \<union> {c \<in> set cs. \<not> cont_Cancelled g c \<and> g_Current g \<noteq> Some c}"
  using assms
proof (induction cs arbitrary: g)
  case (Cons c' cs)
  { case 1 then show ?case using Cons.IH(1) [of "cont_Cancel c' g"] by (auto simp: Cancel_Cont Cancel_Cancelled) }
  { case 2 then show ?case using Cons.IH(2) [of "cont_Cancel c' g"] by (auto simp: Cancel_Cont Cancel_Cancelled Cancel_Ready Cancel_Current) }
qed simp_all

text \<open>
  Shutting down. \<open>Abort\<close>, called by a coroutine, cancels every other coroutine that has not exited and
  makes it ready.
\<close>

theorem abort_cancels_all:
  assumes "executor_ok code (Some c) g" and "g_Current g = Some c" and "c' \<in> dom (g_Cont g)" and "c' \<notin> set (g_ToDelete g)" and "c' \<noteq> c"
  shows "cont_Cancelled (executor_Abort g) c' \<and> (\<not> cont_Cancelled g c' \<longrightarrow> c' \<in> set (g_Ready (executor_Abort g)))"
proof -
  let ?w = "map snd (g_IoWait g)"
  let ?g = "fold cont_Cancel ?w g"
  have w: "set ?w \<subseteq> dom (g_Cont g)" using timers_live [OF assms(1)] by simp
  have g: "executor_ok code (Some c) ?g" by (rule executor_ok_fold_Cancel [OF assms(1) w])
  then have r: "set (g_Ready ?g) \<subseteq> dom (g_Cont ?g)" by (auto simp: executor_ok_def lists_ok_def)
  have "c' \<in> set (g_Ready g) \<or> c' \<in> set ?w" using assms by (auto simp: executor_ok_def none_lost_def)
  then show ?thesis
    using Cancels [OF w] Cancels [OF r] fold_Cancel_Current [of ?w g] assms(2,5) by (auto simp: executor_Abort_fold Let_def)
qed

theorem abort_cancels_all_witness:
  "let g = m_ex (the (machine_run demo_code (\<lambda>_ _ s. (s, [])) (replicate 4 (3, [])) (machine_start False [0, 1] 0))) in
     cont_Cancelled (executor_Abort g) 0 \<and> 0 \<in> set (g_Ready (executor_Abort g))"
proof -
  let ?m = "machine_run demo_code (\<lambda>_ _ s :: nat. (s, [])) (replicate 4 (3, [])) (machine_start False [0, 1] 0)"
  have e: "map_option (\<lambda>m. (m_at m, g_Current (m_ex m), g_ToDelete (m_ex m), cont_Cancelled (m_ex m) 0, g_Cont (m_ex m) 0 = None)) ?m = Some (InCont 1, Some 1, [], False, False)" by code_simp
  then obtain m where m: "?m = Some m" "m_at m = InCont 1" "g_Current (m_ex m) = Some 1" "g_ToDelete (m_ex m) = []" "\<not> cont_Cancelled (m_ex m) 0" "0 \<in> dom (g_Cont (m_ex m))" by auto
  have "executor_ok demo_code (Some 1) (m_ex m)"
    using machine_ok_reach [OF machine_run_reach [OF m(1)] machine_ok_start] m(2) by (simp add: machine_ok_def)
  then show ?thesis using abort_cancels_all [of demo_code 1 "m_ex m" 0] m by (simp add: Let_def)
qed

end
