(* ===== verification/Chunkqueue.thy ===== *)
theory Chunkqueue
  imports Green Chunks
begin

text \<open>
  The event \<open>TMyEvent\<close> (web/httpd/kernel/syncro.h) and the queue \<open>TChunkQueue\<close> (queue.h) between coroutines,
  on the machine of \<open>Green\<close>. The code of \<open>Pop\<close>, \<open>Push\<close>, \<open>Stop\<close>, \<open>Wait\<close> and \<open>Signal\<close> is cut where it calls the
  executor; \<open>Ev_\<close> points to an event on the stack of the waiting coroutine and is that coroutine.

  The queue is used by one coroutine that pops until \<open>Pop\<close> returns false, as a stream of the spdy module
  does, and any number of coroutines that push, stop, sleep and abort in any order.
\<close>

section \<open>State and code\<close>

record my_event =
  e_Ev :: "cid option"
  e_S :: bool

definition my_event_new :: my_event where
  "my_event_new = \<lparr>e_Ev = None, e_S = False\<rparr>"

text \<open>\<open>q_Got\<close>, \<open>q_Early\<close> and \<open>q_Late\<close> record what was popped, and pushed before and after \<open>Stop\<close>.\<close>

record chunk_queue =
  q_AllDone :: bool
  q_Event :: my_event
  q_Chunks :: chunks
  q_Got :: chunks
  q_Early :: chunks
  q_Late :: chunks

definition chunk_queue_new :: chunk_queue where
  "chunk_queue_new = \<lparr>q_AllDone = False, q_Event = my_event_new, q_Chunks = [], q_Got = [], q_Early = [], q_Late = []\<rparr>"

definition InQueue :: "chunk_queue \<Rightarrow> nat" where
  "InQueue q = FullLength (q_Chunks q)"

datatype client_act = PushAct chunks | StopAct | SleepAct instant | AbortAct

datatype queue_pc =
    PopTest | WaitTest | WaitSleep | WaitEnd | PopDone bool chunks | Finished
  | Client "client_act list" | ClientWake cid "client_act list"

text \<open>\<open>TMyEvent::Signal\<close>: the event, and the coroutine to wake.\<close>

definition event_Signal :: "my_event \<Rightarrow> my_event \<times> cid option" where
  "event_Signal e = (e\<lparr>e_S := True\<rparr>, e_Ev e)"

text \<open>\<open>TMyEvent::WaitD\<close> up to the sleep: whether it sleeps; and after it.\<close>

definition event_Wait :: "cid \<Rightarrow> my_event \<Rightarrow> my_event \<times> bool" where
  "event_Wait c e = (if \<not> e_S e then (e\<lparr>e_Ev := Some c\<rparr>, True) else (e\<lparr>e_S := False\<rparr>, False))"

definition event_Wait_end :: "my_event \<Rightarrow> my_event" where
  "event_Wait_end e = e\<lparr>e_Ev := None, e_S := False\<rparr>"

definition queue_signal :: "chunk_queue \<Rightarrow> client_act list \<Rightarrow> chunk_queue \<times> queue_pc" where
  "queue_signal q acts = (case event_Signal (q_Event q) of (e, w) \<Rightarrow>
     (q\<lparr>q_Event := e\<rparr>, case w of None \<Rightarrow> Client acts | Some c \<Rightarrow> ClientWake c acts))"

definition queue_Push :: "chunks \<Rightarrow> client_act list \<Rightarrow> chunk_queue \<Rightarrow> chunk_queue \<times> queue_pc" where
  "queue_Push lst acts q =
     queue_signal (if q_AllDone q then q\<lparr>q_Chunks := q_Chunks q @ lst, q_Late := q_Late q @ lst\<rparr>
       else q\<lparr>q_Chunks := q_Chunks q @ lst, q_Early := q_Early q @ lst\<rparr>) acts"

definition queue_Stop :: "client_act list \<Rightarrow> chunk_queue \<Rightarrow> chunk_queue \<times> queue_pc" where
  "queue_Stop acts q = queue_signal (q\<lparr>q_AllDone := True\<rparr>) acts"

text \<open>\<open>Pop\<close>: the head of its loop.\<close>

definition queue_Pop :: "chunk_queue \<Rightarrow> chunk_queue \<times> queue_pc" where
  "queue_Pop q =
     (if q_Chunks q = [] then (if q_AllDone q then (q, PopDone False []) else (q, WaitTest))
      else (q\<lparr>q_Chunks := []\<rparr>, PopDone True (q_Chunks q)))"

fun queue_code :: "queue_pc \<Rightarrow> (chunk_queue, queue_pc) instr" where
  "queue_code PopTest = Access (\<lambda>c q. queue_Pop q)"
| "queue_code WaitTest = Access (\<lambda>c q. case event_Wait c (q_Event q) of (e, sleeps) \<Rightarrow> (q\<lparr>q_Event := e\<rparr>, if sleeps then WaitSleep else PopTest))"
| "queue_code WaitSleep = SleepD instant_Max (\<lambda>_. WaitEnd)"
| "queue_code WaitEnd = Access (\<lambda>c q. (q\<lparr>q_Event := event_Wait_end (q_Event q)\<rparr>, PopTest))"
| "queue_code (PopDone res lst) = Access (\<lambda>c q. (q\<lparr>q_Got := q_Got q @ lst\<rparr>, if res then PopTest else Finished))"
| "queue_code Finished = Leave"
| "queue_code (Client []) = Leave"
| "queue_code (Client (PushAct lst # acts)) = Access (\<lambda>c. queue_Push lst acts)"
| "queue_code (Client (StopAct # acts)) = Access (\<lambda>c. queue_Stop acts)"
| "queue_code (Client (SleepAct d # acts)) = SleepD d (\<lambda>_. Client acts)"
| "queue_code (Client (AbortAct # acts)) = Request AbortAll (Client acts)"
| "queue_code (ClientWake c acts) = Request (ScheduleExec c) (Client acts)"

text \<open>The popping coroutine is created first and is coroutine 0.\<close>

definition queue_start :: "bool \<Rightarrow> client_act list list \<Rightarrow> (chunk_queue, queue_pc) machine" where
  "queue_start fail clients = machine_start fail (PopTest # map Client clients) chunk_queue_new"

section \<open>The invariant\<close>

definition no_abort :: "client_act list \<Rightarrow> bool" where
  "no_abort acts \<longleftrightarrow> AbortAct \<notin> set acts"

fun client_ok :: "bool \<Rightarrow> queue_pc \<Rightarrow> bool" where
  "client_ok runs (Client acts) \<longleftrightarrow> no_abort acts"
| "client_ok runs (ClientWake c acts) \<longleftrightarrow> runs \<and> c = 0 \<and> no_abort acts"
| "client_ok runs _ \<longleftrightarrow> False"

text \<open>A coroutine that has signalled and is about to wake the popping one.\<close>

definition about_to_wake :: "(chunk_queue, queue_pc) machine \<Rightarrow> bool" where
  "about_to_wake m \<longleftrightarrow> (\<exists>p t acts. running m = Some p \<and> p \<noteq> 0 \<and> g_Cont (m_ex m) p = Some t \<and> ct_pc t = ClientWake 0 acts)"

text \<open>The popping coroutine at each of its program counters.\<close>

fun popper_ok :: "(chunk_queue, queue_pc) machine \<Rightarrow> bool \<Rightarrow> bool \<Rightarrow> queue_pc \<Rightarrow> bool" where
  "popper_ok m has_event exited PopTest \<longleftrightarrow> \<not> exited \<and> e_Ev (q_Event (m_mem m)) = None"
| "popper_ok m has_event exited WaitTest \<longleftrightarrow> \<not> exited \<and> running m = Some 0 \<and> e_Ev (q_Event (m_mem m)) = None \<and> q_Chunks (m_mem m) = [] \<and> \<not> q_AllDone (m_mem m)"
| "popper_ok m has_event exited WaitSleep \<longleftrightarrow> \<not> exited \<and> e_Ev (q_Event (m_mem m)) = Some 0
     \<and> (\<not> e_S (q_Event (m_mem m)) \<longrightarrow> q_Chunks (m_mem m) = [] \<and> \<not> q_AllDone (m_mem m))
     \<and> (e_S (q_Event (m_mem m)) \<longrightarrow> 0 \<in> set (g_Ready (m_ex m)) \<or> running m = Some 0 \<and> has_event \<or> about_to_wake m)
     \<and> (\<not> has_event \<longrightarrow> running m = Some 0 \<and> \<not> e_S (q_Event (m_mem m)))"
| "popper_ok m has_event exited WaitEnd \<longleftrightarrow> \<not> exited \<and> running m = Some 0 \<and> e_Ev (q_Event (m_mem m)) = Some 0"
| "popper_ok m has_event exited (PopDone res lst) \<longleftrightarrow> \<not> exited \<and> running m = Some 0 \<and> e_Ev (q_Event (m_mem m)) = None
     \<and> (\<not> res \<longrightarrow> lst = [] \<and> q_AllDone (m_mem m) \<and> q_Chunks (m_mem m) = [])"
| "popper_ok m has_event exited Finished \<longleftrightarrow> (exited \<or> running m = Some 0) \<and> e_Ev (q_Event (m_mem m)) = None
     \<and> q_AllDone (m_mem m) \<and> length (q_Early (m_mem m)) \<le> length (q_Got (m_mem m))"
| "popper_ok m has_event exited _ \<longleftrightarrow> False"

fun in_flight :: "queue_pc \<Rightarrow> chunks" where
  "in_flight (PopDone res lst) = lst"
| "in_flight _ = []"

definition popper_pc :: "(chunk_queue, queue_pc) machine \<Rightarrow> queue_pc option" where
  "popper_pc m = map_option ct_pc (g_Cont (m_ex m) 0)"

definition queue_ok :: "(chunk_queue, queue_pc) machine \<Rightarrow> bool" where
  "queue_ok m \<longleftrightarrow> m_at m \<noteq> Aborted
     \<and> q_Got (m_mem m) @ (case popper_pc m of None \<Rightarrow> [] | Some pc \<Rightarrow> in_flight pc) @ q_Chunks (m_mem m) = q_Early (m_mem m) @ q_Late (m_mem m)
     \<and> (\<not> q_AllDone (m_mem m) \<longrightarrow> q_Late (m_mem m) = [])
     \<and> (\<forall>c t. g_Cont (m_ex m) c = Some t \<longrightarrow> \<not> ct_Cancelled t \<and> (ct_Exited t \<longrightarrow> c \<in> set (g_ToDelete (m_ex m))))
     \<and> (\<forall>c t. g_Cont (m_ex m) c = Some t \<and> c \<noteq> 0 \<longrightarrow> client_ok (running m = Some c) (ct_pc t))
     \<and> (case g_Cont (m_ex m) 0 of
          None \<Rightarrow> e_Ev (q_Event (m_mem m)) = None \<and> q_AllDone (m_mem m) \<and> length (q_Early (m_mem m)) \<le> length (q_Got (m_mem m))
        | Some t \<Rightarrow> popper_ok m (ct_Event t \<noteq> None) (ct_Exited t) (ct_pc t))
     \<and> (about_to_wake m \<longrightarrow> popper_pc m = Some WaitSleep)"

lemma queue_ok_loop:
  assumes ok: "queue_ok m" and ex: "machine_ok queue_code m" and at: "m_at m = InLoop"
  shows "queue_ok (RunScheduler_step m)"
proof (cases "g_Ready (m_ex m)")
  case Nil
  then show ?thesis using ok at by (auto simp: RunScheduler_step_def queue_ok_def popper_pc_def about_to_wake_def running_def split: option.splits) (auto elim!: popper_ok.elims simp: running_def about_to_wake_def)
next
  case (Cons c cs)
  let ?m = "RunScheduler_step m"
  have r: "running m = None" "running ?m = Some c" using at Cons by (simp_all add: running_def RunScheduler_step_def)
  have f: "g_Cont (m_ex ?m) = g_Cont (m_ex m)" "m_mem ?m = m_mem m" "g_Ready (m_ex ?m) = cs" "g_ToDelete (m_ex ?m) = g_ToDelete (m_ex m)" "m_at ?m = InCont c"
    using Cons by (simp_all add: RunScheduler_step_def)
  have nw: "\<not> about_to_wake ?m" "\<not> about_to_wake m"
    using ok r by (fastforce simp: about_to_wake_def f queue_ok_def)+
  have cl: "client_ok (running ?m = Some c') pc" if "client_ok (running m = Some c') pc" for c' pc
    using that r by (cases pc) auto
  have pop: "popper_ok ?m he ex pc" if "popper_ok m he ex pc" for he ex pc
    using that r Cons nw by (cases pc) (auto simp: f)
  show ?thesis
    using ok nw cl pop unfolding queue_ok_def popper_pc_def f by (auto split: option.splits)
qed

lemma queue_ok_wakes:
  assumes ok: "queue_ok m" and w: "woken (m_ex m) g" and at: "m_at m = InWaitForIO"
  shows "queue_ok (m\<lparr>m_ex := g\<rparr>)"
proof -
  let ?m = "m\<lparr>m_ex := g\<rparr>"
  have r: "running m = None" "running ?m = None" using at by (simp_all add: running_def)
  have al: "rel_option alike (g_Cont (m_ex m) c) (g_Cont g c)" for c using w by (simp add: woken_def)
  have bk: "\<exists>t. g_Cont (m_ex m) c = Some t \<and> alike t t'" if "g_Cont g c = Some t'" for c t'
    using al [of c] that by (cases "g_Cont (m_ex m) c") auto
  have nw: "\<not> about_to_wake ?m" "\<not> about_to_wake m" using r by (simp_all add: about_to_wake_def)
  have pop: "popper_ok ?m he ex pc" if "popper_ok m he ex pc" for he ex pc
    using that r w nw by (cases pc) (auto simp: woken_def)
  have pp: "popper_pc ?m = popper_pc m"
    using al [of 0] by (cases "g_Cont (m_ex m) 0"; cases "g_Cont g 0") (auto simp: popper_pc_def alike_def)
  have ct: "\<not> ct_Cancelled t' \<and> (ct_Exited t' \<longrightarrow> c \<in> set (g_ToDelete g)) \<and> (c \<noteq> 0 \<longrightarrow> client_ok (running ?m = Some c) (ct_pc t'))"
    if "g_Cont g c = Some t'" for c t'
    using bk [OF that] ok r w by (auto simp: queue_ok_def alike_def woken_def)
  have p0: "case g_Cont g 0 of None \<Rightarrow> e_Ev (q_Event (m_mem m)) = None \<and> q_AllDone (m_mem m) \<and> length (q_Early (m_mem m)) \<le> length (q_Got (m_mem m))
        | Some t \<Rightarrow> popper_ok ?m (ct_Event t \<noteq> None) (ct_Exited t) (ct_pc t)"
    using al [of 0] ok pop by (cases "g_Cont (m_ex m) 0"; cases "g_Cont g 0") (auto simp: queue_ok_def alike_def)
  show ?thesis using ok nw ct p0 unfolding queue_ok_def pp by (auto split: option.splits)
qed

lemma queue_ok_delete:
  assumes ok: "queue_ok m" and ex: "executor_ok queue_code None (m_ex m)" and at: "m_at m = InWaitForIO"
  shows "queue_ok (m\<lparr>m_ex := DeleteScheduled (m_ex m), m_at := InLoop\<rparr>)"
proof -
  let ?m = "m\<lparr>m_ex := DeleteScheduled (m_ex m), m_at := InLoop\<rparr>"
  have r: "running m = None" "running ?m = None" using at by (simp_all add: running_def)
  have ct: "g_Cont (DeleteScheduled (m_ex m)) c = (if c \<in> set (g_ToDelete (m_ex m)) then None else g_Cont (m_ex m) c)" for c
    by (simp add: DeleteScheduled_def Releases_Cont)
  have rd: "g_Ready (DeleteScheduled (m_ex m)) = g_Ready (m_ex m)" using ex DeleteScheduled_Ready by (auto simp: executor_ok_def)
  have nw: "\<not> about_to_wake ?m" "\<not> about_to_wake m" using r by (simp_all add: about_to_wake_def)
  have pop: "popper_ok ?m he ex pc" if "popper_ok m he ex pc" for he ex pc
    using that r nw by (cases pc) (auto simp: rd)
  have z: "\<exists>t. g_Cont (m_ex m) 0 = Some t \<and> ct_Exited t" if "0 \<in> set (g_ToDelete (m_ex m))"
    using ex that by (auto simp: executor_ok_def lists_ok_def)
  have gone: "popper_pc m = Some Finished" "popper_ok m he True Finished" if td: "0 \<in> set (g_ToDelete (m_ex m))" for he
  proof -
    obtain t where t: "g_Cont (m_ex m) 0 = Some t" "ct_Exited t" using z [OF td] by blast
    then have "popper_ok m (ct_Event t \<noteq> None) True (ct_pc t)" using ok by (auto simp: queue_ok_def)
    then show "popper_pc m = Some Finished" "popper_ok m he True Finished" using t by (cases "ct_pc t"; simp add: popper_pc_def)+
  qed
  show ?thesis
  proof (cases "0 \<in> set (g_ToDelete (m_ex m))")
    case True
    then show ?thesis using ok gone [OF True] r nw unfolding queue_ok_def popper_pc_def by (auto simp: ct DeleteScheduled_fields split: if_splits)
  next
    case False
    then show ?thesis using ok pop r nw unfolding queue_ok_def popper_pc_def by (auto simp: ct DeleteScheduled_fields split: if_splits option.splits)
  qed
qed

text \<open>Steps of the popping coroutine.\<close>

lemma queue_ok_popper_access:
  assumes ok: "queue_ok m" and at: "m_at m = InCont 0" and t: "g_Cont (m_ex m) 0 = Some t" "ct_Event t = None" "\<not> ct_Exited t"
    and mem: "q_Got s @ in_flight pc @ q_Chunks s = q_Early s @ q_Late s" "\<not> q_AllDone s \<longrightarrow> q_Late s = []"
    and pop: "popper_ok (m\<lparr>m_mem := s, m_ex := goto 0 pc (m_ex m)\<rparr>) False False pc"
  shows "queue_ok (m\<lparr>m_mem := s, m_ex := goto 0 pc (m_ex m)\<rparr>)"
proof -
  let ?m = "m\<lparr>m_mem := s, m_ex := goto 0 pc (m_ex m)\<rparr>"
  have r: "running ?m = Some 0" "running m = Some 0" using at by (simp_all add: running_def)
  have nw: "\<not> about_to_wake ?m" using r by (simp add: about_to_wake_def)
  have "\<forall>c t. g_Cont (m_ex ?m) c = Some t \<and> c \<noteq> 0 \<longrightarrow> client_ok (running ?m = Some c) (ct_pc t)"
    using ok r by (auto simp: queue_ok_def Cont_goto)
  then show ?thesis using ok t mem pop nw at by (auto simp: queue_ok_def popper_pc_def Cont_goto)
qed

lemma queue_ok_popper:
  assumes ok: "queue_ok m" and ex: "executor_ok queue_code (Some 0) (m_ex m)" and at: "m_at m = InCont 0" and t: "g_Cont (m_ex m) 0 = Some t"
    and r0: "0 \<notin> set (g_ToDelete (m_ex m))"
  shows "queue_ok (cont_step queue_code 0 m)"
proof -
  let ?q = "m_mem m"
  have p: "popper_ok m (ct_Event t \<noteq> None) (ct_Exited t) (ct_pc t)" and nx: "\<not> ct_Exited t" and nc: "\<not> ct_Cancelled t"
    using ok t r0 by (auto simp: queue_ok_def)
  have r: "running (m\<lparr>m_mem := s, m_ex := g\<rparr>) = Some 0" for s g using at by (simp add: running_def)
  have acc: "q_Got ?q @ in_flight (ct_pc t) @ q_Chunks ?q = q_Early ?q @ q_Late ?q" "\<not> q_AllDone ?q \<longrightarrow> q_Late ?q = []"
    using ok t by (auto simp: queue_ok_def popper_pc_def)
  have ne: "ct_Event t = None" if "\<And>ev. \<not> event_of_instr (queue_code (ct_pc t)) ev"
    using ex t that by (cases "ct_Event t") (auto simp: executor_ok_def events_ok_def)
  show ?thesis
  proof (cases "ct_pc t")
    case PopTest
    then have e: "ct_Event t = None" using ne by (simp add: event_of_instr_def)
    obtain s pc where q: "queue_Pop ?q = (s, pc)" by force
    have "queue_ok (m\<lparr>m_mem := s, m_ex := goto 0 pc (m_ex m)\<rparr>)"
      by (rule queue_ok_popper_access [OF ok at t e nx]) (use q acc PopTest p r in \<open>auto simp: queue_Pop_def split: if_splits\<close>)
    then show ?thesis using PopTest t nx q by (simp add: cont_step_def)
  next
    case WaitTest
    then have e: "ct_Event t = None" using ne by (simp add: event_of_instr_def)
    obtain ev sl where q: "event_Wait 0 (q_Event ?q) = (ev, sl)" by force
    have "queue_ok (m\<lparr>m_mem := ?q\<lparr>q_Event := ev\<rparr>, m_ex := goto 0 (if sl then WaitSleep else PopTest) (m_ex m)\<rparr>)"
      by (rule queue_ok_popper_access [OF ok at t e nx]) (use q acc WaitTest p r in \<open>auto simp: event_Wait_def split: if_splits\<close>)
    then show ?thesis using WaitTest t nx q by (simp add: cont_step_def)
  next
    case WaitEnd
    then have e: "ct_Event t = None" using ne by (simp add: event_of_instr_def)
    have "queue_ok (m\<lparr>m_mem := ?q\<lparr>q_Event := event_Wait_end (q_Event ?q)\<rparr>, m_ex := goto 0 PopTest (m_ex m)\<rparr>)"
      by (rule queue_ok_popper_access [OF ok at t e nx]) (use acc WaitEnd p in \<open>auto simp: event_Wait_end_def\<close>)
    then show ?thesis using WaitEnd t nx by (simp add: cont_step_def)
  next
    case (PopDone res lst)
    then have e: "ct_Event t = None" using ne by (simp add: event_of_instr_def)
    have "length (q_Early ?q) \<le> length (q_Got ?q @ lst)" if "\<not> res"
    proof -
      have "q_Got ?q = q_Early ?q @ q_Late ?q" using that acc(1) PopDone p by simp
      then show ?thesis by simp
    qed
    then have "queue_ok (m\<lparr>m_mem := ?q\<lparr>q_Got := q_Got ?q @ lst\<rparr>, m_ex := goto 0 (if res then PopTest else Finished) (m_ex m)\<rparr>)"
      by (intro queue_ok_popper_access [OF ok at t e nx]) (use acc PopDone p r in auto)
    then show ?thesis using PopDone t nx by (simp add: cont_step_def)
  next
    case Finished
    let ?g = "ScheduleToDelete 0 (upd_cont 0 (\<lambda>t. t\<lparr>ct_Exited := True\<rparr>) (m_ex m))"
    have f: "g_Cont ?g = (g_Cont (m_ex m))(0 := Some (t\<lparr>ct_Exited := True\<rparr>))" "set (g_ToDelete ?g) = insert 0 (set (g_ToDelete (m_ex m)))"
      using t by (auto simp: ScheduleToDelete_def Let_def link_fields upd_cont_def)
    have nw: "\<not> about_to_wake (m\<lparr>m_ex := ?g, m_at := InWaitForIO\<rparr>)" by (simp add: about_to_wake_def running_def)
    have cl: "client_ok (running (m\<lparr>m_ex := ?g, m_at := InWaitForIO\<rparr>) = Some c) (ct_pc t')" if "g_Cont (m_ex m) c = Some t'" "c \<noteq> 0" for c t'
    proof -
      have "client_ok (running m = Some c) (ct_pc t')" using ok that by (auto simp: queue_ok_def)
      then show ?thesis using at that(2) by (simp add: running_def)
    qed
    have "queue_ok (m\<lparr>m_ex := ?g, m_at := InWaitForIO\<rparr>)"
      using ok p Finished t nw cl at unfolding queue_ok_def popper_pc_def by (auto simp: f)
    then show ?thesis using Finished t nx by (simp add: cont_step_def cont_Exit_def)
  next
    case WaitSleep
    have cl: "client_ok b (ct_pc t')" if t': "g_Cont (m_ex m) c = Some t'" "c \<noteq> 0" for c t' b
    proof -
      have "client_ok False (ct_pc t')" using ok t' at by (auto simp: queue_ok_def running_def)
      then show ?thesis by (cases "ct_pc t'") auto
    qed
    show ?thesis
    proof (cases "ct_Event t")
      case None
      let ?g = "event_begin instant_Max None 0 (m_ex m)"
      have f: "g_Cont ?g = (g_Cont (m_ex m))(0 := Some (t\<lparr>ct_Event := Some \<lparr>ev_DeadLine = instant_Max, ev_Status = EINPROGRESS, ev_Fd = None\<rparr>\<rparr>))"
        "g_ToDelete ?g = filter ((\<noteq>) 0) (g_ToDelete (m_ex m))"
        using t by (auto simp: event_begin_def Register_def upd_cont_def link_fields)
      have nw: "\<not> about_to_wake (m\<lparr>m_ex := ?g, m_at := InWaitForIO\<rparr>)" by (simp add: about_to_wake_def running_def)
      have "queue_ok (m\<lparr>m_ex := ?g, m_at := InWaitForIO\<rparr>)"
        using ok p WaitSleep None nx t nw cl unfolding queue_ok_def popper_pc_def by (auto simp: f)
      then show ?thesis using WaitSleep t nx nc None by (simp add: cont_step_def ExecuteEvent_def)
    next
      case (Some ev)
      obtain status g where e: "event_end ev 0 (m_ex m) = (status, g)" by force
      have f: "g_Cont g = (g_Cont (m_ex m))(0 := Some (t\<lparr>ct_Event := None\<rparr>))" "g_Ready g = g_Ready (m_ex m)" "g_ToDelete g = g_ToDelete (m_ex m)"
        using e t by (auto simp: event_end_def Let_def upd_cont_def link_fields event_UnLink_def split: option.splits)
      have nw: "\<not> about_to_wake (m\<lparr>m_ex := goto 0 WaitEnd g\<rparr>)" using at by (simp add: about_to_wake_def running_def)
      have "queue_ok (m\<lparr>m_ex := goto 0 WaitEnd g\<rparr>)"
        using ok p WaitSleep nx t nw cl at unfolding queue_ok_def popper_pc_def by (auto simp: f Cont_goto running_def)
      then show ?thesis using WaitSleep t nx nc Some e by (simp add: cont_step_def ExecuteEvent_def)
    qed
  qed (use p in auto)
qed

text \<open>Steps of the other coroutines.\<close>

lemma queue_ok_client: "queue_ok m \<Longrightarrow> g_Cont (m_ex m) c = Some t \<Longrightarrow> c \<noteq> 0 \<Longrightarrow> client_ok (running m = Some c) (ct_pc t)"
  by (auto simp: queue_ok_def)

lemma popper_ok_cong:
  assumes "popper_ok m he ex pc" and "m_mem m' = m_mem m" and "running m \<noteq> Some 0" and "running m' \<noteq> Some 0"
    and "0 \<in> set (g_Ready (m_ex m)) \<longrightarrow> 0 \<in> set (g_Ready (m_ex m'))" and "about_to_wake m \<longrightarrow> about_to_wake m' \<or> 0 \<in> set (g_Ready (m_ex m'))"
  shows "popper_ok m' he ex pc"
  using assms by (cases pc) auto

lemma queue_ok_client_frame:
  assumes ok: "queue_ok m" and at: "m_at m = InCont c" and c: "c \<noteq> 0" and at': "at' \<in> {InCont c, InWaitForIO}"
    and f: "g_Cont g = (g_Cont (m_ex m))(c := Some t')" and t': "\<not> ct_Cancelled t'" "ct_Exited t' \<longrightarrow> c \<in> set (g_ToDelete g)" "ct_pc t' = Client acts" "no_abort acts"
    and td: "set (g_ToDelete (m_ex m)) - {c} \<subseteq> set (g_ToDelete g)" and rd: "0 \<in> set (g_Ready (m_ex m)) \<longrightarrow> 0 \<in> set (g_Ready g)"
    and w: "about_to_wake m \<longrightarrow> 0 \<in> set (g_Ready g)"
  shows "queue_ok (m\<lparr>m_ex := g, m_at := at'\<rparr>)"
proof -
  let ?m = "m\<lparr>m_ex := g, m_at := at'\<rparr>"
  have r: "running m = Some c" "running ?m = Some c \<or> running ?m = None" using at at' by (auto simp: running_def)
  have nw: "\<not> about_to_wake ?m" using r f t'(3) by (auto simp: about_to_wake_def)
  have z: "g_Cont g 0 = g_Cont (m_ex m) 0" using f c by simp
  have pop: "popper_ok ?m he ex pc" if p: "popper_ok m he ex pc" for he ex pc
    by (rule popper_ok_cong [OF p]) (use r c rd w in auto)
  have cl: "client_ok (running ?m = Some c') (ct_pc t1)" if g1: "g_Cont g c' = Some t1" "c' \<noteq> 0" for c' t1
  proof (cases "c' = c")
    case True
    then show ?thesis using g1 f t' by auto
  next
    case False
    then have "client_ok False (ct_pc t1)" using queue_ok_client [OF ok, of c' t1] g1 f r(1) by simp
    then show ?thesis by (cases "ct_pc t1") auto
  qed
  have ex: "\<not> ct_Cancelled t1 \<and> (ct_Exited t1 \<longrightarrow> c' \<in> set (g_ToDelete g))" if "g_Cont g c' = Some t1" for c' t1
    using that ok f t' td by (cases "c' = c") (auto simp: queue_ok_def)
  show ?thesis
    using ok nw pop cl ex at' unfolding queue_ok_def popper_pc_def by (auto simp: z split: option.splits)
qed

lemma queue_ok_client_signal:
  assumes ok: "queue_ok m" and at: "m_at m = InCont c" and c: "c \<noteq> 0" and t: "g_Cont (m_ex m) c = Some t" "\<not> ct_Exited t" "ct_pc t = Client acts0"
    and acts: "no_abort acts" and sg: "queue_signal q acts = (s, pc)"
    and q: "q_Event q = q_Event (m_mem m)" "q_Got q = q_Got (m_mem m)" "\<exists>l. q_Chunks q = q_Chunks (m_mem m) @ l \<and> q_Early q @ q_Late q = q_Early (m_mem m) @ q_Late (m_mem m) @ l"
      "q_AllDone (m_mem m) \<longrightarrow> q_AllDone q \<and> q_Early q = q_Early (m_mem m)" "\<not> q_AllDone q \<longrightarrow> q_Late q = []"
  shows "queue_ok (m\<lparr>m_mem := s, m_ex := goto c pc (m_ex m)\<rparr>)"
proof -
  let ?m = "m\<lparr>m_mem := s, m_ex := goto c pc (m_ex m)\<rparr>" and ?w = "e_Ev (q_Event (m_mem m))"
  have s: "s = q\<lparr>q_Event := (q_Event q)\<lparr>e_S := True\<rparr>\<rparr>" "pc = (case ?w of None \<Rightarrow> Client acts | Some c \<Rightarrow> ClientWake c acts)"
    using sg q(1) by (auto simp: queue_signal_def event_Signal_def)
  have r: "running m = Some c" "running ?m = Some c" using at by (simp_all add: running_def)
  have z: "g_Cont (goto c pc (m_ex m)) 0 = g_Cont (m_ex m) 0" using c by (simp add: Cont_goto)
  obtain l where l: "q_Chunks q = q_Chunks (m_mem m) @ l" "q_Early q @ q_Late q = q_Early (m_mem m) @ q_Late (m_mem m) @ l" using q(3) by blast
  have w0: "?w = None \<or> ?w = Some 0 \<and> popper_pc m = Some WaitSleep"
  proof (cases "g_Cont (m_ex m) 0")
    case None
    then show ?thesis using ok by (auto simp: queue_ok_def)
  next
    case (Some t0)
    then have "popper_ok m (ct_Event t0 \<noteq> None) (ct_Exited t0) (ct_pc t0)" using ok by (auto simp: queue_ok_def)
    then show ?thesis using r(1) c Some by (cases "ct_pc t0") (auto simp: popper_pc_def)
  qed
  have aw: "about_to_wake ?m \<longleftrightarrow> ?w = Some 0" using w0 t c r by (auto simp: about_to_wake_def s Cont_goto)
  have nw: "\<not> about_to_wake m" using t r by (auto simp: about_to_wake_def)
  have pop: "popper_ok ?m he ex pc0" if p: "popper_ok m he ex pc0" for he ex pc0
    using p r c q(1,2,4) aw by (cases pc0) (auto simp: s)
  have cl: "client_ok (running ?m = Some c') (ct_pc t1)" if g1: "g_Cont (m_ex ?m) c' = Some t1" "c' \<noteq> 0" for c' t1
  proof (cases "c' = c")
    case True
    then show ?thesis using g1 t r acts w0 by (auto simp: Cont_goto s split: option.splits)
  next
    case False
    then have "client_ok False (ct_pc t1)" using queue_ok_client [OF ok, of c' t1] g1 r(1) by (simp add: Cont_goto)
    then show ?thesis by (cases "ct_pc t1") auto
  qed
  have ex: "\<not> ct_Cancelled t1 \<and> (ct_Exited t1 \<longrightarrow> c' \<in> set (g_ToDelete (m_ex ?m)))" if "g_Cont (m_ex ?m) c' = Some t1" for c' t1
    using that ok t by (cases "c' = c") (auto simp: queue_ok_def Cont_goto)
  have bal: "q_Got s @ (case popper_pc ?m of None \<Rightarrow> [] | Some pc \<Rightarrow> in_flight pc) @ q_Chunks s = q_Early s @ q_Late s"
  proof -
    have "popper_pc ?m = popper_pc m" using z by (simp add: popper_pc_def)
    moreover have "q_Got (m_mem m) @ (case popper_pc m of None \<Rightarrow> [] | Some pc \<Rightarrow> in_flight pc) @ q_Chunks (m_mem m) = q_Early (m_mem m) @ q_Late (m_mem m)"
      using ok by (simp add: queue_ok_def)
    ultimately show ?thesis using l q(2) by (simp add: s)
  qed
  have at2: "m_at ?m \<noteq> Aborted" using at by simp
  have gone: "e_Ev (q_Event s) = None \<and> q_AllDone s \<and> length (q_Early s) \<le> length (q_Got s)" if "g_Cont (m_ex m) 0 = None"
    using ok that q by (auto simp: queue_ok_def s)
  have pw: "about_to_wake ?m \<longrightarrow> popper_pc ?m = Some WaitSleep" using aw w0 z by (auto simp: popper_pc_def)
  have p0: "case g_Cont (m_ex ?m) 0 of None \<Rightarrow> e_Ev (q_Event (m_mem ?m)) = None \<and> q_AllDone (m_mem ?m) \<and> length (q_Early (m_mem ?m)) \<le> length (q_Got (m_mem ?m))
        | Some t \<Rightarrow> popper_ok ?m (ct_Event t \<noteq> None) (ct_Exited t) (ct_pc t)"
    using ok gone pop z by (auto simp: queue_ok_def split: option.splits)
  have late: "\<not> q_AllDone s \<longrightarrow> q_Late s = []" using q(5) by (simp add: s)
  show ?thesis
    unfolding queue_ok_def using at2 bal late ex cl p0 pw by simp
qed

lemma queue_ok_client_step:
  assumes ok: "queue_ok m" and ex: "executor_ok queue_code (Some c) (m_ex m)" and at: "m_at m = InCont c" and t: "g_Cont (m_ex m) c = Some t"
    and c: "c \<noteq> 0" and td: "c \<notin> set (g_ToDelete (m_ex m))"
  shows "queue_ok (cont_step queue_code c m)"
proof -
  have r: "running m = Some c" using at by (simp add: running_def)
  have nx: "\<not> ct_Exited t" and nc: "\<not> ct_Cancelled t" using ok t td by (auto simp: queue_ok_def)
  have cl: "client_ok True (ct_pc t)" using queue_ok_client [OF ok t c] r by simp
  have nw: "\<not> about_to_wake m" if "ct_pc t = Client acts" for acts using that t r by (auto simp: about_to_wake_def)
  note fr = queue_ok_client_frame [OF ok at c]
  consider (leave) "ct_pc t = Client []" | (push) lst acts where "ct_pc t = Client (PushAct lst # acts)" "no_abort acts" | (stop) acts where "ct_pc t = Client (StopAct # acts)" "no_abort acts"
    | (sleep) d acts where "ct_pc t = Client (SleepAct d # acts)" "no_abort acts" | (wake) acts where "ct_pc t = ClientWake 0 acts" "no_abort acts"
  proof (cases "ct_pc t")
    case (Client as)
    then show ?thesis
      using cl that by (cases as; cases "hd as") (auto simp: no_abort_def)
  qed (use cl that in \<open>auto simp: no_abort_def\<close>)
  then show ?thesis
  proof cases
    case leave
    let ?g = "ScheduleToDelete c (upd_cont c (\<lambda>t. t\<lparr>ct_Exited := True\<rparr>) (m_ex m))"
    have f: "g_Cont ?g = (g_Cont (m_ex m))(c := Some (t\<lparr>ct_Exited := True\<rparr>))" "set (g_ToDelete ?g) = insert c (set (g_ToDelete (m_ex m)))" "g_Ready ?g = filter ((\<noteq>) c) (g_Ready (m_ex m))"
      using t by (auto simp: ScheduleToDelete_def Let_def link_fields upd_cont_def)
    have "queue_ok (m\<lparr>m_ex := ?g, m_at := InWaitForIO\<rparr>)"
      by (rule fr [OF _ f(1)]) (use leave nc nw f c in \<open>auto simp: no_abort_def\<close>)
    then show ?thesis using leave t nx by (simp add: cont_step_def cont_Exit_def)
  next
    case (push lst acts)
    let ?q = "if q_AllDone (m_mem m) then (m_mem m)\<lparr>q_Chunks := q_Chunks (m_mem m) @ lst, q_Late := q_Late (m_mem m) @ lst\<rparr>
       else (m_mem m)\<lparr>q_Chunks := q_Chunks (m_mem m) @ lst, q_Early := q_Early (m_mem m) @ lst\<rparr>"
    obtain s pc where q: "queue_signal ?q acts = (s, pc)" by force
    have late: "\<not> q_AllDone (m_mem m) \<longrightarrow> q_Late (m_mem m) = []" using ok by (simp add: queue_ok_def)
    have "queue_ok (m\<lparr>m_mem := s, m_ex := goto c pc (m_ex m)\<rparr>)"
      by (rule queue_ok_client_signal [OF ok at c t nx push(1) push(2) q]) (use late in auto)
    then show ?thesis using push t nx q by (simp add: cont_step_def queue_Push_def)
  next
    case (stop acts)
    obtain s pc where q: "queue_signal ((m_mem m)\<lparr>q_AllDone := True\<rparr>) acts = (s, pc)" by force
    have "queue_ok (m\<lparr>m_mem := s, m_ex := goto c pc (m_ex m)\<rparr>)"
      by (rule queue_ok_client_signal [OF ok at c t nx stop(1) stop(2) q]) auto
    then show ?thesis using stop t nx q by (simp add: cont_step_def queue_Stop_def)
  next
    case (sleep d acts)
    show ?thesis
    proof (cases "ct_Event t")
      case None
      let ?g = "event_begin d None c (m_ex m)"
      let ?t = "t\<lparr>ct_Event := Some \<lparr>ev_DeadLine = d, ev_Status = EINPROGRESS, ev_Fd = None\<rparr>\<rparr>"
      have f: "g_Cont ?g = (g_Cont (m_ex m))(c := Some ?t)" "g_ToDelete ?g = filter ((\<noteq>) c) (g_ToDelete (m_ex m))" "g_Ready ?g = filter ((\<noteq>) c) (g_Ready (m_ex m))"
        using t by (auto simp: event_begin_def Register_def upd_cont_def link_fields)
      have "queue_ok (m\<lparr>m_ex := ?g, m_at := InWaitForIO\<rparr>)"
        by (rule fr [where acts = "SleepAct d # acts", OF _ f(1)]) (use sleep nc nx nw f c in \<open>auto simp: no_abort_def\<close>)
      then show ?thesis using sleep t nx nc None by (simp add: cont_step_def ExecuteEvent_def)
    next
      case (Some ev)
      obtain status g where e: "event_end ev c (m_ex m) = (status, g)" by force
      have f: "g_Cont g = (g_Cont (m_ex m))(c := Some (t\<lparr>ct_Event := None\<rparr>))" "g_Ready g = g_Ready (m_ex m)" "g_ToDelete g = g_ToDelete (m_ex m)"
        using e t by (auto simp: event_end_def Let_def upd_cont_def link_fields event_UnLink_def split: option.splits)
      have f': "g_Cont (goto c (Client acts) g) = (g_Cont (m_ex m))(c := Some (t\<lparr>ct_Event := None, ct_pc := Client acts\<rparr>))"
        by (auto simp: Cont_goto f)
      have "queue_ok (m\<lparr>m_ex := goto c (Client acts) g, m_at := InCont c\<rparr>)"
        by (rule fr [OF _ f']) (use sleep nc nx nw f in auto)
      then show ?thesis using sleep t nx nc Some e at at_same [OF at] by (simp add: cont_step_def ExecuteEvent_def)
    qed
  next
    case (wake acts)
    have "about_to_wake m" using wake(1) t r c by (auto simp: about_to_wake_def)
    then have live: "g_Cont (m_ex m) 0 \<noteq> None" using ok by (auto simp: queue_ok_def popper_pc_def)
    have z: "0 \<notin> set (g_ToDelete (m_ex m))"
    proof
      assume "0 \<in> set (g_ToDelete (m_ex m))"
      then obtain t0 where t0: "g_Cont (m_ex m) 0 = Some t0" "ct_Exited t0" using ex by (auto simp: executor_ok_def lists_ok_def)
      then have "popper_ok m (ct_Event t0 \<noteq> None) True (ct_pc t0)" "ct_pc t0 = WaitSleep"
        using ok \<open>about_to_wake m\<close> by (auto simp: queue_ok_def popper_pc_def)
      then show False by simp
    qed
    let ?g = "goto c (Client acts) (ScheduleExecution 0 (m_ex m))"
    have f: "g_Cont ?g = (g_Cont (m_ex m))(c := Some (t\<lparr>ct_pc := Client acts\<rparr>))" using t by (auto simp: Cont_goto)
    have "g_ToDelete ?g = g_ToDelete (m_ex m)" using z by (simp add: link_fields filter_id_conv) (metis gr0I)
    then have "queue_ok (m\<lparr>m_ex := ?g, m_at := InCont c\<rparr>)"
      by (intro fr [OF _ f]) (use wake nc nx in \<open>auto simp: link_fields\<close>)
    then show ?thesis using wake t nx live at at_same [OF at] by (auto simp: cont_step_def)
  qed
qed

lemma queue_ok_step:
  assumes "machine_step queue_code no_handlers m m'" and "queue_ok m" and "machine_ok queue_code m"
  shows "queue_ok m'"
  using assms
proof (induction rule: machine_step.induct)
  case (step_cont m c)
  then have ex: "executor_ok queue_code (Some c) (m_ex m)" "c \<in> dom (g_Cont (m_ex m))" "c \<notin> set (g_ToDelete (m_ex m))" by (auto simp: machine_ok_def)
  then obtain t where "g_Cont (m_ex m) c = Some t" by blast
  then show ?case using queue_ok_popper [of m t] queue_ok_client_step [of m c t] ex(1,3) step_cont by (cases "c = 0") auto
next
  case (step_loop m)
  then show ?case by (intro queue_ok_loop)
next
  case (step_io m now evs)
  then have ex: "executor_ok queue_code None (m_ex m)" by (simp add: machine_ok_def)
  obtain g where g: "WaitForIO_round no_handlers now evs m = m\<lparr>m_ex := g\<rparr>" "wakes (m_ex m) g" using wakes_WaitForIO [OF ex] by blast
  then show ?case using queue_ok_wakes [of m g] wakes_keeps [OF g(2) ex] step_io by simp
next
  case (step_wait_end m)
  then show ?case by (intro queue_ok_delete) (simp_all add: machine_ok_def)
qed

lemma Creates_new:
  assumes "g_Free g = []" "0 < g_Next g" "\<And>c t. c \<noteq> 0 \<Longrightarrow> g_Cont g c = Some t \<Longrightarrow> \<exists>acts. t = new_cont (Client acts) \<and> no_abort acts" "list_all no_abort cl"
  shows "g_Cont (fold (\<lambda>f g. snd (executor_Create f g)) (map Client cl) g) 0 = g_Cont g 0
    \<and> (\<forall>c t. c \<noteq> 0 \<longrightarrow> g_Cont (fold (\<lambda>f g. snd (executor_Create f g)) (map Client cl) g) c = Some t \<longrightarrow> (\<exists>acts. t = new_cont (Client acts) \<and> no_abort acts))"
  using assms
proof (induction cl arbitrary: g)
  case (Cons acts cl)
  let ?g = "snd (executor_Create (Client acts) g)"
  have g: "g_Free ?g = []" "g_Next ?g = Suc (g_Next g)" "g_Cont ?g = (g_Cont g)(g_Next g := Some (new_cont (Client acts)))"
    using Create_new [OF Cons.prems(1)] by auto
  have "\<exists>acts. t = new_cont (Client acts) \<and> no_abort acts" if "c \<noteq> 0" "g_Cont ?g c = Some t" for c t
    using that g(3) Cons.prems(3) [of c t] Cons.prems(4) by (cases "c = g_Next g") auto
  then show ?case using Cons.IH [of ?g] g Cons.prems(2,4) by simp
qed simp

lemma queue_ok_start:
  assumes "list_all no_abort clients"
  shows "queue_ok (queue_start fail clients)"
proof -
  let ?start = "snd (executor_Create PopTest (executor_new fail)) :: queue_pc executor"
  let ?g = "fold (\<lambda>f g. snd (executor_Create f g)) (map Client clients) ?start"
  have "g_Free (executor_new fail :: queue_pc executor) = []" by (simp add: executor_new_def)
  from Create_new [OF this, of PopTest] have g0: "g_Free ?start = []" "g_Next ?start = 1" "g_Cont ?start = [0 \<mapsto> new_cont PopTest]" by (auto simp: executor_new_def)
  have m: "g_Cont ?g 0 = Some (new_cont PopTest)" and cl: "\<And>c t. c \<noteq> 0 \<Longrightarrow> g_Cont ?g c = Some t \<Longrightarrow> \<exists>acts. t = new_cont (Client acts) \<and> no_abort acts"
    using Creates_new [of ?start clients] g0 assms by simp_all
  have all: "\<not> ct_Cancelled t \<and> \<not> ct_Exited t \<and> (c \<noteq> 0 \<longrightarrow> client_ok False (ct_pc t))" if "g_Cont ?g c = Some t" for c t
    using m cl [OF _ that] that by (cases "c = 0") (auto simp: new_cont_def)
  have ex: "m_ex (queue_start fail clients) = ?g" "m_mem (queue_start fail clients) = chunk_queue_new" "m_at (queue_start fail clients) = InLoop"
    by (simp_all add: queue_start_def machine_start_def)
  have r: "running (queue_start fail clients) = None" by (simp add: running_def ex)
  have p: "popper_ok (queue_start fail clients) False False PopTest" by (simp add: ex chunk_queue_new_def my_event_new_def)
  show ?thesis
    unfolding queue_ok_def popper_pc_def about_to_wake_def r ex m using all p by (simp add: chunk_queue_new_def new_cont_def) blast
qed

lemma queue_ok_reach:
  assumes "list_all no_abort clients" and "machine_reach queue_code no_handlers (queue_start fail clients) m"
  shows "queue_ok m \<and> machine_ok queue_code m"
  using assms(2)
proof induction
  case reach_start
  then show ?case using queue_ok_start [OF assms(1)] machine_ok_start [of queue_code] by (simp add: queue_start_def)
next
  case (reach_step m' m'')
  then show ?case using queue_ok_step machine_ok_step by blast
qed

section \<open>Properties\<close>

text \<open>
  C8. The queue between coroutines. Whatever the other coroutines push and however they sleep, nothing fails;
  what was popped, what is on its way and what is still queued are together exactly what was pushed, in
  order; a sleeping popper is ready as soon as there is data or the queue is stopped, so no wakeup is lost; and
  when the executor stops, everything pushed before \<open>Stop\<close> has been popped.
\<close>

theorem chunk_queue_delivers:
  assumes "list_all no_abort clients" and "machine_reach queue_code no_handlers (queue_start fail clients) m"
  shows "m_at m \<noteq> Aborted
    \<and> q_Got (m_mem m) @ (case popper_pc m of None \<Rightarrow> [] | Some pc \<Rightarrow> in_flight pc) @ q_Chunks (m_mem m) = q_Early (m_mem m) @ q_Late (m_mem m)
    \<and> (m_at m = InLoop \<or> m_at m = InWaitForIO \<longrightarrow> popper_pc m = Some WaitSleep \<longrightarrow> q_Chunks (m_mem m) \<noteq> [] \<or> q_AllDone (m_mem m) \<longrightarrow> 0 \<in> set (g_Ready (m_ex m)))
    \<and> (m_at m = Stopped \<longrightarrow> q_AllDone (m_mem m) \<and> (\<exists>late. q_Got (m_mem m) = q_Early (m_mem m) @ late))"
proof -
  have ok: "queue_ok m" and ex: "machine_ok queue_code m" using queue_ok_reach [OF assms] by auto
  have bal: "q_Got (m_mem m) @ (case popper_pc m of None \<Rightarrow> [] | Some pc \<Rightarrow> in_flight pc) @ q_Chunks (m_mem m) = q_Early (m_mem m) @ q_Late (m_mem m)"
    using ok by (simp add: queue_ok_def)
  have wake: "0 \<in> set (g_Ready (m_ex m))"
    if w: "m_at m = InLoop \<or> m_at m = InWaitForIO" "popper_pc m = Some WaitSleep" "q_Chunks (m_mem m) \<noteq> [] \<or> q_AllDone (m_mem m)"
  proof -
    obtain t where t: "g_Cont (m_ex m) 0 = Some t" "ct_pc t = WaitSleep" using w(2) by (auto simp: popper_pc_def)
    then have "popper_ok m (ct_Event t \<noteq> None) (ct_Exited t) WaitSleep" using ok by (auto simp: queue_ok_def)
    moreover have "running m = None" using w(1) by (auto simp: running_def)
    ultimately show ?thesis using w(3) by (auto simp: about_to_wake_def)
  qed
  have stop: "q_AllDone (m_mem m) \<and> (\<exists>late. q_Got (m_mem m) = q_Early (m_mem m) @ late)" if "m_at m = Stopped"
  proof -
    have none: "g_Cont (m_ex m) 0 = None"
      using ex that by (auto simp: machine_ok_def loop_head_def WaitForIO_waits_def executor_ok_def none_lost_def)
    then have l: "length (q_Early (m_mem m)) \<le> length (q_Got (m_mem m))" "q_AllDone (m_mem m)" using ok by (auto simp: queue_ok_def)
    have "q_Got (m_mem m) @ q_Chunks (m_mem m) = q_Early (m_mem m) @ q_Late (m_mem m)" using bal none by (simp add: popper_pc_def)
    then have "take (length (q_Early (m_mem m))) (q_Got (m_mem m)) = q_Early (m_mem m)" using l(1) by (metis append_eq_conv_conj le_add_diff_inverse take_add append_Nil2 append_eq_append_conv_if)
    then show ?thesis using l(2) append_take_drop_id [of "length (q_Early (m_mem m))" "q_Got (m_mem m)"] by metis
  qed
  show ?thesis using ok bal wake stop by (auto simp: queue_ok_def)
qed

theorem chunk_queue_delivers_witness:
  "\<exists>m. machine_reach queue_code no_handlers (queue_start False [[SleepAct 3, PushAct [''a'']], [SleepAct 5, PushAct [''b''], StopAct]]) m
     \<and> m_at m = Stopped \<and> q_Got (m_mem m) = [''a'', ''b'']"
proof -
  let ?cl = "[[SleepAct 3, PushAct [''a'']], [SleepAct 5, PushAct [''b''], StopAct]]" and ?envs = "replicate 46 (1, [])"
  have "map_option (\<lambda>m. (m_at m, q_Got (m_mem m))) (machine_run queue_code no_handlers ?envs (queue_start False ?cl)) = Some (Stopped, [''a'', ''b''])"
    by code_simp
  then obtain m where m: "machine_run queue_code no_handlers ?envs (queue_start False ?cl) = Some m" "m_at m = Stopped" "q_Got (m_mem m) = [''a'', ''b'']" by auto
  have "list_all no_abort ?cl" by (simp add: no_abort_def)
  from chunk_queue_delivers [OF this machine_run_reach [OF m(1)]] show ?thesis using machine_run_reach [OF m(1)] m(2,3) by auto
qed

text \<open>A cancelled popper in the loop of \<open>Pop\<close>, with nothing to pop.\<close>

definition spinning :: "(chunk_queue, queue_pc) machine \<Rightarrow> bool" where
  "spinning m \<longleftrightarrow> m_at m = InCont 0 \<and> q_Chunks (m_mem m) = [] \<and> \<not> q_AllDone (m_mem m)
     \<and> (case g_Cont (m_ex m) 0 of None \<Rightarrow> False
        | Some t \<Rightarrow> ct_Cancelled t \<and> \<not> ct_Exited t \<and> ct_Event t = None \<and> ct_pc t \<in> {PopTest, WaitTest, WaitSleep, WaitEnd})"

lemma spinning_step: "machine_step queue_code no_handlers m m' \<Longrightarrow> spinning m \<Longrightarrow> spinning m'"
proof (induction rule: machine_step.induct)
  case (step_cont m c)
  then obtain t where t: "g_Cont (m_ex m) 0 = Some t" "c = 0" by (auto simp: spinning_def split: option.splits)
  show ?case
    using step_cont t
    by (cases "e_S (q_Event (m_mem m))") (auto simp: spinning_def cont_step_def queue_Pop_def event_Wait_def event_Wait_end_def ExecuteEvent_def Cont_goto)
qed (auto simp: spinning_def)

text \<open>
  Shutting down with a waiting queue hangs. A coroutine that is cancelled inside \<open>Pop\<close> while the queue is
  empty and not stopped never switches to the scheduler again: its sleep returns at once, and the loop goes
  on for ever, so that no other coroutine, and no timer, runs any more.
\<close>

theorem cancelled_pop_spins:
  assumes "spinning m" and "machine_reach queue_code no_handlers m m'"
  shows "m_at m' = InCont 0"
proof -
  from assms(2,1) have "spinning m'" by (induction rule: machine_reach.induct) (auto intro: spinning_step)
  then show ?thesis by (simp add: spinning_def)
qed

theorem cancelled_pop_spins_witness:
  "\<exists>m. machine_reach queue_code no_handlers (queue_start False [[AbortAct]]) m \<and> spinning m
     \<and> (\<forall>m'. machine_reach queue_code no_handlers m m' \<longrightarrow> m_at m' = InCont 0)"
proof -
  let ?m = "machine_run queue_code no_handlers (replicate 11 (1, [])) (queue_start False [[AbortAct]])"
  have "map_option spinning ?m = Some True" by code_simp
  then obtain m where m: "?m = Some m" "spinning m" by auto
  then show ?thesis using machine_run_reach [OF m(1)] cancelled_pop_spins [OF m(2)] by blast
qed

end
