(* ===== verification/Sockets.thy ===== *)
theory Sockets
  imports Green Chunks
begin

text \<open>
  The sockets of web/httpd/kernel/socket.h and socket.cpp. \<open>TSocketOut\<close> buffers what the coroutines send and
  writes it when the poller calls its \<open>OnPollEvent\<close>; it runs on the machine of \<open>Green\<close>, as a handler and as the
  code of the sending coroutine, which sends a list of chunk lists and flushes at the end, as a connection
  does (\<open>TConnection::Run\<close> in main.cpp). What \<open>writev\<close> returns, call by call, is \<open>so_os\<close>.

  \<open>TSocketIn\<close> reads into blocks of memory and hands out parts of them: blocks, offsets and the memory are
  explicit, since the question is whether a later read writes into what was handed out.
\<close>

section \<open>Output\<close>

text \<open>\<open>so_Wire\<close> and \<open>so_Given\<close> record what the system has accepted and what \<open>Send\<close> was given,
  \<open>so_Thrown\<close> that a flush has thrown \<open>TSystemError\<close>.\<close>

record socket_out =
  so_W :: chunks
  so_Wake :: "cid option"
  so_MaxInQueue :: nat
  so_Err :: int
  so_os :: "nat \<Rightarrow> int"
  so_calls :: nat
  so_Wire :: bytes
  so_Given :: bytes
  so_Thrown :: bool

definition socket_out_new :: "nat \<Rightarrow> (nat \<Rightarrow> int) \<Rightarrow> socket_out" where
  "socket_out_new maxInQueue os = \<lparr>so_W = [], so_Wake = None, so_MaxInQueue = maxInQueue, so_Err = 0, so_os = os, so_calls = 0, so_Wire = [], so_Given = [], so_Thrown = False\<rparr>"

abbreviation CONT_POLL_WRITE :: ui16 where "CONT_POLL_WRITE \<equiv> 2"
abbreviation EAGAIN :: int where "EAGAIN \<equiv> 11"

definition IsBlocked :: "int \<Rightarrow> bool" where
  "IsBlocked err \<longleftrightarrow> err = EAGAIN"

text \<open>\<open>TSocketOut::OnPollEvent\<close> for the socket with descriptor \<open>fd\<close>.\<close>

definition wake_sender :: "socket_out \<Rightarrow> exec_request list" where
  "wake_sender s = (case so_Wake s of None \<Rightarrow> [] | Some c \<Rightarrow> [ScheduleExec c])"

definition out_OnPollEvent :: "fd \<Rightarrow> int \<Rightarrow> socket_out \<Rightarrow> socket_out \<times> exec_request list" where
  "out_OnPollEvent fd status s =
     (if status \<noteq> 0 then (s\<lparr>so_Err := status\<rparr>, wake_sender s @ [PollRemove 0 fd])
      else (let res = so_os s (so_calls s); s = s\<lparr>so_calls := Suc (so_calls s)\<rparr> in
        if res < 0 then
          (if IsBlocked (- res) then (s, wake_sender s @ [FailVerify])
           else (s\<lparr>so_Err := - res\<rparr>, wake_sender s @ [PollRemove 0 fd]))
        else if nat res = FullLength (so_W s) then
          (s\<lparr>so_W := [], so_Wire := so_Wire s @ bytes_of (so_W s)\<rparr>, wake_sender s @ [PollRemove 0 fd])
        else (case Split (nat res) (so_W s) of
                Ret (tmp, after) \<Rightarrow> (s\<lparr>so_W := after, so_Wire := so_Wire s @ bytes_of tmp\<rparr>, wake_sender s)
              | _ \<Rightarrow> (s, [FailVerify]))))"

definition out_handlers :: "fd \<Rightarrow> socket_out handlers" where
  "out_handlers fd n status s = (if n = 0 then out_OnPollEvent fd status s else (s, []))"

text \<open>The sending coroutine: \<open>DoSend\<close> for each list, \<open>Flush(0)\<close>, and the destructor.\<close>

datatype out_pc =
    SendNext "chunks list" | SendSchedule "chunks list" | SendFlush "chunks list"
  | FlushTest nat "chunks list option" | FlushSleep nat "chunks list option" | FlushWoken nat "chunks list option"
  | Destroy | Closed

text \<open>The continuation of a flush: the next list, or the end of the connection.\<close>

definition flushed :: "chunks list option \<Rightarrow> out_pc" where
  "flushed k = (case k of Some ls \<Rightarrow> SendNext ls | None \<Rightarrow> Destroy)"

fun out_code :: "fd \<Rightarrow> out_pc \<Rightarrow> (socket_out, out_pc) instr" where
  "out_code fd (SendNext []) = Access (\<lambda>c s. (s, FlushTest 0 None))"
| "out_code fd (SendNext (l # ls)) = Access (\<lambda>c s. (s\<lparr>so_W := so_W s @ l, so_Given := so_Given s @ bytes_of l\<rparr>, SendSchedule ls))"
| "out_code fd (SendSchedule ls) = Request (PollSchedule 0 fd CONT_POLL_WRITE) (SendFlush ls)"
| "out_code fd (SendFlush ls) = Access (\<lambda>c s. (s, FlushTest (so_MaxInQueue s) (Some ls)))"
| "out_code fd (FlushTest keep k) = Access (\<lambda>c s.
     if keep < FullLength (so_W s) then (if so_Err s \<noteq> 0 then (s\<lparr>so_Thrown := True\<rparr>, Destroy) else (s\<lparr>so_Wake := Some c\<rparr>, FlushSleep keep k))
     else (s, flushed k))"
| "out_code fd (FlushSleep keep k) = SleepD instant_Max (\<lambda>_. FlushWoken keep k)"
| "out_code fd (FlushWoken keep k) = Access (\<lambda>c s. (s\<lparr>so_Wake := None\<rparr>, FlushTest keep k))"
| "out_code fd Destroy = Request (PollRemove 0 fd) Closed"
| "out_code fd Closed = Leave"

definition out_start :: "bool \<Rightarrow> nat \<Rightarrow> (nat \<Rightarrow> int) \<Rightarrow> chunks list \<Rightarrow> (socket_out, out_pc) machine" where
  "out_start fail maxInQueue os ls = machine_start fail [SendNext ls] (socket_out_new maxInQueue os)"

section \<open>The invariant of the output\<close>

definition registered :: "fd \<Rightarrow> 'pc executor \<Rightarrow> bool" where
  "registered fd g \<longleftrightarrow> (Handler 0, CONT_POLL_WRITE) \<in> set (g_Lists g fd)"

definition pending :: "fd \<Rightarrow> 'pc executor \<Rightarrow> socket_out \<Rightarrow> bool" where
  "pending fd g s \<longleftrightarrow> (so_Err s = 0 \<and> 0 < FullLength (so_W s) \<longrightarrow> registered fd g)"

definition done_with :: "socket_out \<Rightarrow> bool" where
  "done_with s \<longleftrightarrow> so_Wake s = None \<and> (so_Thrown s \<or> FullLength (so_W s) = 0)"

fun sender_ok :: "fd \<Rightarrow> bool \<Rightarrow> bool \<Rightarrow> 'pc executor \<Rightarrow> socket_out \<Rightarrow> out_pc \<Rightarrow> bool" where
  "sender_ok fd run ev g s (SendNext ls) \<longleftrightarrow> (run \<or> 0 \<in> set (g_Ready g)) \<and> so_Wake s = None \<and> pending fd g s \<and> FullLength (so_W s) \<le> so_MaxInQueue s"
| "sender_ok fd run ev g s (SendSchedule ls) \<longleftrightarrow> run \<and> so_Wake s = None"
| "sender_ok fd run ev g s (SendFlush ls) \<longleftrightarrow> run \<and> so_Wake s = None \<and> pending fd g s"
| "sender_ok fd run ev g s (FlushTest keep k) \<longleftrightarrow> run \<and> so_Wake s = None \<and> pending fd g s \<and> keep = (if k = None then 0 else so_MaxInQueue s)"
| "sender_ok fd run ev g s (FlushSleep keep k) \<longleftrightarrow> so_Wake s = Some 0 \<and> pending fd g s \<and> keep = (if k = None then 0 else so_MaxInQueue s) \<and> (run \<or> ev)
     \<and> ((if run then \<not> ev else 0 \<notin> set (g_Ready g)) \<longrightarrow> keep < FullLength (so_W s) \<and> so_Err s = 0)"
| "sender_ok fd run ev g s (FlushWoken keep k) \<longleftrightarrow> run \<and> so_Wake s = Some 0 \<and> pending fd g s \<and> keep = (if k = None then 0 else so_MaxInQueue s)"
| "sender_ok fd run ev g s Destroy \<longleftrightarrow> run \<and> done_with s"
| "sender_ok fd run ev g s Closed \<longleftrightarrow> done_with s"

definition out_inv :: "fd \<Rightarrow> bool \<Rightarrow> out_pc executor \<Rightarrow> socket_out \<Rightarrow> bool" where
  "out_inv fd run g s \<longleftrightarrow> so_Wire s @ bytes_of (so_W s) = so_Given s \<and> (\<forall>n. - 1 \<le> so_os s n) \<and> (\<forall>c. c \<noteq> 0 \<longrightarrow> g_Cont g c = None)
     \<and> (case g_Cont g 0 of
          None \<Rightarrow> \<not> run \<and> done_with s
        | Some t \<Rightarrow> \<not> ct_Cancelled t \<and> (ct_Exited t \<longrightarrow> 0 \<in> set (g_ToDelete g) \<and> ct_pc t = Closed) \<and> sender_ok fd run (ct_Event t \<noteq> None) g s (ct_pc t))"

definition out_ok :: "fd \<Rightarrow> (socket_out, out_pc) machine \<Rightarrow> bool" where
  "out_ok fd m \<longleftrightarrow> m_at m \<noteq> Aborted \<and> out_inv fd (running m = Some 0) (m_ex m) (m_mem m)"

text \<open>A call of the handler writes a prefix of the buffer, or records an error, or finishes.\<close>

lemma OnPollEvent_cases:
  assumes "- 1 \<le> so_os s (so_calls s)" and "out_OnPollEvent fd status s = (s', rs)"
  shows "so_os s' = so_os s \<and> so_Wake s' = so_Wake s \<and> so_MaxInQueue s' = so_MaxInQueue s \<and> so_Thrown s' = so_Thrown s \<and> so_Given s' = so_Given s
    \<and> so_Wire s' @ bytes_of (so_W s') = so_Wire s @ bytes_of (so_W s) \<and> FullLength (so_W s') \<le> FullLength (so_W s)
    \<and> (rs = wake_sender s \<and> so_Err s' = so_Err s \<or> rs = wake_sender s @ [PollRemove 0 fd] \<and> (so_Err s' \<noteq> 0 \<or> FullLength (so_W s') = 0))"
proof (cases "status \<noteq> 0")
  case True
  then show ?thesis using assms(2) by (auto simp: out_OnPollEvent_def)
next
  case False
  let ?res = "so_os s (so_calls s)"
  consider (err) "?res = - 1" | (all) "0 \<le> ?res" "nat ?res = FullLength (so_W s)" | (part) "0 \<le> ?res" "nat ?res \<noteq> FullLength (so_W s)"
    using assms(1) by linarith
  then show ?thesis
  proof cases
    case err
    then show ?thesis using assms(2) False by (auto simp: out_OnPollEvent_def IsBlocked_def wake_sender_def Let_def)
  next
    case all
    then show ?thesis using assms(2) False by (auto simp: out_OnPollEvent_def wake_sender_def Let_def FullLength_bytes)
  next
    case part
    obtain b a where sp: "Split (nat ?res) (so_W s) = Ret (b, a)" "bytes_of b = take (nat ?res) (bytes_of (so_W s))" "bytes_of a = drop (nat ?res) (bytes_of (so_W s))"
      by (rule Split_spec [of "nat ?res" "so_W s"]) auto
    then show ?thesis using assms(2) False part by (auto simp: out_OnPollEvent_def wake_sender_def Let_def FullLength_bytes)
  qed
qed

lemma registered_frames: "registered fd (ScheduleExecution c g) = registered fd g" "registered fd (event_UnLink c g) = registered fd g"
  "registered fd (upd_cont c f g) = registered fd g" "registered fd (rep_Unlink c g) = registered fd g"
  by (simp_all add: registered_def)

lemma out_inv_handler:
  assumes inv: "out_inv fd False g s" and ex: "executor_ok code None g" and h: "out_OnPollEvent fd status s = (s', rs)"
  shows "\<exists>g'. do_requests rs g = Some g' \<and> out_inv fd False g' s'"
proof -
  note hc = OnPollEvent_cases [OF _ h]
  have os: "- 1 \<le> so_os s (so_calls s)" using inv by (simp add: out_inv_def)
  let ?g1 = "case so_Wake s of None \<Rightarrow> g | Some c \<Rightarrow> ScheduleExecution c g"
  let ?rm = "rs = wake_sender s @ [PollRemove 0 fd]"
  let ?g' = "if ?rm then poller_Remove (Handler 0) fd ?g1 else ?g1"
  have wk: "so_Wake s = None \<or> so_Wake s = Some 0 \<and> (\<exists>t keep k. g_Cont g 0 = Some t \<and> ct_pc t = FlushSleep keep k)"
  proof (cases "g_Cont g 0")
    case None
    then show ?thesis using inv by (simp add: out_inv_def done_with_def)
  next
    case (Some t)
    then have "sender_ok fd False (ct_Event t \<noteq> None) g s (ct_pc t)" using inv by (simp add: out_inv_def)
    then show ?thesis using Some by (cases "ct_pc t") (auto simp: done_with_def)
  qed
  have run: "do_requests rs g = Some ?g'" using hc [OF os] wk by (auto simp: wake_sender_def)
  have gc: "g_Cont ?g' = g_Cont g" by (auto split: option.splits)
  have td: "0 \<in> set (g_ToDelete ?g') \<longleftrightarrow> 0 \<in> set (g_ToDelete g) \<and> so_Wake s = None" using wk by (auto simp: link_fields split: option.splits)
  have rd: "0 \<in> set (g_Ready ?g') \<longleftrightarrow> 0 \<in> set (g_Ready g) \<or> so_Wake s \<noteq> None" using wk by (auto simp: link_fields split: option.splits)
  have rg: "registered fd ?g' \<longleftrightarrow> registered fd g \<and> \<not> ?rm"
    by (auto simp: registered_def poller_Lists_fields split: option.splits)
  have pe: "pending fd ?g' s'" if "pending fd g s" using that hc [OF os] rg by (auto simp: pending_def)
  have dn: "done_with s'" if "done_with s" using that hc [OF os] by (auto simp: done_with_def)
  have se: "sender_ok fd False e ?g' s' pc" if p: "sender_ok fd False e g s pc" for e pc
    using p hc [OF os] pe dn rd by (cases pc) auto
  have "out_inv fd False ?g' s'"
  proof (cases "g_Cont g 0")
    case None
    then show ?thesis using inv hc [OF os] dn unfolding out_inv_def gc by auto
  next
    case (Some t)
    have "ct_pc t \<noteq> Closed" if "so_Wake s \<noteq> None" using that wk Some by auto
    then show ?thesis using inv hc [OF os] se Some td unfolding out_inv_def gc by auto
  qed
  then show ?thesis using run by blast
qed

lemma wakes_Lists: "wakes g g' \<Longrightarrow> g_Lists g' = g_Lists g"
  by (induction rule: wakes.induct) (simp_all add: event_Wake_def)

lemma out_inv_woken:
  assumes inv: "out_inv fd False g s" and w: "woken g g'" "g_Lists g' = g_Lists g"
  shows "out_inv fd False g' s"
proof -
  have al: "rel_option alike (g_Cont g c) (g_Cont g' c)" for c using w(1) by (simp add: woken_def)
  have rg: "registered fd g' = registered fd g" using w(2) by (simp add: registered_def)
  have pe: "pending fd g' s = pending fd g s" by (simp add: pending_def rg)
  have se: "sender_ok fd False e g' s pc" if p: "sender_ok fd False e g s pc" for e pc
    using p w(1) pe by (cases pc) (auto simp: woken_def)
  have none: "g_Cont g' c = None" if "c \<noteq> 0" for c using al [of c] inv that by (auto simp: out_inv_def)
  show ?thesis
  proof (cases "g_Cont g 0")
    case None
    then show ?thesis using inv al [of 0] none by (auto simp: out_inv_def)
  next
    case (Some t)
    then obtain t' where "g_Cont g' 0 = Some t'" "alike t t'" using al [of 0] by (auto simp: option_rel_Some1)
    then show ?thesis using Some inv none se w(1) by (auto simp: out_inv_def alike_def woken_def)
  qed
qed

lemma no_PollD: "out_code fd pc \<noteq> PollD f w d k"
  by (cases "(fd, pc)" rule: out_code.cases) auto

lemma no_FdEvent:
  assumes "executor_ok (out_code fd) run g"
  shows "(FdEvent c, w) \<notin> set (g_Lists g f)"
proof
  assume "(FdEvent c, w) \<in> set (g_Lists g f)"
  then obtain ev where ev: "cont_event_of g c = Some ev" "ev_Fd ev = Some (f, w)" using assms by (fastforce simp: executor_ok_def poller_inv_def)
  then obtain t where "g_Cont g c = Some t" "ct_Event t = Some ev" by (auto simp: cont_event_of_def bind_eq_Some_conv)
  then have "event_of_instr (out_code fd (ct_pc t)) ev" using assms by (auto simp: executor_ok_def events_ok_def)
  then show False using ev(2) no_PollD by (auto simp: event_of_instr_def split: instr.splits)
qed

lemma out_dispatch_list:
  assumes "out_inv fd False g s" and "executor_ok (out_code fd) None g" and "\<And>c w. (FdEvent c, w) \<notin> set es"
  shows "\<exists>g' s'. dispatch_list (out_handlers fd) status flt es (g, s) = Some (g', s') \<and> out_inv fd False g' s' \<and> executor_ok (out_code fd) None g'"
  using assms
proof (induction es arbitrary: g s)
  case (Cons e es)
  obtain ev what where e: "e = (ev, what)" by force
  have "\<And>c w. (FdEvent c, w) \<notin> set (e # es)" by (rule Cons.prems(3))
  then have es: "\<And>c w. (FdEvent c, w) \<notin> set es" by simp
  obtain n where n: "ev = Handler n" using Cons.prems(3) [of _ what] e by (cases ev) auto
  show ?case
  proof (cases "status \<noteq> 0 \<or> what AND flt \<noteq> 0")
    case True
    obtain s1 rs where h: "out_handlers fd n status s = (s1, rs)" by force
    have "\<exists>g1. do_requests rs g = Some g1 \<and> out_inv fd False g1 s1"
    proof (cases "n = 0")
      case True
      then show ?thesis using out_inv_handler [OF Cons.prems(1,2), of status s1 rs] h by (simp add: out_handlers_def)
    next
      case False
      then show ?thesis using Cons.prems(1) h by (simp add: out_handlers_def)
    qed
    then obtain g1 where g1: "do_requests rs g = Some g1" "out_inv fd False g1 s1" by blast
    have ok: "executor_ok (out_code fd) None g1" using executor_ok_requests [OF Cons.prems(2) g1(1)] .
    show ?thesis using Cons.IH [OF g1(2) ok es] True e n h g1(1) by (simp split: prod.splits)
  next
    case False
    then show ?thesis using Cons.IH [OF Cons.prems(1,2) es] e by simp
  qed
qed simp

lemma out_dispatch:
  assumes "out_inv fd False g s" and "executor_ok (out_code fd) None g"
  shows "\<exists>g' s'. dispatch (out_handlers fd) evs (g, s) = Some (g', s') \<and> out_inv fd False g' s'"
  using assms
proof (induction evs arbitrary: g s)
  case (Cons e evs)
  obtain f status flt where e: "e = (f, status, flt)" by (cases e) auto
  obtain g1 s1 where d: "dispatch_list (out_handlers fd) status flt (g_Lists g f) (g, s) = Some (g1, s1)" "out_inv fd False g1 s1" "executor_ok (out_code fd) None g1"
    using out_dispatch_list [OF Cons.prems no_FdEvent [OF Cons.prems(2)]] by blast
  then show ?case using Cons.IH [OF d(2,3)] e by simp
qed simp

lemma out_ok_round:
  assumes "out_ok fd m" and ex: "executor_ok (out_code fd) None (m_ex m)" and at: "m_at m = InWaitForIO"
  shows "out_ok fd (WaitForIO_round (out_handlers fd) now evs m)"
proof -
  obtain n g where c: "CancelTimedOut now (m_ex m) = (n, g)" by force
  let ?g = "if evs = [] then snd (CancelTimedOut n g) else g"
  have w: "wakes (m_ex m) g" using wakes_CancelTimedOut [OF ex, of now] c by simp
  then have ok: "executor_ok (out_code fd) None g" using wakes_keeps [OF w ex] by simp
  have w': "wakes (m_ex m) ?g" using wakes_trans [OF wakes_CancelTimedOut [OF ok, of n] w] w by simp
  then have ok': "executor_ok (out_code fd) None ?g" "woken (m_ex m) ?g" using wakes_keeps [OF w' ex] by simp_all
  have inv: "out_inv fd False (m_ex m) (m_mem m)" using assms(1) at by (simp add: out_ok_def running_def)
  have "out_inv fd False ?g (m_mem m)" using out_inv_woken [OF inv ok'(2) wakes_Lists [OF w']] .
  then obtain g1 s1 where d: "dispatch (out_handlers fd) evs (?g, m_mem m) = Some (g1, s1)" "out_inv fd False g1 s1" using out_dispatch [OF _ ok'(1)] by blast
  have r: "WaitForIO_round (out_handlers fd) now evs m = m\<lparr>m_ex := g1, m_mem := s1\<rparr>"
    using c d(1) by (simp add: WaitForIO_round_def)
  show ?thesis unfolding r using d(2) at by (simp add: out_ok_def running_def)
qed

lemma out_ok_loop:
  assumes ok: "out_ok fd m" and ex: "machine_ok (out_code fd) m" and at: "m_at m = InLoop"
  shows "out_ok fd (RunScheduler_step m)"
proof (cases "g_Ready (m_ex m)")
  case Nil
  have st: "RunScheduler_step m = m\<lparr>m_at := Stopped\<rparr>" using Nil by (simp add: RunScheduler_step_def)
  show ?thesis unfolding st using ok at by (simp add: out_ok_def running_def)
next
  case (Cons c cs)
  let ?g = "(m_ex m)\<lparr>g_Ready := cs, g_Current := Some c\<rparr>"
  have inv: "out_inv fd False (m_ex m) (m_mem m)" using ok at by (simp add: out_ok_def running_def)
  have "g_Cont (m_ex m) c \<noteq> None" using ex at Cons by (simp add: machine_ok_def executor_ok_def lists_ok_def)
  then have c: "c = 0" using inv by (cases "c = 0") (auto simp: out_inv_def)
  have pe: "pending fd ?g s = pending fd (m_ex m) s" for s by (simp add: pending_def registered_def)
  have se: "sender_ok fd True e ?g s pc" if p: "sender_ok fd False e (m_ex m) s pc" for e s pc
    using p pe Cons by (cases pc) auto
  have "out_inv fd True ?g (m_mem m)"
    using inv se \<open>g_Cont (m_ex m) c \<noteq> None\<close> c unfolding out_inv_def by (auto split: option.splits)
  then show ?thesis using Cons c by (simp add: out_ok_def RunScheduler_step_def running_def)
qed

lemma DeleteScheduled_Lists: "g_Lists (DeleteScheduled g) = g_Lists g"
proof -
  have "g_Lists (fold executor_Release cs g) = g_Lists g" for cs by (induction cs arbitrary: g) (simp_all add: executor_Release_def Let_def)
  then show ?thesis by (simp add: DeleteScheduled_def)
qed

lemma out_ok_delete:
  assumes ok: "out_ok fd m" and ex: "executor_ok (out_code fd) None (m_ex m)" and at: "m_at m = InWaitForIO"
  shows "out_ok fd (m\<lparr>m_ex := DeleteScheduled (m_ex m), m_at := InLoop\<rparr>)"
proof -
  let ?g = "DeleteScheduled (m_ex m)"
  have inv: "out_inv fd False (m_ex m) (m_mem m)" using ok at by (simp add: out_ok_def running_def)
  have ct: "g_Cont ?g c = (if c \<in> set (g_ToDelete (m_ex m)) then None else g_Cont (m_ex m) c)" for c by (simp add: DeleteScheduled_def Releases_Cont)
  have rd: "g_Ready ?g = g_Ready (m_ex m)" using ex DeleteScheduled_Ready by (auto simp: executor_ok_def)
  have pe: "pending fd ?g s = pending fd (m_ex m) s" for s by (simp add: pending_def registered_def DeleteScheduled_Lists)
  have se: "sender_ok fd False e ?g s pc" if p: "sender_ok fd False e (m_ex m) s pc" for e s pc using p pe rd by (cases pc) auto
  have z: "\<exists>t. g_Cont (m_ex m) 0 = Some t \<and> ct_Exited t" if "0 \<in> set (g_ToDelete (m_ex m))" using ex that by (auto simp: executor_ok_def lists_ok_def)
  have "out_inv fd False ?g (m_mem m)"
  proof (cases "0 \<in> set (g_ToDelete (m_ex m))")
    case True
    obtain t where "g_Cont (m_ex m) 0 = Some t" "ct_Exited t" using z [OF True] by blast
    then have "done_with (m_mem m)" using inv by (auto simp: out_inv_def)
    then show ?thesis using inv True by (auto simp: out_inv_def ct)
  next
    case False
    then show ?thesis using inv se by (auto simp: out_inv_def ct split: option.splits)
  qed
  then show ?thesis by (simp add: out_ok_def running_def)
qed

lemma out_ok_goto:
  assumes ok: "out_ok fd m" and at: "m_at m = InCont 0" and t: "g_Cont g 0 = Some t" "\<not> ct_Cancelled t" "\<not> ct_Exited t" "ct_Event t = None"
    and g: "\<And>c. c \<noteq> 0 \<Longrightarrow> g_Cont g c = None" and s: "so_Wire s @ bytes_of (so_W s) = so_Given s" "so_os s = so_os (m_mem m)"
    and p: "sender_ok fd True False (goto 0 pc g) s pc"
  shows "out_ok fd (m\<lparr>m_mem := s, m_ex := goto 0 pc g\<rparr>)"
  using assms by (auto simp: out_ok_def out_inv_def running_def Cont_goto)

lemma out_ok_cont:
  assumes ok: "out_ok fd m" and ex: "executor_ok (out_code fd) (Some 0) (m_ex m)" and at: "m_at m = InCont 0" and t: "g_Cont (m_ex m) 0 = Some t"
    and td: "0 \<notin> set (g_ToDelete (m_ex m))"
  shows "out_ok fd (cont_step (out_code fd) 0 m)"
proof -
  let ?s = "m_mem m" and ?g = "m_ex m"
  have inv: "out_inv fd True ?g ?s" using ok at by (simp add: out_ok_def running_def)
  have nx: "\<not> ct_Exited t" and nc: "\<not> ct_Cancelled t" and p: "sender_ok fd True (ct_Event t \<noteq> None) ?g ?s (ct_pc t)"
    and oth: "\<And>c. c \<noteq> 0 \<Longrightarrow> g_Cont ?g c = None" and bal: "so_Wire ?s @ bytes_of (so_W ?s) = so_Given ?s"
    using inv t td by (auto simp: out_inv_def)
  have ne: "ct_Event t = None" if "\<And>ev. \<not> event_of_instr (out_code fd (ct_pc t)) ev"
    using ex t that by (cases "ct_Event t") (auto simp: executor_ok_def events_ok_def)
  have pe: "pending fd (goto 0 pc g) s = pending fd g s" for pc s and g :: "out_pc executor" by (simp add: pending_def registered_def)
  have acc: "out_ok fd (cont_step (out_code fd) 0 m)"
    if f: "out_code fd (ct_pc t) = Access f" and b: "so_Wire (fst (f 0 ?s)) @ bytes_of (so_W (fst (f 0 ?s))) = so_Given (fst (f 0 ?s))" "so_os (fst (f 0 ?s)) = so_os ?s"
      and q: "sender_ok fd True False (goto 0 (snd (f 0 ?s)) ?g) (fst (f 0 ?s)) (snd (f 0 ?s))" for f
  proof -
    have e: "ct_Event t = None" using ne f(1) by (simp add: event_of_instr_def)
    show ?thesis using out_ok_goto [OF ok at t nc nx e oth b q] t nx f by (simp add: cont_step_def case_prod_beta)
  qed
  note code = out_code.simps [of fd]
  show ?thesis
  proof (cases "ct_pc t")
    case (SendNext ls)
    show ?thesis
    proof (cases ls)
      case Nil
      have f: "out_code fd (ct_pc t) = out_code fd (SendNext [])" using SendNext Nil by simp
      show ?thesis by (rule acc [OF f [unfolded code]]) (use SendNext Nil p bal pe in auto)
    next
      case (Cons l ls')
      have f: "out_code fd (ct_pc t) = out_code fd (SendNext (l # ls'))" using SendNext Cons by simp
      show ?thesis by (rule acc [OF f [unfolded code]]) (use SendNext Cons p bal in auto)
    qed
  next
    case (SendSchedule ls)
    then have e: "ct_Event t = None" using ne by (simp add: event_of_instr_def)
    let ?g1 = "poller_Schedule (Handler 0) fd CONT_POLL_WRITE ?g"
    have q: "sender_ok fd True False (goto 0 (SendFlush ls) ?g1) ?s (SendFlush ls)" using SendSchedule p by (simp add: pending_def registered_def poller_Lists_fields)
    have "out_ok fd (m\<lparr>m_mem := ?s, m_ex := goto 0 (SendFlush ls) ?g1\<rparr>)"
      by (rule out_ok_goto [OF ok at _ nc nx e]) (use t oth bal q in auto)
    then show ?thesis using SendSchedule t nx by (simp add: cont_step_def)
  next
    case (SendFlush ls)
    have f: "out_code fd (ct_pc t) = out_code fd (SendFlush ls)" using SendFlush by simp
    show ?thesis by (rule acc [OF f [unfolded code]]) (use SendFlush p bal pe in auto)
  next
    case (FlushTest keep k)
    have f: "out_code fd (ct_pc t) = out_code fd (FlushTest keep k)" using FlushTest by simp
    show ?thesis
    proof (cases "keep < FullLength (so_W ?s)")
      case True
      show ?thesis
      proof (cases "so_Err ?s = 0")
        case True
        show ?thesis by (rule acc [OF f [unfolded code]]) (use FlushTest p bal pe True \<open>keep < FullLength (so_W ?s)\<close> in \<open>auto simp: pending_def registered_def\<close>)
      next
        case False
        show ?thesis by (rule acc [OF f [unfolded code]]) (use FlushTest p bal False True in \<open>auto simp: done_with_def\<close>)
      qed
    next
      case False
      show ?thesis by (rule acc [OF f [unfolded code]]) (use FlushTest p bal pe False in \<open>auto simp: flushed_def done_with_def split: option.splits\<close>)
    qed
  next
    case (FlushWoken keep k)
    have f: "out_code fd (ct_pc t) = out_code fd (FlushWoken keep k)" using FlushWoken by simp
    show ?thesis by (rule acc [OF f [unfolded code]]) (use FlushWoken p bal in \<open>auto simp: pending_def registered_def\<close>)
  next
    case Destroy
    then have e: "ct_Event t = None" using ne by (simp add: event_of_instr_def)
    have "out_ok fd (m\<lparr>m_mem := ?s, m_ex := goto 0 Closed (poller_Remove (Handler 0) fd ?g)\<rparr>)"
      by (rule out_ok_goto [OF ok at _ nc nx e]) (use t oth bal p Destroy in auto)
    then show ?thesis using Destroy t nx by (simp add: cont_step_def)
  next
    case Closed
    let ?g1 = "ScheduleToDelete 0 (upd_cont 0 (\<lambda>t. t\<lparr>ct_Exited := True\<rparr>) ?g)"
    have f: "g_Cont ?g1 = (g_Cont ?g)(0 := Some (t\<lparr>ct_Exited := True\<rparr>))" "0 \<in> set (g_ToDelete ?g1)"
      using t by (auto simp: ScheduleToDelete_def Let_def link_fields upd_cont_def)
    have "out_ok fd (m\<lparr>m_ex := ?g1, m_at := InWaitForIO\<rparr>)"
      using inv p Closed nc oth by (auto simp: out_ok_def out_inv_def running_def f)
    then show ?thesis using Closed t nx by (simp add: cont_step_def cont_Exit_def)
  next
    case (FlushSleep keep k)
    show ?thesis
    proof (cases "ct_Event t")
      case None
      let ?g1 = "event_begin instant_Max None 0 ?g"
      have f: "g_Cont ?g1 = (g_Cont ?g)(0 := Some (t\<lparr>ct_Event := Some \<lparr>ev_DeadLine = instant_Max, ev_Status = EINPROGRESS, ev_Fd = None\<rparr>\<rparr>))"
        "g_Lists ?g1 = g_Lists ?g"
        using t by (auto simp: event_begin_def Register_def upd_cont_def)
      have "out_ok fd (m\<lparr>m_ex := ?g1, m_at := InWaitForIO\<rparr>)"
        using inv p FlushSleep nc nx oth None by (auto simp: out_ok_def out_inv_def running_def f pending_def registered_def)
      then show ?thesis using FlushSleep t nx nc None by (simp add: cont_step_def ExecuteEvent_def)
    next
      case (Some ev)
      obtain status g1 where e: "event_end ev 0 ?g = (status, g1)" by force
      have "ev_Fd ev = None" using ex t Some FlushSleep by (fastforce simp: executor_ok_def events_ok_def event_of_instr_def)
      then have f: "g_Cont g1 = (g_Cont ?g)(0 := Some (t\<lparr>ct_Event := None\<rparr>))" "g_Lists g1 = g_Lists ?g"
        using e t by (auto simp: event_end_def Let_def upd_cont_def event_UnLink_def)
      have "out_ok fd (m\<lparr>m_mem := ?s, m_ex := goto 0 (FlushWoken keep k) g1\<rparr>)"
        by (rule out_ok_goto [OF ok at, of _ "t\<lparr>ct_Event := None\<rparr>"]) (use f t nc nx oth bal p FlushSleep in \<open>auto simp: pending_def registered_def\<close>)
      then show ?thesis using FlushSleep t nx Some e by (simp add: cont_step_def ExecuteEvent_def)
    qed
  qed
qed

lemma out_ok_step:
  assumes "machine_step (out_code fd) (out_handlers fd) m m'" and "out_ok fd m" and "machine_ok (out_code fd) m"
  shows "out_ok fd m'"
  using assms
proof (induction rule: machine_step.induct)
  case (step_cont m c)
  then have ex: "executor_ok (out_code fd) (Some c) (m_ex m)" "c \<in> dom (g_Cont (m_ex m))" "c \<notin> set (g_ToDelete (m_ex m))" by (auto simp: machine_ok_def)
  then have "c = 0" using step_cont by (cases "c = 0") (auto simp: out_ok_def out_inv_def)
  moreover obtain t where "g_Cont (m_ex m) c = Some t" using ex(2) by blast
  ultimately show ?case using out_ok_cont [of fd m t] ex step_cont by simp
next
  case (step_loop m)
  then show ?case by (intro out_ok_loop)
next
  case (step_io m now evs)
  then show ?case by (intro out_ok_round) (simp_all add: machine_ok_def)
next
  case (step_wait_end m)
  then show ?case by (intro out_ok_delete) (simp_all add: machine_ok_def)
qed

lemma out_ok_reach:
  assumes "\<And>n. - 1 \<le> os n" and "machine_reach (out_code fd) (out_handlers fd) (out_start fail maxInQueue os ls) m"
  shows "out_ok fd m \<and> machine_ok (out_code fd) m"
  using assms(2)
proof induction
  case reach_start
  have "g_Free (executor_new fail :: out_pc executor) = []" by (simp add: executor_new_def)
  from Create_new [OF this, of "SendNext ls"] have g: "g_Cont (snd (executor_Create (SendNext ls) (executor_new fail))) = [0 \<mapsto> new_cont (SendNext ls)]"
    by (simp add: executor_new_def)
  have rd: "0 \<in> set (g_Ready (snd (executor_Create (SendNext ls) (executor_new fail))))"
    by (simp add: executor_Create_def CreateImpl_def pool_Allocate_def executor_new_def Let_def link_fields)
  have "out_ok fd (out_start fail maxInQueue os ls)"
    using assms(1) g rd by (simp add: out_ok_def out_inv_def out_start_def machine_start_def running_def socket_out_new_def new_cont_def pending_def FullLength_def)
  then show ?case using machine_ok_start [of "out_code fd"] by (simp add: out_start_def)
next
  case (reach_step m' m'')
  then show ?case using out_ok_step machine_ok_step by blast
qed

lemma Flags_member: "(ev, w) \<in> set l \<Longrightarrow> Flags l AND w = w"
proof -
  have "foldl (\<lambda>ret it. ret OR snd it) a l AND w = w" if "a AND w = w \<or> (ev, w) \<in> set l" for a
    using that
  proof (induction l arbitrary: a)
    case (Cons x l)
    have "(a OR snd x) AND w = w \<or> (ev, w) \<in> set l"
      using Cons.prems by (auto simp: word_bw_lcs(2) bit_eq_iff bit_simps)
    then show ?case using Cons.IH [of "a OR snd x"] by simp
  qed simp
  then show "(ev, w) \<in> set l \<Longrightarrow> ?thesis" by (simp add: Flags_def)
qed

section \<open>Properties of the output\<close>

definition sender_pc :: "(socket_out, out_pc) machine \<Rightarrow> out_pc option" where
  "sender_pc m = map_option ct_pc (g_Cont (m_ex m) 0)"

text \<open>
  C9. The output of a connection. With a \<open>writev\<close> that returns the number of bytes taken, or -1, nothing fails and
  nothing is lost or reordered: what the system has accepted and what is buffered are together what was
  sent. When \<open>Send\<close> returns, at most \<open>MaxInQueue_\<close> bytes are buffered. A sender that sleeps and is not about
  to be woken has data to write, no error, and the poller waits for its socket to become writable. When the
  connection has ended without an exception, everything has been written.
\<close>

theorem socket_out_delivers:
  assumes "\<And>n. - 1 \<le> os n" and "machine_reach (out_code fd) (out_handlers fd) (out_start fail maxInQueue os ls) m"
  shows "m_at m \<noteq> Aborted \<and> so_Wire (m_mem m) @ bytes_of (so_W (m_mem m)) = so_Given (m_mem m)
    \<and> (\<forall>ls'. sender_pc m = Some (SendNext ls') \<longrightarrow> FullLength (so_W (m_mem m)) \<le> so_MaxInQueue (m_mem m))
    \<and> (\<forall>keep k. sender_pc m = Some (FlushSleep keep k) \<and> running m = None \<and> 0 \<notin> set (g_Ready (m_ex m)) \<longrightarrow>
         keep < FullLength (so_W (m_mem m)) \<and> so_Err (m_mem m) = 0 \<and> g_Set (m_ex m) fd AND CONT_POLL_WRITE = CONT_POLL_WRITE)
    \<and> (m_at m = Stopped \<and> \<not> so_Thrown (m_mem m) \<longrightarrow> so_Wire (m_mem m) = so_Given (m_mem m))"
proof -
  have ok: "out_ok fd m" and ex: "machine_ok (out_code fd) m" using out_ok_reach [OF assms] by auto
  let ?s = "m_mem m" and ?g = "m_ex m"
  have inv: "out_inv fd (running m = Some 0) ?g ?s" and na: "m_at m \<noteq> Aborted" using ok by (auto simp: out_ok_def)
  have bal: "so_Wire ?s @ bytes_of (so_W ?s) = so_Given ?s" using inv by (simp add: out_inv_def)
  have se: "sender_ok fd (running m = Some 0) (ct_Event t \<noteq> None) ?g ?s (ct_pc t)" if "g_Cont ?g 0 = Some t" for t
    using inv that by (simp add: out_inv_def)
  have bound: "FullLength (so_W ?s) \<le> so_MaxInQueue ?s" if "sender_pc m = Some (SendNext ls')" for ls'
    using se that by (auto simp: sender_pc_def)
  have asleep: "keep < FullLength (so_W ?s) \<and> so_Err ?s = 0 \<and> g_Set ?g fd AND CONT_POLL_WRITE = CONT_POLL_WRITE"
    if a: "sender_pc m = Some (FlushSleep keep k)" "running m = None" "0 \<notin> set (g_Ready ?g)" for keep k
  proof -
    obtain t where t: "g_Cont ?g 0 = Some t" "ct_pc t = FlushSleep keep k" using a(1) by (auto simp: sender_pc_def)
    then have l: "keep < FullLength (so_W ?s) \<and> so_Err ?s = 0" "registered fd ?g" using se [OF t(1)] a by (auto simp: pending_def)
    have "poller_inv ?g" using ex a(2) na by (auto simp: machine_ok_def executor_ok_def running_def split: control.splits)
    then have "g_Set ?g fd = Flags (g_Lists ?g fd)" by (simp add: poller_inv_def)
    then show ?thesis using l Flags_member [of "Handler 0" CONT_POLL_WRITE "g_Lists ?g fd"] by (simp add: registered_def)
  qed
  have fin: "so_Wire ?s = so_Given ?s" if "m_at m = Stopped" "\<not> so_Thrown ?s"
  proof -
    have "g_Cont ?g 0 = None" using ex that by (auto simp: machine_ok_def loop_head_def WaitForIO_waits_def executor_ok_def none_lost_def)
    then have "FullLength (so_W ?s) = 0" using inv that(2) by (simp add: out_inv_def done_with_def)
    then have "bytes_of (so_W ?s) = []" unfolding FullLength_bytes by (simp only: length_0_conv)
    then show ?thesis using bal unfolding \<open>bytes_of (so_W ?s) = []\<close> by (simp only: append_Nil2)
  qed
  show ?thesis using na bal bound asleep fin by blast
qed

theorem socket_out_delivers_witness:
  "\<exists>m. machine_reach (out_code 3) (out_handlers 3) (out_start False 0 (\<lambda>_. 1) [[''ab''], [''c'']]) m \<and> m_at m = Stopped \<and> so_Wire (m_mem m) = ''abc''"
proof -
  let ?m = "machine_run (out_code 3) (out_handlers 3) (replicate 36 (1, [(3, 0, 2)])) (out_start False 0 (\<lambda>_. 1) [[''ab''], [''c'']])"
  have "map_option (\<lambda>m. (m_at m, so_Thrown (m_mem m), so_Given (m_mem m))) ?m = Some (Stopped, False, ''abc'')" by code_simp
  then obtain m where m: "?m = Some m" "m_at m = Stopped" "\<not> so_Thrown (m_mem m)" "so_Given (m_mem m) = ''abc''" by auto
  have r: "machine_reach (out_code 3) (out_handlers 3) (out_start False 0 (\<lambda>_. 1) [[''ab''], [''c'']]) m" by (rule machine_run_reach [OF m(1)])
  then show ?thesis using socket_out_delivers [OF _ r] m(2-4) by auto
qed

section \<open>Input\<close>

text \<open>A chunk over a part of a block: the block, the offset and the length.\<close>

type_synonym region = "nat \<times> nat \<times> nat"

text \<open>
  \<open>si_blocks\<close> counts the blocks allocated so far; the length of a new block, which the allocator may round up,
  is \<open>alloc\<close>. \<open>si_mem\<close> is the memory of the blocks, \<open>si_wire\<close> the bytes of the connection that are not read
  yet, and \<open>si_handed\<close> the chunks handed out.
\<close>

record socket_in =
  si_L :: "region option"
  si_blocks :: nat
  si_mem :: "nat \<Rightarrow> nat \<Rightarrow> char"
  si_wire :: bytes
  si_handed :: "region list"

definition socket_in_new :: "(nat \<Rightarrow> nat \<Rightarrow> char) \<Rightarrow> bytes \<Rightarrow> socket_in" where
  "socket_in_new mem wire = \<lparr>si_L = None, si_blocks = 0, si_mem = mem, si_wire = wire, si_handed = []\<rparr>"

text \<open>\<open>NextChunk\<close> takes the chunk out of \<open>L_\<close>.\<close>

definition in_NextChunk :: "(nat \<Rightarrow> nat) \<Rightarrow> socket_in \<Rightarrow> region \<times> socket_in" where
  "in_NextChunk alloc s =
     (case si_L s of
        None \<Rightarrow> ((si_blocks s, 0, alloc (si_blocks s)), s\<lparr>si_blocks := Suc (si_blocks s)\<rparr>)
      | Some r \<Rightarrow> (r, s\<lparr>si_L := None\<rparr>))"

text \<open>\<open>read\<close> of at most \<open>len\<close> bytes, of which the system has \<open>avail\<close> at hand.\<close>

definition sys_read :: "nat \<Rightarrow> nat \<Rightarrow> nat \<Rightarrow> nat \<Rightarrow> socket_in \<Rightarrow> nat \<times> socket_in" where
  "sys_read b off len avail s =
     (let data = take (min len avail) (si_wire s) in
      (length data, s\<lparr>si_wire := drop (min len avail) (si_wire s),
         si_mem := (\<lambda>b' i. if b' = b \<and> off \<le> i \<and> i < off + length data then data ! (i - off) else si_mem s b' i)\<rparr>))"

text \<open>\<open>TSocketIn::DoRecv\<close>: the chunk that is pushed, if any, or the error of the read, which \<open>Checked\<close> throws.\<close>

definition in_DoRecv :: "(nat \<Rightarrow> nat) \<Rightarrow> int + nat \<Rightarrow> socket_in \<Rightarrow> region option outcome \<times> socket_in" where
  "in_DoRecv alloc sys s0 =
     (case in_NextChunk alloc s0 of
        ((b, off, len), s) \<Rightarrow>
          (case sys of
             Inl err \<Rightarrow> (Throw (SystemError err), s)
           | Inr avail \<Rightarrow>
               (case sys_read b off len avail s of
                  (readed, s) \<Rightarrow>
                    if readed \<noteq> 0 then
                      (if readed = len then (Ret (Some (b, off, len)), s\<lparr>si_handed := si_handed s @ [(b, off, len)]\<rparr>)
                       else if len - readed < readed then (Ret (Some (b, off, readed)), s\<lparr>si_handed := si_handed s @ [(b, off, readed)]\<rparr>)
                       else (Ret (Some (b, off, readed)),
                         s\<lparr>si_handed := si_handed s @ [(b, off, readed)], si_L := Some (b, off + readed, len - readed)\<rparr>))
                    else (Ret None, s))))"

text \<open>The bytes a chunk shows now, and a sequence of reads.\<close>

definition region_bytes :: "(nat \<Rightarrow> nat \<Rightarrow> char) \<Rightarrow> region \<Rightarrow> bytes" where
  "region_bytes mem r = (case r of (b, off, len) \<Rightarrow> map (mem b) [off..<off + len])"

fun in_reads :: "(nat \<Rightarrow> nat) \<Rightarrow> (int + nat) list \<Rightarrow> socket_in \<Rightarrow> socket_in" where
  "in_reads alloc [] s = s"
| "in_reads alloc (x # xs) s = in_reads alloc xs (snd (in_DoRecv alloc x s))"

text \<open>No chunk handed out reaches into the part of a block that is still to be filled.\<close>

definition in_inv :: "bytes \<Rightarrow> socket_in \<Rightarrow> bool" where
  "in_inv all s \<longleftrightarrow> concat (map (region_bytes (si_mem s)) (si_handed s)) @ si_wire s = all
     \<and> (\<forall>(b, off, len) \<in> set (si_handed s). b < si_blocks s)
     \<and> (case si_L s of None \<Rightarrow> True | Some (b, off, len) \<Rightarrow> b < si_blocks s \<and> (\<forall>(b', off', len') \<in> set (si_handed s). b' = b \<longrightarrow> off' + len' \<le> off))"

lemma region_bytes_apart:
  assumes "\<And>b' off' len'. (b', off', len') \<in> set rs \<Longrightarrow> b' = b \<Longrightarrow> off' + len' \<le> off"
    and "\<And>b' i. b' \<noteq> b \<or> i < off \<Longrightarrow> mem' b' i = mem b' i"
  shows "map (region_bytes mem') rs = map (region_bytes mem) rs"
proof (rule map_cong [OF refl])
  fix r assume "r \<in> set rs"
  moreover obtain b' off' len' where r: "r = (b', off', len')" by (cases r) auto
  ultimately have "b' = b \<Longrightarrow> off' + len' \<le> off" using assms(1) by blast
  then have "mem' b' i = mem b' i" if "i < off' + len'" for i using assms(2) [of b' i] that by (cases "b' = b") auto
  then show "region_bytes mem' r = region_bytes mem r" by (simp add: region_bytes_def r)
qed

lemma in_inv_DoRecv:
  assumes "in_inv all s"
  shows "in_inv all (snd (in_DoRecv alloc sys s))"
proof -
  obtain b off len s1 where n: "in_NextChunk alloc s = ((b, off, len), s1)" by (cases "in_NextChunk alloc s") auto
  have s1: "in_inv all s1" "si_L s1 = None" "b < si_blocks s1" "\<And>b' off' len'. (b', off', len') \<in> set (si_handed s1) \<Longrightarrow> b' = b \<Longrightarrow> off' + len' \<le> off"
    using n assms by (fastforce simp: in_NextChunk_def in_inv_def split: option.splits)+
  show ?thesis
  proof (cases sys)
    case (Inl err)
    then show ?thesis using n s1(1) by (simp add: in_DoRecv_def)
  next
    case (Inr avail)
    let ?data = "take (min len avail) (si_wire s1)"
    obtain k s2 where r: "sys_read b off len avail s1 = (k, s2)" by force
    have k: "k = length ?data" "si_handed s2 = si_handed s1" "si_L s2 = None" "si_blocks s2 = si_blocks s1" "si_wire s2 = drop (min len avail) (si_wire s1)"
      using r s1(2) by (auto simp: sys_read_def Let_def)
    have m: "si_mem s2 = (\<lambda>b' i. if b' = b \<and> off \<le> i \<and> i < off + length ?data then ?data ! (i - off) else si_mem s1 b' i)"
      using r by (auto simp: sys_read_def Let_def)
    have old: "map (region_bytes (si_mem s2)) (si_handed s1) = map (region_bytes (si_mem s1)) (si_handed s1)"
      by (rule region_bytes_apart [OF s1(4)]) (auto simp: m)
    have new: "region_bytes (si_mem s2) (b, off, k) = ?data"
      by (rule nth_equalityI) (auto simp: region_bytes_def k(1) m)
    have all: "concat (map (region_bytes (si_mem s1)) (si_handed s1)) @ si_wire s1 = all" using s1(1) by (simp add: in_inv_def)
    have w: "?data @ si_wire s2 = si_wire s1" unfolding k(5) by (rule append_take_drop_id)
    have kl: "k \<le> len" by (simp add: k(1))
    have hb: "b' < si_blocks s1" if "(b', o', l') \<in> set (si_handed s1)" for b' o' l' using s1(1) that by (auto simp: in_inv_def)
    have inv: "in_inv all (s2\<lparr>si_handed := si_handed s2 @ [(b, off, k)], si_L := l\<rparr>)" if l: "l = None \<or> l = Some (b, off + k, len - k)" for l
    proof -
      have "off' + len' \<le> off + k" if "(b, off', len') \<in> set (si_handed s1)" for off' len' using s1(4) [OF that refl] by simp
      then show ?thesis using l s1(3) hb all w unfolding in_inv_def by (auto simp: old new k(2,4))
    qed
    have inv0: "in_inv all s2" if "k = 0"
    proof -
      have "?data = []" using that k(1) by (metis length_0_conv)
      then have "si_wire s2 = si_wire s1" using w by (metis append_Nil)
      then show ?thesis using all hb unfolding in_inv_def by (auto simp: old k(2,3,4))
    qed
    have nl: "s2\<lparr>si_handed := si_handed s2 @ [(b, off, k)], si_L := None\<rparr> = s2\<lparr>si_handed := si_handed s2 @ [(b, off, k)]\<rparr>" using k(3) by (cases s2) simp
    have inv1: "in_inv all (s2\<lparr>si_handed := si_handed s2 @ [(b, off, k)]\<rparr>)" using inv [of None] unfolding nl by simp
    show ?thesis using n r Inr inv inv0 inv1 by (auto simp: in_DoRecv_def split: if_splits)
  qed
qed

section \<open>Properties of the input\<close>

text \<open>
  C10. The input of a connection. After any sequence of reads, with whatever block sizes, partial reads and
  errors, the chunks handed out, read from the memory as it is then, hold exactly the bytes taken from the
  connection, in order: no read overwrites what was handed out, although chunks share blocks.
\<close>

theorem socket_in_keeps_data:
  "let s = in_reads alloc xs (socket_in_new mem wire) in concat (map (region_bytes (si_mem s)) (si_handed s)) @ si_wire s = wire"
proof -
  have "in_inv wire s \<Longrightarrow> in_inv wire (in_reads alloc xs s)" for s by (induction xs arbitrary: s) (simp_all add: in_inv_DoRecv)
  moreover have "in_inv wire (socket_in_new mem wire)" by (simp add: in_inv_def socket_in_new_def)
  ultimately show ?thesis by (simp add: in_inv_def Let_def)
qed

section \<open>Merging small chunks\<close>

text \<open>\<open>CombinePart\<close> and \<open>Combine\<close>.\<close>

definition CombinePart :: "chunks \<Rightarrow> chunks \<Rightarrow> chunks" where
  "CombinePart lst out = (if lst = [] then out else Push (CopyData (FullLength lst) lst) out)"

fun Combine_loop :: "chunks \<Rightarrow> chunks \<Rightarrow> chunks \<Rightarrow> chunks" where
  "Combine_loop [] part out = CombinePart part out"
| "Combine_loop (cur # lst) part out =
     (if length cur < 128 then Combine_loop lst (Push cur part) out else Combine_loop lst [] (Push cur (CombinePart part out)))"

definition Combine :: "chunks \<Rightarrow> chunks \<Rightarrow> chunks" where
  "Combine lst out = Combine_loop lst [] out"

lemma Combine_bytes: "bytes_of (Combine lst out) = bytes_of out @ bytes_of lst"
proof -
  have p: "bytes_of (CombinePart part out) = bytes_of out @ bytes_of part" for part out
    by (simp add: CombinePart_def Push_def CopyData_take FullLength_bytes)
  have "bytes_of (Combine_loop lst part out) = bytes_of out @ bytes_of part @ bytes_of lst" for part
    by (induction lst part out rule: Combine_loop.induct) (simp_all add: p Push_def)
  then show ?thesis by (simp add: Combine_def)
qed

end
