(* ===== verification/Dispatch.thy ===== *)
theory Dispatch
  imports Httpmod Backends
begin

text \<open>
  The modules that choose or wrap another module: \<open>regexp\<close>, \<open>ipdispatch\<close>, \<open>shared\<close>, \<open>debug\<close> and \<open>errorlog\<close>
  (web/httpd/modules/*/module.cpp). A slave module is a value of the parameter \<open>'m\<close>; what its run does is a
  \<open>prog\<close>.

  The regular expressions are those of the Pire library: \<open>accepts re s\<close> says whether the expression, with its
  options, accepts the text \<open>s\<close>. An automaton is the list of the expressions glued together: a matcher is
  final when one of them accepts, and \<open>MatchedRegexps\<close> are the numbers of those that do, in ascending order.
  Compiling and gluing may throw; \<open>compile\<close> and \<open>glue\<close> say whether they do.
\<close>

section \<open>Automata\<close>

record regex =
  re_text :: bytes
  re_CaseInsensitive :: bool
  re_Surround :: bool

type_synonym fsm_list = "regex list"

text \<open>\<open>TMatcher\<close> over a chunk list: its state depends on the bytes only.\<close>

definition matched_regexps :: "(regex \<Rightarrow> bytes \<Rightarrow> bool) \<Rightarrow> fsm_list \<Rightarrow> chunks \<Rightarrow> nat list" where
  "matched_regexps accepts fsm lst = filter (\<lambda>n. accepts (fsm ! n) (bytes_of lst)) [0..<length fsm]"

definition match_final :: "(regex \<Rightarrow> bytes \<Rightarrow> bool) \<Rightarrow> fsm_list \<Rightarrow> chunks \<Rightarrow> bool" where
  "match_final accepts fsm lst = (matched_regexps accepts fsm lst \<noteq> [])"

section \<open>The regexp module\<close>

datatype option_value = OV_DEFAULT | OV_FALSE | OV_TRUE

fun CalcOptionValue :: "option_value \<Rightarrow> bool \<Rightarrow> bool" where
  "CalcOptionValue OV_DEFAULT defaultValue = defaultValue"
| "CalcOptionValue OV_FALSE defaultValue = False"
| "CalcOptionValue OV_TRUE defaultValue = True"

definition OptionValue :: "bool \<Rightarrow> option_value" where
  "OptionValue v = (if v then OV_TRUE else OV_FALSE)"

record 'm reg_item =
  ri_Name :: string
  ri_Regexp :: bytes
  ri_CaseInsensitive :: option_value
  ri_Surround :: option_value
  ri_Slave :: "'m option"
  ri_Priority :: real

definition IsDefault :: "'m reg_item \<Rightarrow> bool" where
  "IsDefault i \<longleftrightarrow> ri_Name i = ''default''"

definition item_DoConsume ::
  "(string \<Rightarrow> real outcome) \<Rightarrow> 'm factory \<Rightarrow> string \<Rightarrow> cfg_value \<Rightarrow> 'm reg_item \<Rightarrow> 'm reg_item outcome" where
  "item_DoConsume fromFloat loader key v i =
     ON_KEY ''priority'' fromFloat (\<lambda>x i. i\<lparr>ri_Priority := x\<rparr>) key v i
      (ON_KEY ''match'' Ret (\<lambda>x i. i\<lparr>ri_Regexp := x\<rparr>) key v i
        (if key = ''case_insensitive'' then obind (AsBool v) (\<lambda>b. Ret (i\<lparr>ri_CaseInsensitive := OptionValue b\<rparr>))
         else if key = ''surround'' then obind (AsBool v) (\<lambda>b. Ret (i\<lparr>ri_Surround := OptionValue b\<rparr>))
         else obind (AsSubConfig v) (\<lambda>sub. obind (MustLoad loader key sub) (\<lambda>m. Ret (i\<lparr>ri_Slave := Some m\<rparr>)))))"

definition regitem_new :: "(string \<Rightarrow> real outcome) \<Rightarrow> 'm factory \<Rightarrow> string \<Rightarrow> cfg \<Rightarrow> 'm reg_item outcome" where
  "regitem_new fromFloat loader name c =
     obind (ForEach (item_DoConsume fromFloat loader) c
         \<lparr>ri_Name = name, ri_Regexp = (if name = ''default'' then ''.*'' else []), ri_CaseInsensitive = OV_DEFAULT, ri_Surround = OV_DEFAULT, ri_Slave = None, ri_Priority = 1\<rparr>)
       (\<lambda>i. if ri_Slave i = None then Throw ConfigParseError
            else if ri_Regexp i = [] then Throw ConfigParseError
            else Ret (if IsDefault i then i\<lparr>ri_Priority := - 1\<rparr> else i))"

record 'm regexp_mod =
  rm_Items :: "'m reg_item list"
  rm_Fsm :: fsm_list
  rm_FsmHeader :: "regex option"
  rm_CaseInsensitive :: bool
  rm_Surround :: bool
  rm_Default :: "'m reg_item option"

definition reg_DoConsume ::
  "(string \<Rightarrow> real outcome) \<Rightarrow> 'm factory \<Rightarrow> (regex \<Rightarrow> bool) \<Rightarrow> string \<Rightarrow> cfg_value \<Rightarrow> 'm regexp_mod \<Rightarrow> 'm regexp_mod outcome" where
  "reg_DoConsume fromFloat loader compile key v m =
     (if key = ''http_header'' then
        obind (AsString v) (\<lambda>header.
          let re = \<lparr>re_text = header, re_CaseInsensitive = True, re_Surround = False\<rparr> in
          if compile re then Ret (m\<lparr>rm_FsmHeader := Some re\<rparr>) else Throw Yexception)
      else if key = ''case_insensitive'' then obind (AsBool v) (\<lambda>b. Ret (m\<lparr>rm_CaseInsensitive := b\<rparr>))
      else if key = ''surround'' then obind (AsBool v) (\<lambda>b. Ret (m\<lparr>rm_Surround := b\<rparr>))
      else obind (AsSubConfig v) (\<lambda>sub. obind (regitem_new fromFloat loader key sub) (\<lambda>i. Ret (m\<lparr>rm_Items := rm_Items m @ [i]\<rparr>))))"

text \<open>\<open>TItem::InitFsm\<close> and \<open>TModule::InitFsm\<close>.\<close>

definition item_InitFsm :: "bool \<Rightarrow> bool \<Rightarrow> 'm reg_item \<Rightarrow> regex" where
  "item_InitFsm defaultCaseInsensitive defaultSurround i =
     \<lparr>re_text = ri_Regexp i, re_CaseInsensitive = CalcOptionValue (ri_CaseInsensitive i) defaultCaseInsensitive,
      re_Surround = CalcOptionValue (ri_Surround i) defaultSurround\<rparr>"

definition reg_InitFsm_item ::
  "(regex \<Rightarrow> bool) \<Rightarrow> (fsm_list \<Rightarrow> bool) \<Rightarrow> 'm reg_item \<Rightarrow> 'm regexp_mod \<Rightarrow> 'm regexp_mod outcome" where
  "reg_InitFsm_item compile glue i m =
     (let m = (if IsDefault i then m\<lparr>rm_Default := Some i\<rparr> else m);
          re = item_InitFsm (rm_CaseInsensitive m) (rm_Surround m) i; fsm = rm_Fsm m @ [re] in
      if \<not> compile re then Throw Yexception
      else if rm_Fsm m = [] \<or> glue fsm then Ret (m\<lparr>rm_Fsm := fsm\<rparr>) else Throw Yexception)"

definition reg_InitFsm :: "(regex \<Rightarrow> bool) \<Rightarrow> (fsm_list \<Rightarrow> bool) \<Rightarrow> 'm regexp_mod \<Rightarrow> 'm regexp_mod outcome" where
  "reg_InitFsm compile glue m = ofold (reg_InitFsm_item compile glue) (rm_Items m) m"

text \<open>\<open>Fsm_\<close> starts as \<open>TFsm::False()\<close>, which the first item replaces: the empty list.\<close>

definition reg_new ::
  "(string \<Rightarrow> real outcome) \<Rightarrow> 'm factory \<Rightarrow> (regex \<Rightarrow> bool) \<Rightarrow> (fsm_list \<Rightarrow> bool) \<Rightarrow> cfg \<Rightarrow> 'm regexp_mod outcome" where
  "reg_new fromFloat loader compile glue c =
     obind (ForEach (reg_DoConsume fromFloat loader compile) c
         \<lparr>rm_Items = [], rm_Fsm = [], rm_FsmHeader = None, rm_CaseInsensitive = False, rm_Surround = False, rm_Default = None\<rparr>)
       (\<lambda>m. if rm_Items m = [] then Throw ConfigParseError else reg_InitFsm compile glue m)"

text \<open>\<open>SelectHandle\<close> with its loop over the numbers; a slave is null only before the item is configured.\<close>

fun select_loop :: "'m reg_item list \<Rightarrow> nat list \<Rightarrow> 'm reg_item option \<Rightarrow> 'm reg_item option" where
  "select_loop items [] item = item"
| "select_loop items (num # nums) item =
     (if num < length items then
        (let n = items ! num in
         case item of
           None \<Rightarrow> select_loop items nums (Some n)
         | Some i \<Rightarrow> select_loop items nums (if ri_Priority n > ri_Priority i then Some n else item))
      else select_loop items nums item)"

definition reg_Default :: "'m regexp_mod \<Rightarrow> 'm option" where
  "reg_Default m = (case rm_Default m of None \<Rightarrow> None | Some i \<Rightarrow> ri_Slave i)"

definition reg_SelectHandle :: "(regex \<Rightarrow> bytes \<Rightarrow> bool) \<Rightarrow> 'm regexp_mod \<Rightarrow> chunks \<Rightarrow> 'm option" where
  "reg_SelectHandle accepts m lst =
     (if match_final accepts (rm_Fsm m) lst then
        (case select_loop (rm_Items m) (matched_regexps accepts (rm_Fsm m) lst) None of
           Some i \<Rightarrow> ri_Slave i
         | None \<Rightarrow> reg_Default m)
      else reg_Default m)"

text \<open>\<open>THdrChooser\<close>: the first header whose key matches.\<close>

fun choose_header :: "(regex \<Rightarrow> bytes \<Rightarrow> bool) \<Rightarrow> regex \<Rightarrow> header list \<Rightarrow> header option \<Rightarrow> header option" where
  "choose_header accepts re [] chosen = chosen"
| "choose_header accepts re (h # hs) chosen =
     choose_header accepts re hs
       (if chosen \<noteq> None then chosen else if match_final accepts [re] (h_Key h) then Some h else None)"

definition regexp_DoRun :: "(regex \<Rightarrow> bytes \<Rightarrow> bool) \<Rightarrow> ('m \<Rightarrow> prog) \<Rightarrow> 'm regexp_mod \<Rightarrow> request \<Rightarrow> prog" where
  "regexp_DoRun accepts run m req =
     (case (case rm_FsmHeader m of
              None \<Rightarrow> reg_SelectHandle accepts m (r_Request req)
            | Some re \<Rightarrow> (case choose_header accepts re (r_Headers req) None of
                            Some h \<Rightarrow> reg_SelectHandle accepts m (h_Value h)
                          | None \<Rightarrow> reg_SelectHandle accepts m [])) of
        None \<Rightarrow> Fails (HttpError 404)
      | Some slave \<Rightarrow> run slave)"

section \<open>The ipdispatch module\<close>

record descr =
  ds_Host :: ui64
  ds_Port :: ui16

definition MatchAll :: descr where "MatchAll = \<lparr>ds_Host = 0, ds_Port = 0\<rparr>"
definition MatchPort :: "ui16 \<Rightarrow> descr" where "MatchPort port = \<lparr>ds_Host = 0, ds_Port = port\<rparr>"
definition MatchHost :: "ui64 \<Rightarrow> descr" where "MatchHost host = \<lparr>ds_Host = host, ds_Port = 0\<rparr>"

text \<open>A socket address; the hash of an IPv6 address is \<open>Crc<ui64>\<close> of its bytes.\<close>

datatype sock_addr = AF_INET ui32 ui16 | AF_INET6 bytes ui16 | AF_OTHER

fun descr_of :: "(bytes \<Rightarrow> ui64) \<Rightarrow> sock_addr \<Rightarrow> descr" where
  "descr_of crc (AF_INET host port) = \<lparr>ds_Host = ucast host, ds_Port = port\<rparr>"
| "descr_of crc (AF_INET6 a port) = \<lparr>ds_Host = crc a, ds_Port = port\<rparr>"
| "descr_of crc AF_OTHER = \<lparr>ds_Host = 0, ds_Port = 0\<rparr>"

record 'm elem =
  el_Name :: string
  el_Host :: string
  el_Port :: ui16
  el_Module :: "'m option"

definition elem_DoConsume ::
  "(string \<Rightarrow> ui16 outcome) \<Rightarrow> 'm factory \<Rightarrow> string \<Rightarrow> cfg_value \<Rightarrow> 'm elem \<Rightarrow> 'm elem outcome" where
  "elem_DoConsume fromPort loader key v e =
     ON_KEY ''ip'' Ret (\<lambda>x e. e\<lparr>el_Host := x\<rparr>) key v e
      (ON_KEY ''port'' fromPort (\<lambda>x e. e\<lparr>el_Port := x\<rparr>) key v e
        (obind (AsSubConfig v) (\<lambda>sub. obind (MustLoad loader key sub) (\<lambda>m. Ret (e\<lparr>el_Module := Some m\<rparr>)))))"

definition elem_new :: "(string \<Rightarrow> ui16 outcome) \<Rightarrow> 'm factory \<Rightarrow> string \<Rightarrow> cfg \<Rightarrow> 'm elem outcome" where
  "elem_new fromPort loader name c =
     obind (ForEach (elem_DoConsume fromPort loader) c \<lparr>el_Name = name, el_Host = [], el_Port = 0, el_Module = None\<rparr>)
       (\<lambda>e. if el_Module e = None then Throw ConfigParseError else Ret e)"

text \<open>
  \<open>Descriptors() throw ()\<close>: resolving the name may throw, and an exception that leaves a function declared
  \<open>throw ()\<close> ends the process.
\<close>

definition Descriptors :: "(bytes \<Rightarrow> ui64) \<Rightarrow> (string \<Rightarrow> ui16 \<Rightarrow> sock_addr list outcome) \<Rightarrow> 'm elem \<Rightarrow> descr list outcome" where
  "Descriptors crc resolve e =
     (if el_Host e = ''*'' \<or> el_Host e = [] then
        (if el_Port e \<noteq> 0 then Ret [MatchPort (el_Port e)] else Ret [MatchAll])
      else (case resolve (el_Host e) (el_Port e) of
              Ret addrs \<Rightarrow> Ret (map (descr_of crc) addrs)
            | _ \<Rightarrow> Crash))"

type_synonym 'm ip_modules = "descr \<Rightarrow> 'm elem option"

definition AddModule ::
  "(bytes \<Rightarrow> ui64) \<Rightarrow> (string \<Rightarrow> ui16 \<Rightarrow> sock_addr list outcome) \<Rightarrow> (string \<Rightarrow> ui16 outcome) \<Rightarrow> 'm factory
   \<Rightarrow> string \<Rightarrow> cfg_value \<Rightarrow> 'm ip_modules \<Rightarrow> 'm ip_modules outcome" where
  "AddModule crc resolve fromPort loader key v mods =
     obind (AsSubConfig v) (\<lambda>sub. obind (elem_new fromPort loader key sub) (\<lambda>e.
       obind (Descriptors crc resolve e) (\<lambda>ds. Ret (fold (\<lambda>d mods. mods(d \<mapsto> e)) ds mods))))"

definition ipdispatch_new ::
  "(bytes \<Rightarrow> ui64) \<Rightarrow> (string \<Rightarrow> ui16 \<Rightarrow> sock_addr list outcome) \<Rightarrow> (string \<Rightarrow> ui16 outcome) \<Rightarrow> 'm factory \<Rightarrow> cfg \<Rightarrow> 'm ip_modules outcome" where
  "ipdispatch_new crc resolve fromPort loader c =
     obind (ForEach (AddModule crc resolve fromPort loader) c Map.empty)
       (\<lambda>mods. if mods = Map.empty then Throw ConfigParseError else Ret mods)"

definition ip_find :: "'m ip_modules \<Rightarrow> descr \<Rightarrow> 'm elem option" where
  "ip_find mods d =
     (case mods d of Some e \<Rightarrow> Some e
      | None \<Rightarrow> (case mods (MatchPort (ds_Port d)) of Some e \<Rightarrow> Some e
      | None \<Rightarrow> (case mods (MatchHost (ds_Host d)) of Some e \<Rightarrow> Some e
      | None \<Rightarrow> mods MatchAll)))"

definition ipdispatch_DoRun :: "(bytes \<Rightarrow> ui64) \<Rightarrow> ('m \<Rightarrow> prog) \<Rightarrow> 'm ip_modules \<Rightarrow> sock_addr \<Rightarrow> prog" where
  "ipdispatch_DoRun crc run mods addr =
     (case ip_find mods (descr_of crc addr) of
        None \<Rightarrow> Done
      | Some e \<Rightarrow> (case el_Module e of None \<Rightarrow> Done | Some m \<Rightarrow> run m))"

section \<open>The shared module\<close>

text \<open>
  \<open>TStore\<close> holds the shared modules, in the order in which the hash set visits them; \<open>arrange\<close> is the order the
  set, hashed by address, has after an insertion. \<open>sh_S\<close> is the cached reference.
\<close>

record 'm shared_entry =
  se_Slave :: 'm
  se_Name :: string

type_synonym 'm shared_store = "'m shared_entry list"

definition store_Register :: "('m shared_store \<Rightarrow> 'm shared_store) \<Rightarrow> 'm shared_entry \<Rightarrow> 'm shared_store \<Rightarrow> 'm shared_store" where
  "store_Register arrange e st = arrange (e # st)"

fun store_Find :: "string \<Rightarrow> 'm shared_store \<Rightarrow> 'm shared_entry outcome" where
  "store_Find name [] = Throw Yexception"
| "store_Find name (e # st) = (if se_Name e = name then Ret e else store_Find name st)"

record 'm shared_mod =
  sh_M :: "'m option"
  sh_Name :: string
  sh_S :: "'m shared_entry option"
  sh_HasRealConfig :: bool

definition shared_DoConsume :: "'m factory \<Rightarrow> string \<Rightarrow> cfg_value \<Rightarrow> 'm shared_mod \<Rightarrow> 'm shared_mod outcome" where
  "shared_DoConsume loader key v m =
     ON_KEY ''uuid'' Ret (\<lambda>x m. m\<lparr>sh_Name := x\<rparr>) key v m
       (obind (AsSubConfig v) (\<lambda>sub. obind (MustLoad loader key sub) (\<lambda>s. Ret (m\<lparr>sh_M := Some s\<rparr>))))"

definition shared_new :: "'m factory \<Rightarrow> ('m shared_store \<Rightarrow> 'm shared_store) \<Rightarrow> cfg \<Rightarrow> 'm shared_store \<Rightarrow> ('m shared_mod \<times> 'm shared_store) outcome" where
  "shared_new loader arrange c st =
     obind (ForEach (shared_DoConsume loader) c \<lparr>sh_M = None, sh_Name = [], sh_S = None, sh_HasRealConfig = False\<rparr>)
       (\<lambda>m. if sh_Name m = [] then Throw ConfigParseError
            else case sh_M m of
              None \<Rightarrow> Ret (m, st)
            | Some s \<Rightarrow> (let e = \<lparr>se_Slave = s, se_Name = sh_Name m\<rparr> in
                Ret (m\<lparr>sh_M := None, sh_S := Some e, sh_HasRealConfig := True\<rparr>, store_Register arrange e st)))"

text \<open>\<open>Slave()\<close>, and \<open>DoRun\<close> with the module after the call.\<close>

definition shared_Slave :: "'m shared_store \<Rightarrow> 'm shared_mod \<Rightarrow> ('m \<times> 'm shared_mod) outcome" where
  "shared_Slave st m =
     (case sh_S m of
        Some e \<Rightarrow> Ret (se_Slave e, m)
      | None \<Rightarrow> obind (store_Find (sh_Name m) st) (\<lambda>e. Ret (se_Slave e, m\<lparr>sh_S := Some e\<rparr>)))"

definition shared_DoRun :: "('m \<Rightarrow> prog) \<Rightarrow> 'm shared_store \<Rightarrow> 'm shared_mod \<Rightarrow> prog \<times> 'm shared_mod" where
  "shared_DoRun run st m =
     (case shared_Slave st m of
        Ret (s, m') \<Rightarrow> (run s, m')
      | Throw e \<Rightarrow> (Fails e, m)
      | Crash \<Rightarrow> (Fails Yexception, m))"

section \<open>The debug and errorlog modules\<close>

record 'm debug_mod =
  db_Response :: bytes
  db_Delay :: ui64
  db_S :: "'m option"

definition debug_DoConsume :: "(string \<Rightarrow> ui64 outcome) \<Rightarrow> 'm factory \<Rightarrow> string \<Rightarrow> cfg_value \<Rightarrow> 'm debug_mod \<Rightarrow> 'm debug_mod outcome" where
  "debug_DoConsume fromDuration loader key v m =
     ON_KEY ''response'' Ret (\<lambda>x m. m\<lparr>db_Response := x\<rparr>) key v m
      (ON_KEY ''delay'' fromDuration (\<lambda>x m. m\<lparr>db_Delay := x\<rparr>) key v m
        (obind (AsSubConfig v) (\<lambda>sub. obind (MustLoad loader key sub) (\<lambda>s. Ret (m\<lparr>db_S := Some s\<rparr>)))))"

definition debug_new :: "(string \<Rightarrow> ui64 outcome) \<Rightarrow> 'm factory \<Rightarrow> cfg \<Rightarrow> 'm debug_mod outcome" where
  "debug_new fromDuration loader c = ForEach (debug_DoConsume fromDuration loader) c \<lparr>db_Response = [], db_Delay = 0, db_S = None\<rparr>"

text \<open>
  \<open>TDumpInput\<close> and \<open>TDumpOutput\<close>; what goes to the standard error is kept beside the output. The result of
  \<open>DoRun\<close> starts with the sleeps it asks for.
\<close>

definition dump_Recv :: "'i recv \<Rightarrow> 'i recv" where
  "dump_Recv recv i = recv i"

definition dump_Send :: "'o send \<Rightarrow> (bytes \<times> 'o) send" where
  "dump_Send send lst out = (case out of (err, o1) \<Rightarrow> (case send lst o1 of (r, o2) \<Rightarrow> (r, (err @ bytes_of lst, o2))))"

definition debug_DoRun ::
  "('m \<Rightarrow> prog) \<Rightarrow> 'm debug_mod \<Rightarrow> 'i recv \<Rightarrow> 'o send \<Rightarrow> 'i \<Rightarrow> bytes \<times> 'o \<Rightarrow> ui64 list \<times> unit outcome \<times> 'i \<times> (bytes \<times> 'o)" where
  "debug_DoRun run m recv send i out =
    (if db_Delay m \<noteq> 0 then [db_Delay m] else [],
      if db_Response m \<noteq> [] then
        (case send (Push (db_Response m) (Push (''HTTP/1.1 200 Ok'' @ CRLF @ CRLF) [])) (snd out) of (r, o2) \<Rightarrow> (r, i, (fst out, o2)))
      else (case db_S m of
              None \<Rightarrow> (Ret (), i, out)
            | Some s \<Rightarrow> run_prog (dump_Recv recv) (dump_Send send) (run s) i out))"

text \<open>\<open>DoStats\<close> dereferences the module, which need not be configured.\<close>

definition debug_DoStats :: "('m \<Rightarrow> bytes) \<Rightarrow> 'm debug_mod \<Rightarrow> bytes outcome" where
  "debug_DoStats stats m = (case db_S m of None \<Rightarrow> Crash | Some s \<Rightarrow> Ret (stats s))"

record 'm errorlog_mod =
  eg_Module :: "'m option"
  eg_Tag :: string
  eg_Log :: "string option"

text \<open>A log is its name, \<open>None\<close> the default log; opening a log may throw.\<close>

definition errorlog_DoConsume ::
  "(string \<Rightarrow> string outcome) \<Rightarrow> 'm factory \<Rightarrow> string \<Rightarrow> cfg_value \<Rightarrow> 'm errorlog_mod \<Rightarrow> 'm errorlog_mod outcome" where
  "errorlog_DoConsume openLog loader key v m =
     ON_KEY ''tag'' Ret (\<lambda>x m. m\<lparr>eg_Tag := x\<rparr>) key v m
      (ON_KEY ''log'' openLog (\<lambda>x m. m\<lparr>eg_Log := Some x\<rparr>) key v m
        (obind (AsSubConfig v) (\<lambda>sub. obind (MustLoad loader key sub) (\<lambda>s. Ret (m\<lparr>eg_Module := Some s\<rparr>)))))"

definition errorlog_new :: "(string \<Rightarrow> string outcome) \<Rightarrow> 'm factory \<Rightarrow> cfg \<Rightarrow> 'm errorlog_mod outcome" where
  "errorlog_new openLog loader c =
     obind (ForEach (errorlog_DoConsume openLog loader) c \<lparr>eg_Module = None, eg_Tag = [], eg_Log = None\<rparr>)
       (\<lambda>m. if eg_Module m = None then Throw ConfigParseError else Ret m)"

text \<open>The line of the log: \<open>message\<close> is the text of the exception.\<close>

definition log_line :: "(exn \<Rightarrow> bytes) \<Rightarrow> string \<Rightarrow> bytes \<Rightarrow> exn \<Rightarrow> bytes" where
  "log_line message tag host e = tag @ ''('' @ host @ '') '' @ message e @ [CHR 0x0A]"

definition errorlog_DoRun ::
  "(exn \<Rightarrow> bytes) \<Rightarrow> ('m \<Rightarrow> prog) \<Rightarrow> 'm errorlog_mod \<Rightarrow> bytes \<Rightarrow> 'i recv \<Rightarrow> 'o send \<Rightarrow> 'i \<Rightarrow> 'o \<Rightarrow> bytes \<Rightarrow> (unit outcome \<times> 'i \<times> 'o) \<times> bytes" where
  "errorlog_DoRun message run m host recv send i ou written =
     (case run_prog recv send (run (the (eg_Module m))) i ou of
        (Throw e, i', o') \<Rightarrow> ((Throw e, i', o'), written @ log_line message (eg_Tag m) host e)
      | x \<Rightarrow> (x, written))"

section \<open>What the regexp module selects\<close>

lemma filter_nth_upt: "map ((!) xs) (filter (\<lambda>n. P (xs ! n)) [0..<length xs]) = filter P xs"
  by (simp add: filter_map [symmetric, unfolded comp_def] map_nth)

definition better :: "'m reg_item \<Rightarrow> 'm reg_item option \<Rightarrow> 'm reg_item option" where
  "better n item = (case item of None \<Rightarrow> Some n | Some i \<Rightarrow> if ri_Priority n > ri_Priority i then Some n else item)"

lemma select_loop_fold: "\<forall>n\<in>set nums. n < length items \<Longrightarrow> select_loop items nums item = fold better (map ((!) items) nums) item"
  by (induction items nums item rule: select_loop.induct) (auto simp: better_def Let_def split: option.splits)

text \<open>The first of the items with the greatest priority.\<close>

definition first_best :: "'m reg_item list \<Rightarrow> 'm reg_item" where
  "first_best ms = hd (filter (\<lambda>i. \<forall>j\<in>set ms. ri_Priority j \<le> ri_Priority i) ms)"

lemma first_best_in:
  assumes "ms \<noteq> []"
  shows "first_best ms \<in> set ms" and "\<And>j. j \<in> set ms \<Longrightarrow> ri_Priority j \<le> ri_Priority (first_best ms)"
proof -
  have "Max (ri_Priority ` set ms) \<in> ri_Priority ` set ms" using assms by (intro Max_in) auto
  then obtain i where "i \<in> set ms" "ri_Priority i = Max (ri_Priority ` set ms)" by auto
  then have "i \<in> set ms" "\<forall>j\<in>set ms. ri_Priority j \<le> ri_Priority i" by auto
  then have "filter (\<lambda>i. \<forall>j\<in>set ms. ri_Priority j \<le> ri_Priority i) ms \<noteq> []" by (auto simp: filter_empty_conv)
  then have "first_best ms \<in> set (filter (\<lambda>i. \<forall>j\<in>set ms. ri_Priority j \<le> ri_Priority i) ms)" unfolding first_best_def by (rule hd_in_set)
  then show "first_best ms \<in> set ms" "\<And>j. j \<in> set ms \<Longrightarrow> ri_Priority j \<le> ri_Priority (first_best ms)" by auto
qed

lemma better_Some: "better n (Some i) = (if ri_Priority n > ri_Priority i then Some n else Some i)"
  by (simp add: better_def)

lemma fold_better: "ms \<noteq> [] \<Longrightarrow> fold better ms None = Some (first_best ms)"
proof (induction ms rule: rev_induct)
  case (snoc x xs)
  show ?case
  proof (cases "xs = []")
    case True
    then show ?thesis by (simp add: better_def first_best_def)
  next
    case False
    then have f: "fold better xs None = Some (first_best xs)" using snoc.IH by simp
    note b = first_best_in [OF False]
    show ?thesis
    proof (cases "ri_Priority x > ri_Priority (first_best xs)")
      case True
      then have "\<forall>j\<in>set xs. ri_Priority j < ri_Priority x" using b(2) by fastforce
      then have "first_best (xs @ [x]) = x" by (auto simp: first_best_def filter_empty_conv not_le)
      then show ?thesis using f True by (simp add: better_Some)
    next
      case le: False
      have "filter (\<lambda>i. \<forall>j\<in>set (xs @ [x]). ri_Priority j \<le> ri_Priority i) xs = filter (\<lambda>i. \<forall>j\<in>set xs. ri_Priority j \<le> ri_Priority i) xs"
        using le b(1) by (intro filter_cong) (auto intro: order_trans)
      moreover have "filter (\<lambda>i. \<forall>j\<in>set xs. ri_Priority j \<le> ri_Priority i) xs \<noteq> []" using b by (auto simp: filter_empty_conv)
      ultimately have "first_best (xs @ [x]) = first_best xs" by (simp add: first_best_def)
      then show ?thesis using f le by (simp add: better_Some)
    qed
  qed
qed simp

lemma InitFsm_items:
  assumes "ofold (reg_InitFsm_item compile glue) is m = Ret m'"
  shows "rm_Items m' = rm_Items m \<and> rm_FsmHeader m' = rm_FsmHeader m \<and> rm_CaseInsensitive m' = rm_CaseInsensitive m \<and> rm_Surround m' = rm_Surround m
    \<and> rm_Fsm m' = rm_Fsm m @ map (item_InitFsm (rm_CaseInsensitive m) (rm_Surround m)) is
    \<and> rm_Default m' = (if filter IsDefault is = [] then rm_Default m else Some (last (filter IsDefault is)))"
  using assms
proof (induction "is" arbitrary: m)
  case (Cons i "is")
  then obtain m1 where m1: "reg_InitFsm_item compile glue i m = Ret m1" "ofold (reg_InitFsm_item compile glue) is m1 = Ret m'"
    by (auto simp: obind_Ret_iff)
  then show ?case using Cons.IH [OF m1(2)] by (auto simp: reg_InitFsm_item_def Let_def split: if_splits)
qed simp

lemma reg_new_spec:
  assumes "reg_new fromFloat loader compile glue c = Ret m"
  shows "rm_Fsm m = map (item_InitFsm (rm_CaseInsensitive m) (rm_Surround m)) (rm_Items m)"
    and "rm_Default m = (if filter IsDefault (rm_Items m) = [] then None else Some (last (filter IsDefault (rm_Items m))))"
    and "\<And>i. i \<in> set (rm_Items m) \<Longrightarrow> ri_Slave i \<noteq> None"
proof -
  obtain m0 where m0: "ForEach (reg_DoConsume fromFloat loader compile) c
         \<lparr>rm_Items = [], rm_Fsm = [], rm_FsmHeader = None, rm_CaseInsensitive = False, rm_Surround = False, rm_Default = None\<rparr> = Ret m0"
      "reg_InitFsm compile glue m0 = Ret m"
    using assms by (auto simp: reg_new_def obind_Ret_iff split: if_splits)
  have "rm_Fsm m0 = [] \<and> rm_Default m0 = None \<and> (\<forall>i\<in>set (rm_Items m0). ri_Slave i \<noteq> None)"
  proof (rule ofold_invariant [OF m0(1) [unfolded ForEach_def]], goal_cases)
    case 1
    then show ?case by simp
  next
    case (2 x m m')
    then show ?case by (auto simp: reg_DoConsume_def regitem_new_def Let_def obind_Ret_iff split: if_splits prod.splits)
  qed
  then show "rm_Fsm m = map (item_InitFsm (rm_CaseInsensitive m) (rm_Surround m)) (rm_Items m)"
    "rm_Default m = (if filter IsDefault (rm_Items m) = [] then None else Some (last (filter IsDefault (rm_Items m))))"
    "\<And>i. i \<in> set (rm_Items m) \<Longrightarrow> ri_Slave i \<noteq> None"
    using InitFsm_items [OF m0(2) [unfolded reg_InitFsm_def]] by auto
qed

lemma choose_header_first:
  "choose_header accepts re hs chosen = (if chosen \<noteq> None then chosen
     else case filter (\<lambda>h. match_final accepts [re] (h_Key h)) hs of [] \<Rightarrow> None | h # _ \<Rightarrow> Some h)"
  by (induction accepts re hs chosen rule: choose_header.induct) (auto split: list.splits)

lemma match_final_iff: "match_final accepts fsm lst \<longleftrightarrow> (\<exists>re\<in>set fsm. accepts re (bytes_of lst))"
  unfolding match_final_def matched_regexps_def by (simp add: filter_empty_conv) (metis atLeastLessThan_iff in_set_conv_nth zero_le)

text \<open>The text the module looks at: the request line, or the value of the first header that matches.\<close>

definition looked_at :: "(regex \<Rightarrow> bytes \<Rightarrow> bool) \<Rightarrow> 'm regexp_mod \<Rightarrow> request \<Rightarrow> chunks" where
  "looked_at accepts m req =
     (case rm_FsmHeader m of
        None \<Rightarrow> r_Request req
      | Some re \<Rightarrow> (case filter (\<lambda>h. accepts re (bytes_of (h_Key h))) (r_Headers req) of [] \<Rightarrow> [] | h # _ \<Rightarrow> h_Value h))"

definition matching :: "(regex \<Rightarrow> bytes \<Rightarrow> bool) \<Rightarrow> 'm regexp_mod \<Rightarrow> bytes \<Rightarrow> 'm reg_item list" where
  "matching accepts m text = filter (\<lambda>i. accepts (item_InitFsm (rm_CaseInsensitive m) (rm_Surround m) i) text) (rm_Items m)"

lemma SelectHandle_spec:
  assumes "reg_new fromFloat loader compile glue c = Ret m"
  shows "reg_SelectHandle accepts m lst = (if matching accepts m (bytes_of lst) \<noteq> [] then ri_Slave (first_best (matching accepts m (bytes_of lst)))
     else if filter IsDefault (rm_Items m) \<noteq> [] then ri_Slave (last (filter IsDefault (rm_Items m))) else None)"
proof -
  let ?f = "item_InitFsm (rm_CaseInsensitive m) (rm_Surround m)" and ?is = "rm_Items m"
  note r = reg_new_spec [OF assms]
  have nums: "matched_regexps accepts (rm_Fsm m) lst = filter (\<lambda>n. accepts (?f (?is ! n)) (bytes_of lst)) [0..<length ?is]"
    unfolding matched_regexps_def r(1) by (intro filter_cong) auto
  have sel: "select_loop ?is (matched_regexps accepts (rm_Fsm m) lst) None = fold better (matching accepts m (bytes_of lst)) None"
    unfolding nums matching_def by (subst select_loop_fold) (simp_all add: filter_nth_upt [where P = "\<lambda>i. accepts (?f i) (bytes_of lst)"])
  have fin: "match_final accepts (rm_Fsm m) lst \<longleftrightarrow> matching accepts m (bytes_of lst) \<noteq> []"
    by (auto simp: match_final_iff r(1) matching_def filter_empty_conv)
  show ?thesis
    using fold_better [of "matching accepts m (bytes_of lst)"] unfolding reg_SelectHandle_def sel fin reg_Default_def r(2) by auto
qed

section \<open>Properties\<close>

text \<open>
  C32. Routing by regular expressions. A module built from a configuration runs, for every request, the slave
  of the first item with the greatest priority among the items whose expression accepts the request line
  (or the value of the first header the configured expression matches, or the empty text when there is no
  such header); the last item named \<open>default\<close> when none accepts; and throws 404 when there is no such item
  either. The slave always exists.
\<close>

theorem regexp_routes:
  assumes "reg_new fromFloat loader compile glue c = Ret m"
  shows "let ms = matching accepts m (bytes_of (looked_at accepts m req)); ds = filter IsDefault (rm_Items m) in
      regexp_DoRun accepts run m req =
        (if ms \<noteq> [] then run (the (ri_Slave (first_best ms))) else if ds \<noteq> [] then run (the (ri_Slave (last ds))) else Fails (HttpError 404))
    \<and> (\<forall>i\<in>set ms \<union> set ds. ri_Slave i \<noteq> None)"
proof -
  let ?l = "looked_at accepts m req"
  let ?ms = "matching accepts m (bytes_of ?l)" and ?ds = "filter IsDefault (rm_Items m)"
  have run: "regexp_DoRun accepts run m req = (case reg_SelectHandle accepts m ?l of None \<Rightarrow> Fails (HttpError 404) | Some slave \<Rightarrow> run slave)"
    by (auto simp: regexp_DoRun_def looked_at_def choose_header_first match_final_iff split: option.splits list.splits)
  have sl: "\<forall>i\<in>set ?ms \<union> set ?ds. ri_Slave i \<noteq> None" using reg_new_spec(3) [OF assms] by (auto simp: matching_def)
  have b: "ri_Slave (first_best ?ms) \<noteq> None" if "?ms \<noteq> []" using first_best_in(1) [OF that] sl by blast
  have d: "ri_Slave (last ?ds) \<noteq> None" if "?ds \<noteq> []" using last_in_set [OF that] sl by blast
  show ?thesis
    unfolding Let_def run SelectHandle_spec [OF assms] using b d sl by (auto split: option.splits)
qed

text \<open>The configured elements with their descriptors, in the order of the configuration.\<close>

fun ip_configured ::
  "(bytes \<Rightarrow> ui64) \<Rightarrow> (string \<Rightarrow> ui16 \<Rightarrow> sock_addr list outcome) \<Rightarrow> (string \<Rightarrow> ui16 outcome) \<Rightarrow> 'm factory \<Rightarrow> cfg \<Rightarrow> ('m elem \<times> descr list) list outcome" where
  "ip_configured crc resolve fromPort loader [] = Ret []"
| "ip_configured crc resolve fromPort loader ((key, v) # c) =
     obind (AsSubConfig v) (\<lambda>sub. obind (elem_new fromPort loader key sub) (\<lambda>e. obind (Descriptors crc resolve e) (\<lambda>ds.
       obind (ip_configured crc resolve fromPort loader c) (\<lambda>es. Ret ((e, ds) # es)))))"

definition last_for :: "('m elem \<times> descr list) list \<Rightarrow> descr \<Rightarrow> 'm elem option" where
  "last_for es d = (case filter (\<lambda>(e, ds). d \<in> set ds) es of [] \<Rightarrow> None | x # xs \<Rightarrow> Some (fst (last (x # xs))))"

lemma fold_upd: "fold (\<lambda>d mods. mods(d \<mapsto> e)) ds mods d = (if d \<in> set ds then Some e else mods d)"
  by (induction ds arbitrary: mods) auto

lemma AddModules:
  assumes "ForEach (AddModule crc resolve fromPort loader) c mods = Ret mods'"
  shows "\<exists>es. ip_configured crc resolve fromPort loader c = Ret es \<and> (\<forall>(e, ds)\<in>set es. el_Module e \<noteq> None)
    \<and> (\<forall>d. mods' d = (case last_for es d of None \<Rightarrow> mods d | Some e \<Rightarrow> Some e))"
  using assms unfolding ForEach_def
proof (induction c arbitrary: mods)
  case Nil
  then show ?case by (simp add: last_for_def)
next
  case (Cons kv c)
  obtain key v where kv: "kv = (key, v)" by force
  obtain mods1 where m1: "AddModule crc resolve fromPort loader key v mods = Ret mods1"
      "ofold (\<lambda>(k, v). AddModule crc resolve fromPort loader k v) c mods1 = Ret mods'"
    using Cons.prems kv by (auto simp: obind_Ret_iff)
  obtain sub e ds where e: "AsSubConfig v = Ret sub" "elem_new fromPort loader key sub = Ret e" "Descriptors crc resolve e = Ret ds"
      "mods1 = fold (\<lambda>d mods. mods(d \<mapsto> e)) ds mods"
    using m1(1) by (auto simp: AddModule_def obind_Ret_iff)
  obtain es where es: "ip_configured crc resolve fromPort loader c = Ret es" "\<forall>(e, ds)\<in>set es. el_Module e \<noteq> None"
      "\<forall>d. mods' d = (case last_for es d of None \<Rightarrow> mods1 d | Some e \<Rightarrow> Some e)"
    using Cons.IH [OF m1(2)] by blast
  have "el_Module e \<noteq> None" using e(2) by (auto simp: elem_new_def obind_Ret_iff split: if_splits)
  moreover have "mods' d = (case last_for ((e, ds) # es) d of None \<Rightarrow> mods d | Some e \<Rightarrow> Some e)" for d
    using es(3) e(4) by (auto simp: last_for_def fold_upd split: list.splits option.splits)
  ultimately show ?case using kv e es by auto
qed

text \<open>
  Routing by the local address. A module built from a configuration runs the module that the last
  section naming exactly this address and port configures; failing that, the last for any address at this
  port, then for this address at any port, then for everything; and nothing at all if there is none.
\<close>

theorem ipdispatch_routes:
  assumes "ipdispatch_new crc resolve fromPort loader c = Ret mods"
  shows "\<exists>es. ip_configured crc resolve fromPort loader c = Ret es \<and> (\<forall>(e, ds)\<in>set es. el_Module e \<noteq> None)
    \<and> (\<forall>addr. let d = descr_of crc addr; es' = map (last_for es) [d, MatchPort (ds_Port d), MatchHost (ds_Host d), MatchAll] in
         ipdispatch_DoRun crc run mods addr = (case filter (\<lambda>x. x \<noteq> None) es' of [] \<Rightarrow> Done | x # _ \<Rightarrow> run (the (el_Module (the x)))))"
proof -
  have "ForEach (AddModule crc resolve fromPort loader) c Map.empty = Ret mods" using assms by (auto simp: ipdispatch_new_def obind_Ret_iff split: if_splits)
  from AddModules [OF this] obtain es where es0: "ip_configured crc resolve fromPort loader c = Ret es" "\<forall>(e, ds)\<in>set es. el_Module e \<noteq> None"
    "\<forall>d. mods d = (case last_for es d of None \<Rightarrow> Map.empty d | Some e \<Rightarrow> Some e)" by blast
  have "mods d = last_for es d" for d using es0(3) by (cases "last_for es d") auto
  note es = es0(1,2) this
  have el: "el_Module e \<noteq> None" if lf: "last_for es d = Some e" for d e
  proof -
    obtain x xs where f: "filter (\<lambda>(e, ds). d \<in> set ds) es = x # xs" "e = fst (last (x # xs))"
      using lf unfolding last_for_def by (cases "filter (\<lambda>(e, ds). d \<in> set ds) es") auto
    then have "last (x # xs) \<in> set (filter (\<lambda>(e, ds). d \<in> set ds) es)" using last_in_set [of "x # xs"] by (simp only: f(1)) simp
    then have "last (x # xs) \<in> set es" by simp
    then show ?thesis using es(2) f(2) by (cases "last (x # xs)") auto
  qed
  have run_el: "(case el_Module e of None \<Rightarrow> Done | Some m \<Rightarrow> run m) = run (the (el_Module e))" if "last_for es d = Some e" for d e
    using el [OF that] by auto
  have "ipdispatch_DoRun crc run mods addr = (case filter (\<lambda>x. x \<noteq> None) (map (last_for es) [d, MatchPort (ds_Port d), MatchHost (ds_Host d), MatchAll]) of [] \<Rightarrow> Done | x # _ \<Rightarrow> run (the (el_Module (the x))))"
    if d: "d = descr_of crc addr" for addr d
    unfolding ipdispatch_DoRun_def d [symmetric] ip_find_def es(3)
    by (cases "last_for es d"; cases "last_for es (MatchPort (ds_Port d))"; cases "last_for es (MatchHost (ds_Host d))"; cases "last_for es MatchAll")
      (simp_all add: run_el)
  then show ?thesis using es(1,2) by (auto simp: Let_def)
qed

text \<open>A configuration with two slaves, the second with the greater priority, and a default.\<close>

definition demo_loader :: "ui16 factory" where
  "demo_loader = AddHandle \<lparr>h_Name = ''one'', h_Construct = (\<lambda>_. Ret 1)\<rparr>
     (AddHandle \<lparr>h_Name = ''two'', h_Construct = (\<lambda>_. Ret 2)\<rparr> (factory_new None))"

definition demo_regexp_cfg :: cfg where
  "demo_regexp_cfg =
     [(''a'', CfgTable [(''match'', CfgStr ''GET''), (''one'', CfgTable [])]),
      (''b'', CfgTable [(''match'', CfgStr ''GET''), (''priority'', CfgStr ''2''), (''two'', CfgTable [])]),
      (''default'', CfgTable [(''one'', CfgTable [])])]"

definition demo_regexp :: "ui16 regexp_mod" where
  "demo_regexp =
    (let a = \<lparr>ri_Name = ''a'', ri_Regexp = ''GET'', ri_CaseInsensitive = OV_DEFAULT, ri_Surround = OV_DEFAULT, ri_Slave = Some 1, ri_Priority = 1\<rparr>;
         b = \<lparr>ri_Name = ''b'', ri_Regexp = ''GET'', ri_CaseInsensitive = OV_DEFAULT, ri_Surround = OV_DEFAULT, ri_Slave = Some 2, ri_Priority = 2\<rparr>;
         c = \<lparr>ri_Name = ''default'', ri_Regexp = ''.*'', ri_CaseInsensitive = OV_DEFAULT, ri_Surround = OV_DEFAULT, ri_Slave = Some 1, ri_Priority = - 1\<rparr>;
         re = (\<lambda>t. \<lparr>re_text = t, re_CaseInsensitive = False, re_Surround = False\<rparr>) in
     \<lparr>rm_Items = [a, b, c], rm_Fsm = [re ''GET'', re ''GET'', re ''.*''], rm_FsmHeader = None, rm_CaseInsensitive = False, rm_Surround = False, rm_Default = Some c\<rparr>)"

lemmas config_defs = ForEach_def ON_KEY_def MustLoad_def Load_def demo_loader_def factory_new_def map_outcome_val_def

lemma demo_regexp_new: "reg_new (\<lambda>_. Ret 2) demo_loader (\<lambda>_. True) (\<lambda>_. True) demo_regexp_cfg = Ret demo_regexp"
  by (simp add: reg_new_def reg_DoConsume_def regitem_new_def item_DoConsume_def demo_regexp_cfg_def demo_regexp_def reg_InitFsm_def reg_InitFsm_item_def
      item_InitFsm_def IsDefault_def Let_def config_defs)

theorem regexp_routes_witness:
  "regexp_DoRun (\<lambda>re t. re_text re = t) (\<lambda>n. Fails (HttpError n)) demo_regexp \<lparr>r_Request = [''G'', ''ET''], r_Headers = []\<rparr> = Fails (HttpError 2)"
  using regexp_routes [OF demo_regexp_new, where accepts = "\<lambda>re t. re_text re = t" and run = "\<lambda>n. Fails (HttpError n)"
      and req = "\<lparr>r_Request = [''G'', ''ET''], r_Headers = []\<rparr>"]
  by (simp add: matching_def looked_at_def demo_regexp_def Let_def item_InitFsm_def first_best_def)

text \<open>The last section for an address wins, and a section without an address serves every other one.\<close>

definition demo_ip_cfg :: cfg where
  "demo_ip_cfg = [(''x'', CfgTable [(''ip'', CfgStr ''h''), (''one'', CfgTable [])]), (''y'', CfgTable [(''two'', CfgTable [])])]"

definition demo_ip :: "ui16 ip_modules" where
  "demo_ip = [\<lparr>ds_Host = 5, ds_Port = 80\<rparr> \<mapsto> \<lparr>el_Name = ''x'', el_Host = ''h'', el_Port = 0, el_Module = Some 1\<rparr>,
     MatchAll \<mapsto> \<lparr>el_Name = ''y'', el_Host = [], el_Port = 0, el_Module = Some 2\<rparr>]"

lemma demo_ip_new: "ipdispatch_new (\<lambda>_. 0) (\<lambda>_ _. Ret [AF_INET 5 80]) (\<lambda>_. Ret 0) demo_loader demo_ip_cfg = Ret demo_ip"
  by (simp add: ipdispatch_new_def AddModule_def elem_new_def elem_DoConsume_def Descriptors_def demo_ip_cfg_def demo_ip_def config_defs MatchAll_def)

theorem ipdispatch_routes_witness:
  "ipdispatch_DoRun (\<lambda>_. 0) (\<lambda>n. Fails (HttpError n)) demo_ip (AF_INET 5 80) = Fails (HttpError 1)
   \<and> ipdispatch_DoRun (\<lambda>_. 0) (\<lambda>n. Fails (HttpError n)) demo_ip (AF_INET 6 80) = Fails (HttpError 2)"
  using ipdispatch_routes [OF demo_ip_new, where run = "\<lambda>n. Fails (HttpError n)"]
  by (auto simp: Let_def ipdispatch_DoRun_def ip_find_def demo_ip_def MatchAll_def MatchPort_def MatchHost_def)

section \<open>Modules that wrap another\<close>

lemma store_Find_spec:
  "(\<exists>e\<in>set st. se_Name e = name \<and> store_Find name st = Ret e) \<or> ((\<forall>e\<in>set st. se_Name e \<noteq> name) \<and> store_Find name st = Throw Yexception)"
  by (induction st) auto

lemma shared_new_spec:
  assumes "shared_new loader arrange c st = Ret (m, st')" and "\<And>xs. set (arrange xs) = set xs"
  shows "case sh_S m of None \<Rightarrow> \<not> sh_HasRealConfig m | Some e \<Rightarrow> sh_HasRealConfig m \<and> e \<in> set st' \<and> se_Name e = sh_Name m"
proof -
  obtain m0 where m0: "ForEach (shared_DoConsume loader) c \<lparr>sh_M = None, sh_Name = [], sh_S = None, sh_HasRealConfig = False\<rparr> = Ret m0"
    using assms(1) by (auto simp: shared_new_def obind_Ret_iff)
  have "sh_S m0 = None \<and> \<not> sh_HasRealConfig m0"
    by (rule ofold_invariant [OF m0 [unfolded ForEach_def]]) (auto simp: shared_DoConsume_def ON_KEY_def obind_Ret_iff split: if_splits prod.splits)
  then show ?thesis using assms m0 by (auto simp: shared_new_def store_Register_def Let_def split: if_splits option.splits)
qed

text \<open>
  Shared modules. A module configured with a slave publishes it under its name; a module that only has
  a name runs, from then on and whatever is published later, the one slave it found under that name at its
  first run, and throws, to look again at the next run, as long as there is none.
\<close>

theorem shared_resolves:
  assumes "shared_new loader arrange c st = Ret (m, st')" and "\<And>xs. set (arrange xs) = set xs"
  shows "case shared_Slave st' m of
      Ret (s, m') \<Rightarrow> (\<exists>e\<in>set st'. se_Name e = sh_Name m \<and> se_Slave e = s) \<and> shared_DoRun run st' m = (run s, m') \<and> (\<forall>later. shared_DoRun run later m' = (run s, m'))
    | Throw e \<Rightarrow> e = Yexception \<and> (\<forall>x\<in>set st'. se_Name x \<noteq> sh_Name m) \<and> shared_DoRun run st' m = (Fails e, m) \<and> \<not> sh_HasRealConfig m
    | Crash \<Rightarrow> False"
proof (cases "sh_S m")
  case None
  then show ?thesis using shared_new_spec [OF assms] store_Find_spec [of st' "sh_Name m"]
    by (auto simp: shared_Slave_def shared_DoRun_def)
next
  case (Some e)
  then show ?thesis using shared_new_spec [OF assms] by (auto simp: shared_Slave_def shared_DoRun_def)
qed

theorem shared_resolves_witness:
  "shared_DoRun (\<lambda>n. Fails (HttpError n)) [\<lparr>se_Slave = 1, se_Name = ''u''\<rparr>] \<lparr>sh_M = None, sh_Name = ''u'', sh_S = None, sh_HasRealConfig = False\<rparr>
   = (Fails (HttpError 1), \<lparr>sh_M = None, sh_Name = ''u'', sh_S = Some \<lparr>se_Slave = 1, se_Name = ''u''\<rparr>, sh_HasRealConfig = False\<rparr>)"
proof -
  have "shared_new demo_loader (\<lambda>xs. xs) [(''uuid'', CfgStr ''u'')] [\<lparr>se_Slave = 1, se_Name = ''u''\<rparr>]
    = Ret (\<lparr>sh_M = None, sh_Name = ''u'', sh_S = None, sh_HasRealConfig = False\<rparr>, [\<lparr>se_Slave = 1, se_Name = ''u''\<rparr>])"
    by (simp add: shared_new_def shared_DoConsume_def config_defs)
  from shared_resolves [OF this, where run = "\<lambda>n. Fails (HttpError n)"] show ?thesis by (simp add: shared_Slave_def)
qed

lemma dump_Send_pair: "dump_Send send lst (err, ou) = (case send lst ou of (r, o2) \<Rightarrow> (r, (err @ bytes_of lst, o2)))"
  by (simp add: dump_Send_def)

lemma run_dumped:
  assumes out: "io_output send sent"
    and "run_prog (dump_Recv recv) (dump_Send send) p i (err, ou) = (r, i', (err', ou'))"
  shows "run_prog recv send p i ou = (r, i', ou') \<and> (\<exists>d. err' = err @ d \<and> sent ou' = sent ou @ d)"
  using assms(2)
proof (induction p arbitrary: i err ou)
  case (RecvP k h)
  show ?case
  proof (cases "recv i")
    case (Pair x i2)
    show ?thesis
    proof (cases x)
      case (Ret l)
      then show ?thesis using RecvP.IH(1) [of "k l" i2 err ou] RecvP.prems Pair by (simp add: dump_Recv_def)
    next
      case (Throw e)
      then show ?thesis using RecvP.IH(2) [of "h e" i2 err ou] RecvP.prems Pair by (simp add: dump_Recv_def)
    next
      case Crash
      then show ?thesis using RecvP.prems Pair by (simp add: dump_Recv_def)
    qed
  qed
next
  case (SendP l k h)
  obtain o2 where o2: "send l ou = (Ret (), o2)" "sent o2 = sent ou @ bytes_of l" using io_output.send_ok [OF out] by blast
  then have "run_prog (dump_Recv recv) (dump_Send send) k i (err @ bytes_of l, o2) = (r, i', (err', ou'))" using SendP.prems by (simp add: dump_Send_pair)
  from SendP.IH(1) [OF this] show ?case using o2 by auto
qed auto

text \<open>
  The debug module with a slave is transparent: the slave ends the same way and leaves the same input and
  output as without it, and what it sends is also written to the standard error, byte for byte.
\<close>

theorem debug_transparent:
  assumes "io_output send sent" and "db_Response m = []" and "db_S m = Some s"
  shows "\<exists>d r i' ou'. debug_DoRun run m recv send i (err, ou) = (if db_Delay m \<noteq> 0 then [db_Delay m] else [], r, i', (err @ d, ou'))
    \<and> run_prog recv send (run s) i ou = (r, i', ou') \<and> sent ou' = sent ou @ d"
proof -
  obtain r i' err' ou' where x: "run_prog (dump_Recv recv) (dump_Send send) (run s) i (err, ou) = (r, i', (err', ou'))" by (metis prod_cases3)
  show ?thesis using run_dumped [OF assms(1) x] x assms(2,3) by (auto simp: debug_DoRun_def)
qed

theorem debug_transparent_witness:
  "\<exists>d r i' ou'. debug_DoRun (\<lambda>s. s) \<lparr>db_Response = [], db_Delay = 0, db_S = Some (SendP [''ab''] Done Fails)\<rparr> (null_Recv :: unit recv) std_Send () ([], ''x'')
    = ([], r, i', (d, ou')) \<and> ou' = ''x'' @ d"
  using debug_transparent [OF std.io_output_axioms, of "\<lparr>db_Response = [], db_Delay = 0, db_S = Some (SendP [''ab''] Done Fails)\<rparr>" _ "\<lambda>s. s"
      "null_Recv :: unit recv" "()" "[]" "''x''"] by auto

text \<open>
  The errorlog module ends as its slave does, with the same input, output and exception; an exception,
  and nothing else, adds exactly one line to the log.
\<close>

theorem errorlog_transparent:
  assumes "errorlog_new openLog loader c = Ret m"
  shows "\<exists>s. eg_Module m = Some s
    \<and> fst (errorlog_DoRun message run m host recv send i ou written) = run_prog recv send (run s) i ou
    \<and> snd (errorlog_DoRun message run m host recv send i ou written)
      = written @ (case fst (run_prog recv send (run s) i ou) of Throw e \<Rightarrow> log_line message (eg_Tag m) host e | _ \<Rightarrow> [])"
proof -
  obtain s where s: "eg_Module m = Some s" using assms by (auto simp: errorlog_new_def obind_Ret_iff split: if_splits)
  obtain r i' ou' where x: "run_prog recv send (run s) i ou = (r, i', ou')" by (metis prod_cases3)
  show ?thesis using s x by (auto simp: errorlog_DoRun_def split: outcome.splits)
qed

theorem errorlog_transparent_witness:
  "\<exists>s. eg_Module \<lparr>eg_Module = Some 1, eg_Tag = ''t'', eg_Log = None\<rparr> = Some s
    \<and> snd (errorlog_DoRun (\<lambda>_. ''failed'') (\<lambda>n. Fails (HttpError n)) \<lparr>eg_Module = Some 1, eg_Tag = ''t'', eg_Log = None\<rparr> ''h'' (null_Recv :: unit recv) std_Send () [] [])
      = ''t(h) failed'' @ [CHR 0x0A]"
proof -
  have "errorlog_new Ret demo_loader [(''tag'', CfgStr ''t''), (''one'', CfgTable [])] = Ret \<lparr>eg_Module = Some 1, eg_Tag = ''t'', eg_Log = None\<rparr>"
    by (simp add: errorlog_new_def errorlog_DoConsume_def config_defs)
  from errorlog_transparent [OF this, where run = "\<lambda>n. Fails (HttpError n)" and message = "\<lambda>_. ''failed''" and host = "''h''" and written = "[]"
      and recv = "null_Recv :: unit recv" and send = std_Send and i = "()" and ou = "[]"]
  show ?thesis by (simp add: log_line_def)
qed

lemma debug_stats_crash:
  "\<exists>m. debug_new (\<lambda>_. Ret 0) demo_loader [(''response'', CfgStr ''ok'')] = Ret m \<and> debug_DoStats stats m = Crash"
  by (simp add: debug_new_def debug_DoConsume_def debug_DoStats_def config_defs)

end
