(* ===== verification/Headersmod.thy ===== *)
theory Headersmod
  imports Dispatch Numcast
begin

text \<open>
  The headers module (web/httpd/modules/headers/module.cpp), which replaces headers of a request by generated
  ones, with the buffer they are written to (web/httpd/kernel/bufalloc.h).

  The value of a generated header is a view into a buffer on the stack of \<open>DoRun\<close>, so the model keeps the
  buffer: its bytes, whatever they were before, and the position of the next allocation. A write outside of
  the buffer is a crash. A hash table is a list in the order of its iteration, which \<open>arrange\<close> determines after
  an insertion. The text of the client's address, the time and the random number are arguments.
\<close>

section \<open>The buffer\<close>

definition HOSTLENBUF :: nat where "HOSTLENBUF = 256"
definition UI64LEN :: nat where "UI64LEN = 20"
definition REALIPLEN :: nat where "REALIPLEN = HOSTLENBUF"
definition STARTTIMELEN :: nat where "STARTTIMELEN = UI64LEN"
definition REQIDLEN :: nat where "REQIDLEN = 2 * UI64LEN + 1"
definition PORTLEN :: nat where "PORTLEN = UI64LEN"
definition TBuf_size :: nat where "TBuf_size = REALIPLEN + STARTTIMELEN + REQIDLEN + PORTLEN"

lemmas buf_sizes = HOSTLENBUF_def UI64LEN_def REALIPLEN_def STARTTIMELEN_def REQIDLEN_def PORTLEN_def TBuf_size_def

record tbuf =
  tb_Buf :: bytes
  tb_Cur :: nat

definition tbuf_new :: "bytes \<Rightarrow> tbuf" where
  "tbuf_new mem = \<lparr>tb_Buf = mem, tb_Cur = 0\<rparr>"

definition tb_Alloc :: "nat \<Rightarrow> tbuf \<Rightarrow> nat \<times> tbuf" where
  "tb_Alloc len b = (tb_Cur b, b\<lparr>tb_Cur := tb_Cur b + len\<rparr>)"

text \<open>Copying bytes to an address inside or outside of the buffer.\<close>

definition tb_put :: "nat \<Rightarrow> bytes \<Rightarrow> tbuf \<Rightarrow> tbuf outcome" where
  "tb_put off s b =
     (if off + length s \<le> length (tb_Buf b) then Ret (b\<lparr>tb_Buf := take off (tb_Buf b) @ s @ drop (off + length s) (tb_Buf b)\<rparr>)
      else Crash)"

text \<open>\<open>TMemoryOutput\<close> over a part of it.\<close>

record memory_output =
  mo_Buf :: nat
  mo_End :: nat

definition memory_output_new :: "nat \<Rightarrow> nat \<Rightarrow> memory_output" where
  "memory_output_new buf len = \<lparr>mo_Buf = buf, mo_End = buf + len\<rparr>"

definition mo_DoWrite :: "bytes \<Rightarrow> memory_output \<times> tbuf \<Rightarrow> (memory_output \<times> tbuf) outcome" where
  "mo_DoWrite s st =
     (case st of (out, b) \<Rightarrow>
        let e = mo_Buf out + length s in
        if e > mo_End out then Throw Yexception
        else obind (tb_put (mo_Buf out) s b) (\<lambda>b. Ret (out\<lparr>mo_Buf := e\<rparr>, b)))"

section \<open>The generators\<close>

text \<open>A view is the position of its first byte and of the byte behind its last one.\<close>

type_synonym view = "nat \<times> nat"

definition view_bytes :: "tbuf \<Rightarrow> view \<Rightarrow> bytes" where
  "view_bytes b v = take (snd v - fst v) (drop (fst v) (tb_Buf b))"

record gen_params =
  gp_RemoteAddr :: bytes
  gp_Start :: ui64
  gp_Random :: ui64

datatype hdr_gen = RealIpGen | StartTimeGen | ReqIdGen

fun Gen :: "gen_params \<Rightarrow> hdr_gen \<Rightarrow> tbuf \<Rightarrow> (view \<times> tbuf) outcome" where
  "Gen p RealIpGen b =
     (let (buf, b) = tb_Alloc REALIPLEN b in
      obind (mo_DoWrite (gp_RemoteAddr p) (memory_output_new buf REALIPLEN, b)) (\<lambda>(out, b). Ret ((buf, mo_Buf out), b)))"
| "Gen p StartTimeGen b =
     (let (buf, b) = tb_Alloc STARTTIMELEN b in
      obind (Format_unsigned 10 (gp_Start p) STARTTIMELEN) (\<lambda>s. obind (tb_put buf s b) (\<lambda>b. Ret ((buf, buf + length s), b))))"
| "Gen p ReqIdGen b =
     (let (buf, b) = tb_Alloc REQIDLEN b in
      obind (Format_unsigned 10 (gp_Start p) 256) (\<lambda>s.
      obind (mo_DoWrite s (memory_output_new buf REQIDLEN, b)) (\<lambda>st.
      obind (mo_DoWrite ''-'' st) (\<lambda>st.
      obind (Format_unsigned 10 (gp_Random p) 256) (\<lambda>r.
      obind (mo_DoWrite r st) (\<lambda>(out, b). Ret ((buf, mo_Buf out), b)))))))"

section \<open>The module\<close>

record 'm headers_mod =
  hm_Generators :: "(string \<times> bytes \<times> hdr_gen) list"
  hm_Fsm :: fsm_list
  hm_KeepRealIpFsm :: fsm_list
  hm_KeepRealIpGen :: "(bytes \<times> hdr_gen) option"
  hm_KeepRealIp :: bool
  hm_AddReqidToCGI :: ui32
  hm_Module :: "'m option"

definition header_regex :: "bytes \<Rightarrow> regex" where
  "header_regex hdr = \<lparr>re_text = hdr, re_CaseInsensitive = True, re_Surround = False\<rparr>"

text \<open>\<open>Add\<close>; \<open>compile\<close> and \<open>glue\<close> say whether the library can build the automata.\<close>

type_synonym gens = "(string \<times> bytes \<times> hdr_gen) list"

definition gens_set :: "(gens \<Rightarrow> gens) \<Rightarrow> string \<Rightarrow> bytes \<times> hdr_gen \<Rightarrow> gens \<Rightarrow> gens" where
  "gens_set arrange key g gs =
     (if key \<in> fst ` set gs then map (\<lambda>(k, x). if k = key then (k, g) else (k, x)) gs else arrange ((key, g) # gs))"

definition headers_Add ::
  "(regex \<Rightarrow> bool) \<Rightarrow> (fsm_list \<Rightarrow> bool) \<Rightarrow> (gens \<Rightarrow> gens) \<Rightarrow> string \<Rightarrow> bytes \<Rightarrow> hdr_gen \<Rightarrow> 'm headers_mod \<Rightarrow> 'm headers_mod outcome" where
  "headers_Add compile glue arrange key hdr gen m =
     (let fsm = header_regex hdr; fsms = (if hm_Generators m = [] then [fsm] else hm_Fsm m @ [fsm]) in
      if \<not> compile fsm \<or> (hm_Generators m \<noteq> [] \<and> \<not> glue fsms) then Throw Yexception
      else Ret (m\<lparr>hm_Fsm := fsms, hm_Generators := gens_set arrange key (hdr, gen) (hm_Generators m)\<rparr>))"

definition headers_DoConsume ::
  "(regex \<Rightarrow> bool) \<Rightarrow> (fsm_list \<Rightarrow> bool) \<Rightarrow> (gens \<Rightarrow> gens) \<Rightarrow> (string \<Rightarrow> ui32 outcome) \<Rightarrow> 'm factory
   \<Rightarrow> string \<Rightarrow> cfg_value \<Rightarrow> 'm headers_mod \<Rightarrow> 'm headers_mod outcome" where
  "headers_DoConsume compile glue arrange fromUi32 loader key v m =
     (if key = ''realip'' then obind (AsString v) (\<lambda>hdr. headers_Add compile glue arrange key hdr RealIpGen m)
      else if key = ''keep_realip'' then
        obind (AsString v) (\<lambda>hdr.
          if compile (header_regex hdr)
          then Ret (m\<lparr>hm_KeepRealIpFsm := [header_regex hdr], hm_KeepRealIpGen := Some (hdr, RealIpGen), hm_KeepRealIp := True\<rparr>)
          else Throw Yexception)
      else if key = ''reqid'' then obind (AsString v) (\<lambda>hdr. headers_Add compile glue arrange key hdr ReqIdGen m)
      else if key = ''start'' then obind (AsString v) (\<lambda>hdr. headers_Add compile glue arrange key hdr StartTimeGen m)
      else ON_KEY ''add_reqid_to_cgi'' fromUi32 (\<lambda>x m. m\<lparr>hm_AddReqidToCGI := x\<rparr>) key v m
        (obind (AsSubConfig v) (\<lambda>sub. obind (MustLoad loader key sub) (\<lambda>s. Ret (m\<lparr>hm_Module := Some s\<rparr>)))))"

definition headers_empty :: "'m headers_mod" where
  "headers_empty = \<lparr>hm_Generators = [], hm_Fsm = [], hm_KeepRealIpFsm = [], hm_KeepRealIpGen = None, hm_KeepRealIp = False,
     hm_AddReqidToCGI = 0, hm_Module = None\<rparr>"

definition headers_new ::
  "(regex \<Rightarrow> bool) \<Rightarrow> (fsm_list \<Rightarrow> bool) \<Rightarrow> (gens \<Rightarrow> gens) \<Rightarrow> (string \<Rightarrow> ui32 outcome) \<Rightarrow> 'm factory \<Rightarrow> cfg \<Rightarrow> 'm headers_mod outcome" where
  "headers_new compile glue arrange fromUi32 loader c =
     obind (ForEach (headers_DoConsume compile glue arrange fromUi32 loader) c headers_empty)
       (\<lambda>m. if hm_Module m = None then Throw ConfigParseError
            else if hm_Generators m = [] then Throw ConfigParseError
            else Ret m)"

section \<open>The run\<close>

text \<open>The state of \<open>DoRun\<close>: the request, the buffer and the views given out with the text they held.\<close>

record run_state =
  rs_Request :: request
  rs_Buf :: tbuf
  rs_Views :: "(view \<times> bytes) list"

definition add_generated :: "gen_params \<Rightarrow> bytes \<times> hdr_gen \<Rightarrow> run_state \<Rightarrow> run_state outcome" where
  "add_generated p gen st =
     obind (Gen p (snd gen) (rs_Buf st)) (\<lambda>(v, b).
       Ret (st\<lparr>rs_Request := AddHeader (fst gen) (view_bytes b v) (rs_Request st), rs_Buf := b, rs_Views := rs_Views st @ [(v, view_bytes b v)]\<rparr>))"

definition keep_realip :: "(regex \<Rightarrow> bytes \<Rightarrow> bool) \<Rightarrow> gen_params \<Rightarrow> 'm headers_mod \<Rightarrow> run_state \<Rightarrow> run_state outcome" where
  "keep_realip accepts p m st =
     (if hm_KeepRealIp m \<and> \<not> list_ex (\<lambda>h. match_final accepts (hm_KeepRealIpFsm m) (h_Key h)) (r_Headers (rs_Request st))
      then (case hm_KeepRealIpGen m of Some g \<Rightarrow> add_generated p g st | None \<Rightarrow> Crash)
      else Ret st)"

text \<open>\<open>THdrDel\<close>: \<open>ForEachHeader\<close> deletes the headers whose key the automaton accepts.\<close>

definition erase_headers :: "(regex \<Rightarrow> bytes \<Rightarrow> bool) \<Rightarrow> fsm_list \<Rightarrow> request \<Rightarrow> request" where
  "erase_headers accepts fsm req = req\<lparr>r_Headers := filter (\<lambda>h. \<not> match_final accepts fsm (h_Key h)) (r_Headers req)\<rparr>"

definition apply_step :: "gen_params \<Rightarrow> bool \<Rightarrow> string \<times> bytes \<times> hdr_gen \<Rightarrow> run_state \<times> chunk option \<Rightarrow> (run_state \<times> chunk option) outcome" where
  "apply_step p cgi it st =
     obind (add_generated p (snd it) (fst st)) (\<lambda>st'.
       Ret (st', if cgi \<and> fst it = ''reqid'' then Some (snd (last (rs_Views st'))) else snd st))"

definition apply_generators :: "gen_params \<Rightarrow> 'm headers_mod \<Rightarrow> run_state \<Rightarrow> (run_state \<times> chunk option) outcome" where
  "apply_generators p m st0 = ofold (apply_step p (hm_AddReqidToCGI m \<noteq> 0)) (hm_Generators m) (st0, None)"

text \<open>The CGI parameter. The length is a \<open>size_t\<close>, so the subtraction wraps around.\<close>

definition fix_cgi :: "chunk \<Rightarrow> request \<Rightarrow> request outcome" where
  "fix_cgi reqid orig =
     (let req = CopyTo (r_Request orig) [] in
      obind (Split 4 req) (\<lambda>(method, req).
      obind (Split (unat (of_nat (FullLength req) - 9 :: ui64)) req) (\<lambda>(req, proto).
        let req = Push reqid (Push ''&reqid='' req);
            fullReq = CopyTo proto (CopyTo req (CopyTo method []));
            (fixedReq, _) = request_take fullReq in
        Ret (foldl (\<lambda>r it. let (i, r1) = NewHeader r; h = r_Headers r1 ! i in
               r1\<lparr>r_Headers := (r_Headers r1)[i := h\<lparr>h_Key := CopyTo (h_Key it) (h_Key h), h_Value := CopyTo (h_Value it) (h_Value h)\<rparr>]\<rparr>)
               fixedReq (r_Headers orig)))))"

text \<open>\<open>DoRun\<close>: the state after it, and the request the slave is given.\<close>

definition headers_DoRun ::
  "(regex \<Rightarrow> bytes \<Rightarrow> bool) \<Rightarrow> gen_params \<Rightarrow> bytes \<Rightarrow> 'm headers_mod \<Rightarrow> request \<Rightarrow> (run_state \<times> request) outcome" where
  "headers_DoRun accepts p mem m req =
     obind (keep_realip accepts p m \<lparr>rs_Request = req, rs_Buf = tbuf_new mem, rs_Views = []\<rparr>) (\<lambda>st.
     obind (apply_generators p m (st\<lparr>rs_Request := erase_headers accepts (hm_Fsm m) (rs_Request st)\<rparr>)) (\<lambda>(st, reqidPtr).
       case reqidPtr of
         Some reqid \<Rightarrow> if hm_AddReqidToCGI m \<noteq> 0 then obind (fix_cgi reqid (rs_Request st)) (\<lambda>r. Ret (st, r)) else Ret (st, rs_Request st)
       | None \<Rightarrow> Ret (st, rs_Request st)))"

section \<open>What the generators write\<close>

definition ui64_text :: "ui64 \<Rightarrow> bytes" where
  "ui64_text x = map ((!) IntToChar) (rev (digits 10 (unat x)))"

fun gen_text :: "gen_params \<Rightarrow> hdr_gen \<Rightarrow> bytes" where
  "gen_text p RealIpGen = gp_RemoteAddr p"
| "gen_text p StartTimeGen = ui64_text (gp_Start p)"
| "gen_text p ReqIdGen = ui64_text (gp_Start p) @ ''-'' @ ui64_text (gp_Random p)"

fun gen_size :: "hdr_gen \<Rightarrow> nat" where
  "gen_size RealIpGen = REALIPLEN"
| "gen_size StartTimeGen = STARTTIMELEN"
| "gen_size ReqIdGen = REQIDLEN"

lemma decimal_digits_length: "n < 10 ^ Suc k \<Longrightarrow> length (digits 10 n) \<le> Suc k"
proof (induction k arbitrary: n)
  case 0
  then show ?case by (simp add: digits_small)
next
  case (Suc k)
  show ?case
  proof (cases "n < 10")
    case False
    have "n div 10 < 10 ^ Suc k" using Suc.prems by (simp add: div_less_iff_less_mult)
    then show ?thesis using Suc.IH [of "n div 10"] False by (simp add: digits_step)
  qed (simp add: digits_small)
qed

lemma ui64_text_length: "length (ui64_text x) \<le> 20"
proof -
  have "unat x < 10 ^ Suc 19" using unsigned_less [of x, where ?'a = nat] by simp
  from decimal_digits_length [OF this] show ?thesis by (simp add: ui64_text_def)
qed

lemma Format_ui64: "20 \<le> len \<Longrightarrow> Format_unsigned 10 (x :: ui64) len = Ret (ui64_text x)"
  using ui64_text_length [of x] Format_unsigned_spec [of 10 x len] by (simp add: ui64_text_def)

lemma mo_DoWrite_ok:
  assumes "mo_Buf out + length s \<le> mo_End out" and "mo_End out \<le> length (tb_Buf b)"
  shows "mo_DoWrite s (out, b) = Ret (out\<lparr>mo_Buf := mo_Buf out + length s\<rparr>,
     b\<lparr>tb_Buf := take (mo_Buf out) (tb_Buf b) @ s @ drop (mo_Buf out + length s) (tb_Buf b)\<rparr>)"
  using assms by (simp add: mo_DoWrite_def tb_put_def Let_def)

lemma gen_text_length: "length (gp_RemoteAddr p) \<le> REALIPLEN \<Longrightarrow> length (gen_text p g) \<le> gen_size g"
  using ui64_text_length [of "gp_Start p"] ui64_text_length [of "gp_Random p"] by (cases g) (auto simp: buf_sizes)

text \<open>A generator with room for its allocation writes its text at the beginning of it and nothing else.\<close>

lemma Gen_ok:
  assumes "length (gp_RemoteAddr p) \<le> REALIPLEN" and "tb_Cur b + gen_size g \<le> length (tb_Buf b)"
  shows "Gen p g b = Ret ((tb_Cur b, tb_Cur b + length (gen_text p g)),
    \<lparr>tb_Buf = take (tb_Cur b) (tb_Buf b) @ gen_text p g @ drop (tb_Cur b + length (gen_text p g)) (tb_Buf b), tb_Cur = tb_Cur b + gen_size g\<rparr>)"
proof (cases g)
  case RealIpGen
  then show ?thesis using assms by (simp add: tb_Alloc_def memory_output_new_def mo_DoWrite_ok)
next
  case StartTimeGen
  then show ?thesis using assms gen_text_length [OF assms(1), of g]
    by (simp add: tb_Alloc_def Format_ui64 STARTTIMELEN_def UI64LEN_def tb_put_def)
next
  case ReqIdGen
  then show ?thesis using assms gen_text_length [OF assms(1), of g]
    by (simp add: tb_Alloc_def Format_ui64 memory_output_new_def mo_DoWrite_ok add.commute add.left_commute)
qed

text \<open>The views into the buffer still hold what they held when they were given out.\<close>

definition views_ok :: "run_state \<Rightarrow> bool" where
  "views_ok st \<longleftrightarrow> (\<forall>(v, s)\<in>set (rs_Views st). fst v \<le> snd v \<and> snd v \<le> tb_Cur (rs_Buf st) \<and> view_bytes (rs_Buf st) v = s)"

lemma AddHeader_append: "AddHeader k v req = req\<lparr>r_Headers := r_Headers req @ [\<lparr>h_Key = [k], h_Value = [v]\<rparr>]\<rparr>"
  by (simp add: AddHeader_def AddHeader_key_def NewHeader_def header_new_def Push_def Let_def)

lemma add_generated_ok:
  assumes "length (gp_RemoteAddr p) \<le> REALIPLEN" and room: "tb_Cur (rs_Buf st) + gen_size g \<le> length (tb_Buf (rs_Buf st))" and "views_ok st"
  shows "\<exists>st' v. add_generated p (hdr, g) st = Ret st' \<and> rs_Views st' = rs_Views st @ [(v, gen_text p g)] \<and> views_ok st'
    \<and> rs_Request st' = (rs_Request st)\<lparr>r_Headers := r_Headers (rs_Request st) @ [\<lparr>h_Key = [hdr], h_Value = [gen_text p g]\<rparr>]\<rparr>
    \<and> tb_Cur (rs_Buf st') = tb_Cur (rs_Buf st) + gen_size g \<and> length (tb_Buf (rs_Buf st')) = length (tb_Buf (rs_Buf st))"
proof -
  let ?b = "rs_Buf st" and ?t = "gen_text p g"
  define v where "v = (tb_Cur ?b, tb_Cur ?b + length ?t)"
  define b' where "b' = \<lparr>tb_Buf = take (tb_Cur ?b) (tb_Buf ?b) @ ?t @ drop (tb_Cur ?b + length ?t) (tb_Buf ?b), tb_Cur = tb_Cur ?b + gen_size g\<rparr>"
  note len = gen_text_length [OF assms(1), of g]
  have vb: "view_bytes b' v = ?t" using room by (simp add: view_bytes_def v_def b'_def)
  have "view_bytes b' w = view_bytes ?b w" if "fst w \<le> snd w" "snd w \<le> tb_Cur ?b" for w
    using that room by (simp add: view_bytes_def b'_def drop_take [symmetric] take_drop)
  then have "views_ok (st\<lparr>rs_Request := r, rs_Buf := b', rs_Views := rs_Views st @ [(v, ?t)]\<rparr>)" for r
    using assms(3) vb len by (auto simp: views_ok_def v_def b'_def)
  then show ?thesis
    using len room vb by (simp add: add_generated_def Gen_ok [OF assms(1) room] v_def b'_def AddHeader_append)
qed

lemma apply_generators_ok:
  assumes "length (gp_RemoteAddr p) \<le> REALIPLEN" and "tb_Cur (rs_Buf st) + (\<Sum>(k, h, g)\<leftarrow>gs. gen_size g) \<le> length (tb_Buf (rs_Buf st))"
    and "views_ok st" and "\<forall>(k, h, g)\<in>set gs. k = ''reqid'' \<longrightarrow> g = ReqIdGen"
  shows "\<exists>st'. ofold (apply_step p cgi) gs (st, ptr)
      = Ret (st', if cgi \<and> ''reqid'' \<in> fst ` set gs then Some (gen_text p ReqIdGen) else ptr) \<and> views_ok st'
    \<and> rs_Request st' = (rs_Request st)\<lparr>r_Headers := r_Headers (rs_Request st) @ map (\<lambda>(k, h, g). \<lparr>h_Key = [h], h_Value = [gen_text p g]\<rparr>) gs\<rparr>"
  using assms(2-)
proof (induction gs arbitrary: st ptr)
  case (Cons x gs)
  obtain k h g where x: "x = (k, h, g)" by (cases x) auto
  have "tb_Cur (rs_Buf st) + gen_size g \<le> length (tb_Buf (rs_Buf st))" using Cons.prems(1) x by simp
  from add_generated_ok [OF assms(1) this Cons.prems(2), of h] obtain st1 v where st1: "add_generated p (h, g) st = Ret st1"
      "rs_Views st1 = rs_Views st @ [(v, gen_text p g)]" "views_ok st1"
      "rs_Request st1 = (rs_Request st)\<lparr>r_Headers := r_Headers (rs_Request st) @ [\<lparr>h_Key = [h], h_Value = [gen_text p g]\<rparr>]\<rparr>"
      "tb_Cur (rs_Buf st1) = tb_Cur (rs_Buf st) + gen_size g" "length (tb_Buf (rs_Buf st1)) = length (tb_Buf (rs_Buf st))" by blast
  define ptr1 where "ptr1 = (if cgi \<and> k = ''reqid'' then Some (gen_text p g) else ptr)"
  have step: "apply_step p cgi x (st, ptr) = Ret (st1, ptr1)" by (simp add: apply_step_def x st1 ptr1_def)
  have "tb_Cur (rs_Buf st1) + (\<Sum>(k, h, g)\<leftarrow>gs. gen_size g) \<le> length (tb_Buf (rs_Buf st1))" using Cons.prems(1) x st1 by simp
  from Cons.IH [OF this st1(3), of ptr1] Cons.prems(3) obtain st' where st':
      "ofold (apply_step p cgi) gs (st1, ptr1) = Ret (st', if cgi \<and> ''reqid'' \<in> fst ` set gs then Some (gen_text p ReqIdGen) else ptr1)" "views_ok st'"
      "rs_Request st' = (rs_Request st1)\<lparr>r_Headers := r_Headers (rs_Request st1) @ map (\<lambda>(k, h, g). \<lparr>h_Key = [h], h_Value = [gen_text p g]\<rparr>) gs\<rparr>" by auto
  moreover have "(if cgi \<and> ''reqid'' \<in> fst ` set gs then Some (gen_text p ReqIdGen) else ptr1)
      = (if cgi \<and> ''reqid'' \<in> fst ` set (x # gs) then Some (gen_text p ReqIdGen) else ptr)"
    using Cons.prems(3) x by (auto simp: ptr1_def)
  ultimately show ?case using st1(4) step x by (intro exI [of _ st']) simp
qed (cases st, auto)

definition gens_ok :: "gens \<Rightarrow> bool" where
  "gens_ok gs \<longleftrightarrow> distinct (map fst gs) \<and> (\<forall>(k, h, g)\<in>set gs. (k, g) \<in> {(''realip'', RealIpGen), (''reqid'', ReqIdGen), (''start'', StartTimeGen)})"

lemma gens_total:
  assumes "gens_ok gs"
  shows "(\<Sum>(k, h, g)\<leftarrow>gs. gen_size g) \<le> (if ''realip'' \<in> fst ` set gs then REALIPLEN else 0) + REQIDLEN + STARTTIMELEN"
proof -
  let ?f = "\<lambda>k. if k = ''realip'' then REALIPLEN else if k = ''reqid'' then REQIDLEN else STARTTIMELEN"
  have "(\<Sum>(k, h, g)\<leftarrow>gs. gen_size g) = (\<Sum>k\<leftarrow>map fst gs. ?f k)"
    using assms unfolding gens_ok_def by (simp add: comp_def) (intro arg_cong [where f = sum_list] map_cong refl, auto)
  also have "\<dots> = sum ?f (set (map fst gs))" using assms unfolding gens_ok_def by (intro sum_list_distinct_conv_sum_set) blast
  also have "\<dots> = sum ?f (fst ` set gs)" by simp
  also have "\<dots> \<le> sum ?f ((if ''realip'' \<in> fst ` set gs then {''realip''} else {}) \<union> {''reqid'', ''start''})"
  proof (rule sum_mono2)
    show "fst ` set gs \<subseteq> (if ''realip'' \<in> fst ` set gs then {''realip''} else {}) \<union> {''reqid'', ''start''}"
    proof
      fix k assume k: "k \<in> fst ` set gs"
      then show "k \<in> (if ''realip'' \<in> fst ` set gs then {''realip''} else {}) \<union> {''reqid'', ''start''}"
        using assms unfolding gens_ok_def by (cases "k = ''realip''") (simp, force)
    qed
  qed simp_all
  also have "\<dots> = (if ''realip'' \<in> fst ` set gs then REALIPLEN else 0) + REQIDLEN + STARTTIMELEN" by simp
  finally show ?thesis .
qed

definition headers_inv :: "'m headers_mod \<Rightarrow> bool" where
  "headers_inv m \<longleftrightarrow> gens_ok (hm_Generators m) \<and> (\<forall>(k, h, g)\<in>set (hm_Generators m). header_regex h \<in> set (hm_Fsm m))
     \<and> (hm_KeepRealIp m \<longrightarrow> (\<exists>h. hm_KeepRealIpGen m = Some (h, RealIpGen)))"

lemma gens_set_ok:
  assumes "gens_ok gs" and "(k, g) \<in> {(''realip'', RealIpGen), (''reqid'', ReqIdGen), (''start'', StartTimeGen)}" and "\<And>xs. mset (arrange xs) = mset xs"
  shows "gens_ok (gens_set arrange k (h, g) gs)" and "set (gens_set arrange k (h, g) gs) \<subseteq> insert (k, h, g) (set gs)"
proof -
  have s: "set (arrange xs) = set xs" and d: "distinct (map fst (arrange xs)) = distinct (map fst xs)" for xs
    using mset_eq_setD [OF assms(3) [of xs]] mset_eq_imp_distinct_iff [of "map fst (arrange xs)" "map fst xs"] assms(3) [of xs]
    by (simp_all add: mset_map)
  have m: "map fst (map (\<lambda>(k', x). if k' = k then (k', h, g) else (k', x)) gs) = map fst gs" by (auto simp: split_beta)
  show "gens_ok (gens_set arrange k (h, g) gs)"
    using assms(1,2) unfolding gens_ok_def gens_set_def by (simp add: s d m del: map_map) (auto simp: s split: if_splits)
  show "set (gens_set arrange k (h, g) gs) \<subseteq> insert (k, h, g) (set gs)" by (auto simp: gens_set_def s split: if_splits)
qed

lemma headers_inv_updates [simp]:
  "headers_inv (m\<lparr>hm_KeepRealIpFsm := f, hm_KeepRealIpGen := Some (h, RealIpGen), hm_KeepRealIp := True\<rparr>) \<longleftrightarrow> headers_inv (m\<lparr>hm_KeepRealIp := False\<rparr>)"
  "headers_inv (m\<lparr>hm_AddReqidToCGI := n\<rparr>) \<longleftrightarrow> headers_inv m" "headers_inv (m\<lparr>hm_Module := s\<rparr>) \<longleftrightarrow> headers_inv m"
  "headers_inv m \<Longrightarrow> headers_inv (m\<lparr>hm_KeepRealIp := False\<rparr>)"
  by (simp_all add: headers_inv_def)

lemma headers_new_inv:
  assumes "headers_new compile glue arrange fromUi32 loader c = Ret m" and perm: "\<And>xs. mset (arrange xs) = mset xs"
  shows "headers_inv m" and "\<exists>s. hm_Module m = Some s"
proof -
  obtain m0 where m0: "ForEach (headers_DoConsume compile glue arrange fromUi32 loader) c headers_empty = Ret m0" "m = m0" "hm_Module m0 \<noteq> None"
    using assms(1) by (auto simp: headers_new_def obind_Ret_iff split: if_splits)
  then show "\<exists>s. hm_Module m = Some s" by auto
  have "headers_inv m0"
  proof (rule ofold_invariant [OF m0(1) [unfolded ForEach_def]], goal_cases)
    case 1
    then show ?case by (simp add: headers_inv_def headers_empty_def gens_ok_def)
  next
    case (2 x m m')
    have add: "headers_inv m1" if "headers_Add compile glue arrange key h g m = Ret m1"
        "(key, g) \<in> {(''realip'', RealIpGen), (''reqid'', ReqIdGen), (''start'', StartTimeGen)}" for key h g m1
      using that(1) 2(2) gens_set_ok [OF _ that(2) perm, of "hm_Generators m" h]
      by (fastforce simp: headers_Add_def headers_inv_def Let_def split: if_splits)
    show ?case using 2 add
      by (auto simp: headers_DoConsume_def ON_KEY_def obind_Ret_iff split: if_splits prod.splits)
  qed
  then show "headers_inv m" using m0 by simp
qed

text \<open>The request line with the parameter inserted before the last nine bytes.\<close>

lemma fix_cgi_spec:
  assumes "13 \<le> length (bytes_of (r_Request req))" and "length (bytes_of (r_Request req)) < 2 ^ 64"
  shows "\<exists>r. fix_cgi reqid req = Ret r \<and> r_Headers r = r_Headers req
    \<and> (let line = bytes_of (r_Request req); n = length line - 9 in bytes_of (r_Request r) = take n line @ ''&reqid='' @ reqid @ drop n line)"
proof -
  let ?line = "bytes_of (r_Request req)"
  obtain me re where s1: "Split 4 (CopyTo (r_Request req) []) = Ret (me, re)" "bytes_of me = take 4 ?line" "bytes_of re = drop 4 ?line"
    by (rule Split_spec [of 4 "r_Request req"]) auto
  have n: "unat (of_nat (FullLength re) - 9 :: ui64) = length ?line - 13"
    using assms s1(3) by (simp add: FullLength_bytes unat_sub word_le_nat_alt unat_of_nat take_bit_nat_eq_self)
  obtain rq pr where s2: "Split (length ?line - 13) re = Ret (rq, pr)" "bytes_of rq = take (length ?line - 13) (drop 4 ?line)" "bytes_of pr = drop (length ?line - 13) (drop 4 ?line)"
    using s1(3) by (metis Split_spec)
  have t: "take 4 ?line @ take (length ?line - 13) (drop 4 ?line) @ xs = take (length ?line - 9) ?line @ xs" for xs
    using assms(1) take_add [of 4 "length ?line - 13" ?line] by simp
  have d: "drop (length ?line - 13) (drop 4 ?line) = drop (length ?line - 9) ?line" using assms(1) by simp
  have hs: "foldl (\<lambda>r it. let (i, r1) = NewHeader r; h = r_Headers r1 ! i in
               r1\<lparr>r_Headers := (r_Headers r1)[i := h\<lparr>h_Key := CopyTo (h_Key it) (h_Key h), h_Value := CopyTo (h_Value it) (h_Value h)\<rparr>]\<rparr>) r hs
      = r\<lparr>r_Headers := r_Headers r @ hs\<rparr>" for r hs
    by (induction hs arbitrary: r) (simp_all add: NewHeader_def header_new_def)
  show ?thesis
    unfolding fix_cgi_def Let_def s1(1) hs [unfolded Let_def] using s1(2) s2 n t d
    by (simp add: request_take_def request_new_def Push_def)
qed

section \<open>Properties\<close>

text \<open>What the module makes of the headers of a request.\<close>

definition kept_realip :: "(regex \<Rightarrow> bytes \<Rightarrow> bool) \<Rightarrow> gen_params \<Rightarrow> 'm headers_mod \<Rightarrow> request \<Rightarrow> header list" where
  "kept_realip accepts p m req =
     (if hm_KeepRealIp m \<and> \<not> list_ex (\<lambda>h. match_final accepts (hm_KeepRealIpFsm m) (h_Key h)) (r_Headers req)
      then [\<lparr>h_Key = [fst (the (hm_KeepRealIpGen m))], h_Value = [gp_RemoteAddr p]\<rparr>] else [])"

lemma keep_realip_ok:
  assumes inv: "headers_inv m" and len: "length (gp_RemoteAddr p) \<le> REALIPLEN" "length mem = TBuf_size"
  shows "\<exists>st. keep_realip accepts p m \<lparr>rs_Request = req, rs_Buf = tbuf_new mem, rs_Views = []\<rparr> = Ret st \<and> views_ok st
    \<and> length (tb_Buf (rs_Buf st)) = TBuf_size \<and> tb_Cur (rs_Buf st) \<le> (if hm_KeepRealIp m then REALIPLEN else 0)
    \<and> rs_Request st = req\<lparr>r_Headers := r_Headers req @ kept_realip accepts p m req\<rparr>"
proof (cases "hm_KeepRealIp m \<and> \<not> list_ex (\<lambda>h. match_final accepts (hm_KeepRealIpFsm m) (h_Key h)) (r_Headers req)")
  case True
  then obtain h where h: "hm_KeepRealIpGen m = Some (h, RealIpGen)" using inv by (auto simp: headers_inv_def)
  let ?st0 = "\<lparr>rs_Request = req, rs_Buf = tbuf_new mem, rs_Views = []\<rparr>"
  have "tb_Cur (rs_Buf ?st0) + gen_size RealIpGen \<le> length (tb_Buf (rs_Buf ?st0))" "views_ok ?st0"
    using len(2) by (simp_all add: tbuf_new_def buf_sizes views_ok_def)
  from add_generated_ok [OF len(1) this, of h] show ?thesis
    using True h len(2) by (auto simp: keep_realip_def kept_realip_def tbuf_new_def)
next
  case False
  then show ?thesis using len(2) by (auto simp: keep_realip_def kept_realip_def views_ok_def tbuf_new_def)
qed

text \<open>
  C24. Generated headers. Unless both \<open>keep_realip\<close> and \<open>realip\<close> are configured, \<open>DoRun\<close> stays inside its buffer of
  337 bytes whatever the order of the generators, and never throws. Its slave sees the headers of the
  request, with the kept address, less those a configured name matches, followed by one header for each
  generator with exactly the generated text; no generator overwrites the text of another, although all are
  views into one buffer. With \<open>add_reqid_to_cgi\<close> the parameter is inserted before the last nine bytes of the
  request line, and otherwise the line is untouched.
\<close>

theorem headers_generated:
  assumes new: "headers_new compile glue arrange fromUi32 loader c = Ret m" and perm: "\<And>xs. mset (arrange xs) = mset xs"
    and keep: "\<not> (hm_KeepRealIp m \<and> ''realip'' \<in> fst ` set (hm_Generators m))"
    and len: "length (gp_RemoteAddr p) \<le> REALIPLEN" "length mem = TBuf_size"
    and line: "13 \<le> length (bytes_of (r_Request req))" "length (bytes_of (r_Request req)) < 2 ^ 64"
  shows "\<exists>st r. headers_DoRun accepts p mem m req = Ret (st, r) \<and> views_ok st
    \<and> r_Headers r = filter (\<lambda>h. \<not> match_final accepts (hm_Fsm m) (h_Key h)) (r_Headers req @ kept_realip accepts p m req)
        @ map (\<lambda>(k, h, g). \<lparr>h_Key = [h], h_Value = [gen_text p g]\<rparr>) (hm_Generators m)
    \<and> (\<forall>(k, h, g)\<in>set (hm_Generators m). header_regex h \<in> set (hm_Fsm m))
    \<and> (let l = bytes_of (r_Request req); n = length l - 9 in
        bytes_of (r_Request r) = (if hm_AddReqidToCGI m \<noteq> 0 \<and> ''reqid'' \<in> fst ` set (hm_Generators m)
          then take n l @ ''&reqid='' @ gen_text p ReqIdGen @ drop n l else l))"
proof -
  note inv = headers_new_inv(1) [OF new perm]
  let ?st0 = "\<lparr>rs_Request = req, rs_Buf = tbuf_new mem, rs_Views = []\<rparr>" and ?gs = "hm_Generators m"
  obtain st1 where st1: "keep_realip accepts p m ?st0 = Ret st1" "views_ok st1" "length (tb_Buf (rs_Buf st1)) = TBuf_size"
      "tb_Cur (rs_Buf st1) \<le> (if hm_KeepRealIp m then REALIPLEN else 0)"
      "rs_Request st1 = req\<lparr>r_Headers := r_Headers req @ kept_realip accepts p m req\<rparr>"
    using keep_realip_ok [OF inv len] by blast
  let ?st2 = "st1\<lparr>rs_Request := erase_headers accepts (hm_Fsm m) (rs_Request st1)\<rparr>"
  have room: "tb_Cur (rs_Buf ?st2) + (\<Sum>(k, h, g)\<leftarrow>?gs. gen_size g) \<le> length (tb_Buf (rs_Buf ?st2))"
    using gens_total [of ?gs] inv keep st1(3,4) by (auto simp: headers_inv_def buf_sizes split: if_splits)
  have v2: "views_ok ?st2" using st1(2) by (simp add: views_ok_def)
  have rq: "\<forall>(k, h, g)\<in>set ?gs. k = ''reqid'' \<longrightarrow> g = ReqIdGen" using inv by (auto simp: headers_inv_def gens_ok_def)
  obtain st3 where st3: "apply_generators p m ?st2
      = Ret (st3, if hm_AddReqidToCGI m \<noteq> 0 \<and> ''reqid'' \<in> fst ` set ?gs then Some (gen_text p ReqIdGen) else None)" "views_ok st3"
      "rs_Request st3 = (rs_Request ?st2)\<lparr>r_Headers := r_Headers (rs_Request ?st2) @ map (\<lambda>(k, h, g). \<lparr>h_Key = [h], h_Value = [gen_text p g]\<rparr>) ?gs\<rparr>"
    using apply_generators_ok [OF len(1) room v2 rq, of "hm_AddReqidToCGI m \<noteq> 0" None] unfolding apply_generators_def by blast
  have l3: "r_Request (rs_Request st3) = r_Request req" using st3(3) st1(5) by (simp add: erase_headers_def)
  note cgi = fix_cgi_spec [of "rs_Request st3" "gen_text p ReqIdGen", unfolded l3, OF line]
  have hs: "r_Headers (rs_Request st3) = filter (\<lambda>h. \<not> match_final accepts (hm_Fsm m) (h_Key h)) (r_Headers req @ kept_realip accepts p m req)
        @ map (\<lambda>(k, h, g). \<lparr>h_Key = [h], h_Value = [gen_text p g]\<rparr>) ?gs"
    using st3(3) st1(5) by (simp add: erase_headers_def)
  have fsm: "\<forall>(k, h, g)\<in>set ?gs. header_regex h \<in> set (hm_Fsm m)" using inv by (simp add: headers_inv_def)
  show ?thesis
  proof (cases "hm_AddReqidToCGI m \<noteq> 0 \<and> ''reqid'' \<in> fst ` set ?gs")
    case True
    then obtain r where r: "fix_cgi (gen_text p ReqIdGen) (rs_Request st3) = Ret r" "r_Headers r = r_Headers (rs_Request st3)"
        "let line = bytes_of (r_Request req); n = length line - 9 in bytes_of (r_Request r) = take n line @ ''&reqid='' @ gen_text p ReqIdGen @ drop n line"
      using cgi by blast
    have "headers_DoRun accepts p mem m req = Ret (st3, r)" using st1(1) st3(1) r(1) True by (simp add: headers_DoRun_def)
    then show ?thesis using st3(2) hs r fsm True by simp
  next
    case False
    have "headers_DoRun accepts p mem m req = Ret (st3, rs_Request st3)" using st1(1) st3(1) [unfolded if_not_P [OF False]] by (simp add: headers_DoRun_def)
    then show ?thesis unfolding Let_def if_not_P [OF False] using st3(2) hs fsm l3 by auto
  qed
qed

text \<open>A request without an address header passes a module that adds an identifier, also as a parameter.\<close>

definition demo_headers :: "ui16 headers_mod" where
  "demo_headers = headers_empty\<lparr>hm_Generators := [(''reqid'', ''X-Id'', ReqIdGen)], hm_Fsm := [header_regex ''X-Id''], hm_AddReqidToCGI := 1,
     hm_Module := Some 1\<rparr>"

lemma demo_headers_new:
  "headers_new (\<lambda>_. True) (\<lambda>_. True) (\<lambda>xs. xs) (\<lambda>_. Ret 1) demo_loader
     [(''reqid'', CfgStr ''X-Id''), (''add_reqid_to_cgi'', CfgStr ''1''), (''one'', CfgTable [])] = Ret demo_headers"
  by (simp add: headers_new_def headers_DoConsume_def headers_Add_def gens_set_def demo_headers_def headers_empty_def config_defs)

theorem headers_generated_witness:
  "\<exists>st r. headers_DoRun (\<lambda>re t. re_text re = t) \<lparr>gp_RemoteAddr = ''::1'', gp_Start = 7, gp_Random = 12\<rparr> (replicate TBuf_size (CHR ''x'')) demo_headers
      \<lparr>r_Request = [''GET /?a '', ''HTTP/1.1''], r_Headers = [\<lparr>h_Key = [''X-Id''], h_Value = [''old'']\<rparr>]\<rparr> = Ret (st, r)
    \<and> bytes_of (r_Request r) = ''GET /?a&reqid=7-12 HTTP/1.1'' \<and> map (\<lambda>h. bytes_of (h_Value h)) (r_Headers r) = [''7-12'']"
proof -
  have t: "gen_text \<lparr>gp_RemoteAddr = ''::1'', gp_Start = 7, gp_Random = 12\<rparr> ReqIdGen = ''7-12''" by code_simp
  show ?thesis
    using headers_generated [OF demo_headers_new, of "\<lparr>gp_RemoteAddr = ''::1'', gp_Start = 7, gp_Random = 12\<rparr>" "replicate TBuf_size (CHR ''x'')"
        "\<lparr>r_Request = [''GET /?a '', ''HTTP/1.1''], r_Headers = [\<lparr>h_Key = [''X-Id''], h_Value = [''old'']\<rparr>]\<rparr>" "\<lambda>re t. re_text re = t"]
    by (fastforce simp: demo_headers_def headers_empty_def kept_realip_def match_final_iff header_regex_def t buf_sizes Let_def simp del: gen_text.simps)
qed

definition overflow_headers :: "ui16 headers_mod" where
  "overflow_headers = headers_empty\<lparr>hm_Generators := [(''realip'', ''X-Ip'', RealIpGen), (''start'', ''X-Start'', StartTimeGen)],
     hm_Fsm := [header_regex ''X-Start'', header_regex ''X-Ip''], hm_KeepRealIpFsm := [header_regex ''X-Keep''],
     hm_KeepRealIpGen := Some (''X-Keep'', RealIpGen), hm_KeepRealIp := True, hm_Module := Some 1\<rparr>"

text \<open>
  With both \<open>keep_realip\<close> and \<open>realip\<close> configured the buffer is too small: for a request without the
  kept header, and the order in which \<open>realip\<close> comes before \<open>start\<close>, the time is written behind its end.
\<close>

theorem headers_buffer_overflow:
  "headers_new (\<lambda>_. True) (\<lambda>_. True) (\<lambda>xs. xs) (\<lambda>_. Ret 1) demo_loader
     [(''start'', CfgStr ''X-Start''), (''realip'', CfgStr ''X-Ip''), (''keep_realip'', CfgStr ''X-Keep''), (''one'', CfgTable [])] = Ret overflow_headers
   \<and> headers_DoRun (\<lambda>re t. re_text re = t) \<lparr>gp_RemoteAddr = ''10.0.0.1'', gp_Start = start, gp_Random = rnd\<rparr> (replicate TBuf_size (CHR ''x'')) overflow_headers
       \<lparr>r_Request = [''GET / HTTP/1.1''], r_Headers = []\<rparr> = Crash"
proof -
  have f: "Format_unsigned 10 start 20 = Ret (ui64_text start)" by (simp add: Format_ui64)
  show ?thesis
    by (simp add: headers_new_def headers_DoConsume_def headers_Add_def gens_set_def overflow_headers_def headers_empty_def config_defs
        headers_DoRun_def keep_realip_def add_generated_def tb_Alloc_def tbuf_new_def memory_output_new_def mo_DoWrite_def tb_put_def buf_sizes
        apply_generators_def apply_step_def f)
qed

end
