(* ===== verification/Mainloop.thy ===== *)
theory Mainloop
  imports Backends
begin

text \<open>
  The main task of the server (web/httpd/kernel/main.cpp): its configuration, the listener, the table of the
  connections with the limit on their number, and the shutdown.

  A connection is a number. \<open>mt_Sockets\<close> has the connections whose coroutine has not ended, and whether the
  socket is still open; \<open>mt_Connections\<close> is the intrusive list \<open>Connections_\<close>, in which an element is at most once,
  because pushing it takes it out first. What the coroutines do appears as events: a connection is accepted,
  a send of it returns, its coroutine ends, and a module calls \<open>StopListener\<close> and \<open>StartListener\<close> (the pinger) or
  \<open>ShutDown\<close> (the admin module). A send may also return on a connection that has been cancelled:
  \<open>Cancel\<close> only closes the socket, and \<open>TSocketOut\<close> queues what fits without touching it.
\<close>

section \<open>State\<close>

datatype net_addr = PortAddr ui16 | HostAddr string ui16

record listener =
  ls_Bound :: "net_addr list"
  ls_Listening :: bool

record 'm main_task =
  mt_Logs :: "string list"
  mt_ListenAddrs :: "net_addr list"
  mt_MaxConnections :: ui64
  mt_Canceled :: ui64
  mt_DeferAccept :: bool
  mt_Log :: string
  mt_Module :: "'m option"
  mt_Listener :: "listener option"
  mt_Connections :: "nat list"
  mt_Sockets :: "nat \<rightharpoonup> bool"

section \<open>Configuration\<close>

record addr_cfg =
  ac_Host :: string
  ac_Port :: ui16

definition addr_DoConsume :: "(string \<Rightarrow> ui16 outcome) \<Rightarrow> string \<Rightarrow> cfg_value \<Rightarrow> addr_cfg \<Rightarrow> addr_cfg outcome" where
  "addr_DoConsume fromPort key v a =
     ON_KEY ''ip'' Ret (\<lambda>x a. a\<lparr>ac_Host := x\<rparr>) key v a
      (ON_KEY ''port'' fromPort (\<lambda>x a. a\<lparr>ac_Port := x\<rparr>) key v a (Throw ConfigParseError))"

definition addr_new :: "(string \<Rightarrow> ui16 outcome) \<Rightarrow> cfg \<Rightarrow> addr_cfg outcome" where
  "addr_new fromPort c = ForEach (addr_DoConsume fromPort) c \<lparr>ac_Host = [], ac_Port = 80\<rparr>"

text \<open>\<open>TNetworkAddress\<close> resolves the name, which may throw.\<close>

definition ToNetworkAddr :: "(net_addr \<Rightarrow> net_addr outcome) \<Rightarrow> addr_cfg \<Rightarrow> net_addr outcome" where
  "ToNetworkAddr resolve a =
     (if ac_Host a = ''*'' \<or> ac_Host a = [] then resolve (PortAddr (ac_Port a)) else resolve (HostAddr (ac_Host a) (ac_Port a)))"

definition addrs_DoConsume ::
  "(string \<Rightarrow> ui16 outcome) \<Rightarrow> (net_addr \<Rightarrow> net_addr outcome) \<Rightarrow> string \<Rightarrow> cfg_value \<Rightarrow> net_addr list \<Rightarrow> net_addr list outcome" where
  "addrs_DoConsume fromPort resolve key v addrs =
     obind (AsSubConfig v) (\<lambda>sub. obind (addr_new fromPort sub) (\<lambda>a. obind (ToNetworkAddr resolve a) (\<lambda>n. Ret (addrs @ [n]))))"

text \<open>\<open>DoLog\<close>: a log is opened once; opening may throw.\<close>

definition DoLog :: "(string \<Rightarrow> unit outcome) \<Rightarrow> string \<Rightarrow> 'm main_task \<Rightarrow> 'm main_task outcome" where
  "DoLog openLog name s =
     (if name \<in> set (mt_Logs s) then Ret s else obind (openLog name) (\<lambda>_. Ret (s\<lparr>mt_Logs := name # mt_Logs s\<rparr>)))"

record main_env =
  me_fromPort :: "string \<Rightarrow> ui16 outcome"
  me_fromSize :: "string \<Rightarrow> ui64 outcome"
  me_fromBool :: "string \<Rightarrow> bool outcome"
  me_resolve :: "net_addr \<Rightarrow> net_addr outcome"
  me_openLog :: "string \<Rightarrow> unit outcome"
  me_bind :: "net_addr \<Rightarrow> unit outcome"

definition main_DoConsume :: "main_env \<Rightarrow> 'm factory \<Rightarrow> string \<Rightarrow> cfg_value \<Rightarrow> 'm main_task \<Rightarrow> 'm main_task outcome" where
  "main_DoConsume env loader key v s =
     (if key = ''log'' then obind (AsString v) (\<lambda>log. obind (DoLog (me_openLog env) log s) (\<lambda>s. Ret (s\<lparr>mt_Log := log\<rparr>)))
      else if key = ''addrs'' then
        obind (AsSubConfig v) (\<lambda>sub. obind (ForEach (addrs_DoConsume (me_fromPort env) (me_resolve env)) sub (mt_ListenAddrs s))
          (\<lambda>addrs. Ret (s\<lparr>mt_ListenAddrs := addrs\<rparr>)))
      else if key = ''port'' then
        obind (AsString v) (\<lambda>str. obind (me_fromPort env str) (\<lambda>port. obind (me_resolve env (PortAddr port))
          (\<lambda>n. Ret (s\<lparr>mt_ListenAddrs := mt_ListenAddrs s @ [n]\<rparr>))))
      else ON_KEY ''maxconn'' (me_fromSize env) (\<lambda>x s. s\<lparr>mt_MaxConnections := x\<rparr>) key v s
        (ON_KEY ''deferaccept'' (me_fromBool env) (\<lambda>x s. s\<lparr>mt_DeferAccept := x\<rparr>) key v s
          (obind (AsSubConfig v) (\<lambda>sub. obind (MustLoad loader key sub) (\<lambda>m. Ret (s\<lparr>mt_Module := Some m\<rparr>))))))"

section \<open>The listener\<close>

definition DoStopListener :: "'m main_task \<Rightarrow> 'm main_task" where
  "DoStopListener s = s\<lparr>mt_Listener := Some \<lparr>ls_Bound = [], ls_Listening = False\<rparr>\<rparr>"

text \<open>\<open>Listener_->Bind\<close> with no listener dereferences a null pointer.\<close>

definition DoStartListener :: "(net_addr \<Rightarrow> unit outcome) \<Rightarrow> 'm main_task \<Rightarrow> 'm main_task outcome" where
  "DoStartListener bindAddr s =
     (case mt_Listener s of
        None \<Rightarrow> Crash
      | Some l \<Rightarrow> obind (ofold (\<lambda>a l. obind (bindAddr a) (\<lambda>_. Ret (l\<lparr>ls_Bound := ls_Bound l @ [a]\<rparr>))) (mt_ListenAddrs s) l)
          (\<lambda>l. Ret (s\<lparr>mt_Listener := Some (l\<lparr>ls_Listening := True\<rparr>)\<rparr>)))"

definition RestartListener :: "(net_addr \<Rightarrow> unit outcome) \<Rightarrow> 'm main_task \<Rightarrow> 'm main_task outcome" where
  "RestartListener bindAddr s = DoStartListener bindAddr (DoStopListener s)"

definition DoListenerStarted :: "'m main_task \<Rightarrow> bool" where
  "DoListenerStarted s \<longleftrightarrow> mt_Listener s \<noteq> None"

definition main_init :: "'m main_task" where
  "main_init = \<lparr>mt_Logs = [], mt_ListenAddrs = [], mt_MaxConnections = 0, mt_Canceled = 0, mt_DeferAccept = True, mt_Log = [], mt_Module = None,
     mt_Listener = None, mt_Connections = [], mt_Sockets = Map.empty\<rparr>"

definition main_new :: "main_env \<Rightarrow> 'm factory \<Rightarrow> cfg \<Rightarrow> 'm main_task outcome" where
  "main_new env loader c =
     obind (DoLog (me_openLog env) [] main_init) (\<lambda>s.
     obind (ForEach (main_DoConsume env loader) c s) (\<lambda>s.
       if mt_Module s = None then Throw ConfigParseError
       else obind (if mt_ListenAddrs s = [] then obind (me_resolve env (PortAddr 80)) (\<lambda>n. Ret (s\<lparr>mt_ListenAddrs := [n]\<rparr>)) else Ret s) (\<lambda>s.
         RestartListener (me_bind env) s)))"

section \<open>The connections\<close>

text \<open>\<open>TConnection::Cancel\<close>, and the loop of \<open>OnAcceptFull\<close>.\<close>

definition Cancel :: "nat \<Rightarrow> (nat \<rightharpoonup> bool) \<Rightarrow> (nat \<rightharpoonup> bool)" where
  "Cancel c sockets = sockets(c \<mapsto> False)"

fun cancel_loop :: "ui64 \<Rightarrow> nat list \<Rightarrow> (nat \<rightharpoonup> bool) \<Rightarrow> ui64 \<Rightarrow> nat list \<times> (nat \<rightharpoonup> bool) \<times> ui64" where
  "cancel_loop MaxConnections [] sockets Canceled = ([], sockets, Canceled)"
| "cancel_loop MaxConnections (c # cs) sockets Canceled =
     (if length (c # cs) > unat MaxConnections then cancel_loop MaxConnections cs (Cancel c sockets) (Canceled + 1)
      else (c # cs, sockets, Canceled))"

definition OnAcceptFull :: "nat \<Rightarrow> 'm main_task \<Rightarrow> 'm main_task" where
  "OnAcceptFull c s =
     (let (cs, socks, n) = (if mt_MaxConnections s \<noteq> 0 then cancel_loop (mt_MaxConnections s) (mt_Connections s) (mt_Sockets s) (mt_Canceled s)
                            else (mt_Connections s, mt_Sockets s, mt_Canceled s)) in
      s\<lparr>mt_Connections := cs @ [c], mt_Sockets := socks(c \<mapsto> True), mt_Canceled := n\<rparr>)"

definition UpPriority :: "nat \<Rightarrow> 'm main_task \<Rightarrow> 'm main_task" where
  "UpPriority c s = s\<lparr>mt_Connections := filter (\<lambda>x. x \<noteq> c) (mt_Connections s) @ [c]\<rparr>"

text \<open>\<open>THolder<TConnection> This\<close>: the end of the coroutine deletes the connection, which leaves the list.\<close>

definition conn_destroy :: "nat \<Rightarrow> 'm main_task \<Rightarrow> 'm main_task" where
  "conn_destroy c s = s\<lparr>mt_Connections := filter (\<lambda>x. x \<noteq> c) (mt_Connections s), mt_Sockets := (mt_Sockets s)(c := None)\<rparr>"

text \<open>
  \<open>StartListener\<close> when \<open>Bind\<close> throws: the addresses in front of the failing one are bound, and \<open>Listen\<close> is not
  reached. The begin of \<open>DoShutDown\<close>: what happens during its sleeps are further events.
\<close>

definition start_partial :: "nat \<Rightarrow> 'm main_task \<Rightarrow> 'm main_task" where
  "start_partial k s = s\<lparr>mt_Listener := map_option (\<lambda>l. l\<lparr>ls_Bound := ls_Bound l @ take k (mt_ListenAddrs s)\<rparr>) (mt_Listener s)\<rparr>"

definition destroy_listener :: "'m main_task \<Rightarrow> 'm main_task" where
  "destroy_listener s = s\<lparr>mt_Listener := None\<rparr>"

datatype main_event = Accepted nat | SendReturned nat | Ended nat
  | ListenerStopped | ListenerStarted | StartThrew nat | ShutDownBegun

inductive main_step :: "'m main_task \<Rightarrow> main_event \<Rightarrow> 'm main_task \<Rightarrow> bool" where
  accepted: "mt_Sockets s c = None \<Longrightarrow> main_step s (Accepted c) (OnAcceptFull c s)"
| sent: "mt_Sockets s c \<noteq> None \<Longrightarrow> main_step s (SendReturned c) (UpPriority c s)"
| ended: "mt_Sockets s c \<noteq> None \<Longrightarrow> main_step s (Ended c) (conn_destroy c s)"
| stopped: "main_step s ListenerStopped (DoStopListener s)"
| started: "DoStartListener bindAddr s = Ret s' \<Longrightarrow> main_step s ListenerStarted s'"
| start_threw: "mt_Listener s \<noteq> None \<Longrightarrow> k < length (mt_ListenAddrs s) \<Longrightarrow> main_step s (StartThrew k) (start_partial k s)"
| shut_down: "main_step s ShutDownBegun (destroy_listener s)"

inductive_cases main_stepE: "main_step s e s'"

inductive main_run :: "'m main_task \<Rightarrow> main_event list \<Rightarrow> 'm main_task \<Rightarrow> bool" where
  none: "main_run s [] s"
| step: "main_run s es s' \<Longrightarrow> main_step s' e s'' \<Longrightarrow> main_run s (es @ [e]) s''"

section \<open>The shutdown\<close>

text \<open>
  The loop of \<open>DoShutDown\<close>, from its iteration \<open>k\<close>: \<open>isEmpty k\<close> is what \<open>Connections_.Empty()\<close> returns and \<open>now k\<close>
  the time after the sleep. The result is the number of sleeps.
\<close>

partial_function (option) shutdown_loop :: "ui64 \<Rightarrow> (nat \<Rightarrow> bool) \<Rightarrow> (nat \<Rightarrow> ui64) \<Rightarrow> nat \<Rightarrow> nat option" where
  "shutdown_loop deadLine isEmpty now k =
     (if isEmpty k then Some k else if now k > deadLine then Some (Suc k) else shutdown_loop deadLine isEmpty now (Suc k))"

text \<open>\<open>TInstant + TDuration\<close> saturates.\<close>

definition instant_plus :: "ui64 \<Rightarrow> ui64 \<Rightarrow> ui64" where
  "instant_plus i d = (if - 1 - i < d then - 1 else i + d)"

definition DoShutDown :: "ui64 \<Rightarrow> (nat \<Rightarrow> bool) \<Rightarrow> (nat \<Rightarrow> ui64) \<Rightarrow> 'm main_task \<Rightarrow> (nat \<times> 'm main_task) option" where
  "DoShutDown start isEmpty now s =
     map_option (\<lambda>sleeps. (sleeps, destroy_listener s)) (shutdown_loop (instant_plus start 10000000) isEmpty now 0)"

section \<open>The list is the order of the last activities\<close>

fun activity :: "main_event \<Rightarrow> nat list" where
  "activity (Accepted c) = [c]"
| "activity (SendReturned c) = [c]"
| "activity _ = []"

definition listener_event :: "main_event \<Rightarrow> bool" where
  "listener_event e \<longleftrightarrow> (case e of Accepted c \<Rightarrow> False | SendReturned c \<Rightarrow> False | Ended c \<Rightarrow> False | _ \<Rightarrow> True)"

lemma DoStartListener_frame:
  "DoStartListener bindAddr s = Ret s' \<Longrightarrow> \<exists>l. s' = s\<lparr>mt_Listener := Some l\<rparr>"
  by (auto simp: DoStartListener_def obind_Ret_iff split: option.splits)

lemma listener_step:
  assumes "main_step s e s'" and "listener_event e"
  shows "\<exists>l. s' = s\<lparr>mt_Listener := l\<rparr>" and "activity e = []"
  using assms by (auto elim!: main_stepE simp: listener_event_def DoStopListener_def start_partial_def destroy_listener_def dest: DoStartListener_frame)

definition last_active :: "main_event list \<Rightarrow> nat list" where
  "last_active es = remdups (concat (map activity es))"

definition conn_inv :: "'m main_task \<Rightarrow> bool" where
  "conn_inv s \<longleftrightarrow> distinct (mt_Connections s) \<and> set (mt_Connections s) \<subseteq> dom (mt_Sockets s)
     \<and> (\<forall>c. mt_Sockets s c = Some True \<longrightarrow> c \<in> set (mt_Connections s))"

definition open_conns :: "'m main_task \<Rightarrow> nat set" where
  "open_conns s = {c. mt_Sockets s c = Some True}"

lemma remdups_snoc: "remdups (xs @ [x]) = filter (\<lambda>y. y \<noteq> x) (remdups xs) @ [x]"
  by (induction xs) auto

lemma cancel_loop_spec:
  "cancel_loop mx cs socks n = (let k = length cs - unat mx in (drop k cs, (\<lambda>c. if c \<in> set (take k cs) then Some False else socks c), n + of_nat k))"
proof (induction mx cs socks n rule: cancel_loop.induct)
  case (2 mx c cs socks n)
  show ?case
  proof (cases "length (c # cs) > unat mx")
    case True
    then have "length (c # cs) - unat mx = Suc (length cs - unat mx)" by simp
    moreover have "cancel_loop mx (c # cs) socks n = cancel_loop mx cs (Cancel c socks) (n + 1)" using True by simp
    ultimately show ?thesis unfolding 2(1) [OF True] Let_def by (simp add: Cancel_def fun_eq_iff add.assoc)
  qed (simp add: Let_def)
qed (simp add: Let_def)

text \<open>What accepting a connection does, in closed form.\<close>

definition cancelled_by_accept :: "'m main_task \<Rightarrow> nat list" where
  "cancelled_by_accept s =
     (if mt_MaxConnections s = 0 then [] else take (length (mt_Connections s) - unat (mt_MaxConnections s)) (mt_Connections s))"

lemma OnAcceptFull_spec:
  "OnAcceptFull c s = s\<lparr>mt_Connections := drop (length (cancelled_by_accept s)) (mt_Connections s) @ [c],
     mt_Sockets := (\<lambda>x. if x \<in> set (cancelled_by_accept s) then Some False else mt_Sockets s x)(c \<mapsto> True),
     mt_Canceled := mt_Canceled s + of_nat (length (cancelled_by_accept s))\<rparr>"
  by (auto simp: OnAcceptFull_def cancel_loop_spec cancelled_by_accept_def Let_def)

lemma cancelled_prefix: "cancelled_by_accept s @ drop (length (cancelled_by_accept s)) (mt_Connections s) = mt_Connections s"
  by (simp add: cancelled_by_accept_def)

lemma main_step_config: "main_step s e s' \<Longrightarrow> mt_MaxConnections s' = mt_MaxConnections s"
  by (auto elim!: main_stepE simp: OnAcceptFull_spec UpPriority_def conn_destroy_def DoStopListener_def start_partial_def destroy_listener_def
      dest: DoStartListener_frame)

lemma main_step_inv:
  assumes "main_step s e s'" and "conn_inv s"
  shows "conn_inv s'"
proof (cases "listener_event e")
  case True
  then show ?thesis using listener_step(1) [OF assms(1)] assms(2) by (auto simp: conn_inv_def)
next
  case False
  from assms(1) show ?thesis
  proof cases
    case (accepted c)
    have "c \<notin> set (mt_Connections s)" using assms(2) accepted by (auto simp: conn_inv_def)
    moreover have "x \<in> set (cancelled_by_accept s) \<or> x \<in> set (drop (length (cancelled_by_accept s)) (mt_Connections s))" if "x \<in> set (mt_Connections s)" for x
      using that arg_cong [OF cancelled_prefix, of set s] by auto
    moreover have "mt_Sockets s x \<noteq> None" if "x \<in> set (drop k (mt_Connections s))" for k x
      using assms(2) that in_set_dropD [OF that] by (auto simp: conn_inv_def)
    ultimately show ?thesis
      using assms(2) accepted unfolding conn_inv_def OnAcceptFull_spec by (auto simp: dom_def dest: in_set_dropD split: if_splits) blast
  next
    case (sent c)
    then show ?thesis using assms(2) by (auto simp: conn_inv_def UpPriority_def)
  next
    case (ended c)
    then show ?thesis using assms(2) by (auto simp: conn_inv_def conn_destroy_def)
  qed (use False in \<open>simp_all add: listener_event_def\<close>)
qed

text \<open>Of a list in the order of the last activities, every event leaves one.\<close>

lemma filter_in_drop: "distinct xs \<Longrightarrow> filter (\<lambda>x. x \<in> set (drop k xs)) xs = drop k xs"
proof -
  assume d: "distinct xs"
  have "filter (\<lambda>x. x \<in> set (drop k xs)) (take k xs @ drop k xs) = drop k xs"
    using d set_take_disj_set_drop_if_distinct [of xs k k] by (auto simp: filter_empty_conv simp del: append_take_drop_id)
  then show ?thesis by simp
qed

lemma last_active_snoc: "activity e = [c] \<Longrightarrow> last_active (es @ [e]) = filter (\<lambda>x. x \<noteq> c) (last_active es) @ [c]"
  by (simp add: last_active_def remdups_snoc)

lemma main_step_order:
  assumes "main_step s e s'" and inv: "conn_inv s" and lru: "filter (\<lambda>c. c \<in> set (mt_Connections s)) (last_active es) = mt_Connections s"
  shows "filter (\<lambda>c. c \<in> set (mt_Connections s')) (last_active (es @ [e])) = mt_Connections s'"
proof (cases "listener_event e")
  case True
  then show ?thesis using listener_step [OF assms(1)] lru by (auto simp: last_active_def)
next
  case False
  from assms(1) show ?thesis
  proof cases
    case (accepted c)
    let ?rest = "drop (length (cancelled_by_accept s)) (mt_Connections s)"
    have c: "c \<notin> set (mt_Connections s)" and d: "distinct (mt_Connections s)" using inv accepted by (auto simp: conn_inv_def)
    have "filter (\<lambda>x. x \<in> set ?rest) (last_active es) = filter (\<lambda>x. x \<in> set ?rest) (filter (\<lambda>x. x \<in> set (mt_Connections s)) (last_active es))"
      by (auto simp: filter_filter dest: in_set_dropD intro!: filter_cong)
    then have "filter (\<lambda>x. x \<in> set ?rest) (last_active es) = ?rest" using lru filter_in_drop [OF d] by simp
    moreover have "filter (\<lambda>x. x \<in> set (mt_Connections s')) (filter (\<lambda>x. x \<noteq> c) (last_active es)) = filter (\<lambda>x. x \<in> set ?rest) (last_active es)"
      unfolding filter_filter using c by (intro filter_cong) (auto simp: accepted OnAcceptFull_spec dest: in_set_dropD)
    ultimately show ?thesis using last_active_snoc [of e c es] accepted by (simp add: OnAcceptFull_spec)
  next
    case (sent c)
    have "filter (\<lambda>x. x \<in> set (mt_Connections s')) (filter (\<lambda>x. x \<noteq> c) (last_active es)) = filter (\<lambda>x. x \<noteq> c) (filter (\<lambda>x. x \<in> set (mt_Connections s)) (last_active es))"
      unfolding filter_filter by (rule filter_cong) (auto simp: sent UpPriority_def)
    then show ?thesis using last_active_snoc [of e c es] lru sent by (simp add: UpPriority_def)
  next
    case (ended c)
    have "filter (\<lambda>x. x \<in> set (mt_Connections s')) (last_active es) = filter (\<lambda>x. x \<noteq> c) (filter (\<lambda>x. x \<in> set (mt_Connections s)) (last_active es))"
      unfolding filter_filter by (rule filter_cong) (auto simp: ended conn_destroy_def)
    moreover have "last_active (es @ [e]) = last_active es" using ended by (simp add: last_active_def)
    ultimately show ?thesis unfolding lru by (simp add: ended conn_destroy_def)
  qed (use False in \<open>simp_all add: listener_event_def\<close>)
qed

lemma open_le_listed: "conn_inv s \<Longrightarrow> finite (open_conns s) \<and> card (open_conns s) \<le> length (mt_Connections s)"
  by (auto simp: conn_inv_def open_conns_def intro: finite_subset [of _ "set (mt_Connections s)"])
    (metis (mono_tags, lifting) List.finite_set card_length card_mono le_trans mem_Collect_eq subsetI)

lemma main_step_limit:
  assumes "main_step s e s'" and "conn_inv s" and "mt_MaxConnections s \<noteq> 0" and "card (open_conns s) \<le> unat (mt_MaxConnections s) + 1"
  shows "card (open_conns s') \<le> unat (mt_MaxConnections s) + 1"
proof (cases "listener_event e")
  case True
  then show ?thesis using listener_step(1) [OF assms(1)] assms(4) by (auto simp: open_conns_def)
next
  case False
  from assms(1) show ?thesis
  proof cases
    case (accepted c)
    have "card (open_conns s') \<le> length (mt_Connections s')" using open_le_listed main_step_inv [OF assms(1,2)] by blast
    also have "\<dots> \<le> unat (mt_MaxConnections s) + 1" using accepted assms(3) by (auto simp: OnAcceptFull_spec cancelled_by_accept_def)
    finally show ?thesis .
  next
    case (sent c)
    then show ?thesis using assms(4) by (simp add: UpPriority_def open_conns_def)
  next
    case (ended c)
    have "card (open_conns s') \<le> card (open_conns s)"
      using ended open_le_listed [OF assms(2)] by (intro card_mono) (auto simp: conn_destroy_def open_conns_def split: if_splits)
    then show ?thesis using assms(4) by simp
  qed (use False in \<open>simp_all add: listener_event_def\<close>)
qed

section \<open>Properties\<close>

text \<open>
  C11. The connection table. From the start of the server, whatever connections are accepted, send and end
  and whatever is done to the listener: the list holds each connection at most once and only living ones, every connection with an open socket
  is in it, and it is in the order of the last activity. So an accept, which closes the connections from the
  front of the list, closes the ones idle for longest, and no more than the limit and one are ever open.
\<close>

theorem connections_lru:
  assumes "main_run s0 es s" and "mt_Connections s0 = []" and "mt_Sockets s0 = Map.empty"
  shows "distinct (mt_Connections s) \<and> set (mt_Connections s) \<subseteq> dom (mt_Sockets s) \<and> open_conns s \<subseteq> set (mt_Connections s)
    \<and> filter (\<lambda>c. c \<in> set (mt_Connections s)) (last_active es) = mt_Connections s
    \<and> (mt_MaxConnections s0 \<noteq> 0 \<longrightarrow> card (open_conns s) \<le> unat (mt_MaxConnections s0) + 1)
    \<and> (\<forall>c s'. main_step s (Accepted c) s' \<longrightarrow>
         open_conns s' = insert c (open_conns s - set (cancelled_by_accept s))
       \<and> mt_Connections s = cancelled_by_accept s @ butlast (mt_Connections s') \<and> last (mt_Connections s') = c)"
proof -
  have "conn_inv s \<and> filter (\<lambda>c. c \<in> set (mt_Connections s)) (last_active es) = mt_Connections s \<and> mt_MaxConnections s = mt_MaxConnections s0
    \<and> (mt_MaxConnections s0 \<noteq> 0 \<longrightarrow> card (open_conns s) \<le> unat (mt_MaxConnections s0) + 1)"
    using assms
  proof (induction rule: main_run.induct)
    case (none s)
    then show ?case by (simp add: conn_inv_def last_active_def open_conns_def)
  next
    case (step s0 es s1 e s2)
    have i: "conn_inv s1" and o1: "filter (\<lambda>c. c \<in> set (mt_Connections s1)) (last_active es) = mt_Connections s1" and m: "mt_MaxConnections s1 = mt_MaxConnections s0"
      and l: "mt_MaxConnections s0 \<noteq> 0 \<longrightarrow> card (open_conns s1) \<le> unat (mt_MaxConnections s0) + 1"
      using step.IH [OF step.prems] by blast+
    show ?case
      using main_step_inv [OF step.hyps(2) i] main_step_order [OF step.hyps(2) i o1] main_step_config [OF step.hyps(2)] main_step_limit [OF step.hyps(2) i] l m by simp
  qed
  moreover have "open_conns s' = insert c (open_conns s - set (cancelled_by_accept s)) \<and> mt_Connections s = cancelled_by_accept s @ butlast (mt_Connections s') \<and> last (mt_Connections s') = c"
    if "main_step s (Accepted c) s'" for c s'
    using that cancelled_prefix [of s] by (auto elim!: main_stepE simp: OnAcceptFull_spec open_conns_def split: if_splits)
  ultimately show ?thesis unfolding conn_inv_def open_conns_def by blast
qed

text \<open>With a limit of one: the third connection makes the first one, and only that, be cancelled.\<close>

definition small_server :: "unit main_task" where
  "small_server = main_init\<lparr>mt_MaxConnections := 1\<rparr>"

fun event_enabled :: "main_event \<Rightarrow> 'm main_task \<Rightarrow> bool" where
  "event_enabled (Accepted c) s = (mt_Sockets s c = None)"
| "event_enabled (SendReturned c) s = (mt_Sockets s c \<noteq> None)"
| "event_enabled (Ended c) s = (mt_Sockets s c \<noteq> None)"
| "event_enabled ListenerStarted s = (mt_Listener s \<noteq> None)"
| "event_enabled (StartThrew k) s = (mt_Listener s \<noteq> None \<and> k < length (mt_ListenAddrs s))"
| "event_enabled _ s = True"

fun apply_event :: "'m main_task \<Rightarrow> main_event \<Rightarrow> 'm main_task" where
  "apply_event s (Accepted c) = OnAcceptFull c s"
| "apply_event s (SendReturned c) = UpPriority c s"
| "apply_event s (Ended c) = conn_destroy c s"
| "apply_event s ListenerStopped = DoStopListener s"
| "apply_event s ListenerStarted = s\<lparr>mt_Listener :=
     map_option (\<lambda>l. l\<lparr>ls_Bound := ls_Bound l @ mt_ListenAddrs s, ls_Listening := True\<rparr>) (mt_Listener s)\<rparr>"
| "apply_event s (StartThrew k) = start_partial k s"
| "apply_event s ShutDownBegun = destroy_listener s"

lemma bind_ok:
  "ofold (\<lambda>a l. Ret (l\<lparr>ls_Bound := ls_Bound l @ [a]\<rparr>)) addrs l = Ret (l\<lparr>ls_Bound := ls_Bound l @ addrs\<rparr>)"
  by (induction addrs arbitrary: l) simp_all

lemma apply_started: "mt_Listener s \<noteq> None \<Longrightarrow> DoStartListener (\<lambda>_. Ret ()) s = Ret (apply_event s ListenerStarted)"
  by (auto simp: DoStartListener_def bind_ok)

lemma apply_event_step: "event_enabled e s \<Longrightarrow> main_step s e (apply_event s e)"
proof (cases e)
  case ListenerStarted
  then show "event_enabled e s \<Longrightarrow> ?thesis" using main_step.started [OF apply_started] by simp
qed (auto intro: main_step.intros)

fun enabled :: "main_event list \<Rightarrow> 'm main_task \<Rightarrow> bool" where
  "enabled [] s = True"
| "enabled (e # es) s = (event_enabled e s \<and> enabled es (apply_event s e))"

lemma enabled_snoc: "enabled (es @ [e]) s \<longleftrightarrow> enabled es s \<and> event_enabled e (foldl apply_event s es)"
  by (induction es arbitrary: s) auto

lemma main_exec: "enabled es s \<Longrightarrow> main_run s es (foldl apply_event s es)"
proof (induction es rule: rev_induct)
  case (snoc e es)
  then have "main_run s es (foldl apply_event s es)" "event_enabled e (foldl apply_event s es)" by (simp_all add: enabled_snoc)
  then show ?case using main_run.step [OF _ apply_event_step] by simp
qed (simp add: main_run.none)

theorem connections_lru_witness:
  "\<exists>s. main_run small_server [Accepted 0, Accepted 1, SendReturned 0, Accepted 2] s \<and> mt_Connections s = [0, 2] \<and> open_conns s = {0, 2}
     \<and> filter (\<lambda>c. c \<in> set (mt_Connections s)) (last_active [Accepted 0, Accepted 1, SendReturned 0, Accepted 2]) = mt_Connections s"
proof -
  let ?es = "[Accepted 0, Accepted 1, SendReturned 0, Accepted 2]" and ?s = "foldl apply_event small_server [Accepted 0, Accepted 1, SendReturned 0, Accepted 2]"
  have "enabled ?es small_server" by (simp add: small_server_def main_init_def OnAcceptFull_def UpPriority_def Cancel_def)
  note run = main_exec [OF this]
  have "mt_Connections ?s = [0, 2]" "open_conns ?s = {0, 2}"
    by (auto simp: small_server_def main_init_def OnAcceptFull_def UpPriority_def Cancel_def open_conns_def)
  moreover have "filter (\<lambda>c. c \<in> set (mt_Connections ?s)) (last_active ?es) = mt_Connections ?s"
    using connections_lru [OF run] by (simp add: small_server_def main_init_def)
  ultimately show ?thesis using run by blast
qed

text \<open>
  A cancelled connection that sends once more is put back into the list, at its end. With a limit of one
  connection the next accept then cancels the two open connections in front of it, and the closed one
  stays.
\<close>

theorem cancelled_connection_returns:
  "\<exists>s. main_run small_server [Accepted 0, Accepted 1, Accepted 2, SendReturned 0, Accepted 3] s
     \<and> mt_Connections s = [0, 3] \<and> mt_Sockets s 0 = Some False \<and> open_conns s = {3} \<and> mt_Canceled s = 3"
proof -
  let ?es = "[Accepted 0, Accepted 1, Accepted 2, SendReturned 0, Accepted 3]"
  have "enabled ?es small_server" by (simp add: small_server_def main_init_def OnAcceptFull_def UpPriority_def Cancel_def)
  note run = main_exec [OF this]
  show ?thesis
    by (rule exI, rule conjI, rule run)
      (auto simp: small_server_def main_init_def OnAcceptFull_def UpPriority_def Cancel_def open_conns_def)
qed

lemma shutdown_loop_ends:
  assumes clock: "\<And>k. k \<le> N \<Longrightarrow> k = N \<longrightarrow> now k > deadLine" and "k \<le> N"
  shows "\<exists>n. shutdown_loop deadLine isEmpty now k = Some n \<and> n \<le> Suc N \<and> (\<forall>j. k \<le> j \<and> j < n \<longrightarrow> \<not> isEmpty j)
    \<and> (isEmpty n \<or> (0 < n \<and> now (n - 1) > deadLine))"
  using assms(2)
proof (induction "N - k" arbitrary: k)
  case 0
  then show ?case using clock [of k] by (subst shutdown_loop.simps) (auto simp: less_Suc_eq)
next
  case (Suc m)
  show ?case
  proof (cases "isEmpty k \<or> now k > deadLine")
    case True
    then show ?thesis using Suc.prems by (subst shutdown_loop.simps) (auto simp: less_Suc_eq)
  next
    case False
    have mk: "m = N - Suc k" "Suc k \<le> N" using Suc.hyps(2) by linarith+
    obtain n where n: "shutdown_loop deadLine isEmpty now (Suc k) = Some n" "n \<le> Suc N" "\<forall>j. Suc k \<le> j \<and> j < n \<longrightarrow> \<not> isEmpty j"
        "isEmpty n \<or> (0 < n \<and> now (n - 1) > deadLine)"
      using Suc.hyps(1) [OF mk] by blast
    have "\<forall>j. k \<le> j \<and> j < n \<longrightarrow> \<not> isEmpty j" using n(3) False by (metis Suc_leI le_neq_implies_less)
    then show ?thesis using n False by (subst shutdown_loop.simps) simp
  qed
qed

text \<open>
  C26. The shutdown ends: if every sleep takes its ten milliseconds, the loop sleeps at most 1001 times, and
  earlier if the connections are gone. Afterwards there is no listener, so starting it again crashes.
\<close>

theorem shutdown_ends:
  assumes clock: "\<And>k. k \<le> 1000 \<Longrightarrow> unat start + (k + 1) * 10000 \<le> unat (now k)"
  shows "\<exists>n s'. DoShutDown start isEmpty now s = Some (n, s') \<and> n \<le> 1001 \<and> (\<forall>k<n. \<not> isEmpty k)
    \<and> (isEmpty n \<or> (0 < n \<and> unat (now (n - 1)) > unat start + 10000000))
    \<and> \<not> DoListenerStarted s' \<and> DoStartListener bindAddr s' = Crash"
proof -
  have st: "unat start + 10010000 < 2 ^ 64" using clock [of 1000] unsigned_less [of "now 1000", where ?'a = nat] by simp
  have u: "unat (start + 10000000) = unat start + 10000000" using st by (simp add: unat_word_ariths)
  have "unat (- 1 - start) = 2 ^ 64 - 1 - unat start" by (simp add: unat_sub unsigned_minus_1_eq_mask mask_nat_def)
  then have "\<not> - 1 - start < 10000000" using st by (simp add: word_less_nat_alt)
  then have ip: "instant_plus start 10000000 = start + 10000000" by (simp add: instant_plus_def)
  have "now 1000 > instant_plus start 10000000" using clock [of 1000] u ip by (simp add: word_less_nat_alt)
  then have "\<And>k. k \<le> 1000 \<Longrightarrow> k = 1000 \<longrightarrow> now k > instant_plus start 10000000" by simp
  from shutdown_loop_ends [where N = 1000 and k = 0 and isEmpty = isEmpty, OF this]
  obtain n where n: "shutdown_loop (instant_plus start 10000000) isEmpty now 0 = Some n" "n \<le> 1001" "\<forall>j<n. \<not> isEmpty j"
      "isEmpty n \<or> (0 < n \<and> now (n - 1) > instant_plus start 10000000)" by auto
  then show ?thesis using u ip by (auto simp: DoShutDown_def destroy_listener_def DoListenerStarted_def DoStartListener_def word_less_nat_alt)
qed

theorem shutdown_ends_witness:
  "\<exists>n s'. DoShutDown 5 (\<lambda>_. False) (\<lambda>k. 5 + (of_nat k + 1) * 10000) small_server = Some (n, s') \<and> n \<le> 1001"
proof -
  have "unat (5 :: ui64) + (k + 1) * 10000 \<le> unat (5 + (of_nat k + 1) * 10000 :: ui64)" if "k \<le> 1000" for k
  proof -
    have "5 + (of_nat k + 1) * 10000 = (of_nat (5 + (k + 1) * 10000) :: ui64)" by simp
    moreover have "5 + (k + 1) * 10000 < 2 ^ 64" using that by simp
    ultimately show ?thesis by (simp add: unsigned_of_nat take_bit_nat_eq_self del: of_nat_add of_nat_mult)
  qed
  from shutdown_ends [OF this] show ?thesis by blast
qed

section \<open>The server as a whole\<close>

text \<open>A listener is bound to configured addresses only, and one that listens to all of them.\<close>

definition listener_ok :: "'m main_task \<Rightarrow> bool" where
  "listener_ok s \<longleftrightarrow> (case mt_Listener s of None \<Rightarrow> True
     | Some l \<Rightarrow> set (ls_Bound l) \<subseteq> set (mt_ListenAddrs s) \<and> (ls_Listening l \<longrightarrow> set (mt_ListenAddrs s) \<subseteq> set (ls_Bound l)))"

definition main_wf :: "'m main_task \<Rightarrow> bool" where
  "main_wf s \<longleftrightarrow> mt_Module s \<noteq> None \<and> mt_ListenAddrs s \<noteq> [] \<and> mt_Log s \<in> set (mt_Logs s) \<and> listener_ok s \<and> conn_inv s"

definition full_listener :: "'m main_task \<Rightarrow> listener" where
  "full_listener s = \<lparr>ls_Bound = mt_ListenAddrs s, ls_Listening = True\<rparr>"

lemma bind_all:
  "ofold (\<lambda>a l. obind (bindAddr a) (\<lambda>_. Ret (l\<lparr>ls_Bound := ls_Bound l @ [a]\<rparr>))) addrs l = Ret l' \<Longrightarrow> l' = l\<lparr>ls_Bound := ls_Bound l @ addrs\<rparr>"
proof (induction addrs arbitrary: l)
  case (Cons a addrs)
  then have "ofold (\<lambda>a l. obind (bindAddr a) (\<lambda>_. Ret (l\<lparr>ls_Bound := ls_Bound l @ [a]\<rparr>))) addrs (l\<lparr>ls_Bound := ls_Bound l @ [a]\<rparr>) = Ret l'"
    by (auto simp: obind_Ret_iff)
  from Cons.IH [OF this] show ?case by simp
qed simp

lemma DoStartListener_spec:
  "DoStartListener bindAddr s = Ret s' \<Longrightarrow> \<exists>l. mt_Listener s = Some l
     \<and> s' = s\<lparr>mt_Listener := Some (l\<lparr>ls_Bound := ls_Bound l @ mt_ListenAddrs s, ls_Listening := True\<rparr>)\<rparr>"
  by (auto simp: DoStartListener_def obind_Ret_iff split: option.splits dest!: bind_all)

lemma RestartListener_spec:
  "RestartListener bindAddr s = Ret s' \<Longrightarrow> s' = s\<lparr>mt_Listener := Some (full_listener s)\<rparr>"
  unfolding RestartListener_def by (drule DoStartListener_spec) (auto simp: DoStopListener_def full_listener_def)

lemma main_DoConsume_frame:
  assumes "main_DoConsume env loader key v s = Ret s'" and "mt_Log s \<in> set (mt_Logs s)"
  shows "mt_Log s' \<in> set (mt_Logs s') \<and> mt_Connections s' = mt_Connections s \<and> mt_Sockets s' = mt_Sockets s"
  using assms by (auto simp: main_DoConsume_def ON_KEY_def DoLog_def obind_Ret_iff split: if_splits)

lemma main_new_wf:
  assumes "main_new env loader c = Ret s"
  shows "main_wf s \<and> mt_Listener s = Some (full_listener s)"
proof -
  obtain s0 s1 s2 where s0: "DoLog (me_openLog env) [] main_init = Ret s0" and s1: "ForEach (main_DoConsume env loader) c s0 = Ret s1" "mt_Module s1 \<noteq> None"
    and s2: "(if mt_ListenAddrs s1 = [] then obind (me_resolve env (PortAddr 80)) (\<lambda>n. Ret (s1\<lparr>mt_ListenAddrs := [n]\<rparr>)) else Ret s1) = Ret s2"
    and s: "RestartListener (me_bind env) s2 = Ret s"
    using assms by (auto simp: main_new_def obind_Ret_iff split: if_splits)
  have "mt_Log s1 \<in> set (mt_Logs s1) \<and> mt_Connections s1 = [] \<and> mt_Sockets s1 = Map.empty"
  proof (rule ofold_invariant [OF s1(1) [unfolded ForEach_def]], goal_cases)
    case 1
    then show ?case using s0 by (auto simp: DoLog_def main_init_def obind_Ret_iff)
  next
    case (2 x m m')
    then show ?case using main_DoConsume_frame [of env loader "fst x" "snd x" m m'] by (simp add: split_beta)
  qed
  then show ?thesis
    using s1(2) s2 RestartListener_spec [OF s] by (auto simp: main_wf_def listener_ok_def full_listener_def conn_inv_def obind_Ret_iff split: if_splits)
qed

text \<open>What a step does to the rest of the server.\<close>

lemma main_step_wf:
  assumes "main_step s e s'" and "main_wf s"
  shows "main_wf s' \<and> mt_ListenAddrs s' = mt_ListenAddrs s \<and> mt_Module s' = mt_Module s
    \<and> (\<not> listener_event e \<longrightarrow> mt_Listener s' = mt_Listener s)"
proof -
  have c: "conn_inv s'" using main_step_inv [OF assms(1)] assms(2) by (simp add: main_wf_def)
  from assms(1) show ?thesis
  proof cases
    case (started bindAddr)
    then show ?thesis using DoStartListener_spec [OF started(2)] assms(2) c
      by (auto simp: main_wf_def listener_ok_def listener_event_def)
  next
    case (start_threw k)
    then show ?thesis using assms(2) c
      by (auto simp: main_wf_def listener_ok_def listener_event_def start_partial_def dest: in_set_takeD)
  qed (use assms(2) c in \<open>auto simp: main_wf_def listener_ok_def listener_event_def OnAcceptFull_spec UpPriority_def
      conn_destroy_def DoStopListener_def destroy_listener_def split: option.splits\<close>)
qed

lemma main_run_wf:
  "main_run s es s' \<Longrightarrow> main_wf s \<Longrightarrow> main_wf s' \<and> mt_ListenAddrs s' = mt_ListenAddrs s \<and> mt_Module s' = mt_Module s
    \<and> ((\<forall>e \<in> set es. \<not> listener_event e) \<longrightarrow> mt_Listener s' = mt_Listener s)"
  by (induction rule: main_run.induct) (auto dest: main_step_wf)

lemma main_run_snoc: "main_run s (es @ [e]) s' \<Longrightarrow> \<exists>t. main_run s es t \<and> main_step t e s'"
  by (erule main_run.cases) auto

lemma main_run_split:
  "main_run s (es1 @ es2) s' \<Longrightarrow> \<exists>t. main_run s es1 t \<and> main_run t es2 s'"
proof (induction es2 arbitrary: s' rule: rev_induct)
  case (snoc e es2)
  from snoc.prems obtain u where u: "main_run s (es1 @ es2) u" "main_step u e s'"
    using main_run_snoc [of s "es1 @ es2" e s'] by auto
  with snoc.IH obtain t where "main_run s es1 t" "main_run t es2 u" by blast
  with u(2) show ?case using main_run.step by blast
qed (auto intro: main_run.none)

lemma main_run_event:
  assumes "main_run s (es1 @ e # es2) s'" and "main_wf s"
  shows "\<exists>t u. main_run s es1 t \<and> main_wf t \<and> main_step t e u \<and> main_wf u \<and> main_run u es2 s'"
proof -
  obtain u where "main_run s (es1 @ [e]) u" "main_run u es2 s'" using main_run_split [of s "es1 @ [e]" es2] assms(1) by auto
  moreover from this(1) obtain t where "main_run s es1 t" "main_step t e u" using main_run_snoc by blast
  ultimately show ?thesis using main_run_wf assms(2) main_step_wf by blast
qed

text \<open>
  C25. A server that starts is well formed and stays so whatever its connections do and whenever its modules stop
  and start the listener or begin the shutdown: it keeps its module and its addresses, its log is open, the
  connection table is consistent, and a listener that listens is bound to all configured addresses and to
  no others. The listener is the one the last call left: until a module touches it, and again after a
  \<open>StopListener\<close> followed by a \<open>StartListener\<close> that returns, it is bound to all addresses once and listens; after a \<open>StopListener\<close>
  it is there and bound to nothing; once the shutdown has begun it is gone, and a \<open>StartListener\<close> crashes.
\<close>

theorem server_wellformed:
  assumes "main_new env loader c = Ret s0" and "main_run s0 es s"
  shows "main_wf s \<and> mt_ListenAddrs s = mt_ListenAddrs s0 \<and> mt_Module s = mt_Module s0
    \<and> (\<forall>es1 es2. es = es1 @ es2 \<and> (\<forall>e \<in> set es2. \<not> listener_event e) \<longrightarrow>
         (es1 = [] \<longrightarrow> mt_Listener s = Some (full_listener s0))
       \<and> (es1 \<noteq> [] \<and> last es1 = ListenerStopped \<longrightarrow> mt_Listener s = Some \<lparr>ls_Bound = [], ls_Listening = False\<rparr>)
       \<and> (\<forall>es0 mid. es1 = es0 @ ListenerStopped # mid @ [ListenerStarted] \<and> (\<forall>e \<in> set mid. \<not> listener_event e)
            \<longrightarrow> mt_Listener s = Some (full_listener s0))
       \<and> (es1 \<noteq> [] \<and> last es1 = ShutDownBegun \<longrightarrow> mt_Listener s = None \<and> DoStartListener bindAddr s = Crash))"
proof -
  have wf0: "main_wf s0" and l0: "mt_Listener s0 = Some (full_listener s0)" using main_new_wf [OF assms(1)] by simp_all
  have after: "\<exists>t u. main_run s0 es0 t \<and> main_wf t \<and> main_step t e u \<and> mt_ListenAddrs u = mt_ListenAddrs s0 \<and> mt_Listener s = mt_Listener u"
    if es: "es = es0 @ e # es2" and q: "\<forall>e \<in> set es2. \<not> listener_event e" for es0 e es2
  proof -
    obtain t u where "main_run s0 es0 t" "main_wf t" "main_step t e u" "main_wf u" "main_run u es2 s"
      using main_run_event [of s0 es0 e es2 s] assms(2) es wf0 by auto
    then show ?thesis using main_run_wf [of u es2 s] main_run_wf [of s0 es0 t] main_step_wf [of t e u] wf0 q by auto
  qed
  have idle: "mt_Listener s = Some (full_listener s0)" if "\<forall>e \<in> set es. \<not> listener_event e"
    using main_run_wf [OF assms(2) wf0] that l0 by simp
  have stop: "mt_Listener s = Some \<lparr>ls_Bound = [], ls_Listening = False\<rparr>"
    if "es = es0 @ ListenerStopped # es2" "\<forall>e \<in> set es2. \<not> listener_event e" for es0 es2
    using after [OF that] by (auto elim!: main_stepE simp: DoStopListener_def)
  have down: "mt_Listener s = None \<and> DoStartListener bindAddr s = Crash"
    if "es = es0 @ ShutDownBegun # es2" "\<forall>e \<in> set es2. \<not> listener_event e" for es0 es2
    using after [OF that] by (auto elim!: main_stepE simp: destroy_listener_def DoStartListener_def)
  have again: "mt_Listener s = Some (full_listener s0)"
    if es: "es = es0 @ ListenerStopped # mid @ ListenerStarted # es2"
      and q: "\<forall>e \<in> set mid. \<not> listener_event e" "\<forall>e \<in> set es2. \<not> listener_event e" for es0 mid es2
  proof -
    obtain t u where t: "main_run s0 (es0 @ ListenerStopped # mid) t" "main_step t ListenerStarted u"
        "mt_ListenAddrs u = mt_ListenAddrs s0" "mt_Listener s = mt_Listener u"
      using after [of "es0 @ ListenerStopped # mid" ListenerStarted es2] es q(2) by auto
    obtain v w where v: "main_step v ListenerStopped w" "main_wf w" "main_run w mid t"
      using main_run_event [OF t(1) wf0] by blast
    have "mt_Listener t = Some \<lparr>ls_Bound = [], ls_Listening = False\<rparr>"
      using v(1) main_run_wf [OF v(3,2)] q(1) by (auto elim!: main_stepE simp: DoStopListener_def)
    then show ?thesis using t(2-4) by (auto elim!: main_stepE simp: full_listener_def dest!: DoStartListener_spec)
  qed
  have "(es1 = [] \<longrightarrow> mt_Listener s = Some (full_listener s0))
       \<and> (es1 \<noteq> [] \<and> last es1 = ListenerStopped \<longrightarrow> mt_Listener s = Some \<lparr>ls_Bound = [], ls_Listening = False\<rparr>)
       \<and> (\<forall>es0 mid. es1 = es0 @ ListenerStopped # mid @ [ListenerStarted] \<and> (\<forall>e \<in> set mid. \<not> listener_event e)
            \<longrightarrow> mt_Listener s = Some (full_listener s0))
       \<and> (es1 \<noteq> [] \<and> last es1 = ShutDownBegun \<longrightarrow> mt_Listener s = None \<and> DoStartListener bindAddr s = Crash)"
    if e: "es = es1 @ es2" "\<forall>e \<in> set es2. \<not> listener_event e" for es1 es2
  proof -
    show ?thesis
    proof (cases es1 rule: rev_cases)
      case (snoc xs x)
      then show ?thesis using e stop [OF _ e(2), of xs] down [OF _ e(2), of xs] again [OF _ _ e(2)] by auto
    qed (use idle e in simp)
  qed
  then show ?thesis using main_run_wf [OF assms(2) wf0] by blast
qed

definition demo_env :: main_env where
  "demo_env = \<lparr>me_fromPort = (\<lambda>_. Ret 8080), me_fromSize = (\<lambda>_. Ret 100), me_fromBool = (\<lambda>_. Ret True), me_resolve = Ret, me_openLog = (\<lambda>_. Ret ()), me_bind = (\<lambda>_. Ret ())\<rparr>"

theorem server_wellformed_witness:
  "\<exists>s0 s. main_new demo_env (AddHandle \<lparr>h_Name = ''m'', h_Construct = (\<lambda>_. Ret ())\<rparr> (factory_new None)) [(''port'', CfgStr ''8080''), (''m'', CfgTable [])] = Ret s0
     \<and> main_run s0 [Accepted 4, ListenerStopped, SendReturned 4, ListenerStarted, Ended 4] s
     \<and> main_wf s \<and> mt_Listener s = Some \<lparr>ls_Bound = [PortAddr 8080], ls_Listening = True\<rparr>"
proof -
  let ?f = "AddHandle \<lparr>h_Name = ''m'', h_Construct = (\<lambda>_. Ret ())\<rparr> (factory_new None)"
  let ?es = "[Accepted 4, ListenerStopped, SendReturned 4, ListenerStarted, Ended 4]"
  obtain s0 where s0: "main_new demo_env ?f [(''port'', CfgStr ''8080''), (''m'', CfgTable [])] = Ret s0"
      "mt_ListenAddrs s0 = [PortAddr 8080]" "mt_Sockets s0 = Map.empty" "mt_Connections s0 = []" "mt_MaxConnections s0 = 0"
    by (simp add: main_new_def demo_env_def DoLog_def ForEach_def main_DoConsume_def ON_KEY_def MustLoad_def Load_def factory_new_def
        RestartListener_def DoStartListener_def DoStopListener_def main_init_def)
  have "enabled ?es s0" using s0(3-5) by (simp add: OnAcceptFull_def UpPriority_def DoStopListener_def)
  then obtain s where run: "main_run s0 ?es s" using main_exec by blast
  have "?es = [Accepted 4, ListenerStopped, SendReturned 4, ListenerStarted] @ [Ended 4]"
      "[Accepted 4, ListenerStopped, SendReturned 4, ListenerStarted]
         = [Accepted 4] @ ListenerStopped # [SendReturned 4] @ [ListenerStarted]"
      "\<forall>e \<in> set [Ended 4]. \<not> listener_event e" "\<forall>e \<in> set [SendReturned 4]. \<not> listener_event e"
    by (simp_all add: listener_event_def)
  with server_wellformed [OF s0(1) run] have "main_wf s" "mt_Listener s = Some (full_listener s0)" by blast+
  with s0(1,2) run show ?thesis by (auto simp: full_listener_def)
qed

end
