(* ===== verification/Monitor.thy ===== *)
theory Monitor
  imports Mainloop Balancer Arbiter
begin

text \<open>
  The modules that watch another one: \<open>pinger\<close> (web/httpd/modules/pinger/module.cpp), which stops the listener of
  the server when its slave fails too often and pings the slave until it recovers, and \<open>statistics\<close>
  (web/httpd/modules/stats/module.cpp), which counts how the runs of its slave end.

  The pinger's coroutine is the loop below; what happens while it sleeps or pings is an argument: the
  results other requests register with the arbiter meanwhile, and what the slave does in each ping.
\<close>

section \<open>The pinger module\<close>

record 'm pinger =
  pn_S :: "'m option"
  pn_Arbiter :: "arbiter option"
  pn_Log :: "string option"
  pn_Request :: bytes
  pn_Min :: ui64
  pn_Max :: ui64

definition pinger_DoConsume ::
  "(string \<Rightarrow> ui64 outcome) \<Rightarrow> (string \<Rightarrow> real outcome) \<Rightarrow> (string \<Rightarrow> string outcome) \<Rightarrow> 'm factory
   \<Rightarrow> string \<Rightarrow> cfg_value \<Rightarrow> 'm pinger \<Rightarrow> 'm pinger outcome" where
  "pinger_DoConsume fromDuration fromFloat openLog loader key v p =
     ON_KEY ''request'' Ret (\<lambda>x p. p\<lparr>pn_Request := x\<rparr>) key v p
      (ON_KEY ''mindelay'' fromDuration (\<lambda>x p. p\<lparr>pn_Min := x\<rparr>) key v p
      (ON_KEY ''maxdelay'' fromDuration (\<lambda>x p. p\<lparr>pn_Max := x\<rparr>) key v p
      (ON_KEY ''log'' openLog (\<lambda>x p. p\<lparr>pn_Log := Some x\<rparr>) key v p
        (obind (AsSubConfig v) (\<lambda>sub. obind (ConstructArbiter fromFloat key sub) (\<lambda>arb.
           case arb of
             Some a \<Rightarrow> Ret (p\<lparr>pn_Arbiter := Some a\<rparr>)
           | None \<Rightarrow> obind (MustLoad loader key sub) (\<lambda>s. Ret (p\<lparr>pn_S := Some s\<rparr>))))))))"

definition pinger_new ::
  "(string \<Rightarrow> ui64 outcome) \<Rightarrow> (string \<Rightarrow> real outcome) \<Rightarrow> (string \<Rightarrow> string outcome) \<Rightarrow> 'm factory \<Rightarrow> cfg \<Rightarrow> 'm pinger outcome" where
  "pinger_new fromDuration fromFloat openLog loader c =
     obind (ForEach (pinger_DoConsume fromDuration fromFloat openLog loader) c
         \<lparr>pn_S = None, pn_Arbiter = None, pn_Log = None, pn_Request = ''GET / HTTP/1.0'', pn_Min = 10000, pn_Max = 100000\<rparr>)
       (\<lambda>p. if pn_Arbiter p = None then Throw ConfigParseError
            else if pn_S p = None then Throw ConfigParseError
            else if pn_Max p < pn_Min p then Throw ConfigParseError
            else Ret p)"

text \<open>\<open>DoRun\<close>: how the slave ended, the arbiter, and whether the pinger is activated.\<close>

definition pinger_DoRun :: "unit outcome \<Rightarrow> arbiter \<Rightarrow> arbiter \<times> bool" where
  "pinger_DoRun result arb =
     (case result of
        Ret _ \<Rightarrow> (RegisterSucc arb, False)
      | Throw e \<Rightarrow> (let arb1 = RegisterFail arb in (arb1, \<not> Authorize arb1))
      | Crash \<Rightarrow> (arb, False))"

text \<open>
  \<open>TDuration * float\<close>. The number of microseconds is converted to a \<open>float\<close>, which rounds it to 24 significant
  bits, a tie to the even one; \<open>factor\<close> is a power of two at every call, so the product is exact. Converting
  a product of \<open>2 ^ 64\<close> or more to an integer of 64 bits is undefined: \<open>junk\<close> is what comes out.
\<close>

fun bit_length :: "nat \<Rightarrow> nat" where
  "bit_length n = (if n = 0 then 0 else Suc (bit_length (n div 2)))"

declare bit_length.simps [simp del]

definition to_float :: "nat \<Rightarrow> nat" where
  "to_float n =
     (let k = bit_length n - 24; q = n div 2 ^ k; r = n mod 2 ^ k
      in (if 2 * r > 2 ^ k \<or> 2 * r = 2 ^ k \<and> odd q then q + 1 else q) * 2 ^ k)"

definition dur_mult :: "ui64 \<Rightarrow> ui64 \<Rightarrow> real \<Rightarrow> ui64" where
  "dur_mult junk d factor =
     (let x = real (to_float (unat d)) * factor in if x < 2 ^ 64 then word_of_int \<lfloor>x\<rfloor> else junk)"

definition NextDelay :: "ui64 \<Rightarrow> 'm pinger \<Rightarrow> ui64 \<Rightarrow> real \<Rightarrow> ui64" where
  "NextDelay junk p delay factor = min (max (dur_mult junk delay factor) (pn_Min p)) (pn_Max p)"

text \<open>\<open>Ping\<close>: the slave runs on a null input and an output that only counts.\<close>

definition Ping :: "prog \<Rightarrow> bool" where
  "Ping run =
     (case run_prog (null_Recv :: unit recv) (count_Send (null_Send :: unit send)) run () (count_new ()) of
        (Ret _, _, countOut) \<Rightarrow> co_Written countOut \<noteq> 0
      | _ \<Rightarrow> False)"

text \<open>The loop \<open>while (!Arbiter_->Authorize())\<close>, with the delays it slept so far.\<close>

partial_function (option) ping_loop ::
  "ui64 \<Rightarrow> 'm pinger \<Rightarrow> (nat \<Rightarrow> bool list) \<Rightarrow> (nat \<Rightarrow> prog) \<Rightarrow> nat \<Rightarrow> ui64 \<Rightarrow> arbiter \<Rightarrow> ui64 list \<Rightarrow> (ui64 list \<times> arbiter) option" where
  "ping_loop junk p others run k delay arb slept =
     (if Authorize arb then Some (slept, arb)
      else let arb1 = foldl register arb (others k); slept1 = slept @ [delay] in
        if Ping (run k)
        then ping_loop junk p others run (Suc k) (NextDelay junk p delay (1 / 2)) (RegisterSucc arb1) slept1
        else ping_loop junk p others run (Suc k) (NextDelay junk p delay 2) (RegisterFail arb1) slept1)"

text \<open>
  One turn of \<open>Pinger\<close> after its activation. \<open>shutdown\<close> says whether the server is shut down while the loop runs.
  The result has the delays and the server; \<open>None\<close> is a loop that does not end.
\<close>

definition Pinger_turn ::
  "ui64 \<Rightarrow> 'm pinger \<Rightarrow> (nat \<Rightarrow> bool list) \<Rightarrow> (nat \<Rightarrow> prog) \<Rightarrow> (net_addr \<Rightarrow> unit outcome) \<Rightarrow> bool \<Rightarrow> arbiter \<Rightarrow> 's main_task
   \<Rightarrow> (ui64 list \<times> arbiter \<times> 's main_task outcome) option" where
  "Pinger_turn junk p others run bindAddr shutdown arb s =
     (if \<not> DoListenerStarted s then Some ([], arb, Ret s)
      else let s1 = DoStopListener s; delay = NextDelay junk p (- 1) 1 in
        map_option (\<lambda>(slept, arb').
            (slept, arb', DoStartListener bindAddr (if shutdown then s1\<lparr>mt_Listener := None\<rparr> else s1)))
          (ping_loop junk p others run 0 delay arb []))"

section \<open>The statistics module\<close>

record time_stat =
  ts_Name :: string
  ts_T :: ui64
  ts_C :: ui64

definition elem_AddStat :: "ui64 \<Rightarrow> time_stat \<Rightarrow> time_stat" where
  "elem_AddStat t e = (if t \<le> ts_T e then e\<lparr>ts_C := ts_C e + 1\<rparr> else e)"

definition time_AddStat :: "ui64 \<Rightarrow> time_stat list \<Rightarrow> time_stat list" where
  "time_AddStat t es = map (elem_AddStat t) es"

definition time_DoConsume :: "(string \<Rightarrow> ui64 outcome) \<Rightarrow> string \<Rightarrow> cfg_value \<Rightarrow> time_stat list \<Rightarrow> time_stat list outcome" where
  "time_DoConsume fromDuration key v es =
     obind (AsString v) (\<lambda>str. obind (fromDuration str) (\<lambda>t. Ret (es @ [\<lparr>ts_Name = key, ts_T = t, ts_C = 0\<rparr>])))"

record 'm statistics =
  sm_Module :: "'m option"
  sm_SystemErrors :: "int \<Rightarrow> ui64"
  sm_HttpErrors :: "ui16 \<Rightarrow> ui64"
  sm_UnknownErrors :: ui64
  sm_Success :: ui64
  sm_InProgr :: ui64
  sm_Log :: "string option"
  sm_TimeStats :: "time_stat list"

definition stat_DoConsume ::
  "(string \<Rightarrow> string outcome) \<Rightarrow> (string \<Rightarrow> ui64 outcome) \<Rightarrow> 'm factory \<Rightarrow> string \<Rightarrow> cfg_value \<Rightarrow> 'm statistics \<Rightarrow> 'm statistics outcome" where
  "stat_DoConsume openLog fromDuration loader key v s =
     ON_KEY ''log'' openLog (\<lambda>x s. s\<lparr>sm_Log := Some x\<rparr>) key v s
      (if key = ''timestats'' then
         obind (AsSubConfig v) (\<lambda>sub. obind (ForEach (time_DoConsume fromDuration) sub (sm_TimeStats s)) (\<lambda>ts. Ret (s\<lparr>sm_TimeStats := ts\<rparr>)))
       else obind (AsSubConfig v) (\<lambda>sub. obind (MustLoad loader key sub) (\<lambda>m. Ret (s\<lparr>sm_Module := Some m\<rparr>))))"

definition stat_new :: "(string \<Rightarrow> string outcome) \<Rightarrow> (string \<Rightarrow> ui64 outcome) \<Rightarrow> 'm factory \<Rightarrow> cfg \<Rightarrow> 'm statistics outcome" where
  "stat_new openLog fromDuration loader c =
     obind (ForEach (stat_DoConsume openLog fromDuration loader) c
         \<lparr>sm_Module = None, sm_SystemErrors = (\<lambda>_. 0), sm_HttpErrors = (\<lambda>_. 0), sm_UnknownErrors = 0, sm_Success = 0, sm_InProgr = 0,
          sm_Log = None, sm_TimeStats = []\<rparr>)
       (\<lambda>s. if sm_Module s = None then Throw ConfigParseError else Ret s)"

text \<open>
  \<open>DoRun\<close> in two steps, since other requests run in between: \<open>TCnt\<close> and the start of the slave, and the end of the
  slave after the time \<open>t\<close>. A table of counters is a function: an absent entry is zero.
\<close>

definition stat_begin :: "'m statistics \<Rightarrow> 'm statistics" where
  "stat_begin s = s\<lparr>sm_InProgr := sm_InProgr s + 1\<rparr>"

definition stat_end :: "unit outcome \<Rightarrow> ui64 \<Rightarrow> 'm statistics \<Rightarrow> 'm statistics" where
  "stat_end result t s0 =
     (let s = s0\<lparr>sm_InProgr := sm_InProgr s0 - 1\<rparr> in
      case result of
        Ret _ \<Rightarrow> s\<lparr>sm_Success := sm_Success s + 1, sm_TimeStats := time_AddStat t (sm_TimeStats s)\<rparr>
      | Throw e \<Rightarrow>
          (case http_code e of
             Some c \<Rightarrow> s\<lparr>sm_HttpErrors := (sm_HttpErrors s)(c := sm_HttpErrors s c + 1)\<rparr>
           | None \<Rightarrow> (case e of
               SystemError st \<Rightarrow> s\<lparr>sm_SystemErrors := (sm_SystemErrors s)(st := sm_SystemErrors s st + 1)\<rparr>
             | _ \<Rightarrow> s\<lparr>sm_UnknownErrors := sm_UnknownErrors s + 1\<rparr>))
      | Crash \<Rightarrow> s)"

datatype stat_event = RunBegins | RunEnds "unit outcome" ui64

fun stat_step :: "'m statistics \<Rightarrow> stat_event \<Rightarrow> 'm statistics" where
  "stat_step s RunBegins = stat_begin s"
| "stat_step s (RunEnds result t) = stat_end result t s"

section \<open>The delays\<close>

text \<open>The first delay, of \<open>TDuration::Max()\<close>, is not the greatest one: its product is undefined.\<close>

lemma bit_length_eq: "2 ^ m \<le> n \<Longrightarrow> n < 2 ^ Suc m \<Longrightarrow> bit_length n = Suc m"
proof (induction m arbitrary: n)
  case 0
  then have "n = 1" by simp
  then show ?case by (simp add: bit_length.simps)
next
  case (Suc m)
  then have "2 ^ m \<le> n div 2" "n div 2 < 2 ^ Suc m" by auto
  with Suc show ?case by (subst bit_length.simps) auto
qed

lemma first_delay_undefined: "NextDelay junk p (- 1) 1 = min (max junk (pn_Min p)) (pn_Max p)"
proof -
  have "unat (- 1 :: ui64) = 2 ^ 64 - 1" by (simp add: unsigned_minus_1_eq_mask mask_nat_def)
  moreover have "bit_length (2 ^ 64 - 1) = Suc 63" by (rule bit_length_eq) simp_all
  then have "to_float (2 ^ 64 - 1) = 2 ^ 64" by (simp add: to_float_def)
  ultimately show ?thesis by (simp add: NextDelay_def dur_mult_def)
qed

lemma NextDelay_bounds: "pn_Min p \<le> pn_Max p \<Longrightarrow> pn_Min p \<le> NextDelay junk p d factor \<and> NextDelay junk p d factor \<le> pn_Max p"
  by (simp add: NextDelay_def)

section \<open>Arbiters recover\<close>

text \<open>After enough successes, and nothing else, the arbiter authorises and goes on to do so.\<close>

definition recovers :: "arbiter \<Rightarrow> nat \<Rightarrow> bool" where
  "recovers a n \<longleftrightarrow> (\<forall>m\<ge>n. Authorize (foldl register a (replicate m True)))"

text \<open>What the configuration must be for that: no negative steps, and a positive low watermark.\<close>

fun can_recover :: "arbiter \<Rightarrow> bool" where
  "can_recover FakeArbiter = True"
| "can_recover (AdditiveArbiter a) = (0 \<le> add_SuccSummand a)"
| "can_recover (WatermarkArbiter w) = (0 < wm_Lo w)"

lemma map_outcome_Ret_iff: "map_outcome_val f m = Ret y \<longleftrightarrow> (\<exists>x. m = Ret x \<and> y = f x)"
  by (cases m) auto

lemma add_register_one [simp]:
  "add_AlarmValue (add_register a e) = add_AlarmValue a" "add_SuccSummand (add_register a e) = add_SuccSummand a"
  by (simp_all add: add_register_def)

lemma recovers_cases: "(\<And>m. n \<le> m \<Longrightarrow> Authorize (foldl register a (replicate m True))) \<Longrightarrow> \<exists>n. recovers a n"
  by (auto simp: recovers_def)

lemma add_succ_rate: "0 \<le> add_SuccSummand a \<Longrightarrow>
  add_FailRate (foldl add_register a (replicate m True)) \<le> max 0 (add_FailRate a - real m * add_SuccSummand a) \<or> m = 0"
proof (induction m arbitrary: a)
  case (Suc m)
  define P where "P = real m * add_SuccSummand a"
  have "0 \<le> P" using Suc.prems by (simp add: P_def)
  then have "max 0 (max 0 (add_FailRate a - add_SuccSummand a) - P) = max 0 (add_FailRate a - add_SuccSummand a - P)" by linarith
  moreover have "real (Suc m) * add_SuccSummand a = add_SuccSummand a + P" by (simp add: P_def algebra_simps)
  ultimately show ?case using Suc.IH [of "add_register a True"] Suc.prems
    by (cases "m = 0") (simp_all add: add_register_rate P_def [symmetric] diff_diff_eq)
qed simp

lemma add_recovers:
  assumes "add_AlarmValue a = (if add_SuccSummand a = 0 then None else Some (1 / add_SuccSummand a))" and "0 \<le> add_SuccSummand a"
  shows "\<exists>n. recovers (AdditiveArbiter a) n"
proof (cases "add_SuccSummand a = 0")
  case True
  show ?thesis using assms(1) True by (auto simp: recovers_def register_Additive add_Authorize_def)
next
  case False
  let ?s = "add_SuccSummand a"
  have pos: "0 < ?s" using assms(2) False by simp
  have al: "add_AlarmValue (foldl add_register a es) = Some (1 / ?s)" for es using assms(1) False by simp
  obtain n :: nat where n: "add_FailRate a / ?s \<le> real n" using real_arch_simple by blast
  show ?thesis
  proof (rule recovers_cases [of "Suc n"])
    fix m assume m: "Suc n \<le> m"
    have "add_FailRate a \<le> real n * ?s" using n pos by (simp add: pos_divide_le_eq)
    also have "\<dots> \<le> real m * ?s" using m pos by (intro mult_right_mono) auto
    finally have "add_FailRate (foldl add_register a (replicate m True)) \<le> 0" using add_succ_rate [of a m] m assms(2) by auto
    moreover have "0 < 1 / ?s" using pos by simp
    ultimately show "Authorize (foldl register (AdditiveArbiter a) (replicate m True))"
      unfolding register_Additive Authorize.simps add_Authorize_def al by (simp del: zero_less_divide_1_iff)
  qed
qed

lemma constructed_recovers:
  assumes "ConstructArbiter fromFloat name c = Ret (Some a0)" and "can_recover a0"
  shows "\<exists>n. recovers (foldl register a0 es) n"
proof (cases a0)
  case FakeArbiter
  have "foldl register FakeArbiter xs = FakeArbiter" for xs by (induction xs) (simp_all add: register_def)
  then show ?thesis using FakeArbiter by (simp add: recovers_def)
next
  case (AdditiveArbiter a)
  have a: "add_AlarmValue a = (if add_SuccSummand a = 0 then None else Some (1 / add_SuccSummand a))"
  proof -
    have "add_new fromFloat c = Ret a" using assms(1) AdditiveArbiter by (auto simp: ConstructArbiter_def map_outcome_Ret_iff split: if_splits)
    then show ?thesis by (auto simp: add_new_def obind_Ret_iff)
  qed
  show ?thesis using add_recovers [of "foldl add_register a es"] a assms(2) AdditiveArbiter by (simp add: register_Additive)
next
  case (WatermarkArbiter w)
  have w: "wm_new fromFloat c = Ret w" using assms(1) WatermarkArbiter by (auto simp: ConstructArbiter_def map_outcome_Ret_iff split: if_splits)
  obtain n where n: "Authorize (foldl register (WatermarkArbiter w) (es @ replicate n True))"
    using watermark_recovers [OF w] assms(2) WatermarkArbiter by auto
  show ?thesis
  proof (rule recovers_cases [of n])
    fix m assume "n \<le> m"
    then have "replicate m True = replicate n True @ replicate (m - n) True" by (simp flip: replicate_add)
    then show "Authorize (foldl register (foldl register a0 es) (replicate m True))"
      using n wm_succ_keeps [of "foldl wm_register (foldl wm_register w es) (replicate n True)" "m - n"] WatermarkArbiter
      by (simp add: register_Watermark wm_Authorize_def)
  qed
qed

section \<open>The loop of the pinger\<close>

definition in_range :: "'m pinger \<Rightarrow> ui64 \<Rightarrow> bool" where
  "in_range p d \<longleftrightarrow> pn_Min p \<le> d \<and> d \<le> pn_Max p"

text \<open>One iteration, and what it leaves of the arbiter.\<close>

lemma ping_loop_step:
  assumes "\<not> Authorize arb"
  shows "ping_loop junk p others run k delay arb slept
    = ping_loop junk p others run (Suc k) (NextDelay junk p delay (if Ping (run k) then 1 / 2 else 2)) (foldl register arb (others k @ [Ping (run k)])) (slept @ [delay])"
  using assms by (subst ping_loop.simps) (simp add: Let_def register_def)

lemma ping_loop_done: "Authorize arb \<Longrightarrow> ping_loop junk p others run k delay arb slept = Some (slept, arb)"
  by (subst ping_loop.simps) simp

definition loop_ends :: "'m pinger \<Rightarrow> ui64 list \<Rightarrow> (ui64 list \<times> arbiter) option \<Rightarrow> bool" where
  "loop_ends p slept r \<longleftrightarrow> (\<exists>ds arb'. r = Some (slept @ ds, arb') \<and> Authorize arb' \<and> (\<forall>d\<in>set ds. in_range p d))"

lemma loop_ends_Cons: "loop_ends p (slept @ [delay]) r \<Longrightarrow> in_range p delay \<Longrightarrow> loop_ends p slept r"
  unfolding loop_ends_def by fastforce

lemma ping_loop_recovers:
  assumes good: "\<And>k. K \<le> k \<Longrightarrow> Ping (run k) \<and> (\<forall>r\<in>set (others k). r)" and range: "pn_Min p \<le> pn_Max p"
    and "K \<le> k" and "recovers arb n" and "in_range p delay"
  shows "loop_ends p slept (ping_loop junk p others run k delay arb slept)"
  using assms(3-)
proof (induction n arbitrary: k delay arb slept)
  case 0
  then have "Authorize arb" by (auto simp: recovers_def dest: spec [of _ 0])
  then show ?case by (simp add: ping_loop_done loop_ends_def)
next
  case (Suc n)
  show ?case
  proof (cases "Authorize arb")
    case False
    let ?l = "Suc (length (others k))"
    have "others k @ [Ping (run k)] = replicate ?l True"
      using good [OF Suc.prems(1)] by (intro replicate_eqI) auto
    moreover have "recovers (foldl register arb (replicate ?l True)) n"
      unfolding recovers_def
    proof (intro allI impI)
      fix m assume "n \<le> m"
      then have "Authorize (foldl register arb (replicate (?l + m) True))" using Suc.prems(2) by (simp add: recovers_def del: replicate.simps)
      then show "Authorize (foldl register (foldl register arb (replicate ?l True)) (replicate m True))" by (simp only: foldl_append replicate_add)
    qed
    ultimately have "loop_ends p (slept @ [delay]) (ping_loop junk p others run k delay arb slept)"
      unfolding ping_loop_step [OF False] using Suc.prems(1) NextDelay_bounds [OF range]
      by (intro Suc.IH) (auto simp: in_range_def)
    then show ?thesis using loop_ends_Cons Suc.prems(3) by blast
  qed (simp add: ping_loop_done loop_ends_def)
qed

lemma ping_loop_ends:
  assumes good: "\<And>k. K \<le> k \<Longrightarrow> Ping (run k) \<and> (\<forall>r\<in>set (others k). r)" and range: "pn_Min p \<le> pn_Max p"
    and rec: "\<And>es. \<exists>n. recovers (foldl register a0 es) n" and "in_range p delay"
  shows "loop_ends p slept (ping_loop junk p others run k delay (foldl register a0 es) slept)"
  using assms(4)
proof (induction "K - k" arbitrary: k delay es slept)
  case 0
  obtain n where "recovers (foldl register a0 es) n" using rec by blast
  then show ?case using ping_loop_recovers [OF good range] 0 by simp
next
  case (Suc j)
  show ?case
  proof (cases "Authorize (foldl register a0 es)")
    case False
    have "loop_ends p (slept @ [delay]) (ping_loop junk p others run k delay (foldl register a0 es) slept)"
      unfolding ping_loop_step [OF False] foldl_append [symmetric]
      using Suc.hyps NextDelay_bounds [OF range] by (intro Suc.hyps(1)) (auto simp: in_range_def)
    then show ?thesis using loop_ends_Cons Suc.prems by blast
  qed (simp add: ping_loop_done loop_ends_def)
qed

lemma pinger_new_spec:
  assumes "pinger_new fromDuration fromFloat openLog loader c = Ret p" and "pn_Arbiter p = Some a0"
  shows "pn_Min p \<le> pn_Max p" and "\<exists>name sub. ConstructArbiter fromFloat name sub = Ret (Some a0)"
proof -
  have f: "ForEach (pinger_DoConsume fromDuration fromFloat openLog loader) c
         \<lparr>pn_S = None, pn_Arbiter = None, pn_Log = None, pn_Request = ''GET / HTTP/1.0'', pn_Min = 10000, pn_Max = 100000\<rparr> = Ret p"
    using assms(1) by (auto simp: pinger_new_def obind_Ret_iff split: if_splits)
  show "pn_Min p \<le> pn_Max p" using assms(1) by (auto simp: pinger_new_def obind_Ret_iff split: if_splits)
  have "\<forall>a. pn_Arbiter p = Some a \<longrightarrow> (\<exists>name sub. ConstructArbiter fromFloat name sub = Ret (Some a))"
    by (rule ofold_invariant [OF f [unfolded ForEach_def]])
      (auto simp: pinger_DoConsume_def ON_KEY_def obind_Ret_iff split: if_splits prod.splits option.splits, blast)
  then show "\<exists>name sub. ConstructArbiter fromFloat name sub = Ret (Some a0)" using assms(2) by blast
qed

lemma DoStartListener_ok:
  assumes "\<And>a. bindAddr a = Ret ()"
  shows "DoStartListener bindAddr (DoStopListener s) = Ret (s\<lparr>mt_Listener := Some \<lparr>ls_Bound = mt_ListenAddrs s, ls_Listening = True\<rparr>\<rparr>)"
proof -
  have "ofold (\<lambda>a l. obind (bindAddr a) (\<lambda>_. Ret (l\<lparr>ls_Bound := ls_Bound l @ [a]\<rparr>))) addrs l = Ret (l\<lparr>ls_Bound := ls_Bound l @ addrs\<rparr>)" for addrs and l :: listener
    by (induction addrs arbitrary: l) (simp_all add: assms)
  then show ?thesis by (simp add: DoStartListener_def DoStopListener_def)
qed

section \<open>Properties\<close>

text \<open>
  C27. When the pinger brings the server back. Whatever was registered with its arbiter before, if the
  arbiter can recover (\<open>can_recover\<close>: no negative step of an additive arbiter and a positive low watermark of a
  watermark arbiter; one with \<open>lo = 0\<close> never authorises again) and from some ping on the slave answers and
  no other request fails, the loop ends, with the arbiter authorising again, and it never sleeps less than
  \<open>mindelay\<close> or more than \<open>maxdelay\<close>. If moreover every address can be bound and the server was not shut down
  meanwhile, the listener is then bound to all addresses and listens; if the server was shut down,
  starting the listener crashes.
\<close>

theorem pinger_recovers:
  assumes new: "pinger_new fromDuration fromFloat openLog loader c = Ret p" "pn_Arbiter p = Some a0" and rec: "can_recover a0"
    and good: "\<And>k. K \<le> k \<Longrightarrow> Ping (run k) \<and> (\<forall>r\<in>set (others k). r)"
    and up: "DoListenerStarted s" "\<And>a. bindAddr a = Ret ()"
  shows "\<exists>slept arb'. Pinger_turn junk p others run bindAddr shutdown (foldl register a0 es) s
      = Some (slept, arb', if shutdown then Crash else Ret (s\<lparr>mt_Listener := Some \<lparr>ls_Bound = mt_ListenAddrs s, ls_Listening = True\<rparr>\<rparr>))
    \<and> Authorize arb' \<and> (\<forall>d\<in>set slept. pn_Min p \<le> d \<and> d \<le> pn_Max p)"
proof -
  note p = pinger_new_spec [OF new]
  have "\<exists>n. recovers (foldl register a0 es) n" for es using p(2) constructed_recovers [OF _ rec] by blast
  from ping_loop_ends [OF good p(1) this, where delay = "NextDelay junk p (- 1) 1" and slept = "[]" and k = 0 and es = es and junk = junk]
  have "loop_ends p [] (ping_loop junk p others run 0 (NextDelay junk p (- 1) 1) (foldl register a0 es) [])"
    using NextDelay_bounds [OF p(1)] by (simp add: in_range_def)
  then obtain ds arb' where l: "ping_loop junk p others run 0 (NextDelay junk p (- 1) 1) (foldl register a0 es) [] = Some (ds, arb')"
      "Authorize arb'" "\<forall>d\<in>set ds. in_range p d" by (auto simp: loop_ends_def)
  have "DoStartListener bindAddr (if shutdown then (DoStopListener s)\<lparr>mt_Listener := None\<rparr> else DoStopListener s)
      = (if shutdown then Crash else Ret (s\<lparr>mt_Listener := Some \<lparr>ls_Bound = mt_ListenAddrs s, ls_Listening = True\<rparr>\<rparr>))"
    using DoStartListener_ok [of bindAddr s, OF up(2)] by (simp add: DoStartListener_def)
  then show ?thesis using l up(1) by (simp add: Pinger_turn_def Let_def in_range_def)
qed

definition demo_pinger :: "unit pinger" where
  "demo_pinger = \<lparr>pn_S = Some (), pn_Arbiter = Some (AdditiveArbiter \<lparr>add_FailRate = 0, add_SuccSummand = 1 / 20, add_FailSummand = 1, add_AlarmValue = Some 20\<rparr>),
     pn_Log = None, pn_Request = ''GET / HTTP/1.0'', pn_Min = 10000, pn_Max = 100000\<rparr>"

theorem pinger_recovers_witness:
  "\<exists>slept arb'. Pinger_turn 0 demo_pinger (\<lambda>_. []) (\<lambda>k. if k < 3 then Done else SendP [''pong''] Done Fails) (\<lambda>_. Ret ()) False
      (foldl register (AdditiveArbiter \<lparr>add_FailRate = 0, add_SuccSummand = 1 / 20, add_FailSummand = 1, add_AlarmValue = Some 20\<rparr>) (replicate 20 False))
      (DoStopListener small_server) = Some (slept, arb', Ret (small_server\<lparr>mt_Listener := Some \<lparr>ls_Bound = [], ls_Listening = True\<rparr>\<rparr>))
    \<and> Authorize arb'"
proof -
  let ?a0 = "AdditiveArbiter \<lparr>add_FailRate = 0, add_SuccSummand = 1 / 20, add_FailSummand = 1, add_AlarmValue = Some 20\<rparr>"
  let ?f = "AddHandle \<lparr>h_Name = ''m'', h_Construct = (\<lambda>_. Ret ())\<rparr> (factory_new None)"
  have new: "pinger_new (\<lambda>_. Ret 0) (\<lambda>_. Ret 0) Ret ?f [(''additive'', CfgTable []), (''m'', CfgTable [])] = Ret demo_pinger"
    by (simp add: pinger_new_def ForEach_def pinger_DoConsume_def ON_KEY_def ConstructArbiter_def add_new_def MustLoad_def Load_def factory_new_def demo_pinger_def)
  have arb: "pn_Arbiter demo_pinger = Some ?a0" "can_recover ?a0" by (simp_all add: demo_pinger_def)
  have good: "\<And>k :: nat. 3 \<le> k \<Longrightarrow> Ping (if k < 3 then Done else SendP [''pong''] Done Fails) \<and> (\<forall>r\<in>set ([] :: bool list). r)"
    by (simp add: Ping_def count_Send_def null_Send_def count_new_def FullLength_def)
  have up: "DoListenerStarted (DoStopListener small_server)" by (simp add: DoListenerStarted_def DoStopListener_def)
  show ?thesis
    using pinger_recovers [OF new arb, where K = 3 and run = "\<lambda>k. if k < 3 then Done else SendP [''pong''] Done Fails" and others = "\<lambda>_. []"
        and s = "DoStopListener small_server" and bindAddr = "\<lambda>_. Ret ()" and shutdown = False and es = "replicate 20 False" and junk = 0, OF good up]
    by (simp add: DoStopListener_def small_server_def main_init_def) blast
qed

definition happened :: "(stat_event \<Rightarrow> bool) \<Rightarrow> stat_event list \<Rightarrow> ui64" where
  "happened P es = of_nat (length (filter P es))"

definition ended_with :: "(unit outcome \<Rightarrow> ui64 \<Rightarrow> bool) \<Rightarrow> stat_event \<Rightarrow> bool" where
  "ended_with P e = (case e of RunEnds r t \<Rightarrow> P r t | RunBegins \<Rightarrow> False)"

lemma happened_snoc: "happened P (es @ [e]) = happened P es + (if P e then 1 else 0)"
  by (simp add: happened_def)

text \<open>
  The counters of the statistics module. After any interleaving of runs: each kind of end has been counted
  exactly as often as it happened, every time limit has counted the successful runs within it, and the
  number in progress is the number of runs begun less the number ended (all modulo \<open>2 ^ 64\<close>).
\<close>

theorem statistics_counts:
  "let s = foldl stat_step s0 es in
      sm_Success s = sm_Success s0 + happened (ended_with (\<lambda>r t. r = Ret ())) es
    \<and> sm_HttpErrors s c = sm_HttpErrors s0 c + happened (ended_with (\<lambda>r t. \<exists>e. r = Throw e \<and> http_code e = Some c)) es
    \<and> sm_SystemErrors s st = sm_SystemErrors s0 st + happened (ended_with (\<lambda>r t. r = Throw (SystemError st))) es
    \<and> sm_UnknownErrors s = sm_UnknownErrors s0 + happened (ended_with (\<lambda>r t. \<exists>e. r = Throw e \<and> http_code e = None \<and> (\<forall>x. e \<noteq> SystemError x))) es
    \<and> sm_InProgr s = sm_InProgr s0 + happened (\<lambda>e. e = RunBegins) es - happened (\<lambda>e. e \<noteq> RunBegins) es
    \<and> sm_TimeStats s = map (\<lambda>x. x\<lparr>ts_C := ts_C x + happened (ended_with (\<lambda>r t. r = Ret () \<and> t \<le> ts_T x)) es\<rparr>) (sm_TimeStats s0)"
  unfolding Let_def
proof (induction es rule: rev_induct)
  case Nil
  then show ?case by (simp add: happened_def)
next
  case (snoc e es)
  show ?case
  proof (cases e)
    case RunBegins
    then show ?thesis using snoc by (simp add: happened_snoc ended_with_def stat_begin_def)
  next
    case (RunEnds r t)
    show ?thesis
    proof (cases r)
      case (Ret u)
      then show ?thesis using snoc RunEnds by (auto simp: happened_snoc ended_with_def stat_end_def Let_def time_AddStat_def elem_AddStat_def)
    next
      case (Throw x)
      then show ?thesis using snoc RunEnds by (cases x) (auto simp: happened_snoc ended_with_def stat_end_def Let_def)
    next
      case Crash
      then show ?thesis using snoc RunEnds by (simp add: happened_snoc ended_with_def stat_end_def Let_def)
    qed
  qed
qed

end
