(* ===== verification/Spdy.thy ===== *)
theory Spdy
  imports Http Streamiter Chunkqueue
begin

text \<open>
  The SPDY protocol of the spdy module (web/httpd/modules/spdy/module.cpp and zlib.h): the frames and header blocks
  as bytes, compression, the loop that reads the frames of a connection, and the streams it dispatches them to.

  Integers are sent in network order. The unions with bit fields are words, whose fields the compiler lays out
  from the lowest bit. Every stream has a coroutine and an object; the object is deleted when the coroutine
  ends, and a pointer to a deleted object is a number that is no longer in the table of objects. The coroutines
  and the loop take turns in any order; a sequence of events is one such order.
\<close>

unbundle bit_operations_syntax

section \<open>Reading and writing integers\<close>

definition be_bytes :: "nat \<Rightarrow> nat \<Rightarrow> bytes" where
  "be_bytes len n = map (\<lambda>i. char_of (n div 256 ^ i)) (rev [0..<len])"

definition be_value :: "bytes \<Rightarrow> nat" where
  "be_value bs = foldl (\<lambda>n c. n * 256 + of_char c) 0 bs"

text \<open>\<open>TSaver::Save\<close> of a word, of a list and of a key in lower case.\<close>

definition Save16 :: "ui16 \<Rightarrow> chunks \<Rightarrow> chunks" where
  "Save16 t lst = Push (be_bytes 2 (unat t)) lst"

definition Save32 :: "ui32 \<Rightarrow> chunks \<Rightarrow> chunks" where
  "Save32 t lst = Push (be_bytes 4 (unat t)) lst"

definition SaveList :: "chunks \<Rightarrow> chunks \<Rightarrow> chunks" where
  "SaveList from lst = snd (MoveTo from lst)"

definition tolower :: "char \<Rightarrow> char" where
  "tolower c = (if 65 \<le> (of_char c :: nat) \<and> (of_char c :: nat) \<le> 90 then char_of ((of_char c :: nat) + 32) else c)"

definition SaveLowerCase :: "chunks \<Rightarrow> chunks \<Rightarrow> chunks" where
  "SaveLowerCase from lst = Push (map tolower (CopyData (FullLength from) from)) lst"

text \<open>A step of a reader: the rest runs only if it returned.\<close>

definition rbind :: "'a outcome \<times> 's \<Rightarrow> ('a \<Rightarrow> 's \<Rightarrow> 'b outcome \<times> 's) \<Rightarrow> 'b outcome \<times> 's" where
  "rbind r k = (case r of (Ret x, s) \<Rightarrow> k x s | (Throw e, s) \<Rightarrow> (Throw e, s) | (Crash, s) \<Rightarrow> (Crash, s))"

definition ReadToken16 :: "'s recv \<Rightarrow> 's siter \<Rightarrow> ui16 outcome \<times> 's siter" where
  "ReadToken16 recv it = rbind (si_Read recv 2 it) (\<lambda>bs it. (Ret (of_nat (be_value bs)), it))"

definition ReadToken32 :: "'s recv \<Rightarrow> 's siter \<Rightarrow> ui32 outcome \<times> 's siter" where
  "ReadToken32 recv it = rbind (si_Read recv 4 it) (\<lambda>bs it. (Ret (of_nat (be_value bs)), it))"

section \<open>Frames\<close>

definition SYN_STREAM :: ui16 where "SYN_STREAM = 1"
definition SYN_REPLY :: ui16 where "SYN_REPLY = 2"
definition RST_STREAM :: ui16 where "RST_STREAM = 3"
definition PROTOCOL_ERROR :: ui32 where "PROTOCOL_ERROR = 1"
definition INTERNAL_ERROR :: ui32 where "INTERNAL_ERROR = 6"
definition FLAG_FIN :: nat where "FLAG_FIN = 1"

text \<open>\<open>TControlHeader\<close> and the header of \<open>TDataFrame\<close>: two words and their bit fields.\<close>

record frame_header =
  fh_Field1 :: ui32
  fh_Field2 :: ui32

definition fh_Type :: "frame_header \<Rightarrow> ui16" where
  "fh_Type h = ucast (fh_Field1 h)"

definition fh_IsControl :: "ui32 \<Rightarrow> bool" where
  "fh_IsControl field \<longleftrightarrow> drop_bit 31 field \<noteq> 0"

definition fh_StreamID :: "frame_header \<Rightarrow> ui32" where
  "fh_StreamID h = take_bit 31 (fh_Field1 h)"

definition fh_Length :: "frame_header \<Rightarrow> nat" where
  "fh_Length h = unat (take_bit 24 (fh_Field2 h))"

definition fh_Flags :: "frame_header \<Rightarrow> nat" where
  "fh_Flags h = unat (drop_bit 24 (fh_Field2 h))"

text \<open>The assignments to bit fields keep the lowest bits of the value only.\<close>

definition length_flags :: "nat \<Rightarrow> nat \<Rightarrow> ui32" where
  "length_flags len flags = of_nat (len mod 2 ^ 24 + 2 ^ 24 * (flags mod 2 ^ 8))"

definition control_header :: "ui16 \<Rightarrow> nat \<Rightarrow> frame_header" where
  "control_header type len = \<lparr>fh_Field1 = of_nat (unat type + 2 ^ 16 * 2 + 2 ^ 31), fh_Field2 = length_flags len 0\<rparr>"

definition data_header :: "ui32 \<Rightarrow> nat \<Rightarrow> nat \<Rightarrow> frame_header" where
  "data_header sid len flags = \<lparr>fh_Field1 = take_bit 31 sid, fh_Field2 = length_flags len flags\<rparr>"

definition header_Save :: "frame_header \<Rightarrow> chunks \<Rightarrow> chunks" where
  "header_Save h lst = Save32 (fh_Field2 h) (Save32 (fh_Field1 h) lst)"

text \<open>\<open>TDataFrame::Save\<close> with the flags of its constructor, and \<open>Send(TDataFrame&)\<close>.\<close>

definition data_Send :: "ui32 \<Rightarrow> nat \<Rightarrow> chunks \<Rightarrow> chunks" where
  "data_Send sid flags data = snd (MoveTo data (header_Save (data_header sid (FullLength data) flags) []))"

text \<open>\<open>Send(T&)\<close> for a control frame with its saved content.\<close>

definition control_Send :: "ui16 \<Rightarrow> chunks \<Rightarrow> chunks" where
  "control_Send type lst = snd (MoveTo lst (header_Save (control_header type (FullLength lst)) []))"

definition rst_Save :: "ui32 \<Rightarrow> ui32 \<Rightarrow> chunks" where
  "rst_Save sid code = Save32 code (Save32 sid [])"

definition SendRst :: "ui32 \<Rightarrow> ui32 \<Rightarrow> chunks" where
  "SendRst sid err = control_Send RST_STREAM (rst_Save sid err)"

section \<open>Header blocks\<close>

definition ReadString :: "'s recv \<Rightarrow> 's siter \<Rightarrow> chunks outcome \<times> 's siter" where
  "ReadString recv it = rbind (ReadToken16 recv it) (\<lambda>len it. si_ReadList recv [] (unat len) it)"

record headers_block =
  hb_Request :: request
  hb_method :: chunks
  hb_request :: chunks
  hb_version :: chunks

text \<open>\<open>TStringBuf::After\<close>, \<open>Skip\<close> and \<open>Split\<close>.\<close>

definition sb_After :: "char \<Rightarrow> bytes \<Rightarrow> bytes" where
  "sb_After c s = (if c \<in> set s then tl (dropWhile (\<lambda>x. x \<noteq> c) s) else s)"

definition sb_Split :: "char \<Rightarrow> bytes \<Rightarrow> bytes \<times> bytes" where
  "sb_Split c s = (takeWhile (\<lambda>x. x \<noteq> c) s, tl (dropWhile (\<lambda>x. x \<noteq> c) s))"

definition SplitUrl :: "chunks \<Rightarrow> chunks \<Rightarrow> chunks \<Rightarrow> chunks \<times> chunks" where
  "SplitUrl url host req =
     (case url of
        [chunk] \<Rightarrow>
          (let (hoststr, reqstr) = sb_Split (CHR ''/'') (drop 2 (sb_After (CHR '':'') chunk)) in
           (Push hoststr host, if reqstr = [] then Push ''/'' req else Push (CHR ''/'' # reqstr) req))
      | _ \<Rightarrow> (host, req))"

definition parse_field :: "chunks \<Rightarrow> chunks \<Rightarrow> headers_block \<Rightarrow> headers_block" where
  "parse_field key val hb =
     (if chunks_eq key ''method'' then hb\<lparr>hb_method := val\<rparr>
      else if chunks_eq key ''url'' then
        (let (i, req) = AddHeader_key ''host'' (hb_Request hb); h = r_Headers req ! i;
             (host, r) = SplitUrl val (h_Value h) (hb_request hb) in
         hb\<lparr>hb_Request := req\<lparr>r_Headers := (r_Headers req)[i := h\<lparr>h_Value := host\<rparr>]\<rparr>, hb_request := r\<rparr>)
      else if chunks_eq key ''version'' then hb\<lparr>hb_version := val\<rparr>
      else hb\<lparr>hb_Request := (hb_Request hb)\<lparr>r_Headers := r_Headers (hb_Request hb) @ [\<lparr>h_Key = key, h_Value = val\<rparr>]\<rparr>\<rparr>)"

fun parse_fields :: "'s recv \<Rightarrow> nat \<Rightarrow> headers_block \<Rightarrow> 's siter \<Rightarrow> headers_block outcome \<times> 's siter" where
  "parse_fields recv 0 hb it = (Ret hb, it)"
| "parse_fields recv (Suc n) hb it =
     rbind (ReadString recv it) (\<lambda>key it. rbind (ReadString recv it) (\<lambda>val it. parse_fields recv n (parse_field key val hb) it))"

definition block_finish :: "headers_block \<Rightarrow> request outcome" where
  "block_finish hb =
     (if hb_method hb = [] \<or> hb_request hb = [] \<or> hb_version hb = [] then Throw Yexception
      else Ret ((hb_Request hb)\<lparr>r_Request :=
        snd (MoveTo (hb_version hb) (Push '' '' (snd (MoveTo (hb_request hb) (Push '' '' (hb_method hb))))))\<rparr>))"

definition block_Parse :: "'s recv \<Rightarrow> 's siter \<Rightarrow> request outcome \<times> 's siter" where
  "block_Parse recv it =
     rbind (ReadToken16 recv it) (\<lambda>fields it.
     rbind (parse_fields recv (unat fields) \<lparr>hb_Request = request_new, hb_method = [], hb_request = [], hb_version = []\<rparr> it) (\<lambda>hb it.
       (block_finish hb, it)))"

text \<open>\<open>SplitRequest\<close> on the request line of a response, and \<open>SaveHeaders\<close>.\<close>

definition SplitRequest :: "chunks \<Rightarrow> (chunks \<times> chunks \<times> chunks) outcome" where
  "SplitRequest req = obind (Split 8 req) (\<lambda>(version, tmp). obind (Split 1 tmp) (\<lambda>(req', status). Ret (req', status, version)))"

fun save_fields :: "header list \<Rightarrow> chunks \<Rightarrow> chunks" where
  "save_fields [] lst = lst"
| "save_fields (h # hs) lst =
     save_fields hs (SaveList (h_Value h) (Save16 (of_nat (FullLength (h_Value h))) (SaveLowerCase (h_Key h) (Save16 (of_nat (FullLength (h_Key h))) lst))))"

text \<open>
  The two calls of \<open>AddHeader\<close> are arguments of one call, here evaluated from left to right. The request keeps
  the keys; its values have moved to \<open>lst\<close>.
\<close>

definition SaveHeaders :: "request \<Rightarrow> chunks \<Rightarrow> (chunks \<times> request) outcome" where
  "SaveHeaders req lst =
     (let (i, req1) = AddHeader_key ''status'' req; (j, req2) = AddHeader_key ''version'' req1 in
      obind (SplitRequest (r_Request req2)) (\<lambda>(line, status, version).
        let hs = r_Headers req2; hs1 = hs[i := (hs ! i)\<lparr>h_Value := status\<rparr>];
            hs2 = hs1[j := (hs1 ! j)\<lparr>h_Value := version\<rparr>] in
        Ret (save_fields hs2 (Save16 (of_nat (length hs2)) lst),
             req2\<lparr>r_Request := line, r_Headers := map (\<lambda>h. h\<lparr>h_Value := []\<rparr>) hs2\<rparr>)))"

section \<open>Compression (zlib.h)\<close>

text \<open>
  The calls of zlib are parameters. A call gets the bytes at \<open>next_in\<close> and the room at \<open>next_out\<close> and gives the
  return code, the bytes it wrote, the bytes it left and the state.
\<close>

type_synonym 'z zcall = "bytes \<Rightarrow> nat \<Rightarrow> 'z \<Rightarrow> int \<times> bytes \<times> bytes \<times> 'z"

record 'z zlib_inflate =
  zi_inflate :: "'z zcall"
  zi_SetDictionary :: "bytes \<Rightarrow> 'z \<Rightarrow> int \<times> 'z"
  zi_adler :: "'z \<Rightarrow> nat"
  zi_adler32 :: "bytes \<Rightarrow> nat"

definition Z_OK :: int where "Z_OK = 0"
definition Z_NEED_DICT :: int where "Z_NEED_DICT = 2"

text \<open>The dictionary of \<open>TDicts\<close>, which has this one only.\<close>

definition spdy_dict :: bytes where
  "spdy_dict =
     ''optionsgetheadpostputdeletetraceacceptaccept-charsetaccept-encodingaccept-'' @
     ''languageauthorizationexpectfromhostif-modified-sinceif-matchif-none-matchi'' @
     ''f-rangeif-unmodifiedsincemax-forwardsproxy-authorizationrangerefererteuser'' @
     ''-agent10010120020120220320420520630030130230330430530630740040140240340440'' @
     ''5406407408409410411412413414415416417500501502503504505accept-rangesageeta'' @
     ''glocationproxy-authenticatepublicretry-afterservervarywarningwww-authentic'' @
     ''ateallowcontent-basecontent-encodingcache-controlconnectiondatetrailertran'' @
     ''sfer-encodingupgradeviawarningcontent-languagecontent-lengthcontent-locati'' @
     ''oncontent-md5content-rangecontent-typeetagexpireslast-modifiedset-cookieMo'' @
     ''ndayTuesdayWednesdayThursdayFridaySaturdaySundayJanFebMarAprMayJunJulAugSe'' @
     ''pOctNovDecchunkedtext/htmlimage/pngimage/jpgimage/gifapplication/xmlapplic'' @
     ''ation/xhtmltext/plainpublicmax-agecharset=iso-8859-1utf-8gzipdeflateHTTP/1'' @
     ''.1statusversionurl'' @ [CHR 0x00]"

definition dict_Find :: "'z zlib_inflate \<Rightarrow> nat \<Rightarrow> bytes option" where
  "dict_Find zl k = (if k = zi_adler32 zl spdy_dict then Some spdy_dict else None)"

definition inflate_chunk :: "'z zlib_inflate \<Rightarrow> bytes \<Rightarrow> nat \<Rightarrow> 'z \<Rightarrow> int \<times> bytes \<times> 'z" where
  "inflate_chunk zl inp room z =
     (case zi_inflate zl inp room z of (rv, out1, left, z1) \<Rightarrow>
        if rv = Z_NEED_DICT then
          (case dict_Find zl (zi_adler zl z1) of
             None \<Rightarrow> (rv, out1, z1)
           | Some dict \<Rightarrow>
               (case zi_SetDictionary zl dict z1 of (rv2, z2) \<Rightarrow>
                  if rv2 = Z_OK then
                    (case zi_inflate zl left (room - length out1) z2 of (rv3, out2, left2, z3) \<Rightarrow> (rv3, out1 @ out2, z3))
                  else (rv2, out1, z2)))
        else (rv, out1, z1))"

fun inflate_loop :: "'z zlib_inflate \<Rightarrow> chunks \<Rightarrow> nat \<Rightarrow> bytes \<Rightarrow> 'z \<Rightarrow> bytes outcome \<times> 'z" where
  "inflate_loop zl [] room done z = (Ret done, z)"
| "inflate_loop zl (c # from) room done z =
     (case inflate_chunk zl c room z of (rv, out, z1) \<Rightarrow>
        if rv \<noteq> Z_OK then (Throw Yexception, z1) else inflate_loop zl from (room - length out) (done @ out) z1)"

text \<open>\<open>Decompress(from, to)\<close>; the buffer has four times the length of the input.\<close>

definition Decompress :: "'z zlib_inflate \<Rightarrow> chunks \<Rightarrow> 'z \<Rightarrow> chunks outcome \<times> 'z" where
  "Decompress zl from z = rbind (inflate_loop zl from (FullLength from * 4) [] z) (\<lambda>done z. (Ret (Push done []), z))"

record 'd zlib_deflate =
  zd_deflate :: "bool \<Rightarrow> 'd zcall"
  zd_Bound :: "nat \<Rightarrow> 'd \<Rightarrow> nat"

text \<open>\<open>Compress(from, to)\<close>; the first argument of \<open>zd_deflate\<close> tells \<open>Z_SYNC_FLUSH\<close> from \<open>Z_NO_FLUSH\<close>.\<close>

fun deflate_loop :: "'d zlib_deflate \<Rightarrow> chunks \<Rightarrow> nat \<Rightarrow> bytes \<Rightarrow> bytes \<Rightarrow> 'd \<Rightarrow> bytes outcome \<times> 'd" where
  "deflate_loop zl [] room left done d =
     (case zd_deflate zl True left room d of (rv, out, left', d1) \<Rightarrow>
        if rv \<noteq> Z_OK then (Throw Yexception, d1) else (Ret (done @ out), d1))"
| "deflate_loop zl (c # from) room left done d =
     (case zd_deflate zl False c room d of (rv, out, left', d1) \<Rightarrow>
        if rv \<noteq> Z_OK then (Throw Yexception, d1) else deflate_loop zl from (room - length out) left' (done @ out) d1)"

definition Compress :: "'d zlib_deflate \<Rightarrow> chunks \<Rightarrow> 'd \<Rightarrow> chunks outcome \<times> 'd" where
  "Compress zl from d = rbind (deflate_loop zl from (zd_Bound zl (FullLength from) d) [] [] d) (\<lambda>done d. (Ret (Push done []), d))"

section \<open>Frames from the stream\<close>

datatype spdy_frame =
    SynStream ui32 bool request
  | RstStream ui32
  | OtherControl ui16
  | DataFrame ui32 bool chunks

text \<open>What \<open>Loop\<close> reads from, with the state of \<open>TInflate\<close> and the counter \<open>Spdy_\<close> of the module.\<close>

record ('s, 'z) spdy_in =
  in_it :: "'s siter"
  in_Inflate :: 'z
  in_Spdy :: ui64

definition on_it :: "('s siter \<Rightarrow> 'a outcome \<times> 's siter) \<Rightarrow> ('s, 'z) spdy_in \<Rightarrow> 'a outcome \<times> ('s, 'z) spdy_in" where
  "on_it f st = (case f (in_it st) of (r, it) \<Rightarrow> (r, st\<lparr>in_it := it\<rparr>))"

text \<open>\<open>TSynStreamFrame\<close>. \<open>Length - 10\<close> is computed in \<open>int\<close> and converted to \<open>size_t\<close>.\<close>

definition read_syn :: "'s recv \<Rightarrow> 'z zlib_inflate \<Rightarrow> frame_header \<Rightarrow> ('s, 'z) spdy_in \<Rightarrow> spdy_frame outcome \<times> ('s, 'z) spdy_in" where
  "read_syn recv zl ctl st =
     rbind (on_it (ReadToken32 recv) st) (\<lambda>StreamID st.
     rbind (on_it (ReadToken32 recv) st) (\<lambda>AssocID st.
     rbind (on_it (ReadToken16 recv) st) (\<lambda>Field3 st.
     rbind (on_it (si_ReadList recv [] (unat (of_int (int (fh_Length ctl) - 10) :: ui64))) st) (\<lambda>tmp st.
       case Decompress zl tmp (in_Inflate st) of (r, z) \<Rightarrow>
         (obind r (\<lambda>data. obind (fst (block_Parse null_Recv (siter_of_data data))) (\<lambda>req.
            Ret (SynStream StreamID (odd (fh_Flags ctl)) req))), st\<lparr>in_Inflate := z\<rparr>)))))"

text \<open>The rest of a frame behind its header; a turn of \<open>Loop\<close> up to the dispatch, \<open>None\<close> at the end of the stream.\<close>

definition read_body :: "'s recv \<Rightarrow> 'z zlib_inflate \<Rightarrow> frame_header \<Rightarrow> ('s, 'z) spdy_in \<Rightarrow> spdy_frame outcome \<times> ('s, 'z) spdy_in" where
  "read_body recv zl h st =
     (if fh_IsControl (fh_Field1 h) then
        (if fh_Type h = SYN_STREAM then read_syn recv zl h (st\<lparr>in_Spdy := in_Spdy st + 1\<rparr>)
         else if fh_Type h = RST_STREAM then
           rbind (on_it (ReadToken32 recv) st) (\<lambda>StreamID st. rbind (on_it (ReadToken32 recv) st) (\<lambda>StatusCode st.
             (Ret (RstStream StreamID), st)))
         else rbind (on_it (si_ReadList recv [] (fh_Length h)) st) (\<lambda>tmp st. (Ret (OtherControl (fh_Type h)), st)))
      else rbind (on_it (si_ReadList recv [] (fh_Length h)) st) (\<lambda>data st.
        (Ret (DataFrame (fh_StreamID h) (odd (fh_Flags h)) data), st)))"

definition read_frame :: "'s recv \<Rightarrow> 'z zlib_inflate \<Rightarrow> ('s, 'z) spdy_in \<Rightarrow> spdy_frame option outcome \<times> ('s, 'z) spdy_in" where
  "read_frame recv zl st =
     rbind (on_it (si_Peek recv) st) (\<lambda>more st.
       if \<not> more then (Ret None, st)
       else rbind (on_it (ReadToken32 recv) st) (\<lambda>field st. rbind (on_it (ReadToken32 recv) st) (\<lambda>field2 st.
         rbind (read_body recv zl \<lparr>fh_Field1 = field, fh_Field2 = field2\<rparr> st) (\<lambda>f st. (Ret (Some f), st)))))"

section \<open>\<open>TIntMap\<close>\<close>

text \<open>A table of pointers with 100 slots and a hash table, made when needed, for the rest.\<close>

record intmap =
  im_T :: "nat option list"
  im_H :: "(nat \<rightharpoonup> nat option) option"

definition intmap_new :: intmap where
  "intmap_new = \<lparr>im_T = replicate 100 None, im_H = None\<rparr>"

definition intmap_Map :: "intmap \<Rightarrow> intmap" where
  "intmap_Map m = (if im_H m = None then m\<lparr>im_H := Some Map.empty\<rparr> else m)"

text \<open>\<open>operator[]\<close> gives a reference: the value there and the table, which gets the key; and the assignment to it.\<close>

definition intmap_at :: "nat \<Rightarrow> intmap \<Rightarrow> nat option \<times> intmap" where
  "intmap_at n m =
     (if n < length (im_T m) then (im_T m ! n, m)
      else (let m1 = intmap_Map m; h = the (im_H m1) in
        case h n of
          Some v \<Rightarrow> (v, m1)
        | None \<Rightarrow> (None, m1\<lparr>im_H := Some (h(n \<mapsto> None))\<rparr>)))"

definition intmap_assign :: "nat \<Rightarrow> nat option \<Rightarrow> intmap \<Rightarrow> intmap" where
  "intmap_assign n v m =
     (if n < length (im_T m) then m\<lparr>im_T := (im_T m)[n := v]\<rparr>
      else (let m1 = intmap_Map m in m1\<lparr>im_H := Some ((the (im_H m1))(n \<mapsto> v))\<rparr>))"

section \<open>The streams\<close>

text \<open>\<open>TConnection\<close>: its frame, the queue of its input and the parser of its output.\<close>

record spdy_conn =
  sc_StreamID :: ui32
  sc_Headers :: request
  sc_Q :: chunk_queue
  sc_C :: parser

text \<open>
  \<open>sp_connmap\<close> holds pointers; \<open>sp_conns\<close> has the objects that exist; \<open>sp_jobs\<close> the coroutines that were created
  and have not ended; \<open>sp_Out\<close> what was sent to the connection; \<open>sp_Proto\<close> whether the \<open>TProto\<close> exists.
\<close>

record 'd spdy_state =
  sp_connmap :: intmap
  sp_conns :: "nat \<rightharpoonup> spdy_conn"
  sp_jobs :: "nat set"
  sp_next :: nat
  sp_Out :: chunks
  sp_Deflate :: 'd
  sp_Proto :: bool

definition spdy_init :: "'d \<Rightarrow> 'd spdy_state" where
  "spdy_init d = \<lparr>sp_connmap = intmap_new, sp_conns = Map.empty, sp_jobs = {}, sp_next = 0, sp_Out = [],
     sp_Deflate = d, sp_Proto = True\<rparr>"

text \<open>\<open>Conn->Output->Send\<close>, and a call of a method of the object at a pointer.\<close>

definition spdy_Send :: "chunks \<Rightarrow> 'd spdy_state \<Rightarrow> unit outcome \<times> 'd spdy_state" where
  "spdy_Send lst s = (if sp_Proto s then (Ret (), s\<lparr>sp_Out := snd (MoveTo lst (sp_Out s))\<rparr>) else (Crash, s))"

definition conn_update :: "nat \<Rightarrow> (spdy_conn \<Rightarrow> spdy_conn) \<Rightarrow> 'd spdy_state \<Rightarrow> unit outcome \<times> 'd spdy_state" where
  "conn_update p f s =
     (case sp_conns s p of None \<Rightarrow> (Crash, s) | Some c \<Rightarrow> (Ret (), s\<lparr>sp_conns := (sp_conns s)(p \<mapsto> f c)\<rparr>))"

definition FinishRead :: "spdy_conn \<Rightarrow> spdy_conn" where
  "FinishRead c = c\<lparr>sc_Q := fst (queue_Stop [] (sc_Q c))\<rparr>"

definition conn_new :: "ui32 \<Rightarrow> bool \<Rightarrow> request \<Rightarrow> spdy_conn" where
  "conn_new sid fin req =
     (let c = \<lparr>sc_StreamID = sid, sc_Headers = req, sc_Q = chunk_queue_new, sc_C = push_parse_new\<rparr> in
      if fin then FinishRead c else c)"

definition conn_Reset :: "spdy_conn \<Rightarrow> spdy_conn" where
  "conn_Reset c = FinishRead c"

definition OnDataFrame :: "bool \<Rightarrow> chunks \<Rightarrow> spdy_conn \<Rightarrow> spdy_conn" where
  "OnDataFrame fin data c =
     (let c1 = c\<lparr>sc_Q := fst (queue_Push data [] (sc_Q c))\<rparr> in if fin then FinishRead c1 else c1)"

text \<open>
  The dispatch. The holder of a new connection whose identifier is taken deletes the object again, but the
  coroutine its constructor created stays.
\<close>

fun spdy_dispatch :: "spdy_frame \<Rightarrow> 'd spdy_state \<Rightarrow> unit outcome \<times> 'd spdy_state" where
  "spdy_dispatch (SynStream sid fin req) s =
     (let n = sp_next s; (connptr, m) = intmap_at (unat sid) (sp_connmap s);
          s1 = s\<lparr>sp_next := n + 1, sp_jobs := insert n (sp_jobs s), sp_connmap := m\<rparr> in
      case connptr of
        Some p \<Rightarrow> rbind (conn_update p conn_Reset s1) (\<lambda>_. spdy_Send (SendRst sid PROTOCOL_ERROR))
      | None \<Rightarrow> (Ret (), s1\<lparr>sp_conns := (sp_conns s1)(n \<mapsto> conn_new sid fin req), sp_connmap := intmap_assign (unat sid) (Some n) m\<rparr>))"
| "spdy_dispatch (RstStream sid) s =
     (let (conn, m) = intmap_at (unat sid) (sp_connmap s); s1 = s\<lparr>sp_connmap := m\<rparr> in
      case conn of None \<Rightarrow> (Ret (), s1) | Some p \<Rightarrow> conn_update p conn_Reset s1)"
| "spdy_dispatch (OtherControl type) s = (Ret (), s)"
| "spdy_dispatch (DataFrame sid fin data) s =
     (let (conn, m) = intmap_at (unat sid) (sp_connmap s); s1 = s\<lparr>sp_connmap := m\<rparr> in
      case conn of
        None \<Rightarrow> spdy_Send (SendRst sid PROTOCOL_ERROR) s1
      | Some p \<Rightarrow> conn_update p (OnDataFrame fin data) s1)"

text \<open>\<open>TSynReplyFrame::Save\<close>, then \<open>OnHeaders\<close>, \<open>OnData\<close> and \<open>DoSend\<close> of a connection.\<close>

definition reply_Save :: "'d zlib_deflate \<Rightarrow> ui32 \<Rightarrow> request \<Rightarrow> 'd \<Rightarrow> (chunks \<times> request) outcome \<times> 'd" where
  "reply_Save zl sid req d =
     (case SaveHeaders req [] of
        Ret (tmp, req') \<Rightarrow>
          rbind (Compress zl tmp d) (\<lambda>tmp d. (Ret (snd (MoveTo tmp (Save16 0 (Save32 sid []))), req'), d))
      | Throw e \<Rightarrow> (Throw e, d)
      | Crash \<Rightarrow> (Crash, d))"

definition conn_DoSend :: "'d zlib_deflate \<Rightarrow> nat \<Rightarrow> chunks \<Rightarrow> 'd spdy_state \<Rightarrow> unit outcome \<times> 'd spdy_state" where
  "conn_DoSend zl n lst s =
     (case sp_conns s n of
        None \<Rightarrow> (Crash, s)
      | Some c \<Rightarrow>
          (if HeadersParsed (sc_C c) then spdy_Send (data_Send (sc_StreamID c) 0 lst) s
           else (case push_ParseChunk lst (sc_C c) of
                   (Ret True, lst', ps) \<Rightarrow>
                     (if \<not> sp_Proto s then (Crash, s)
                      else (case reply_Save zl (sc_StreamID c) (p_Request ps) (sp_Deflate s) of (r, d) \<Rightarrow>
                        rbind (r, s\<lparr>sp_Deflate := d\<rparr>) (\<lambda>(reply, req') s.
                        rbind (spdy_Send (control_Send SYN_REPLY reply)
                          (s\<lparr>sp_conns := (sp_conns s)(n \<mapsto> c\<lparr>sc_C := ps\<lparr>p_Request := req'\<rparr>\<rparr>)\<rparr>)) (\<lambda>_ s.
                        spdy_Send (data_Send (sc_StreamID c) 0 lst') s))))
                 | (Ret False, lst', ps) \<Rightarrow> (Ret (), s\<lparr>sp_conns := (sp_conns s)(n \<mapsto> c\<lparr>sc_C := ps\<rparr>)\<rparr>)
                 | (Throw e, lst', ps) \<Rightarrow> (Throw e, s\<lparr>sp_conns := (sp_conns s)(n \<mapsto> c\<lparr>sc_C := ps\<rparr>)\<rparr>)
                 | (Crash, lst', ps) \<Rightarrow> (Crash, s))))"

text \<open>
  \<open>DoRecv\<close> of a connection: a turn of the loop of \<open>Pop\<close>, which takes what is in the queue or waits. The queue
  records in \<open>q_Got\<close> what was taken.
\<close>

definition conn_DoRecv :: "nat \<Rightarrow> 'd spdy_state \<Rightarrow> unit outcome \<times> 'd spdy_state" where
  "conn_DoRecv n s =
     (case sp_conns s n of
        None \<Rightarrow> (Crash, s)
      | Some c \<Rightarrow>
          (case queue_Pop (sc_Q c) of
             (q, PopDone b lst) \<Rightarrow> (Ret (), s\<lparr>sp_conns := (sp_conns s)(n \<mapsto> c\<lparr>sc_Q := q\<lparr>q_Got := q_Got q @ lst\<rparr>\<rparr>)\<rparr>)
           | _ \<Rightarrow> (Ret (), s)))"

text \<open>
  The coroutine of a connection sends at its end the last frame, or a reset when the module threw, and deletes
  the object. Nothing takes the pointer out of \<open>connmap\<close>.
\<close>

definition conn_end :: "nat \<Rightarrow> bool \<Rightarrow> 'd spdy_state \<Rightarrow> unit outcome \<times> 'd spdy_state" where
  "conn_end n ok s =
     (case sp_conns s n of
        None \<Rightarrow> (Crash, s)
      | Some c \<Rightarrow>
          rbind (spdy_Send (if ok then data_Send (sc_StreamID c) FLAG_FIN [] else SendRst (sc_StreamID c) INTERNAL_ERROR) s) (\<lambda>_ s1.
            (Ret (), s1\<lparr>sp_conns := (sp_conns s1)(n := None), sp_jobs := sp_jobs s1 - {n}\<rparr>)))"

text \<open>
  What happens on a connection: a turn of \<open>Loop\<close>; its end, after which \<open>DoRun\<close> destroys the \<open>TProto\<close>; a send, a
  receive and the end of a coroutine.
\<close>

datatype spdy_event = FrameArrives spdy_frame | LoopEnds | JobSends nat chunks | JobRecvs nat | JobEnds nat bool

fun spdy_step :: "'d zlib_deflate \<Rightarrow> spdy_event \<Rightarrow> 'd spdy_state \<Rightarrow> unit outcome \<times> 'd spdy_state" where
  "spdy_step zl (FrameArrives f) s = (if sp_Proto s then spdy_dispatch f s else (Ret (), s))"
| "spdy_step zl LoopEnds s = (Ret (), s\<lparr>sp_Proto := False\<rparr>)"
| "spdy_step zl (JobSends n lst) s = (if n \<in> sp_jobs s then conn_DoSend zl n lst s else (Ret (), s))"
| "spdy_step zl (JobRecvs n) s = (if n \<in> sp_jobs s then conn_DoRecv n s else (Ret (), s))"
| "spdy_step zl (JobEnds n ok) s = (if n \<in> sp_jobs s then conn_end n ok s else (Ret (), s))"

text \<open>A sequence of events stops at a crash only: an exception is seen by the module that made the call.\<close>

fun spdy_run :: "'d zlib_deflate \<Rightarrow> spdy_event list \<Rightarrow> 'd spdy_state \<Rightarrow> 'd spdy_state outcome" where
  "spdy_run zl [] s = Ret s"
| "spdy_run zl (e # es) s = (case spdy_step zl e s of (Crash, s') \<Rightarrow> Crash | (_, s') \<Rightarrow> spdy_run zl es s')"

section \<open>\<open>DoRun\<close>\<close>

record spdy_module =
  sm_Http :: ui64
  sm_Spdy :: ui64

text \<open>Which way a connection goes, and the input it has then.\<close>

datatype spdy_route = RouteHttp | RouteSpdy

definition spdy_DoRun ::
  "'s recv \<Rightarrow> 's \<Rightarrow> spdy_module \<Rightarrow> (spdy_route \<times> (chunks, 's) concat_input) outcome \<times> spdy_module" where
  "spdy_DoRun recv s m =
     (case recv s of
        (Ret msg, s') \<Rightarrow>
          (if msg = [] then (Throw (HttpParseError 400), m)
           else if IsHttp msg then (Ret (RouteHttp, concat_new msg s'), m\<lparr>sm_Http := sm_Http m + 1\<rparr>)
           else (Ret (RouteSpdy, concat_new msg s'), m))
      | (Throw e, s') \<Rightarrow> (Throw e, m)
      | (Crash, s') \<Rightarrow> (Crash, m))"

section \<open>Integers and frames as bytes\<close>

lemma be_bytes_Suc: "be_bytes (Suc len) n = char_of (n div 256 ^ len) # be_bytes len n"
  by (simp add: be_bytes_def)

lemma length_be_bytes [simp]: "length (be_bytes len n) = len"
  by (simp add: be_bytes_def)

lemma be_value_Cons: "be_value (c # bs) = of_char c * 256 ^ length bs + be_value bs"
proof -
  have "foldl (\<lambda>n c. n * 256 + of_char c) m bs = m * 256 ^ length bs + be_value bs" for m
    unfolding be_value_def by (induction bs rule: rev_induct) (simp_all add: add_mult_distrib)
  from this [of "of_char c"] show ?thesis by (simp add: be_value_def)
qed

lemma be_value_bytes: "be_value (be_bytes len n) = n mod 256 ^ len"
proof (induction len)
  case 0
  show ?case by (simp add: be_bytes_def be_value_def)
next
  case (Suc len)
  have "be_value (be_bytes (Suc len) n) = n div 256 ^ len mod 256 * 256 ^ len + n mod 256 ^ len"
    by (simp add: be_bytes_Suc be_value_Cons Suc)
  also have "\<dots> = n mod (256 ^ len * 256)" by (subst mod_mult2_eq) (simp only: mult.commute)
  finally show ?case by (simp only: power_Suc mult.commute)
qed

lemma unat_bounds: "unat (x :: ui16) < 65536" "unat (y :: ui32) < 4294967296"
proof -
  have "unat x < 2 ^ LENGTH(16)" "unat y < 2 ^ LENGTH(32)" by (rule unsigned_less)+
  then show "unat x < 65536" "unat y < 4294967296" by simp_all
qed

lemma be_value_word:
  "of_nat (be_value (be_bytes 2 (unat x))) = (x :: ui16)" "of_nat (be_value (be_bytes 4 (unat y))) = (y :: ui32)"
  using unat_bounds(1) [of x] unat_bounds(2) [of y] by (simp_all add: be_value_bytes)

lemma bytes_Save:
  "bytes_of (Save16 x lst) = bytes_of lst @ be_bytes 2 (unat x)"
  "bytes_of (Save32 y lst) = bytes_of lst @ be_bytes 4 (unat y)"
  "bytes_of (SaveList from lst) = bytes_of lst @ bytes_of from"
  "bytes_of (SaveLowerCase from lst) = bytes_of lst @ map tolower (bytes_of from)"
  by (simp_all add: Save16_def Save32_def SaveList_def SaveLowerCase_def Push_def MoveTo_def FullLength_bytes CopyData_take)

lemma rbind_Ret [simp]: "rbind (Ret x, s) k = k x s"
  by (simp add: rbind_def)

context io_input_nonempty
begin

lemma ReadToken16_spec:
  assumes "sinv it" and "scontent it = be_bytes 2 (unat x) @ rest"
  shows "\<exists>it'. ReadToken16 recv it = (Ret x, it') \<and> sinv it' \<and> scontent it' = rest"
  using Read_enough [OF assms(1), of 2] assms(2) by (auto simp: ReadToken16_def be_value_word)

lemma ReadToken32_spec:
  assumes "sinv it" and "scontent it = be_bytes 4 (unat x) @ rest"
  shows "\<exists>it'. ReadToken32 recv it = (Ret x, it') \<and> sinv it' \<and> scontent it' = rest"
  using Read_enough [OF assms(1), of 4] assms(2) by (auto simp: ReadToken32_def be_value_word)

lemma ReadString_spec:
  assumes "sinv it" and "scontent it = be_bytes 2 (unat (of_nat (length str) :: ui16)) @ str @ rest" and "length str < 2 ^ 16"
  shows "\<exists>l it'. ReadString recv it = (Ret l, it') \<and> bytes_of l = str \<and> sinv it' \<and> scontent it' = rest"
proof -
  obtain it1 where 1: "ReadToken16 recv it = (Ret (of_nat (length str)), it1)" "sinv it1" "scontent it1 = str @ rest"
    using ReadToken16_spec [OF assms(1,2)] by blast
  have "unat (of_nat (length str) :: ui16) = length str" using assms(3) by (simp add: unat_of_nat)
  then show ?thesis
    using ReadList_enough [OF 1(2), of "length str" "[]"] 1 by (auto simp: ReadString_def)
qed

end

lemma length_flags_fields:
  "fh_Length \<lparr>fh_Field1 = f, fh_Field2 = length_flags len flags\<rparr> = len mod 2 ^ 24"
  "fh_Flags \<lparr>fh_Field1 = f, fh_Field2 = length_flags len flags\<rparr> = flags mod 2 ^ 8"
proof -
  have l: "len mod 2 ^ 24 < 2 ^ 24" "flags mod 2 ^ 8 < (2 ^ 8 :: nat)" by simp_all
  then have "len mod 2 ^ 24 + 2 ^ 24 * (flags mod 2 ^ 8) < (2 ^ 32 :: nat)" by simp
  then have u: "unat (length_flags len flags) = len mod 2 ^ 24 + 2 ^ 24 * (flags mod 2 ^ 8)"
    unfolding length_flags_def by (subst unat_of_nat) (simp del: of_nat_add)
  show "fh_Length \<lparr>fh_Field1 = f, fh_Field2 = length_flags len flags\<rparr> = len mod 2 ^ 24"
    unfolding fh_Length_def by (simp add: unsigned_take_bit_eq u del: take_bit_eq_mod) (simp add: take_bit_eq_mod)
  show "fh_Flags \<lparr>fh_Field1 = f, fh_Field2 = length_flags len flags\<rparr> = flags mod 2 ^ 8"
    using l unfolding fh_Flags_def by (simp add: unsigned_drop_bit_eq u) (simp add: drop_bit_eq_div take_bit_eq_mod)
qed

lemma data_field:
  "\<not> fh_IsControl (take_bit 31 sid)" "fh_StreamID \<lparr>fh_Field1 = take_bit 31 sid, fh_Field2 = g\<rparr> = take_bit 31 sid"
  by (simp_all add: fh_IsControl_def fh_StreamID_def drop_bit_take_bit)

lemma control_field:
  "fh_IsControl (fh_Field1 (control_header type len))" "fh_Type (control_header type len) = type"
proof -
  have t: "unat type < 2 ^ 16" using unat_bounds(1) [of type] by simp
  then have u: "unat (fh_Field1 (control_header type len)) = unat type + 2 ^ 16 * 2 + 2 ^ 31"
    unfolding control_header_def frame_header.simps by (subst unat_of_nat) simp
  have "unat (drop_bit 31 (fh_Field1 (control_header type len))) = 1"
    using t by (simp add: unsigned_drop_bit_eq u) (simp add: drop_bit_eq_div take_bit_eq_mod)
  then show "fh_IsControl (fh_Field1 (control_header type len))" by (auto simp: fh_IsControl_def)
  have "unat (fh_Type (control_header type len)) = unat type"
    using t mod_mult_self1 [of "unat type" 32770 65536] by (simp add: fh_Type_def unsigned_ucast_eq u) (simp add: take_bit_eq_mod add.commute)
  then show "fh_Type (control_header type len) = type" by (simp add: word_unat_eq_iff)
qed

lemma control_length: "fh_Length (control_header type len) = len mod 2 ^ 24"
  by (simp add: control_header_def length_flags_fields)

lemma bytes_header: "bytes_of (header_Save h []) = be_bytes 4 (unat (fh_Field1 h)) @ be_bytes 4 (unat (fh_Field2 h))"
  by (simp add: header_Save_def bytes_Save)

lemma bytes_data_Send:
  "bytes_of (data_Send sid flags data) = be_bytes 4 (unat (take_bit 31 sid)) @
     be_bytes 4 (unat (length_flags (FullLength data) flags)) @ bytes_of data"
  by (simp add: data_Send_def MoveTo_def bytes_header data_header_def)

lemma bytes_control_Send:
  "bytes_of (control_Send type lst) = be_bytes 4 (unat (fh_Field1 (control_header type (FullLength lst)))) @
     be_bytes 4 (unat (fh_Field2 (control_header type (FullLength lst)))) @ bytes_of lst"
  by (simp add: control_Send_def MoveTo_def bytes_header)

text \<open>The reader on a header: the two words are read, then the branch of the frame.\<close>

lemma be_bytes_not_Nil: "be_bytes (Suc n) x \<noteq> []"
  by (simp add: be_bytes_Suc)

context io_input_nonempty
begin

abbreviation fin :: "('a, 'z) spdy_in \<Rightarrow> bool" where
  "fin st \<equiv> sinv (in_it st)"

abbreviation fcontent :: "('a, 'z) spdy_in \<Rightarrow> bytes" where
  "fcontent st \<equiv> scontent (in_it st)"

lemma on_it_Token32:
  assumes "fin st" and "fcontent st = be_bytes 4 (unat x) @ rest"
  shows "\<exists>it'. on_it (ReadToken32 recv) st = (Ret x, st\<lparr>in_it := it'\<rparr>) \<and> sinv it' \<and> scontent it' = rest"
  using ReadToken32_spec [OF assms] by (auto simp: on_it_def)

lemma on_it_ReadList:
  assumes "fin st" and "len \<le> length (fcontent st)"
  shows "\<exists>l it'. on_it (si_ReadList recv [] len) st = (Ret l, st\<lparr>in_it := it'\<rparr>) \<and> sinv it'
    \<and> bytes_of l = take len (fcontent st) \<and> scontent it' = drop len (fcontent st)"
  using ReadList_enough [OF assms, of "[]"] by (auto simp: on_it_def)

lemma read_frame_header:
  assumes "fin st" and "fcontent st = be_bytes 4 (unat (fh_Field1 h)) @ be_bytes 4 (unat (fh_Field2 h)) @ rest"
  shows "\<exists>it'. sinv it' \<and> scontent it' = rest
    \<and> read_frame recv zl st = rbind (read_body recv zl h (st\<lparr>in_it := it'\<rparr>)) (\<lambda>f st. (Ret (Some f), st))"
proof -
  have ne: "fcontent st \<noteq> []" using assms(2) be_bytes_not_Nil [of 3] by (simp add: numeral_eq_Suc)
  obtain it0 where p: "si_Peek recv (in_it st) = (Ret True, it0)" "sinv it0" "scontent it0 = fcontent st"
    using Peek_spec [OF assms(1)] ne by auto
  obtain it1 where t1: "ReadToken32 recv it0 = (Ret (fh_Field1 h), it1)" "sinv it1"
      "scontent it1 = be_bytes 4 (unat (fh_Field2 h)) @ rest"
    using ReadToken32_spec [OF p(2)] p(3) assms(2) by auto
  obtain it2 where t2: "ReadToken32 recv it1 = (Ret (fh_Field2 h), it2)" "sinv it2" "scontent it2 = rest"
    using ReadToken32_spec [OF t1(2,3)] by auto
  show ?thesis
    by (rule exI [of _ it2], cases h) (use t1(1) t2 in \<open>simp add: read_frame_def on_it_def p(1)\<close>)
qed

lemma read_data_frame:
  assumes "fin st" and "fcontent st = bytes_of (data_Send sid flags data) @ rest"
  defines "n \<equiv> FullLength data mod 2 ^ 24"
  shows "\<exists>data' it'. read_frame recv zl st = (Ret (Some (DataFrame (take_bit 31 sid) (odd flags) data')), st\<lparr>in_it := it'\<rparr>)
    \<and> bytes_of data' = take n (bytes_of data) \<and> sinv it' \<and> scontent it' = drop n (bytes_of data) @ rest"
proof -
  have n: "n \<le> length (bytes_of data)" unfolding n_def FullLength_bytes by (rule mod_less_eq_dividend)
  let ?h = "data_header sid (FullLength data) flags"
  have "fcontent st = be_bytes 4 (unat (fh_Field1 ?h)) @ be_bytes 4 (unat (fh_Field2 ?h)) @ bytes_of data @ rest"
    using assms(2) by (simp add: bytes_data_Send data_header_def)
  from read_frame_header [OF assms(1) this, of zl] obtain it1 where 1: "sinv it1" "scontent it1 = bytes_of data @ rest"
      "read_frame recv zl st = rbind (read_body recv zl ?h (st\<lparr>in_it := it1\<rparr>)) (\<lambda>f st. (Ret (Some f), st))" by blast
  have "odd (flags mod 2 ^ 8) = odd flags" by (simp add: dvd_mod_iff)
  then have b: "read_body recv zl ?h (st\<lparr>in_it := it1\<rparr>) = rbind (on_it (si_ReadList recv [] n) (st\<lparr>in_it := it1\<rparr>)) (\<lambda>data st.
      (Ret (DataFrame (take_bit 31 sid) (odd flags) data), st))"
    unfolding read_body_def data_header_def n_def length_flags_fields by (simp add: data_field)
  obtain l it2 where "on_it (si_ReadList recv [] n) (st\<lparr>in_it := it1\<rparr>) = (Ret l, st\<lparr>in_it := it2\<rparr>)" "sinv it2"
      "bytes_of l = take n (bytes_of data)" "scontent it2 = drop n (bytes_of data) @ rest"
    using on_it_ReadList [of "st\<lparr>in_it := it1\<rparr>" n] 1(1,2) n by auto
  then show ?thesis by (auto simp: 1(3) b)
qed

lemma read_rst_frame:
  assumes "fin st" and "fcontent st = bytes_of (SendRst sid err) @ rest"
  shows "\<exists>it'. read_frame recv zl st = (Ret (Some (RstStream sid)), st\<lparr>in_it := it'\<rparr>) \<and> sinv it' \<and> scontent it' = rest"
proof -
  let ?h = "control_header RST_STREAM (FullLength (rst_Save sid err))"
  have c: "fcontent st = be_bytes 4 (unat (fh_Field1 ?h)) @ be_bytes 4 (unat (fh_Field2 ?h)) @ be_bytes 4 (unat sid) @ be_bytes 4 (unat err) @ rest"
    using assms(2) by (simp add: SendRst_def bytes_control_Send) (simp add: rst_Save_def bytes_Save)
  from read_frame_header [OF assms(1) c, of zl] obtain it1 where 1: "sinv it1"
      "scontent it1 = be_bytes 4 (unat sid) @ be_bytes 4 (unat err) @ rest"
      "read_frame recv zl st = rbind (read_body recv zl ?h (st\<lparr>in_it := it1\<rparr>)) (\<lambda>f st. (Ret (Some f), st))" by blast
  obtain it2 where 2: "on_it (ReadToken32 recv) (st\<lparr>in_it := it1\<rparr>) = (Ret sid, st\<lparr>in_it := it2\<rparr>)" "sinv it2"
      "scontent it2 = be_bytes 4 (unat err) @ rest"
    using on_it_Token32 [of "st\<lparr>in_it := it1\<rparr>" sid] 1(1,2) by auto
  obtain it3 where 3: "on_it (ReadToken32 recv) (st\<lparr>in_it := it2\<rparr>) = (Ret err, st\<lparr>in_it := it3\<rparr>)" "sinv it3" "scontent it3 = rest"
    using on_it_Token32 [of "st\<lparr>in_it := it2\<rparr>" err] 2(2,3) by auto
  have "read_body recv zl ?h (st\<lparr>in_it := it1\<rparr>) = (Ret (RstStream sid), st\<lparr>in_it := it3\<rparr>)"
    using control_field [of RST_STREAM] by (simp add: read_body_def SYN_STREAM_def 2(1) 3(1)) (simp add: RST_STREAM_def)
  with 1(3) 3(2,3) show ?thesis by auto
qed

end

section \<open>Header blocks in one chunk\<close>

text \<open>\<open>Decompress\<close> gives one chunk; the iterator over its bytes, and a string cut from it.\<close>

definition one_chunk :: "bytes \<Rightarrow> chunks" where
  "one_chunk bs = (if bs = [] then [] else [bs])"

lemma bytes_one_chunk [simp]: "bytes_of (one_chunk bs) = bs"
  by (simp add: one_chunk_def)

abbreviation one_it :: "bytes \<Rightarrow> unit siter" where
  "one_it bs \<equiv> siter_of_data (one_chunk bs)"

lemma one_NextLen:
  assumes "0 < len" and "len \<le> length bs"
  shows "si_NextLen null_Recv len [] (one_it bs) = (Ret [take len bs], one_it (drop len bs))"
  using assms by (auto simp: si_NextLen_def si_Peek_def siter_of_data_def one_chunk_def Split_def SubChunk_def SubBlob_def Push_def MoveTo_def)

lemma one_Read:
  assumes "0 < len" and "len \<le> length bs"
  shows "si_Read null_Recv len (one_it bs) = (Ret (take len bs), one_it (drop len bs))"
proof -
  have "si_ReadSome null_Recv len (one_it bs) = (Ret (take len bs), one_it (drop len bs))"
    using assms by (simp add: si_ReadSome_def one_NextLen CopyData_take)
  with assms show ?thesis by (subst si_Read.simps) (auto simp: si_Read.simps)
qed

lemma one_ReadList:
  assumes "len \<le> length bs"
  shows "si_ReadList null_Recv [] len (one_it bs) = (Ret (one_chunk (take len bs)), one_it (drop len bs))"
proof (cases "len = 0")
  case True
  then show ?thesis by (simp add: si_ReadList.simps one_chunk_def)
next
  case False
  with assms have "si_ReadList null_Recv [] len (one_it bs) = si_ReadList null_Recv [take len bs] 0 (one_it (drop len bs))"
    by (subst si_ReadList.simps) (auto simp: one_NextLen FullLength_bytes MoveTo_def)
  moreover have "one_chunk (take len bs) = [take len bs]" using assms False by (auto simp: one_chunk_def)
  ultimately show ?thesis by (simp add: si_ReadList.simps [of _ _ 0])
qed

text \<open>The bytes of a block with the given keys and values.\<close>

definition str_bytes :: "bytes \<Rightarrow> bytes" where
  "str_bytes str = be_bytes 2 (length str) @ str"

definition field_bytes :: "bytes \<times> bytes \<Rightarrow> bytes" where
  "field_bytes kv = str_bytes (fst kv) @ str_bytes (snd kv)"

definition field_ok :: "bytes \<times> bytes \<Rightarrow> bool" where
  "field_ok kv \<longleftrightarrow> length (fst kv) < 2 ^ 16 \<and> length (snd kv) < 2 ^ 16"

definition block_bytes :: "(bytes \<times> bytes) list \<Rightarrow> bytes" where
  "block_bytes kvs = be_bytes 2 (length kvs) @ concat (map field_bytes kvs)"

lemma one_Token16:
  assumes "n < 2 ^ 16"
  shows "ReadToken16 null_Recv (one_it (be_bytes 2 n @ rest)) = (Ret (of_nat n), one_it rest)"
  using assms by (simp add: ReadToken16_def one_Read be_value_bytes)

lemma one_ReadString:
  assumes "length str < 2 ^ 16"
  shows "ReadString null_Recv (one_it (str_bytes str @ rest)) = (Ret (one_chunk str), one_it rest)"
  using assms one_Token16 [OF assms] by (simp add: ReadString_def str_bytes_def one_ReadList unat_of_nat)

abbreviation field_step :: "headers_block \<Rightarrow> bytes \<times> bytes \<Rightarrow> headers_block" where
  "field_step hb kv \<equiv> parse_field (one_chunk (fst kv)) (one_chunk (snd kv)) hb"

lemma one_parse_fields:
  assumes "\<forall>kv\<in>set kvs. field_ok kv"
  shows "parse_fields null_Recv (length kvs) hb (one_it (concat (map field_bytes kvs) @ rest)) = (Ret (foldl field_step hb kvs), one_it rest)"
  using assms
proof (induction kvs arbitrary: hb)
  case (Cons kv kvs)
  then have "length (fst kv) < 2 ^ 16" "length (snd kv) < 2 ^ 16" by (simp_all add: field_ok_def)
  note r = this [THEN one_ReadString]
  show ?case using Cons by (simp add: field_bytes_def r)
qed simp

lemma SplitUrl_url:
  assumes "CHR '':'' \<notin> set scheme" and "CHR ''/'' \<notin> set host" and "path = [] \<or> hd path = CHR ''/''"
  shows "SplitUrl (one_chunk (scheme @ ''://'' @ host @ path)) h r =
    (h @ [host], r @ [if path = [] then ''/'' else path])"
proof -
  have "dropWhile (\<lambda>x. x \<noteq> CHR '':'') (scheme @ ''://'' @ host @ path) = ''://'' @ host @ path"
    using assms(1) by (subst dropWhile_append2) auto
  then have a: "sb_After (CHR '':'') (scheme @ ''://'' @ host @ path) = ''//'' @ host @ path" by (simp add: sb_After_def)
  have h: "takeWhile (\<lambda>x. x \<noteq> CHR ''/'') (host @ path) = host \<and> dropWhile (\<lambda>x. x \<noteq> CHR ''/'') (host @ path) = path"
    using assms(2,3) by (induction host) (cases path, auto)
  have "one_chunk (scheme @ ''://'' @ host @ path) = [scheme @ ''://'' @ host @ path]" by (simp add: one_chunk_def)
  then have "SplitUrl (one_chunk (scheme @ ''://'' @ host @ path)) h r =
      (Push host h, if tl path = [] then Push ''/'' r else Push (CHR ''/'' # tl path) r)"
    by (simp only: SplitUrl_def list.case a sb_Split_def) (simp add: h)
  with assms(3) show ?thesis by (cases path) (auto simp: Push_def)
qed

text \<open>The headers a field gives, with \<open>host\<close> from the url.\<close>

definition field_headers :: "bytes \<Rightarrow> bytes \<times> bytes \<Rightarrow> (bytes \<times> bytes) list" where
  "field_headers host kv =
     (if fst kv = ''method'' \<or> fst kv = ''version'' then []
      else if fst kv = ''url'' then [(''host'', host)] else [kv])"

definition block_headers :: "headers_block \<Rightarrow> (bytes \<times> bytes) list" where
  "block_headers hb = snd (message_of (hb_Request hb))"

lemma field_step_cases:
  assumes "fst kv = ''url'' \<Longrightarrow> SplitUrl (one_chunk (snd kv)) [] (hb_request hb) = ([host], hb_request hb @ [path])"
  shows "hb_method (field_step hb kv) = (if fst kv = ''method'' then one_chunk (snd kv) else hb_method hb)"
    and "hb_version (field_step hb kv) = (if fst kv = ''version'' then one_chunk (snd kv) else hb_version hb)"
    and "hb_request (field_step hb kv) = (if fst kv = ''url'' then hb_request hb @ [path] else hb_request hb)"
    and "block_headers (field_step hb kv) = block_headers hb @ field_headers host kv"
    and "r_Request (hb_Request (field_step hb kv)) = r_Request (hb_Request hb)"
  using assms
  by (auto simp: parse_field_def chunks_eq_iff Let_def block_headers_def field_headers_def message_of_def
      AddHeader_key_def NewHeader_def header_new_def Push_def)

lemma fold_fields:
  assumes "distinct (map fst kvs)" and "\<forall>kv\<in>set kvs. fst kv = ''url'' \<longrightarrow> snd kv = url"
    and url: "\<And>r. SplitUrl (one_chunk url) [] r = ([host], r @ [path])"
  shows "hb_method (foldl field_step hb kvs) = (case map_of kvs ''method'' of None \<Rightarrow> hb_method hb | Some m \<Rightarrow> one_chunk m)
    \<and> hb_version (foldl field_step hb kvs) = (case map_of kvs ''version'' of None \<Rightarrow> hb_version hb | Some v \<Rightarrow> one_chunk v)
    \<and> hb_request (foldl field_step hb kvs) = hb_request hb @ (case map_of kvs ''url'' of None \<Rightarrow> [] | Some u \<Rightarrow> [path])
    \<and> block_headers (foldl field_step hb kvs) = block_headers hb @ concat (map (field_headers host) kvs)"
  using assms(1,2)
proof (induction kvs arbitrary: hb)
  case (Cons kv kvs)
  obtain k v where kv: "kv = (k, v)" by (cases kv)
  have "fst kv = ''url'' \<Longrightarrow> SplitUrl (one_chunk (snd kv)) [] (hb_request hb) = ([host], hb_request hb @ [path])"
    using Cons.prems(2) url by simp
  moreover define hb1 where "hb1 = parse_field (one_chunk k) (one_chunk v) hb"
  ultimately have c: "hb_method hb1 = (if k = ''method'' then one_chunk v else hb_method hb)"
      "hb_version hb1 = (if k = ''version'' then one_chunk v else hb_version hb)"
      "hb_request hb1 = (if k = ''url'' then hb_request hb @ [path] else hb_request hb)"
      "block_headers hb1 = block_headers hb @ field_headers host kv"
    using field_step_cases [of kv hb host path] by (simp_all add: kv)
  have n: "map_of kvs k = None" using Cons.prems(1) by (simp add: kv map_of_eq_None_iff)
  have "distinct (map fst kvs)" "\<forall>kv\<in>set kvs. fst kv = ''url'' \<longrightarrow> snd kv = url" using Cons.prems by simp_all
  note i = Cons.IH [OF this, of hb1]
  have m: "map_of (kv # kvs) x = (if x = k then Some v else map_of kvs x)" for x by (simp add: kv)
  have f: "foldl field_step hb (kv # kvs) = foldl field_step hb1 kvs" by (simp add: kv hb1_def)
  show ?case
  proof (intro conjI)
    show "hb_method (foldl field_step hb (kv # kvs)) =
        (case map_of (kv # kvs) ''method'' of None \<Rightarrow> hb_method hb | Some m \<Rightarrow> one_chunk m)"
      unfolding f m conjunct1 [OF i] c(1) using n by (cases "k = ''method''") simp_all
    show "hb_version (foldl field_step hb (kv # kvs)) =
        (case map_of (kv # kvs) ''version'' of None \<Rightarrow> hb_version hb | Some v \<Rightarrow> one_chunk v)"
      unfolding f m conjunct1 [OF conjunct2 [OF i]] c(2) using n by (cases "k = ''version''") simp_all
    show "hb_request (foldl field_step hb (kv # kvs)) =
        hb_request hb @ (case map_of (kv # kvs) ''url'' of None \<Rightarrow> [] | Some u \<Rightarrow> [path])"
      unfolding f m conjunct1 [OF conjunct2 [OF conjunct2 [OF i]]] c(3) using n by (cases "k = ''url''") simp_all
    show "block_headers (foldl field_step hb (kv # kvs)) = block_headers hb @ concat (map (field_headers host) (kv # kvs))"
      unfolding f conjunct2 [OF conjunct2 [OF conjunct2 [OF i]]] c(4) by simp
  qed
qed simp

lemma block_finish_line:
  assumes "hb_method hb = one_chunk m" and "m \<noteq> []" and "hb_version hb = one_chunk v" and "v \<noteq> []" and "hb_request hb = [path]"
  shows "\<exists>req. block_finish hb = Ret req \<and> message_of req = (m @ '' '' @ path @ '' '' @ v, block_headers hb)"
  using assms by (simp add: block_finish_def one_chunk_def MoveTo_def Push_def message_of_def block_headers_def)

text \<open>
  The header block of a request, as \<open>Decompress\<close> gives it, in one chunk: if the keys are distinct, a method
  and a version are there and the url is a scheme, a host and a path or nothing, \<open>Parse\<close> returns the request
  line made of method, path (\<open>/\<close> when there is none) and version, and the headers in their order, with \<open>host\<close> in
  the place of the url and without method and version.
\<close>

theorem spdy_headers_block:
  assumes "length kvs < 2 ^ 16" and "\<forall>kv\<in>set kvs. field_ok kv" and "distinct (map fst kvs)"
    and "map_of kvs ''method'' = Some m" and "m \<noteq> []" and "map_of kvs ''version'' = Some v" and "v \<noteq> []"
    and "map_of kvs ''url'' = Some (scheme @ ''://'' @ host @ path)"
    and "CHR '':'' \<notin> set scheme" and "CHR ''/'' \<notin> set host" and "path = [] \<or> hd path = CHR ''/''"
  shows "\<exists>req it. block_Parse null_Recv (siter_of_data [block_bytes kvs @ rest]) = (Ret req, it)
    \<and> message_of req = (m @ '' '' @ (if path = [] then ''/'' else path) @ '' '' @ v, concat (map (field_headers host) kvs))"
proof -
  let ?hb = "\<lparr>hb_Request = request_new, hb_method = [], hb_request = [], hb_version = []\<rparr>"
  have "\<forall>kv\<in>set kvs. fst kv = ''url'' \<longrightarrow> snd kv = scheme @ ''://'' @ host @ path"
    using assms(3,8) map_of_is_SomeI by fastforce
  note f = fold_fields [OF assms(3) this, of host "if path = [] then ''/'' else path" ?hb]
  have s: "SplitUrl (one_chunk (scheme @ ''://'' @ host @ path)) [] r = ([host], r @ [if path = [] then ''/'' else path])" for r
    using SplitUrl_url [OF assms(9-11), of "[]" r] by simp
  have "siter_of_data [block_bytes kvs @ rest] = one_it (be_bytes 2 (length kvs) @ concat (map field_bytes kvs) @ rest)"
    by (simp add: one_chunk_def block_bytes_def be_bytes_Suc numeral_2_eq_2)
  then have "block_Parse null_Recv (siter_of_data [block_bytes kvs @ rest]) = (block_finish (foldl field_step ?hb kvs), one_it rest)"
    using one_Token16 [OF assms(1)] one_parse_fields [OF assms(2)] assms(1)
    by (simp add: block_Parse_def unat_of_nat)
  moreover have "block_headers ?hb = []" by (simp add: block_headers_def message_of_def request_new_def)
  ultimately show ?thesis
    using block_finish_line [of "foldl field_step ?hb kvs", OF _ assms(5) _ assms(7)] f [OF s] assms(4,6,8) by fastforce
qed

theorem spdy_headers_block_witness:
  "\<exists>req it. block_Parse null_Recv (siter_of_data [block_bytes [(''method'', ''GET''), (''accept'', ''x''),
      (''url'', ''http://ya.ru/a''), (''version'', ''HTTP/1.1'')]]) = (Ret req, it)
    \<and> message_of req = (''GET /a HTTP/1.1'', [(''accept'', ''x''), (''host'', ''ya.ru'')])"
  using spdy_headers_block [of "[(''method'', ''GET''), (''accept'', ''x''), (''url'', ''http://ya.ru/a''), (''version'', ''HTTP/1.1'')]"
      "''GET''" "''HTTP/1.1''" "''http''" "''ya.ru''" "''/a''" "[]"]
  by (simp add: field_ok_def field_headers_def)

text \<open>\<open>SaveHeaders\<close> writes a block of the same form: the headers with lower-case keys, the status and the version.\<close>

abbreviation header_bytes :: "header \<Rightarrow> bytes \<times> bytes" where
  "header_bytes h \<equiv> (map tolower (bytes_of (h_Key h)), bytes_of (h_Value h))"

lemma bytes_save_fields:
  assumes "\<forall>h\<in>set hs. field_ok (header_bytes h)"
  shows "bytes_of (save_fields hs lst) = bytes_of lst @ concat (map (field_bytes \<circ> header_bytes) hs)"
  using assms
  by (induction hs arbitrary: lst) (auto simp: bytes_Save field_bytes_def str_bytes_def field_ok_def FullLength_bytes unat_of_nat)

lemma SplitRequest_line:
  "\<exists>line status version. SplitRequest req = Ret (line, status, version)
    \<and> bytes_of version = take 8 (bytes_of req) \<and> bytes_of status = drop 9 (bytes_of req)"
proof -
  obtain v tmp where 1: "Split 8 req = Ret (v, tmp)" "bytes_of v = take 8 (bytes_of req)" "bytes_of tmp = drop 8 (bytes_of req)"
    by (rule Split_spec [of 8 req]) blast
  obtain l st where 2: "Split 1 tmp = Ret (l, st)" "bytes_of st = drop 1 (bytes_of tmp)"
    by (rule Split_spec [of 1 tmp]) blast
  have "bytes_of st = drop 9 (bytes_of req)" by (simp add: 1(3) 2(2) drop_drop)
  with 1(1,2) 2(1) show ?thesis by (simp add: SplitRequest_def)
qed

text \<open>
  The headers of a response as \<open>SaveHeaders\<close> writes them for a request line and headers whose lengths fit into
  16 bits: the block of the keys in lower case with their values, in order, then \<open>status\<close> with what follows the ninth
  byte of the line and \<open>version\<close> with its first eight bytes.
\<close>

theorem spdy_response_block:
  assumes "\<forall>h\<in>set (r_Headers req). field_ok (header_bytes h)" and "length (r_Headers req) + 2 < 2 ^ 16"
    and "length (bytes_of (r_Request req)) < 2 ^ 16"
  shows "\<exists>lst req'. SaveHeaders req [] = Ret (lst, req') \<and> bytes_of lst =
    block_bytes (map header_bytes (r_Headers req) @
      [(''status'', drop 9 (bytes_of (r_Request req))), (''version'', take 8 (bytes_of (r_Request req)))])"
proof -
  obtain line status version where s: "SplitRequest (r_Request req) = Ret (line, status, version)"
      "bytes_of version = take 8 (bytes_of (r_Request req))" "bytes_of status = drop 9 (bytes_of (r_Request req))"
    using SplitRequest_line by blast
  let ?hs = "r_Headers req @ [\<lparr>h_Key = [''status''], h_Value = status\<rparr>, \<lparr>h_Key = [''version''], h_Value = version\<rparr>]"
  have "\<exists>req'. SaveHeaders req [] = Ret (save_fields ?hs (Save16 (of_nat (length ?hs)) []), req')"
    by (simp add: SaveHeaders_def AddHeader_key_def NewHeader_def header_new_def Push_def s(1) Let_def list_update_append nth_append)
  then obtain req' where r: "SaveHeaders req [] = Ret (save_fields ?hs (Save16 (of_nat (length ?hs)) []), req')" by blast
  have l: "header_bytes \<lparr>h_Key = [''status''], h_Value = status\<rparr> = (''status'', drop 9 (bytes_of (r_Request req)))"
      "header_bytes \<lparr>h_Key = [''version''], h_Value = version\<rparr> = (''version'', take 8 (bytes_of (r_Request req)))"
    by (simp_all add: tolower_def s(2,3))
  moreover have u: "unat (of_nat (length (r_Headers req) + 2) :: ui16) = length (r_Headers req) + 2"
    using assms(2) by (subst unat_of_nat) simp
  ultimately have "\<forall>h\<in>set ?hs. field_ok (header_bytes h)" using assms(1,3) by (auto simp: field_ok_def)
  from bytes_save_fields [OF this] have "bytes_of (save_fields ?hs (Save16 (of_nat (length ?hs)) [])) =
      block_bytes (map header_bytes (r_Headers req) @
        [(''status'', drop 9 (bytes_of (r_Request req))), (''version'', take 8 (bytes_of (r_Request req)))])"
    using u l by (simp add: block_bytes_def bytes_Save comp_def)
  with r show ?thesis by blast
qed

theorem spdy_response_block_witness:
  "\<exists>lst req'. SaveHeaders (AddHeader ''Server'' ''x'' (request_of ''HTTP/1.1 200 OK'')) [] = Ret (lst, req')
    \<and> bytes_of lst = block_bytes [(''server'', ''x''), (''status'', ''200 OK''), (''version'', ''HTTP/1.1'')]"
proof -
  have t: "map tolower ''Server'' = ''server''" by code_simp
  show ?thesis
    using spdy_response_block [of "AddHeader ''Server'' ''x'' (request_of ''HTTP/1.1 200 OK'')"] t
    by (simp add: AddHeader_def AddHeader_key_def NewHeader_def request_of_def request_new_def header_new_def Push_def field_ok_def)
qed

text \<open>A codec that stores what it gets, for examples.\<close>

definition stored_deflate :: "unit zlib_deflate" where
  "stored_deflate = \<lparr>zd_deflate = \<lambda>_ inp room d. (Z_OK, take room inp, drop room inp, d), zd_Bound = \<lambda>n d. n\<rparr>"

definition stored_inflate :: "unit zlib_inflate" where
  "stored_inflate = \<lparr>zi_inflate = \<lambda>inp room z. (Z_OK, take room inp, drop room inp, z), zi_SetDictionary = \<lambda>_ z. (Z_OK, z),
     zi_adler = \<lambda>_. 0, zi_adler32 = \<lambda>_. 0\<rparr>"

section \<open>\<open>TIntMap\<close> is a map\<close>

definition intmap_ok :: "intmap \<Rightarrow> bool" where
  "intmap_ok m \<longleftrightarrow> length (im_T m) = 100"

definition intmap_abs :: "intmap \<Rightarrow> nat \<rightharpoonup> nat" where
  "intmap_abs m n = (if n < 100 then im_T m ! n else (case im_H m of None \<Rightarrow> None | Some h \<Rightarrow> (case h n of None \<Rightarrow> None | Some v \<Rightarrow> v)))"

lemma intmap_new: "intmap_ok intmap_new" "intmap_abs intmap_new = Map.empty"
  by (auto simp: intmap_ok_def intmap_abs_def intmap_new_def)

lemma intmap_at:
  assumes "intmap_ok m"
  shows "\<exists>m'. intmap_at n m = (intmap_abs m n, m') \<and> intmap_ok m' \<and> intmap_abs m' = intmap_abs m"
  using assms by (auto simp: intmap_at_def intmap_abs_def intmap_Map_def intmap_ok_def Let_def fun_eq_iff split: option.splits)

lemma intmap_assign:
  assumes "intmap_ok m"
  shows "intmap_ok (intmap_assign n v m)" and "intmap_abs (intmap_assign n v m) = (intmap_abs m)(n := v)"
  using assms by (auto simp: intmap_assign_def intmap_abs_def intmap_Map_def intmap_ok_def Let_def fun_eq_iff split: option.splits)

section \<open>The streams of a connection\<close>

text \<open>
  The abstract state: for each stream the bytes that came for it and whether its input has ended; and the bytes
  sent. A frame for a stream that is not there is answered with a reset.
\<close>

type_synonym streams = "(ui32 \<rightharpoonup> bytes \<times> bool) \<times> bytes"

fun stream_frame :: "spdy_frame \<Rightarrow> streams \<Rightarrow> streams" where
  "stream_frame (SynStream sid fin req) (m, out) = (m(sid \<mapsto> ([], fin)), out)"
| "stream_frame (RstStream sid) (m, out) = (m(sid := map_option (\<lambda>(b, _). (b, True)) (m sid)), out)"
| "stream_frame (OtherControl type) (m, out) = (m, out)"
| "stream_frame (DataFrame sid fin data) (m, out) =
     (case m sid of
        None \<Rightarrow> (m, out @ bytes_of (SendRst sid PROTOCOL_ERROR))
      | Some (b, stopped) \<Rightarrow> (m(sid \<mapsto> (b @ bytes_of data, stopped \<or> fin)), out))"

fun stream_step :: "spdy_event \<Rightarrow> streams \<Rightarrow> streams" where
  "stream_step (FrameArrives f) a = stream_frame f a"
| "stream_step _ a = a"

definition conn_abs :: "spdy_conn \<Rightarrow> bytes \<times> bool" where
  "conn_abs c = (bytes_of (q_Got (sc_Q c) @ q_Chunks (sc_Q c)), q_AllDone (sc_Q c))"

definition spdy_abs :: "'d spdy_state \<Rightarrow> streams" where
  "spdy_abs s =
     (\<lambda>sid. Option.bind (intmap_abs (sp_connmap s) (unat sid)) (\<lambda>p. map_option conn_abs (sp_conns s p)), bytes_of (sp_Out s))"

text \<open>Every pointer is to the object of its stream, and the coroutines are those of the objects.\<close>

definition spdy_ok :: "'d spdy_state \<Rightarrow> bool" where
  "spdy_ok s \<longleftrightarrow> intmap_ok (sp_connmap s) \<and> sp_Proto s \<and> sp_jobs s = dom (sp_conns s) \<and> dom (sp_conns s) \<subseteq> {..<sp_next s}
    \<and> (\<forall>n p. intmap_abs (sp_connmap s) n = Some p \<longrightarrow> (\<exists>c. sp_conns s p = Some c \<and> unat (sc_StreamID c) = n))"

lemma spdy_ok_init: "spdy_ok (spdy_init d)"
  by (simp add: spdy_ok_def spdy_init_def intmap_new)

lemma conn_abs_simps:
  "conn_abs (FinishRead c) = (fst (conn_abs c), True)" "sc_StreamID (FinishRead c) = sc_StreamID c"
  "conn_abs (OnDataFrame fin data c) = (fst (conn_abs c) @ bytes_of data, snd (conn_abs c) \<or> fin)"
  "sc_StreamID (OnDataFrame fin data c) = sc_StreamID c"
  "conn_abs (conn_new sid fin req) = ([], fin)" "sc_StreamID (conn_new sid fin req) = sid"
  by (simp_all add: conn_abs_def FinishRead_def OnDataFrame_def conn_new_def Let_def queue_Stop_def queue_Push_def queue_signal_def
      event_Signal_def chunk_queue_new_def)

text \<open>Looking a stream up leaves the state as it is.\<close>

lemma spdy_lookup:
  assumes "spdy_ok s"
  shows "\<exists>m. intmap_at (unat sid) (sp_connmap s) = (intmap_abs (sp_connmap s) (unat sid), m)
    \<and> intmap_ok m \<and> intmap_abs m = intmap_abs (sp_connmap s) \<and> spdy_ok (s\<lparr>sp_connmap := m\<rparr>) \<and> spdy_abs (s\<lparr>sp_connmap := m\<rparr>) = spdy_abs s"
proof -
  obtain m where "intmap_at (unat sid) (sp_connmap s) = (intmap_abs (sp_connmap s) (unat sid), m)" "intmap_ok m"
      "intmap_abs m = intmap_abs (sp_connmap s)"
    using intmap_at [of "sp_connmap s" "unat sid"] assms by (auto simp: spdy_ok_def)
  with assms show ?thesis by (auto simp: spdy_ok_def spdy_abs_def)
qed

lemma spdy_okD:
  assumes "spdy_ok s" and "intmap_abs (sp_connmap s) n = Some p"
  obtains c where "sp_conns s p = Some c" and "unat (sc_StreamID c) = n"
  using assms unfolding spdy_ok_def by blast

lemma spdy_abs_None: "spdy_ok s \<Longrightarrow> fst (spdy_abs s) sid = None \<longleftrightarrow> intmap_abs (sp_connmap s) (unat sid) = None"
  by (cases "intmap_abs (sp_connmap s) (unat sid)") (auto simp: spdy_abs_def elim: spdy_okD)

lemma spdy_put:
  assumes "spdy_ok s" and "intmap_abs (sp_connmap s) (unat sid) = Some p" and "sc_StreamID c = sid"
  shows "spdy_ok (s\<lparr>sp_conns := (sp_conns s)(p \<mapsto> c)\<rparr>)"
    and "spdy_abs (s\<lparr>sp_conns := (sp_conns s)(p \<mapsto> c)\<rparr>) = ((fst (spdy_abs s))(sid \<mapsto> conn_abs c), snd (spdy_abs s))"
proof -
  obtain c0 where c0: "sp_conns s p = Some c0" "unat (sc_StreamID c0) = unat sid"
    using spdy_okD [OF assms(1,2)] by blast
  have other: "n = unat sid" if "intmap_abs (sp_connmap s) n = Some p" for n
    using spdy_okD [OF assms(1) that] c0 by auto
  show "spdy_ok (s\<lparr>sp_conns := (sp_conns s)(p \<mapsto> c)\<rparr>)"
    using assms(1,3) c0 other by (auto simp: spdy_ok_def)
  have "Option.bind (intmap_abs (sp_connmap s) (unat x)) (\<lambda>q. map_option conn_abs (((sp_conns s)(p \<mapsto> c)) q)) =
      ((fst (spdy_abs s))(sid \<mapsto> conn_abs c)) x" for x
  proof (cases "x = sid")
    case False
    then have "intmap_abs (sp_connmap s) (unat x) \<noteq> Some p" using other by (auto simp: word_unat_eq_iff)
    with False show ?thesis by (cases "intmap_abs (sp_connmap s) (unat x)") (auto simp: spdy_abs_def)
  qed (simp add: assms(2))
  then show "spdy_abs (s\<lparr>sp_conns := (sp_conns s)(p \<mapsto> c)\<rparr>) = ((fst (spdy_abs s))(sid \<mapsto> conn_abs c), snd (spdy_abs s))"
    by (simp add: spdy_abs_def fun_eq_iff)
qed

lemma conn_update_refines:
  assumes "spdy_ok s" and "intmap_abs (sp_connmap s) (unat sid) = Some p" and "\<And>c. sc_StreamID (f c) = sc_StreamID c"
  shows "\<exists>c s'. fst (spdy_abs s) sid = Some (conn_abs c) \<and> conn_update p f s = (Ret (), s') \<and> spdy_ok s'
    \<and> spdy_abs s' = ((fst (spdy_abs s))(sid \<mapsto> conn_abs (f c)), snd (spdy_abs s))"
proof -
  obtain c where c: "sp_conns s p = Some c" "sc_StreamID c = sid"
    using spdy_okD [OF assms(1,2)] by (auto simp: word_unat_eq_iff)
  then have "fst (spdy_abs s) sid = Some (conn_abs c)" using assms(2) by (simp add: spdy_abs_def)
  moreover have "sc_StreamID (f c) = sid" using assms(3) c(2) by simp
  ultimately show ?thesis
    using spdy_put [OF assms(1,2), of "f c"] c(1) by (auto simp: conn_update_def)
qed

lemma spdy_Send_refines:
  assumes "spdy_ok s"
  shows "\<exists>s'. spdy_Send lst s = (Ret (), s') \<and> spdy_ok s' \<and> spdy_abs s' = (fst (spdy_abs s), snd (spdy_abs s) @ bytes_of lst)"
  using assms by (auto simp: spdy_Send_def spdy_ok_def spdy_abs_def MoveTo_def)

text \<open>A new stream, a receive, and then every frame.\<close>

lemma spdy_open_refines:
  assumes ok: "spdy_ok s" and new: "fst (spdy_abs s) sid = None"
  shows "\<exists>s'. spdy_dispatch (SynStream sid fin req) s = (Ret (), s') \<and> spdy_ok s'
    \<and> spdy_abs s' = ((fst (spdy_abs s))(sid \<mapsto> ([], fin)), snd (spdy_abs s))"
proof -
  let ?n = "sp_next s" and ?c = "conn_new sid fin req"
  obtain m where m: "intmap_at (unat sid) (sp_connmap s) = (None, m)" "intmap_ok m" "intmap_abs m = intmap_abs (sp_connmap s)"
    using spdy_lookup [OF ok, of sid] spdy_abs_None [OF ok] new by auto
  let ?m = "intmap_assign (unat sid) (Some ?n) m"
  let ?s = "s\<lparr>sp_next := ?n + 1, sp_jobs := insert ?n (sp_jobs s), sp_connmap := ?m, sp_conns := (sp_conns s)(?n \<mapsto> ?c)\<rparr>"
  have p: "sp_conns s ?n = None" using ok by (force simp: spdy_ok_def)
  have a: "intmap_abs ?m = (intmap_abs (sp_connmap s))(unat sid \<mapsto> ?n)" using m(2,3) by (simp add: intmap_assign)
  have "spdy_dispatch (SynStream sid fin req) s = (Ret (), ?s)" by (simp add: m(1) Let_def)
  moreover have np: "intmap_abs (sp_connmap s) k \<noteq> Some ?n" for k using p spdy_okD [OF ok, of k ?n] by auto
  then have "spdy_ok ?s"
    using ok intmap_assign(1) [OF m(2)] by (auto simp: spdy_ok_def a conn_abs_simps)
  moreover have "Option.bind (((intmap_abs (sp_connmap s))(unat sid \<mapsto> ?n)) (unat x)) (\<lambda>q. map_option conn_abs (((sp_conns s)(?n \<mapsto> ?c)) q)) =
      ((fst (spdy_abs s))(sid \<mapsto> ([], fin))) x" for x
  proof (cases "x = sid")
    case False
    then have "unat x \<noteq> unat sid" by (simp add: word_unat_eq_iff)
    with False np [of "unat x"] show ?thesis by (cases "intmap_abs (sp_connmap s) (unat x)") (auto simp: spdy_abs_def)
  qed (simp add: conn_abs_simps)
  then have "spdy_abs ?s = ((fst (spdy_abs s))(sid \<mapsto> ([], fin)), snd (spdy_abs s))"
    by (simp add: spdy_abs_def a fun_eq_iff)
  ultimately show ?thesis by blast
qed

lemma spdy_recv_refines:
  assumes ok: "spdy_ok s" and n: "n \<in> sp_jobs s"
  shows "\<exists>s'. conn_DoRecv n s = (Ret (), s') \<and> spdy_ok s' \<and> spdy_abs s' = spdy_abs s"
proof -
  obtain c where c: "sp_conns s n = Some c" using ok n by (auto simp: spdy_ok_def)
  have up: "spdy_ok (s\<lparr>sp_conns := (sp_conns s)(n \<mapsto> c')\<rparr>) \<and> spdy_abs (s\<lparr>sp_conns := (sp_conns s)(n \<mapsto> c')\<rparr>) = spdy_abs s"
    if "sc_StreamID c' = sc_StreamID c" "conn_abs c' = conn_abs c" for c'
  proof
    have "unat (sc_StreamID c) = k" if "intmap_abs (sp_connmap s) k = Some n" for k using spdy_okD [OF ok that] c by auto
    then show "spdy_ok (s\<lparr>sp_conns := (sp_conns s)(n \<mapsto> c')\<rparr>)" using ok c that(1) by (auto simp: spdy_ok_def)
    have "map_option conn_abs (((sp_conns s)(n \<mapsto> c')) q) = map_option conn_abs (sp_conns s q)" for q
      using c that(2) by simp
    then show "spdy_abs (s\<lparr>sp_conns := (sp_conns s)(n \<mapsto> c')\<rparr>) = spdy_abs s" by (simp add: spdy_abs_def)
  qed
  show ?thesis
    using up [of "c\<lparr>sc_Q := (sc_Q c)\<lparr>q_Chunks := [], q_Got := q_Got (sc_Q c) @ q_Chunks (sc_Q c)\<rparr>\<rparr>"]
      up [of "c\<lparr>sc_Q := (sc_Q c)\<lparr>q_Got := q_Got (sc_Q c)\<rparr>\<rparr>"] ok
    by (auto simp: conn_DoRecv_def c queue_Pop_def conn_abs_def)
qed

lemma spdy_dispatch_refines:
  assumes ok: "spdy_ok s" and new: "\<And>sid fin req. f = SynStream sid fin req \<Longrightarrow> fst (spdy_abs s) sid = None"
  shows "\<exists>s'. spdy_dispatch f s = (Ret (), s') \<and> spdy_ok s' \<and> spdy_abs s' = stream_frame f (spdy_abs s)"
proof (cases f)
  case (SynStream sid fin req)
  with spdy_open_refines [OF ok new] show ?thesis by (cases "spdy_abs s") auto
next
  case (RstStream sid)
  obtain m where m: "intmap_at (unat sid) (sp_connmap s) = (intmap_abs (sp_connmap s) (unat sid), m)"
      "intmap_abs m = intmap_abs (sp_connmap s)" "spdy_ok (s\<lparr>sp_connmap := m\<rparr>)" "spdy_abs (s\<lparr>sp_connmap := m\<rparr>) = spdy_abs s"
    using spdy_lookup [OF ok] by blast
  show ?thesis
  proof (cases "intmap_abs (sp_connmap s) (unat sid)")
    case None
    then have "fst (spdy_abs s) sid = None" using spdy_abs_None [OF ok] by simp
    with None m RstStream show ?thesis by (cases "spdy_abs s") (auto simp: fun_upd_idem)
  next
    case (Some p)
    then show ?thesis
      using conn_update_refines [OF m(3), of sid p conn_Reset] m RstStream
      by (cases "spdy_abs s") (auto simp: conn_Reset_def conn_abs_simps split_beta)
  qed
next
  case (OtherControl type)
  with ok show ?thesis by (cases "spdy_abs s") simp
next
  case (DataFrame sid fin data)
  obtain m where m: "intmap_at (unat sid) (sp_connmap s) = (intmap_abs (sp_connmap s) (unat sid), m)"
      "intmap_abs m = intmap_abs (sp_connmap s)" "spdy_ok (s\<lparr>sp_connmap := m\<rparr>)" "spdy_abs (s\<lparr>sp_connmap := m\<rparr>) = spdy_abs s"
    using spdy_lookup [OF ok] by blast
  show ?thesis
  proof (cases "intmap_abs (sp_connmap s) (unat sid)")
    case None
    then have "fst (spdy_abs s) sid = None" using spdy_abs_None [OF ok] by simp
    with None m DataFrame spdy_Send_refines [OF m(3), of "SendRst sid PROTOCOL_ERROR"] show ?thesis
      by (cases "spdy_abs s") auto
  next
    case (Some p)
    then show ?thesis
      using conn_update_refines [OF m(3), of sid p "OnDataFrame fin data"] m DataFrame
      by (cases "spdy_abs s") (auto simp: conn_abs_simps split_beta)
  qed
qed

text \<open>Sequences of frames, with new identifiers in the frames that open streams, and of receives.\<close>

fun event_ok :: "spdy_event \<Rightarrow> streams \<Rightarrow> bool" where
  "event_ok (FrameArrives (SynStream sid fin req)) a \<longleftrightarrow> fst a sid = None"
| "event_ok (FrameArrives f) a \<longleftrightarrow> True"
| "event_ok (JobRecvs n) a \<longleftrightarrow> True"
| "event_ok _ a \<longleftrightarrow> False"

fun events_ok :: "spdy_event list \<Rightarrow> streams \<Rightarrow> bool" where
  "events_ok [] a \<longleftrightarrow> True"
| "events_ok (e # es) a \<longleftrightarrow> event_ok e a \<and> events_ok es (stream_step e a)"

lemma spdy_step_refines:
  assumes "spdy_ok s" and "event_ok e (spdy_abs s)"
  shows "\<exists>s'. spdy_step zl e s = (Ret (), s') \<and> spdy_ok s' \<and> spdy_abs s' = stream_step e (spdy_abs s)"
proof (cases e)
  case (FrameArrives f)
  then have "fst (spdy_abs s) sid = None" if "f = SynStream sid fin req" for sid fin req using assms(2) that by simp
  from spdy_dispatch_refines [OF assms(1) this] assms(1) show ?thesis by (auto simp: FrameArrives spdy_ok_def)
next
  case (JobRecvs n)
  with assms(1) spdy_recv_refines [OF assms(1), of n] show ?thesis by auto
qed (use assms in auto)

text \<open>
  C23. The frames of a connection reach their streams: from a state in which every pointer of \<open>connmap\<close> is alive,
  any sequence of frames and of receives of the streams, in which no identifier is opened twice, runs without a
  crash and gives every stream exactly the bytes of its data frames, in order, taken or still in its queue, ended
  by its last frame or a reset; nothing else is sent than a reset for each data frame of an unknown stream.
\<close>

theorem spdy_streams_refine:
  assumes "spdy_ok s" and "events_ok es (spdy_abs s)"
  shows "\<exists>s'. spdy_run zl es s = Ret s' \<and> spdy_ok s' \<and> spdy_abs s' = fold stream_step es (spdy_abs s)"
  using assms
proof (induction es arbitrary: s)
  case (Cons e es)
  then obtain s1 where 1: "spdy_step zl e s = (Ret (), s1)" "spdy_ok s1" "spdy_abs s1 = stream_step e (spdy_abs s)"
    using spdy_step_refines by (metis events_ok.simps(2))
  with Cons.IH [of s1] Cons.prems(2) show ?case by simp
qed simp

theorem spdy_streams_refine_witness:
  "\<exists>s'. spdy_run stored_deflate [FrameArrives (SynStream 1 False request_new), FrameArrives (DataFrame 1 False [''ab'']), JobRecvs 0,
      FrameArrives (DataFrame 1 True [''c'']), FrameArrives (DataFrame 3 False [''x''])] (spdy_init ()) = Ret s'
    \<and> fst (spdy_abs s') 1 = Some (''abc'', True) \<and> snd (spdy_abs s') = bytes_of (SendRst 3 PROTOCOL_ERROR)"
proof -
  let ?es = "[FrameArrives (SynStream 1 False request_new), FrameArrives (DataFrame 1 False [''ab'']), JobRecvs 0,
      FrameArrives (DataFrame 1 True [''c'']), FrameArrives (DataFrame 3 False [''x''])]"
  have a: "spdy_abs (spdy_init ()) = (Map.empty, [])" by (simp add: spdy_abs_def spdy_init_def intmap_new)
  have f: "fold stream_step ?es (Map.empty, []) = ([1 \<mapsto> (''abc'', True)], bytes_of (SendRst 3 PROTOCOL_ERROR))" by simp
  have "events_ok ?es (spdy_abs (spdy_init ()))" by (simp add: a)
  from spdy_streams_refine [OF spdy_ok_init this] obtain s' where
    "spdy_run stored_deflate ?es (spdy_init ()) = Ret s'" "spdy_abs s' = ([1 \<mapsto> (''abc'', True)], bytes_of (SendRst 3 PROTOCOL_ERROR))"
    unfolding a f by blast
  then show ?thesis by (intro exI [of _ s']) simp
qed

lemma conn_end_dead:
  assumes "spdy_ok s" and "intmap_abs (sp_connmap s) n = Some p"
  shows "\<exists>s'. spdy_step zl (JobEnds p ok) s = (Ret (), s') \<and> sp_Proto s' \<and> sp_connmap s' = sp_connmap s \<and> sp_conns s' p = None"
proof -
  obtain c where c: "sp_conns s p = Some c" using spdy_okD [OF assms] by blast
  moreover have "p \<in> sp_jobs s" "sp_Proto s" using assms(1) c by (auto simp: spdy_ok_def)
  ultimately show ?thesis by (simp add: conn_end_def spdy_Send_def)
qed

text \<open>
  C33. What the streams do not survive. Let a stream be open. After its coroutine has ended, a data frame, a reset or
  an opening with its identifier uses the deleted object. When its identifier is opened again, the coroutine of the
  second opening runs on a deleted object. When the connection has closed, the end of its coroutine uses the
  destroyed protocol object.
\<close>

theorem spdy_dangling:
  assumes ok: "spdy_ok s" and p: "intmap_abs (sp_connmap s) (unat sid) = Some p"
    and f: "f = DataFrame sid fin data \<or> f = RstStream sid \<or> f = SynStream sid fin req"
  shows "spdy_run zl [JobEnds p done, FrameArrives f] s = Crash
    \<and> spdy_run zl [FrameArrives (SynStream sid fin req), JobRecvs (sp_next s)] s = Crash
    \<and> spdy_run zl [LoopEnds, JobEnds p done] s = Crash"
proof (intro conjI)
  have im: "intmap_ok (sp_connmap s)" using ok by (simp add: spdy_ok_def)
  obtain m where m: "intmap_at (unat sid) (sp_connmap s) = (Some p, m)" using intmap_at [OF im, of "unat sid"] p by auto
  obtain c where c: "sp_conns s p = Some c" using spdy_okD [OF ok p] by blast
  obtain s1 where 1: "spdy_step zl (JobEnds p done) s = (Ret (), s1)" "sp_Proto s1" "sp_connmap s1 = sp_connmap s" "sp_conns s1 p = None"
    using conn_end_dead [OF ok p] by blast
  then show "spdy_run zl [JobEnds p done, FrameArrives f] s = Crash"
    using f m by (auto simp: conn_update_def rbind_def Let_def simp del: spdy_step.simps(5))
  have "sp_conns s (sp_next s) = None" "sp_Proto s" "p \<in> sp_jobs s" using ok c by (force simp: spdy_ok_def)+
  then show "spdy_run zl [FrameArrives (SynStream sid fin req), JobRecvs (sp_next s)] s = Crash"
    "spdy_run zl [LoopEnds, JobEnds p done] s = Crash"
    using m c by (auto simp: conn_update_def Let_def spdy_Send_def conn_DoRecv_def conn_end_def rbind_def)
qed

theorem spdy_dangling_witness:
  "\<exists>s. spdy_run stored_deflate [FrameArrives (SynStream 1 True request_new)] (spdy_init ()) = Ret s
    \<and> spdy_run stored_deflate [JobEnds 0 True, FrameArrives (DataFrame 1 False [''x''])] s = Crash"
proof -
  have a: "spdy_abs (spdy_init ()) = (Map.empty, [])" by (simp add: spdy_abs_def spdy_init_def intmap_new)
  obtain s where s: "spdy_step stored_deflate (FrameArrives (SynStream 1 True request_new)) (spdy_init ()) = (Ret (), s)" "spdy_ok s"
    using spdy_step_refines [OF spdy_ok_init, of "FrameArrives (SynStream 1 True request_new)" "()" stored_deflate] a by auto
  have "intmap_abs (sp_connmap s) (unat (1 :: ui32)) = Some 0"
    using s(1) by (auto simp: spdy_init_def Let_def intmap_at_def intmap_new_def intmap_assign_def intmap_abs_def)
  from spdy_dangling [OF s(2) this, where f = "DataFrame 1 False [''x'']" and data = "[''x'']" and fin = False] s(1)
  show ?thesis by (intro exI [of _ s]) auto
qed

section \<open>Frames that are read back\<close>

text \<open>
  C30. Round trip of the frames: from any input, however it cuts the bytes, the reader of \<open>Loop\<close> gets a data frame or
  a reset back as \<open>Send\<close> wrote it, with its stream, its last-frame flag and its data, and leaves the bytes behind it
  unread, if the identifier has 31 bits and the data fewer than 2 to the 24 bytes.
\<close>

theorem spdy_frame_round_trip:
  assumes "io_input_nonempty r i c" and "siter_inv i (in_it st)" and "unat sid < 2 ^ 31" and "FullLength data < 2 ^ 24"
    and "siter_content c (in_it st) = bytes_of (if reset then SendRst sid err else data_Send sid flags data) @ rest"
  shows "\<exists>f st'. read_frame r zl st = (Ret (Some f), st') \<and> siter_inv i (in_it st') \<and> siter_content c (in_it st') = rest
    \<and> (if reset then f = RstStream sid else \<exists>d. f = DataFrame sid (odd flags) d \<and> bytes_of d = bytes_of data)"
proof (cases reset)
  case True
  with io_input_nonempty.read_rst_frame [OF assms(1,2), of sid err rest zl] assms(5) show ?thesis by auto
next
  case False
  have "take_bit 31 sid = sid" using assms(3) by (simp add: word_unat_eq_iff unsigned_take_bit_eq) (simp add: take_bit_eq_mod)
  with False io_input_nonempty.read_data_frame [OF assms(1,2), of sid flags data rest zl] assms(4,5) show ?thesis
    by (auto simp: FullLength_bytes)
qed

theorem spdy_frame_round_trip_witness:
  "\<exists>f st'. read_frame owned_Recv stored_inflate
       \<lparr>in_it = siter_new [bytes_of (data_Send 5 FLAG_FIN [''ab'', ''c'']) @ ''rest''], in_Inflate = (), in_Spdy = 0\<rparr> = (Ret (Some f), st')
    \<and> siter_content bytes_of (in_it st') = ''rest'' \<and> (\<exists>d. f = DataFrame 5 True d \<and> bytes_of d = ''abc'')"
proof -
  let ?it = "siter_new [bytes_of (data_Send 5 FLAG_FIN [''ab'', ''c'']) @ ''rest'']"
  have "siter_inv owned_inv ?it" by (simp add: siter_inv_def siter_new_def owned_inv_def)
  moreover have "siter_content bytes_of ?it = bytes_of (data_Send 5 FLAG_FIN [''ab'', ''c'']) @ ''rest''"
    by (simp add: siter_content_def siter_new_def)
  ultimately show ?thesis
    using spdy_frame_round_trip [OF own.io_input_nonempty_axioms, where reset = False and sid = 5 and flags = FLAG_FIN
        and data = "[''ab'', ''c'']" and rest = "''rest''" and st = "\<lparr>in_it = ?it, in_Inflate = (), in_Spdy = 0\<rparr>" and zl = stored_inflate]
    by (simp add: FullLength_def FLAG_FIN_def) blast
qed

text \<open>
  The field of the length has 24 bits. A data frame with more is read as a frame with the remainder, and what is
  left of its data is taken for the next frame.
\<close>

lemma spdy_long_data_frame:
  assumes "io_input_nonempty r i c" and "siter_inv i (in_it st)"
    and "siter_content c (in_it st) = bytes_of (data_Send sid flags data) @ rest"
  shows "\<exists>d it'. read_frame r zl st = (Ret (Some (DataFrame (take_bit 31 sid) (odd flags) d)), st\<lparr>in_it := it'\<rparr>)
    \<and> siter_content c it' = drop (FullLength data mod 2 ^ 24) (bytes_of data) @ rest"
  using io_input_nonempty.read_data_frame [OF assms] by blast

section \<open>Decompression\<close>

text \<open>
  \<open>inflate\<close> writes no more than \<open>avail_out\<close> bytes. A block that has more than four times the bytes it was compressed
  to is cut off: what is left of the input is dropped.
\<close>

lemma inflate_chunk_bound:
  assumes "\<And>inp room z. length (fst (snd (zi_inflate zl inp room z))) \<le> room"
  shows "length (fst (snd (inflate_chunk zl c room z))) \<le> room"
proof -
  obtain rv out left z1 where 1: "zi_inflate zl c room z = (rv, out, left, z1)" by (metis prod_cases4)
  then have "length out \<le> room" using assms [of c room z] by simp
  moreover have "length (fst (snd (zi_inflate zl left (room - length out) z2))) \<le> room - length out" for z2 by (rule assms)
  ultimately show ?thesis
    by (auto simp: inflate_chunk_def 1 split: prod.splits option.splits) (metis fst_conv snd_conv le_diff_conv2 add.commute)
qed

lemma inflate_loop_bound:
  assumes "\<And>inp room z. length (fst (snd (zi_inflate zl inp room z))) \<le> room"
  shows "inflate_loop zl lst room acc z = (Ret out, z') \<Longrightarrow> length out \<le> length acc + room"
proof (induction lst arbitrary: room acc z)
  case (Cons c lst)
  obtain rv o1 z1 where i: "inflate_chunk zl c room z = (rv, o1, z1)" by (metis prod_cases3)
  then have "length o1 \<le> room" using inflate_chunk_bound [OF assms, of c room z] by simp
  with Cons.IH [of "room - length o1" "acc @ o1" z1] Cons.prems i show ?case by (auto split: if_splits)
qed simp

text \<open>
  \<open>Decompress\<close> gives at most four bytes for each byte of its input, whatever the input says, if \<open>inflate\<close> keeps to
  the room it is given.
\<close>

theorem decompress_bound:
  assumes "\<And>inp room z. length (fst (snd (zi_inflate zl inp room z))) \<le> room" and "Decompress zl lst z = (Ret data, z')"
  shows "FullLength data \<le> 4 * FullLength lst"
proof -
  obtain out where "inflate_loop zl lst (FullLength lst * 4) [] z = (Ret out, z')" "data = [out]"
    using assms(2) by (auto simp: Decompress_def rbind_def Push_def split: prod.splits outcome.splits)
  with inflate_loop_bound [OF assms(1)] show ?thesis by (fastforce simp: FullLength_bytes)
qed

theorem decompress_bound_witness:
  "Decompress stored_inflate [''ab'', ''c''] () = (Ret [''abc''], ()) \<and> FullLength [''abc''] \<le> 4 * FullLength [''ab'', ''c'']"
proof -
  have d: "Decompress stored_inflate [''ab'', ''c''] () = (Ret [''abc''], ())"
    by (simp add: Decompress_def stored_inflate_def inflate_chunk_def Z_OK_def Z_NEED_DICT_def FullLength_def Push_def)
  moreover have "length (fst (snd (zi_inflate stored_inflate inp room z))) \<le> room" for inp room z
    by (simp add: stored_inflate_def)
  from decompress_bound [OF this d] show ?thesis using d by simp
qed

section \<open>The response\<close>

text \<open>
  The parser of a connection never says that the headers are parsed, so that every send of the module goes through
  the parser of headers. A send after the headers in which it finds no empty line is not sent at all.
\<close>

definition conns_unparsed :: "'d spdy_state \<Rightarrow> bool" where
  "conns_unparsed s \<longleftrightarrow> (\<forall>n c. sp_conns s n = Some c \<longrightarrow> p_cs (sc_C c) \<noteq> Final)"

lemma push_unparsed: "p_cs ps \<noteq> Final \<Longrightarrow> push_ParseChunk lst ps = (r, lst', ps') \<Longrightarrow> p_cs ps' \<noteq> Final"
  using ParseChunk_cs [of ps lst] by (auto simp: push_ParseChunk_def split: prod.splits outcome.splits bool.splits)

named_theorems unparsed

lemma spdy_Send_unparsed [unparsed]: "conns_unparsed s \<Longrightarrow> conns_unparsed (snd (spdy_Send lst s))"
  by (simp add: spdy_Send_def conns_unparsed_def)

lemma conn_update_unparsed: "(\<And>c. sc_C (f c) = sc_C c) \<Longrightarrow> conns_unparsed s \<Longrightarrow> conns_unparsed (snd (conn_update p f s))"
  by (auto simp: conn_update_def conns_unparsed_def split: option.splits)

lemma rbind_unparsed [unparsed]:
  assumes "conns_unparsed (snd r)" and "\<And>y s1. r = (Ret y, s1) \<Longrightarrow> conns_unparsed s1 \<Longrightarrow> conns_unparsed (snd (k y s1))"
  shows "conns_unparsed (snd (rbind r k))"
  using assms by (auto simp: rbind_def split: prod.splits outcome.splits)

lemma conn_fields [simp]:
  "sc_C (conn_Reset c) = sc_C c" "sc_C (OnDataFrame fin data c) = sc_C c" "sc_C (conn_new sid fin req) = push_parse_new"
  by (simp_all add: conn_Reset_def FinishRead_def OnDataFrame_def conn_new_def Let_def)

lemmas conn_calls_unparsed [unparsed] =
  conn_update_unparsed [of conn_Reset, OF conn_fields(1)] conn_update_unparsed [of "OnDataFrame fin data" for fin data, OF conn_fields(2)]

lemma unparsed_frame [unparsed]:
  "conns_unparsed s \<Longrightarrow> conns_unparsed (s\<lparr>sp_connmap := m\<rparr>)"
  "conns_unparsed s \<Longrightarrow> conns_unparsed (s\<lparr>sp_next := n, sp_jobs := j, sp_connmap := m\<rparr>)"
  "conns_unparsed s \<Longrightarrow> conns_unparsed (s\<lparr>sp_Deflate := d\<rparr>)"
  "conns_unparsed s \<Longrightarrow> conns_unparsed (s\<lparr>sp_conns := (sp_conns s)(p := None), sp_jobs := j\<rparr>)"
  "conns_unparsed s \<Longrightarrow> p_cs (sc_C c) \<noteq> Final \<Longrightarrow> conns_unparsed (s\<lparr>sp_conns := (sp_conns s)(p \<mapsto> c)\<rparr>)"
  by (auto simp: conns_unparsed_def)

lemma dispatch_unparsed: "conns_unparsed s \<Longrightarrow> conns_unparsed (snd (spdy_dispatch f s))"
proof (cases f)
  case (SynStream sid fin req)
  have "p_cs push_parse_new \<noteq> Final" by (simp add: push_parse_new_def parser_new_def)
  moreover assume "conns_unparsed s"
  ultimately show ?thesis
    by (auto simp: SynStream Let_def intro!: unparsed split: prod.splits option.splits) (auto simp: conns_unparsed_def split: if_splits)
qed (auto simp: Let_def intro!: unparsed split: prod.splits option.splits)

lemma DoSend_unparsed: "conns_unparsed s \<Longrightarrow> conns_unparsed (snd (conn_DoSend zl n lst s))"
  by (auto simp: conn_DoSend_def intro!: unparsed split: option.splits prod.splits outcome.splits bool.splits)
    (auto simp: conns_unparsed_def dest: push_unparsed [rotated])

lemma DoRecv_unparsed: "conns_unparsed s \<Longrightarrow> conns_unparsed (snd (conn_DoRecv n s))"
  by (auto simp: conn_DoRecv_def conns_unparsed_def split: option.splits prod.splits queue_pc.splits if_splits)

lemma end_unparsed: "conns_unparsed s \<Longrightarrow> conns_unparsed (snd (conn_end n b s))"
  by (auto simp: conn_end_def intro!: unparsed split: option.splits)

lemma run_unparsed: "conns_unparsed s \<Longrightarrow> spdy_run zl es s = Ret s' \<Longrightarrow> conns_unparsed s'"
proof (induction es arbitrary: s)
  case (Cons e es)
  have "conns_unparsed (snd (spdy_step zl e s))"
    using Cons.prems(1)
    by (cases e) (simp_all add: dispatch_unparsed DoSend_unparsed DoRecv_unparsed end_unparsed, simp add: conns_unparsed_def)
  with Cons show ?case by (auto split: prod.splits outcome.splits)
qed simp

lemma spdy_body_not_sent:
  assumes "spdy_run zl es (spdy_init d) = Ret s" and "sp_conns s n = Some c" and "push_ParseChunk lst (sc_C c) = (Ret False, lst', ps)"
  shows "\<exists>s'. spdy_step zl (JobSends n lst) s = (Ret (), s') \<and> sp_Out s' = sp_Out s"
proof -
  have "conns_unparsed s" using run_unparsed [OF _ assms(1)] by (simp add: conns_unparsed_def spdy_init_def)
  then have "\<not> HeadersParsed (sc_C c)" using assms(2) by (auto simp: conns_unparsed_def HeadersParsed_def InFinalState_def)
  with assms(2,3) show ?thesis by (simp add: conn_DoSend_def)
qed

end
