(* ===== verification/Endpoints.thy ===== *)
theory Endpoints
  imports Httpcoding Backends
begin

text \<open>
  Two more modules: \<open>static\<close> (web/httpd/modules/static/module.cpp, queue.h), which answers with a file, and the
  encrypted socket of \<open>tls\<close> (web/httpd/modules/tls/tlsio.h), which stands between a connection and its module.

  The file system is an argument: opening a path gives a function that reads at an offset. The calls of the TLS
  library are arguments too.
\<close>

section \<open>The static module\<close>

text \<open>\<open>StripLeft\<close>, \<open>SplitImpl\<close> and \<open>TParsedHttpRequest\<close> (util/string/http.cpp).\<close>

definition is_ascii_space :: "char \<Rightarrow> bool" where
  "is_ascii_space c \<longleftrightarrow> (of_char c :: nat) = 32 \<or> (9 \<le> (of_char c :: nat) \<and> (of_char c :: nat) \<le> 13)"

definition StripLeft :: "bytes \<Rightarrow> bytes" where
  "StripLeft s = dropWhile is_ascii_space s"

definition SplitImpl :: "char \<Rightarrow> bytes \<Rightarrow> (bytes \<times> bytes) option" where
  "SplitImpl delim s = (if delim \<in> set s then Some (takeWhile (\<lambda>c. c \<noteq> delim) s, tl (dropWhile (\<lambda>c. c \<noteq> delim) s)) else None)"

record parsed_request =
  pq_Method :: bytes
  pq_Request :: bytes
  pq_Proto :: bytes

definition parsed_request_new :: "bytes \<Rightarrow> parsed_request outcome" where
  "parsed_request_new str =
     (case SplitImpl (CHR '' '') (StripLeft str) of
        None \<Rightarrow> Throw Yexception
      | Some (method, tmp) \<Rightarrow>
          (case SplitImpl (CHR '' '') (StripLeft tmp) of
             None \<Rightarrow> Throw Yexception
           | Some (req, proto) \<Rightarrow> Ret \<lparr>pq_Method = method, pq_Request = req, pq_Proto = StripLeft proto\<rparr>))"

record static_module =
  st_Dir :: string
  st_Index :: string

definition static_DoConsume :: "string \<Rightarrow> cfg_value \<Rightarrow> static_module \<Rightarrow> static_module outcome" where
  "static_DoConsume key v m =
     ON_KEY ''dir'' Ret (\<lambda>x m. m\<lparr>st_Dir := x\<rparr>) key v m
      (ON_KEY ''index'' Ret (\<lambda>x m. m\<lparr>st_Index := x\<rparr>) key v m (Throw ConfigParseError))"

definition static_new :: "cfg \<Rightarrow> static_module outcome" where
  "static_new c =
     obind (ForEach static_DoConsume c \<lparr>st_Dir = [], st_Index = ''index.html''\<rparr>) (\<lambda>m.
       if st_Dir m = [] then Throw ConfigParseError else Ret (m\<lparr>st_Dir := st_Dir m @ ''/''\<rparr>))"

text \<open>
  \<open>TThreadedFile\<close>. \<open>TThreadedQueue::Run\<close> calls the function at once. A handle catches every exception and keeps its
  message, and \<open>Check\<close> throws a \<open>yexception\<close> with it.
\<close>

type_synonym file_ops = "ui64 \<Rightarrow> nat \<Rightarrow> bytes outcome"

definition file_Step :: "'a outcome \<Rightarrow> 'a outcome" where
  "file_Step r = (case r of Ret x \<Rightarrow> Ret x | Throw e \<Rightarrow> Throw Yexception | Crash \<Rightarrow> Crash)"

definition file_new :: "(string \<Rightarrow> file_ops outcome) \<Rightarrow> string \<Rightarrow> file_ops outcome" where
  "file_new fs path = file_Step (fs path)"

definition file_Pread :: "file_ops \<Rightarrow> ui64 \<Rightarrow> chunk outcome" where
  "file_Pread f offset = file_Step (f offset 7000)"

text \<open>The loop of \<open>DoRun\<close>, which does not end on a file without end.\<close>

partial_function (option) static_loop :: "file_ops \<Rightarrow> 'o send \<Rightarrow> ui64 \<Rightarrow> chunks \<Rightarrow> 'o \<Rightarrow> (unit outcome \<times> 'o) option" where
  "static_loop f send off lst ou =
     (case file_Pread f off of
        Ret cur \<Rightarrow>
          (if length cur = 0 then Some (Ret (), ou)
           else (case send (Push cur lst) ou of
                   (Ret _, ou') \<Rightarrow> static_loop f send (off + of_nat (length cur)) [] ou'
                 | (Throw e, ou') \<Rightarrow> Some (Throw e, ou')
                 | (Crash, ou') \<Rightarrow> Some (Crash, ou')))
      | Throw e \<Rightarrow> Some (Throw e, ou)
      | Crash \<Rightarrow> Some (Crash, ou))"

definition has_infix :: "bytes \<Rightarrow> bytes \<Rightarrow> bool" where
  "has_infix pat s \<longleftrightarrow> (\<exists>i\<in>set [0..<Suc (length s)]. take (length pat) (drop i s) = pat)"

definition static_file :: "static_module \<Rightarrow> bytes \<Rightarrow> bytes" where
  "static_file m file = (if file = [] \<or> file = ''/'' then st_Index m else file)"

definition static_head :: "bytes \<Rightarrow> chunks" where
  "static_head file =
     (let lst = Push (''HTTP/1.1 200 Ok'' @ CRLF) [];
          lst1 = (if has_infix ''.xhtml'' file then Push (''Content-Type: application/xhtml+xml'' @ CRLF) lst else lst) in
      Push CRLF lst1)"

definition static_DoRun ::
  "(string \<Rightarrow> file_ops outcome) \<Rightarrow> 'o send \<Rightarrow> static_module \<Rightarrow> request \<Rightarrow> 'o \<Rightarrow> (unit outcome \<times> 'o) option" where
  "static_DoRun fs send m req ou =
     (case obind (parsed_request_new (bytes_of (r_Request req))) (\<lambda>pq.
             let file = static_file m (pq_Request pq) in
             obind (file_new fs (st_Dir m @ file)) (\<lambda>f. Ret (f, file))) of
        Ret (f, file) \<Rightarrow> static_loop f send 0 (static_head file) ou
      | Throw e \<Rightarrow> Some (Throw e, ou)
      | Crash \<Rightarrow> Some (Crash, ou))"

section \<open>The encrypted socket\<close>

text \<open>
  \<open>matrixSslDecode\<close> gets the bytes of \<open>in\<close> and the room of \<open>out\<close> and gives its code, what it left of \<open>in\<close>, what it
  wrote and its state; \<open>matrixSslEncode\<close> and \<open>matrixSslEncodeClosureAlert\<close> give code, output and state.
\<close>

record 'k ssl_lib =
  ssl_Decode :: "bytes \<Rightarrow> nat \<Rightarrow> 'k \<Rightarrow> int \<times> bytes \<times> bytes \<times> 'k"
  ssl_Encode :: "bytes \<Rightarrow> nat \<Rightarrow> 'k \<Rightarrow> int \<times> bytes \<times> 'k"
  ssl_Closure :: "nat \<Rightarrow> 'k \<Rightarrow> bytes \<times> 'k"

definition SSL_SUCCESS :: int where "SSL_SUCCESS = 0"
definition SSL_ERROR :: int where "SSL_ERROR = - 1"
definition SSL_FULL :: int where "SSL_FULL = - 2"
definition SSL_PARTIAL :: int where "SSL_PARTIAL = - 3"
definition SSL_SEND_RESPONSE :: int where "SSL_SEND_RESPONSE = - 4"
definition SSL_PROCESS_DATA :: int where "SSL_PROCESS_DATA = - 5"
definition SSL_ALERT :: int where "SSL_ALERT = - 6"

text \<open>\<open>NextOut()\<close> is a chunk of the default length.\<close>

definition NextOut :: nat where "NextOut = 7000"

record ('k, 's, 'o) tls_socket =
  tl_S :: 'k
  tl_In :: 's
  tl_Out :: 'o
  tl_Readed :: chunks

definition tls_new :: "'k \<Rightarrow> 's \<Rightarrow> 'o \<Rightarrow> ('k, 's, 'o) tls_socket" where
  "tls_new k inp ou = \<lparr>tl_S = k, tl_In = inp, tl_Out = ou, tl_Readed = []\<rparr>"

text \<open>\<open>NextIn\<close>: the chunk, or \<open>None\<close> when it returns false.\<close>

definition tls_NextIn :: "'s recv \<Rightarrow> ('k, 's, 'o) tls_socket \<Rightarrow> chunk option outcome \<times> ('k, 's, 'o) tls_socket" where
  "tls_NextIn recv st =
     (case (if tl_Readed st = [] then (case recv (tl_In st) of (r, s') \<Rightarrow> (r, st\<lparr>tl_In := s'\<rparr>)) else (Ret (tl_Readed st), st)) of
        (Ret lst, st1) \<Rightarrow> (case lst of [] \<Rightarrow> (Ret None, st1) | c # rest \<Rightarrow> (Ret (Some c), st1\<lparr>tl_Readed := rest\<rparr>))
      | (Throw e, st1) \<Rightarrow> (Throw e, st1)
      | (Crash, st1) \<Rightarrow> (Crash, st1))"

partial_function (option) tls_Read ::
  "'k ssl_lib \<Rightarrow> 's recv \<Rightarrow> 'o send \<Rightarrow> chunks \<Rightarrow> ('k, 's, 'o) tls_socket \<Rightarrow> (chunks outcome \<times> ('k, 's, 'o) tls_socket) option" where
  "tls_Read lib recv send lst st =
     (case tls_NextIn recv st of
        (Ret None, st1) \<Rightarrow> Some (Ret lst, st1)
      | (Ret (Some nextIn), st1) \<Rightarrow>
          (case ssl_Decode lib nextIn NextOut (tl_S st1) of (rc, left, response, k) \<Rightarrow>
             let st2 = st1\<lparr>tl_S := k, tl_Readed := (if left \<noteq> [] then left # tl_Readed st1 else tl_Readed st1)\<rparr> in
             if rc = SSL_SUCCESS then tls_Read lib recv send lst st2
             else if rc = SSL_PROCESS_DATA then Some (Ret (Push response lst), st2)
             else if rc = SSL_SEND_RESPONSE then
               (case send (Push response []) (tl_Out st2) of
                  (Ret _, ou) \<Rightarrow> tls_Read lib recv send lst (st2\<lparr>tl_Out := ou\<rparr>)
                | (Throw e, ou) \<Rightarrow> Some (Throw e, st2\<lparr>tl_Out := ou\<rparr>)
                | (Crash, ou) \<Rightarrow> Some (Crash, st2\<lparr>tl_Out := ou\<rparr>))
             else if rc = SSL_ALERT then Some (Ret lst, st2)
             else Some (Throw Yexception, st2))
      | (Throw e, st1) \<Rightarrow> Some (Throw e, st1)
      | (Crash, st1) \<Rightarrow> Some (Crash, st1))"

definition tls_DoRecv ::
  "'k ssl_lib \<Rightarrow> 's recv \<Rightarrow> 'o send \<Rightarrow> ('k, 's, 'o) tls_socket \<Rightarrow> (chunks outcome \<times> ('k, 's, 'o) tls_socket) option" where
  "tls_DoRecv lib recv send st = tls_Read lib recv send [] st"

text \<open>\<open>Encode\<close>; its \<open>switch\<close> has no default, so that other codes pass.\<close>

definition tls_Encode :: "'k ssl_lib \<Rightarrow> bytes \<Rightarrow> chunks \<Rightarrow> 'k \<Rightarrow> chunks outcome \<times> 'k" where
  "tls_Encode lib buf lst k =
     (case ssl_Encode lib buf NextOut k of (rc, response, k') \<Rightarrow>
        if rc = SSL_ERROR \<or> rc = SSL_FULL then (Throw Yexception, k') else (Ret (Push response lst), k'))"

fun tls_encode_all :: "'k ssl_lib \<Rightarrow> chunks \<Rightarrow> chunks \<Rightarrow> 'k \<Rightarrow> chunks outcome \<times> 'k" where
  "tls_encode_all lib [] encoded k = (Ret encoded, k)"
| "tls_encode_all lib (c # lst) encoded k =
     (case tls_Encode lib c encoded k of
        (Ret encoded', k') \<Rightarrow> tls_encode_all lib lst encoded' k'
      | (Throw e, k') \<Rightarrow> (Throw e, k')
      | (Crash, k') \<Rightarrow> (Crash, k'))"

definition tls_DoSend ::
  "'k ssl_lib \<Rightarrow> 'o send \<Rightarrow> chunks \<Rightarrow> ('k, 's, 'o) tls_socket \<Rightarrow> unit outcome \<times> ('k, 's, 'o) tls_socket" where
  "tls_DoSend lib send lst st =
     (case tls_encode_all lib lst [] (tl_S st) of
        (Ret encoded, k) \<Rightarrow> (case send encoded (tl_Out st) of (r, ou) \<Rightarrow> (r, st\<lparr>tl_S := k, tl_Out := ou\<rparr>))
      | (Throw e, k) \<Rightarrow> (Throw e, st\<lparr>tl_S := k\<rparr>)
      | (Crash, k) \<Rightarrow> (Crash, st\<lparr>tl_S := k\<rparr>))"

definition tls_Finish :: "'k ssl_lib \<Rightarrow> 'o send \<Rightarrow> ('k, 's, 'o) tls_socket \<Rightarrow> unit outcome \<times> ('k, 's, 'o) tls_socket" where
  "tls_Finish lib send st =
     (case ssl_Closure lib NextOut (tl_S st) of (response, k) \<Rightarrow>
        (case send (Push response []) (tl_Out st) of (r, ou) \<Rightarrow> (r, st\<lparr>tl_S := k, tl_Out := ou\<rparr>)))"

section \<open>Files\<close>

text \<open>A file with the given bytes: a read gives a part of what is behind the offset, nothing only at the end.\<close>

definition regular_file :: "bytes \<Rightarrow> file_ops \<Rightarrow> bool" where
  "regular_file data f \<longleftrightarrow> (\<forall>off. unat off \<le> length data \<longrightarrow>
     (\<exists>bs rest. f off 7000 = Ret bs \<and> drop (unat off) data = bs @ rest \<and> (bs = [] \<longrightarrow> unat off = length data)))"

context io_output
begin

lemma static_loop_sends:
  assumes "regular_file data f" and "length data < 2 ^ 64" and "unat off \<le> length data"
  shows "\<exists>ou'. static_loop f send off lst ou = Some (Ret (), ou')
    \<and> sent ou' = sent ou @ (if unat off = length data then [] else bytes_of lst @ drop (unat off) data)"
  using assms(3)
proof (induction "length data - unat off" arbitrary: off lst ou rule: less_induct)
  case less
  obtain bs rest where b: "f off 7000 = Ret bs" "drop (unat off) data = bs @ rest" "bs = [] \<Longrightarrow> unat off = length data"
    using assms(1) less.prems unfolding regular_file_def by blast
  show ?case
  proof (cases "bs = []")
    case True
    with b show ?thesis by (subst static_loop.simps) (simp add: file_Pread_def file_Step_def)
  next
    case False
    obtain ou1 where o1: "send (Push bs lst) ou = (Ret (), ou1)" "sent ou1 = sent ou @ bytes_of lst @ bs"
      using send_ok [of "Push bs lst" ou] by (auto simp: Push_def)
    have l: "unat off + length bs + length rest = length data"
      using arg_cong [OF b(2), of length] less.prems by simp
    have u: "unat (off + of_nat (length bs)) = unat off + length bs"
      using l assms(2) by (simp add: unat_word_ariths unat_of_nat)
    have d: "drop (unat off + length bs) data = rest"
      using b(2) by (metis add.commute append_eq_conv_conj drop_drop)
    have "length data - unat (off + of_nat (length bs)) < length data - unat off" using False l u by (cases bs) auto
    from less.hyps [OF this, of "[]" ou1] obtain ou2 where o2: "static_loop f send (off + of_nat (length bs)) [] ou1 = Some (Ret (), ou2)"
        "sent ou2 = sent ou1 @ (if unat off + length bs = length data then [] else rest)"
      using l u d by auto
    moreover have "(if unat off + length bs = length data then [] else rest) = rest" using l by auto
    moreover have "unat off \<noteq> length data" using False l by (cases bs) auto
    ultimately show ?thesis
      using b(1,2) o1 False by (subst static_loop.simps) (simp add: file_Pread_def file_Step_def)
  qed
qed

end

text \<open>
  The static module answers a request for a regular file with its head followed by exactly the bytes of the file,
  for any output and however the reads cut the file, and ends; for an empty file it sends nothing at all.
\<close>

theorem static_serves_file:
  assumes "io_output send sent" and "parsed_request_new (bytes_of (r_Request req)) = Ret pq"
    and "fs (st_Dir m @ static_file m (pq_Request pq)) = Ret f" and "regular_file data f" and "length data < 2 ^ 64"
  shows "\<exists>ou'. static_DoRun fs send m req ou = Some (Ret (), ou')
    \<and> sent ou' = sent ou @ (if data = [] then [] else bytes_of (static_head (static_file m (pq_Request pq))) @ data)"
  using io_output.static_loop_sends [OF assms(1,4,5), of 0 "static_head (static_file m (pq_Request pq))" ou] assms(2,3)
  by (auto simp: static_DoRun_def file_new_def file_Step_def)

theorem static_serves_file_witness:
  "\<exists>ou'. static_DoRun (\<lambda>path. if path = ''www//a'' then Ret (\<lambda>off len. Ret (take 2 (drop (unat off) ''abc''))) else Throw (SystemError 2))
      std_Send \<lparr>st_Dir = ''www/'', st_Index = ''index.html''\<rparr> (request_of ''GET /a HTTP/1.1'') [] = Some (Ret (), ou')
    \<and> ou' = ''HTTP/1.1 200 Ok'' @ CRLF @ CRLF @ ''abc''"
proof -
  let ?f = "\<lambda>off len. Ret (take 2 (drop (unat off) ''abc''))"
  let ?fs = "\<lambda>path. if path = ''www//a'' then Ret ?f else Throw (SystemError 2)" and ?m = "\<lparr>st_Dir = ''www/'', st_Index = ''index.html''\<rparr>"
  have "drop (unat off) ''abc'' = take 2 (drop (unat off) ''abc'') @ drop 2 (drop (unat off) ''abc'')" for off :: ui64
    by (simp only: append_take_drop_id)
  then have r: "regular_file ''abc'' ?f" by (fastforce simp: regular_file_def)
  have p: "parsed_request_new (bytes_of (r_Request (request_of ''GET /a HTTP/1.1''))) =
      Ret \<lparr>pq_Method = ''GET'', pq_Request = ''/a'', pq_Proto = ''HTTP/1.1''\<rparr>"
    by (simp add: parsed_request_new_def SplitImpl_def StripLeft_def is_ascii_space_def request_of_def request_new_def Push_def)
  have f: "?fs (st_Dir ?m @ static_file ?m (pq_Request \<lparr>pq_Method = ''GET'', pq_Request = ''/a'', pq_Proto = ''HTTP/1.1''\<rparr>)) = Ret ?f"
    by (simp add: static_file_def)
  have h: "bytes_of (static_head ''/a'') = ''HTTP/1.1 200 Ok'' @ CRLF @ CRLF"
    by (simp add: static_head_def has_infix_def Push_def)
  show ?thesis
    using static_serves_file [of std_Send "\<lambda>b. b" _ _ ?fs ?m, OF std.io_output_axioms p f r, of "[]"] h by (simp add: static_file_def)
qed

section \<open>Encryption\<close>

text \<open>What a list is encoded to, record by record; \<open>None\<close> when the library fails.\<close>

fun tls_records :: "'k ssl_lib \<Rightarrow> chunks \<Rightarrow> 'k \<Rightarrow> bytes option \<times> 'k" where
  "tls_records lib [] k = (Some [], k)"
| "tls_records lib (c # lst) k =
     (case ssl_Encode lib c NextOut k of (rc, rec, k1) \<Rightarrow>
        if rc = SSL_ERROR \<or> rc = SSL_FULL then (None, k1)
        else (case tls_records lib lst k1 of (bs, k2) \<Rightarrow> (map_option (\<lambda>bs. rec @ bs) bs, k2)))"

lemma tls_encode_all_records:
  "case tls_records lib lst k of
     (Some bs, k') \<Rightarrow> \<exists>l. tls_encode_all lib lst acc k = (Ret l, k') \<and> bytes_of l = bytes_of acc @ bs
   | (None, k') \<Rightarrow> tls_encode_all lib lst acc k = (Throw Yexception, k')"
proof (induction lst arbitrary: acc k)
  case (Cons c lst)
  obtain rc rec k1 where e: "ssl_Encode lib c NextOut k = (rc, rec, k1)" by (metis prod_cases3)
  with Cons.IH [where k = k1 and acc = "Push rec acc"] show ?case
    by (auto simp: tls_Encode_def Push_def split: prod.splits option.splits)
qed simp

text \<open>
  A send through the encrypted socket is all or nothing: either every chunk is encoded and the records go out
  together in the order of the chunks, or the library fails on one of them, nothing is sent and an exception is
  thrown; the state of the session has advanced in both cases.
\<close>

theorem tls_send_all_or_nothing:
  assumes "io_output send sent"
  shows "case tls_records lib lst (tl_S st) of
      (Some bs, k) \<Rightarrow> \<exists>ou'. tls_DoSend lib send lst st = (Ret (), st\<lparr>tl_S := k, tl_Out := ou'\<rparr>) \<and> sent ou' = sent (tl_Out st) @ bs
    | (None, k) \<Rightarrow> tls_DoSend lib send lst st = (Throw Yexception, st\<lparr>tl_S := k\<rparr>)"
proof -
  obtain r k where r: "tls_records lib lst (tl_S st) = (r, k)" by fastforce
  note e = tls_encode_all_records [where lib = lib and lst = lst and k = "tl_S st" and acc = "[]", unfolded r]
  show ?thesis
  proof (cases r)
    case None
    with e r show ?thesis by (simp add: tls_DoSend_def)
  next
    case (Some bs)
    with e obtain l where l: "tls_encode_all lib lst [] (tl_S st) = (Ret l, k)" "bytes_of l = bs" by auto
    obtain ou' where "send l (tl_Out st) = (Ret (), ou')" "sent ou' = sent (tl_Out st) @ bytes_of l"
      using io_output.send_ok [OF assms] by blast
    with l Some r show ?thesis by (auto simp: tls_DoSend_def)
  qed
qed

text \<open>
  The buffer of a record has 7000 bytes. If the library refuses what does not fit into it, a list with a longer
  chunk is never sent.
\<close>

lemma tls_large_chunk:
  assumes "\<And>buf room k. room < length buf \<Longrightarrow> fst (ssl_Encode lib buf room k) = SSL_FULL"
    and "c \<in> set lst" and "NextOut < length c"
  shows "fst (tls_DoSend lib send lst st) = Throw Yexception"
proof -
  have "fst (tls_records lib lst k) = None" if "c \<in> set lst" for k
    using that
  proof (induction lst arbitrary: k)
    case (Cons d lst)
    obtain rc rec k1 where e: "ssl_Encode lib d NextOut k = (rc, rec, k1)" by (metis prod_cases3)
    show ?case
      using Cons assms(1) [OF assms(3), of k] e by (cases "d = c") (auto simp: split_beta)
  qed simp
  with assms(2) tls_encode_all_records [where lib = lib and lst = lst and k = "tl_S st" and acc = "[]"] show ?thesis
    by (auto simp: tls_DoSend_def split: prod.splits option.splits) (metis fst_conv option.distinct(1))+
qed

text \<open>The contract of \<open>matrixSslDecode\<close>: it leaves a part of its input, and less than it got if it asks to be called again.\<close>

definition decode_ok :: "'k ssl_lib \<Rightarrow> bool" where
  "decode_ok lib \<longleftrightarrow> (\<forall>inp room k rc left response k'. ssl_Decode lib inp room k = (rc, left, response, k') \<longrightarrow>
     inp \<noteq> [] \<longrightarrow> rc = SSL_SUCCESS \<or> rc = SSL_SEND_RESPONSE \<longrightarrow> length left < length inp)"

context io_input_nonempty
begin

lemma tls_NextIn_cases:
  assumes "inv (tl_In st)" and "[] \<notin> set (tl_Readed st)"
  obtains (eof) st1 where "tls_NextIn recv st = (Ret None, st1)"
  | (more) nextIn st1 where "tls_NextIn recv st = (Ret (Some nextIn), st1)" and "nextIn \<noteq> []" and "inv (tl_In st1)"
      and "[] \<notin> set (tl_Readed st1)" and "tl_Out st1 = tl_Out st"
      and "length nextIn + length (bytes_of (tl_Readed st1)) + length (content (tl_In st1)) =
        length (bytes_of (tl_Readed st)) + length (content (tl_In st))"
proof (cases "tl_Readed st")
  case Nil
  obtain l s' where r: "recv (tl_In st) = (Ret l, s')" "inv s'" "content (tl_In st) = bytes_of l @ content s'"
    using recvE [OF assms(1)] by blast
  have "[] \<notin> set l" using recv_nonempty [OF assms(1) r(1)] .
  with Nil r show ?thesis by (cases l) (auto simp: tls_NextIn_def intro: eof more)
next
  case (Cons a l)
  with assms show ?thesis by (intro more [of a "st\<lparr>tl_Readed := l\<rparr>"]) (auto simp: tls_NextIn_def)
qed

lemma tls_Read_ends:
  assumes out: "io_output send sent" and lib: "decode_ok lib"
  shows "inv (tl_In st) \<Longrightarrow> [] \<notin> set (tl_Readed st) \<Longrightarrow> \<exists>r st'. tls_Read lib recv send lst st = Some (r, st') \<and> r \<noteq> Crash"
proof (induction "length (bytes_of (tl_Readed st)) + length (content (tl_In st))" arbitrary: st rule: less_induct)
  case less
  from less.prems show ?case
  proof (cases rule: tls_NextIn_cases)
    case (eof st1)
    then show ?thesis by (subst tls_Read.simps) simp
  next
    case (more nextIn st1)
    note n = more(1-4,6)
    obtain rc left resp k where d: "ssl_Decode lib nextIn NextOut (tl_S st1) = (rc, left, resp, k)" by (rule prod_cases4)
    define rd where "rd = (if left \<noteq> [] then left # tl_Readed st1 else tl_Readed st1)"
    have again: "\<exists>r st'. tls_Read lib recv send lst st2 = Some (r, st') \<and> r \<noteq> Crash"
      if "rc = SSL_SUCCESS \<or> rc = SSL_SEND_RESPONSE" "tl_In st2 = tl_In st1" "tl_Readed st2 = rd" for st2
    proof (rule less.hyps)
      have "length left < length nextIn" using lib [unfolded decode_ok_def, rule_format, OF d n(2) that(1)] .
      moreover have "length (bytes_of rd) = length left + length (bytes_of (tl_Readed st1))" by (simp add: rd_def)
      ultimately show "length (bytes_of (tl_Readed st2)) + length (content (tl_In st2)) < length (bytes_of (tl_Readed st)) + length (content (tl_In st))"
        using n(5) that(2,3) by simp
    qed (use n(3,4) that in \<open>simp_all add: rd_def\<close>)
    obtain ou1 where o1: "send (Push resp []) (tl_Out st1) = (Ret (), ou1)" using io_output.send_ok [OF out] by blast
    note step = tls_Read.simps [of lib recv send lst st, unfolded n(1) prod.case outcome.case option.case d Let_def rd_def [symmetric]]
    show ?thesis
    proof (cases "rc = SSL_SUCCESS \<or> rc = SSL_SEND_RESPONSE")
      case True
      with again [OF True, of "st1\<lparr>tl_S := k, tl_Readed := rd\<rparr>"] again [OF True, of "st1\<lparr>tl_S := k, tl_Readed := rd, tl_Out := ou1\<rparr>"]
      show ?thesis unfolding step by (cases "rc = SSL_SUCCESS") (simp_all add: o1 SSL_SEND_RESPONSE_def SSL_PROCESS_DATA_def)
    next
      case False
      then show ?thesis unfolding step by simp
    qed
  qed
qed

end

text \<open>
  A receive on the encrypted socket ends: on every input that meets the contract of streams, if the library
  consumes something whenever it is to be called again, \<open>Read\<close> returns data, the end of the stream or an exception,
  after any number of handshake records.
\<close>

theorem tls_read_ends:
  assumes "io_input_nonempty recv i c" and "i (tl_In st)" and "[] \<notin> set (tl_Readed st)" and "io_output send sent" and "decode_ok lib"
  shows "\<exists>r st'. tls_Read lib recv send lst st = Some (r, st') \<and> r \<noteq> Crash"
  using io_input_nonempty.tls_Read_ends [OF assms(1,4,5,2,3)] .

text \<open>A library that encodes by putting the length of the data in front and finds such records in its input.\<close>

definition demo_ssl :: "unit ssl_lib" where
  "demo_ssl = \<lparr>ssl_Decode = \<lambda>inp room k. (case inp of
       [] \<Rightarrow> (SSL_PARTIAL, [], [], k)
     | n # rest \<Rightarrow> if (of_char n :: nat) = 0 then (SSL_SUCCESS, rest, [], k)
         else if length rest < of_char n then (SSL_PARTIAL, inp, [], k)
         else (SSL_PROCESS_DATA, drop (of_char n) rest, take (of_char n) rest, k)),
     ssl_Encode = \<lambda>buf room k. if room \<le> length buf then (SSL_FULL, [], k) else (SSL_SUCCESS, char_of (length buf) # buf, k),
     ssl_Closure = \<lambda>room k. ([CHR 0x00], k)\<rparr>"

lemma demo_decode_ok: "decode_ok demo_ssl"
  by (auto simp: decode_ok_def demo_ssl_def SSL_SUCCESS_def SSL_SEND_RESPONSE_def SSL_PARTIAL_def SSL_PROCESS_DATA_def split: list.splits)

theorem tls_read_ends_witness:
  "\<exists>r st'. tls_Read demo_ssl owned_Recv std_Send [] (tls_new () [[CHR 0x00, CHR 0x02], ''ab''] []) = Some (r, st') \<and> r \<noteq> Crash"
  by (rule tls_read_ends [OF own.io_input_nonempty_axioms _ _ std.io_output_axioms demo_decode_ok])
    (simp_all add: tls_new_def owned_inv_def)

theorem tls_send_all_or_nothing_witness:
  "\<exists>ou'. tls_DoSend demo_ssl std_Send [''ab'', ''c''] (tls_new () [] ''x'') = (Ret (), (tls_new () [] ''x'')\<lparr>tl_S := (), tl_Out := ou'\<rparr>)
    \<and> ou' = ''x'' @ [CHR 0x02] @ ''ab'' @ [CHR 0x01] @ ''c''"
proof -
  have "tls_records demo_ssl [''ab'', ''c''] () = (Some ([CHR 0x02] @ ''ab'' @ [CHR 0x01] @ ''c''), ())"
    by (simp add: demo_ssl_def NextOut_def SSL_SUCCESS_def SSL_FULL_def SSL_ERROR_def) code_simp
  then show ?thesis
    using tls_send_all_or_nothing [OF std.io_output_axioms, of demo_ssl "[''ab'', ''c'']" "tls_new () [] ''x''"]
    by (simp add: tls_new_def)
qed

text \<open>A record that the network has cut in two is refused: the socket does not put the next chunk behind it.\<close>

lemma tls_split_record:
  "\<exists>st'. tls_Read demo_ssl owned_Recv std_Send [] (tls_new () [[CHR 0x02], ''ab''] []) = Some (Throw Yexception, st')"
  by (subst tls_Read.simps) (simp add: tls_NextIn_def tls_new_def owned_Recv_def MoveTo_def demo_ssl_def Let_def
      SSL_SUCCESS_def SSL_PARTIAL_def SSL_PROCESS_DATA_def SSL_SEND_RESPONSE_def SSL_ALERT_def)

end
