(* ===== verification/Spec2Isabelle.thy ===== *)
theory Spec2Isabelle
  imports Algorithms Intrlist Chunkstring Proxy Chunkqueue Sockets Headersmod Monitor Spdy Endpoints
begin

text \<open>
  A verification development of the yandex/balancer HTTP server (src/web/httpd, with the parts of src/util it
  is built on).

  \<^bold>\<open>The program.\<close> The server is a tree of modules configured by a Lua table. The main task (kernel/main.cpp) accepts
  connections and runs one coroutine per connection, scheduled by the executor of util/green. A coroutine runs
  the root module on an input and an output stream; a module either answers or hands the connection to a slave
  module with other streams. The http module parses requests from the stream and encodes the answers, regexp
  and ipdispatch choose a slave, headers changes the request, the balancer module tries backends in the order
  an algorithm gives until one answers, and the proxy module sends the request to a backend and decodes its
  response. The pinger closes the listener while its slave fails. The modules spdy and tls stand between a
  connection and its module and decode the stream; static answers with files.

  \<^bold>\<open>Conventions.\<close> The model is a shallow embedding: a struct or class is a record, an operation a function from the
  state to a result and the state after it. \<open>'a outcome\<close> (Prelude) is a returned value, a thrown exception or a
  crash; a crash is an abort, a failed \<open>VERIFY\<close>, a null or dangling pointer, or an access out of range (\<open>YASSERT\<close> is
  compiled out). Machine integers are words where they can wrap. \<open>double\<close> and \<open>float\<close> are exact reals, except that the draws of
  "robust" and "pidgroup" take a rounding with a bounded relative error as a parameter (Selection) and the delays
  of the pinger are converted to 24 significant bits. A byte
  stream is an input \<open>'s recv\<close> with its contract in the locale \<open>io_input\<close> (Inputs) or an output \<open>'o send\<close>
  (\<open>io_output\<close>, Httpcoding). The run of a module behind the interface \<open>IModule\<close> is an arbitrary tree \<open>prog\<close> of receives
  and sends (Balancer). What the program does not determine is an argument: the clock, random numbers,
  the memory of uninitialised members, the order of hash tables, what the kernel returns from system calls,
  which expressions of the Pire library accept a text, what calls of zlib and MatrixSSL give. Loops that may not end are \<open>partial_function (option)\<close>, so
  that \<open>None\<close> is a loop that does not return, and the theorems that they return are proved as such. The one
  function with fuel is the rebalancing loop after an erasure (\<open>erase_rebalance\<close>, Avltree): its fuel is the length of
  the path to the root, and the theorem on erasure shows that it never runs out.

  \<^bold>\<open>The theories\<close>, with the sources they model (kernel and modules are those of src/web/httpd).

  \<^item> Prelude: outcomes, configuration trees and \<open>ON_KEY\<close> (kernel/config.h, luacfg.cpp), shared lemmas.
  \<^item> Chunks, Inputs, Streamiter, Chunkstring: chunk lists (kernel/chunks.h, split.h, cast.h), the stream classes
    (iobase, null.h, precharge.h, concat.h, limitio.h, rewind.h, countio.h), the stream iterator (stream.h,
    iterator.h) and strings over chunks (chunkstring.h). Shown: every reader sees the one byte stream whatever
    the chunk boundaries, the rewindable input replays it, comparison and iteration are those of the bytes.
  \<^item> Intrlist, Avltree, Avlproofs, Numcast: util/generic/intrlist.h on an explicit store of links, the intrusive AVL
    tree of util/generic/avltree.h, number and hexadecimal conversion (util/string/cast.cpp, hex.h). Shown:
    insertion, erasure and iteration keep order, heights and balance; the list operations are those on
    sequences; printing and parsing are inverse and exact at the bounds of the types.
  \<^item> Green, Chunkqueue, Sockets: the coroutine executor (util/green/impl.h, impl.cpp, events.h) as a machine with
    an inductive step relation, the queue and event of kernel/queue.h and syncro.h and the sockets of
    kernel/socket.cpp on top of it. Shown: the executor's invariant, that timers fire and waiting coroutines
    are woken, that nothing put into a queue or socket is lost or reordered.
  \<^item> Http, Httpcoding, Httpmod, Proxy: messages and the parser (kernel/http.h, http.cpp, httpfsm.rl), the encoder
    (modules/http/encoder.h), message properties (kernel/headers.cpp), the http module and the proxy module.
    Shown: the incremental parser refines a parser of bytes, printing and parsing are inverse, the encoder and
    the decoder agree with the framing of the protocol, the http module ends and frames its requests, a proxied
    response arrives as the backend sent it.
  \<^item> Backends, Trackers, Arbiter, Selection, Hashing, Fair, Robust, Pidgroup, Weighted, Weighted2, Rrobin, Algorithms,
    Balancer: modules/balancer. The algorithms are interpretations of the locale \<open>backends\<close> (of \<open>backends_progress\<close>
    where every backend is reached), so that the theorems on the connection iterator and on \<open>DoRun\<close> below hold
    for all of them; each algorithm has theorems on the weights and shares it keeps.
  \<^item> Dispatch, Headersmod, Monitor, Mainloop: the modules regexp, ipdispatch, shared, debug, errorlog, headers, pinger
    and statistics, and the main task. Shown: which slave a request goes to, that wrapping modules are
    transparent, that generated headers stay in their buffer unless two options are combined, that the pinger
    reopens the listener when the slave recovers, the order and the bound of the connection table, what the
    listener is after any calls of the modules on it, and that the shutdown ends.
  \<^item> Spdy: the spdy module (modules/spdy/module.cpp, zlib.h): frames and header blocks as bytes, compression over
    the calls of zlib, and the streams of a connection as coroutines on chunk queues. Shown: frames and header
    blocks are read as they were written, every stream gets its data in order, and where the module uses
    destroyed objects.
  \<^item> Endpoints: the static module (modules/static/module.cpp, queue.h, util/string/http.cpp) and the encrypted socket
    of the tls module (modules/tls/tlsio.h). Shown: a file is sent as it is, a send is encrypted as a whole or
    fails, and a receive ends.

  \<^bold>\<open>How the components meet.\<close> This theory states the properties of the balancer module over all its algorithms:
  \<open>DoRun\<close> (Balancer) with an arbiter, a rewindable input and a counting output over the sum of the algorithms
  (Algorithms). Proxy composes the http parser, the stream iterator and the decoders; Monitor composes the
  arbiters with the listener of the main task; Chunkqueue and Sockets run on the machine of Green;
  Spdy uses the chunk queues, the stream iterator and the parser of messages.

  \<^bold>\<open>Bounds.\<close> The balancer's theorems assume at most 16 attempts, the size of the array of \<open>TConnIterator\<close>, which the
  configuration does not check. The hypotheses on environments (a clock that moves, an output whose failing sends have
  sent nothing) are stated where they are used, each with a witness.

  \<^bold>\<open>Not modelled.\<close> The Lua interpreter, Pire, MatrixSSL, zlib and the other libraries of src/contrib and src/library are
  only called; src/generated holds tables. Of the tls module the reading of keys is left out; the modules admin
  and accesslog are left out: they format text, and admin passes a shutdown or the reopening of the logs on to the
  main task, where the shutdown is an event. Of src/util only what the server relies on is modelled. Printing of
  statistics is left out throughout, and so is the switching of machine contexts underneath the executor.

  \<^bold>\<open>Limits of the models.\<close> A run of \<open>DoRun\<close> is modelled alone: while a backend answers, other requests may change the
  shared algorithm and arbiter; the histories \<open>be_run\<close> have such interleavings for the algorithms. Exact arithmetic
  has no overflow, underflow or not-a-number. Of the executor, waiting for several events at once (\<open>SelectD\<close>) is left
  out, and the walk over the events of a descriptor is over the list at its start. Chunked bodies are those
  in the spelling of the encoder.
\<close>

section \<open>The balancer over its algorithms\<close>

text \<open>
  C1. When the balancer reports success, the last backend it asked, and no other, produced the
  answer: its module ran with the whole client request ahead of it and an output that only the
  attempts before it had used and that had counted nothing as sent, and the arbiter saw one failure
  for every earlier attempt and then one success. Where a send to the client that throws has sent
  nothing (\<open>atomic_send\<close>) and fewer than \<open>2 ^ 64\<close> bytes were sent, nothing had been sent to the client
  before that run, and the client got what this run sent and nothing else. This holds for every
  algorithm, every module and every client stream.
\<close>

theorem balancer_success:
  assumes "io_input r i c" and "i inp" and "send_ok send" and "alg_inv (b_BackEnds b)"
    and "unat (b_Attempts b) \<le> 16"
    and "DoRun alg_ops Run r send h inp ou clk b = Some (Ret (), st)"
  shows "\<exists>m left s1 inp0 ou0.
      it_Attempts (bs_iter st) \<noteq> [] \<and> List.last (it_Attempts (bs_iter st)) = Some m
    \<and> rewind_content c inp0 = c inp \<and> sends send (count_new ou) ou0 \<and> co_Written ou0 = 0
    \<and> run_prog (rewind_Recv r) (count_Send send) (Run (alg_Module m s1) left) inp0 ou0
        = (Ret (), bs_input st, bs_output st)
    \<and> b_Arbiter (bs_mod st)
        = foldl register (b_Arbiter b) (replicate (length (it_Attempts (bs_iter st)) - 1) False @ [True])
    \<and> (atomic_send send sent \<and> length (sent (co_Slave (bs_output st))) < 2 ^ 64
        \<longrightarrow> sent (co_Slave ou0) = sent ou
          \<and> (\<exists>answer. sent (co_Slave (bs_output st)) = sent ou @ answer
               \<and> co_Written (bs_output st) = of_nat (length answer)))"
proof -
  obtain m left s1 inp0 ou0 where run: "it_Attempts (bs_iter st) \<noteq> []" "List.last (it_Attempts (bs_iter st)) = Some m"
      "rewind_content c inp0 = c inp" "sends send (count_new ou) ou0" "co_Written ou0 = 0"
      "run_prog (rewind_Recv r) (count_Send send) (Run (alg_Module m s1) left) inp0 ou0 = (Ret (), bs_input st, bs_output st)"
      "b_Arbiter (bs_mod st)
        = foldl register (b_Arbiter b) (replicate (length (it_Attempts (bs_iter st)) - 1) False @ [True])"
    using alg.DoRun_result [OF assms] by (auto simp: alg.loop_result_def alg.answered_def)
  have "sent (co_Slave ou0) = sent ou \<and> (\<exists>answer. sent (co_Slave (bs_output st)) = sent ou @ answer
      \<and> co_Written (bs_output st) = of_nat (length answer))"
    if a: "atomic_send send sent" "length (sent (co_Slave (bs_output st))) < 2 ^ 64"
  proof -
    obtain ys where ys: "sent (co_Slave (bs_output st)) = sent (co_Slave ou0) @ ys"
        "co_Written (bs_output st) = of_nat (length ys)"
      using sends_sent [OF run_prog_sends [OF run(6) sends_none] a(1)] run(5) by auto
    with sends_nothing [OF run(4) a(1) run(5)] a(2) show ?thesis by auto
  qed
  with run show ?thesis by blast
qed

text \<open>
  An output that is not atomic: its first send writes and then fails. The balancer counts nothing,
  asks again and reports success, and the client has got both answers.
\<close>

definition torn_send :: "(bool \<times> bytes) send" where
  "torn_send l = (\<lambda>(torn, ou). (if torn then Ret () else Throw (SystemError 104), True, ou @ bytes_of l))"

text \<open>
  C2. The policy of the attempts, whatever the result: at most \<open>Attempts_\<close> backends are asked, no
  backend twice while there are others left, every attempt after the first was authorised by the
  arbiter after it had seen all failures so far. The balancer throws 503 itself only when the attempts are
  used up; any other exception is the one the last backend threw, and it is an error that must not
  be retried, or part of an answer had been sent, or the arbiter forbade another attempt.
\<close>

theorem balancer_attempts:
  assumes "io_input r i c" and "i inp" and "send_ok send" and "alg_inv (b_BackEnds b)"
    and "unat (b_Attempts b) \<le> 16"
    and "DoRun alg_ops Run r send h inp ou clk b = Some (res, st)"
  shows "let bs = it_Attempts (bs_iter st); n = alg_Size (b_BackEnds (bs_mod st)) in
      length bs \<le> unat (b_Attempts b) \<and> (length bs \<le> n \<longrightarrow> distinct bs) \<and> set bs \<subseteq> Some ` {..<n}
    \<and> (\<forall>j. 0 < j \<and> j < length bs \<longrightarrow> Authorize (foldl register (b_Arbiter b) (replicate j False)))
    \<and> (case res of
         Ret _ \<Rightarrow> bs \<noteq> []
       | Crash \<Rightarrow> False
       | Throw e \<Rightarrow>
           e = HttpError 503 \<and> length bs = unat (b_Attempts b)
         \<or> bs \<noteq> [] \<and> alg.answered Run r send (count_new ou) c (c inp) bs res st
           \<and> (passes_through e \<or> co_Written (bs_output st) \<noteq> 0 \<or> \<not> Authorize (b_Arbiter (bs_mod st))))"
proof -
  have "alg.iter_inv (bs_iter st) (b_BackEnds (bs_mod st))"
    and res: "alg.loop_result Run r send (count_new ou) c (c inp) (b_Arbiter b) (it_Attempts (bs_iter st)) (unat (b_Attempts b)) res st"
    using alg.DoRun_result [OF assms] by auto
  then show ?thesis
    by (cases res) (auto simp: Let_def alg.iter_inv_def alg.loop_result_def split: if_splits)
qed

text \<open>
  C3. With at most 16 attempts configured, \<open>DoRun\<close> of a balancer over "rr", "srr", "weighted2" or
  "hashing" always returns and never crashes: the search of the connection iterator ends, because
  these algorithms reach every backend, and its array of 16 attempts is never overrun.
\<close>

theorem balancer_returns:
  assumes "io_input r i c" and "i inp" and "send_ok send" and "alg_live (b_BackEnds b)"
    and "unat (b_Attempts b) \<le> 16"
  shows "\<exists>res st. DoRun alg_ops Run r send h inp ou clk b = Some (res, st) \<and> res \<noteq> Crash"
  by (rule live.DoRun_returns [OF assms])

text \<open>A balancer with one backend that echoes the request, and a client that sends two chunks.\<close>

definition echo_balancer :: "unit algorithm balancer" where
  "echo_balancer = \<lparr>b_BackEnds = AlgHashing \<lparr>hs_BackEnds = [hashing_backend_new \<lparr>d_Weight = 1, d_Module = Some ()\<rparr>],
      hs_random = sconst 0\<rparr>, b_Arbiter = FakeArbiter, b_Attempts = 2, b_Incomplete = 0\<rparr>"

definition echo_send :: "bytes send" where
  "echo_send l ou = (Ret (), ou @ bytes_of l)"

definition echo_run :: "unit \<Rightarrow> nat \<Rightarrow> prog" where
  "echo_run m left = RecvP (\<lambda>l. SendP l Done Fails) Fails"

lemma echo_ok:
  "send_ok echo_send" "owned_inv [''GET '', ''/'']" "alg_inv (b_BackEnds echo_balancer)"
  "alg_live (b_BackEnds echo_balancer)" "unat (b_Attempts echo_balancer) \<le> 16"
  by (simp_all add: send_ok_def echo_send_def owned_inv_def echo_balancer_def hashing_inv_def hashing_random_inv_def
      covers_def hashing_Size_def)

lemma echo_runs:
  "\<exists>st. DoRun alg_ops echo_run owned_Recv echo_send 0 [''GET '', ''/''] [] (sconst 0) echo_balancer = Some (Ret (), st)
     \<and> length (co_Slave (bs_output st)) < 2 ^ 64"
proof -
  have two: "unat (b_Attempts echo_balancer) = Suc (Suc 0)" by (simp add: echo_balancer_def)
  show ?thesis
    unfolding DoRun_def two
    by (simp add: bal_start_def bal_attempt_def echo_balancer_def echo_run_def Let_def ci_Next_def
      ci_search.simps conn_iter_new_def be_Next_def hashing_ops_def hashing_DoNext_def hashing_Size_def
      AlreadyHave_def rewind_new_def Rewind_def rewind_Recv_def owned_Recv_def count_new_def count_Send_def
      echo_send_def MoveTo_def CopyTo_def)
qed

theorem balancer_success_witness:
  "\<exists>st m s1 left inp0 ou0.
     DoRun alg_ops echo_run owned_Recv echo_send 0 [''GET '', ''/''] [] (sconst 0) echo_balancer = Some (Ret (), st)
   \<and> run_prog (rewind_Recv owned_Recv) (count_Send echo_send) (echo_run (alg_Module m s1) left) inp0 ou0
       = (Ret (), bs_input st, bs_output st) \<and> rewind_content bytes_of inp0 = ''GET /'' \<and> co_Slave ou0 = []"
proof -
  obtain st where st: "DoRun alg_ops echo_run owned_Recv echo_send 0 [''GET '', ''/''] [] (sconst 0) echo_balancer
      = Some (Ret (), st)" and short: "length (co_Slave (bs_output st)) < 2 ^ 64" using echo_runs by blast
  have "atomic_send echo_send (\<lambda>ou. ou)" by (simp add: atomic_send_def echo_send_def)
  with balancer_success [OF own.io_input_axioms echo_ok(2,1,3,5) st, where sent = "\<lambda>ou. ou"] st short
  show ?thesis by auto
qed

lemma balancer_answers_twice:
  "\<exists>st. DoRun alg_ops echo_run owned_Recv torn_send 0 [''GET'', ''/''] (False, []) (sconst 0) echo_balancer
     = Some (Ret (), st) \<and> co_Slave (bs_output st) = (True, ''GET/GET/'')"
proof -
  have two: "unat (b_Attempts echo_balancer) = Suc (Suc 0)" by (simp add: echo_balancer_def)
  show ?thesis
    unfolding DoRun_def two
    by (simp add: bal_start_def bal_attempt_def echo_balancer_def echo_run_def Let_def ci_Next_def
      ci_search.simps conn_iter_new_def be_Next_def hashing_ops_def hashing_DoNext_def hashing_Size_def hashing_OnFail_def
      AlreadyHave_def rewind_new_def Rewind_def rewind_Recv_def owned_Recv_def count_new_def count_Send_def
      torn_send_def MoveTo_def CopyTo_def passes_through_def EPIPE_def)
qed

theorem balancer_attempts_witness:
  "\<exists>res st. DoRun alg_ops echo_run owned_Recv echo_send 0 [''GET '', ''/''] [] (sconst 0) echo_balancer = Some (res, st)
     \<and> length (it_Attempts (bs_iter st)) \<le> 2"
proof -
  obtain st where st: "DoRun alg_ops echo_run owned_Recv echo_send 0 [''GET '', ''/''] [] (sconst 0) echo_balancer
      = Some (Ret (), st)" using echo_runs by blast
  from balancer_attempts [OF own.io_input_axioms echo_ok(2,1,3,5) st] st show ?thesis
    by (auto simp: Let_def echo_balancer_def)
qed

definition broken_run :: "unit \<Rightarrow> nat \<Rightarrow> prog" where
  "broken_run m left = Fails (HttpError 502)"

theorem balancer_returns_witness:
  "\<exists>res st. DoRun alg_ops broken_run owned_Recv echo_send 7 [''GET '', ''/''] [] (sconst 0) echo_balancer
     = Some (res, st) \<and> res \<noteq> Crash"
proof -
  note a = balancer_returns [OF own.io_input_axioms]
  note b = a [OF echo_ok(2)]
  note c = b [OF echo_ok(1)]
  note d = c [OF echo_ok(4,5)]
  show ?thesis by (rule d)
qed

end
